(* ===== verification/Prelude.thy ===== *)
theory Prelude
  imports Main "HOL-Library.Word" "HOL-Library.Monad_Syntax"
begin

text \<open>
  Shared base of the development: the machine types of the C sources, the model of
  memory accesses that can fail, the C string order, and the generic facts about
  arrays, rings and bit masks the components use.

  Conventions used in every theory:
  \<^item> a C function that can abort (a failed \<open>assert\<close>, a read of uninitialised or freed
    memory, an index outside its array) returns \<open>option\<close>, and \<open>None\<close> is the abort; the
    error codes the code returns to its caller are ordinary values inside \<open>Some\<close>;
  \<^item> pointers are natural numbers with \<open>NULL = 0\<close>; a store maps the addresses of live
    objects to their contents;
  \<^item> a section between a lock and the matching unlock of the sources is one atomic
    operation of the model; theory Locks justifies that for the lock implementations.
\<close>

unbundle bit_operations_syntax

type_synonym u8 = "8 word"
type_synonym u16 = "16 word"
type_synonym u32 = "32 word"
type_synonym u64 = "64 word"
type_synonym ptr = nat

abbreviation (input) NULL :: ptr where "NULL \<equiv> 0"

named_theorems ring_simps \<open>rewriting of ring buffers to lists\<close>
named_theorems mask_simps \<open>bit masks as div and mod on natural numbers\<close>
named_theorems arr_simps \<open>checked array accesses that are in range\<close>

section \<open>Checked array accesses\<close>

definition array_get :: "'a list \<Rightarrow> nat \<Rightarrow> 'a option" where
  "array_get xs i = (if i < length xs then Some (xs ! i) else None)"

definition array_set :: "'a list \<Rightarrow> nat \<Rightarrow> 'a \<Rightarrow> 'a list option" where
  "array_set xs i v = (if i < length xs then Some (xs[i := v]) else None)"

definition c_assert :: "bool \<Rightarrow> unit option" where
  "c_assert b = (if b then Some () else None)"

lemma c_assert_simps [simp]:
  "c_assert True = Some ()"
  "c_assert False = None"
  "(c_assert b = Some u) \<longleftrightarrow> b"
  "(c_assert b = None) \<longleftrightarrow> \<not> b"
  by (simp_all add: c_assert_def)

lemma array_get_in [arr_simps]: "i < length xs \<Longrightarrow> array_get xs i = Some (xs ! i)"
  by (simp add: array_get_def)

lemma array_set_in [arr_simps]: "i < length xs \<Longrightarrow> array_set xs i v = Some (xs[i := v])"
  by (simp add: array_set_def)

lemma array_get_Some_iff: "array_get xs i = Some x \<longleftrightarrow> i < length xs \<and> x = xs ! i"
  by (auto simp: array_get_def)

lemma array_set_Some_iff: "array_set xs i v = Some ys \<longleftrightarrow> i < length xs \<and> ys = xs[i := v]"
  by (auto simp: array_set_def)

lemma set_list_update_minus:
  assumes "i < length xs"
  shows "set (xs[i := x]) - {xs ! i} = insert x (set xs) - {xs ! i}"
proof -
  have "y \<in> set (xs[i := x])" if "y \<in> set xs" "y \<noteq> xs ! i" for y
  proof -
    obtain j where j: "j < length xs" "y = xs ! j" using \<open>y \<in> set xs\<close> by (auto simp: in_set_conv_nth)
    then have "xs[i := x] ! j = y" using that(2) by (metis nth_list_update_neq)
    then show ?thesis using j(1) by (metis length_list_update nth_mem)
  qed
  moreover have "x \<in> set (xs[i := x])" using assms by (rule set_update_memI)
  ultimately show ?thesis using set_update_subset_insert[of xs i x] by blast
qed

lemma length_4_conv: "length xs = 4 \<Longrightarrow> \<exists>a b c d. xs = [a, b, c, d]"
  by (auto simp: length_Suc_conv numeral_eq_Suc)

lemma length_8_conv:
  "length xs = 8 \<Longrightarrow> \<exists>a b c d e f g h. xs = [a, b, c, d, e, f, g, h]"
  by (auto simp: length_Suc_conv numeral_eq_Suc)

lemma map_eqI:
  assumes "\<And>x y. f x = Some y \<longleftrightarrow> g x = Some y"
  shows "f = g"
proof
  fix x show "f x = g x"
  proof (cases "f x")
    case None
    then have "\<forall>y. g x \<noteq> Some y" using assms[of x] by simp
    then show ?thesis using None by (simp add: not_Some_eq)
  next
    case (Some y)
    then show ?thesis using assms[of x y] by simp
  qed
qed

lemma map_Some_the: "None \<notin> set xs \<Longrightarrow> map Some (map the xs) = xs"
  by (induction xs) auto

section \<open>Loops over a list\<close>

text \<open>A body that may abort, done for every element in order.\<close>

fun fold_option :: "('a \<Rightarrow> 's \<Rightarrow> 's option) \<Rightarrow> 'a list \<Rightarrow> 's \<Rightarrow> 's option" where
  "fold_option f [] s = Some s"
| "fold_option f (x # xs) s = do { s \<leftarrow> f x s; fold_option f xs s }"

lemma fold_option_append: "fold_option f (xs @ ys) s = do { s \<leftarrow> fold_option f xs s; fold_option f ys s }"
  by (induction xs arbitrary: s) (auto split: bind_splits)

section \<open>Ring buffers\<close>

text \<open>The \<open>k\<close> slots of the circular array \<open>A\<close> that start at index \<open>h\<close>.\<close>

definition ring :: "'a list \<Rightarrow> nat \<Rightarrow> nat \<Rightarrow> 'a list" where
  "ring A h k = map (\<lambda>i. A ! ((h + i) mod length A)) [0..<k]"

lemma length_ring [simp]: "length (ring A h k) = k"
  by (simp add: ring_def)

lemma ring_0 [ring_simps]: "ring A h 0 = []"
  by (simp add: ring_def)

lemma ring_Suc_hd:
  assumes "h < length A"
  shows "ring A h (Suc k) = A ! h # ring A (Suc h mod length A) k"
proof -
  have "[0..<Suc k] = 0 # map Suc [0..<k]"
    by (simp add: map_Suc_upt upt_conv_Cons)
  moreover have "(Suc h mod length A + i) mod length A = (h + Suc i) mod length A" for i
    by (simp add: mod_add_left_eq)
  ultimately show ?thesis
    using assms by (simp add: ring_def)
qed

lemma mod_add_inj:
  fixes i j n h :: nat
  assumes "i < n" "j < n" "(h + i) mod n = (h + j) mod n"
  shows "i = j"
proof -
  have *: "i = j" if "i \<le> j" "i < n" "j < n" "(h + i) mod n = (h + j) mod n" for i j
  proof -
    have "n dvd (h + j) - (h + i)"
      using that by (metis add_le_cancel_left mod_eq_dvd_iff_nat)
    then have "n dvd j - i" by simp
    then show ?thesis using that by (auto dest: dvd_imp_le)
  qed
  show ?thesis using *[of i j] *[of j i] assms by (cases "i \<le> j") auto
qed

lemma ring_snoc_update [ring_simps]:
  assumes "k < length A"
  shows "ring (A[(h + k) mod length A := x]) h (Suc k) = ring A h k @ [x]"
proof (rule nth_equalityI)
  fix i assume "i < length (ring (A[(h + k) mod length A := x]) h (Suc k))"
  then have i: "i < Suc k" by simp
  show "ring (A[(h + k) mod length A := x]) h (Suc k) ! i = (ring A h k @ [x]) ! i"
  proof (cases "i = k")
    case True
    have "(h + k) mod length A < length A"
      using assms by (intro mod_less_divisor) linarith
    then show ?thesis using True by (simp add: ring_def nth_append del: upt_Suc)
  next
    case False
    then have "(h + i) mod length A \<noteq> (h + k) mod length A"
      using i assms mod_add_inj[of i "length A" k h] by auto
    then show ?thesis using i False by (simp add: ring_def nth_append del: upt_Suc)
  qed
qed simp

lemma ring_prefix:
  assumes "k \<le> length B"
  shows "ring (B @ C) 0 k = take k B"
  using assms by (intro nth_equalityI) (auto simp: ring_def nth_append)

text \<open>
  The elements \<open>xs\<close> in the ring \<open>A\<close> from \<open>h\<close> up to \<open>t\<close>; one slot stays free, so that
  equal indices mean an empty ring. A slot never written is \<open>None\<close>.
\<close>

definition ring_rep :: "'a option list \<Rightarrow> nat \<Rightarrow> nat \<Rightarrow> 'a list \<Rightarrow> bool" where
  "ring_rep A h t xs \<longleftrightarrow> h < length A \<and> length xs < length A \<and> t = (h + length xs) mod length A \<and>
     ring A h (length xs) = map Some xs"

lemma ring_rep_bounds: "ring_rep A h t xs \<Longrightarrow> h < length A \<and> t < length A"
  unfolding ring_rep_def by (metis mod_less_divisor not_less_zero zero_less_iff_neq_zero)

lemma ring_rep_Nil_iff: "ring_rep A h t xs \<Longrightarrow> xs = [] \<longleftrightarrow> h = t"
  using mod_add_inj[of 0 "length A" "length xs" h] by (cases A) (auto simp: ring_rep_def)

lemma ring_rep_pop:
  assumes "ring_rep A h t (x # xs)"
  shows "h \<noteq> t" "A ! h = Some x" "ring_rep A (Suc h mod length A) t xs"
proof -
  show "h \<noteq> t" using ring_rep_Nil_iff[OF assms] by simp
  have h: "h < length A" and r: "ring A h (Suc (length xs)) = Some x # map Some xs"
    using assms by (simp_all add: ring_rep_def)
  show "A ! h = Some x" using r ring_Suc_hd[OF h, of "length xs"] by simp
  have "(Suc h mod length A + length xs) mod length A = t"
    using assms by (simp add: ring_rep_def mod_add_left_eq)
  moreover have "Suc h mod length A < length A" using h by (intro mod_less_divisor) linarith
  ultimately show "ring_rep A (Suc h mod length A) t xs"
    using r ring_Suc_hd[OF h, of "length xs"] assms by (simp add: ring_rep_def)
qed

lemma ring_rep_next: "i < n \<Longrightarrow> (if n \<le> i + 1 then 0 else i + 1) = Suc i mod n" for i n :: nat
  by (auto simp: mod_if)

lemma ring_rep_push:
  assumes "ring_rep A h t xs"
  shows "ring (A[t := Some x]) h (Suc (length xs)) = map Some (xs @ [x])"
    and "Suc (length xs) < length A \<Longrightarrow> ring_rep (A[t := Some x]) h (Suc t mod length A) (xs @ [x])"
    and "h = Suc t mod length A \<longleftrightarrow> Suc (length xs) = length A"
proof -
  have a: "h < length A" "length xs < length A" "t = (h + length xs) mod length A" "ring A h (length xs) = map Some xs"
    using assms by (simp_all add: ring_rep_def)
  show r: "ring (A[t := Some x]) h (Suc (length xs)) = map Some (xs @ [x])"
    using ring_snoc_update[OF a(2), of h "Some x"] a by simp
  have t: "Suc t mod length A = (h + Suc (length xs)) mod length A" by (simp add: a(3) mod_Suc_eq)
  show "Suc (length xs) < length A \<Longrightarrow> ring_rep (A[t := Some x]) h (Suc t mod length A) (xs @ [x])"
    using r t a(1) by (simp add: ring_rep_def)
  show "h = Suc t mod length A \<longleftrightarrow> Suc (length xs) = length A"
  proof
    assume "h = Suc t mod length A"
    then have *: "(h + 0) mod length A = (h + Suc (length xs)) mod length A" using t a(1) by simp
    show "Suc (length xs) = length A"
    proof (rule ccontr)
      assume "Suc (length xs) \<noteq> length A"
      then have "Suc (length xs) < length A" using a(2) by simp
      then show False using mod_add_inj[of 0 "length A" "Suc (length xs)" h] * a(1) by (cases A) simp_all
    qed
  next
    assume "Suc (length xs) = length A"
    then show "h = Suc t mod length A" using t a(1) by simp
  qed
qed

lemma ring_rep_fresh: "0 < n \<Longrightarrow> ring_rep (map Some xs @ replicate n None) 0 (length xs) xs"
  using ring_prefix[of "length xs" "map Some xs" "replicate n None"] by (simp add: ring_rep_def)

lemma ring_rep_empty: "0 < length A \<Longrightarrow> ring_rep A 0 0 []"
  by (simp add: ring_rep_def ring_0)

section \<open>Bit masks\<close>

lemma unat_and_mask [mask_simps]: "unat (x AND mask k :: 'a::len word) = unat x mod 2 ^ k"
  by (metis take_bit_eq_mask unsigned_take_bit_eq take_bit_eq_mod)

lemma unat_drop_bit [mask_simps]: "unat (drop_bit k (x :: 'a::len word)) = unat x div 2 ^ k"
  by (simp add: unsigned_drop_bit_eq take_bit_nat_eq_self flip: drop_bit_eq_div)

lemma pow2_mod_mod: "k \<le> n \<Longrightarrow> (x mod 2 ^ n) mod 2 ^ k = (x :: nat) mod 2 ^ k"
  by (simp add: mod_mod_cancel le_imp_power_dvd)

lemma div_mod_pow2:
  assumes "k + j \<le> n"
  shows "(x mod 2 ^ n) div 2 ^ k mod 2 ^ j = (x :: nat) div 2 ^ k mod 2 ^ j"
  using assms by (simp add: div_exp_mod_exp_eq pow2_mod_mod)

lemma or_mask_eq:
  "(a OR mask k = b OR mask k) \<longleftrightarrow> unat (a :: 'a::len word) div 2 ^ k = unat b div 2 ^ k"
proof -
  have "(a OR mask k = b OR mask k) \<longleftrightarrow> drop_bit k a = drop_bit k b"
  proof
    assume "a OR mask k = b OR mask k"
    then have "drop_bit k (a OR mask k) = drop_bit k (b OR mask k)" by simp
    moreover have "drop_bit k (mask k :: 'a word) = 0" by (rule bit_eqI) (simp add: bit_simps)
    ultimately show "drop_bit k a = drop_bit k b" by simp
  next
    assume *: "drop_bit k a = drop_bit k b"
    show "a OR mask k = b OR mask k"
    proof (rule bit_eqI)
      fix n assume "possible_bit TYPE('a word) n"
      then have n: "n < LENGTH('a)" by simp
      have "bit a n = bit b n" if "k \<le> n"
      proof -
        have "bit (drop_bit k a) (n - k) = bit (drop_bit k b) (n - k)" using * by simp
        then show ?thesis using that by (simp add: bit_drop_bit_eq)
      qed
      then show "bit (a OR mask k) n \<longleftrightarrow> bit (b OR mask k) n"
        using n by (cases "k \<le> n") (simp_all add: bit_or_iff bit_mask_iff)
    qed
  qed
  also have "\<dots> \<longleftrightarrow> unat a div 2 ^ k = unat b div 2 ^ k"
    by (metis unat_drop_bit word_unat_eq_iff)
  finally show ?thesis .
qed

lemma take_bit_small: "unat (x :: 'a::len word) < 2 ^ k \<Longrightarrow> take_bit k x = x"
  by (simp add: word_unat_eq_iff unsigned_take_bit_eq take_bit_nat_eq_self)

lemma byte_bits: "bit (b :: u8) i \<Longrightarrow> i < 8"
  using bit_imp_le_length[of b i] by simp

section \<open>C strings\<close>

text \<open>
  \<open>strcmp\<close> on the bytes before the terminating NUL. Only the sign of the result is
  specified by the C standard, and the sources use only the sign.
\<close>

fun strcmp :: "string \<Rightarrow> string \<Rightarrow> int" where
  "strcmp [] [] = 0"
| "strcmp [] (y # ys) = -1"
| "strcmp (x # xs) [] = 1"
| "strcmp (x # xs) (y # ys) =
     (if x = y then strcmp xs ys
      else if (of_char x :: nat) < of_char y then -1 else 1)"

lemma strcmp_eq_0 [simp]: "strcmp a b = 0 \<longleftrightarrow> a = b"
  by (induction a b rule: strcmp.induct) auto

lemma strcmp_refl [simp]: "strcmp a a = 0"
  by simp

lemma strcmp_swap: "strcmp b a = - strcmp a b"
proof (induction a b rule: strcmp.induct)
  case (4 x xs y ys)
  have "(of_char x :: nat) = of_char y \<Longrightarrow> x = y" by simp
  then show ?case using 4 by fastforce
qed auto

lemma strcmp_trans: "strcmp a b < 0 \<Longrightarrow> strcmp b c < 0 \<Longrightarrow> strcmp a c < 0"
proof (induction a b arbitrary: c rule: strcmp.induct)
  case (4 x xs y ys)
  then obtain z zs where c: "c = z # zs" by (cases c) auto
  have inj: "(of_char u :: nat) = of_char v \<Longrightarrow> u = v" for u v :: char by simp
  show ?case
  proof (cases "x = y")
    case True
    then show ?thesis using 4 c by (auto split: if_splits)
  next
    case False
    then show ?thesis using 4 c by (auto split: if_splits)
  qed
next
  case (2 y ys)
  then show ?case by (cases c) auto
qed auto

lemma strcmp_gt_0: "0 < strcmp a b \<longleftrightarrow> strcmp b a < 0"
  using strcmp_swap[of a b] by auto

lemma strcmp_irrefl: "\<not> strcmp a a < 0"
  by simp

lemma strcmp_asym: "strcmp a b < 0 \<Longrightarrow> \<not> strcmp b a < 0"
  using strcmp_swap[of a b] by auto

end
