(* ===== verification/Queue_Spec.thy ===== *)
theory Queue_Spec
  imports Prelude
begin

text \<open>
  The contract of a first-in first-out queue, as the two queues of
  \<^verbatim>\<open>skynet_mq.c\<close> promise it to their clients: the ring of one service
  (\<open>skynet_mq_push\<close>, \<open>skynet_mq_pop\<close>) and the linked list of runnable services
  (\<open>skynet_globalmq_push\<close>, \<open>skynet_globalmq_pop\<close>). The lemmas on whole runs of
  operations are proved here once and reach both queues by interpretation.
\<close>

fun pop_run :: "('s \<Rightarrow> ('s \<times> 'a option) option) \<Rightarrow> nat \<Rightarrow> 's \<Rightarrow> ('s \<times> 'a option list) option" where
  "pop_run pop 0 s = Some (s, [])"
| "pop_run pop (Suc n) s = do {
     (s1, x) \<leftarrow> pop s;
     (s2, xs) \<leftarrow> pop_run pop n s1;
     Some (s2, x # xs)
   }"

fun push_run :: "('s \<Rightarrow> 'a \<Rightarrow> 's option) \<Rightarrow> 's \<Rightarrow> 'a list \<Rightarrow> 's option" where
  "push_run push s [] = Some s"
| "push_run push s (x # xs) = do { s1 \<leftarrow> push s x; push_run push s1 xs }"

locale fifo =
  fixes rep :: "'s \<Rightarrow> 'a list \<Rightarrow> bool"
    and pushable :: "'s \<Rightarrow> 'a list \<Rightarrow> 'a \<Rightarrow> bool"
    and push :: "'s \<Rightarrow> 'a \<Rightarrow> 's option"
    and pop :: "'s \<Rightarrow> ('s \<times> 'a option) option"
  assumes push_rep: "rep s xs \<Longrightarrow> pushable s xs x \<Longrightarrow> \<exists>s'. push s x = Some s' \<and> rep s' (xs @ [x])"
    and pop_rep: "rep s (x # xs) \<Longrightarrow> \<exists>s'. pop s = Some (s', Some x) \<and> rep s' xs"
    and pop_empty: "rep s [] \<Longrightarrow> \<exists>s'. pop s = Some (s', None) \<and> rep s' []"
begin

lemma pop_run_rep:
  "rep s (xs @ ys) \<Longrightarrow>
   \<exists>s'. pop_run pop (length xs) s = Some (s', map Some xs) \<and> rep s' ys"
proof (induction xs arbitrary: s)
  case (Cons x xs)
  then obtain s1 where s1: "pop s = Some (s1, Some x)" "rep s1 (xs @ ys)"
    using pop_rep[of s x "xs @ ys"] by auto
  then obtain s2 where "pop_run pop (length xs) s1 = Some (s2, map Some xs)" "rep s2 ys"
    using Cons.IH by blast
  then show ?case using s1 by simp
qed simp

lemma pop_run_drained:
  "rep s [] \<Longrightarrow> \<exists>s'. pop_run pop n s = Some (s', replicate n None) \<and> rep s' []"
proof (induction n arbitrary: s)
  case (Suc n)
  then obtain s1 where s1: "pop s = Some (s1, None)" "rep s1 []"
    using pop_empty by blast
  then obtain s2 where "pop_run pop n s1 = Some (s2, replicate n None)" "rep s2 []"
    using Suc.IH by blast
  then show ?case using s1 by simp
qed simp

end

text \<open>A queue that accepts every element in every state.\<close>

locale fifo_total = fifo +
  assumes pushable_all: "pushable s xs x"
begin

lemma push_run_rep:
  "rep s xs \<Longrightarrow> \<exists>s'. push_run push s ys = Some s' \<and> rep s' (xs @ ys)"
proof (induction ys arbitrary: s xs)
  case (Cons y ys)
  then obtain s1 where s1: "push s y = Some s1" "rep s1 (xs @ [y])"
    using push_rep pushable_all by blast
  then obtain s2 where "push_run push s1 ys = Some s2" "rep s2 ((xs @ [y]) @ ys)"
    using Cons.IH by blast
  then show ?case using s1 by simp
qed simp

lemma push_run_pop_run:
  assumes "rep s xs"
  shows "\<exists>s1 s2. push_run push s ys = Some s1 \<and>
           pop_run pop (length xs + length ys) s1 = Some (s2, map Some (xs @ ys)) \<and> rep s2 []"
proof -
  obtain s1 where "push_run push s ys = Some s1" "rep s1 (xs @ ys)"
    using push_run_rep[OF assms] by blast
  moreover from this obtain s2 where
    "pop_run pop (length (xs @ ys)) s1 = Some (s2, map Some (xs @ ys))" "rep s2 []"
    using pop_run_rep[of s1 "xs @ ys" "[]"] by auto
  ultimately show ?thesis by auto
qed

end

end
