(* ===== verification/Message_Queue.thy ===== *)
theory Message_Queue
  imports Queue_Spec
begin

text \<open>
  Model of \<^verbatim>\<open>skynet-src/skynet_mq.c\<close>: the ring buffer of messages that every
  service owns, the global linked list of the queues that are ready to be dispatched,
  and the release protocol of a queue whose service has exited.

  A \<open>message_queue\<close> lives at an address of \<open>mq_store\<close>, because the global list links
  queues through their \<open>next\<close> pointers and the flags of one queue are read through
  several references. Slots of the array that were allocated and not yet written are
  \<open>None\<close>. The \<open>int\<close> fields that count or index are natural numbers: they agree with
  the C values while the capacity is below \<open>2 ^ 30\<close>, when \<open>cap * 2\<close> still fits an \<open>int\<close>.
\<close>

section \<open>Data\<close>

record skynet_message =
  msg_source :: u32
  msg_session :: int
  msg_data :: ptr
  msg_sz :: u64

definition MESSAGE_TYPE_MASK :: u64 where
  "MESSAGE_TYPE_MASK = drop_bit 8 (- 1)"

definition MESSAGE_TYPE_SHIFT :: nat where
  "MESSAGE_TYPE_SHIFT = (8 - 1) * 8"

definition DEFAULT_QUEUE_SIZE :: nat where
  "DEFAULT_QUEUE_SIZE = 64"

definition MQ_OVERLOAD :: nat where
  "MQ_OVERLOAD = 1024"

record message_queue =
  mq_handle :: u32
  mq_cap :: nat
  mq_head :: nat
  mq_tail :: nat
  mq_release :: bool
  mq_in_global :: bool
  mq_overload :: nat
  mq_overload_threshold :: nat
  mq_queue :: "skynet_message option list"
  mq_next :: ptr

record mq_world =
  mq_store :: "ptr \<Rightarrow> message_queue option"
  gq_head :: ptr
  gq_tail :: ptr

abbreviation mq_write :: "ptr \<Rightarrow> message_queue \<Rightarrow> 'w mq_world_scheme \<Rightarrow> 'w mq_world_scheme" where
  "mq_write p q s \<equiv> s\<lparr>mq_store := (mq_store s)(p \<mapsto> q)\<rparr>"

section \<open>The global queue\<close>

definition skynet_globalmq_push :: "'w mq_world_scheme \<Rightarrow> ptr \<Rightarrow> 'w mq_world_scheme option" where
  "skynet_globalmq_push s queue = do {
     q \<leftarrow> mq_store s queue;
     c_assert (mq_next q = NULL);
     if gq_tail s \<noteq> NULL then do {
       t \<leftarrow> mq_store s (gq_tail s);
       Some ((mq_write (gq_tail s) (t\<lparr>mq_next := queue\<rparr>) s)\<lparr>gq_tail := queue\<rparr>)
     } else Some (s\<lparr>gq_head := queue, gq_tail := queue\<rparr>)
   }"

definition skynet_globalmq_pop :: "'w mq_world_scheme \<Rightarrow> ('w mq_world_scheme \<times> ptr) option" where
  "skynet_globalmq_pop s =
     (let mq = gq_head s in
      if mq \<noteq> NULL then do {
        q \<leftarrow> mq_store s mq;
        let s1 = s\<lparr>gq_head := mq_next q\<rparr>;
        s2 \<leftarrow> (if mq_next q = NULL
               then do { c_assert (mq = gq_tail s); Some (s1\<lparr>gq_tail := NULL\<rparr>) }
               else Some s1);
        Some (mq_write mq (q\<lparr>mq_next := NULL\<rparr>) s2, mq)
      } else Some (s, mq))"

definition skynet_mq_init :: mq_world where
  "skynet_mq_init = \<lparr>mq_store = Map.empty, gq_head = NULL, gq_tail = NULL\<rparr>"

section \<open>One message queue\<close>

text \<open>\<open>q\<close> is the address \<open>skynet_malloc\<close> returned.\<close>

definition skynet_mq_create :: "u32 \<Rightarrow> ptr \<Rightarrow> 'w mq_world_scheme \<Rightarrow> 'w mq_world_scheme" where
  "skynet_mq_create handle q s =
     mq_write q \<lparr>mq_handle = handle, mq_cap = DEFAULT_QUEUE_SIZE, mq_head = 0, mq_tail = 0,
       mq_release = False, mq_in_global = True, mq_overload = 0,
       mq_overload_threshold = MQ_OVERLOAD,
       mq_queue = replicate DEFAULT_QUEUE_SIZE None, mq_next = NULL\<rparr> s"

definition release_queue :: "ptr \<Rightarrow> 'w mq_world_scheme \<Rightarrow> 'w mq_world_scheme option" where
  "release_queue p s = do {
     q \<leftarrow> mq_store s p;
     c_assert (mq_next q = NULL);
     Some (s\<lparr>mq_store := (mq_store s)(p := None)\<rparr>)
   }"

definition skynet_mq_handle :: "'w mq_world_scheme \<Rightarrow> ptr \<Rightarrow> u32 option" where
  "skynet_mq_handle s p = map_option mq_handle (mq_store s p)"

definition mq_length :: "message_queue \<Rightarrow> nat" where
  "mq_length q =
     (if mq_head q \<le> mq_tail q then mq_tail q - mq_head q
      else mq_tail q + mq_cap q - mq_head q)"

definition skynet_mq_length :: "'w mq_world_scheme \<Rightarrow> ptr \<Rightarrow> nat option" where
  "skynet_mq_length s p = map_option mq_length (mq_store s p)"

definition skynet_mq_overload :: "'w mq_world_scheme \<Rightarrow> ptr \<Rightarrow> ('w mq_world_scheme \<times> nat) option" where
  "skynet_mq_overload s p = do {
     q \<leftarrow> mq_store s p;
     if mq_overload q \<noteq> 0 then Some (mq_write p (q\<lparr>mq_overload := 0\<rparr>) s, mq_overload q)
     else Some (s, 0)
   }"

text \<open>The loop that doubles the overload threshold; it only ends for a positive threshold.\<close>

partial_function (option) overload_loop :: "nat \<Rightarrow> nat \<Rightarrow> nat \<Rightarrow> (nat \<times> nat) option" where
  "overload_loop len overload threshold =
     (if len > threshold then overload_loop len len (threshold * 2)
      else Some (overload, threshold))"

definition mq_pop_locked :: "message_queue \<Rightarrow> (message_queue \<times> skynet_message option) option" where
  "mq_pop_locked q =
     (if mq_head q \<noteq> mq_tail q then do {
        slot \<leftarrow> array_get (mq_queue q) (mq_head q);
        message \<leftarrow> slot;
        let head = (if mq_head q + 1 \<ge> mq_cap q then 0 else mq_head q + 1);
        let len = int (mq_tail q) - int head;
        let len = (if len < 0 then len + int (mq_cap q) else len);
        (overload, threshold) \<leftarrow> overload_loop (nat len) (mq_overload q) (mq_overload_threshold q);
        Some (q\<lparr>mq_head := head, mq_overload := overload, mq_overload_threshold := threshold\<rparr>,
              Some message)
      } else Some (q\<lparr>mq_overload_threshold := MQ_OVERLOAD, mq_in_global := False\<rparr>, None))"

definition skynet_mq_pop :: "'w mq_world_scheme \<Rightarrow> ptr \<Rightarrow> ('w mq_world_scheme \<times> skynet_message option) option" where
  "skynet_mq_pop s p = do {
     q \<leftarrow> mq_store s p;
     (q', m) \<leftarrow> mq_pop_locked q;
     Some (mq_write p q' s, m)
   }"

definition expand_queue :: "message_queue \<Rightarrow> message_queue" where
  "expand_queue q = q\<lparr>
     mq_queue := map (\<lambda>i. mq_queue q ! ((mq_head q + i) mod mq_cap q)) [0..<mq_cap q]
                 @ replicate (mq_cap q) None,
     mq_head := 0, mq_tail := mq_cap q, mq_cap := mq_cap q * 2\<rparr>"

definition mq_push_locked :: "message_queue \<Rightarrow> skynet_message \<Rightarrow> message_queue option" where
  "mq_push_locked q message = do {
     arr \<leftarrow> array_set (mq_queue q) (mq_tail q) (Some message);
     let tail = (if mq_tail q + 1 \<ge> mq_cap q then 0 else mq_tail q + 1);
     let q = q\<lparr>mq_queue := arr, mq_tail := tail\<rparr>;
     Some (if mq_head q = mq_tail q then expand_queue q else q)
   }"

definition skynet_mq_push :: "'w mq_world_scheme \<Rightarrow> ptr \<Rightarrow> skynet_message \<Rightarrow> 'w mq_world_scheme option" where
  "skynet_mq_push s p message = do {
     q \<leftarrow> mq_store s p;
     q' \<leftarrow> mq_push_locked q message;
     if \<not> mq_in_global q'
     then skynet_globalmq_push (mq_write p (q'\<lparr>mq_in_global := True\<rparr>) s) p
     else Some (mq_write p q' s)
   }"

section \<open>Release\<close>

definition skynet_mq_mark_release :: "'w mq_world_scheme \<Rightarrow> ptr \<Rightarrow> 'w mq_world_scheme option" where
  "skynet_mq_mark_release s p = do {
     q \<leftarrow> mq_store s p;
     c_assert (\<not> mq_release q);
     let s1 = mq_write p (q\<lparr>mq_release := True\<rparr>) s;
     if \<not> mq_in_global q then skynet_globalmq_push s1 p else Some s1
   }"

text \<open>
  \<open>drop_func\<close> is the callback with its user data applied; it may send messages, so it
  acts on the whole state.
\<close>

partial_function (option) drop_loop ::
  "(skynet_message \<Rightarrow> 'w mq_world_scheme \<Rightarrow> 'w mq_world_scheme option) \<Rightarrow> ptr \<Rightarrow>
   'w mq_world_scheme \<Rightarrow> 'w mq_world_scheme option" where
  "drop_loop drop_func p s = do {
     (s1, m) \<leftarrow> skynet_mq_pop s p;
     case m of None \<Rightarrow> Some s1
     | Some msg \<Rightarrow> do { s2 \<leftarrow> drop_func msg s1; drop_loop drop_func p s2 }
   }"

definition drop_queue ::
  "(skynet_message \<Rightarrow> 'w mq_world_scheme \<Rightarrow> 'w mq_world_scheme option) \<Rightarrow> ptr \<Rightarrow>
   'w mq_world_scheme \<Rightarrow> 'w mq_world_scheme option" where
  "drop_queue drop_func p s = do { s1 \<leftarrow> drop_loop drop_func p s; release_queue p s1 }"

definition skynet_mq_release ::
  "(skynet_message \<Rightarrow> 'w mq_world_scheme \<Rightarrow> 'w mq_world_scheme option) \<Rightarrow> ptr \<Rightarrow>
   'w mq_world_scheme \<Rightarrow> 'w mq_world_scheme option" where
  "skynet_mq_release drop_func p s = do {
     q \<leftarrow> mq_store s p;
     if mq_release q then drop_queue drop_func p s else skynet_globalmq_push s p
   }"

section \<open>The ring: invariant and abstraction\<close>

definition mq_slots :: "message_queue \<Rightarrow> skynet_message option list" where
  "mq_slots q = ring (mq_queue q) (mq_head q) (mq_length q)"

definition mq_msgs :: "message_queue \<Rightarrow> skynet_message list" where
  "mq_msgs q = map the (mq_slots q)"

definition mq_inv :: "message_queue \<Rightarrow> bool" where
  "mq_inv q \<longleftrightarrow>
     length (mq_queue q) = mq_cap q \<and> mq_head q < mq_cap q \<and> mq_tail q < mq_cap q \<and>
     0 < mq_overload_threshold q \<and> None \<notin> set (mq_slots q)"

definition mq_rep :: "message_queue \<Rightarrow> skynet_message list \<Rightarrow> bool" where
  "mq_rep q xs \<longleftrightarrow> mq_inv q \<and> mq_slots q = map Some xs"

lemma mq_rep_msgs: "mq_inv q \<longleftrightarrow> mq_rep q (mq_msgs q)"
proof
  assume "mq_inv q"
  then have "map (Some \<circ> the) (mq_slots q) = map id (mq_slots q)"
    by (intro map_cong refl) (simp, metis mq_inv_def option.collapse)
  then show "mq_rep q (mq_msgs q)"
    using \<open>mq_inv q\<close> by (simp add: mq_rep_def mq_msgs_def)
qed (simp add: mq_rep_def)

lemma mq_rep_imp_msgs: "mq_rep q xs \<Longrightarrow> mq_msgs q = xs"
  by (simp add: mq_rep_def mq_msgs_def comp_def)

lemma mq_rep_length: "mq_rep q xs \<Longrightarrow> mq_length q = length xs"
  by (metis length_map length_ring mq_rep_def mq_slots_def)

lemma mq_slots_field [simp]:
  "mq_slots (q\<lparr>mq_in_global := b\<rparr>) = mq_slots q"
  "mq_slots (q\<lparr>mq_release := b\<rparr>) = mq_slots q"
  "mq_slots (q\<lparr>mq_next := p\<rparr>) = mq_slots q"
  "mq_slots (q\<lparr>mq_overload := n\<rparr>) = mq_slots q"
  "mq_slots (q\<lparr>mq_overload_threshold := n\<rparr>) = mq_slots q"
  by (simp_all add: mq_slots_def mq_length_def)

lemma mq_rep_field [simp]:
  "mq_rep (q\<lparr>mq_in_global := b\<rparr>) xs = mq_rep q xs"
  "mq_rep (q\<lparr>mq_release := b\<rparr>) xs = mq_rep q xs"
  "mq_rep (q\<lparr>mq_next := p\<rparr>) xs = mq_rep q xs"
  "mq_rep (q\<lparr>mq_overload := n\<rparr>) xs = mq_rep q xs"
  by (simp_all add: mq_rep_def mq_inv_def)

lemma mq_tail_eq:
  assumes "mq_head q < mq_cap q" "mq_tail q < mq_cap q"
  shows "(mq_head q + mq_length q) mod mq_cap q = mq_tail q" "mq_length q < mq_cap q"
proof -
  show "mq_length q < mq_cap q" using assms by (auto simp: mq_length_def)
  show "(mq_head q + mq_length q) mod mq_cap q = mq_tail q"
  proof (cases "mq_head q \<le> mq_tail q")
    case True
    then show ?thesis using assms by (simp add: mq_length_def)
  next
    case False
    then have "mq_head q + mq_length q = mq_tail q + mq_cap q"
      using assms by (simp add: mq_length_def)
    then show ?thesis using assms by simp
  qed
qed

lemma overload_loop_returns:
  assumes "0 < threshold"
  shows "\<exists>ov th. overload_loop len overload threshold = Some (ov, th) \<and> 0 < th \<and> len \<le> th \<and>
           threshold \<le> th \<and> (ov = overload \<or> ov = len)"
  using assms
proof (induction "len - threshold" arbitrary: overload threshold rule: less_induct)
  case less
  show ?case
  proof (cases "len > threshold")
    case True
    then have "len - threshold * 2 < len - threshold" using less.prems by linarith
    then obtain ov th where "overload_loop len len (threshold * 2) = Some (ov, th)" "0 < th"
      "len \<le> th" "threshold * 2 \<le> th" "ov = len"
      using less.hyps[of "threshold * 2" len] less.prems by auto
    then show ?thesis using True by (subst overload_loop.simps) auto
  next
    case False
    then show ?thesis using less.prems by (subst overload_loop.simps) auto
  qed
qed

lemma mq_rep_Nil_iff: "mq_rep q xs \<Longrightarrow> xs = [] \<longleftrightarrow> mq_head q = mq_tail q"
proof -
  assume r: "mq_rep q xs"
  then have "mq_length q = length xs" by (rule mq_rep_length)
  moreover have "mq_length q = 0 \<longleftrightarrow> mq_head q = mq_tail q"
    using r by (auto simp: mq_length_def mq_rep_def mq_inv_def)
  ultimately show ?thesis by auto
qed

lemma mq_pop_empty:
  assumes "mq_rep q []"
  shows "mq_pop_locked q =
           Some (q\<lparr>mq_overload_threshold := MQ_OVERLOAD, mq_in_global := False\<rparr>, None)"
    and "mq_rep (q\<lparr>mq_overload_threshold := MQ_OVERLOAD, mq_in_global := False\<rparr>) []"
proof -
  have "mq_head q = mq_tail q" using mq_rep_Nil_iff[OF assms] by simp
  then show "mq_pop_locked q =
      Some (q\<lparr>mq_overload_threshold := MQ_OVERLOAD, mq_in_global := False\<rparr>, None)"
    by (simp add: mq_pop_locked_def)
  show "mq_rep (q\<lparr>mq_overload_threshold := MQ_OVERLOAD, mq_in_global := False\<rparr>) []"
    using assms by (simp add: mq_rep_def mq_inv_def MQ_OVERLOAD_def)
qed

lemma mq_pop_Cons:
  assumes "mq_rep q (x # xs)"
  shows "\<exists>q'. mq_pop_locked q = Some (q', Some x) \<and> mq_rep q' xs \<and>
           mq_in_global q' = mq_in_global q \<and> mq_handle q' = mq_handle q \<and>
           mq_next q' = mq_next q \<and> mq_release q' = mq_release q"
proof -
  let ?h = "if mq_head q + 1 \<ge> mq_cap q then 0 else mq_head q + 1"
  have inv: "length (mq_queue q) = mq_cap q" "mq_head q < mq_cap q" "mq_tail q < mq_cap q"
      "0 < mq_overload_threshold q" and sl: "mq_slots q = Some x # map Some xs"
    using assms by (auto simp: mq_rep_def mq_inv_def)
  have ne: "mq_head q \<noteq> mq_tail q" using mq_rep_Nil_iff[OF assms] by simp
  have len: "mq_length q = Suc (length xs)" using mq_rep_length[OF assms] by simp
  have h: "?h = Suc (mq_head q) mod mq_cap q" using inv by (auto simp: mod_if)
  have rs: "ring (mq_queue q) (mq_head q) (Suc (length xs)) =
      mq_queue q ! mq_head q # ring (mq_queue q) ?h (length xs)"
    unfolding h using inv ring_Suc_hd[of "mq_head q" "mq_queue q" "length xs"] by simp
  then have hd: "mq_queue q ! mq_head q = Some x"
    and tl: "ring (mq_queue q) ?h (length xs) = map Some xs"
    using sl len by (auto simp: mq_slots_def)
  have g: "array_get (mq_queue q) (mq_head q) = Some (Some x)"
    using inv hd by (simp add: arr_simps)
  let ?len = "nat (if int (mq_tail q) - int ?h < 0 then int (mq_tail q) - int ?h + int (mq_cap q)
                   else int (mq_tail q) - int ?h)"
  obtain ov th where ol: "overload_loop ?len (mq_overload q) (mq_overload_threshold q) = Some (ov, th)"
    "0 < th" using overload_loop_returns[OF inv(4)] by blast
  let ?q = "q\<lparr>mq_head := ?h, mq_overload := ov, mq_overload_threshold := th\<rparr>"
  have "mq_length ?q = length xs"
    using len inv ne by (auto simp: mq_length_def split: if_splits)
  then have "mq_rep ?q xs"
    using inv ol(2) tl by (auto simp: mq_rep_def mq_inv_def mq_slots_def)
  moreover have "mq_pop_locked q = Some (?q, Some x)"
    unfolding mq_pop_locked_def Let_def using ne
    by (simp only: if_True not_False_eq_True g bind.bind_lunit ol(1) prod.case)
  ultimately show ?thesis by simp
qed

lemma mq_push_rep:
  assumes "mq_rep q xs"
  shows "\<exists>q'. mq_push_locked q x = Some q' \<and> mq_rep q' (xs @ [x]) \<and>
           mq_in_global q' = mq_in_global q \<and> mq_handle q' = mq_handle q \<and>
           mq_next q' = mq_next q \<and> mq_release q' = mq_release q \<and>
           mq_cap q' = (if length xs + 1 = mq_cap q then 2 * mq_cap q else mq_cap q)"
proof -
  let ?t = "if mq_tail q + 1 \<ge> mq_cap q then 0 else mq_tail q + 1"
  let ?A = "(mq_queue q)[mq_tail q := Some x]"
  let ?q = "q\<lparr>mq_queue := ?A, mq_tail := ?t\<rparr>"
  have inv: "length (mq_queue q) = mq_cap q" "mq_head q < mq_cap q" "mq_tail q < mq_cap q"
      "0 < mq_overload_threshold q" and sl: "mq_slots q = map Some xs"
    using assms by (auto simp: mq_rep_def mq_inv_def)
  have len: "mq_length q = length xs" using mq_rep_length[OF assms] .
  have lt: "length xs < mq_cap q" and te: "(mq_head q + length xs) mod mq_cap q = mq_tail q"
    using mq_tail_eq[of q] inv len by auto
  have r: "ring ?A (mq_head q) (Suc (length xs)) = map Some (xs @ [x])"
    using ring_snoc_update[of "length xs" "mq_queue q" "mq_head q" "Some x"] inv lt te sl len
    by (simp add: mq_slots_def)
  have st: "array_set (mq_queue q) (mq_tail q) (Some x) = Some ?A"
    using inv by (simp add: arr_simps)
  have full: "mq_head q = ?t \<longleftrightarrow> length xs + 1 = mq_cap q"
    using inv len by (auto simp: mq_length_def split: if_splits)
  show ?thesis
  proof (cases "mq_head q = ?t")
    case True
    then have lx: "Suc (length xs) = mq_cap q" using full by simp
    have A: "map (\<lambda>i. ?A ! ((mq_head q + i) mod mq_cap q)) [0..<mq_cap q] = map Some (xs @ [x])"
      using r lx inv by (simp add: ring_def del: upt_Suc)
    define e where "e = expand_queue ?q"
    have e: "mq_queue e = map Some (xs @ [x]) @ replicate (mq_cap q) None" "mq_head e = 0"
      "mq_tail e = mq_cap q" "mq_cap e = mq_cap q * 2"
      "mq_overload_threshold e = mq_overload_threshold q"
      using A by (simp_all add: e_def expand_queue_def del: upt_Suc map_append)
    have "mq_slots e = map Some (xs @ [x])"
      unfolding mq_slots_def
      using ring_prefix[of "mq_cap q" "map Some (xs @ [x])" "replicate (mq_cap q) None"] lx
      by (simp add: e mq_length_def del: map_append)
    then have "mq_rep e (xs @ [x])"
      using e lx inv by (auto simp: mq_rep_def mq_inv_def)
    moreover have "mq_push_locked q x = Some e"
      using True st by (simp add: mq_push_locked_def Let_def e_def)
    moreover have "mq_in_global e = mq_in_global q" "mq_handle e = mq_handle q"
      "mq_next e = mq_next q" "mq_release e = mq_release q"
      by (simp_all add: e_def expand_queue_def)
    ultimately show ?thesis using lx e(4) by auto
  next
    case False
    have ml: "mq_length ?q = Suc (length xs)"
      using len inv False by (auto simp: mq_length_def split: if_splits)
    have "mq_slots ?q = map Some (xs @ [x])"
      using r unfolding mq_slots_def ml by simp
    then have "mq_rep ?q (xs @ [x])"
      using inv by (auto simp: mq_rep_def mq_inv_def)
    then show ?thesis using False full st
      by (auto simp: mq_push_locked_def Let_def)
  qed
qed

lemma mq_create_rep:
  "\<exists>q. mq_store (skynet_mq_create h p s) p = Some q \<and> mq_rep q [] \<and> mq_in_global q \<and>
       \<not> mq_release q \<and> mq_next q = NULL \<and> mq_handle q = h"
  by (simp add: skynet_mq_create_def mq_rep_def mq_inv_def mq_slots_def mq_length_def
      DEFAULT_QUEUE_SIZE_def MQ_OVERLOAD_def ring_simps)

interpretation mq: fifo_total mq_rep "\<lambda>_ _ _. True" mq_push_locked mq_pop_locked
proof (unfold_locales, goal_cases)
  case (1 s xs x)
  then show ?case using mq_push_rep by blast
next
  case (2 s x xs)
  then show ?case using mq_pop_Cons by blast
next
  case (3 s)
  then show ?case using mq_pop_empty by blast
qed simp

section \<open>The global queue: representation of a list\<close>

text \<open>\<open>mq_linked st p xs\<close>: following \<open>next\<close> from \<open>p\<close> visits exactly the addresses \<open>xs\<close>.\<close>

fun mq_linked :: "(ptr \<Rightarrow> message_queue option) \<Rightarrow> ptr \<Rightarrow> ptr list \<Rightarrow> bool" where
  "mq_linked st p [] \<longleftrightarrow> p = NULL"
| "mq_linked st p (x # xs) \<longleftrightarrow>
     p = x \<and> p \<noteq> NULL \<and>
     (case st x of None \<Rightarrow> False | Some q \<Rightarrow> mq_linked st (mq_next q) xs)"

definition gq_rep :: "'w mq_world_scheme \<Rightarrow> ptr list \<Rightarrow> bool" where
  "gq_rep s xs \<longleftrightarrow>
     mq_linked (mq_store s) (gq_head s) xs \<and> distinct xs \<and>
     gq_tail s = (if xs = [] then NULL else last xs) \<and>
     mq_store s NULL = None \<and>
     (\<forall>p q. mq_store s p = Some q \<longrightarrow> p \<notin> set xs \<longrightarrow> mq_next q = NULL)"

definition gq_pushable :: "'w mq_world_scheme \<Rightarrow> ptr list \<Rightarrow> ptr \<Rightarrow> bool" where
  "gq_pushable s xs p \<longleftrightarrow> p \<notin> set xs \<and> mq_store s p \<noteq> None"

text \<open>The queues without their link fields: what the list operations leave alone.\<close>

definition mq_core :: "message_queue \<Rightarrow> message_queue" where
  "mq_core q = q\<lparr>mq_next := NULL\<rparr>"

definition mq_cores :: "'w mq_world_scheme \<Rightarrow> ptr \<Rightarrow> message_queue option" where
  "mq_cores s = (\<lambda>r. map_option mq_core (mq_store s r))"

lemma mq_core_simps [simp]:
  "mq_core (q\<lparr>mq_next := p\<rparr>) = mq_core q"
  "mq_handle (mq_core q) = mq_handle q" "mq_release (mq_core q) = mq_release q"
  "mq_in_global (mq_core q) = mq_in_global q" "mq_rep (mq_core q) xs = mq_rep q xs"
  "mq_core (mq_core q) = mq_core q" "mq_length (mq_core q) = mq_length q"
  "mq_overload (mq_core q) = mq_overload q"
  by (simp_all add: mq_core_def mq_length_def)

lemma mq_cores_SomeE:
  assumes "mq_cores s p = Some c"
  obtains q where "mq_store s p = Some q" "c = mq_core q"
  using assms by (auto simp: mq_cores_def)

lemma mq_linked_cong:
  "(\<And>x. x \<in> set xs \<Longrightarrow> map_option mq_next (st' x) = map_option mq_next (st x)) \<Longrightarrow>
   mq_linked st' p xs = mq_linked st p xs"
proof (induction xs arbitrary: p)
  case (Cons x xs)
  then have "map_option mq_next (st' x) = map_option mq_next (st x)" by simp
  moreover have "mq_linked st' r xs = mq_linked st r xs" for r
    by (rule Cons.IH) (simp add: Cons.prems)
  ultimately show ?case by (cases "st x"; cases "st' x") auto
qed simp

lemma mq_linked_in_store: "mq_linked st p xs \<Longrightarrow> x \<in> set xs \<Longrightarrow> x \<noteq> NULL \<and> st x \<noteq> None"
  by (induction xs arbitrary: p) (auto split: option.splits)

lemma mq_linked_snoc:
  assumes "mq_linked st p xs" "distinct xs" "xs \<noteq> []" "y \<notin> set xs" "st (last xs) = Some t"
    "st y = Some q" "mq_next q = NULL" "y \<noteq> NULL"
  shows "mq_linked (st(last xs \<mapsto> t\<lparr>mq_next := y\<rparr>)) p (xs @ [y])"
  using assms
proof (induction xs arbitrary: p)
  case (Cons x xs)
  show ?case
  proof (cases "xs = []")
    case True
    then show ?thesis using Cons.prems by auto
  next
    case False
    from Cons.prems obtain u where u: "st x = Some u" "p = x" "p \<noteq> NULL" "mq_linked st (mq_next u) xs"
      by (auto split: option.splits)
    have "x \<noteq> last xs" using Cons.prems False by auto
    then show ?thesis using Cons.IH[OF u(4)] Cons.prems False u by simp
  qed
qed simp

lemma gq_push_rep:
  assumes "gq_rep s xs" "gq_pushable s xs p"
  shows "\<exists>s'. skynet_globalmq_push s p = Some s' \<and> gq_rep s' (xs @ [p]) \<and>
           mq_cores s' = mq_cores s \<and> mq_world.more s' = mq_world.more s"
proof -
  obtain q where q: "mq_store s p = Some q" and np: "p \<notin> set xs"
    using assms(2) by (auto simp: gq_pushable_def)
  have rep: "mq_linked (mq_store s) (gq_head s) xs" "distinct xs" "mq_store s NULL = None"
    "gq_tail s = (if xs = [] then NULL else last xs)"
    and nn: "\<And>p q. mq_store s p = Some q \<Longrightarrow> p \<notin> set xs \<Longrightarrow> mq_next q = NULL"
    using assms(1) by (auto simp: gq_rep_def)
  have p0: "p \<noteq> NULL" using q rep(3) by (metis option.distinct(1))
  show ?thesis
  proof (cases "xs = []")
    case True
    have "gq_rep (s\<lparr>gq_head := p, gq_tail := p\<rparr>) [p]"
      using True rep nn q p0 by (auto simp: gq_rep_def)
    then show ?thesis using True rep nn[OF q np] q
      by (simp add: skynet_globalmq_push_def mq_cores_def)
  next
    case False
    let ?l = "last xs"
    obtain t where t: "mq_store s ?l = Some t" and l0: "?l \<noteq> NULL"
      using mq_linked_in_store[OF rep(1), of ?l] False by auto
    let ?s = "(mq_write ?l (t\<lparr>mq_next := p\<rparr>) s)\<lparr>gq_tail := p\<rparr>"
    have "mq_linked (mq_store ?s) (gq_head s) (xs @ [p])"
      using mq_linked_snoc[OF rep(1,2) False np t q nn[OF q np] p0] by simp
    then have "gq_rep ?s (xs @ [p])"
      using rep nn np l0 False by (auto simp: gq_rep_def)
    moreover have "skynet_globalmq_push s p = Some ?s"
      using q nn[OF q np] rep(4) False l0 t by (simp add: skynet_globalmq_push_def)
    moreover have "mq_cores ?s = mq_cores s" using t by (auto simp: mq_cores_def)
    ultimately show ?thesis by auto
  qed
qed

lemma gq_pop_rep:
  assumes "gq_rep s (x # xs)"
  shows "\<exists>s'. skynet_globalmq_pop s = Some (s', x) \<and> gq_rep s' xs \<and> x \<noteq> NULL \<and>
           mq_cores s' = mq_cores s \<and> mq_world.more s' = mq_world.more s"
proof -
  obtain q where q: "mq_store s x = Some q" "gq_head s = x" "x \<noteq> NULL"
      "mq_linked (mq_store s) (mq_next q) xs"
    and rep: "distinct (x # xs)" "mq_store s NULL = None"
    "gq_tail s = (if xs = [] then x else last xs)"
    and nn: "\<And>p q. mq_store s p = Some q \<Longrightarrow> p \<notin> set (x # xs) \<Longrightarrow> mq_next q = NULL"
    using assms by (auto simp: gq_rep_def split: option.splits)
  have nx: "mq_next q = NULL \<longleftrightarrow> xs = []"
    using q(4) by (cases xs) auto
  define s2 where "s2 = (if xs = [] then s\<lparr>gq_head := NULL, gq_tail := NULL\<rparr>
     else s\<lparr>gq_head := mq_next q\<rparr>)"
  have s2: "mq_store s2 = mq_store s" "gq_head s2 = mq_next q" "mq_world.more s2 = mq_world.more s"
    "gq_tail s2 = (if xs = [] then NULL else last xs)"
    using nx rep(3) by (auto simp: s2_def)
  let ?s = "mq_write x (q\<lparr>mq_next := NULL\<rparr>) s2"
  have "skynet_globalmq_pop s = Some (?s, x)"
    using q nx rep(3) by (auto simp: skynet_globalmq_pop_def s2_def Let_def)
  moreover have "mq_linked (mq_store ?s) (mq_next q) xs"
    using q(4) rep(1) s2 by (subst mq_linked_cong[where st = "mq_store s"]) auto
  then have "gq_rep ?s xs"
    using s2 rep nn q by (auto simp: gq_rep_def)
  moreover have "mq_cores ?s = mq_cores s" using q s2 by (auto simp: mq_cores_def)
  ultimately show ?thesis using q s2 by auto
qed

lemma gq_pop_empty: "gq_rep s [] \<Longrightarrow> skynet_globalmq_pop s = Some (s, NULL)"
  by (simp add: gq_rep_def skynet_globalmq_pop_def)

lemma gq_init_rep: "gq_rep skynet_mq_init []"
  by (simp add: gq_rep_def skynet_mq_init_def)

text \<open>\<open>NULL\<close> is what the C function returns for an empty queue.\<close>

definition globalmq_pop_opt :: "'w mq_world_scheme \<Rightarrow> ('w mq_world_scheme \<times> ptr option) option" where
  "globalmq_pop_opt s =
     map_option (\<lambda>(s', p). (s', if p = NULL then None else Some p)) (skynet_globalmq_pop s)"

interpretation gq: fifo gq_rep gq_pushable skynet_globalmq_push globalmq_pop_opt
proof (unfold_locales, goal_cases)
  case (1 s xs x)
  then show ?case using gq_push_rep by blast
next
  case (2 s x xs)
  then obtain s' where "skynet_globalmq_pop s = Some (s', x)" "gq_rep s' xs" "x \<noteq> NULL"
    using gq_pop_rep by blast
  then show ?case by (simp add: globalmq_pop_opt_def)
next
  case (3 s)
  then show ?case using gq_pop_empty[OF 3] by (simp add: globalmq_pop_opt_def)
qed

section \<open>Operations on a queue inside the store\<close>

lemma gq_rep_write:
  assumes "gq_rep s xs" "mq_store s p = Some q" "mq_next q' = mq_next q"
  shows "gq_rep (mq_write p q' s) xs"
proof -
  have "mq_linked (mq_store (mq_write p q' s)) (gq_head s) xs = mq_linked (mq_store s) (gq_head s) xs"
    using assms by (intro mq_linked_cong) auto
  moreover have "p \<noteq> NULL" using assms by (metis gq_rep_def option.distinct(1))
  ultimately show ?thesis using assms by (auto simp: gq_rep_def)
qed

lemma mq_cores_write [simp]: "mq_cores (mq_write p q s) = (mq_cores s)(p \<mapsto> mq_core q)"
  by (auto simp: mq_cores_def)

lemma skynet_mq_push_spec:
  assumes "gq_rep s xs" "mq_cores s p = Some c" "mq_rep c ms" "\<not> mq_in_global c \<Longrightarrow> p \<notin> set xs"
  shows "\<exists>s' c'. skynet_mq_push s p m = Some s' \<and>
           gq_rep s' (if mq_in_global c then xs else xs @ [p]) \<and>
           mq_cores s' = (mq_cores s)(p \<mapsto> c') \<and> mq_rep c' (ms @ [m]) \<and> mq_in_global c' \<and>
           mq_release c' = mq_release c \<and> mq_handle c' = mq_handle c \<and>
           mq_world.more s' = mq_world.more s"
proof -
  obtain q where q: "mq_store s p = Some q" "c = mq_core q"
    using assms(2) by (rule mq_cores_SomeE)
  then obtain q' where q': "mq_push_locked q m = Some q'" "mq_rep q' (ms @ [m])"
      "mq_in_global q' = mq_in_global q" "mq_handle q' = mq_handle q"
      "mq_next q' = mq_next q" "mq_release q' = mq_release q"
    using mq_push_rep[of q ms m] assms(3) by auto
  show ?thesis
  proof (cases "mq_in_global q")
    case True
    then have "skynet_mq_push s p m = Some (mq_write p q' s)"
      using q q' by (simp add: skynet_mq_push_def)
    then show ?thesis
      using gq_rep_write[OF assms(1) q(1), of q'] q q' True
      by (intro exI[of _ "mq_write p q' s"] exI[of _ "mq_core q'"]) auto
  next
    case False
    let ?q = "q'\<lparr>mq_in_global := True\<rparr>"
    have "gq_rep (mq_write p ?q s) xs"
      using gq_rep_write[OF assms(1) q(1), of ?q] q' by simp
    moreover have "gq_pushable (mq_write p ?q s) xs p"
      using assms(4) q False by (simp add: gq_pushable_def)
    ultimately obtain s' where "skynet_globalmq_push (mq_write p ?q s) p = Some s'"
      "gq_rep s' (xs @ [p])" "mq_cores s' = mq_cores (mq_write p ?q s)"
      "mq_world.more s' = mq_world.more s"
      using gq_push_rep[of "mq_write p ?q s" xs p] by auto
    then show ?thesis
      using q q' False by (intro exI[of _ s'] exI[of _ "mq_core ?q"]) (auto simp: skynet_mq_push_def)
  qed
qed

lemma skynet_mq_pop_spec:
  assumes "gq_rep s xs" "mq_cores s p = Some c" "mq_rep c ms"
  shows "\<exists>s' c'. skynet_mq_pop s p = Some (s', case ms of [] \<Rightarrow> None | m # _ \<Rightarrow> Some m) \<and>
           gq_rep s' xs \<and> mq_cores s' = (mq_cores s)(p \<mapsto> c') \<and> mq_rep c' (tl ms) \<and>
           mq_in_global c' = (mq_in_global c \<and> ms \<noteq> []) \<and>
           mq_release c' = mq_release c \<and> mq_handle c' = mq_handle c \<and>
           mq_world.more s' = mq_world.more s"
proof -
  obtain q where q: "mq_store s p = Some q" "c = mq_core q"
    using assms(2) by (rule mq_cores_SomeE)
  have "\<exists>q'. mq_pop_locked q = Some (q', case ms of [] \<Rightarrow> None | m # _ \<Rightarrow> Some m) \<and>
     mq_rep q' (tl ms) \<and> mq_in_global q' = (mq_in_global q \<and> ms \<noteq> []) \<and>
     mq_release q' = mq_release q \<and> mq_handle q' = mq_handle q \<and> mq_next q' = mq_next q"
  proof (cases ms)
    case Nil
    then show ?thesis using mq_pop_empty[of q] assms(3) q by simp
  next
    case (Cons m ms')
    then show ?thesis using mq_pop_Cons[of q m ms'] assms(3) q by auto
  qed
  then obtain q' where q': "mq_pop_locked q = Some (q', case ms of [] \<Rightarrow> None | m # _ \<Rightarrow> Some m)"
     "mq_rep q' (tl ms)" "mq_in_global q' = (mq_in_global q \<and> ms \<noteq> [])"
     "mq_release q' = mq_release q" "mq_handle q' = mq_handle q" "mq_next q' = mq_next q"
    by blast
  show ?thesis
    using gq_rep_write[OF assms(1) q(1), of q'] q q'
    by (intro exI[of _ "mq_write p q' s"] exI[of _ "mq_core q'"]) (auto simp: skynet_mq_pop_def)
qed

lemma skynet_mq_mark_release_spec:
  assumes "gq_rep s xs" "mq_cores s p = Some c" "\<not> mq_release c" "\<not> mq_in_global c \<Longrightarrow> p \<notin> set xs"
  shows "\<exists>s'. skynet_mq_mark_release s p = Some s' \<and>
           gq_rep s' (if mq_in_global c then xs else xs @ [p]) \<and>
           mq_cores s' = (mq_cores s)(p \<mapsto> c\<lparr>mq_release := True\<rparr>) \<and>
           mq_world.more s' = mq_world.more s"
proof -
  obtain q where q: "mq_store s p = Some q" "c = mq_core q"
    using assms(2) by (rule mq_cores_SomeE)
  let ?q = "q\<lparr>mq_release := True\<rparr>" let ?s = "mq_write p ?q s"
  have core: "mq_core ?q = c\<lparr>mq_release := True\<rparr>" using q by (simp add: mq_core_def)
  have rep: "gq_rep ?s xs" using gq_rep_write[OF assms(1) q(1), of ?q] by simp
  show ?thesis
  proof (cases "mq_in_global q")
    case True
    then show ?thesis using rep q core assms(3)
      by (intro exI[of _ ?s]) (simp add: skynet_mq_mark_release_def)
  next
    case False
    then have "gq_pushable ?s xs p" using assms(4) q by (simp add: gq_pushable_def)
    then obtain s' where "skynet_globalmq_push ?s p = Some s'" "gq_rep s' (xs @ [p])"
      "mq_cores s' = mq_cores ?s" "mq_world.more s' = mq_world.more s"
      using gq_push_rep[OF rep] by auto
    then show ?thesis using False q core assms(3)
      by (intro exI[of _ s']) (simp add: skynet_mq_mark_release_def)
  qed
qed

text \<open>
  What the drop loop needs of its callback: it returns, keeps the global list well formed
  and without \<open>p\<close>, does not touch the queue \<open>p\<close> that is being dropped, and acts on the rest
  of the state as \<open>h\<close>.
\<close>

definition drop_ok ::
  "(skynet_message \<Rightarrow> 'w mq_world_scheme \<Rightarrow> 'w mq_world_scheme option) \<Rightarrow>
   (skynet_message \<Rightarrow> 'w \<Rightarrow> 'w) \<Rightarrow> ptr \<Rightarrow> bool" where
  "drop_ok drop_func h p \<longleftrightarrow> (\<forall>m s xs. gq_rep s xs \<longrightarrow> p \<notin> set xs \<longrightarrow>
      (\<exists>s' ys. drop_func m s = Some s' \<and> gq_rep s' ys \<and> p \<notin> set ys \<and>
             mq_cores s' p = mq_cores s p \<and> mq_world.more s' = h m (mq_world.more s)))"

lemma drop_loop_spec:
  assumes drop: "drop_ok drop_func h p"
    and "gq_rep s xs" "p \<notin> set xs" "mq_cores s p = Some c" "mq_rep c ms"
  shows "\<exists>s' ys c'. drop_loop drop_func p s = Some s' \<and> gq_rep s' ys \<and> p \<notin> set ys \<and>
           mq_cores s' p = Some c' \<and> mq_rep c' [] \<and>
           mq_world.more s' = fold h ms (mq_world.more s)"
  using assms(2-)
proof (induction ms arbitrary: s xs c)
  case Nil
  then obtain s' c' where "skynet_mq_pop s p = Some (s', None)" "gq_rep s' xs" "mq_rep c' []"
    "mq_cores s' = (mq_cores s)(p \<mapsto> c')" "mq_world.more s' = mq_world.more s"
    using skynet_mq_pop_spec[of s xs p c "[]"] by auto
  then show ?case using Nil.prems(2)
    by (intro exI[of _ s'] exI[of _ xs] exI[of _ c']) (simp add: drop_loop.simps)
next
  case (Cons m ms)
  then obtain s1 c1 where s1: "skynet_mq_pop s p = Some (s1, Some m)" "gq_rep s1 xs" "mq_rep c1 ms"
    "mq_cores s1 = (mq_cores s)(p \<mapsto> c1)" "mq_world.more s1 = mq_world.more s"
    using skynet_mq_pop_spec[of s xs p c "m # ms"] by auto
  obtain s2 ys where s2: "drop_func m s1 = Some s2" "gq_rep s2 ys" "p \<notin> set ys"
    "mq_cores s2 p = mq_cores s1 p" "mq_world.more s2 = h m (mq_world.more s1)"
    using drop s1(2) Cons.prems(2) unfolding drop_ok_def by blast
  have "mq_cores s2 p = Some c1" using s1 s2 by simp
  then obtain s' zs c' where "drop_loop drop_func p s2 = Some s'" "gq_rep s' zs" "p \<notin> set zs"
    "mq_cores s' p = Some c'" "mq_rep c' []" "mq_world.more s' = fold h ms (mq_world.more s2)"
    using Cons.IH[OF s2(2,3) _ s1(3)] by blast
  then show ?case using s1 s2
    by (intro exI[of _ s'] exI[of _ zs] exI[of _ c']) (simp add: drop_loop.simps[of _ _ s])
qed

lemma gq_rep_free:
  assumes "gq_rep s xs" "p \<notin> set xs"
  shows "gq_rep (s\<lparr>mq_store := (mq_store s)(p := None)\<rparr>) xs"
proof -
  have "mq_linked ((mq_store s)(p := None)) (gq_head s) xs = mq_linked (mq_store s) (gq_head s) xs"
    using assms by (intro mq_linked_cong) auto
  then show ?thesis using assms by (auto simp: gq_rep_def)
qed

lemma skynet_mq_release_spec:
  assumes drop: "drop_ok drop_func h p"
    and rep: "gq_rep s xs" "p \<notin> set xs" "mq_cores s p = Some c" "mq_rep c ms"
    and rel: "mq_release c"
  shows "\<exists>s' ys. skynet_mq_release drop_func p s = Some s' \<and> gq_rep s' ys \<and>
           mq_store s' p = None \<and> mq_world.more s' = fold h ms (mq_world.more s)"
proof -
  obtain s1 ys c1 where s1: "drop_loop drop_func p s = Some s1" "gq_rep s1 ys" "p \<notin> set ys"
    "mq_cores s1 p = Some c1" "mq_world.more s1 = fold h ms (mq_world.more s)"
    using drop_loop_spec[OF drop rep] by blast
  obtain q q1 where q: "mq_store s p = Some q" "c = mq_core q" and q1: "mq_store s1 p = Some q1"
    using rep(3) s1(4) by (auto simp: mq_cores_def)
  have "mq_next q1 = NULL" using s1(2,3) q1 by (auto simp: gq_rep_def)
  then have "skynet_mq_release drop_func p s = Some (s1\<lparr>mq_store := (mq_store s1)(p := None)\<rparr>)"
    using q rel s1(1) q1 by (simp add: skynet_mq_release_def drop_queue_def release_queue_def)
  then show ?thesis using gq_rep_free[OF s1(2,3)] s1(5) by auto
qed

lemma skynet_mq_release_requeue:
  assumes "gq_rep s xs" "p \<notin> set xs" "mq_cores s p = Some c" "\<not> mq_release c"
  shows "\<exists>s'. skynet_mq_release drop_func p s = Some s' \<and> gq_rep s' (xs @ [p]) \<and>
           mq_cores s' = mq_cores s \<and> mq_world.more s' = mq_world.more s"
proof -
  obtain q where q: "mq_store s p = Some q" "c = mq_core q"
    using assms(3) by (rule mq_cores_SomeE)
  then have "gq_pushable s xs p" using assms(2) by (simp add: gq_pushable_def)
  then show ?thesis using gq_push_rep[OF assms(1)] q assms(4)
    by (simp add: skynet_mq_release_def)
qed

section \<open>Message sizes carry the message type\<close>

definition message_type :: "u64 \<Rightarrow> u64" where
  "message_type sz = drop_bit MESSAGE_TYPE_SHIFT sz"

lemma MESSAGE_TYPE_MASK_eq: "MESSAGE_TYPE_MASK = mask 56"
  by (simp add: MESSAGE_TYPE_MASK_def mask_eq_decr_exp)

end
