(* ===== verification/Transition_Spec.thy ===== *)
theory Transition_Spec
  imports Prelude
begin

text \<open>
  The contract shared by the concurrent parts of the model (the locks and the
  scheduling of message queues): a step relation with an invariant that holds initially
  and is kept by every step. What a client of such a system may use is proved once here:
  the invariant in every reachable state and along every trace.
\<close>

fun trace_of :: "('s \<Rightarrow> 's \<Rightarrow> bool) \<Rightarrow> 's \<Rightarrow> 's list \<Rightarrow> bool" where
  "trace_of step s [] = True"
| "trace_of step s (t # ts) = (step s t \<and> trace_of step t ts)"

locale transition_invariant =
  fixes init :: "'s \<Rightarrow> bool"
    and step :: "'s \<Rightarrow> 's \<Rightarrow> bool"
    and inv :: "'s \<Rightarrow> bool"
  assumes init_inv: "init s \<Longrightarrow> inv s"
    and step_inv: "step s t \<Longrightarrow> inv s \<Longrightarrow> inv t"
begin

lemma steps_inv: "step\<^sup>*\<^sup>* s t \<Longrightarrow> inv s \<Longrightarrow> inv t"
  by (induction rule: rtranclp_induct) (auto intro: step_inv)

lemma reachable_inv: "init s \<Longrightarrow> step\<^sup>*\<^sup>* s t \<Longrightarrow> inv t"
  using steps_inv init_inv by blast

lemma trace_inv: "inv s \<Longrightarrow> trace_of step s ts \<Longrightarrow> t \<in> set ts \<Longrightarrow> inv t"
  by (induction ts arbitrary: s) (auto dest: step_inv)

end

text \<open>A system whose invariant excludes that a state is bad.\<close>

locale safe_system = transition_invariant +
  fixes bad :: "'s \<Rightarrow> bool"
  assumes inv_safe: "inv s \<Longrightarrow> \<not> bad s"
begin

lemma reachable_safe: "init s \<Longrightarrow> step\<^sup>*\<^sup>* s t \<Longrightarrow> \<not> bad t"
  using reachable_inv inv_safe by blast

end

end
