(* ===== verification/Scheduler.thy ===== *)
theory Scheduler
  imports Message_Queue Transition_Spec
begin

text \<open>
  How the threads of a node share the message queues: the protocol that
  \<^verbatim>\<open>skynet_server.c\<close> follows over \<^verbatim>\<open>skynet_mq.c\<close>, as a step relation. A
  queue is in the hands of an \<^emph>\<open>owner\<close> between the moment a thread takes it out of the
  global list (or creates it) and the moment it puts it back, finds it empty or frees it.
  Owners are the local variables \<open>q\<close> of \<open>skynet_context_message_dispatch\<close> and \<open>queue\<close> of
  \<open>skynet_context_new\<close>; one thread can be several owners when a callback launches a service.
  Every step calls the operation of theory Message_Queue that the code calls there.
\<close>

record sched =
  sc_mq :: mq_world
  sc_hold :: "nat \<Rightarrow> ptr"

abbreviation sc_set :: "mq_world \<Rightarrow> nat \<Rightarrow> ptr \<Rightarrow> sched \<Rightarrow> sched" where
  "sc_set m a p s \<equiv> s\<lparr>sc_mq := m, sc_hold := (sc_hold s)(a := p)\<rparr>"

definition mq_alive :: "mq_world \<Rightarrow> ptr \<Rightarrow> bool" where
  "mq_alive m p \<longleftrightarrow> (\<exists>q. mq_store m p = Some q \<and> \<not> mq_release q)"

definition sched_init :: "sched \<Rightarrow> bool" where
  "sched_init s \<longleftrightarrow> sc_mq s = skynet_mq_init \<and> sc_hold s = (\<lambda>_. NULL)"

text \<open>
  The code of each rule: \<open>s_create\<close> skynet_context_new (line 156), \<open>s_publish\<close> the same
  (line 168), \<open>s_take\<close> and \<open>s_yield\<close> the ends of skynet_context_message_dispatch, \<open>s_pop\<close>
  and \<open>s_empty\<close> its loop (the worker holds a reference to the context, so the queue is
  not marked for release), \<open>s_send\<close> skynet_context_push and skynet_context_send (the
  sender holds a reference too), \<open>s_mark\<close> delete_context, \<open>s_release\<close> the branches for a
  service that is gone. The error replies of the drop callback are \<open>s_send\<close> steps.
\<close>

inductive sched_step :: "sched \<Rightarrow> sched \<Rightarrow> bool" where
  s_create: "sc_hold s a = NULL \<Longrightarrow> p \<noteq> NULL \<Longrightarrow> mq_store (sc_mq s) p = None \<Longrightarrow>
     sched_step s (sc_set (skynet_mq_create h p (sc_mq s)) a p s)"
| s_publish: "sc_hold s a \<noteq> NULL \<Longrightarrow> skynet_globalmq_push (sc_mq s) (sc_hold s a) = Some m \<Longrightarrow>
     sched_step s (sc_set m a NULL s)"
| s_take: "sc_hold s a = NULL \<Longrightarrow> skynet_globalmq_pop (sc_mq s) = Some (m, nq) \<Longrightarrow>
     sched_step s (sc_set m a nq s)"
| s_yield: "sc_hold s a \<noteq> NULL \<Longrightarrow> skynet_globalmq_pop (sc_mq s) = Some (m, nq) \<Longrightarrow> nq \<noteq> NULL \<Longrightarrow>
     skynet_globalmq_push m (sc_hold s a) = Some m' \<Longrightarrow> sched_step s (sc_set m' a nq s)"
| s_pop: "sc_hold s a \<noteq> NULL \<Longrightarrow> mq_alive (sc_mq s) (sc_hold s a) \<Longrightarrow>
     skynet_mq_pop (sc_mq s) (sc_hold s a) = Some (m, Some msg) \<Longrightarrow>
     sched_step s (s\<lparr>sc_mq := m\<rparr>)"
| s_empty: "sc_hold s a \<noteq> NULL \<Longrightarrow> mq_alive (sc_mq s) (sc_hold s a) \<Longrightarrow>
     skynet_mq_pop (sc_mq s) (sc_hold s a) = Some (m, None) \<Longrightarrow>
     sched_step s (sc_set m a NULL s)"
| s_send: "mq_alive (sc_mq s) p \<Longrightarrow> skynet_mq_push (sc_mq s) p msg = Some m \<Longrightarrow>
     sched_step s (s\<lparr>sc_mq := m\<rparr>)"
| s_mark: "mq_alive (sc_mq s) p \<Longrightarrow> skynet_mq_mark_release (sc_mq s) p = Some m \<Longrightarrow>
     sched_step s (s\<lparr>sc_mq := m\<rparr>)"
| s_release: "sc_hold s a \<noteq> NULL \<Longrightarrow>
     skynet_mq_release (\<lambda>_ w. Some w) (sc_hold s a) (sc_mq s) = Some m \<Longrightarrow>
     sched_step s (sc_set m a NULL s)"

section \<open>The invariant\<close>

text \<open>
  \<open>xs\<close> is the global list. A live queue is in it or owned exactly when its \<open>in_global\<close>
  flag or its \<open>release\<close> flag is set; it has no messages when the flag is clear; and no
  queue is owned twice or owned while it is in the list.
\<close>

definition sched_queued :: "(nat \<Rightarrow> ptr) \<Rightarrow> ptr list \<Rightarrow> ptr \<Rightarrow> bool" where
  "sched_queued hold xs p \<longleftrightarrow> p \<in> set xs \<or> (\<exists>a. hold a = p)"

definition queue_ok :: "(nat \<Rightarrow> ptr) \<Rightarrow> ptr list \<Rightarrow> ptr \<Rightarrow> message_queue \<Rightarrow> bool" where
  "queue_ok hold xs p c \<longleftrightarrow>
     mq_inv c \<and> (sched_queued hold xs p \<longleftrightarrow> mq_in_global c \<or> mq_release c) \<and>
     (\<not> mq_in_global c \<longrightarrow> mq_msgs c = [])"

definition holds_ok :: "(nat \<Rightarrow> ptr) \<Rightarrow> ptr list \<Rightarrow> (ptr \<Rightarrow> message_queue option) \<Rightarrow> bool" where
  "holds_ok hold xs cs \<longleftrightarrow>
     (\<forall>a. hold a \<noteq> NULL \<longrightarrow> hold a \<notin> set xs \<and> cs (hold a) \<noteq> None) \<and>
     (\<forall>a b. hold a = hold b \<longrightarrow> hold a \<noteq> NULL \<longrightarrow> a = b)"

definition sched_rep :: "sched \<Rightarrow> ptr list \<Rightarrow> bool" where
  "sched_rep s xs \<longleftrightarrow>
     gq_rep (sc_mq s) xs \<and> holds_ok (sc_hold s) xs (mq_cores (sc_mq s)) \<and>
     (\<forall>p c. mq_cores (sc_mq s) p = Some c \<longrightarrow> queue_ok (sc_hold s) xs p c)"

definition sched_inv :: "sched \<Rightarrow> bool" where
  "sched_inv s \<longleftrightarrow> (\<exists>xs. sched_rep s xs)"

definition sched_bad :: "sched \<Rightarrow> bool" where
  "sched_bad s \<longleftrightarrow>
     (\<exists>a b. a \<noteq> b \<and> sc_hold s a \<noteq> NULL \<and> sc_hold s a = sc_hold s b) \<or>
     (\<exists>a xs. gq_rep (sc_mq s) xs \<and> sc_hold s a \<noteq> NULL \<and> sc_hold s a \<in> set xs)"

lemma mq_linked_unique: "mq_linked st p xs \<Longrightarrow> mq_linked st p ys \<Longrightarrow> xs = ys"
proof (induction xs arbitrary: p ys)
  case Nil
  then show ?case by (cases ys) auto
next
  case (Cons x xs)
  then obtain q where q: "st x = Some q" "p = x" "p \<noteq> NULL" "mq_linked st (mq_next q) xs"
    by (auto split: option.splits)
  with Cons.prems(2) obtain zs where "ys = x # zs" "mq_linked st (mq_next q) zs"
    by (cases ys) (auto split: option.splits)
  then show ?case using Cons.IH[OF q(4)] by simp
qed

lemma gq_rep_unique: "gq_rep s xs \<Longrightarrow> gq_rep s ys \<Longrightarrow> xs = ys"
  by (auto simp: gq_rep_def intro: mq_linked_unique)

lemma mq_alive_core: "mq_alive m p \<longleftrightarrow> (\<exists>c. mq_cores m p = Some c \<and> \<not> mq_release c)"
  by (auto simp: mq_alive_def mq_cores_def)

lemma queue_ok_rep:
  "queue_ok hold xs p c \<longleftrightarrow>
     mq_rep c (mq_msgs c) \<and> (sched_queued hold xs p \<longleftrightarrow> mq_in_global c \<or> mq_release c) \<and>
     (\<not> mq_in_global c \<longrightarrow> mq_msgs c = [])"
  by (simp add: queue_ok_def mq_rep_msgs)

lemma gq_rep_NULL: "gq_rep m xs \<Longrightarrow> NULL \<notin> set xs \<and> mq_cores m NULL = None"
  by (auto simp: gq_rep_def mq_cores_def dest: mq_linked_in_store)

lemma gq_rep_live: "gq_rep m xs \<Longrightarrow> x \<in> set xs \<Longrightarrow> mq_cores m x \<noteq> None"
  by (auto simp: gq_rep_def mq_cores_def dest: mq_linked_in_store)

lemma gq_rep_new:
  assumes "gq_rep m xs" "mq_store m p = None" "p \<noteq> NULL" "mq_next q = NULL"
  shows "gq_rep (mq_write p q m) xs"
proof -
  have "p \<notin> set xs" using assms(1,2) by (auto simp: gq_rep_def dest: mq_linked_in_store)
  then have "mq_linked ((mq_store m)(p \<mapsto> q)) (gq_head m) xs = mq_linked (mq_store m) (gq_head m) xs"
    by (intro mq_linked_cong) auto
  then show ?thesis using assms by (auto simp: gq_rep_def)
qed

section \<open>Every step keeps the invariant\<close>

lemma gq_pushable_core: "gq_pushable m xs p \<longleftrightarrow> p \<notin> set xs \<and> mq_cores m p \<noteq> None"
  by (simp add: gq_pushable_def mq_cores_def)

lemma sched_queued_upd:
  "r \<noteq> p \<Longrightarrow> r \<noteq> h a \<Longrightarrow> sched_queued (h(a := p)) xs r = sched_queued h xs r"
  "sched_queued (h(a := p)) xs p"
  unfolding sched_queued_def by (auto; metis fun_upd_apply)+

lemma sched_rep_hold:
  assumes "sched_rep s xs" "sc_hold s a = p" "p \<noteq> NULL"
  shows "p \<notin> set xs \<and> mq_cores (sc_mq s) p \<noteq> None"
  using assms unfolding sched_rep_def holds_ok_def by blast

lemma sched_rep_inj:
  "sched_rep s xs \<Longrightarrow> sc_hold s a = sc_hold s b \<Longrightarrow> sc_hold s a \<noteq> NULL \<Longrightarrow> a = b"
  unfolding sched_rep_def holds_ok_def by blast

lemma sched_rep_core:
  "sched_rep s xs \<Longrightarrow> mq_cores (sc_mq s) p = Some c \<Longrightarrow> queue_ok (sc_hold s) xs p c"
  unfolding sched_rep_def by blast

lemma sched_step_create:
  assumes "sched_rep s xs" "sc_hold s a = NULL" "p \<noteq> NULL" "mq_store (sc_mq s) p = None"
  shows "sched_rep (sc_set (skynet_mq_create h p (sc_mq s)) a p s) xs"
proof -
  let ?m = "skynet_mq_create h p (sc_mq s)"
  obtain q where q: "?m = mq_write p q (sc_mq s)" "mq_rep q []" "mq_in_global q" "mq_next q = NULL"
    using mq_create_rep[of h p "sc_mq s"] by (auto simp: skynet_mq_create_def)
  have np: "mq_cores (sc_mq s) p = None" using assms(4) by (simp add: mq_cores_def)
  then have px: "p \<notin> set xs" and ph: "\<And>b. sc_hold s b \<noteq> p"
    using assms(1,3) gq_rep_live[of "sc_mq s" xs p] sched_rep_hold[OF assms(1)]
    unfolding sched_rep_def by blast+
  have "gq_rep ?m xs" using gq_rep_new[of "sc_mq s" xs p q] assms q by (simp add: sched_rep_def)
  moreover have "holds_ok ((sc_hold s)(a := p)) xs (mq_cores ?m)"
    unfolding holds_ok_def
  proof (intro conjI allI impI)
    fix b assume "((sc_hold s)(a := p)) b \<noteq> NULL"
    then show "((sc_hold s)(a := p)) b \<notin> set xs" "mq_cores ?m (((sc_hold s)(a := p)) b) \<noteq> None"
      using px q sched_rep_hold[OF assms(1), of b] by (auto split: if_splits)
  next
    fix b c assume "((sc_hold s)(a := p)) b = ((sc_hold s)(a := p)) c" "((sc_hold s)(a := p)) b \<noteq> NULL"
    then show "b = c" using ph[of b] ph[of c] sched_rep_inj[OF assms(1), of b c]
      by (cases "b = a"; cases "c = a") auto
  qed
  moreover have "queue_ok ((sc_hold s)(a := p)) xs r c" if "mq_cores ?m r = Some c" for r c
  proof (cases "r = p")
    case True
    then have "c = mq_core q" using that q by simp
    moreover have "mq_msgs q = []" using q by (simp add: mq_rep_imp_msgs)
    ultimately show ?thesis
      using True q mq_rep_imp_msgs[of "mq_core q" "[]"]
      by (auto simp: queue_ok_rep sched_queued_def)
  next
    case False
    then have "mq_cores (sc_mq s) r = Some c" using that q by simp
    moreover from this have "r \<noteq> NULL"
      using gq_rep_NULL[of "sc_mq s" xs] assms(1) by (metis option.distinct(1) sched_rep_def)
    ultimately show ?thesis
      using sched_rep_core[OF assms(1)] assms(2) False by (simp add: queue_ok_def sched_queued_upd)
  qed
  ultimately show ?thesis by (simp add: sched_rep_def)
qed

text \<open>A step that only moves queues between the list and the owners.\<close>

lemma sched_rep_move:
  assumes "sched_rep s xs" "gq_rep m ys" "mq_cores m = mq_cores (sc_mq s)"
    "\<And>p. p \<noteq> NULL \<Longrightarrow> sched_queued h ys p = sched_queued (sc_hold s) xs p"
    "\<And>a. h a \<noteq> NULL \<Longrightarrow> h a \<notin> set ys"
    "\<And>a b. h a = h b \<Longrightarrow> h a \<noteq> NULL \<Longrightarrow> a = b"
  shows "sched_rep (s\<lparr>sc_mq := m, sc_hold := h\<rparr>) ys"
proof -
  have "mq_cores m p \<noteq> None" if "h a = p" "p \<noteq> NULL" for a p
  proof -
    have "sched_queued (sc_hold s) xs p" using that assms(4)[of p] by (auto simp: sched_queued_def)
    moreover have "gq_rep (sc_mq s) xs" using assms(1) by (simp add: sched_rep_def)
    ultimately show ?thesis
      using that(2) gq_rep_live[of "sc_mq s" xs p] sched_rep_hold[OF assms(1)]
      unfolding sched_queued_def assms(3) by blast
  qed
  then have "holds_ok h ys (mq_cores m)" using assms(5,6) by (auto simp: holds_ok_def)
  moreover have "queue_ok h ys p c" if "mq_cores m p = Some c" for p c
  proof -
    have "p \<noteq> NULL" using gq_rep_NULL[OF assms(2)] that by (metis option.distinct(1))
    then show ?thesis
      using assms(1,3,4) that by (auto simp: sched_rep_def queue_ok_def)
  qed
  ultimately show ?thesis using assms(2) by (simp add: sched_rep_def)
qed

text \<open>A step that changes one live queue and perhaps appends it to the list.\<close>

lemma sched_rep_update:
  assumes "sched_rep s xs" "mq_cores (sc_mq s) p = Some c" "gq_rep m ys"
    "mq_cores m = (mq_cores (sc_mq s))(p \<mapsto> c')" "queue_ok h ys p c'"
    "\<And>r. r \<noteq> p \<Longrightarrow> r \<noteq> NULL \<Longrightarrow> sched_queued h ys r = sched_queued (sc_hold s) xs r"
    "\<And>a. h a \<noteq> NULL \<Longrightarrow> h a \<notin> set ys \<and> (h a = p \<or> h a = sc_hold s a)"
    "\<And>a b. h a = h b \<Longrightarrow> h a \<noteq> NULL \<Longrightarrow> a = b"
  shows "sched_rep (s\<lparr>sc_mq := m, sc_hold := h\<rparr>) ys"
proof -
  have "holds_ok h ys (mq_cores m)"
    unfolding holds_ok_def
  proof (intro conjI allI impI)
    fix a assume "h a \<noteq> NULL"
    then show "h a \<notin> set ys" "mq_cores m (h a) \<noteq> None"
      using assms(1,4) assms(7)[of a] by (auto simp: sched_rep_def holds_ok_def)
  qed (use assms(8) in auto)
  moreover have "queue_ok h ys r d" if "mq_cores m r = Some d" for r d
  proof (cases "r = p")
    case False
    have "r \<noteq> NULL" using gq_rep_NULL[OF assms(3)] that by (metis option.distinct(1))
    then show ?thesis
      using assms(1,4) assms(6)[OF False] that False by (auto simp: sched_rep_def queue_ok_def)
  qed (use assms(4,5) that in auto)
  ultimately show ?thesis using assms(3) by (simp add: sched_rep_def)
qed

lemma sched_publish_ok:
  assumes r: "sched_rep s xs" and a: "sc_hold s a \<noteq> NULL"
  shows "\<exists>m. skynet_globalmq_push (sc_mq s) (sc_hold s a) = Some m \<and>
           sched_rep (sc_set m a NULL s) (xs @ [sc_hold s a])"
proof -
  let ?p = "sc_hold s a"
  have "gq_pushable (sc_mq s) xs ?p" using sched_rep_hold[OF r refl a]
    by (simp add: gq_pushable_core)
  then obtain m where m: "skynet_globalmq_push (sc_mq s) ?p = Some m" "gq_rep m (xs @ [?p])"
    "mq_cores m = mq_cores (sc_mq s)"
    using gq_push_rep[of "sc_mq s" xs ?p] r by (auto simp: sched_rep_def)
  have "sched_rep (sc_set m a NULL s) (xs @ [?p])"
  proof (rule sched_rep_move[OF r m(2,3)], goal_cases)
    case (1 q)
    then show ?case by (cases "q = ?p") (auto simp: sched_queued_def)
  next
    case (2 b)
    then show ?case using sched_rep_hold[OF r, of b] sched_rep_inj[OF r, of a b] a
      by (auto split: if_splits)
  next
    case (3 b c)
    then show ?case using sched_rep_inj[OF r, of b c] by (auto split: if_splits)
  qed
  then show ?thesis using m by blast
qed

lemma sched_take_ok:
  assumes r: "sched_rep s xs" and a: "sc_hold s a = NULL"
  shows "\<exists>m. skynet_globalmq_pop (sc_mq s) = Some (m, case xs of [] \<Rightarrow> NULL | x # _ \<Rightarrow> x) \<and>
           sched_rep (sc_set m a (case xs of [] \<Rightarrow> NULL | x # _ \<Rightarrow> x) s) (tl xs)"
proof (cases xs)
  case Nil
  then have "skynet_globalmq_pop (sc_mq s) = Some (sc_mq s, NULL)"
    using r gq_pop_empty[of "sc_mq s"] by (simp add: sched_rep_def)
  moreover have "sc_set (sc_mq s) a NULL s = s" using a by (simp add: fun_upd_idem)
  ultimately show ?thesis using Nil r by simp
next
  case (Cons x ys)
  then obtain m where m: "skynet_globalmq_pop (sc_mq s) = Some (m, x)" "gq_rep m ys"
    "mq_cores m = mq_cores (sc_mq s)" and x: "x \<noteq> NULL" "x \<notin> set ys"
    using gq_pop_rep[of "sc_mq s" x ys] r by (auto simp: sched_rep_def gq_rep_def)
  have hx: "sc_hold s b \<noteq> x" for b using sched_rep_hold[OF r, of b] x Cons by auto
  have "sched_rep (sc_set m a x s) ys"
  proof (rule sched_rep_move[OF r m(2,3)], goal_cases)
    case (1 q)
    then show ?case using a Cons sched_queued_upd(1)[of q x "sc_hold s" a ys]
      sched_queued_upd(2)[of "sc_hold s" a x ys]
      by (cases "q = x") (auto simp: sched_queued_def)
  next
    case (2 b)
    then show ?case using sched_rep_hold[OF r, of b] x Cons by (auto split: if_splits)
  next
    case (3 b c)
    then show ?case using sched_rep_inj[OF r, of b c] hx[of b] hx[of c] by (auto split: if_splits)
  qed
  then show ?thesis using m Cons by auto
qed

text \<open>Putting a queue back behind the next one is a take and a publish of another owner.\<close>

lemma sched_yield_ok:
  assumes r: "sched_rep s (x # xs)" and a: "sc_hold s a \<noteq> NULL"
  shows "\<exists>m m'. skynet_globalmq_pop (sc_mq s) = Some (m, x) \<and> x \<noteq> NULL \<and>
           skynet_globalmq_push m (sc_hold s a) = Some m' \<and>
           sched_rep (sc_set m' a x s) (xs @ [sc_hold s a])"
proof -
  let ?p = "sc_hold s a"
  obtain m where m: "skynet_globalmq_pop (sc_mq s) = Some (m, x)" "gq_rep m xs"
    "mq_cores m = mq_cores (sc_mq s)" and x: "x \<noteq> NULL" "x \<notin> set xs"
    using gq_pop_rep[of "sc_mq s" x xs] r by (auto simp: sched_rep_def gq_rep_def)
  have hx: "sc_hold s b \<noteq> x" for b using sched_rep_hold[OF r, of b] x by auto
  have "gq_pushable m xs ?p"
    using sched_rep_hold[OF r refl a] m(3) by (simp add: gq_pushable_core)
  then obtain m' where m': "skynet_globalmq_push m ?p = Some m'" "gq_rep m' (xs @ [?p])"
    "mq_cores m' = mq_cores (sc_mq s)"
    using gq_push_rep[OF m(2)] m(3) by auto
  have "sched_rep (sc_set m' a x s) (xs @ [?p])"
  proof (rule sched_rep_move[OF r m'(2,3)], goal_cases)
    case (1 q)
    then show ?case using sched_queued_upd(1)[of q x "sc_hold s" a xs] sched_queued_upd(2)[of "sc_hold s" a x xs]
      by (cases "q = x"; cases "q = ?p") (auto simp: sched_queued_def)
  next
    case (2 b)
    then show ?case using sched_rep_hold[OF r, of b] sched_rep_inj[OF r, of a b] x a hx[of a]
      by (auto split: if_splits)
  next
    case (3 b c)
    then show ?case using sched_rep_inj[OF r, of b c] hx[of b] hx[of c] by (auto split: if_splits)
  qed
  then show ?thesis using m m' x by blast
qed

lemma sched_pop_ok:
  assumes r: "sched_rep s xs" and a: "sc_hold s a \<noteq> NULL" and al: "mq_alive (sc_mq s) (sc_hold s a)"
  shows "\<exists>m res. skynet_mq_pop (sc_mq s) (sc_hold s a) = Some (m, res) \<and>
           sched_rep (case res of None \<Rightarrow> sc_set m a NULL s | Some _ \<Rightarrow> s\<lparr>sc_mq := m\<rparr>) xs"
proof -
  let ?p = "sc_hold s a"
  obtain c where c: "mq_cores (sc_mq s) ?p = Some c" "\<not> mq_release c"
    using al by (auto simp: mq_alive_core)
  have px: "?p \<notin> set xs" using sched_rep_hold[OF r refl a] by simp
  have q: "queue_ok (sc_hold s) xs ?p c" using sched_rep_core[OF r c(1)] .
  then have g: "mq_in_global c" "mq_rep c (mq_msgs c)"
    using c by (auto simp: queue_ok_rep sched_queued_def)
  obtain m c' where m: "gq_rep m xs" "mq_cores m = (mq_cores (sc_mq s))(?p \<mapsto> c')"
    "skynet_mq_pop (sc_mq s) ?p = Some (m, case mq_msgs c of [] \<Rightarrow> None | x # _ \<Rightarrow> Some x)"
    "mq_rep c' (tl (mq_msgs c))" "mq_in_global c' = (mq_in_global c \<and> mq_msgs c \<noteq> [])"
    "mq_release c' = mq_release c"
    using skynet_mq_pop_spec[of "sc_mq s" xs ?p c "mq_msgs c"] r c g by (auto simp: sched_rep_def)
  note c'_msgs = mq_rep_imp_msgs[OF m(4)]
  show ?thesis
  proof (cases "mq_msgs c")
    case Nil
    have nq: "\<not> sched_queued ((sc_hold s)(a := NULL)) xs ?p"
      unfolding sched_queued_def using px a sched_rep_inj[OF r, of a] by (metis fun_upd_apply)
    have "sched_rep (sc_set m a NULL s) xs"
    proof (rule sched_rep_update[OF r c(1) m(1,2)], goal_cases)
      case 1
      then show ?case using nq Nil m c c'_msgs by (simp add: queue_ok_rep)
    next
      case (2 q)
      then show ?case by (simp add: sched_queued_upd(1))
    next
      case (3 b)
      then show ?case using sched_rep_hold[OF r, of b] by (auto split: if_splits)
    next
      case (4 b d)
      then show ?case using sched_rep_inj[OF r, of b d] by (auto split: if_splits)
    qed
    then show ?thesis using m(3) Nil by auto
  next
    case (Cons x ys)
    have "sched_rep (s\<lparr>sc_mq := m, sc_hold := sc_hold s\<rparr>) xs"
    proof (rule sched_rep_update[OF r c(1) m(1,2)], goal_cases)
      case 1
      then show ?case using q m c'_msgs g Cons by (simp add: queue_ok_rep)
    next
      case (3 b)
      then show ?case using sched_rep_hold[OF r, of b] by simp
    next
      case (4 b d)
      then show ?case using sched_rep_inj[OF r, of b d] by simp
    qed simp
    then show ?thesis using m(3) Cons by auto
  qed
qed

lemma sched_alive:
  assumes r: "sched_rep s xs" and al: "mq_alive (sc_mq s) p"
  obtains c where "mq_cores (sc_mq s) p = Some c" "\<not> mq_release c" "mq_rep c (mq_msgs c)"
    "\<not> mq_in_global c \<Longrightarrow> p \<notin> set xs" "\<not> mq_in_global c \<Longrightarrow> sc_hold s a \<noteq> p"
    "mq_in_global c \<Longrightarrow> sched_queued (sc_hold s) xs p" "\<not> mq_in_global c \<Longrightarrow> mq_msgs c = []"
proof -
  obtain c where c: "mq_cores (sc_mq s) p = Some c" "\<not> mq_release c"
    using al by (auto simp: mq_alive_core)
  show ?thesis using that[OF c] sched_rep_core[OF r c(1)] c(2)
    by (auto simp: queue_ok_rep sched_queued_def)
qed

text \<open>A change of one live queue that is appended to the list when its flag was clear.\<close>

lemma sched_rep_append:
  assumes r: "sched_rep s xs" and al: "mq_alive (sc_mq s) p"
    and c: "mq_cores (sc_mq s) p = Some c" "gq_rep m (if mq_in_global c then xs else xs @ [p])"
    "mq_cores m = (mq_cores (sc_mq s))(p \<mapsto> c')"
    "mq_rep c' ms" "mq_in_global c' \<or> mq_release c'" "\<not> mq_in_global c' \<longrightarrow> ms = []"
  shows "sched_rep (s\<lparr>sc_mq := m\<rparr>) (if mq_in_global c then xs else xs @ [p])"
proof -
  let ?ys = "if mq_in_global c then xs else xs @ [p]"
  have q: "queue_ok (sc_hold s) xs p c" using sched_rep_core[OF r c(1)] .
  have nr: "\<not> mq_release c" using al c(1) by (auto simp: mq_alive_core)
  have "sched_rep (s\<lparr>sc_mq := m, sc_hold := sc_hold s\<rparr>) ?ys"
  proof (rule sched_rep_update[OF r c(1,2,3)], goal_cases)
    case 1
    have "sched_queued (sc_hold s) ?ys p"
      using q by (auto simp: queue_ok_def sched_queued_def)
    then show ?case using c(4-6) mq_rep_imp_msgs[OF c(4)] by (simp add: queue_ok_rep)
  next
    case (2 u)
    then show ?case by (auto simp: sched_queued_def)
  next
    case (3 b)
    then show ?case using sched_rep_hold[OF r, of b] q nr
      by (auto simp: queue_ok_def sched_queued_def)
  next
    case (4 b d)
    then show ?case using sched_rep_inj[OF r, of b d] by simp
  qed
  then show ?thesis by simp
qed

lemma sched_send_ok:
  assumes r: "sched_rep s xs" and al: "mq_alive (sc_mq s) p"
  shows "\<exists>m ys. skynet_mq_push (sc_mq s) p msg = Some m \<and> sched_rep (s\<lparr>sc_mq := m\<rparr>) ys"
proof -
  obtain c where c: "mq_cores (sc_mq s) p = Some c" "mq_rep c (mq_msgs c)"
    "\<not> mq_in_global c \<Longrightarrow> p \<notin> set xs"
    using sched_alive[OF r al] by blast
  have g: "gq_rep (sc_mq s) xs" using r by (simp add: sched_rep_def)
  obtain m c' where m: "skynet_mq_push (sc_mq s) p msg = Some m"
    "gq_rep m (if mq_in_global c then xs else xs @ [p])"
    "mq_cores m = (mq_cores (sc_mq s))(p \<mapsto> c')" "mq_rep c' (mq_msgs c @ [msg])" "mq_in_global c'"
    using skynet_mq_push_spec[OF g c] by blast
  then show ?thesis using sched_rep_append[OF r al c(1) m(2,3,4)] by blast
qed

lemma sched_mark_ok:
  assumes r: "sched_rep s xs" and al: "mq_alive (sc_mq s) p"
  shows "\<exists>m ys. skynet_mq_mark_release (sc_mq s) p = Some m \<and> sched_rep (s\<lparr>sc_mq := m\<rparr>) ys"
proof -
  obtain c where c: "mq_cores (sc_mq s) p = Some c" "\<not> mq_release c" "mq_rep c (mq_msgs c)"
    "\<not> mq_in_global c \<Longrightarrow> p \<notin> set xs" "\<not> mq_in_global c \<Longrightarrow> mq_msgs c = []"
    using sched_alive[OF r al] by blast
  have g: "gq_rep (sc_mq s) xs" using r by (simp add: sched_rep_def)
  obtain m where m: "skynet_mq_mark_release (sc_mq s) p = Some m"
    "gq_rep m (if mq_in_global c then xs else xs @ [p])"
    "mq_cores m = (mq_cores (sc_mq s))(p \<mapsto> c\<lparr>mq_release := True\<rparr>)"
    using skynet_mq_mark_release_spec[OF g c(1,2,4)] by blast
  have "mq_rep (c\<lparr>mq_release := True\<rparr>) (mq_msgs c)" using c(3) by simp
  then show ?thesis using sched_rep_append[OF r al c(1) m(2,3)] m(1) c(5) by auto
qed

lemma drop_loop_skip:
  assumes "gq_rep s xs" "mq_cores s p = Some c" "mq_rep c ms"
  shows "\<exists>s' c'. drop_loop (\<lambda>_ w. Some w) p s = Some s' \<and> gq_rep s' xs \<and>
           mq_cores s' = (mq_cores s)(p \<mapsto> c')"
  using assms
proof (induction ms arbitrary: s c)
  case Nil
  then show ?case using skynet_mq_pop_spec[of s xs p c "[]"] by (subst drop_loop.simps) fastforce
next
  case (Cons x ms)
  then obtain s1 c1 where s1: "skynet_mq_pop s p = Some (s1, Some x)" "gq_rep s1 xs"
    "mq_cores s1 = (mq_cores s)(p \<mapsto> c1)" "mq_rep c1 ms"
    using skynet_mq_pop_spec[of s xs p c "x # ms"] by auto
  obtain s' c' where "drop_loop (\<lambda>_ w. Some w) p s1 = Some s'" "gq_rep s' xs"
    "mq_cores s' = (mq_cores s)(p \<mapsto> c')"
    using Cons.IH[OF s1(2) _ s1(4)] s1(3) by (metis fun_upd_same fun_upd_upd)
  then show ?case using s1
    by (intro exI[of _ s'] exI[of _ c']) (simp add: drop_loop.simps[of _ _ s])
qed

lemma mq_release_skip:
  assumes "gq_rep s xs" "p \<notin> set xs" "mq_cores s p = Some c" "mq_rep c ms" "mq_release c"
  shows "\<exists>s'. skynet_mq_release (\<lambda>_ w. Some w) p s = Some s' \<and> gq_rep s' xs \<and>
           mq_cores s' = (mq_cores s)(p := None)"
proof -
  obtain s1 c1 where s1: "drop_loop (\<lambda>_ w. Some w) p s = Some s1" "gq_rep s1 xs"
    "mq_cores s1 = (mq_cores s)(p \<mapsto> c1)"
    using drop_loop_skip[OF assms(1,3,4)] by blast
  then obtain q1 where q1: "mq_store s1 p = Some q1" by (metis fun_upd_same mq_cores_SomeE)
  then have "mq_next q1 = NULL" using s1(2) assms(2) by (auto simp: gq_rep_def)
  then have "skynet_mq_release (\<lambda>_ w. Some w) p s = Some (s1\<lparr>mq_store := (mq_store s1)(p := None)\<rparr>)"
    using assms(3,5) s1(1) q1
    by (auto simp: skynet_mq_release_def drop_queue_def release_queue_def mq_cores_def)
  moreover have "mq_cores (s1\<lparr>mq_store := (mq_store s1)(p := None)\<rparr>) = (mq_cores s1)(p := None)"
    by (auto simp: mq_cores_def)
  ultimately show ?thesis using gq_rep_free[OF s1(2) assms(2)] s1(3) by auto
qed

lemma sched_release_ok:
  assumes r: "sched_rep s xs" and a: "sc_hold s a \<noteq> NULL"
  shows "\<exists>m ys. skynet_mq_release (\<lambda>_ w. Some w) (sc_hold s a) (sc_mq s) = Some m \<and>
           sched_rep (sc_set m a NULL s) ys"
proof -
  let ?p = "sc_hold s a"
  have px: "?p \<notin> set xs" using sched_rep_hold[OF r refl a] by simp
  have g: "gq_rep (sc_mq s) xs" using r by (simp add: sched_rep_def)
  obtain c where c: "mq_cores (sc_mq s) ?p = Some c" using sched_rep_hold[OF r refl a] by auto
  then have rep: "mq_rep c (mq_msgs c)" using sched_rep_core[OF r] by (auto simp: queue_ok_rep)
  show ?thesis
  proof (cases "mq_release c")
    case False
    then obtain m where "skynet_mq_release (\<lambda>_ w. Some w) ?p (sc_mq s) = Some m"
      using skynet_mq_release_requeue[OF g px c] by blast
    moreover from this False c have "skynet_globalmq_push (sc_mq s) ?p = Some m"
      by (auto simp: skynet_mq_release_def mq_cores_def)
    ultimately show ?thesis using sched_publish_ok[OF r a] by auto
  next
    case True
    obtain m where m: "skynet_mq_release (\<lambda>_ w. Some w) ?p (sc_mq s) = Some m" "gq_rep m xs"
      "mq_cores m = (mq_cores (sc_mq s))(?p := None)"
      using mq_release_skip[OF g px c rep True] by blast
    have "holds_ok ((sc_hold s)(a := NULL)) xs (mq_cores m)"
      unfolding holds_ok_def
    proof (intro conjI allI impI)
      fix b assume b: "((sc_hold s)(a := NULL)) b \<noteq> NULL"
      then have "sc_hold s b \<noteq> ?p" "b \<noteq> a"
        using sched_rep_inj[OF r, of a b] a by (auto split: if_splits)
      then show "((sc_hold s)(a := NULL)) b \<notin> set xs"
        "mq_cores m (((sc_hold s)(a := NULL)) b) \<noteq> None"
        using sched_rep_hold[OF r refl, of b] b m(3) by auto
    next
      fix b d assume "((sc_hold s)(a := NULL)) b = ((sc_hold s)(a := NULL)) d"
        "((sc_hold s)(a := NULL)) b \<noteq> NULL"
      then show "b = d" using sched_rep_inj[OF r, of b d] by (auto split: if_splits)
    qed
    moreover have "queue_ok ((sc_hold s)(a := NULL)) xs u d" if "mq_cores m u = Some d" for u d
    proof -
      have "u \<noteq> ?p" "mq_cores (sc_mq s) u = Some d" using that m(3) by (auto split: if_splits)
      moreover have "u \<noteq> NULL" using gq_rep_NULL[OF m(2)] that by (metis option.distinct(1))
      ultimately show ?thesis using sched_rep_core[OF r, of u d]
        by (simp add: queue_ok_def sched_queued_upd(1))
    qed
    ultimately have "sched_rep (sc_set m a NULL s) xs" using m(2) by (simp add: sched_rep_def)
    then show ?thesis using m(1) by blast
  qed
qed

lemma sched_step_inv: "sched_step s t \<Longrightarrow> sched_inv s \<Longrightarrow> sched_inv t"
proof (induction rule: sched_step.induct)
  case (s_create s a p h)
  then show ?case using sched_step_create unfolding sched_inv_def by blast
next
  case (s_publish s a m)
  then obtain xs where r: "sched_rep s xs" by (auto simp: sched_inv_def)
  show ?case using sched_publish_ok[OF r s_publish(1)] s_publish(2) by (auto simp: sched_inv_def)
next
  case (s_take s a m nq)
  then obtain xs where r: "sched_rep s xs" by (auto simp: sched_inv_def)
  show ?case using sched_take_ok[OF r s_take(1)] s_take(2) by (auto simp: sched_inv_def)
next
  case (s_yield s a m nq m')
  then obtain xs where r: "sched_rep s xs" by (auto simp: sched_inv_def)
  show ?case
  proof (cases xs)
    case Nil
    then have "skynet_globalmq_pop (sc_mq s) = Some (sc_mq s, NULL)"
      using r gq_pop_empty[of "sc_mq s"] by (simp add: sched_rep_def)
    then show ?thesis using s_yield by simp
  next
    case (Cons x ys)
    then show ?thesis using sched_yield_ok[of s x ys a] r s_yield unfolding sched_inv_def by auto
  qed
next
  case (s_pop s a m msg)
  then obtain xs where r: "sched_rep s xs" by (auto simp: sched_inv_def)
  show ?case using sched_pop_ok[OF r s_pop(1,2)] s_pop(3) by (auto simp: sched_inv_def)
next
  case (s_empty s a m)
  then obtain xs where r: "sched_rep s xs" by (auto simp: sched_inv_def)
  show ?case using sched_pop_ok[OF r s_empty(1,2)] s_empty(3) by (auto simp: sched_inv_def)
next
  case (s_send s p msg m)
  then obtain xs where r: "sched_rep s xs" by (auto simp: sched_inv_def)
  show ?case using sched_send_ok[OF r s_send(1), of msg] s_send(2) by (auto simp: sched_inv_def)
next
  case (s_mark s p m)
  then obtain xs where r: "sched_rep s xs" by (auto simp: sched_inv_def)
  show ?case using sched_mark_ok[OF r s_mark(1)] s_mark(2) by (auto simp: sched_inv_def)
next
  case (s_release s a m)
  then obtain xs where r: "sched_rep s xs" by (auto simp: sched_inv_def)
  show ?case using sched_release_ok[OF r s_release(1)] s_release(2) by (auto simp: sched_inv_def)
qed

interpretation sched: safe_system sched_init sched_step sched_inv sched_bad
proof (unfold_locales, goal_cases)
  case (1 s)
  then have "sched_rep s []"
    using gq_init_rep by (auto simp: sched_init_def sched_rep_def holds_ok_def skynet_mq_init_def mq_cores_def)
  then show ?case by (auto simp: sched_inv_def)
next
  case (2 s t)
  then show ?case by (rule sched_step_inv)
next
  case (3 s)
  then obtain xs where r: "sched_rep s xs" by (auto simp: sched_inv_def)
  have "ys = xs" if "gq_rep (sc_mq s) ys" for ys
    using that r gq_rep_unique unfolding sched_rep_def by blast
  then show ?case using sched_rep_inj[OF r] sched_rep_hold[OF r] unfolding sched_bad_def by blast
qed

end
