(* ===== verification/Locks.thy ===== *)
theory Locks
  imports Transition_Spec
begin

text \<open>
  Models of \<^verbatim>\<open>skynet-src/spinlock.h\<close> and \<^verbatim>\<open>skynet-src/rwlock.h\<close> (the versions
  built on the \<open>__sync\<close> primitives, which are the default) as step relations of any
  number of threads. Every access to the shared word is one step, so the interleavings
  are those of the machine; \<open>__sync_synchronize\<close> only orders accesses and has no step.
  The results justify that the other theories treat a locked section as one operation.
\<close>

section \<open>The spin lock\<close>

record spinlock =
  sl_lock :: int

definition spinlock_init :: spinlock where
  "spinlock_init = \<lparr>sl_lock = 0\<rparr>"

text \<open>\<open>__sync_lock_test_and_set(&lock->lock, 1)\<close>: the old value and the lock set to 1.\<close>

definition test_and_set :: "spinlock \<Rightarrow> int \<times> spinlock" where
  "test_and_set l = (sl_lock l, l\<lparr>sl_lock := 1\<rparr>)"

definition spinlock_unlock :: "spinlock \<Rightarrow> spinlock" where
  "spinlock_unlock l = l\<lparr>sl_lock := 0\<rparr>"

definition spinlock_trylock :: "spinlock \<Rightarrow> bool \<times> spinlock" where
  "spinlock_trylock l = (case test_and_set l of (old, l') \<Rightarrow> (old = 0, l'))"

datatype spin_pc = SOut | SSpin | SIn

record spin_sys =
  sp_lock :: spinlock
  sp_pc :: "nat \<Rightarrow> spin_pc"

definition spin_init :: "spin_sys \<Rightarrow> bool" where
  "spin_init s \<longleftrightarrow> sp_lock s = spinlock_init \<and> sp_pc s = (\<lambda>_. SOut)"

text \<open>\<open>spinlock_lock\<close> is the loop \<open>spin_call\<close>, \<open>spin_busy\<close> repeated, \<open>spin_acquire\<close>.\<close>

inductive spin_step :: "spin_sys \<Rightarrow> spin_sys \<Rightarrow> bool" where
  spin_call: "sp_pc s t = SOut \<Longrightarrow> spin_step s (s\<lparr>sp_pc := (sp_pc s)(t := SSpin)\<rparr>)"
| spin_busy: "sp_pc s t = SSpin \<Longrightarrow> test_and_set (sp_lock s) = (old, l) \<Longrightarrow> old \<noteq> 0 \<Longrightarrow>
     spin_step s (s\<lparr>sp_lock := l\<rparr>)"
| spin_acquire: "sp_pc s t = SSpin \<Longrightarrow> test_and_set (sp_lock s) = (old, l) \<Longrightarrow> old = 0 \<Longrightarrow>
     spin_step s (s\<lparr>sp_lock := l, sp_pc := (sp_pc s)(t := SIn)\<rparr>)"
| spin_try: "sp_pc s t = SOut \<Longrightarrow> spinlock_trylock (sp_lock s) = (ok, l) \<Longrightarrow>
     spin_step s (s\<lparr>sp_lock := l, sp_pc := (sp_pc s)(t := if ok then SIn else SOut)\<rparr>)"
| spin_release: "sp_pc s t = SIn \<Longrightarrow>
     spin_step s (s\<lparr>sp_lock := spinlock_unlock (sp_lock s), sp_pc := (sp_pc s)(t := SOut)\<rparr>)"

definition spin_inv :: "spin_sys \<Rightarrow> bool" where
  "spin_inv s \<longleftrightarrow>
     (sl_lock (sp_lock s) = 0 \<or> sl_lock (sp_lock s) = 1) \<and>
     (sl_lock (sp_lock s) = 1 \<longleftrightarrow> (\<exists>t. sp_pc s t = SIn)) \<and>
     (\<forall>t u. sp_pc s t = SIn \<longrightarrow> sp_pc s u = SIn \<longrightarrow> t = u)"

definition spin_bad :: "spin_sys \<Rightarrow> bool" where
  "spin_bad s \<longleftrightarrow> (\<exists>t u. t \<noteq> u \<and> sp_pc s t = SIn \<and> sp_pc s u = SIn)"

lemma spin_step_inv: "spin_step s t \<Longrightarrow> spin_inv s \<Longrightarrow> spin_inv t"
  by (induction rule: spin_step.induct)
    (auto simp: spin_inv_def test_and_set_def spinlock_trylock_def spinlock_unlock_def
      split: if_splits; metis spin_pc.distinct)+

interpretation spin: safe_system spin_init spin_step spin_inv spin_bad
proof (unfold_locales, goal_cases)
  case (1 s)
  then show ?case by (simp add: spin_init_def spin_inv_def spinlock_init_def)
next
  case (2 s t)
  then show ?case by (rule spin_step_inv)
next
  case (3 s)
  then show ?case by (auto simp: spin_inv_def spin_bad_def)
qed

section \<open>The read-write lock\<close>

record rwlock =
  rw_write :: int
  rw_read :: int

definition rwlock_init :: rwlock where
  "rwlock_init = \<lparr>rw_write = 0, rw_read = 0\<rparr>"

text \<open>
  Program points. Reader: \<open>R0\<close> spins on \<open>write\<close>, \<open>R1\<close> is about to count itself in,
  \<open>R2\<close> has counted itself and is about to look at \<open>write\<close> again, \<open>R3\<close> saw a writer and
  is about to count itself out, \<open>RIn\<close> holds the lock. Writer: \<open>W0\<close> spins on the
  test-and-set, \<open>W1\<close> waits for the readers to leave, \<open>WIn\<close> holds the lock.
\<close>

datatype rw_pc = RWOut | R0 | R1 | R2 | R3 | RIn | W0 | W1 | WIn

record rw_sys =
  rw_lock :: rwlock
  rw_pc :: "nat \<Rightarrow> rw_pc"

definition rw_init :: "rw_sys \<Rightarrow> bool" where
  "rw_init s \<longleftrightarrow> rw_lock s = rwlock_init \<and> rw_pc s = (\<lambda>_. RWOut)"

abbreviation rw_goto :: "nat \<Rightarrow> rw_pc \<Rightarrow> rw_sys \<Rightarrow> rw_sys" where
  "rw_goto t c s \<equiv> s\<lparr>rw_pc := (rw_pc s)(t := c)\<rparr>"

abbreviation rw_add :: "int \<Rightarrow> rw_sys \<Rightarrow> rw_sys" where
  "rw_add n s \<equiv> s\<lparr>rw_lock := (rw_lock s)\<lparr>rw_read := rw_read (rw_lock s) + n\<rparr>\<rparr>"

abbreviation rw_set :: "int \<Rightarrow> rw_sys \<Rightarrow> rw_sys" where
  "rw_set n s \<equiv> s\<lparr>rw_lock := (rw_lock s)\<lparr>rw_write := n\<rparr>\<rparr>"

inductive rlock_step :: "nat \<Rightarrow> rw_sys \<Rightarrow> rw_sys \<Rightarrow> bool" where
  r_call: "rw_pc s t = RWOut \<Longrightarrow> rlock_step t s (rw_goto t R0 s)"
| r_spin: "rw_pc s t = R0 \<Longrightarrow> rw_write (rw_lock s) \<noteq> 0 \<Longrightarrow> rlock_step t s s"
| r_clear: "rw_pc s t = R0 \<Longrightarrow> rw_write (rw_lock s) = 0 \<Longrightarrow> rlock_step t s (rw_goto t R1 s)"
| r_count: "rw_pc s t = R1 \<Longrightarrow> rlock_step t s (rw_goto t R2 (rw_add 1 s))"
| r_enter: "rw_pc s t = R2 \<Longrightarrow> rw_write (rw_lock s) = 0 \<Longrightarrow> rlock_step t s (rw_goto t RIn s)"
| r_retry: "rw_pc s t = R2 \<Longrightarrow> rw_write (rw_lock s) \<noteq> 0 \<Longrightarrow> rlock_step t s (rw_goto t R3 s)"
| r_uncount: "rw_pc s t = R3 \<Longrightarrow> rlock_step t s (rw_goto t R0 (rw_add (-1) s))"

inductive wlock_step :: "nat \<Rightarrow> rw_sys \<Rightarrow> rw_sys \<Rightarrow> bool" where
  w_call: "rw_pc s t = RWOut \<Longrightarrow> wlock_step t s (rw_goto t W0 s)"
| w_busy: "rw_pc s t = W0 \<Longrightarrow> rw_write (rw_lock s) \<noteq> 0 \<Longrightarrow> wlock_step t s (rw_set 1 s)"
| w_take: "rw_pc s t = W0 \<Longrightarrow> rw_write (rw_lock s) = 0 \<Longrightarrow> wlock_step t s (rw_goto t W1 (rw_set 1 s))"
| w_wait: "rw_pc s t = W1 \<Longrightarrow> rw_read (rw_lock s) \<noteq> 0 \<Longrightarrow> wlock_step t s s"
| w_enter: "rw_pc s t = W1 \<Longrightarrow> rw_read (rw_lock s) = 0 \<Longrightarrow> wlock_step t s (rw_goto t WIn s)"

definition rwlock_wunlock :: "nat \<Rightarrow> rw_sys \<Rightarrow> rw_sys" where
  "rwlock_wunlock t s = rw_goto t RWOut (rw_set 0 s)"

definition rwlock_runlock :: "nat \<Rightarrow> rw_sys \<Rightarrow> rw_sys" where
  "rwlock_runlock t s = rw_goto t RWOut (rw_add (-1) s)"

inductive rw_step :: "rw_sys \<Rightarrow> rw_sys \<Rightarrow> bool" where
  rw_rlock: "rlock_step t s s' \<Longrightarrow> rw_step s s'"
| rw_wlock: "wlock_step t s s' \<Longrightarrow> rw_step s s'"
| rw_wunlock: "rw_pc s t = WIn \<Longrightarrow> rw_step s (rwlock_wunlock t s)"
| rw_runlock: "rw_pc s t = RIn \<Longrightarrow> rw_step s (rwlock_runlock t s)"

definition rw_counted :: "rw_sys \<Rightarrow> nat set" where
  "rw_counted s = {t. rw_pc s t \<in> {R2, R3, RIn}}"

definition rw_owners :: "rw_sys \<Rightarrow> nat set" where
  "rw_owners s = {t. rw_pc s t \<in> {W1, WIn}}"

definition rw_inv :: "rw_sys \<Rightarrow> bool" where
  "rw_inv s \<longleftrightarrow>
     finite (rw_counted s) \<and> rw_read (rw_lock s) = int (card (rw_counted s)) \<and>
     (rw_write (rw_lock s) = 0 \<longrightarrow> rw_owners s = {}) \<and>
     (rw_write (rw_lock s) \<noteq> 0 \<longrightarrow> (\<exists>t. rw_owners s = {t})) \<and>
     (\<forall>t u. rw_pc s t = WIn \<longrightarrow> rw_pc s u \<noteq> RIn)"

text \<open>Two writers inside, or a writer and a reader inside.\<close>

definition rw_bad :: "rw_sys \<Rightarrow> bool" where
  "rw_bad s \<longleftrightarrow>
     (\<exists>t u. t \<noteq> u \<and> rw_pc s t = WIn \<and> (rw_pc s u = WIn \<or> rw_pc s u = RIn))"

lemma rw_counted_goto:
  "rw_counted (rw_goto t c s) =
     (if c \<in> {R2, R3, RIn} then insert t (rw_counted s) else rw_counted s - {t})"
  "rw_counted (s\<lparr>rw_lock := l, rw_pc := (rw_pc s)(t := c)\<rparr>) =
     (if c \<in> {R2, R3, RIn} then insert t (rw_counted s) else rw_counted s - {t})"
  by (auto simp: rw_counted_def)

lemma rw_owners_goto:
  "rw_owners (rw_goto t c s) =
     (if c \<in> {W1, WIn} then insert t (rw_owners s) else rw_owners s - {t})"
  "rw_owners (s\<lparr>rw_lock := l, rw_pc := (rw_pc s)(t := c)\<rparr>) =
     (if c \<in> {W1, WIn} then insert t (rw_owners s) else rw_owners s - {t})"
  by (auto simp: rw_owners_def)

lemma rw_sets_lock [simp]:
  "rw_counted (s\<lparr>rw_lock := l\<rparr>) = rw_counted s" "rw_owners (s\<lparr>rw_lock := l\<rparr>) = rw_owners s"
  by (simp_all add: rw_counted_def rw_owners_def)

lemma rw_mem: 
  "t \<in> rw_counted s \<longleftrightarrow> rw_pc s t \<in> {R2, R3, RIn}" "t \<in> rw_owners s \<longleftrightarrow> rw_pc s t \<in> {W1, WIn}"
  by (auto simp: rw_counted_def rw_owners_def)

lemma int_card_remove: "finite A \<Longrightarrow> t \<in> A \<Longrightarrow> int (card (A - {t})) = int (card A) - 1"
  by (metis card_Suc_Diff1 add_diff_cancel_left' of_nat_Suc)

lemmas rw_inv_simps = rw_inv_def rw_counted_goto rw_owners_goto

lemma rlock_step_inv: "rlock_step t s s' \<Longrightarrow> rw_inv s \<Longrightarrow> rw_inv s'"
proof (induction rule: rlock_step.induct)
  case (r_call s t)
  then have "t \<notin> rw_counted s" "t \<notin> rw_owners s" by (auto simp: rw_mem)
  then show ?case using r_call by (auto simp: rw_inv_simps)
next
  case (r_clear s t)
  then have "t \<notin> rw_counted s" "t \<notin> rw_owners s" by (auto simp: rw_mem)
  then show ?case using r_clear by (auto simp: rw_inv_simps)
next
  case (r_count s t)
  then have "t \<notin> rw_counted s" "t \<notin> rw_owners s" by (auto simp: rw_mem)
  then show ?case using r_count by (auto simp: rw_inv_simps)
next
  case (r_enter s t)
  then have "t \<in> rw_counted s" "rw_owners s = {}" by (auto simp: rw_mem rw_inv_def)
  moreover from this have "rw_pc s u \<noteq> WIn" for u by (auto simp: rw_owners_def)
  ultimately show ?case using r_enter by (auto simp: rw_inv_simps insert_absorb)
next
  case (r_retry s t)
  then have "t \<in> rw_counted s" "t \<notin> rw_owners s" by (auto simp: rw_mem)
  then show ?case using r_retry by (auto simp: rw_inv_simps insert_absorb)
next
  case (r_uncount s t)
  then have c: "t \<in> rw_counted s" "t \<notin> rw_owners s" "finite (rw_counted s)"
    by (auto simp: rw_mem rw_inv_def)
  then have "int (card (rw_counted s - {t})) = int (card (rw_counted s)) - 1"
    by (intro int_card_remove)
  then show ?case using r_uncount c by (auto simp: rw_inv_simps)
qed

lemma wlock_step_inv: "wlock_step t s s' \<Longrightarrow> rw_inv s \<Longrightarrow> rw_inv s'"
proof (induction rule: wlock_step.induct)
  case (w_call s t)
  then have "t \<notin> rw_counted s" "t \<notin> rw_owners s" by (auto simp: rw_mem)
  then show ?case using w_call by (auto simp: rw_inv_simps)
next
  case (w_busy s t)
  then show ?case by (auto simp: rw_inv_simps)
next
  case (w_take s t)
  then have "t \<notin> rw_counted s" by (auto simp: rw_mem)
  then show ?case using w_take by (auto simp: rw_inv_simps)
next
  case (w_enter s t)
  then have "t \<notin> rw_counted s" "t \<in> rw_owners s" "rw_counted s = {}"
    by (auto simp: rw_mem rw_inv_def)
  moreover from this have "rw_pc s u \<noteq> RIn" for u by (auto simp: rw_counted_def)
  ultimately show ?case using w_enter by (auto simp: rw_inv_simps insert_absorb)
qed

lemma rw_step_inv: "rw_step s s' \<Longrightarrow> rw_inv s \<Longrightarrow> rw_inv s'"
proof (induction rule: rw_step.induct)
  case (rw_wunlock s t)
  then have t: "t \<in> rw_owners s" "t \<notin> rw_counted s" by (simp_all add: rw_mem)
  then have o: "rw_owners s = {t}" using rw_wunlock.prems by (auto simp: rw_inv_def)
  then have "\<forall>u. u \<noteq> t \<longrightarrow> rw_pc s u \<noteq> WIn" by (auto simp: rw_owners_def)
  then show ?case using rw_wunlock t o by (simp add: rw_inv_simps rwlock_wunlock_def)
next
  case (rw_runlock s t)
  then have c: "t \<in> rw_counted s" "t \<notin> rw_owners s" "finite (rw_counted s)"
    by (auto simp: rw_mem rw_inv_def)
  then have "int (card (rw_counted s - {t})) = int (card (rw_counted s)) - 1"
    by (intro int_card_remove)
  then show ?case using rw_runlock c by (auto simp: rw_inv_simps rwlock_runlock_def)
qed (blast intro: rlock_step_inv wlock_step_inv)+

interpretation rw: safe_system rw_init rw_step rw_inv rw_bad
proof (unfold_locales, goal_cases)
  case (1 s)
  then show ?case by (simp add: rw_init_def rw_inv_def rwlock_init_def rw_counted_def rw_owners_def)
next
  case (2 s t)
  then show ?case by (rule rw_step_inv)
next
  case (3 s)
  have "t = u" if "rw_pc s t = WIn" "rw_pc s u = WIn" for t u
  proof -
    have "t \<in> rw_owners s" "u \<in> rw_owners s" using that by (simp_all add: rw_mem)
    then show ?thesis using 3 by (auto simp: rw_inv_def)
  qed
  then show ?case using 3 by (auto simp: rw_bad_def rw_inv_def)
qed

text \<open>A reader that is alone gets in: the lock does not block without contention.\<close>

text \<open>
  A reader gets into the lock when no writer holds it.
\<close>

lemma rlock_uncontended:
  assumes "rw_pc s t = RWOut" "rw_write (rw_lock s) = 0"
  shows "\<exists>s'. (rlock_step t)\<^sup>*\<^sup>* s s' \<and> rw_pc s' t = RIn"
proof -
  let ?s0 = "rw_goto t R0 s" let ?s1 = "rw_goto t R1 ?s0"
  let ?s2 = "rw_goto t R2 (rw_add 1 ?s1)" let ?s3 = "rw_goto t RIn ?s2"
  have "rlock_step t s ?s0" "rlock_step t ?s0 ?s1" "rlock_step t ?s1 ?s2" "rlock_step t ?s2 ?s3"
    using assms rlock_step.r_call[of s t] rlock_step.r_clear[of ?s0 t]
      rlock_step.r_count[of ?s1 t] rlock_step.r_enter[of ?s2 t] by simp_all
  then have "(rlock_step t)\<^sup>*\<^sup>* s ?s3" by (meson converse_rtranclp_into_rtranclp rtranclp.rtrancl_refl)
  then show ?thesis by (intro exI[of _ ?s3]) simp
qed

end
