(* ===== verification/Table_Spec.thy ===== *)
theory Table_Spec
  imports Prelude
begin

text \<open>
  The contract of a table that allocates keys: what \<^verbatim>\<open>skynet_handle.c\<close> promises its
  clients about handles. \<open>add\<close> stores a value under a key the table chooses, \<open>del\<close>
  removes a key, \<open>lookup\<close> finds the value of a key. The consequences for whole runs of
  registrations are proved once here.
\<close>

fun add_run :: "('s \<Rightarrow> 'v \<Rightarrow> ('s \<times> 'k) option) \<Rightarrow> 's \<Rightarrow> 'v list \<Rightarrow> ('s \<times> 'k list) option" where
  "add_run add s [] = Some (s, [])"
| "add_run add s (v # vs) = do {
     (s1, k) \<leftarrow> add s v;
     (s2, ks) \<leftarrow> add_run add s1 vs;
     Some (s2, k # ks)
   }"

locale key_table =
  fixes inv :: "'s \<Rightarrow> bool"
    and lookup :: "'s \<Rightarrow> 'k \<Rightarrow> 'v option"
    and addable :: "'s \<Rightarrow> 'v \<Rightarrow> bool"
    and add :: "'s \<Rightarrow> 'v \<Rightarrow> ('s \<times> 'k) option"
    and del :: "'s \<Rightarrow> 'k \<Rightarrow> 's option"
  assumes add_ok: "inv s \<Longrightarrow> addable s v \<Longrightarrow>
      \<exists>s' k. add s v = Some (s', k) \<and> inv s' \<and> lookup s k = None \<and> lookup s' = (lookup s)(k \<mapsto> v)"
    and add_addable: "inv s \<Longrightarrow> add s v = Some (s', k) \<Longrightarrow> addable s v"
    and del_ok: "inv s \<Longrightarrow> \<exists>s'. del s k = Some s' \<and> inv s' \<and> lookup s' = (lookup s)(k := None)"
begin

lemma add_lookup:
  assumes "inv s" "add s v = Some (s', k)"
  shows "inv s'" "lookup s k = None" "lookup s' = (lookup s)(k \<mapsto> v)"
  using add_ok[OF assms(1) add_addable[OF assms]] assms(2) by auto

lemma add_run_lookup:
  "inv s \<Longrightarrow> add_run add s vs = Some (s', ks) \<Longrightarrow>
   inv s' \<and> length ks = length vs \<and> distinct ks \<and> (\<forall>k\<in>set ks. lookup s k = None) \<and>
   (\<forall>i<length vs. lookup s' (ks ! i) = Some (vs ! i)) \<and>
   (\<forall>k. k \<notin> set ks \<longrightarrow> lookup s' k = lookup s k)"
proof (induction vs arbitrary: s ks)
  case (Cons v vs)
  then obtain s1 k ks1 where s1: "add s v = Some (s1, k)" "add_run add s1 vs = Some (s', ks1)"
    "ks = k # ks1"
    by (auto split: bind_splits)
  note a = add_lookup[OF Cons.prems(1) s1(1)]
  note ih = Cons.IH[OF a(1) s1(2)]
  then have "k \<notin> set ks1" using a(3) by auto
  then show ?case using ih a s1(3) by (auto simp: nth_Cons split: nat.splits if_splits)
qed simp

lemma add_del_lookup:
  assumes "inv s" "add s v = Some (s', k)"
  shows "\<exists>s''. del s' k = Some s'' \<and> inv s'' \<and> lookup s'' = lookup s"
proof -
  note a = add_lookup[OF assms]
  obtain s'' where "del s' k = Some s''" "inv s''" "lookup s'' = (lookup s')(k := None)"
    using del_ok[OF a(1)] by blast
  then show ?thesis using a(2,3) by (intro exI[of _ s'']) (auto simp: fun_eq_iff)
qed

end

end
