(* ===== verification/Handle.thy ===== *)
theory Handle
  imports Table_Spec
begin

text \<open>
  Model of \<^verbatim>\<open>skynet-src/skynet_handle.c\<close>: the table that gives every service a 32-bit
  handle and finds a service by handle, and the sorted array of local names.

  The table stores addresses of contexts. The handle of a context is a field of the
  context (\<open>skynet_context_handle\<close>), so the operations take \<open>ch\<close>, the function that
  reads that field; \<open>ch c = None\<close> is a read through a bad pointer. Reference counting of
  the contexts found here belongs to theory Server. Entries of the name array that were
  allocated and not written are \<open>None\<close>.
\<close>

section \<open>Data\<close>

definition HANDLE_MASK :: u32 where
  "HANDLE_MASK = 0xffffff"

definition HANDLE_REMOTE_SHIFT :: nat where
  "HANDLE_REMOTE_SHIFT = 24"

definition DEFAULT_SLOT_SIZE :: nat where
  "DEFAULT_SLOT_SIZE = 4"

definition MAX_SLOT_SIZE :: nat where
  "MAX_SLOT_SIZE = 0x40000000"

record handle_name =
  hn_name :: string
  hn_handle :: u32

record handle_storage =
  hs_harbor :: u32
  hs_handle_index :: u32
  hs_slot_size :: nat
  hs_slot :: "ptr list"
  hs_name_cap :: nat
  hs_name_count :: nat
  hs_name :: "handle_name option list"

type_synonym ctx_handle = "ptr \<Rightarrow> u32 option"

section \<open>Handles\<close>

definition slot_hash :: "u32 \<Rightarrow> nat \<Rightarrow> nat" where
  "slot_hash handle sz = unat (handle AND (of_nat sz - 1))"

text \<open>
  The inner loop of \<open>skynet_handle_register\<close>: from index \<open>i\<close>, at most \<open>n\<close> more candidates.
\<close>

fun register_scan :: "handle_storage \<Rightarrow> nat \<Rightarrow> nat \<Rightarrow> (u32 \<times> nat) option option" where
  "register_scan s i 0 = Some None"
| "register_scan s i (Suc n) =
     (let handle = (of_nat i + hs_handle_index s) AND HANDLE_MASK;
          hash = slot_hash handle (hs_slot_size s)
      in do {
        c \<leftarrow> array_get (hs_slot s) hash;
        if c = NULL then Some (Some (handle, hash)) else register_scan s (Suc i) n
      })"

fun rehash :: "ctx_handle \<Rightarrow> nat \<Rightarrow> ptr list \<Rightarrow> ptr list \<Rightarrow> ptr list option" where
  "rehash ch sz [] new_slot = Some new_slot"
| "rehash ch sz (c # cs) new_slot = do {
     h \<leftarrow> ch c;
     let hash = slot_hash h sz;
     old \<leftarrow> array_get new_slot hash;
     c_assert (old = NULL);
     new_slot \<leftarrow> array_set new_slot hash c;
     rehash ch sz cs new_slot
   }"

partial_function (option) skynet_handle_register ::
  "ctx_handle \<Rightarrow> ptr \<Rightarrow> handle_storage \<Rightarrow> (handle_storage \<times> u32) option" where
  "skynet_handle_register ch ctx s = do {
     found \<leftarrow> register_scan s 0 (hs_slot_size s);
     case found of
       Some (handle, hash) \<Rightarrow> do {
         slot \<leftarrow> array_set (hs_slot s) hash ctx;
         Some (s\<lparr>hs_slot := slot, hs_handle_index := handle + 1\<rparr>, handle OR hs_harbor s)
       }
     | None \<Rightarrow> do {
         c_assert (hs_slot_size s * 2 - 1 \<le> unat HANDLE_MASK);
         new_slot \<leftarrow> rehash ch (hs_slot_size s * 2) (hs_slot s) (replicate (hs_slot_size s * 2) NULL);
         skynet_handle_register ch ctx (s\<lparr>hs_slot := new_slot, hs_slot_size := hs_slot_size s * 2\<rparr>)
       }
   }"

text \<open>The loop that removes the names of a retired handle: \<open>n\<close> entries left, read at \<open>i\<close>, write at \<open>j\<close>.\<close>

fun retire_names :: "u32 \<Rightarrow> nat \<Rightarrow> nat \<Rightarrow> nat \<Rightarrow> handle_name option list \<Rightarrow>
    (handle_name option list \<times> nat) option" where
  "retire_names handle i j 0 name = Some (name, j)"
| "retire_names handle i j (Suc n) name = do {
     slot \<leftarrow> array_get name i;
     e \<leftarrow> slot;
     if hn_handle e = handle then retire_names handle (Suc i) j n name
     else do {
       name \<leftarrow> (if i \<noteq> j then array_set name j (Some e) else Some name);
       retire_names handle (Suc i) (Suc j) n name
     }
   }"

text \<open>
  The locked part of \<open>skynet_handle_retire\<close>: the context to release (\<open>NULL\<close> for none);
  the function returns 1 exactly when there is one.
\<close>

definition handle_retire :: "ctx_handle \<Rightarrow> u32 \<Rightarrow> handle_storage \<Rightarrow> (handle_storage \<times> ptr) option" where
  "handle_retire ch handle s =
     (let hash = slot_hash handle (hs_slot_size s)
      in do {
        ctx \<leftarrow> array_get (hs_slot s) hash;
        h \<leftarrow> (if ctx = NULL then Some 0 else ch ctx);
        if ctx \<noteq> NULL \<and> h = handle then do {
          slot \<leftarrow> array_set (hs_slot s) hash NULL;
          (name, n) \<leftarrow> retire_names handle 0 0 (hs_name_count s) (hs_name s);
          Some (s\<lparr>hs_slot := slot, hs_name := name, hs_name_count := n\<rparr>, ctx)
        } else Some (s, NULL)
      })"

text \<open>The locked part of \<open>skynet_handle_grab\<close>: the context, without the reference it takes.\<close>

definition handle_grab :: "ctx_handle \<Rightarrow> u32 \<Rightarrow> handle_storage \<Rightarrow> ptr option" where
  "handle_grab ch handle s = do {
     ctx \<leftarrow> array_get (hs_slot s) (slot_hash handle (hs_slot_size s));
     h \<leftarrow> (if ctx = NULL then Some 0 else ch ctx);
     Some (if ctx \<noteq> NULL \<and> h = handle then ctx else NULL)
   }"

section \<open>Names\<close>

text \<open>
  The binary search that \<open>skynet_handle_findname\<close> and \<open>_insert_name\<close> both run: where it
  stopped (\<open>begin\<close>) and the entry it found.
\<close>

function name_search :: "handle_name option list \<Rightarrow> string \<Rightarrow> int \<Rightarrow> int \<Rightarrow>
    (int \<times> handle_name option) option" where
  "name_search name x b e =
     (if b \<le> e then
        let mid = (b + e) div 2 in
        case array_get name (nat mid) of
          None \<Rightarrow> None
        | Some None \<Rightarrow> None
        | Some (Some n) \<Rightarrow>
            if strcmp (hn_name n) x = 0 then Some (b, Some n)
            else if strcmp (hn_name n) x < 0 then name_search name x (mid + 1) e
            else name_search name x b (mid - 1)
      else Some (b, None))"
  by pat_completeness auto
termination
  by (relation "measure (\<lambda>(name, x, b, e). nat (e + 1 - b))") auto

declare name_search.simps [simp del]

definition skynet_handle_findname :: "string \<Rightarrow> handle_storage \<Rightarrow> u32 option" where
  "skynet_handle_findname x s = do {
     (b, found) \<leftarrow> name_search (hs_name s) x 0 (int (hs_name_count s) - 1);
     Some (case found of None \<Rightarrow> 0 | Some n \<Rightarrow> hn_handle n)
   }"

text \<open>\<open>dst[i + off] = src[i]\<close> for \<open>n\<close> values of \<open>i\<close> from the given one.\<close>

fun copy_range :: "'a list \<Rightarrow> 'a list \<Rightarrow> nat \<Rightarrow> nat \<Rightarrow> nat \<Rightarrow> 'a list option" where
  "copy_range src dst i off 0 = Some dst"
| "copy_range src dst i off (Suc n) = do {
     v \<leftarrow> array_get src i;
     dst \<leftarrow> array_set dst (i + off) v;
     copy_range src dst (Suc i) off n
   }"

text \<open>\<open>for (i = count; i > before; i--) name[i] = name[i-1]\<close>\<close>

fun shift_up :: "'a list \<Rightarrow> nat \<Rightarrow> nat \<Rightarrow> 'a list option" where
  "shift_up name before 0 = Some name"
| "shift_up name before (Suc i) =
     (if Suc i > before then do {
        v \<leftarrow> array_get name i;
        name \<leftarrow> array_set name (Suc i) v;
        shift_up name before i
      } else Some name)"

definition insert_name_before :: "string \<Rightarrow> u32 \<Rightarrow> nat \<Rightarrow> handle_storage \<Rightarrow> handle_storage option" where
  "insert_name_before x handle before s = do {
     s \<leftarrow> (if hs_name_count s \<ge> hs_name_cap s then do {
             let cap = hs_name_cap s * 2;
             c_assert (cap \<le> MAX_SLOT_SIZE);
             n \<leftarrow> copy_range (hs_name s) (replicate cap None) 0 0 before;
             n \<leftarrow> copy_range (hs_name s) n before 1 (hs_name_count s - before);
             Some (s\<lparr>hs_name_cap := cap, hs_name := n\<rparr>)
           } else do {
             n \<leftarrow> shift_up (hs_name s) before (hs_name_count s);
             Some (s\<lparr>hs_name := n\<rparr>)
           });
     name \<leftarrow> array_set (hs_name s) before (Some \<lparr>hn_name = x, hn_handle = handle\<rparr>);
     Some (s\<lparr>hs_name := name, hs_name_count := hs_name_count s + 1\<rparr>)
   }"

text \<open>\<open>_insert_name\<close> and \<open>skynet_handle_namehandle\<close>: the inner result is the new name or \<open>NULL\<close>.\<close>

definition insert_name :: "string \<Rightarrow> u32 \<Rightarrow> handle_storage \<Rightarrow> (handle_storage \<times> string option) option" where
  "insert_name x handle s = do {
     (b, found) \<leftarrow> name_search (hs_name s) x 0 (int (hs_name_count s) - 1);
     case found of
       Some n \<Rightarrow> Some (s, None)
     | None \<Rightarrow> do {
         s \<leftarrow> insert_name_before x handle (nat b) s;
         Some (s, Some x)
       }
   }"

definition skynet_handle_namehandle ::
  "u32 \<Rightarrow> string \<Rightarrow> handle_storage \<Rightarrow> (handle_storage \<times> string option) option" where
  "skynet_handle_namehandle handle x s = insert_name x handle s"

definition skynet_handle_init :: "int \<Rightarrow> handle_storage" where
  "skynet_handle_init harbor =
     \<lparr>hs_harbor = push_bit HANDLE_REMOTE_SHIFT (word_of_int harbor AND 0xff),
      hs_handle_index = 1, hs_slot_size = DEFAULT_SLOT_SIZE,
      hs_slot = replicate DEFAULT_SLOT_SIZE NULL,
      hs_name_cap = 2, hs_name_count = 0, hs_name = replicate 2 None\<rparr>"

section \<open>Arithmetic of the table\<close>

lemma slot_hash_mod: "k < 32 \<Longrightarrow> slot_hash h (2 ^ k) = unat h mod 2 ^ k"
proof -
  have "(of_nat (2 ^ k) - 1 :: u32) = mask k" by (simp add: mask_eq_exp_minus_1)
  then show ?thesis by (simp add: slot_hash_def mask_simps)
qed

lemma HANDLE_MASK_eq: "HANDLE_MASK = mask 24"
  by (simp add: HANDLE_MASK_def mask_eq_exp_minus_1)

lemma unat_and_HANDLE_MASK: "unat (h AND HANDLE_MASK) = unat h mod 2 ^ 24"
  by (simp add: HANDLE_MASK_eq unat_and_mask)

lemma unat_or_low:
  assumes "unat (b :: u32) mod 2 ^ 24 = 0" "k \<le> 24"
  shows "unat (a OR b) mod 2 ^ k = unat a mod 2 ^ k"
proof -
  have "take_bit k b = 0"
  proof -
    have "unat (take_bit k b) = unat b mod 2 ^ k" by (simp add: take_bit_eq_mask unat_and_mask)
    also have "\<dots> = (unat b mod 2 ^ 24) mod 2 ^ k" using assms(2) by (simp only: pow2_mod_mod)
    finally show ?thesis using assms(1) by (simp add: unat_eq_0)
  qed
  then have "take_bit k (a OR b) = take_bit k a" by simp
  then have "unat (take_bit k (a OR b)) = unat (take_bit k a)" by simp
  then show ?thesis by (simp add: take_bit_eq_mask unat_and_mask)
qed

lemma scan_handle:
  assumes "k \<le> 24"
  shows "slot_hash ((of_nat i + idx) AND HANDLE_MASK) (2 ^ k) = (i + unat idx) mod 2 ^ k"
    and "unat ((of_nat i + idx) AND HANDLE_MASK :: u32) < 2 ^ 24"
proof -
  have u: "unat (of_nat i + idx :: u32) = (i + unat idx) mod 2 ^ 32"
    by (simp add: unat_word_ariths unat_of_nat mod_add_left_eq)
  have "((i + unat idx) mod 2 ^ 32) mod 2 ^ 24 mod 2 ^ k = (i + unat idx) mod 2 ^ k"
    using assms by (simp only: pow2_mod_mod)
  then show "slot_hash ((of_nat i + idx) AND HANDLE_MASK) (2 ^ k) = (i + unat idx) mod 2 ^ k"
    using assms by (simp add: slot_hash_mod unat_and_HANDLE_MASK u)
  show "unat ((of_nat i + idx) AND HANDLE_MASK :: u32) < 2 ^ 24"
    by (simp add: unat_and_HANDLE_MASK)
qed

lemma residue_cover:
  fixes n j a :: nat
  assumes "j < n"
  shows "\<exists>i<n. (i + a) mod n = j"
proof (intro exI conjI)
  let ?i = "(j + (n - a mod n)) mod n"
  show "?i < n" using assms by simp
  have "(?i + a) mod n = (j + (n - a mod n) + a mod n) mod n"
    by (metis mod_add_eq mod_mod_trivial)
  also have "\<dots> = j"
  proof -
    have "a mod n < n" using assms by (intro mod_less_divisor) linarith
    then have "j + (n - a mod n) + a mod n = j + n" by linarith
    then show ?thesis using assms by simp
  qed
  finally show "(?i + a) mod n = j" .
qed

section \<open>The invariant of the table\<close>

definition hs_inv :: "ctx_handle \<Rightarrow> handle_storage \<Rightarrow> bool" where
  "hs_inv ch s \<longleftrightarrow>
     length (hs_slot s) = hs_slot_size s \<and>
     (\<exists>k\<le>24. hs_slot_size s = 2 ^ k) \<and>
     unat (hs_handle_index s) \<le> 2 ^ 24 \<and>
     unat (hs_harbor s) mod 2 ^ 24 = 0 \<and>
     (\<forall>i<hs_slot_size s. hs_slot s ! i \<noteq> NULL \<longrightarrow>
        (\<exists>h. ch (hs_slot s ! i) = Some h \<and> slot_hash h (hs_slot_size s) = i))"

lemma hs_inv_hash: "hs_inv ch s \<Longrightarrow> slot_hash h (hs_slot_size s) < length (hs_slot s)"
  by (auto simp: hs_inv_def slot_hash_mod)

lemma hs_inv_nth:
  "hs_inv ch s \<Longrightarrow> i < hs_slot_size s \<Longrightarrow> hs_slot s ! i \<noteq> NULL \<Longrightarrow>
   \<exists>h. ch (hs_slot s ! i) = Some h \<and> slot_hash h (hs_slot_size s) = i"
  unfolding hs_inv_def by blast

lemma hs_inv_entry:
  assumes "hs_inv ch s" "c \<in> set (hs_slot s)" "c \<noteq> NULL"
  obtains h where "ch c = Some h" "hs_slot s ! slot_hash h (hs_slot_size s) = c"
  using assms unfolding hs_inv_def in_set_conv_nth by metis

lemma handle_grab_cases:
  assumes "hs_inv ch s"
  shows "\<exists>c. handle_grab ch h s = Some c \<and>
           (c \<noteq> NULL \<longleftrightarrow> (\<exists>d\<in>set (hs_slot s). d \<noteq> NULL \<and> ch d = Some h)) \<and>
           (\<forall>d\<in>set (hs_slot s). d \<noteq> NULL \<longrightarrow> ch d = Some h \<longrightarrow> c = d)"
proof -
  define c where "c = hs_slot s ! slot_hash h (hs_slot_size s)"
  have j: "slot_hash h (hs_slot_size s) < length (hs_slot s)" using hs_inv_hash[OF assms] .
  then have cin: "c \<in> set (hs_slot s)" by (simp add: c_def)
  have uniq: "c = d" if "d \<in> set (hs_slot s)" "d \<noteq> NULL" "ch d = Some h" for d
    using hs_inv_entry[OF assms that(1,2)] that(3) unfolding c_def by (metis option.inject)
  obtain h' where h': "(if c = NULL then Some 0 else ch c) = Some h'"
    using hs_inv_entry[OF assms cin] by (metis (full_types))
  then have g: "handle_grab ch h s = Some (if c \<noteq> NULL \<and> h' = h then c else NULL)"
    using j by (simp add: handle_grab_def arr_simps flip: c_def)
  show ?thesis
  proof (cases "c \<noteq> NULL \<and> h' = h")
    case True
    then have "handle_grab ch h s = Some c" "c \<noteq> NULL" "ch c = Some h" using g h' by auto
    then show ?thesis using cin uniq by blast
  next
    case False
    then have "handle_grab ch h s = Some NULL" "c \<noteq> NULL \<longrightarrow> ch c \<noteq> Some h" using g h' by auto
    then show ?thesis using uniq by blast
  qed
qed

lemma handle_grab_iff:
  assumes "hs_inv ch s" "c \<noteq> NULL"
  shows "handle_grab ch h s = Some c \<longleftrightarrow> c \<in> set (hs_slot s) \<and> ch c = Some h"
  using handle_grab_cases[OF assms(1), of h] assms(2) by auto

lemma handle_grab_total: "hs_inv ch s \<Longrightarrow> \<exists>c. handle_grab ch h s = Some c"
  using handle_grab_cases by blast

section \<open>Registration\<close>

lemma register_scan_result:
  assumes "hs_inv ch s"
  shows "\<exists>r. register_scan s i n = Some r \<and>
    (case r of
       None \<Rightarrow> \<forall>j<n. hs_slot s ! ((i + j + unat (hs_handle_index s)) mod hs_slot_size s) \<noteq> NULL
     | Some (h, hash) \<Rightarrow> hash < hs_slot_size s \<and> hs_slot s ! hash = NULL \<and>
         hash = slot_hash h (hs_slot_size s) \<and> unat h < 2 ^ 24)"
proof (induction n arbitrary: i)
  case (Suc n)
  obtain k where k: "k \<le> 24" "hs_slot_size s = 2 ^ k" and len: "length (hs_slot s) = hs_slot_size s"
    using assms by (auto simp: hs_inv_def)
  let ?h = "(of_nat i + hs_handle_index s) AND HANDLE_MASK"
  let ?j = "slot_hash ?h (hs_slot_size s)"
  have j: "?j = (i + unat (hs_handle_index s)) mod hs_slot_size s" "?j < hs_slot_size s"
    and hb: "unat ?h < 2 ^ 24"
    using scan_handle[OF k(1), of i "hs_handle_index s"] k by simp_all
  have g: "array_get (hs_slot s) ?j = Some (hs_slot s ! ?j)"
    using j(2) len by (simp add: arr_simps)
  show ?case
  proof (cases "hs_slot s ! ?j = NULL")
    case True
    then show ?thesis using g j(2) hb by (simp add: Let_def)
  next
    case False
    obtain r where r: "register_scan s (Suc i) n = Some r" and
      rc: "case r of
       None \<Rightarrow> \<forall>j<n. hs_slot s ! ((Suc i + j + unat (hs_handle_index s)) mod hs_slot_size s) \<noteq> NULL
     | Some (h, hash) \<Rightarrow> hash < hs_slot_size s \<and> hs_slot s ! hash = NULL \<and>
         hash = slot_hash h (hs_slot_size s) \<and> unat h < 2 ^ 24"
      using Suc.IH[of "Suc i"] by blast
    have "register_scan s i (Suc n) = Some r" using g False r by (simp add: Let_def)
    moreover have "\<forall>j<Suc n. hs_slot s ! ((i + j + unat (hs_handle_index s)) mod hs_slot_size s) \<noteq> NULL"
      if "r = None"
    proof (intro allI impI)
      fix m assume "m < Suc n"
      then show "hs_slot s ! ((i + m + unat (hs_handle_index s)) mod hs_slot_size s) \<noteq> NULL"
        using that rc False j(1) by (cases m) auto
    qed
    ultimately show ?thesis using rc by (cases r) auto
  qed
qed simp

lemma register_scan_full:
  assumes "hs_inv ch s" "register_scan s 0 (hs_slot_size s) = Some None"
  shows "NULL \<notin> set (hs_slot s)"
proof
  assume "NULL \<in> set (hs_slot s)"
  then obtain j where j: "j < hs_slot_size s" "hs_slot s ! j = NULL"
    using assms(1) by (auto simp: in_set_conv_nth hs_inv_def)
  obtain i where "i < hs_slot_size s" "(i + unat (hs_handle_index s)) mod hs_slot_size s = j"
    using residue_cover[OF j(1)] by blast
  then show False using register_scan_result[OF assms(1), of 0 "hs_slot_size s"] assms(2) j(2) by auto
qed

lemma register_scan_cases:
  assumes "hs_inv ch s"
  obtains (full) "register_scan s 0 (hs_slot_size s) = Some None" "NULL \<notin> set (hs_slot s)"
  | (free) h hash where "register_scan s 0 (hs_slot_size s) = Some (Some (h, hash))"
      "hash < hs_slot_size s" "hs_slot s ! hash = NULL" "hash = slot_hash h (hs_slot_size s)"
      "unat h < 2 ^ 24" "NULL \<in> set (hs_slot s)"
proof -
  obtain r where r: "register_scan s 0 (hs_slot_size s) = Some r" and
    rc: "case r of
       None \<Rightarrow> \<forall>j<hs_slot_size s. hs_slot s ! ((0 + j + unat (hs_handle_index s)) mod hs_slot_size s) \<noteq> NULL
     | Some (h, hash) \<Rightarrow> hash < hs_slot_size s \<and> hs_slot s ! hash = NULL \<and>
         hash = slot_hash h (hs_slot_size s) \<and> unat h < 2 ^ 24"
    using register_scan_result[OF assms, of 0 "hs_slot_size s"] by blast
  have len: "length (hs_slot s) = hs_slot_size s" using assms by (simp add: hs_inv_def)
  show ?thesis
  proof (cases r)
    case None
    then show ?thesis using full r register_scan_full[OF assms] by simp
  next
    case (Some x)
    obtain h hash where x: "x = (h, hash)" by (cases x)
    then have "hash < hs_slot_size s" "hs_slot s ! hash = NULL" "hash = slot_hash h (hs_slot_size s)"
      "unat h < 2 ^ 24" using rc Some by auto
    moreover from this have "NULL \<in> set (hs_slot s)" using len by (metis nth_mem)
    ultimately show ?thesis using free[of h hash] r Some x by simp
  qed
qed

lemma rehash_ok:
  assumes "\<And>c. c \<in> set cs \<Longrightarrow> ch c = Some (hof c) \<and> slot_hash (hof c) sz < length new \<and>
             new ! slot_hash (hof c) sz = NULL"
    and "distinct (map (\<lambda>c. slot_hash (hof c) sz) cs)"
  shows "\<exists>new'. rehash ch sz cs new = Some new' \<and> length new' = length new \<and>
           (\<forall>c\<in>set cs. new' ! slot_hash (hof c) sz = c) \<and>
           (\<forall>j. j \<notin> (\<lambda>c. slot_hash (hof c) sz) ` set cs \<longrightarrow> new' ! j = new ! j)"
  using assms
proof (induction cs arbitrary: new)
  case (Cons c cs)
  let ?h = "\<lambda>c. slot_hash (hof c) sz"
  have c: "ch c = Some (hof c)" "?h c < length new" "new ! ?h c = NULL" using Cons.prems(1)[of c] by auto
  have "?h c \<notin> ?h ` set cs" using Cons.prems(2) by simp
  then have "\<exists>new'. rehash ch sz cs (new[?h c := c]) = Some new' \<and> length new' = length (new[?h c := c]) \<and>
           (\<forall>d\<in>set cs. new' ! ?h d = d) \<and> (\<forall>j. j \<notin> ?h ` set cs \<longrightarrow> new' ! j = new[?h c := c] ! j)"
    using Cons.prems by (intro Cons.IH) (auto simp: nth_list_update)
  then obtain new' where n: "rehash ch sz cs (new[?h c := c]) = Some new'"
    "length new' = length new" "\<forall>d\<in>set cs. new' ! ?h d = d"
    "\<forall>j. j \<notin> ?h ` set cs \<longrightarrow> new' ! j = new[?h c := c] ! j" by auto
  have "new' ! ?h c = c" using n(4) \<open>?h c \<notin> ?h ` set cs\<close> c(2) by simp
  then show ?case using n c by (intro exI[of _ new']) (auto simp: arr_simps Let_def)
qed simp

text \<open>Doubling a full table keeps the invariant and what is found, and leaves a free slot.\<close>

lemma hs_double:
  assumes inv: "hs_inv ch s" and full: "NULL \<notin> set (hs_slot s)"
    and cap: "hs_slot_size s * 2 - 1 \<le> unat HANDLE_MASK"
  shows "\<exists>new. rehash ch (hs_slot_size s * 2) (hs_slot s) (replicate (hs_slot_size s * 2) NULL) = Some new \<and>
           hs_inv ch (s\<lparr>hs_slot := new, hs_slot_size := hs_slot_size s * 2\<rparr>) \<and>
           set new = insert NULL (set (hs_slot s))"
proof -
  obtain k where k: "k \<le> 24" "hs_slot_size s = 2 ^ k" using inv by (auto simp: hs_inv_def)
  have "(2 :: nat) ^ Suc k \<le> 2 ^ 24"
    using cap k by (simp add: HANDLE_MASK_def)
  then have k1: "Suc k \<le> 24" by (rule power_le_imp_le_exp[rotated]) simp
  let ?n = "hs_slot_size s" let ?m = "?n * 2"
  have m: "?m = 2 ^ Suc k" using k by simp
  have len: "length (hs_slot s) = ?n" using inv by (simp add: hs_inv_def)
  define hof where "hof c = the (ch c)" for c
  let ?h = "\<lambda>c. slot_hash (hof c) ?m"
  have hof: "ch (hs_slot s ! i) = Some (hof (hs_slot s ! i))"
    "?h (hs_slot s ! i) mod ?n = i" "?h (hs_slot s ! i) < ?m" if "i < ?n" for i
  proof -
    have "hs_slot s ! i \<noteq> NULL" using full that len by (metis nth_mem)
    then have "\<exists>h. ch (hs_slot s ! i) = Some h \<and> slot_hash h ?n = i"
      using hs_inv_nth[OF inv \<open>i < ?n\<close>] by blast
    then obtain h where h: "ch (hs_slot s ! i) = Some h" "slot_hash h ?n = i" by blast
    then show "ch (hs_slot s ! i) = Some (hof (hs_slot s ! i))" by (simp add: hof_def)
    have "unat h mod 2 ^ Suc k mod 2 ^ k = unat h mod 2 ^ k" by (rule pow2_mod_mod) simp
    then show "?h (hs_slot s ! i) mod ?n = i" "?h (hs_slot s ! i) < ?m"
      using h k k1 unfolding m by (simp_all add: hof_def slot_hash_mod del: power_Suc)
  qed
  have dist: "distinct (map ?h (hs_slot s))"
    unfolding distinct_conv_nth using hof(2) len by (metis length_map nth_map)
  have "\<exists>new. rehash ch ?m (hs_slot s) (replicate ?m NULL) = Some new \<and>
      length new = length (replicate ?m NULL) \<and> (\<forall>c\<in>set (hs_slot s). new ! ?h c = c) \<and>
      (\<forall>j. j \<notin> ?h ` set (hs_slot s) \<longrightarrow> new ! j = replicate ?m NULL ! j)"
    using hof(1,3) len by (intro rehash_ok dist) (auto simp: in_set_conv_nth)
  then obtain new where new: "rehash ch ?m (hs_slot s) (replicate ?m NULL) = Some new"
    "length new = ?m" "\<And>c. c \<in> set (hs_slot s) \<Longrightarrow> new ! ?h c = c"
    "\<And>j. j < ?m \<Longrightarrow> j \<notin> ?h ` set (hs_slot s) \<Longrightarrow> new ! j = NULL"
    by auto
  have ent: "j \<in> ?h ` set (hs_slot s) \<and> new ! j \<in> set (hs_slot s) \<and> ?h (new ! j) = j"
    if j: "j < ?m" "new ! j \<noteq> NULL" for j
  proof -
    have "j \<in> ?h ` set (hs_slot s)" using new(4)[OF j(1)] j(2) by blast
    then obtain c where "c \<in> set (hs_slot s)" "j = ?h c" by blast
    then show ?thesis using new(3) by simp
  qed
  have chs: "ch c = Some (hof c)" if "c \<in> set (hs_slot s)" for c
    using hof(1) that len by (auto simp: in_set_conv_nth)
  have "\<exists>h. ch (new ! i) = Some h \<and> slot_hash h ?m = i" if "i < ?m" "new ! i \<noteq> NULL" for i
    using ent[OF that] chs by simp
  moreover have "\<exists>k\<le>24. ?m = 2 ^ k" using m k1 by blast
  ultimately have inv': "hs_inv ch (s\<lparr>hs_slot := new, hs_slot_size := ?m\<rparr>)"
    using inv new(2) by (simp add: hs_inv_def)
  have hl: "?h c < ?m" if "c \<in> set (hs_slot s)" for c using hof(3) that len by (auto simp: in_set_conv_nth)
  have sub: "set (hs_slot s) \<subseteq> set new" using new(2,3) hl by (metis nth_mem subsetI)
  have "card (?h ` set (hs_slot s)) \<le> ?n"
    using card_image_le[of "set (hs_slot s)" ?h] card_length[of "hs_slot s"] len by simp
  then have "\<not> {..<?m} \<subseteq> ?h ` set (hs_slot s)"
  proof -
    have "0 < ?n" using k by simp
    then have "card (?h ` set (hs_slot s)) < card {..<?m}"
      using \<open>card (?h ` set (hs_slot s)) \<le> ?n\<close> by simp
    then show ?thesis using card_mono[of "?h ` set (hs_slot s)" "{..<?m}"] by (meson List.finite_set finite_imageI leD)
  qed
  then obtain j where "j < ?m" "new ! j = NULL" using new(4) by blast
  then have "NULL \<in> set new" using new(2) by (metis nth_mem)
  moreover have "set new \<subseteq> insert NULL (set (hs_slot s))"
  proof
    fix c assume "c \<in> set new"
    then obtain j where "j < ?m" "c = new ! j" using new(2) by (auto simp: in_set_conv_nth)
    then show "c \<in> insert NULL (set (hs_slot s))" using ent[of j] by auto
  qed
  ultimately show ?thesis using new(1) inv' sub by auto
qed

definition hs_addable :: "handle_storage \<Rightarrow> bool" where
  "hs_addable s \<longleftrightarrow> NULL \<in> set (hs_slot s) \<or> hs_slot_size s * 2 - 1 \<le> unat HANDLE_MASK"

text \<open>A free slot is taken in the first round of the loop.\<close>

lemma register_free:
  assumes inv: "hs_inv ch s" and free: "NULL \<in> set (hs_slot s)"
    and ctx: "ctx \<noteq> NULL" "ctx \<notin> set (hs_slot s)"
  shows "\<exists>s' h. skynet_handle_register ch ctx s = Some (s', h) \<and> hs_inv (ch(ctx \<mapsto> h)) s' \<and>
           handle_grab ch h s = Some NULL \<and> set (hs_slot s') - {NULL} = insert ctx (set (hs_slot s)) - {NULL} \<and>
           hs_name s' = hs_name s \<and> hs_name_count s' = hs_name_count s \<and> hs_name_cap s' = hs_name_cap s \<and>
           hs_harbor s' = hs_harbor s \<and> hs_slot_size s' = hs_slot_size s \<and>
           unat h mod 2 ^ 24 = unat (h AND HANDLE_MASK)"
proof -
  obtain k where k: "k \<le> 24" "hs_slot_size s = 2 ^ k" using inv by (auto simp: hs_inv_def)
  have len: "length (hs_slot s) = hs_slot_size s" and hb: "unat (hs_harbor s) mod 2 ^ 24 = 0"
    using inv by (auto simp: hs_inv_def)
  obtain h hash where sc: "register_scan s 0 (hs_slot_size s) = Some (Some (h, hash))"
    and hash: "hash < hs_slot_size s" "hs_slot s ! hash = NULL" "hash = slot_hash h (hs_slot_size s)"
      "unat h < 2 ^ 24"
    using free by (cases rule: register_scan_cases[OF inv]) auto
  let ?h = "h OR hs_harbor s"
  let ?s = "s\<lparr>hs_slot := (hs_slot s)[hash := ctx], hs_handle_index := h + 1\<rparr>"
  have hh: "slot_hash ?h (hs_slot_size s) = hash"
    using k hash(3) unat_or_low[OF hb k(1), of h] by (simp add: slot_hash_mod)
  have "unat (h + 1) \<le> 2 ^ 24"
    using hash(4) by (simp add: unat_word_ariths)
  moreover have "\<exists>g. (ch(ctx \<mapsto> ?h)) ((hs_slot s)[hash := ctx] ! i) = Some g \<and>
      slot_hash g (hs_slot_size s) = i"
    if i: "i < hs_slot_size s" "(hs_slot s)[hash := ctx] ! i \<noteq> NULL" for i
  proof (cases "i = hash")
    case True
    then show ?thesis using hh i(1) len by simp
  next
    case False
    moreover have "hs_slot s ! i \<noteq> ctx" using ctx(2) i(1) len by (metis nth_mem)
    ultimately show ?thesis using hs_inv_nth[OF inv i(1)] i(2) by simp
  qed
  ultimately have inv': "hs_inv (ch(ctx \<mapsto> ?h)) ?s"
    using inv by (simp add: hs_inv_def)
  have nolook: "handle_grab ch ?h s = Some NULL"
    using hh hash(1,2) len by (simp add: handle_grab_def arr_simps)
  have reg: "skynet_handle_register ch ctx s = Some (?s, ?h)"
    using sc hash(1) len by (subst skynet_handle_register.simps) (simp add: arr_simps)
  have "set ((hs_slot s)[hash := ctx]) - {NULL} = insert ctx (set (hs_slot s)) - {NULL}"
    using set_list_update_minus[of hash "hs_slot s" ctx] hash(1,2) len by simp
  then show ?thesis using reg inv' nolook by (simp add: unat_and_HANDLE_MASK)
qed

lemma register_ok:
  assumes inv: "hs_inv ch s" and add: "hs_addable s"
    and ctx: "ctx \<noteq> NULL" "ctx \<notin> set (hs_slot s)"
  shows "\<exists>s' h. skynet_handle_register ch ctx s = Some (s', h) \<and> hs_inv (ch(ctx \<mapsto> h)) s' \<and>
           handle_grab ch h s = Some NULL \<and> set (hs_slot s') - {NULL} = insert ctx (set (hs_slot s)) - {NULL} \<and>
           hs_name s' = hs_name s \<and> hs_name_count s' = hs_name_count s \<and> hs_name_cap s' = hs_name_cap s"
proof (cases "NULL \<in> set (hs_slot s)")
  case True
  then show ?thesis using register_free[OF inv _ ctx] by blast
next
  case False
  then have cap: "hs_slot_size s * 2 - 1 \<le> unat HANDLE_MASK" using add by (simp add: hs_addable_def)
  obtain new where new:
    "rehash ch (hs_slot_size s * 2) (hs_slot s) (replicate (hs_slot_size s * 2) NULL) = Some new"
    "hs_inv ch (s\<lparr>hs_slot := new, hs_slot_size := hs_slot_size s * 2\<rparr>)"
    "set new = insert NULL (set (hs_slot s))"
    using hs_double[OF inv False cap] by blast
  let ?s = "s\<lparr>hs_slot := new, hs_slot_size := hs_slot_size s * 2\<rparr>"
  obtain s' h where r: "skynet_handle_register ch ctx ?s = Some (s', h)" "hs_inv (ch(ctx \<mapsto> h)) s'"
    "handle_grab ch h ?s = Some NULL" "set (hs_slot s') - {NULL} = insert ctx (set new) - {NULL}"
    "hs_name s' = hs_name s" "hs_name_count s' = hs_name_count s" "hs_name_cap s' = hs_name_cap s"
    using register_free[OF new(2), of ctx] new(3) ctx by auto
  have "register_scan s 0 (hs_slot_size s) = Some None"
    using False by (cases rule: register_scan_cases[OF inv]) auto
  then have "skynet_handle_register ch ctx s = Some (s', h)"
    using cap new(1) r(1) by (subst skynet_handle_register.simps) simp
  moreover have "handle_grab ch h s = Some NULL"
  proof -
    obtain c where c: "handle_grab ch h s = Some c" using handle_grab_total[OF inv] by blast
    have "c = NULL"
    proof (rule ccontr)
      assume "c \<noteq> NULL"
      then have "handle_grab ch h ?s = Some c"
        using c handle_grab_iff[OF inv] handle_grab_iff[OF new(2)] new(3) by auto
      then show False using r(3) \<open>c \<noteq> NULL\<close> by simp
    qed
    then show ?thesis using c by simp
  qed
  ultimately show ?thesis using r new(3) by auto
qed

lemma register_full:
  assumes "hs_inv ch s" "\<not> hs_addable s"
  shows "skynet_handle_register ch ctx s = None"
proof -
  have full: "NULL \<notin> set (hs_slot s)" and cap: "\<not> hs_slot_size s * 2 - 1 \<le> unat HANDLE_MASK"
    using assms(2) by (auto simp: hs_addable_def)
  have "register_scan s 0 (hs_slot_size s) = Some None"
    using full by (cases rule: register_scan_cases[OF assms(1)]) auto
  then show ?thesis using cap by (subst skynet_handle_register.simps) (simp add: c_assert_def)
qed

section \<open>Names: invariant and abstraction\<close>

definition hs_names :: "handle_storage \<Rightarrow> handle_name list" where
  "hs_names s = map the (take (hs_name_count s) (hs_name s))"

definition name_less :: "handle_name \<Rightarrow> handle_name \<Rightarrow> bool" where
  "name_less a b \<longleftrightarrow> strcmp (hn_name a) (hn_name b) < 0"

definition names_inv :: "handle_storage \<Rightarrow> bool" where
  "names_inv s \<longleftrightarrow>
     length (hs_name s) = hs_name_cap s \<and> hs_name_count s \<le> hs_name_cap s \<and> 0 < hs_name_cap s \<and>
     take (hs_name_count s) (hs_name s) = map Some (hs_names s) \<and>
     sorted_wrt name_less (hs_names s)"

definition names_map :: "handle_storage \<Rightarrow> string \<Rightarrow> u32 option" where
  "names_map s = map_of (map (\<lambda>n. (hn_name n, hn_handle n)) (hs_names s))"

lemma names_inv_length: "names_inv s \<Longrightarrow> length (hs_names s) = hs_name_count s"
  by (auto simp: names_inv_def hs_names_def)

lemma names_inv_nth:
  assumes "names_inv s" "i < hs_name_count s"
  shows "array_get (hs_name s) i = Some (Some (hs_names s ! i))"
proof -
  have "take (hs_name_count s) (hs_name s) ! i = Some (hs_names s ! i)"
    using assms names_inv_length[OF assms(1)] by (simp add: names_inv_def)
  then show ?thesis using assms by (simp add: names_inv_def arr_simps)
qed

text \<open>What the binary search finds in a sorted array: the entry, or the place of the name.\<close>

definition name_splits :: "handle_name list \<Rightarrow> string \<Rightarrow> int \<Rightarrow> bool" where
  "name_splits ns x b \<longleftrightarrow> 0 \<le> b \<and> b \<le> int (length ns) \<and>
     (\<forall>i<length ns. (int i < b \<longrightarrow> strcmp (hn_name (ns ! i)) x < 0) \<and>
                      (b \<le> int i \<longrightarrow> 0 < strcmp (hn_name (ns ! i)) x))"

definition search_post :: "handle_name list \<Rightarrow> string \<Rightarrow> int \<Rightarrow> handle_name option \<Rightarrow> bool" where
  "search_post ns x b r \<longleftrightarrow>
     (case r of Some n \<Rightarrow> n \<in> set ns \<and> hn_name n = x | None \<Rightarrow> name_splits ns x b)"

lemma name_search_ok:
  assumes "\<And>i. i < length ns \<Longrightarrow> array_get arr i = Some (Some (ns ! i))" "sorted_wrt name_less ns"
    and "0 \<le> b" "b \<le> e + 1" "e < int (length ns)"
    and "\<And>i. i < length ns \<Longrightarrow> int i < b \<Longrightarrow> strcmp (hn_name (ns ! i)) x < 0"
    and "\<And>i. i < length ns \<Longrightarrow> e < int i \<Longrightarrow> 0 < strcmp (hn_name (ns ! i)) x"
  shows "\<exists>b' r. name_search arr x b e = Some (b', r) \<and> search_post ns x b' r"
  using assms(3-)
proof (induction "nat (e + 1 - b)" arbitrary: b e rule: less_induct)
  case less
  show ?case
  proof (cases "b \<le> e")
    case False
    then have "name_search arr x b e = Some (b, None)" by (simp add: name_search.simps)
    moreover have "name_splits ns x b" using less.prems False by (auto simp: name_splits_def)
    ultimately show ?thesis by (simp add: search_post_def)
  next
    case True
    let ?m = "(b + e) div 2" let ?n = "ns ! nat ?m"
    have m: "b \<le> ?m" "?m \<le> e" "nat ?m < length ns" "int (nat ?m) = ?m"
      using True less.prems by auto
    have step: "name_search arr x b e =
        (if strcmp (hn_name ?n) x = 0 then Some (b, Some ?n)
         else if strcmp (hn_name ?n) x < 0 then name_search arr x (?m + 1) e
         else name_search arr x b (?m - 1))"
      using True assms(1)[OF m(3)] by (subst name_search.simps) (simp add: Let_def)
    have before: "strcmp (hn_name (ns ! i)) x < 0" if "i \<le> nat ?m" "strcmp (hn_name ?n) x < 0" for i
      using that m(3) sorted_wrt_nth_less[OF assms(2), of i "nat ?m"]
      by (cases "i = nat ?m") (auto simp: name_less_def intro: strcmp_trans)
    have after: "0 < strcmp (hn_name (ns ! i)) x"
      if "nat ?m \<le> i" "i < length ns" "0 < strcmp (hn_name ?n) x" for i
      using that sorted_wrt_nth_less[OF assms(2), of "nat ?m" i]
      by (cases "i = nat ?m") (auto simp: name_less_def strcmp_gt_0 intro: strcmp_trans)
    consider "strcmp (hn_name ?n) x = 0" | "strcmp (hn_name ?n) x < 0" | "0 < strcmp (hn_name ?n) x"
      by linarith
    then show ?thesis
    proof cases
      case 1
      then show ?thesis using step m(3) by (simp add: search_post_def)
    next
      case 2
      then have "name_search arr x b e = name_search arr x (?m + 1) e" using step by auto
      moreover have "\<exists>b' r. name_search arr x (?m + 1) e = Some (b', r) \<and> search_post ns x b' r"
      proof (rule less.hyps)
        show "nat (e + 1 - (?m + 1)) < nat (e + 1 - b)" "0 \<le> ?m + 1" "?m + 1 \<le> e + 1" "e < int (length ns)"
          using less.prems(1,2,3) m(1,2) by linarith+
        show "strcmp (hn_name (ns ! i)) x < 0" if "i < length ns" "int i < ?m + 1" for i
          using before[OF _ 2, of i] that m(4) by linarith
        show "0 < strcmp (hn_name (ns ! i)) x" if "i < length ns" "e < int i" for i
          using less.prems(5) that by blast
      qed
      ultimately show ?thesis by simp
    next
      case 3
      then have "name_search arr x b e = name_search arr x b (?m - 1)" using step by auto
      moreover have "\<exists>b' r. name_search arr x b (?m - 1) = Some (b', r) \<and> search_post ns x b' r"
      proof (rule less.hyps)
        show "nat (?m - 1 + 1 - b) < nat (e + 1 - b)" "0 \<le> b" "b \<le> ?m - 1 + 1" "?m - 1 < int (length ns)"
          using less.prems(1,2,3) m(1,2) by linarith+
        show "0 < strcmp (hn_name (ns ! i)) x" if "i < length ns" "?m - 1 < int i" for i
          using after[OF _ that(1) 3] that m(4) by linarith
        show "strcmp (hn_name (ns ! i)) x < 0" if "i < length ns" "int i < b" for i
          using less.prems(4) that by blast
      qed
      ultimately show ?thesis by simp
    qed
  qed
qed

lemma names_search:
  assumes "names_inv s"
  shows "\<exists>b r. name_search (hs_name s) x 0 (int (hs_name_count s) - 1) = Some (b, r) \<and>
           search_post (hs_names s) x b r"
  using name_search_ok[of "hs_names s" "hs_name s" 0 "int (hs_name_count s) - 1" x]
    names_inv_nth[OF assms] names_inv_length[OF assms] assms
  by (simp add: names_inv_def)

lemma names_distinct: "sorted_wrt name_less ns \<Longrightarrow> distinct (map hn_name ns)"
  by (induction ns) (auto simp: name_less_def)

lemma name_splits_not_in: "name_splits ns x b \<Longrightarrow> x \<notin> hn_name ` set ns"
  unfolding name_splits_def by (metis image_iff in_set_conv_nth not_le order_less_irrefl strcmp_refl)

lemma findname_ok:
  assumes "names_inv s"
  shows "skynet_handle_findname x s = Some (case names_map s x of None \<Rightarrow> 0 | Some h \<Rightarrow> h)"
proof -
  obtain b r where r: "name_search (hs_name s) x 0 (int (hs_name_count s) - 1) = Some (b, r)"
    "search_post (hs_names s) x b r"
    using names_search[OF assms] by blast
  show ?thesis
  proof (cases r)
    case None
    then have "x \<notin> hn_name ` set (hs_names s)"
      using r(2) name_splits_not_in by (simp add: search_post_def)
    then have "names_map s x = None"
      by (simp add: names_map_def map_of_eq_None_iff image_comp comp_def)
    then show ?thesis using r(1) None by (simp add: skynet_handle_findname_def)
  next
    case (Some n)
    then have "n \<in> set (hs_names s)" "hn_name n = x" using r(2) by (auto simp: search_post_def)
    moreover have "distinct (map hn_name (hs_names s))"
      using assms names_distinct by (auto simp: names_inv_def)
    ultimately have "names_map s x = Some (hn_handle n)"
      unfolding names_map_def by (intro map_of_is_SomeI) (auto simp: comp_def)
    then show ?thesis using r(1) Some by (simp add: skynet_handle_findname_def)
  qed
qed

section \<open>Inserting a name\<close>

lemma copy_range_ok:
  "i + n \<le> length src \<Longrightarrow> i + off + n \<le> length dst \<Longrightarrow>
   \<exists>dst'. copy_range src dst i off n = Some dst' \<and> length dst' = length dst \<and>
     (\<forall>j<length dst. dst' ! j = (if i + off \<le> j \<and> j < i + off + n then src ! (j - off) else dst ! j))"
proof (induction n arbitrary: i dst)
  case (Suc n)
  let ?d = "dst[i + off := src ! i]"
  obtain dst' where d: "copy_range src ?d (Suc i) off n = Some dst'" "length dst' = length ?d"
    "\<And>j. j < length ?d \<Longrightarrow> dst' ! j =
        (if Suc i + off \<le> j \<and> j < Suc i + off + n then src ! (j - off) else ?d ! j)"
    using Suc.IH[of "Suc i" ?d] Suc.prems by auto
  have "copy_range src dst i off (Suc n) = Some dst'"
    using d(1) Suc.prems by (simp add: arr_simps)
  moreover have "dst' ! j = (if i + off \<le> j \<and> j < i + off + Suc n then src ! (j - off) else dst ! j)"
    if "j < length dst" for j
    using d(3)[of j] that Suc.prems by (auto simp: nth_list_update)
  ultimately show ?case using d(2) by auto
qed auto

lemma shift_up_ok:
  "before \<le> i \<Longrightarrow> i < length arr \<Longrightarrow>
   \<exists>arr'. shift_up arr before i = Some arr' \<and> length arr' = length arr \<and>
     (\<forall>j<length arr. arr' ! j = (if before < j \<and> j \<le> i then arr ! (j - 1) else arr ! j))"
proof (induction i arbitrary: arr)
  case (Suc i)
  show ?case
  proof (cases "Suc i > before")
    case True
    let ?a = "arr[Suc i := arr ! i]"
    obtain arr' where a: "shift_up ?a before i = Some arr'" "length arr' = length arr"
      "\<And>j. j < length arr \<Longrightarrow> arr' ! j = (if before < j \<and> j \<le> i then ?a ! (j - 1) else ?a ! j)"
      using Suc.IH[of ?a] Suc.prems True by auto
    have "shift_up arr before (Suc i) = Some arr'" using a(1) True Suc.prems by (simp add: arr_simps)
    moreover have "arr' ! j = (if before < j \<and> j \<le> Suc i then arr ! (j - 1) else arr ! j)"
      if "j < length arr" for j
      using a(3)[OF that] that True by (auto simp: nth_list_update le_Suc_eq)
    ultimately show ?thesis using a(2) by auto
  next
    case False
    then show ?thesis using Suc.prems by auto
  qed
qed simp

text \<open>Both branches of \<open>_insert_name_before\<close> open a gap at \<open>before\<close> and fill it.\<close>

lemma insert_gap:
  assumes "length (arr :: 'a list) = c" "before \<le> n" "n < c" "\<And>j. j < n \<Longrightarrow> old ! j = ns ! j"
    "\<And>j. j < before \<Longrightarrow> arr ! j = old ! j" "\<And>j. before < j \<Longrightarrow> j \<le> n \<Longrightarrow> arr ! j = old ! (j - 1)"
    "length ns = n"
  shows "take (Suc n) (arr[before := x]) = take before ns @ x # drop before ns"
proof (rule nth_equalityI)
  fix j assume "j < length (take (Suc n) (arr[before := x]))"
  then have "j \<le> n" using assms(1,3) by simp
  then show "take (Suc n) (arr[before := x]) ! j = (take before ns @ x # drop before ns) ! j"
    using assms by (cases j before rule: linorder_cases) (auto simp: nth_append nth_Cons' min_def)
qed (use assms in \<open>simp add: min_def\<close>)

lemma insert_name_before_ok:
  assumes inv: "names_inv s" and b: "name_splits (hs_names s) x (int b)"
    and cap: "hs_name_count s < hs_name_cap s \<or> hs_name_cap s * 2 \<le> MAX_SLOT_SIZE"
  shows "\<exists>s'. insert_name_before x h b s = Some s' \<and> names_inv s' \<and>
           hs_names s' = take b (hs_names s) @ \<lparr>hn_name = x, hn_handle = h\<rparr> # drop b (hs_names s) \<and>
           hs_slot s' = hs_slot s \<and> hs_slot_size s' = hs_slot_size s \<and>
           hs_handle_index s' = hs_handle_index s \<and> hs_harbor s' = hs_harbor s"
proof -
  let ?n = "hs_name_count s" let ?ns = "hs_names s" let ?e = "\<lparr>hn_name = x, hn_handle = h\<rparr>"
  have len: "length ?ns = ?n" using names_inv_length[OF inv] .
  have bn: "b \<le> ?n" using b len by (simp add: name_splits_def)
  have I: "length (hs_name s) = hs_name_cap s" "?n \<le> hs_name_cap s" "0 < hs_name_cap s"
    "take ?n (hs_name s) = map Some ?ns" "sorted_wrt name_less ?ns"
    using inv by (simp_all add: names_inv_def)
  have old: "hs_name s ! j = map Some ?ns ! j" if "j < ?n" for j
    using that I(4) by (metis nth_take)
  obtain c arr where arr: "length arr = c" "?n < c" "0 < c"
      "\<And>j. j < b \<Longrightarrow> arr ! j = hs_name s ! j"
      "\<And>j. b < j \<Longrightarrow> j \<le> ?n \<Longrightarrow> arr ! j = hs_name s ! (j - 1)"
    and run: "insert_name_before x h b s =
      Some (s\<lparr>hs_name_cap := c, hs_name := arr[b := Some ?e], hs_name_count := ?n + 1\<rparr>)"
  proof (cases "?n \<ge> hs_name_cap s")
    case True
    let ?c = "hs_name_cap s * 2"
    obtain d1 where d1: "copy_range (hs_name s) (replicate ?c None) 0 0 b = Some d1" "length d1 = ?c"
      "\<And>j. j < ?c \<Longrightarrow> d1 ! j = (if j < b then hs_name s ! j else None)"
      using copy_range_ok[of 0 b "hs_name s" 0 "replicate ?c None"] I(1,2) bn by fastforce
    obtain d2 where d2: "copy_range (hs_name s) d1 b 1 (?n - b) = Some d2" "length d2 = ?c"
      "\<And>j. j < ?c \<Longrightarrow> d2 ! j = (if b + 1 \<le> j \<and> j < b + 1 + (?n - b) then hs_name s ! (j - 1) else d1 ! j)"
    proof -
      have "b + (?n - b) \<le> length (hs_name s)" "b + 1 + (?n - b) \<le> length d1"
        using I(1,2,3) bn d1(2) by auto
      from copy_range_ok[OF this] show ?thesis using that d1(2) by metis
    qed
    show ?thesis
    proof (rule that[of d2 ?c])
      show "insert_name_before x h b s =
        Some (s\<lparr>hs_name_cap := ?c, hs_name := d2[b := Some ?e], hs_name_count := ?n + 1\<rparr>)"
        using True cap d1(1) d2(1,2) I bn
        by (simp add: insert_name_before_def Let_def arr_simps)
    qed (use True I bn d1 d2 in auto)
  next
    case False
    obtain d where d: "shift_up (hs_name s) b ?n = Some d" "length d = hs_name_cap s"
      "\<And>j. j < hs_name_cap s \<Longrightarrow> d ! j = (if b < j \<and> j \<le> ?n then hs_name s ! (j - 1) else hs_name s ! j)"
      using shift_up_ok[of b ?n "hs_name s"] I(1) bn False by auto
    show ?thesis
    proof (rule that[of d "hs_name_cap s"])
      show "insert_name_before x h b s =
        Some (s\<lparr>hs_name_cap := hs_name_cap s, hs_name := d[b := Some ?e], hs_name_count := ?n + 1\<rparr>)"
        using False d(1,2) bn by (simp add: insert_name_before_def Let_def arr_simps)
    qed (use False I bn d in auto)
  qed
  let ?s = "s\<lparr>hs_name_cap := c, hs_name := arr[b := Some ?e], hs_name_count := ?n + 1\<rparr>"
  have tk: "take (Suc ?n) (arr[b := Some ?e]) = take b (map Some ?ns) @ Some ?e # drop b (map Some ?ns)"
    using arr old bn len by (intro insert_gap[where c = c and old = "hs_name s"]) auto
  then have ns: "hs_names ?s = take b ?ns @ ?e # drop b ?ns"
    by (simp add: hs_names_def take_map drop_map del: take_Suc drop_Suc)
  have "sorted_wrt name_less (take b ?ns @ ?e # drop b ?ns)"
  proof -
    have "\<forall>a\<in>set (take b ?ns). name_less a ?e"
      using b len by (auto simp: name_splits_def name_less_def in_set_conv_nth)
    moreover have "\<forall>a\<in>set (drop b ?ns). name_less ?e a"
      using b len by (auto simp: name_splits_def name_less_def in_set_conv_nth strcmp_gt_0)
    moreover have "sorted_wrt name_less (take b ?ns @ drop b ?ns)" using I(5) by simp
    ultimately show ?thesis unfolding sorted_wrt_append by simp
  qed
  then have "names_inv ?s"
    using arr tk ns by (simp add: names_inv_def take_map drop_map)
  then show ?thesis using run ns by simp
qed

definition name_kv :: "handle_name \<Rightarrow> string \<times> u32" where
  "name_kv n = (hn_name n, hn_handle n)"

lemma names_map_kv: "names_map s = map_of (map name_kv (hs_names s))"
  by (simp add: names_map_def name_kv_def[abs_def])

lemma map_of_kv_insert:
  assumes "x \<notin> hn_name ` set ns"
  shows "map_of (map name_kv (take b ns @ \<lparr>hn_name = x, hn_handle = h\<rparr> # drop b ns)) =
    (map_of (map name_kv ns))(x \<mapsto> h)"
proof -
  have "x \<notin> dom (map_of (map name_kv (take b ns)))"
    using assms by (auto simp: dom_map_of_conv_image_fst name_kv_def dest: in_set_takeD)
  then have "map_of (map name_kv (take b ns @ \<lparr>hn_name = x, hn_handle = h\<rparr> # drop b ns)) =
      (map_of (map name_kv (drop b ns)) ++ map_of (map name_kv (take b ns)))(x \<mapsto> h)"
    by (simp add: name_kv_def map_add_upd_left)
  also have "map_of (map name_kv (drop b ns)) ++ map_of (map name_kv (take b ns)) = map_of (map name_kv ns)"
    by (metis append_take_drop_id map_append map_of_append)
  finally show ?thesis .
qed

lemma insert_name_ok:
  assumes inv: "names_inv s"
    and cap: "hs_name_count s < hs_name_cap s \<or> hs_name_cap s * 2 \<le> MAX_SLOT_SIZE"
  shows "\<exists>s'. insert_name x h s = Some (s', if names_map s x = None then Some x else None) \<and>
     names_inv s' \<and> names_map s' = (if names_map s x = None then (names_map s)(x \<mapsto> h) else names_map s) \<and>
     hs_slot s' = hs_slot s \<and> hs_slot_size s' = hs_slot_size s \<and>
     hs_handle_index s' = hs_handle_index s \<and> hs_harbor s' = hs_harbor s"
proof -
  obtain b r where r: "name_search (hs_name s) x 0 (int (hs_name_count s) - 1) = Some (b, r)"
    "search_post (hs_names s) x b r"
    using names_search[OF inv] by blast
  show ?thesis
  proof (cases r)
    case None
    then have sp: "name_splits (hs_names s) x b" using r(2) by (simp add: search_post_def)
    then have "0 \<le> b" by (simp add: name_splits_def)
    then have sp': "name_splits (hs_names s) x (int (nat b))" using sp by simp
    have ni: "x \<notin> hn_name ` set (hs_names s)" using name_splits_not_in[OF sp] .
    have nm: "names_map s x = None"
      using ni by (auto simp: names_map_kv map_of_eq_None_iff name_kv_def)
    obtain s' where s': "insert_name_before x h (nat b) s = Some s'" "names_inv s'"
      "hs_names s' = take (nat b) (hs_names s) @ \<lparr>hn_name = x, hn_handle = h\<rparr> # drop (nat b) (hs_names s)"
      "hs_slot s' = hs_slot s" "hs_slot_size s' = hs_slot_size s"
      "hs_handle_index s' = hs_handle_index s" "hs_harbor s' = hs_harbor s"
      using insert_name_before_ok[OF inv sp' cap] by blast
    have "names_map s' = (names_map s)(x \<mapsto> h)"
      unfolding names_map_kv s'(3) using map_of_kv_insert[OF ni] .
    then show ?thesis using r(1) None s' nm by (simp add: insert_name_def)
  next
    case (Some n)
    then have "n \<in> set (hs_names s)" "hn_name n = x" using r(2) by (auto simp: search_post_def)
    then have "names_map s x \<noteq> None"
      by (auto simp: names_map_kv map_of_eq_None_iff name_kv_def image_image)
    then show ?thesis using r(1) Some inv by (simp add: insert_name_def)
  qed
qed

section \<open>Retiring a handle\<close>

lemma retire_names_ok:
  "\<lbrakk>take j arr = map Some done; j \<le> i; j = length done; n = length rest;
    i + n \<le> length arr; \<forall>k<n. arr ! (i + k) = Some (rest ! k)\<rbrakk> \<Longrightarrow>
   \<exists>arr'. retire_names h i j n arr = Some (arr', length (done @ filter (\<lambda>e. hn_handle e \<noteq> h) rest)) \<and>
     length arr' = length arr \<and>
     take (length (done @ filter (\<lambda>e. hn_handle e \<noteq> h) rest)) arr' =
       map Some (done @ filter (\<lambda>e. hn_handle e \<noteq> h) rest)"
proof (induction rest arbitrary: i j n arr "done")
  case (Cons e rest)
  have i: "i < length arr" "arr ! i = Some e" using Cons.prems by auto
  have nxt: "arr ! (Suc i + k) = Some (rest ! k)" if "k < length rest" for k
    using Cons.prems(4,6) that by (metis Suc_less_eq add_Suc_shift length_Cons nth_Cons_Suc)
  show ?case
  proof (cases "hn_handle e = h")
    case True
    then show ?thesis
      using Cons.IH[of j arr "done" "Suc i" "length rest"] Cons.prems nxt i by (auto simp: arr_simps)
  next
    case False
    let ?arr = "arr[j := Some e]"
    have st: "retire_names h i j n arr = retire_names h (Suc i) (Suc j) (length rest) ?arr"
      using False i Cons.prems(2,4) list_update_id[of arr i] by (cases "i = j") (auto simp: arr_simps)
    have "take (Suc j) ?arr = map Some (done @ [e])"
      using Cons.prems(1,2) i(1) by (simp add: take_Suc_conv_app_nth)
    moreover have "?arr ! (Suc i + k) = Some (rest ! k)" if "k < length rest" for k
      using nxt[OF that] Cons.prems(2) by simp
    ultimately show ?thesis
      using Cons.IH[of "Suc j" ?arr "done @ [e]" "Suc i" "length rest"] Cons.prems False
      unfolding st by simp
  qed
qed auto

lemma sorted_wrt_filter: "sorted_wrt P xs \<Longrightarrow> sorted_wrt P (filter Q xs)"
  by (induction xs) auto

lemma map_of_kv_filter:
  "distinct (map hn_name ns) \<Longrightarrow>
   map_of (map name_kv (filter (\<lambda>e. hn_handle e \<noteq> h) ns)) x =
   (case map_of (map name_kv ns) x of None \<Rightarrow> None | Some g \<Rightarrow> if g = h then None else Some g)"
proof (induction ns)
  case (Cons e ns)
  then have "map_of (map name_kv ns) (hn_name e) = None"
    by (auto simp: map_of_eq_None_iff name_kv_def)
  moreover have "name_kv e = (hn_name e, hn_handle e)" by (simp add: name_kv_def)
  ultimately show ?case using Cons by (auto split: option.splits)
qed simp

text \<open>
  What retiring does: nothing when the handle is free, else it empties the slot and drops
  every name bound to the handle.
\<close>

definition names_without :: "u32 \<Rightarrow> (string \<Rightarrow> u32 option) \<Rightarrow> string \<Rightarrow> u32 option" where
  "names_without h m = (\<lambda>x. case m x of None \<Rightarrow> None | Some g \<Rightarrow> if g = h then None else Some g)"

lemma retire_found:
  assumes inv: "hs_inv ch s" and ninv: "names_inv s"
    and c: "handle_grab ch h s = Some c" "c \<noteq> NULL"
  shows "\<exists>s'. handle_retire ch h s = Some (s', c) \<and> hs_inv ch s' \<and> names_inv s' \<and>
     names_map s' = names_without h (names_map s) \<and>
     hs_slot s' = (hs_slot s)[slot_hash h (hs_slot_size s) := NULL] \<and> hs_slot_size s' = hs_slot_size s"
proof -
  let ?j = "slot_hash h (hs_slot_size s)" let ?f = "filter (\<lambda>e. hn_handle e \<noteq> h) (hs_names s)"
  have j: "?j < length (hs_slot s)" using hs_inv_hash[OF inv] .
  have cj: "hs_slot s ! ?j = c" "ch c = Some h"
    using c j by (auto simp: handle_grab_def arr_simps split: if_splits bind_splits)
  have len: "length (hs_names s) = hs_name_count s" using names_inv_length[OF ninv] .
  have "\<exists>arr'. retire_names h 0 0 (hs_name_count s) (hs_name s) = Some (arr', length ([] @ ?f)) \<and>
      length arr' = length (hs_name s) \<and> take (length ([] @ ?f)) arr' = map Some ([] @ ?f)"
    using ninv len names_inv_nth[OF ninv]
    by (intro retire_names_ok) (auto simp: names_inv_def arr_simps)
  then obtain arr where arr: "retire_names h 0 0 (hs_name_count s) (hs_name s) = Some (arr, length ?f)"
    "length arr = length (hs_name s)" "take (length ?f) arr = map Some ?f" by auto
  let ?s = "s\<lparr>hs_slot := (hs_slot s)[?j := NULL], hs_name := arr, hs_name_count := length ?f\<rparr>"
  have ns: "hs_names ?s = ?f" using arr(3) by (simp add: hs_names_def comp_def)
  have run: "handle_retire ch h s = Some (?s, c)"
    using j cj c(2) arr(1) by (simp add: handle_retire_def Let_def arr_simps)
  have "\<exists>g. ch ((hs_slot s)[?j := NULL] ! i) = Some g \<and> slot_hash g (hs_slot_size s) = i"
    if "i < hs_slot_size s" "(hs_slot s)[?j := NULL] ! i \<noteq> NULL" for i
    using that hs_inv_nth[OF inv that(1)] j by (cases "i = ?j") auto
  then have "hs_inv ch ?s" using inv by (simp add: hs_inv_def)
  moreover have "names_inv ?s"
    using ninv arr ns len length_filter_le[of "\<lambda>e. hn_handle e \<noteq> h" "hs_names s"]
    by (simp add: names_inv_def sorted_wrt_filter)
  moreover have "names_map ?s = names_without h (names_map s)"
    using map_of_kv_filter[of "hs_names s"] names_distinct[of "hs_names s"] ninv
    by (auto simp: names_map_kv ns names_without_def names_inv_def fun_eq_iff)
  ultimately show ?thesis using run by simp
qed

lemma retire_none:
  assumes "hs_inv ch s" "handle_grab ch h s = Some NULL"
  shows "handle_retire ch h s = Some (s, NULL)"
  using assms hs_inv_hash[OF assms(1)]
  by (auto simp: handle_grab_def handle_retire_def arr_simps Let_def split: if_splits bind_splits)

section \<open>The table as a key table\<close>

definition handle_lookup :: "ctx_handle \<times> handle_storage \<Rightarrow> u32 \<Rightarrow> ptr option" where
  "handle_lookup = (\<lambda>(ch, s) h. case handle_grab ch h s of
     Some c \<Rightarrow> (if c = NULL then None else Some c) | None \<Rightarrow> None)"

definition table_inv :: "ctx_handle \<times> handle_storage \<Rightarrow> bool" where
  "table_inv = (\<lambda>(ch, s). hs_inv ch s \<and> names_inv s)"

definition table_addable :: "ctx_handle \<times> handle_storage \<Rightarrow> ptr \<Rightarrow> bool" where
  "table_addable = (\<lambda>(ch, s) c. hs_addable s \<and> c \<noteq> NULL \<and> c \<notin> set (hs_slot s))"

text \<open>
  What \<open>skynet_context_new\<close> does with the table: register a context that is not in it, then
  write the handle into the context.
\<close>

definition table_add :: "ctx_handle \<times> handle_storage \<Rightarrow> ptr \<Rightarrow> ((ctx_handle \<times> handle_storage) \<times> u32) option" where
  "table_add = (\<lambda>(ch, s) c. do {
     c_assert (c \<noteq> NULL \<and> c \<notin> set (hs_slot s));
     (s', h) \<leftarrow> skynet_handle_register ch c s;
     Some ((ch(c \<mapsto> h), s'), h)
   })"

definition table_del :: "ctx_handle \<times> handle_storage \<Rightarrow> u32 \<Rightarrow> (ctx_handle \<times> handle_storage) option" where
  "table_del = (\<lambda>(ch, s) h. do { (s', c) \<leftarrow> handle_retire ch h s; Some (ch, s') })"

lemma handle_lookup_iff:
  "table_inv (ch, s) \<Longrightarrow>
   handle_lookup (ch, s) h = Some c \<longleftrightarrow> c \<noteq> NULL \<and> c \<in> set (hs_slot s) \<and> ch c = Some h"
  using handle_grab_iff[of ch s c h] handle_grab_total[of ch s h]
  by (auto simp: handle_lookup_def table_inv_def split: option.splits)

lemma table_add_ok:
  assumes inv: "table_inv (ch, s)" and add: "table_addable (ch, s) c"
  shows "\<exists>s' h. table_add (ch, s) c = Some ((ch(c \<mapsto> h), s'), h) \<and> table_inv (ch(c \<mapsto> h), s') \<and>
     handle_lookup (ch, s) h = None \<and>
     handle_lookup (ch(c \<mapsto> h), s') = (handle_lookup (ch, s))(h \<mapsto> c)"
proof -
  have c: "c \<noteq> NULL" "c \<notin> set (hs_slot s)" "hs_addable s" and i: "hs_inv ch s" "names_inv s"
    using inv add by (auto simp: table_addable_def table_inv_def)
  obtain s' h where r: "skynet_handle_register ch c s = Some (s', h)" "hs_inv (ch(c \<mapsto> h)) s'"
    "handle_grab ch h s = Some NULL" "set (hs_slot s') - {NULL} = insert c (set (hs_slot s)) - {NULL}"
    "hs_name s' = hs_name s" "hs_name_count s' = hs_name_count s" "hs_name_cap s' = hs_name_cap s"
    using register_ok[OF i(1) c(3,1,2)] by blast
  have inv': "table_inv (ch(c \<mapsto> h), s')"
    using r i(2) by (simp add: table_inv_def names_inv_def hs_names_def)
  have old: "handle_lookup (ch, s) h = None" using r(3) by (simp add: handle_lookup_def)
  have "handle_lookup (ch(c \<mapsto> h), s') g = ((handle_lookup (ch, s))(h \<mapsto> c)) g" for g
  proof -
    have "handle_lookup (ch(c \<mapsto> h), s') g = Some d \<longleftrightarrow> ((handle_lookup (ch, s))(h \<mapsto> c)) g = Some d" for d
    proof -
      have mem: "d \<noteq> NULL \<Longrightarrow> d \<in> set (hs_slot s') \<longleftrightarrow> d = c \<or> d \<in> set (hs_slot s)"
        using r(4) by blast
      have nh: "d \<in> set (hs_slot s) \<Longrightarrow> d \<noteq> NULL \<Longrightarrow> ch d \<noteq> Some h"
        using handle_lookup_iff[OF inv, of h d] old by auto
      show ?thesis
        using handle_lookup_iff[OF inv', of g d] handle_lookup_iff[OF inv, of g d] mem nh c
        by (auto split: if_splits)
    qed
    then show ?thesis by (metis option.exhaust)
  qed
  then show ?thesis using r(1) c inv' old by (auto simp: table_add_def)
qed

lemma table_del_ok:
  assumes inv: "table_inv (ch, s)"
  shows "\<exists>s'. table_del (ch, s) h = Some (ch, s') \<and> table_inv (ch, s') \<and>
     handle_lookup (ch, s') = (handle_lookup (ch, s))(h := None)"
proof -
  have i: "hs_inv ch s" "names_inv s" using inv by (auto simp: table_inv_def)
  obtain c where c: "handle_grab ch h s = Some c" using handle_grab_total[OF i(1)] by blast
  show ?thesis
  proof (cases "c = NULL")
    case True
    then have "handle_lookup (ch, s) h = None" using c by (simp add: handle_lookup_def)
    then show ?thesis using retire_none[OF i(1)] c True inv by (simp add: table_del_def fun_upd_idem)
  next
    case False
    obtain s' where s': "handle_retire ch h s = Some (s', c)" "hs_inv ch s'" "names_inv s'"
      "hs_slot s' = (hs_slot s)[slot_hash h (hs_slot_size s) := NULL]" "hs_slot_size s' = hs_slot_size s"
      using retire_found[OF i c False] by blast
    have chc: "ch c = Some h" using handle_grab_iff[OF i(1) False] c by blast
    have j: "slot_hash h (hs_slot_size s) < length (hs_slot s)" using hs_inv_hash[OF i(1)] .
    have cj: "hs_slot s ! slot_hash h (hs_slot_size s) = c"
      using c j False by (auto simp: handle_grab_def arr_simps split: if_splits bind_splits)
    have "handle_lookup (ch, s') g = ((handle_lookup (ch, s))(h := None)) g" for g
    proof (cases "slot_hash g (hs_slot_size s) = slot_hash h (hs_slot_size s)")
      case True
      then show ?thesis using s'(4,5) j cj chc False
        by (auto simp: handle_lookup_def handle_grab_def arr_simps)
    next
      case neq: False
      then show ?thesis using s'(4,5) hs_inv_hash[OF i(1), of g]
        by (auto simp: handle_lookup_def handle_grab_def arr_simps)
    qed
    then show ?thesis using s' by (auto simp: table_del_def table_inv_def fun_eq_iff)
  qed
qed

lemma table_add_addable:
  assumes inv: "table_inv (ch, s)" and add: "table_add (ch, s) c = Some (s', h)"
  shows "table_addable (ch, s) c"
  using add register_full[of ch s c] inv
  by (auto simp: table_addable_def table_add_def table_inv_def c_assert_def split: if_splits bind_splits)

interpretation handles: key_table table_inv handle_lookup table_addable table_add table_del
proof
  fix s :: "ctx_handle \<times> handle_storage" and c s' k
  obtain ch st where s: "s = (ch, st)" by (cases s)
  show "\<exists>s' k. table_add s c = Some (s', k) \<and> table_inv s' \<and> handle_lookup s k = None \<and>
          handle_lookup s' = (handle_lookup s)(k \<mapsto> c)"
    if "table_inv s" "table_addable s c"
    using table_add_ok[of ch st c] that unfolding s by blast
  show "table_addable s c" if "table_inv s" "table_add s c = Some (s', k)"
    using table_add_addable that unfolding s by blast
  show "\<exists>s'. table_del s k = Some s' \<and> table_inv s' \<and> handle_lookup s' = (handle_lookup s)(k := None)"
    if "table_inv s"
    using table_del_ok[of ch st k] that unfolding s by blast
qed

lemma table_init: "table_inv (ch, skynet_handle_init harbor)"
proof -
  let ?s = "skynet_handle_init harbor"
  have "unat (hs_harbor ?s) mod 2 ^ 24 = 0"
  proof -
    have "take_bit 24 (hs_harbor ?s) = 0"
      by (simp add: skynet_handle_init_def HANDLE_REMOTE_SHIFT_def bit_eq_iff bit_simps)
    then have "unat (hs_harbor ?s AND mask 24) = 0" by (simp add: take_bit_eq_mask)
    then show ?thesis by (simp add: unat_and_mask)
  qed
  moreover have "\<exists>k\<le>24. (4 :: nat) = 2 ^ k" by (intro exI[of _ 2]) simp
  ultimately show ?thesis
    by (simp add: table_inv_def hs_inv_def names_inv_def hs_names_def skynet_handle_init_def
        DEFAULT_SLOT_SIZE_def)
qed

text \<open>After the index has wrapped around, the handle 0 can be handed out.\<close>

lemma register_zero:
  assumes "s = (skynet_handle_init 0)\<lparr>hs_handle_index := 2 ^ 24\<rparr>" "c \<noteq> NULL"
  shows "\<exists>s'. skynet_handle_register Map.empty c s = Some (s', 0)"
proof -
  have s: "hs_slot_size s = Suc 3" "hs_slot s = replicate (Suc 3) NULL" "hs_harbor s = 0"
    "hs_handle_index s AND HANDLE_MASK = 0"
    by (simp_all add: assms(1) skynet_handle_init_def DEFAULT_SLOT_SIZE_def HANDLE_MASK_def)
  have scan: "register_scan s 0 (Suc 3) = Some (Some (0, 0))"
    unfolding register_scan.simps s by (simp add: slot_hash_def array_get_def s(4))
  show ?thesis
    by (subst skynet_handle_register.simps, unfold s(1) scan) (simp add: s array_set_def)
qed

end
