(* ===== verification/Delay_Spec.thy ===== *)
theory Delay_Spec
  imports Prelude "HOL-Library.Multiset"
begin

text \<open>
  The contract of a delay queue, which is what \<^verbatim>\<open>skynet_timer.c\<close> promises
  \<open>skynet_timeout\<close>: an event added with delay \<open>d\<close> comes out of the \<open>d\<close>-th tick after it,
  whatever else is added in between. Clients see a multiset of pending events with the
  number of ticks each still waits.
\<close>

datatype 'e delay_op = Add nat 'e | Tick

fun ticks :: "'e delay_op list \<Rightarrow> nat" where
  "ticks [] = 0"
| "ticks (Add d e # ops) = ticks ops"
| "ticks (Tick # ops) = Suc (ticks ops)"

fun op_events :: "'e delay_op list \<Rightarrow> 'e set" where
  "op_events [] = {}"
| "op_events (Add d e # ops) = insert e (op_events ops)"
| "op_events (Tick # ops) = op_events ops"

fun op_delays :: "'e delay_op list \<Rightarrow> nat set" where
  "op_delays [] = {}"
| "op_delays (Add d e # ops) = insert d (op_delays ops)"
| "op_delays (Tick # ops) = op_delays ops"

fun delay_run :: "('s \<Rightarrow> nat \<Rightarrow> 'e \<Rightarrow> 's option) \<Rightarrow> ('s \<Rightarrow> ('s \<times> 'o list) option) \<Rightarrow>
    's \<Rightarrow> 'e delay_op list \<Rightarrow> ('s \<times> 'o list list) option" where
  "delay_run add tick s [] = Some (s, [])"
| "delay_run add tick s (Add d e # ops) = do { s \<leftarrow> add s d e; delay_run add tick s ops }"
| "delay_run add tick s (Tick # ops) = do {
     (s, out) \<leftarrow> tick s;
     (s, outs) \<leftarrow> delay_run add tick s ops;
     Some (s, out # outs)
   }"

definition due_now :: "(nat \<times> 'e) multiset \<Rightarrow> 'e multiset" where
  "due_now P = image_mset snd (filter_mset (\<lambda>(d, e). d \<le> 1) P)"

definition due_later :: "(nat \<times> 'e) multiset \<Rightarrow> (nat \<times> 'e) multiset" where
  "due_later P = image_mset (\<lambda>(d, e). (d - 1, e)) (filter_mset (\<lambda>(d, e). 1 < d) P)"

lemma due_now_mem: "e \<in># due_now P \<longleftrightarrow> (\<exists>d\<le>1. (d, e) \<in># P)"
  by (force simp: due_now_def)

lemma due_later_mem: "(d, e) \<in># due_later P \<longleftrightarrow> 0 < d \<and> (Suc d, e) \<in># P"
proof -
  have "(d, e) \<in># due_later P \<longleftrightarrow> (\<exists>k. (k, e) \<in># P \<and> 1 < k \<and> d = k - 1)"
    by (force simp: due_later_def)
  also have "\<dots> \<longleftrightarrow> 0 < d \<and> (Suc d, e) \<in># P"
    by (auto intro: exI[of _ "Suc d"])
  finally show ?thesis .
qed

locale delay_queue =
  fixes inv :: "'s \<Rightarrow> bool"
    and pending :: "'s \<Rightarrow> (nat \<times> 'e) multiset"
    and bound :: nat
    and add :: "'s \<Rightarrow> nat \<Rightarrow> 'e \<Rightarrow> 's option"
    and tick :: "'s \<Rightarrow> ('s \<times> 'o list) option"
    and emit :: "'e \<Rightarrow> 'o"
  assumes add_ok: "inv s \<Longrightarrow> 0 < d \<Longrightarrow> d < bound \<Longrightarrow>
      \<exists>s'. add s d e = Some s' \<and> inv s' \<and> pending s' = add_mset (d, e) (pending s)"
    and tick_ok: "inv s \<Longrightarrow>
      \<exists>s' out. tick s = Some (s', out) \<and> inv s' \<and> mset out = image_mset emit (due_now (pending s)) \<and>
        pending s' = due_later (pending s)"
begin

lemma run_total:
  assumes "inv s" "op_delays ops \<subseteq> {0<..<bound}"
  shows "\<exists>s' outs. delay_run add tick s ops = Some (s', outs) \<and> inv s' \<and> length outs = ticks ops"
  using assms
proof (induction ops arbitrary: s)
  case (Cons x ops)
  show ?case
  proof (cases x)
    case (Add d e)
    then obtain s1 where "add s d e = Some s1" "inv s1"
      using add_ok[OF Cons.prems(1), of d e] Cons.prems(2) by auto
    then show ?thesis using Cons.IH[of s1] Cons.prems(2) Add by simp
  next
    case Tick
    then obtain s1 out where "tick s = Some (s1, out)" "inv s1"
      using tick_ok[OF Cons.prems(1)] by auto
    then show ?thesis using Cons.IH[of s1] Cons.prems(2) Tick by auto
  qed
qed simp

text \<open>A pending event comes out of the tick its delay names, and of no other.\<close>

lemma run_fires:
  assumes "inv s" "op_delays ops \<subseteq> {0<..<bound}" "delay_run add tick s ops = Some (s', outs)"
    and "(Suc d, e) \<in># pending s" "d < ticks ops"
  shows "emit e \<in> set (outs ! d)"
  using assms
proof (induction ops arbitrary: s d outs)
  case (Cons x ops)
  show ?case
  proof (cases x)
    case (Add d' e')
    then obtain s1 where "add s d' e' = Some s1" "inv s1" "pending s1 = add_mset (d', e') (pending s)"
      using add_ok[OF Cons.prems(1), of d' e'] Cons.prems(2) by auto
    then show ?thesis using Cons.IH[of s1 outs d] Cons.prems Add by simp
  next
    case Tick
    then obtain s1 out where t: "tick s = Some (s1, out)" "inv s1" "mset out = image_mset emit (due_now (pending s))"
      "pending s1 = due_later (pending s)"
      using tick_ok[OF Cons.prems(1)] by auto
    obtain outs1 where o: "delay_run add tick s1 ops = Some (s', outs1)" "outs = out # outs1"
      using Cons.prems(3) Tick t(1) by (auto split: bind_splits)
    show ?thesis
    proof (cases d)
      case 0
      then have "e \<in># due_now (pending s)" using Cons.prems(4) by (auto simp: due_now_mem)
      then have "emit e \<in># mset out" using t(3) by simp
      then show ?thesis using o(2) 0 by simp
    next
      case (Suc n)
      then have "(Suc n, e) \<in># pending s1" using t(4) Cons.prems(4) by (simp add: due_later_mem)
      then show ?thesis using Cons.IH[OF t(2) _ o(1), of n] Cons.prems Tick o(2) Suc by simp
    qed
  qed
qed simp

lemma run_fires_only:
  assumes "inv s" "op_delays ops \<subseteq> {0<..<bound}" "delay_run add tick s ops = Some (s', outs)"
    and "\<forall>k e. (k, e) \<in># pending s \<longrightarrow> emit e = x \<longrightarrow> k = Suc d" "x \<notin> emit ` op_events ops"
    and "n < length outs" "n \<noteq> d"
  shows "x \<notin> set (outs ! n)"
  using assms
proof (induction ops arbitrary: s d n outs)
  case (Cons p ops)
  show ?case
  proof (cases p)
    case (Add d' e')
    then obtain s1 where "add s d' e' = Some s1" "inv s1" "pending s1 = add_mset (d', e') (pending s)"
      using add_ok[OF Cons.prems(1), of d' e'] Cons.prems(2) by auto
    then show ?thesis using Cons.IH[of s1 outs d n] Cons.prems Add by auto
  next
    case Tick
    then obtain s1 out where t: "tick s = Some (s1, out)" "inv s1" "mset out = image_mset emit (due_now (pending s))"
      "pending s1 = due_later (pending s)"
      using tick_ok[OF Cons.prems(1)] by auto
    obtain outs1 where o: "delay_run add tick s1 ops = Some (s', outs1)" "outs = out # outs1"
      using Cons.prems(3) Tick t(1) by (auto split: bind_splits)
    show ?thesis
    proof (cases n)
      case 0
      have "emit f \<noteq> x" if "f \<in># due_now (pending s)" for f
        using that Cons.prems(4,7) 0 unfolding due_now_mem by (metis le_SucE le_zero_eq One_nat_def nat.inject not_less_eq_eq Zero_not_Suc)
      then have "x \<notin># mset out" using t(3) by auto
      then show ?thesis using o(2) 0 by simp
    next
      case (Suc m)
      define d1 where "d1 = (if d = 0 then Suc m else d - 1)"
      have "\<forall>k e. (k, e) \<in># pending s1 \<longrightarrow> emit e = x \<longrightarrow> k = Suc d1"
      proof (intro allI impI)
        fix k e assume "(k, e) \<in># pending s1" "emit e = x"
        then have "0 < k" "(Suc k, e) \<in># pending s" using t(4) by (simp_all add: due_later_mem)
        then have "Suc k = Suc d" using Cons.prems(4) \<open>emit e = x\<close> by blast
        then show "k = Suc d1" using \<open>0 < k\<close> by (simp add: d1_def)
      qed
      moreover have "m \<noteq> d1" using Cons.prems(7) Suc by (auto simp: d1_def)
      ultimately show ?thesis
        using Cons.IH[OF t(2) _ o(1), of d1 m] Cons.prems Tick o(2) Suc by simp
    qed
  qed
qed simp

text \<open>The promise to a caller: delay \<open>d\<close> means the \<open>d\<close>-th tick.\<close>

lemma add_fires:
  assumes "inv s" "0 < d" "d < bound" "op_delays ops \<subseteq> {0<..<bound}" "d \<le> ticks ops"
  shows "\<exists>s' outs. delay_run add tick s (Add d e # ops) = Some (s', outs) \<and> length outs = ticks ops \<and>
     emit e \<in> set (outs ! (d - 1)) \<and>
     (emit e \<notin> emit ` snd ` set_mset (pending s) \<longrightarrow> emit e \<notin> emit ` op_events ops \<longrightarrow>
        (\<forall>n<ticks ops. n \<noteq> d - 1 \<longrightarrow> emit e \<notin> set (outs ! n)))"
proof -
  obtain s1 where s1: "add s d e = Some s1" "inv s1" "pending s1 = add_mset (d, e) (pending s)"
    using add_ok[OF assms(1-3)] by blast
  obtain s' outs where r: "delay_run add tick s1 ops = Some (s', outs)" "length outs = ticks ops"
    using run_total[OF s1(2) assms(4)] by blast
  have "emit e \<in> set (outs ! (d - 1))"
    using run_fires[OF s1(2) assms(4) r(1), of "d - 1" e] s1(3) assms(2,5) by simp
  moreover have "emit e \<notin> set (outs ! n)"
    if new: "emit e \<notin> emit ` snd ` set_mset (pending s)" "emit e \<notin> emit ` op_events ops"
      and n: "n < ticks ops" "n \<noteq> d - 1" for n
  proof -
    have "\<forall>k f. (k, f) \<in># pending s1 \<longrightarrow> emit f = emit e \<longrightarrow> k = Suc (d - 1)"
    proof (intro allI impI)
      fix k f assume "(k, f) \<in># pending s1" "emit f = emit e"
      then show "k = Suc (d - 1)"
        using s1(3) new(1) assms(2) by (metis (no_types) Suc_pred' fst_conv image_eqI insert_iff
            set_mset_add_mset_insert snd_conv prod.inject)
    qed
    then show ?thesis using run_fires_only[OF s1(2) assms(4) r(1) _ new(2), of "d - 1" n] n r(2) by metis
  qed
  ultimately show ?thesis using s1(1) r by auto
qed

end

end
