(* ===== verification/Timer.thy ===== *)
theory Timer
  imports Delay_Spec Message_Queue
begin

text \<open>
  Model of \<^verbatim>\<open>skynet-src/skynet_timer.c\<close>: a hierarchical timing wheel with 256 near
  slots and four levels of 64 slots, driven by a 32-bit tick counter that wraps around.

  A \<open>link_list\<close> of the source is the list of its nodes in order: \<open>link\<close> appends at the tail
  and \<open>link_clear\<close> returns the chain and leaves the list empty. What \<open>dispatch_list\<close> pushes
  is collected as the list of (handle, message) pairs in the order of the pushes; theory
  Server feeds it to \<open>skynet_context_push\<close>.
\<close>

section \<open>Data\<close>

definition PTYPE_RESPONSE :: u64 where
  "PTYPE_RESPONSE = 1"

definition TIME_NEAR_SHIFT :: nat where
  "TIME_NEAR_SHIFT = 8"

definition TIME_NEAR :: nat where
  "TIME_NEAR = 2 ^ TIME_NEAR_SHIFT"

definition TIME_LEVEL_SHIFT :: nat where
  "TIME_LEVEL_SHIFT = 6"

definition TIME_LEVEL :: nat where
  "TIME_LEVEL = 2 ^ TIME_LEVEL_SHIFT"

definition TIME_NEAR_MASK :: u32 where
  "TIME_NEAR_MASK = of_nat TIME_NEAR - 1"

definition TIME_LEVEL_MASK :: u32 where
  "TIME_LEVEL_MASK = of_nat TIME_LEVEL - 1"

record timer_event =
  te_handle :: u32
  te_session :: int

record timer_node =
  tn_expire :: u32
  tn_event :: timer_event

type_synonym link_list = "timer_node list"

record timer =
  tm_near :: "link_list list"
  tm_t :: "link_list list list"
  tm_time :: u32
  tm_starttime :: u32
  tm_current :: u64
  tm_current_point :: u64

section \<open>Operations\<close>

definition link_clear :: "link_list \<Rightarrow> link_list \<times> link_list" where
  "link_clear list = (list, [])"

definition link :: "link_list \<Rightarrow> timer_node \<Rightarrow> link_list" where
  "link list node = list @ [node]"

definition near_link :: "timer \<Rightarrow> nat \<Rightarrow> timer_node \<Rightarrow> timer option" where
  "near_link T i node = do {
     l \<leftarrow> array_get (tm_near T) i;
     near \<leftarrow> array_set (tm_near T) i (link l node);
     Some (T\<lparr>tm_near := near\<rparr>)
   }"

definition level_link :: "timer \<Rightarrow> nat \<Rightarrow> nat \<Rightarrow> timer_node \<Rightarrow> timer option" where
  "level_link T i j node = do {
     v \<leftarrow> array_get (tm_t T) i;
     l \<leftarrow> array_get v j;
     v \<leftarrow> array_set v j (link l node);
     t \<leftarrow> array_set (tm_t T) i v;
     Some (T\<lparr>tm_t := t\<rparr>)
   }"

text \<open>The \<open>for\<close> loop of \<open>add_node\<close>, with \<open>n\<close> rounds left: the level it stops at.\<close>

fun add_node_level :: "u32 \<Rightarrow> u32 \<Rightarrow> u32 \<Rightarrow> nat \<Rightarrow> nat \<Rightarrow> nat" where
  "add_node_level time current_time msk i 0 = i"
| "add_node_level time current_time msk i (Suc n) =
     (if (time OR (msk - 1)) = (current_time OR (msk - 1)) then i
      else add_node_level time current_time (push_bit TIME_LEVEL_SHIFT msk) (Suc i) n)"

definition add_node :: "timer \<Rightarrow> timer_node \<Rightarrow> timer option" where
  "add_node T node =
     (let time = tn_expire node; current_time = tm_time T in
      if (time OR TIME_NEAR_MASK) = (current_time OR TIME_NEAR_MASK)
      then near_link T (unat (time AND TIME_NEAR_MASK)) node
      else
        let i = add_node_level time current_time (push_bit TIME_LEVEL_SHIFT (of_nat TIME_NEAR)) 0 3
        in level_link T i
             (unat (drop_bit (TIME_NEAR_SHIFT + i * TIME_LEVEL_SHIFT) time AND TIME_LEVEL_MASK)) node)"

definition timer_add :: "timer \<Rightarrow> timer_event \<Rightarrow> int \<Rightarrow> timer option" where
  "timer_add T arg time = add_node T \<lparr>tn_expire = word_of_int time + tm_time T, tn_event = arg\<rparr>"

fun add_nodes :: "timer \<Rightarrow> link_list \<Rightarrow> timer option" where
  "add_nodes T [] = Some T"
| "add_nodes T (current # temp) = do { T \<leftarrow> add_node T current; add_nodes T temp }"

definition move_list :: "timer \<Rightarrow> nat \<Rightarrow> nat \<Rightarrow> timer option" where
  "move_list T level idx = do {
     v \<leftarrow> array_get (tm_t T) level;
     l \<leftarrow> array_get v idx;
     let (current, l) = link_clear l;
     v \<leftarrow> array_set v idx l;
     t \<leftarrow> array_set (tm_t T) level v;
     add_nodes (T\<lparr>tm_t := t\<rparr>) current
   }"

partial_function (option) timer_shift_loop :: "timer \<Rightarrow> u32 \<Rightarrow> u32 \<Rightarrow> u32 \<Rightarrow> nat \<Rightarrow> timer option" where
  "timer_shift_loop T ct msk time i =
     (if ct AND (msk - 1) = 0 then
        let idx = unat (time AND TIME_LEVEL_MASK) in
        if idx \<noteq> 0 then move_list T i idx
        else timer_shift_loop T ct (push_bit TIME_LEVEL_SHIFT msk) (drop_bit TIME_LEVEL_SHIFT time) (Suc i)
      else Some T)"

definition timer_shift :: "timer \<Rightarrow> timer option" where
  "timer_shift T =
     (let ct = tm_time T + 1; T = T\<lparr>tm_time := ct\<rparr> in
      if ct = 0 then move_list T 3 0
      else timer_shift_loop T ct (of_nat TIME_NEAR) (drop_bit TIME_NEAR_SHIFT ct) 0)"

definition timer_message :: "int \<Rightarrow> skynet_message" where
  "timer_message session = \<lparr>msg_source = 0, msg_session = session, msg_data = NULL,
     msg_sz = push_bit MESSAGE_TYPE_SHIFT PTYPE_RESPONSE\<rparr>"

definition event_push :: "timer_event \<Rightarrow> u32 \<times> skynet_message" where
  "event_push event = (te_handle event, timer_message (te_session event))"

fun dispatch_list :: "link_list \<Rightarrow> (u32 \<times> skynet_message) list" where
  "dispatch_list [] = []"
| "dispatch_list (current # temp) = event_push (tn_event current) # dispatch_list temp"

function timer_execute :: "timer \<Rightarrow> (timer \<times> (u32 \<times> skynet_message) list) option" where
  "timer_execute T =
     (let idx = unat (tm_time T AND TIME_NEAR_MASK) in
      if idx < length (tm_near T) then
        if tm_near T ! idx \<noteq> [] then
          let (current, l) = link_clear (tm_near T ! idx) in do {
            (T, out) \<leftarrow> timer_execute (T\<lparr>tm_near := (tm_near T)[idx := l]\<rparr>);
            Some (T, dispatch_list current @ out)
          }
        else Some (T, [])
      else None)"
  by pat_completeness auto
termination
  by (relation "measure (\<lambda>T. length (tm_near T ! unat (tm_time T AND TIME_NEAR_MASK)))")
    (auto simp: link_clear_def)

declare timer_execute.simps [simp del]

definition timer_update :: "timer \<Rightarrow> (timer \<times> (u32 \<times> skynet_message) list) option" where
  "timer_update T = do {
     (T, out0) \<leftarrow> timer_execute T;
     T \<leftarrow> timer_shift T;
     (T, out1) \<leftarrow> timer_execute T;
     Some (T, out0 @ out1)
   }"

definition timer_create_timer :: timer where
  "timer_create_timer =
     \<lparr>tm_near = replicate TIME_NEAR [], tm_t = replicate 4 (replicate TIME_LEVEL []),
      tm_time = 0, tm_starttime = 0, tm_current = 0, tm_current_point = 0\<rparr>"

text \<open>The clock readings \<open>struct timespec\<close> are arguments: seconds and nanoseconds.\<close>

definition systime :: "int \<times> int \<Rightarrow> u32 \<times> u32" where
  "systime ti = (word_of_int (fst ti), word_of_int (snd ti div 10000000))"

definition gettime :: "int \<times> int \<Rightarrow> u64" where
  "gettime ti = word_of_int (fst ti) * 100 + word_of_int (snd ti div 10000000)"

fun timer_updates :: "nat \<Rightarrow> timer \<Rightarrow> (timer \<times> (u32 \<times> skynet_message) list) option" where
  "timer_updates 0 T = Some (T, [])"
| "timer_updates (Suc n) T = do {
     (T, out) \<leftarrow> timer_update T;
     (T, outs) \<leftarrow> timer_updates n T;
     Some (T, out @ outs)
   }"

definition skynet_updatetime :: "int \<times> int \<Rightarrow> timer \<Rightarrow> (timer \<times> (u32 \<times> skynet_message) list) option" where
  "skynet_updatetime ti T =
     (let cp = gettime ti in
      if cp < tm_current_point T then Some (T\<lparr>tm_current_point := cp\<rparr>, [])
      else if cp \<noteq> tm_current_point T then
        let diff = ucast (cp - tm_current_point T) :: u32
        in timer_updates (unat diff)
             (T\<lparr>tm_current_point := cp, tm_current := tm_current T + ucast diff\<rparr>)
      else Some (T, []))"

definition skynet_starttime :: "timer \<Rightarrow> u32" where
  "skynet_starttime T = tm_starttime T"

definition skynet_now :: "timer \<Rightarrow> u64" where
  "skynet_now T = tm_current T"

definition skynet_timer_init :: "int \<times> int \<Rightarrow> int \<times> int \<Rightarrow> timer" where
  "skynet_timer_init realtime monotonic =
     (let (sec, current) = systime realtime
      in timer_create_timer\<lparr>tm_starttime := sec, tm_current := ucast current,
           tm_current_point := gettime monotonic\<rparr>)"

section \<open>Where a node belongs\<close>

text \<open>
  The wheel stores a node by comparing the high bits of its expiry with those of the clock.
  In natural numbers, with \<open>C\<close> the clock and \<open>E\<close> the expiry as an unwrapped time:
\<close>

datatype wheel_slot = Near nat | Level nat nat

definition span :: "nat \<Rightarrow> nat" where
  "span i = 2 ^ (8 + 6 * i)"

definition tm_level :: "nat \<Rightarrow> nat \<Rightarrow> nat" where
  "tm_level C E =
     (if E div span 1 = C div span 1 then 0 else if E div span 2 = C div span 2 then 1
      else if E div span 3 = C div span 3 then 2 else 3)"

definition place :: "nat \<Rightarrow> nat \<Rightarrow> wheel_slot" where
  "place C E =
     (if E div span 0 = C div span 0 then Near (E mod span 0)
      else Level (tm_level C E) (E div span (tm_level C E) mod 2 ^ 6))"

definition shift_slot :: "nat \<Rightarrow> (nat \<times> nat) option" where
  "shift_slot C =
     (if \<not> span 0 dvd C then None else
      let i = (if \<not> span 1 dvd C then 0 else if \<not> span 2 dvd C then 1 else if \<not> span 3 dvd C then 2 else 3)
      in Some (i, C div span i mod 2 ^ 6))"

lemma span_pos [simp]: "0 < span i" "span i \<noteq> 0"
  by (simp_all add: span_def)

lemma span_Suc: "span (Suc i) = span i * 2 ^ 6"
  by (simp add: span_def power_add)

lemma span_dvd: "i \<le> j \<Longrightarrow> span i dvd span j"
  unfolding span_def by (rule le_imp_power_dvd) simp

lemma div_Suc_eq:
  assumes "0 < m"
  shows "Suc C div m = (if m dvd Suc C then Suc (C div m) else C div m)"
  using assms by (simp add: div_Suc dvd_eq_mod_eq_0)

lemma div_eq_mono:
  assumes "a dvd b" "0 < a" "x div a = y div (a :: nat)"
  shows "x div b = y div b"
proof -
  obtain c where "b = a * c" using assms(1) by blast
  then show ?thesis using assms(3) by (simp add: div_mult2_eq)
qed

lemma span_eq_mono: "i \<le> j \<Longrightarrow> x div span i = y div span i \<Longrightarrow> x div span j = y div span j"
  using div_eq_mono[of "span i" "span j"] span_dvd span_pos by blast

lemma div_between:
  assumes "C \<le> D" "D \<le> E" "C div m = E div (m :: nat)"
  shows "D div m = E div m"
  using div_le_mono[OF assms(1), of m] div_le_mono[OF assms(2), of m] assms(3) by simp

lemma tm_level_cases:
  assumes "E div span 0 \<noteq> C div span 0"
  shows "tm_level C E \<le> 3" "E div span (tm_level C E) \<noteq> C div span (tm_level C E)"
    "tm_level C E < 3 \<Longrightarrow> E div span (Suc (tm_level C E)) = C div span (Suc (tm_level C E))"
  using assms by (auto simp: tm_level_def numeral_2_eq_2 numeral_3_eq_3 split: if_splits)

lemma place_Level:
  assumes "i \<le> 3" "E div span i \<noteq> C div span i" "i < 3 \<longrightarrow> E div span (Suc i) = C div span (Suc i)"
  shows "place C E = Level i (E div span i mod 2 ^ 6)"
proof -
  have ne: "E div span j \<noteq> C div span j" if "j \<le> i" for j
    using span_eq_mono[OF that] assms(2) by blast
  have "i = 0 \<or> i = 1 \<or> i = 2 \<or> i = 3" using assms(1) by auto
  then have "tm_level C E = i" using ne[of 1] ne[of 2] ne[of 3] assms(3)
    by (elim disjE) (simp_all add: tm_level_def numeral_2_eq_2 numeral_3_eq_3)
  then show ?thesis using ne[of 0] by (simp add: place_def)
qed

text \<open>
  One tick of the clock changes the place of a waiting node only when the node is in the
  slot that \<open>timer_shift\<close> redistributes.
\<close>

lemma place_tick:
  assumes "C < E"
  shows "place (Suc C) E = place C E \<or>
    (\<exists>i j. shift_slot (Suc C) = Some (i, j) \<and> place C E = Level i j)"
proof (cases "E div span 0 = C div span 0")
  case True
  then have "E div span 0 = Suc C div span 0" using div_between[of C "Suc C" E "span 0"] assms by simp
  then show ?thesis using True by (simp add: place_def)
next
  case False
  define i where "i = tm_level C E"
  note lv = tm_level_cases[OF False, folded i_def]
  have pl: "place C E = Level i (E div span i mod 2 ^ 6)" using False by (simp add: place_def i_def)
  have up: "E div span (Suc i) = Suc C div span (Suc i)" if "i < 3"
    using div_between[of C "Suc C" E "span (Suc i)"] assms lv(3)[OF that] by simp
  show ?thesis
  proof (cases "E div span i = Suc C div span i")
    case ne: False
    then show ?thesis using place_Level[of i E "Suc C"] lv(1) up pl by simp
  next
    case True
    then have dvdi: "span i dvd Suc C" using lv(2) div_Suc_eq[of "span i" C] by (auto split: if_splits)
    have low: "span j dvd Suc C" if "j \<le> i" for j using span_dvd[OF that] dvdi dvd_trans by blast
    have high: "\<not> span (Suc i) dvd Suc C" if "i < 3"
      using up[OF that] lv(3)[OF that] div_Suc_eq[of "span (Suc i)" C] by (auto split: if_splits)
    have "i = 0 \<or> i = 1 \<or> i = 2 \<or> i = 3" using lv(1) by auto
    then have "shift_slot (Suc C) = Some (i, Suc C div span i mod 2 ^ 6)"
      using low[of 0] low[of 1] low[of 2] low[of 3] high
      by (elim disjE) (simp_all add: shift_slot_def numeral_2_eq_2 numeral_3_eq_3 del: power_Suc)
    then show ?thesis using pl True by simp
  qed
qed

lemma span_le: "i \<le> 3 \<Longrightarrow> span i \<le> 2 ^ 26"
  unfolding span_def by (rule power_increasing) auto

lemma pow32_span: "i \<le> 3 \<Longrightarrow> 2 ^ 32 = 2 ^ (24 - 6 * i) * span i"
  by (simp add: span_def flip: power_add)

lemma add_pow32_div:
  assumes "i \<le> 3"
  shows "(x + 2 ^ 32) div span i = x div span i + 2 ^ (24 - 6 * i)"
proof -
  have "(x + 2 ^ (24 - 6 * i) * span i) div span i = x div span i + 2 ^ (24 - 6 * i)"
    by (subst div_mult_self1) simp_all
  then show ?thesis by (simp only: pow32_span[OF assms])
qed

lemma place_wrap: "place (C + 2 ^ 32) (E + 2 ^ 32) = place C E"
proof -
  have eq: "(E + 2 ^ 32) div span i = (C + 2 ^ 32) div span i \<longleftrightarrow> E div span i = C div span i"
    if "i \<le> 3" for i using add_pow32_div[OF that] by simp
  then have lv: "tm_level (C + 2 ^ 32) (E + 2 ^ 32) = tm_level C E"
    unfolding tm_level_def using eq[of 1] eq[of 2] eq[of 3] by simp
  have le: "tm_level C E \<le> 3" by (simp add: tm_level_def)
  have "(E + 2 ^ 32) div span (tm_level C E) mod 2 ^ 6 = E div span (tm_level C E) mod 2 ^ 6"
  proof -
    have "(2 :: nat) ^ (24 - 6 * tm_level C E) = 2 ^ 6 * 2 ^ (18 - 6 * tm_level C E)"
      using le unfolding power_add[symmetric] by simp
    then show ?thesis unfolding add_pow32_div[OF le] by (metis mod_mult_self2)
  qed
  moreover have "(E + 2 ^ 32) mod span 0 = E mod span 0" by (simp add: span_def mod_add_eq[symmetric, of E])
  ultimately show ?thesis unfolding place_def lv using eq[of 0] by simp
qed

section \<open>The code's slot is the place\<close>

definition due :: "u32 \<Rightarrow> timer_node \<Rightarrow> nat" where
  "due c n = unat (tn_expire n - c)"

definition node_place :: "u32 \<Rightarrow> timer_node \<Rightarrow> wheel_slot" where
  "node_place c n = place (unat c) (unat c + due c n)"

definition MAX_DELAY :: nat where
  "MAX_DELAY = 2 ^ 31"

lemma expire_due: "unat (tn_expire n) = (unat c + due c n) mod 2 ^ 32"
proof -
  define x where "x = tn_expire n - c"
  then have "tn_expire n = c + x" by simp
  then show ?thesis by (simp add: due_def unat_word_ariths)
qed

lemma expire_high:
  assumes "due c n < MAX_DELAY" "i \<le> 3"
  shows "unat (tn_expire n) div span i = unat c div span i \<longleftrightarrow>
         (unat c + due c n) div span i = unat c div span i"
proof (cases "unat c + due c n < 2 ^ 32")
  case True
  then show ?thesis using expire_due[of n c] by simp
next
  case False
  have c: "unat c < 2 ^ 32" using unsigned_less[of c] by simp
  then have e: "unat (tn_expire n) + 2 ^ 32 = unat c + due c n"
    using expire_due[of n c] False assms(1) by (simp add: MAX_DELAY_def le_mod_geq)
  have gap: "x div span i < y div span i" if "x + 2 ^ 26 \<le> y" for x y
  proof -
    have "x div span i < (x + span i) div span i" by (simp add: div_add_self2)
    also have "\<dots> \<le> y div span i" using that span_le[OF assms(2)] by (intro div_le_mono) simp
    finally show ?thesis .
  qed
  have "unat (tn_expire n) div span i < unat c div span i"
    using e assms(1) False c by (intro gap) (simp add: MAX_DELAY_def)
  moreover have "unat c div span i < (unat c + due c n) div span i"
  proof -
    have "unat c div span i < 2 ^ (24 - 6 * i)"
      using c pow32_span[OF assms(2)] by (intro less_mult_imp_div_less) metis
    also have "\<dots> = 2 ^ 32 div span i" using add_pow32_div[OF assms(2), of 0] by simp
    also have "\<dots> \<le> (unat c + due c n) div span i" using False by (intro div_le_mono) simp
    finally show ?thesis .
  qed
  ultimately show ?thesis by simp
qed

definition tm_shape :: "timer \<Rightarrow> bool" where
  "tm_shape T \<longleftrightarrow> length (tm_near T) = 2 ^ 8 \<and> length (tm_t T) = 4 \<and> (\<forall>v\<in>set (tm_t T). length v = 2 ^ 6)"

definition slot_ok :: "wheel_slot \<Rightarrow> bool" where
  "slot_ok x = (case x of Near i \<Rightarrow> i < 2 ^ 8 | Level i j \<Rightarrow> i < 4 \<and> j < 2 ^ 6)"

definition slot_list :: "timer \<Rightarrow> wheel_slot \<Rightarrow> timer_node list" where
  "slot_list T x = (case x of Near i \<Rightarrow> tm_near T ! i | Level i j \<Rightarrow> tm_t T ! i ! j)"

definition slot_update :: "timer \<Rightarrow> wheel_slot \<Rightarrow> timer_node list \<Rightarrow> timer" where
  "slot_update T x l = (case x of
     Near i \<Rightarrow> T\<lparr>tm_near := (tm_near T)[i := l]\<rparr>
   | Level i j \<Rightarrow> T\<lparr>tm_t := (tm_t T)[i := (tm_t T ! i)[j := l]]\<rparr>)"

lemma place_ok: "slot_ok (place C E)"
proof -
  have "E mod span 0 < 2 ^ 8" "tm_level C E < 4" by (simp_all add: span_def tm_level_def)
  then show ?thesis by (simp add: place_def slot_ok_def)
qed

lemma slot_update_shape: "tm_shape T \<Longrightarrow> slot_ok x \<Longrightarrow> tm_shape (slot_update T x l)"
proof (cases x)
  case (Level i j)
  assume "tm_shape T" "slot_ok x"
  then have "length v = 2 ^ 6" if "v \<in> set ((tm_t T)[i := (tm_t T ! i)[j := l]])" for v
    using that set_update_subset_insert[of "tm_t T" i "(tm_t T ! i)[j := l]"] Level
    by (auto simp: tm_shape_def slot_ok_def)
  then show ?thesis using \<open>tm_shape T\<close> Level by (simp add: tm_shape_def slot_update_def)
qed (simp add: tm_shape_def slot_update_def)

lemma slot_update_time [simp]: "tm_time (slot_update T x l) = tm_time T"
  by (simp add: slot_update_def split: wheel_slot.splits)

lemma slot_list_update:
  "tm_shape T \<Longrightarrow> slot_ok x \<Longrightarrow> slot_list (slot_update T x l) y = (if x = y then l else slot_list T y)"
  by (auto simp: tm_shape_def slot_ok_def slot_update_def slot_list_def nth_list_update
      split: wheel_slot.splits)

lemma near_link_slot:
  "tm_shape T \<Longrightarrow> i < 2 ^ 8 \<Longrightarrow> near_link T i n = Some (slot_update T (Near i) (slot_list T (Near i) @ [n]))"
  by (simp add: near_link_def tm_shape_def arr_simps slot_update_def slot_list_def link_def)

lemma level_link_slot:
  "tm_shape T \<Longrightarrow> i < 4 \<Longrightarrow> j < 2 ^ 6 \<Longrightarrow>
   level_link T i j n = Some (slot_update T (Level i j) (slot_list T (Level i j) @ [n]))"
  by (simp add: level_link_def tm_shape_def arr_simps slot_update_def slot_list_def link_def)

lemma near_mask: "TIME_NEAR_MASK = mask 8"
  by (simp add: TIME_NEAR_MASK_def TIME_NEAR_def TIME_NEAR_SHIFT_def mask_eq_exp_minus_1)

lemma level_mask: "TIME_LEVEL_MASK = mask 6"
  by (simp add: TIME_LEVEL_MASK_def TIME_LEVEL_def TIME_LEVEL_SHIFT_def mask_eq_exp_minus_1)

lemma add_node_level_unroll:
  "add_node_level time c (push_bit TIME_LEVEL_SHIFT (of_nat TIME_NEAR)) 0 3 =
   (if unat time div span 1 = unat c div span 1 then 0 else if unat time div span 2 = unat c div span 2 then 1
    else if unat time div span 3 = unat c div span 3 then 2 else 3)"
proof -
  have m: "(0x3FFF :: u32) = mask 14" "(0xFFFFF :: u32) = mask 20" "(0x3FFFFFF :: u32) = mask 26"
    by (simp_all add: mask_eq_exp_minus_1)
  have sp: "span 1 = 2 ^ 14" "span 2 = 2 ^ 20" "span 3 = 2 ^ 26" by (simp_all add: span_def)
  show ?thesis unfolding sp
    by (simp add: TIME_LEVEL_SHIFT_def TIME_NEAR_def TIME_NEAR_SHIFT_def numeral_3_eq_3 push_bit_eq_mult
        m or_mask_eq del: power_Suc)
qed

lemma add_node_place:
  assumes "tm_shape T" "due (tm_time T) n < MAX_DELAY"
  shows "add_node T n = Some (slot_update T (node_place (tm_time T) n)
           (slot_list T (node_place (tm_time T) n) @ [n]))"
proof -
  let ?c = "tm_time T" let ?E = "unat ?c + due ?c n" let ?i = "tm_level (unat ?c) ?E"
  note hi = expire_high[OF assms(2)]
  have lv: "add_node_level (tn_expire n) ?c (push_bit TIME_LEVEL_SHIFT (of_nat TIME_NEAR)) 0 3 = ?i"
    unfolding add_node_level_unroll tm_level_def using hi[of 1] hi[of 2] hi[of 3] by simp
  have near: "(tn_expire n OR TIME_NEAR_MASK) = (?c OR TIME_NEAR_MASK) \<longleftrightarrow> ?E div span 0 = unat ?c div span 0"
    using hi[of 0] by (simp add: near_mask or_mask_eq span_def)
  have i3: "?i \<le> 3" by (simp add: tm_level_def)
  have nidx: "unat (tn_expire n AND TIME_NEAR_MASK) = ?E mod span 0"
    by (simp add: near_mask unat_and_mask expire_due[of n ?c] span_def pow2_mod_mod del: power_numeral)
  have lidx: "unat (drop_bit (TIME_NEAR_SHIFT + ?i * TIME_LEVEL_SHIFT) (tn_expire n) AND TIME_LEVEL_MASK) =
      ?E div span ?i mod 2 ^ 6"
  proof -
    have "(?E mod 2 ^ 32) div 2 ^ (8 + 6 * ?i) mod 2 ^ 6 = ?E div 2 ^ (8 + 6 * ?i) mod 2 ^ 6"
      using i3 by (intro div_mod_pow2) simp
    then show ?thesis
      by (simp add: level_mask mask_simps expire_due[of n ?c] span_def TIME_NEAR_SHIFT_def
          TIME_LEVEL_SHIFT_def mult.commute del: power_numeral)
  qed
  show ?thesis
  proof (cases "?E div span 0 = unat ?c div span 0")
    case True
    then have "node_place ?c n = Near (?E mod span 0)" by (simp add: node_place_def place_def)
    then show ?thesis using True near near_link_slot[OF assms(1), of "?E mod span 0" n]
      by (simp add: add_node_def Let_def nidx span_def)
  next
    case False
    then have "node_place ?c n = Level ?i (?E div span ?i mod 2 ^ 6)" by (simp add: node_place_def place_def)
    then show ?thesis using False near i3 level_link_slot[OF assms(1), of ?i "?E div span ?i mod 2 ^ 6" n]
      by (simp add: add_node_def Let_def lv lidx del: power_numeral)
  qed
qed

section \<open>The invariant of the wheel\<close>

definition all_nodes :: "timer \<Rightarrow> timer_node multiset" where
  "all_nodes T = mset (concat (tm_near T)) + mset (concat (map concat (tm_t T)))"

definition tm_inv :: "timer \<Rightarrow> bool" where
  "tm_inv T \<longleftrightarrow> tm_shape T \<and>
     (\<forall>x n. slot_ok x \<longrightarrow> n \<in> set (slot_list T x) \<longrightarrow>
        x = node_place (tm_time T) n \<and> due (tm_time T) n < MAX_DELAY)"

definition tm_pending :: "timer \<Rightarrow> (nat \<times> timer_event) multiset" where
  "tm_pending T = image_mset (\<lambda>n. (due (tm_time T) n, tn_event n)) (all_nodes T)"

definition tm_clock :: "timer \<Rightarrow> u32 \<times> u64 \<times> u64" where
  "tm_clock T = (tm_starttime T, tm_current T, tm_current_point T)"

lemma tm_inv_shape: "tm_inv T \<Longrightarrow> tm_shape T"
  by (simp add: tm_inv_def)

lemma mset_concat_update:
  "i < length xs \<Longrightarrow> mset (concat (xs[i := y])) + mset (xs ! i) = mset (concat xs) + mset y"
  by (induction xs arbitrary: i) (auto simp: nth_Cons' split: nat.splits)

lemma mset_cancel_common: "A + V = C + W \<Longrightarrow> W + s = V + l \<Longrightarrow> A + s = C + (l :: 'a multiset)"
proof (rule multiset_eqI)
  fix x assume "A + V = C + W" "W + s = V + l"
  then have "count (A + V) x = count (C + W) x" "count (W + s) x = count (V + l) x" by simp_all
  then show "count (A + s) x = count (C + l) x" by simp
qed

lemma set_concat_nth: "n \<in> set (concat xs) \<longleftrightarrow> (\<exists>i<length xs. n \<in> set (xs ! i))"
  by (auto simp: in_set_conv_nth[of _ xs] intro: bexI[OF _ nth_mem])

lemma all_nodes_update:
  assumes "tm_shape T" "slot_ok x"
  shows "all_nodes (slot_update T x l) + mset (slot_list T x) = all_nodes T + mset l"
proof (cases x)
  case (Near i)
  then show ?thesis using assms mset_concat_update[of i "tm_near T" l]
    by (simp add: all_nodes_def slot_update_def slot_list_def tm_shape_def slot_ok_def ac_simps)
next
  case (Level i j)
  let ?v = "(tm_t T ! i)[j := l]" let ?ts = "map concat (tm_t T)"
  have i: "i < length (tm_t T)" "j < length (tm_t T ! i)"
    using assms Level by (auto simp: tm_shape_def slot_ok_def)
  have "mset (concat (?ts[i := concat ?v])) + mset (concat (tm_t T ! i)) = mset (concat ?ts) + mset (concat ?v)"
    using mset_concat_update[of i ?ts "concat ?v"] i by simp
  moreover have "mset (concat ?v) + mset (tm_t T ! i ! j) = mset (concat (tm_t T ! i)) + mset l"
    using mset_concat_update[of j "tm_t T ! i" l] i by simp
  ultimately have "mset (concat (?ts[i := concat ?v])) + mset (tm_t T ! i ! j) = mset (concat ?ts) + mset l"
    by (rule mset_cancel_common)
  then show ?thesis using Level
    by (simp add: all_nodes_def slot_update_def slot_list_def map_update ac_simps)
qed

lemma all_nodes_iff:
  assumes "tm_shape T"
  shows "n \<in># all_nodes T \<longleftrightarrow> (\<exists>x. slot_ok x \<and> n \<in> set (slot_list T x))"
proof -
  have "n \<in># all_nodes T \<longleftrightarrow> (\<exists>i<2 ^ 8. n \<in> set (tm_near T ! i)) \<or>
      (\<exists>i<4. \<exists>j<2 ^ 6. n \<in> set (tm_t T ! i ! j))"
  proof -
    have "n \<in> set (concat (map concat (tm_t T))) \<longleftrightarrow> (\<exists>i<4. n \<in> set (concat (tm_t T ! i)))"
      using assms unfolding set_concat_nth[of n "map concat (tm_t T)"]
      by (auto simp: tm_shape_def simp del: set_concat)
    also have "\<dots> \<longleftrightarrow> (\<exists>i<4. \<exists>j<2 ^ 6. n \<in> set (tm_t T ! i ! j))"
      using assms unfolding set_concat_nth tm_shape_def by (metis nth_mem)
    finally show ?thesis
      using assms set_concat_nth[of n "tm_near T"] by (simp add: all_nodes_def tm_shape_def)
  qed
  also have "\<dots> \<longleftrightarrow> (\<exists>i. slot_ok (Near i) \<and> n \<in> set (slot_list T (Near i))) \<or>
      (\<exists>i j. slot_ok (Level i j) \<and> n \<in> set (slot_list T (Level i j)))"
    by (auto simp: slot_ok_def slot_list_def)
  also have "\<dots> \<longleftrightarrow> (\<exists>x. slot_ok x \<and> n \<in> set (slot_list T x))"
    by (metis wheel_slot.exhaust)
  finally show ?thesis .
qed

lemma add_node_inv:
  assumes "tm_inv T" "due (tm_time T) n < MAX_DELAY"
  shows "\<exists>T'. add_node T n = Some T' \<and> tm_inv T' \<and> all_nodes T' = add_mset n (all_nodes T) \<and>
     tm_time T' = tm_time T \<and> tm_clock T' = tm_clock T"
proof -
  let ?x = "node_place (tm_time T) n" let ?T = "slot_update T ?x (slot_list T ?x @ [n])"
  have sh: "tm_shape T" and ok: "slot_ok ?x"
    using assms(1) place_ok by (simp_all add: tm_inv_def node_place_def)
  have "tm_inv ?T"
    using assms slot_update_shape[OF sh ok] slot_list_update[OF sh ok]
    by (auto simp: tm_inv_def split: if_splits)
  moreover have "all_nodes ?T = add_mset n (all_nodes T)"
    using all_nodes_update[OF sh ok, of "slot_list T ?x @ [n]"] by simp
  moreover have "tm_clock ?T = tm_clock T"
    by (simp add: tm_clock_def slot_update_def split: wheel_slot.splits)
  ultimately show ?thesis using add_node_place[OF sh assms(2)] by simp
qed

lemma add_nodes_inv:
  assumes "tm_inv T" "\<forall>n\<in>set ns. due (tm_time T) n < MAX_DELAY"
  shows "\<exists>T'. add_nodes T ns = Some T' \<and> tm_inv T' \<and> all_nodes T' = all_nodes T + mset ns \<and>
     tm_time T' = tm_time T \<and> tm_clock T' = tm_clock T"
  using assms
proof (induction ns arbitrary: T)
  case (Cons n ns)
  obtain T1 where T1: "add_node T n = Some T1" "tm_inv T1" "all_nodes T1 = add_mset n (all_nodes T)"
    "tm_time T1 = tm_time T" "tm_clock T1 = tm_clock T"
    using add_node_inv[OF Cons.prems(1), of n] Cons.prems(2) by auto
  then show ?case using Cons.IH[OF T1(2)] Cons.prems(2) by auto
qed simp

lemma timer_add_inv:
  assumes "tm_inv T" "0 < d" "d < MAX_DELAY"
  shows "\<exists>T'. timer_add T ev (int d) = Some T' \<and> tm_inv T' \<and>
     tm_pending T' = add_mset (d, ev) (tm_pending T) \<and> tm_time T' = tm_time T \<and> tm_clock T' = tm_clock T"
proof -
  let ?n = "\<lparr>tn_expire = word_of_int (int d) + tm_time T, tn_event = ev\<rparr>"
  have "due (tm_time T) ?n = d"
    using assms(3) by (simp add: due_def MAX_DELAY_def unat_of_nat)
  then show ?thesis
    using add_node_inv[OF assms(1), of ?n] assms(3) by (auto simp: timer_add_def tm_pending_def)
qed

section \<open>Dispatching and shifting\<close>

lemma near_slot_due:
  assumes "due c n < MAX_DELAY"
  shows "node_place c n = Near (unat c mod span 0) \<longleftrightarrow> due c n = 0"
proof
  assume "node_place c n = Near (unat c mod span 0)"
  then have "(unat c + due c n) div span 0 = unat c div span 0"
    "(unat c + due c n) mod span 0 = unat c mod span 0"
    by (auto simp: node_place_def place_def split: if_splits)
  then have "unat c + due c n = unat c" by (metis div_mult_mod_eq)
  then show "due c n = 0" by simp
qed (simp add: node_place_def place_def)

lemma dispatch_list_map: "dispatch_list ns = map (\<lambda>n. event_push (tn_event n)) ns"
  by (induction ns) auto

lemma timer_execute_eq:
  assumes "tm_shape T"
  defines "x \<equiv> Near (unat (tm_time T) mod span 0)"
  shows "timer_execute T = Some (slot_update T x [], dispatch_list (slot_list T x))"
proof -
  let ?i = "unat (tm_time T) mod span 0"
  have idx: "unat (tm_time T AND TIME_NEAR_MASK) = ?i"
    by (simp add: near_mask unat_and_mask span_def)
  have i: "?i < length (tm_near T)" using assms(1) by (simp add: tm_shape_def span_def)
  have empty: "timer_execute U = Some (U, [])"
    if "unat (tm_time U AND TIME_NEAR_MASK) = ?i" "?i < length (tm_near U)" "tm_near U ! ?i = []" for U
    using that by (subst timer_execute.simps) (simp add: Let_def)
  show ?thesis
  proof (cases "tm_near T ! ?i = []")
    case True
    then have "slot_update T x [] = T" by (simp add: slot_update_def x_def list_update_same_conv i)
    then show ?thesis using empty[OF idx i True] True by (simp add: x_def slot_list_def)
  next
    case False
    then show ?thesis
      using empty[of "T\<lparr>tm_near := (tm_near T)[?i := []]\<rparr>"] idx i
      by (subst timer_execute.simps) (simp add: link_clear_def slot_update_def slot_list_def x_def Let_def)
  qed
qed

lemma slot_clear_inv:
  assumes "tm_inv T" "slot_ok x"
  shows "tm_inv (slot_update T x [])"
  using assms slot_update_shape[of T x "[]"] slot_list_update[of T x "[]"]
  by (auto simp: tm_inv_def split: if_splits)

lemma slot_nodes:
  assumes "tm_inv T" "slot_ok x"
  shows "mset (slot_list T x) = filter_mset (\<lambda>n. node_place (tm_time T) n = x) (all_nodes T)"
    and "all_nodes (slot_update T x []) = filter_mset (\<lambda>n. node_place (tm_time T) n \<noteq> x) (all_nodes T)"
proof -
  let ?P = "\<lambda>n. node_place (tm_time T) n = x" let ?T = "slot_update T x []"
  have sh: "tm_shape T" "tm_shape ?T" "tm_inv ?T"
    using assms slot_clear_inv tm_inv_shape by blast+
  have eq: "all_nodes T = all_nodes ?T + mset (slot_list T x)"
    using all_nodes_update[OF sh(1) assms(2), of "[]"] by simp
  have "?P n" if "n \<in># mset (slot_list T x)" for n
    using assms that unfolding tm_inv_def by fastforce
  then have 1: "filter_mset ?P (mset (slot_list T x)) = mset (slot_list T x)"
      "filter_mset (\<lambda>n. \<not> ?P n) (mset (slot_list T x)) = {#}"
    by (auto simp: filter_mset_eq_conv)
  have "\<not> ?P n" if n: "n \<in># all_nodes ?T" for n
  proof -
    obtain y where y: "slot_ok y" "n \<in> set (slot_list ?T y)" using n all_nodes_iff[OF sh(2)] by blast
    then have "y \<noteq> x" using slot_list_update[OF sh(1) assms(2), of "[]" y] by auto
    moreover have "y = node_place (tm_time T) n" using sh(3) y unfolding tm_inv_def by auto
    ultimately show ?thesis by simp
  qed
  then have 2: "filter_mset ?P (all_nodes ?T) = {#}" "filter_mset (\<lambda>n. \<not> ?P n) (all_nodes ?T) = all_nodes ?T"
    by (auto simp: filter_mset_eq_conv)
  show "mset (slot_list T x) = filter_mset ?P (all_nodes T)"
    and "all_nodes ?T = filter_mset (\<lambda>n. \<not> ?P n) (all_nodes T)"
    using eq 1 2 by simp_all
qed

lemma tm_inv_due: "tm_inv T \<Longrightarrow> n \<in># all_nodes T \<Longrightarrow> due (tm_time T) n < MAX_DELAY"
  using all_nodes_iff[OF tm_inv_shape, of T n] unfolding tm_inv_def by blast

lemma timer_execute_inv:
  assumes "tm_inv T"
  shows "\<exists>T' ns. timer_execute T = Some (T', dispatch_list ns) \<and> tm_inv T' \<and>
    mset ns = filter_mset (\<lambda>n. due (tm_time T) n = 0) (all_nodes T) \<and>
    all_nodes T' = filter_mset (\<lambda>n. due (tm_time T) n \<noteq> 0) (all_nodes T) \<and>
    tm_time T' = tm_time T \<and> tm_clock T' = tm_clock T"
proof -
  let ?x = "Near (unat (tm_time T) mod span 0)"
  have ok: "slot_ok ?x" by (simp add: slot_ok_def span_def)
  have "node_place (tm_time T) n = ?x \<longleftrightarrow> due (tm_time T) n = 0" if "n \<in># all_nodes T" for n
    using near_slot_due[OF tm_inv_due[OF assms that]] .
  then have "filter_mset (\<lambda>n. node_place (tm_time T) n = ?x) (all_nodes T) =
      filter_mset (\<lambda>n. due (tm_time T) n = 0) (all_nodes T)"
    "filter_mset (\<lambda>n. node_place (tm_time T) n \<noteq> ?x) (all_nodes T) =
      filter_mset (\<lambda>n. due (tm_time T) n \<noteq> 0) (all_nodes T)"
    by (auto intro: filter_mset_cong)
  moreover have "tm_clock (slot_update T ?x []) = tm_clock T" by (simp add: tm_clock_def slot_update_def)
  ultimately show ?thesis
    using timer_execute_eq[OF tm_inv_shape[OF assms]] slot_clear_inv[OF assms ok] slot_nodes[OF assms ok]
    by (intro exI[of _ "slot_update T ?x []"] exI[of _ "slot_list T ?x"]) simp
qed

lemma of_nat_span_minus_1: "(of_nat (span i) - 1 :: u32) = mask (8 + 6 * i)"
  by (simp add: span_def mask_eq_exp_minus_1)

lemma span_mask_0: "ct AND mask (8 + 6 * i) = 0 \<longleftrightarrow> span i dvd unat (ct :: u32)"
proof -
  have "ct AND mask (8 + 6 * i) = 0 \<longleftrightarrow> unat (ct AND mask (8 + 6 * i)) = 0" by (simp add: unat_eq_0)
  then show ?thesis by (simp add: unat_and_mask span_def dvd_eq_mod_eq_0)
qed

lemma span_Suc_dvd:
  assumes "span i dvd C"
  shows "span (Suc i) dvd C \<longleftrightarrow> C div span i mod 2 ^ 6 = 0"
proof -
  obtain q where q: "C = span i * q" using assms by blast
  then show ?thesis by (simp add: span_Suc flip: dvd_eq_mod_eq_0)
qed

lemma shift_loop_step:
  "timer_shift_loop T ct (of_nat (span i)) (drop_bit (8 + 6 * i) ct) i =
   (if span i dvd unat ct then
      if \<not> span (Suc i) dvd unat ct then move_list T i (unat ct div span i mod 2 ^ 6)
      else timer_shift_loop T ct (of_nat (span (Suc i))) (drop_bit (8 + 6 * Suc i) ct) (Suc i)
    else Some T)"
proof -
  have idx: "unat (drop_bit (8 + 6 * i) ct AND TIME_LEVEL_MASK) = unat ct div span i mod 2 ^ 6"
    by (simp add: level_mask mask_simps span_def)
  have nxt: "push_bit 6 (of_nat (span i)) = (of_nat (span (Suc i)) :: u32)"
    by (simp add: push_bit_eq_mult span_Suc)
  show ?thesis
    by (subst timer_shift_loop.simps)
      (simp add: of_nat_span_minus_1 span_mask_0 idx nxt span_Suc_dvd Let_def TIME_LEVEL_SHIFT_def
        del: power_numeral)
qed

lemma span_4: "span 4 dvd unat (ct :: u32) \<longleftrightarrow> ct = 0"
proof -
  have "span 4 = 2 ^ 32" by (simp add: span_def)
  moreover have "unat ct < 2 ^ 32" using unsigned_less[of ct] by simp
  ultimately have "span 4 dvd unat ct \<longleftrightarrow> unat ct = 0" by (auto dest: dvd_imp_le)
  then show ?thesis by (simp add: unat_eq_0)
qed

lemma Suc_unat_wrap:
  assumes "(c :: u32) + 1 = 0"
  shows "Suc (unat c) = 2 ^ 32"
proof -
  have "unat (c + 1) = 0" using assms by simp
  then have "2 ^ 32 dvd Suc (unat c)" by (simp add: unat_word_ariths dvd_eq_mod_eq_0)
  moreover have "unat c < 2 ^ 32" using unsigned_less[of c] by simp
  ultimately show ?thesis by (metis Suc_leI dvd_imp_le le_antisym zero_less_Suc)
qed

lemma timer_shift_eq:
  "timer_shift T = (let T1 = T\<lparr>tm_time := tm_time T + 1\<rparr> in
     case shift_slot (Suc (unat (tm_time T))) of None \<Rightarrow> Some T1 | Some (i, j) \<Rightarrow> move_list T1 i j)"
proof -
  let ?ct = "tm_time T + 1" let ?T = "T\<lparr>tm_time := ?ct\<rparr>"
  show ?thesis
  proof (cases "?ct = 0")
    case True
    then have "Suc (unat (tm_time T)) = 2 ^ 32" by (rule Suc_unat_wrap)
    moreover have "shift_slot (2 ^ 32) = Some (3, 0)"
    proof -
      have "span i dvd 2 ^ 32" if "i \<le> 3" for i
        unfolding pow32_span[OF that] by simp
      then show ?thesis by (simp add: shift_slot_def) (simp add: span_def)
    qed
    ultimately show ?thesis using True by (simp add: timer_shift_def Let_def)
  next
    case False
    then have u: "unat ?ct = Suc (unat (tm_time T))" by (metis add.commute unatSuc)
    have init: "(of_nat TIME_NEAR :: u32) = of_nat (span 0)"
      "drop_bit TIME_NEAR_SHIFT ?ct = drop_bit (8 + 6 * 0) ?ct"
      by (simp_all add: TIME_NEAR_def TIME_NEAR_SHIFT_def span_def)
    have s4: "\<not> span (Suc 3) dvd unat ?ct" using False span_4[of ?ct] by simp
    have "timer_shift T = timer_shift_loop ?T ?ct (of_nat (span 0)) (drop_bit (8 + 6 * 0) ?ct) 0"
      using False unfolding timer_shift_def Let_def init by simp
    also have "\<dots> = (case shift_slot (unat ?ct) of None \<Rightarrow> Some ?T | Some (i, j) \<Rightarrow> move_list ?T i j)"
      unfolding shift_loop_step[of ?T ?ct 0] shift_loop_step[of ?T ?ct "Suc 0"]
        shift_loop_step[of ?T ?ct "Suc (Suc 0)"] shift_loop_step[of ?T ?ct "Suc (Suc (Suc 0))"]
      using s4 by (simp add: shift_slot_def Let_def numeral_2_eq_2 numeral_3_eq_3 del: power_Suc)
    finally show ?thesis by (simp add: u Let_def)
  qed
qed

lemma due_Suc:
  assumes "0 < due c n"
  shows "due (c + 1) n = due c n - 1"
proof -
  have "tn_expire n - (c + 1) = (tn_expire n - c) - 1" by simp
  moreover have "tn_expire n - c \<noteq> 0" using assms by (auto simp: due_def)
  ultimately show ?thesis unfolding due_def by (metis unat_minus_one)
qed

lemma node_place_Suc:
  assumes "0 < due c n"
  shows "node_place (c + 1) n = place (Suc (unat c)) (unat c + due c n)"
proof (cases "c + 1 = 0")
  case False
  then have "unat (c + 1) = Suc (unat c)" by (metis add.commute unatSuc)
  then show ?thesis using assms by (simp add: node_place_def due_Suc[OF assms])
next
  case True
  then have "Suc (unat c) = 2 ^ 32" by (rule Suc_unat_wrap)
  then show ?thesis using assms place_wrap[of 0 "due c n - 1"] True
      due_Suc[OF assms] by (simp add: node_place_def algebra_simps)
qed

lemma move_list_slot:
  assumes "tm_shape T" "slot_ok (Level i j)"
  shows "move_list T i j = add_nodes (slot_update T (Level i j) []) (slot_list T (Level i j))"
proof -
  have "i < length (tm_t T)" "j < length (tm_t T ! i)"
    using assms by (auto simp: tm_shape_def slot_ok_def)
  then show ?thesis
    by (simp add: move_list_def arr_simps link_clear_def slot_update_def slot_list_def)
qed

text \<open>
  After the first \<open>timer_execute\<close> of an update nothing is due; then the shift moves the
  clock and keeps every node.
\<close>

lemma timer_shift_inv:
  assumes inv: "tm_inv T" and wait: "\<forall>n\<in>#all_nodes T. 0 < due (tm_time T) n"
  shows "\<exists>T'. timer_shift T = Some T' \<and> tm_inv T' \<and> all_nodes T' = all_nodes T \<and>
    tm_time T' = tm_time T + 1 \<and> tm_clock T' = tm_clock T"
proof -
  let ?c = "tm_time T" let ?T = "T\<lparr>tm_time := ?c + 1\<rparr>"
  have sh: "tm_shape T" "tm_shape ?T" using inv by (auto simp: tm_inv_def tm_shape_def)
  have sl: "slot_list ?T x = slot_list T x" for x by (cases x) (simp_all add: slot_list_def)
  have al: "all_nodes ?T = all_nodes T" by (simp add: all_nodes_def)
  have keep: "(x = node_place (?c + 1) n \<or> (\<exists>i j. shift_slot (Suc (unat ?c)) = Some (i, j) \<and> x = Level i j)) \<and>
      due (?c + 1) n < MAX_DELAY"
    if x: "slot_ok x" "n \<in> set (slot_list T x)" for x n
  proof -
    have "x = node_place ?c n" "due ?c n < MAX_DELAY" using inv x unfolding tm_inv_def by blast+
    moreover have d: "0 < due ?c n" using wait x all_nodes_iff[OF sh(1)] by blast
    moreover have "place (Suc (unat ?c)) (unat ?c + due ?c n) = node_place ?c n \<or>
        (\<exists>i j. shift_slot (Suc (unat ?c)) = Some (i, j) \<and> node_place ?c n = Level i j)"
      using place_tick[of "unat ?c" "unat ?c + due ?c n"] d by (simp add: node_place_def)
    ultimately show ?thesis by (auto simp: node_place_Suc due_Suc)
  qed
  show ?thesis
  proof (cases "shift_slot (Suc (unat ?c))")
    case None
    then have "tm_inv ?T" using keep sh(2) by (auto simp: tm_inv_def sl)
    then show ?thesis using None al by (simp add: timer_shift_eq tm_clock_def)
  next
    case (Some p)
    obtain i j where p: "p = (i, j)" by (cases p)
    let ?x = "Level i j" let ?U = "slot_update ?T ?x []"
    have ok: "slot_ok ?x" using Some p
      by (auto simp: shift_slot_def slot_ok_def Let_def split: if_splits)
    have sh0: "tm_shape ?U" using slot_update_shape[OF sh(2) ok] .
    have sl0: "slot_list ?U y = (if ?x = y then [] else slot_list T y)" for y
      using slot_list_update[OF sh(2) ok, of "[]" y] by (simp add: sl)
    have "tm_inv ?U" using keep Some p sh0 sl0 by (auto simp: tm_inv_def split: if_splits)
    moreover have "\<forall>n\<in>set (slot_list T ?x). due (?c + 1) n < MAX_DELAY" using keep ok by blast
    ultimately obtain T' where T': "add_nodes ?U (slot_list T ?x) = Some T'" "tm_inv T'"
      "all_nodes T' = all_nodes ?U + mset (slot_list T ?x)" "tm_time T' = tm_time ?U" "tm_clock T' = tm_clock ?U"
      using add_nodes_inv[of ?U "slot_list T ?x"] by auto
    have "move_list ?T i j = add_nodes ?U (slot_list T ?x)"
      using move_list_slot[OF sh(2) ok] by (simp add: sl)
    moreover have "all_nodes T' = all_nodes T"
      using T'(3) all_nodes_update[OF sh(2) ok, of "[]"] by (simp add: al sl)
    moreover have "tm_clock ?U = tm_clock T" by (simp add: tm_clock_def slot_update_def)
    ultimately show ?thesis using T' Some p by (simp add: timer_shift_eq)
  qed
qed

section \<open>The wheel is a delay queue\<close>

lemma pending_now:
  "image_mset (\<lambda>n. tn_event n) (filter_mset (\<lambda>n. due c n \<le> 1) N) =
   due_now (image_mset (\<lambda>n. (due c n, tn_event n)) N)"
  by (simp add: due_now_def filter_mset_image_mset image_mset.compositionality comp_def)

lemma pending_later:
  "due_later (image_mset (\<lambda>n. (due c n, tn_event n)) N) =
   image_mset (\<lambda>n. (due (c + 1) n, tn_event n)) (filter_mset (\<lambda>n. 1 < due c n) N)"
  by (auto simp: due_later_def filter_mset_image_mset image_mset.compositionality comp_def due_Suc
      intro!: image_mset_cong)

lemma filter_due_split:
  "filter_mset (\<lambda>n. due c n = 0) N + filter_mset (\<lambda>n. due c n = 1) N = filter_mset (\<lambda>n. due c n \<le> 1) N"
  by (induction N) (auto simp: le_Suc_eq)

lemma timer_update_inv:
  assumes "tm_inv T"
  shows "\<exists>T' out. timer_update T = Some (T', out) \<and> tm_inv T' \<and>
    mset out = image_mset event_push (due_now (tm_pending T)) \<and> tm_pending T' = due_later (tm_pending T) \<and>
    tm_time T' = tm_time T + 1 \<and> tm_clock T' = tm_clock T"
proof -
  let ?c = "tm_time T" let ?N = "all_nodes T"
  obtain T1 ns1 where 1: "timer_execute T = Some (T1, dispatch_list ns1)" "tm_inv T1"
    "mset ns1 = filter_mset (\<lambda>n. due ?c n = 0) ?N" "all_nodes T1 = filter_mset (\<lambda>n. due ?c n \<noteq> 0) ?N"
    "tm_time T1 = ?c" "tm_clock T1 = tm_clock T"
    using timer_execute_inv[OF assms] by blast
  obtain T2 where 2: "timer_shift T1 = Some T2" "tm_inv T2" "all_nodes T2 = all_nodes T1"
    "tm_time T2 = ?c + 1" "tm_clock T2 = tm_clock T"
    using timer_shift_inv[OF 1(2)] 1(4,5,6) by auto
  obtain T3 ns2 where 3: "timer_execute T2 = Some (T3, dispatch_list ns2)" "tm_inv T3"
    "mset ns2 = filter_mset (\<lambda>n. due (?c + 1) n = 0) (all_nodes T2)"
    "all_nodes T3 = filter_mset (\<lambda>n. due (?c + 1) n \<noteq> 0) (all_nodes T2)"
    "tm_time T3 = ?c + 1" "tm_clock T3 = tm_clock T"
    using timer_execute_inv[OF 2(2)] 2(4,5) by auto
  have "due ?c n \<noteq> 0 \<and> due (?c + 1) n = 0 \<longleftrightarrow> due ?c n = 1" for n by (cases "0 < due ?c n") (auto simp: due_Suc)
  then have n2: "mset ns2 = filter_mset (\<lambda>n. due ?c n = 1) ?N"
    unfolding 3(3) 2(3) 1(4) filter_filter_mset by (metis (mono_tags, lifting))
  have "due ?c n \<noteq> 0 \<and> due (?c + 1) n \<noteq> 0 \<longleftrightarrow> 1 < due ?c n" for n by (cases "0 < due ?c n") (auto simp: due_Suc)
  then have n3: "all_nodes T3 = filter_mset (\<lambda>n. 1 < due ?c n) ?N"
    unfolding 3(4) 2(3) 1(4) filter_filter_mset by (metis (mono_tags, lifting))
  have "mset (ns1 @ ns2) = filter_mset (\<lambda>n. due ?c n \<le> 1) ?N"
    unfolding mset_append 1(3) n2 by (rule filter_due_split)
  then have "mset (dispatch_list ns1 @ dispatch_list ns2) = image_mset event_push (due_now (tm_pending T))"
    unfolding tm_pending_def pending_now[symmetric]
    by (simp add: dispatch_list_map image_mset.compositionality comp_def flip: image_mset_union)
  moreover have "tm_pending T3 = due_later (tm_pending T)"
    unfolding tm_pending_def pending_later n3 3(5) ..
  ultimately show ?thesis using 1(1) 2(1) 3 by (simp add: timer_update_def)
qed

interpretation wheel: delay_queue tm_inv tm_pending MAX_DELAY "\<lambda>T d e. timer_add T e (int d)" timer_update event_push
proof
  fix T d e
  show "\<exists>T'. timer_add T e (int d) = Some T' \<and> tm_inv T' \<and> tm_pending T' = add_mset (d, e) (tm_pending T)"
    if "tm_inv T" "0 < d" "d < MAX_DELAY"
    using timer_add_inv[OF that] by blast
  show "\<exists>T' out. timer_update T = Some (T', out) \<and> tm_inv T' \<and>
      mset out = image_mset event_push (due_now (tm_pending T)) \<and> tm_pending T' = due_later (tm_pending T)"
    if "tm_inv T"
    using timer_update_inv[OF that] by blast
qed

lemma timer_init_inv: "tm_inv (skynet_timer_init r m)" "tm_pending (skynet_timer_init r m) = {#}"
proof -
  have "slot_list (skynet_timer_init r m) x = []" if "slot_ok x" for x
    using that by (cases x) (auto simp: slot_list_def slot_ok_def skynet_timer_init_def systime_def
        timer_create_timer_def TIME_NEAR_def TIME_NEAR_SHIFT_def TIME_LEVEL_def TIME_LEVEL_SHIFT_def)
  moreover have sh: "tm_shape (skynet_timer_init r m)"
    by (auto simp: tm_shape_def skynet_timer_init_def systime_def timer_create_timer_def
        TIME_NEAR_def TIME_NEAR_SHIFT_def TIME_LEVEL_def TIME_LEVEL_SHIFT_def)
  ultimately show "tm_inv (skynet_timer_init r m)" by (simp add: tm_inv_def)
  have "\<forall>n. n \<notin># all_nodes (skynet_timer_init r m)"
    using all_nodes_iff[OF sh] \<open>\<And>x. slot_ok x \<Longrightarrow> slot_list (skynet_timer_init r m) x = []\<close> by auto
  then have "all_nodes (skynet_timer_init r m) = {#}" by (metis multiset_nonemptyE)
  then show "tm_pending (skynet_timer_init r m) = {#}" by (simp add: tm_pending_def)
qed

section \<open>Advancing the clock\<close>

definition no_zero :: "(nat \<times> 'e) multiset \<Rightarrow> bool" where
  "no_zero P \<longleftrightarrow> (\<forall>p\<in>#P. 0 < fst p)"

definition due_within :: "nat \<Rightarrow> (nat \<times> 'e) multiset \<Rightarrow> 'e multiset" where
  "due_within n P = image_mset snd (filter_mset (\<lambda>p. fst p \<le> n) P)"

definition due_after :: "nat \<Rightarrow> (nat \<times> 'e) multiset \<Rightarrow> (nat \<times> 'e) multiset" where
  "due_after n P = image_mset (\<lambda>p. (fst p - n, snd p)) (filter_mset (\<lambda>p. n < fst p) P)"

lemma due_after_0: "no_zero P \<Longrightarrow> due_after 0 P = P" "no_zero P \<Longrightarrow> due_within 0 P = {#}"
  by (induction P) (auto simp: no_zero_def due_after_def due_within_def)

lemma due_after_Suc: "due_after n (due_later P) = due_after (Suc n) P"
  "due_now P + due_within n (due_later P) = due_within (Suc n) P"
  by (induction P) (auto simp: due_after_def due_within_def due_later_def due_now_def)

lemma no_zero_later: "no_zero (due_later P)"
  by (auto simp: no_zero_def due_later_def)

lemma no_zero_after: "no_zero (due_after n P)"
  by (auto simp: no_zero_def due_after_def)

lemma timer_updates_inv:
  assumes "tm_inv T" "no_zero (tm_pending T)"
  shows "\<exists>T' out. timer_updates n T = Some (T', out) \<and> tm_inv T' \<and>
    mset out = image_mset event_push (due_within n (tm_pending T)) \<and>
    tm_pending T' = due_after n (tm_pending T) \<and>
    tm_time T' = tm_time T + of_nat n \<and> tm_clock T' = tm_clock T"
  using assms
proof (induction n arbitrary: T)
  case 0
  then show ?case by (simp add: due_after_0)
next
  case (Suc n)
  obtain T1 out1 where 1: "timer_update T = Some (T1, out1)" "tm_inv T1"
    "mset out1 = image_mset event_push (due_now (tm_pending T))" "tm_pending T1 = due_later (tm_pending T)"
    "tm_time T1 = tm_time T + 1" "tm_clock T1 = tm_clock T"
    using timer_update_inv[OF Suc.prems(1)] by blast
  obtain T2 out2 where 2: "timer_updates n T1 = Some (T2, out2)" "tm_inv T2"
    "mset out2 = image_mset event_push (due_within n (tm_pending T1))"
    "tm_pending T2 = due_after n (tm_pending T1)" "tm_time T2 = tm_time T1 + of_nat n" "tm_clock T2 = tm_clock T1"
    using Suc.IH[OF 1(2)] 1(4) no_zero_later by metis
  have "mset (out1 @ out2) = image_mset event_push (due_within (Suc n) (tm_pending T))"
    unfolding due_after_Suc(2)[symmetric] using 1(3,4) 2(3) by simp
  then show ?case using 1 2 by (auto simp: due_after_Suc(1))
qed


end
