(* ===== verification/C_Lib.thy ===== *)
theory C_Lib
  imports Prelude
begin

text \<open>
  The functions of the C library that \<^verbatim>\<open>skynet_server.c\<close> and its neighbours use to
  read and print numbers and to split strings: \<open>strtoul\<close>, \<open>strtol\<close>, the conversions
  \<open>%x\<close>, \<open>%u\<close> and \<open>%d\<close> of \<open>sprintf\<close>, \<open>strsep\<close> and \<open>strchr\<close>. A C string is the list of
  its characters before the terminating NUL.
\<close>

section \<open>Digits\<close>

definition digit_value :: "char \<Rightarrow> nat" where
  "digit_value c =
     (let n = of_char c in
      if 48 \<le> n \<and> n \<le> 57 then n - 48
      else if 97 \<le> n \<and> n \<le> 122 then n - 87
      else if 65 \<le> n \<and> n \<le> 90 then n - 55
      else 99)"

definition is_digit :: "nat \<Rightarrow> char \<Rightarrow> bool" where
  "is_digit base c \<longleftrightarrow> digit_value c < base"

definition lower_digit :: "nat \<Rightarrow> char" where
  "lower_digit n = char_of (if n < 10 then n + 48 else n + 87)"

definition upper_digit :: "nat \<Rightarrow> char" where
  "upper_digit n = char_of (if n < 10 then n + 48 else n + 55)"

lemma digit_value_lower: "n < 36 \<Longrightarrow> digit_value (lower_digit n) = n"
  by (auto simp: digit_value_def lower_digit_def)

lemma digit_value_upper: "n < 36 \<Longrightarrow> digit_value (upper_digit n) = n"
  by (auto simp: digit_value_def upper_digit_def)

definition digits_value :: "nat \<Rightarrow> string \<Rightarrow> nat" where
  "digits_value base cs = foldl (\<lambda>a c. a * base + digit_value c) 0 cs"

function print_base :: "nat \<Rightarrow> nat \<Rightarrow> string" where
  "print_base base n =
     (if n < base \<or> base < 2 then [lower_digit n]
      else print_base base (n div base) @ [lower_digit (n mod base)])"
  by pat_completeness auto
termination
  by (relation "measure snd") auto

declare print_base.simps [simp del]

section \<open>Reading numbers\<close>

definition is_space :: "char \<Rightarrow> bool" where
  "is_space c \<longleftrightarrow> (let n = of_char c :: nat in n = 32 \<or> (9 \<le> n \<and> n \<le> 13))"

text \<open>The optional sign: whether it is a minus, and the rest.\<close>

definition read_sign :: "string \<Rightarrow> bool \<times> string" where
  "read_sign s = (case s of
     c # r \<Rightarrow> if c = CHR ''-'' then (True, r) else if c = CHR ''+'' then (False, r) else (False, s)
   | [] \<Rightarrow> (False, []))"

text \<open>The optional prefix \<open>0x\<close>, only before a hexadecimal digit.\<close>

definition skip_0x :: "string \<Rightarrow> string" where
  "skip_0x s = (case s of
     a # x # d # r \<Rightarrow>
       if a = CHR ''0'' \<and> (x = CHR ''x'' \<or> x = CHR ''X'') \<and> is_digit 16 d then d # r else s
   | _ \<Rightarrow> s)"

text \<open>\<open>strtoul\<close> with base 16, on 64-bit \<open>unsigned long\<close>: it saturates.\<close>

definition strtoul16 :: "string \<Rightarrow> u64" where
  "strtoul16 s =
     (let (neg, r) = read_sign (dropWhile is_space s);
          n = digits_value 16 (takeWhile (is_digit 16) (skip_0x r))
      in if 2 ^ 64 \<le> n then - 1 else if neg then - of_nat n else of_nat n)"

definition strtol_sat :: "bool \<Rightarrow> nat \<Rightarrow> int" where
  "strtol_sat neg n =
     (if neg then max (- (2 ^ 63)) (- int n) else min (2 ^ 63 - 1) (int n))"

text \<open>\<open>strtol\<close> with base 10 and with base 0 (decimal, octal after \<open>0\<close>, hexadecimal after \<open>0x\<close>).\<close>

definition strtol10 :: "string \<Rightarrow> int" where
  "strtol10 s =
     (let (neg, r) = read_sign (dropWhile is_space s)
      in strtol_sat neg (digits_value 10 (takeWhile (is_digit 10) r)))"

definition strtol0 :: "string \<Rightarrow> int" where
  "strtol0 s =
     (let (neg, r) = read_sign (dropWhile is_space s);
          r' = skip_0x r;
          base = (if r' \<noteq> r then 16 else case r of c # _ \<Rightarrow> if c = CHR ''0'' then 8 else 10 | [] \<Rightarrow> 10)
      in strtol_sat neg (digits_value base (takeWhile (is_digit base) r')))"

text \<open>The conversion of a \<open>long\<close> to \<open>int\<close>, which keeps the low 32 bits.\<close>

definition to_int32 :: "int \<Rightarrow> int" where
  "to_int32 x = sint (word_of_int x :: u32)"

section \<open>Printing numbers\<close>

definition print_x :: "u32 \<Rightarrow> string" where
  "print_x h = print_base 16 (unat h)"

definition print_u :: "u32 \<Rightarrow> string" where
  "print_u n = print_base 10 (unat n)"

definition print_d :: "int \<Rightarrow> string" where
  "print_d n = (if n < 0 then CHR ''-'' # print_base 10 (nat (- n)) else print_base 10 (nat n))"

section \<open>Strings\<close>

text \<open>
  \<open>strsep(&args, delim)\<close>: the token, and what \<open>args\<close> points to afterwards (\<open>NULL\<close> when no
  delimiter is found); on \<open>NULL\<close> it returns \<open>NULL\<close>.
\<close>

definition strsep :: "(char \<Rightarrow> bool) \<Rightarrow> string option \<Rightarrow> string option \<times> string option" where
  "strsep delim s = (case s of
     None \<Rightarrow> (None, None)
   | Some cs \<Rightarrow> (Some (takeWhile (\<lambda>c. \<not> delim c) cs),
        case dropWhile (\<lambda>c. \<not> delim c) cs of [] \<Rightarrow> None | _ # r \<Rightarrow> Some r))"

definition strchr :: "string \<Rightarrow> char \<Rightarrow> string option" where
  "strchr s c = (case dropWhile (\<lambda>x. x \<noteq> c) s of [] \<Rightarrow> None | r \<Rightarrow> Some r)"

section \<open>Reading back what was printed\<close>

lemma digits_value_append:
  "digits_value b (xs @ [c]) = digits_value b xs * b + digit_value c"
  by (simp add: digits_value_def)

lemma print_base_value:
  assumes "2 \<le> b" "b \<le> 36"
  shows "digits_value b (print_base b n) = n \<and> (\<forall>c\<in>set (print_base b n). is_digit b c) \<and> print_base b n \<noteq> []"
proof (induction n rule: less_induct)
  case (less n)
  show ?case
  proof (cases "n < b")
    case True
    then have "print_base b n = [lower_digit n]" by (simp add: print_base.simps)
    then show ?thesis using True assms by (simp add: digits_value_def is_digit_def digit_value_lower)
  next
    case False
    then have p: "print_base b n = print_base b (n div b) @ [lower_digit (n mod b)]"
      using assms by (subst print_base.simps) simp
    have "n div b < n" using False assms by simp
    moreover have "digit_value (lower_digit (n mod b)) = n mod b"
      using assms mod_less_divisor[of b n] by (intro digit_value_lower) linarith
    moreover have "n mod b < b" using assms by (intro mod_less_divisor) linarith
    ultimately show ?thesis using less.IH[of "n div b"]
      unfolding p by (auto simp: digits_value_append is_digit_def)
  qed
qed

lemma digit_not_space: "is_digit 16 c \<Longrightarrow> \<not> is_space c \<and> c \<noteq> CHR ''-'' \<and> c \<noteq> CHR ''+'' \<and> c \<noteq> CHR ''x'' \<and> c \<noteq> CHR ''X''"
  by (auto simp: is_digit_def is_space_def digit_value_def Let_def split: if_splits)

lemma strtoul16_digits:
  assumes "cs \<noteq> []" "\<forall>c\<in>set cs. is_digit 16 c" "digits_value 16 cs < 2 ^ 64"
  shows "strtoul16 cs = of_nat (digits_value 16 cs)"
proof -
  obtain c r where c: "cs = c # r" using assms(1) by (cases cs) auto
  note nc = digit_not_space[of c]
  have "dropWhile is_space cs = cs" using assms(2) nc c by simp
  moreover have "read_sign cs = (False, cs)" using assms(2) nc c by (simp add: read_sign_def)
  moreover have "skip_0x cs = cs"
  proof -
    have "x \<noteq> CHR ''x'' \<and> x \<noteq> CHR ''X''" if "x \<in> set cs" for x
      using assms(2) that digit_not_space by blast
    then show ?thesis by (auto simp: skip_0x_def split: list.splits)
  qed
  moreover have tw: "takeWhile (is_digit 16) cs = cs" using assms(2) by (simp add: takeWhile_eq_all_conv)
  ultimately show ?thesis using assms(3) by (simp add: strtoul16_def Let_def tw)
qed

lemma to_int32_id: "- (2 ^ 31) \<le> x \<Longrightarrow> x < 2 ^ 31 \<Longrightarrow> to_int32 x = x"
  by (simp add: to_int32_def sint_sbintrunc' signed_take_bit_int_eq_self)

lemma ucast_ucast_u32: "ucast (ucast (h :: u32) :: u64) = h"
  by (rule bit_eqI) (simp add: bit_ucast_iff)

lemma strtoul16_print_x: "ucast (strtoul16 (print_x h)) = h"
proof -
  have "unat h < 2 ^ 32" using unsigned_less[of h] by simp
  then have "unat h < 2 ^ 64" by simp
  then have "strtoul16 (print_x h) = of_nat (unat h)"
    using print_base_value[of 16 "unat h"] by (simp add: print_x_def strtoul16_digits)
  then show ?thesis by (simp add: ucast_ucast_u32)
qed

lemma print_base_length:
  assumes "2 \<le> b" "n < b ^ Suc k"
  shows "length (print_base b n) \<le> Suc k"
  using assms(2)
proof (induction k arbitrary: n)
  case 0
  then show ?case by (simp add: print_base.simps)
next
  case (Suc k)
  show ?case
  proof (cases "n < b")
    case True
    then show ?thesis by (simp add: print_base.simps)
  next
    case False
    have "n div b < b ^ Suc k" using Suc.prems by (intro less_mult_imp_div_less) (simp add: mult.commute)
    then have "length (print_base b (n div b)) \<le> Suc k" by (rule Suc.IH)
    then show ?thesis using False assms(1) by (subst print_base.simps) simp
  qed
qed

lemma print_x_length: "length (print_x h) \<le> 8"
proof -
  have "unat h < 2 ^ 32" using unsigned_less[of h] by simp
  then have "unat h < 16 ^ Suc 7" by simp
  then show ?thesis using print_base_length[of 16 "unat h" 7] by (simp add: print_x_def)
qed

lemma print_u_length: "length (print_u h) \<le> 10"
proof -
  have "unat h < 2 ^ 32" using unsigned_less[of h] by simp
  then have "unat h < 10 ^ Suc 9" by simp
  then show ?thesis using print_base_length[of 10 "unat h" 9] by (simp add: print_u_def)
qed

lemma print_d_length: "- (2 ^ 31) \<le> n \<Longrightarrow> n < 2 ^ 31 \<Longrightarrow> length (print_d n) \<le> 11"
proof -
  assume "- (2 ^ 31) \<le> n" "n < 2 ^ 31"
  then have "nat n < 10 ^ Suc 9" "nat (- n) < 10 ^ Suc 9" by simp_all
  then show ?thesis
    using print_base_length[of 10 "nat n" 9] print_base_length[of 10 "nat (- n)" 9] by (simp add: print_d_def)
qed

end
