(* ===== verification/Module.thy ===== *)
theory Module
  imports C_Lib
begin

text \<open>
  Models of \<^verbatim>\<open>skynet-src/skynet_module.c\<close> (the table of C services loaded with
  \<open>dlopen\<close>) and \<^verbatim>\<open>skynet-src/skynet_env.c\<close> (the environment). The dynamic linker is not
  part of the sources: \<open>dlopen\<close> and \<open>dlsym\<close> are parameters, and so are, in theory Server,
  the functions of the services, which are called through the pointers \<open>dlsym\<close> returns.
\<close>

section \<open>The module table\<close>

definition MAX_MODULE_TYPE :: nat where
  "MAX_MODULE_TYPE = 32"

record skynet_module =
  md_name :: string
  md_module :: ptr
  md_create :: ptr
  md_init :: ptr
  md_release :: ptr
  md_signal :: ptr

record modules =
  ms_count :: nat
  ms_path :: string
  ms_m :: "skynet_module option list"

type_synonym dlopen_t = "string \<Rightarrow> ptr"
type_synonym dlsym_t = "ptr \<Rightarrow> string \<Rightarrow> ptr"

text \<open>
  The file name built from one segment of the path: the segment with its first \<open>?\<close>
  replaced by the name of the service, or \<open>None\<close> when there is no \<open>?\<close> (the code then
  calls \<open>exit(1)\<close>).
\<close>

definition segment_file :: "string \<Rightarrow> string \<Rightarrow> string option" where
  "segment_file seg name =
     (let i = length (takeWhile (\<lambda>c. c \<noteq> CHR ''?'') seg)
      in if i < length seg then Some (take i seg @ name @ drop (i + 1) seg) else None)"

lemma rest_shorter:
  assumes "dropWhile (\<lambda>c. c = d) path \<noteq> []"
  shows "length (dropWhile (\<lambda>c. c \<noteq> d) (dropWhile (\<lambda>c. c = d) path)) < length path"
proof -
  let ?p = "dropWhile (\<lambda>c. c = d) path"
  obtain c r where p: "?p = c # r" using assms by (cases ?p) auto
  then have "c \<noteq> d" using hd_dropWhile[OF assms] by simp
  then have "length (dropWhile (\<lambda>c. c \<noteq> d) ?p) \<le> length r"
    using p length_dropWhile_le[of "\<lambda>c. c \<noteq> d" r] by simp
  also have "length r < length ?p" using p by simp
  also have "length ?p \<le> length path" by (rule length_dropWhile_le)
  finally show ?thesis .
qed

function try_open :: "dlopen_t \<Rightarrow> string \<Rightarrow> string \<Rightarrow> ptr option" where
  "try_open dlopen path name =
     (let path = dropWhile (\<lambda>c. c = CHR '';'') path in
      if path = [] then Some NULL
      else
        let seg = takeWhile (\<lambda>c. c \<noteq> CHR '';'') path; l = dropWhile (\<lambda>c. c \<noteq> CHR '';'') path
        in case segment_file seg name of
             None \<Rightarrow> None
           | Some tmp \<Rightarrow>
               let dl = dlopen tmp in if dl = NULL then try_open dlopen l name else Some dl)"
  by pat_completeness auto
termination
  by (relation "measure (\<lambda>(dlopen, path, name). length path)") (auto intro: rest_shorter)

declare try_open.simps [simp del]

text \<open>\<open>_query\<close>: the index of the module, the first \<open>n\<close> entries from \<open>i\<close> on.\<close>

fun query_from :: "skynet_module option list \<Rightarrow> string \<Rightarrow> nat \<Rightarrow> nat \<Rightarrow> nat option option" where
  "query_from m name i 0 = Some None"
| "query_from m name i (Suc n) = do {
     e \<leftarrow> array_get m i;
     e \<leftarrow> e;
     if strcmp (md_name e) name = 0 then Some (Some i) else query_from m name (Suc i) n
   }"

definition module_query :: "modules \<Rightarrow> string \<Rightarrow> nat option option" where
  "module_query M name = query_from (ms_m M) name 0 (ms_count M)"

definition open_sym :: "dlsym_t \<Rightarrow> skynet_module \<Rightarrow> skynet_module \<times> bool" where
  "open_sym dlsym md =
     (let sym = (\<lambda>suffix. dlsym (md_module md) (md_name md @ suffix));
          md = md\<lparr>md_create := sym ''_create'', md_init := sym ''_init'',
                    md_release := sym ''_release'', md_signal := sym ''_signal''\<rparr>
      in (md, md_init md = NULL))"

definition skynet_module_query :: "dlopen_t \<Rightarrow> dlsym_t \<Rightarrow> string \<Rightarrow> modules \<Rightarrow> (modules \<times> nat option) option" where
  "skynet_module_query dlopen dlsym name M = do {
     result \<leftarrow> module_query M name;
     case result of Some r \<Rightarrow> Some (M, Some r)
     | None \<Rightarrow> do {
         result \<leftarrow> module_query M name;
         if result = None \<and> ms_count M < MAX_MODULE_TYPE then do {
           dl \<leftarrow> try_open dlopen (ms_path M) name;
           if dl = NULL then Some (M, None)
           else do {
             let index = ms_count M;
             let (md, failed) = open_sym dlsym \<lparr>md_name = name, md_module = dl, md_create = NULL,
                 md_init = NULL, md_release = NULL, md_signal = NULL\<rparr>;
             m \<leftarrow> array_set (ms_m M) index (Some md);
             if failed then Some (M\<lparr>ms_m := m\<rparr>, None)
             else Some (M\<lparr>ms_m := m, ms_count := index + 1\<rparr>, Some index)
           }
         } else Some (M, result)
       }
   }"

definition skynet_module_insert :: "skynet_module \<Rightarrow> modules \<Rightarrow> modules option" where
  "skynet_module_insert md M = do {
     m \<leftarrow> module_query M (md_name md);
     c_assert (m = None \<and> ms_count M < MAX_MODULE_TYPE);
     m \<leftarrow> array_set (ms_m M) (ms_count M) (Some md);
     Some (M\<lparr>ms_m := m, ms_count := ms_count M + 1\<rparr>)
   }"

definition skynet_module_init :: "string \<Rightarrow> modules" where
  "skynet_module_init path = \<lparr>ms_count = 0, ms_path = path, ms_m = replicate MAX_MODULE_TYPE None\<rparr>"

section \<open>The environment\<close>

text \<open>The globals of the Lua state that \<open>skynet_env.c\<close> keeps, as strings.\<close>

type_synonym skynet_env = "string \<Rightarrow> string option"

definition skynet_getenv :: "skynet_env \<Rightarrow> string \<Rightarrow> string option" where
  "skynet_getenv E key = E key"

definition skynet_setenv :: "string \<Rightarrow> string \<Rightarrow> skynet_env \<Rightarrow> skynet_env option" where
  "skynet_setenv key value E = do {
     c_assert (E key = None);
     Some (E(key \<mapsto> value))
   }"

definition skynet_env_init :: skynet_env where
  "skynet_env_init = Map.empty"

section \<open>What the table keeps\<close>

definition modules_inv :: "modules \<Rightarrow> bool" where
  "modules_inv M \<longleftrightarrow> length (ms_m M) = MAX_MODULE_TYPE \<and> ms_count M \<le> MAX_MODULE_TYPE \<and>
     (\<forall>i<ms_count M. \<exists>e. ms_m M ! i = Some e \<and> md_init e \<noteq> NULL) \<and>
     (\<forall>i<ms_count M. \<forall>j<ms_count M.
        md_name (the (ms_m M ! i)) = md_name (the (ms_m M ! j)) \<longrightarrow> i = j)"

abbreviation md_at :: "modules \<Rightarrow> nat \<Rightarrow> string" where
  "md_at M i \<equiv> md_name (the (ms_m M ! i))"

lemma query_from_ok:
  assumes "length (ms_m M) = MAX_MODULE_TYPE" "i + n \<le> MAX_MODULE_TYPE"
    "\<forall>j<i + n. \<exists>e. ms_m M ! j = Some e"
  shows "\<exists>r. query_from (ms_m M) name i n = Some r \<and>
    (case r of None \<Rightarrow> \<forall>j. i \<le> j \<longrightarrow> j < i + n \<longrightarrow> md_at M j \<noteq> name
     | Some k \<Rightarrow> i \<le> k \<and> k < i + n \<and> md_at M k = name)"
  using assms
proof (induction n arbitrary: i)
  case (Suc n)
  have "i < i + Suc n" by simp
  then obtain e where e: "ms_m M ! i = Some e" using Suc.prems(3) by blast
  have g: "array_get (ms_m M) i = Some (Some e)" using Suc.prems(1,2) e by (simp add: arr_simps)
  obtain r where r: "query_from (ms_m M) name (Suc i) n = Some r"
    "case r of None \<Rightarrow> \<forall>j. Suc i \<le> j \<longrightarrow> j < Suc i + n \<longrightarrow> md_at M j \<noteq> name
     | Some k \<Rightarrow> Suc i \<le> k \<and> k < Suc i + n \<and> md_at M k = name"
    using Suc.IH[of "Suc i"] Suc.prems by auto
  show ?case
  proof (cases "md_name e = name")
    case True
    then show ?thesis using g e by simp
  next
    case False
    have "\<forall>j. i \<le> j \<longrightarrow> j < i + Suc n \<longrightarrow> md_at M j \<noteq> name" if "r = None"
    proof (intro allI impI)
      fix j assume "i \<le> j" "j < i + Suc n"
      then show "md_at M j \<noteq> name" using r(2) that False e by (cases "j = i") auto
    qed
    then show ?thesis using g e False r by (cases r) auto
  qed
qed simp

lemma module_query_ok:
  assumes "modules_inv M"
  shows "\<exists>r. module_query M name = Some r \<and>
    (case r of None \<Rightarrow> \<forall>j<ms_count M. md_at M j \<noteq> name | Some k \<Rightarrow> k < ms_count M \<and> md_at M k = name)"
proof -
  have "length (ms_m M) = MAX_MODULE_TYPE" "0 + ms_count M \<le> MAX_MODULE_TYPE"
    "\<forall>j<0 + ms_count M. \<exists>e. ms_m M ! j = Some e"
    using assms by (auto simp: modules_inv_def)
  from query_from_ok[OF this, of name] show ?thesis
    unfolding module_query_def by (simp cong: option.case_cong)
qed

lemma module_query_found:
  assumes "modules_inv M" "k < ms_count M" "md_at M k = name"
  shows "module_query M name = Some (Some k)"
proof -
  obtain r where r: "module_query M name = Some r"
    "case r of None \<Rightarrow> \<forall>j<ms_count M. md_at M j \<noteq> name | Some k \<Rightarrow> k < ms_count M \<and> md_at M k = name"
    using module_query_ok[OF assms(1)] by blast
  then obtain j where "r = Some j" "j < ms_count M" "md_at M j = name"
    using assms(2,3) by (cases r) auto
  then show ?thesis using r(1) assms unfolding modules_inv_def by metis
qed

lemma modules_inv_add:
  assumes "modules_inv M" "ms_count M < MAX_MODULE_TYPE" "md_init e \<noteq> NULL"
    "\<forall>j<ms_count M. md_at M j \<noteq> md_name e"
  shows "modules_inv (M\<lparr>ms_m := (ms_m M)[ms_count M := Some e], ms_count := ms_count M + 1\<rparr>)"
proof -
  let ?L = "(ms_m M)[ms_count M := Some e]"
  have len: "length (ms_m M) = MAX_MODULE_TYPE" using assms(1) by (simp add: modules_inv_def)
  have nth: "?L ! i = (if i = ms_count M then Some e else ms_m M ! i)" for i
    using len assms(2) by (simp add: nth_list_update)
  have "\<exists>x. ?L ! i = Some x \<and> md_init x \<noteq> NULL" if "i < ms_count M + 1" for i
    using that assms(1,3) unfolding nth modules_inv_def by (cases "i = ms_count M") auto
  moreover have "i = j" if "i < ms_count M + 1" "j < ms_count M + 1"
      "md_name (the (?L ! i)) = md_name (the (?L ! j))" for i j
  proof -
    have dist: "md_at M i = md_at M j \<Longrightarrow> i = j" if "i < ms_count M" "j < ms_count M"
      using assms(1) that unfolding modules_inv_def by blast
    show ?thesis using that assms(4) dist unfolding nth
      by (cases "i = ms_count M"; cases "j = ms_count M") (auto simp: less_Suc_eq)
  qed
  ultimately show ?thesis using len assms(2) by (simp add: modules_inv_def)
qed

text \<open>
  A query keeps the loaded modules and the invariant; what it returns has the name asked
  for and is found again without opening anything.
\<close>

lemma skynet_module_query_keeps:
  assumes inv: "modules_inv M" and q: "skynet_module_query dlopen dlsym name M = Some (M', r)"
  shows "modules_inv M' \<and> ms_count M \<le> ms_count M' \<and> (\<forall>i<ms_count M. ms_m M' ! i = ms_m M ! i) \<and>
    (\<forall>k. r = Some k \<longrightarrow> k < ms_count M' \<and> md_at M' k = name)"
proof -
  obtain r0 where r0: "module_query M name = Some r0"
    "case r0 of None \<Rightarrow> \<forall>j<ms_count M. md_at M j \<noteq> name | Some k \<Rightarrow> k < ms_count M \<and> md_at M k = name"
    using module_query_ok[OF inv] by blast
  show ?thesis
  proof (cases r0)
    case (Some k)
    then have "M' = M" "r = Some k" using q r0(1) by (auto simp: skynet_module_query_def)
    then show ?thesis using r0(2) inv Some by simp
  next
    case None
    then have new: "\<forall>j<ms_count M. md_at M j \<noteq> name" using r0(2) by simp
    have len: "length (ms_m M) = MAX_MODULE_TYPE" using inv by (simp add: modules_inv_def)
    show ?thesis
    proof (cases "M' = M \<and> r = None")
      case True
      then show ?thesis using inv by simp
    next
      case False
      then obtain md failed where md: "open_sym dlsym \<lparr>md_name = name, md_module = the (try_open dlopen (ms_path M) name),
            md_create = NULL, md_init = NULL, md_release = NULL, md_signal = NULL\<rparr> = (md, failed)"
        and c: "ms_count M < MAX_MODULE_TYPE"
        and M': "(M', r) = (if failed then (M\<lparr>ms_m := (ms_m M)[ms_count M := Some md]\<rparr>, None)
          else (M\<lparr>ms_m := (ms_m M)[ms_count M := Some md], ms_count := ms_count M + 1\<rparr>, Some (ms_count M)))"
        using q r0(1) None len
        by (auto simp: skynet_module_query_def arr_simps Let_def split: if_splits bind_splits prod.splits)
      have nm: "md_name md = name" "failed \<longleftrightarrow> md_init md = NULL"
        using md by (auto simp: open_sym_def Let_def)
      show ?thesis
      proof (cases failed)
        case True
        then have "modules_inv M'" using M' inv by (auto simp: modules_inv_def)
        then show ?thesis using M' True by simp
      next
        case nf: False
        then have "modules_inv M'" using M' modules_inv_add[OF inv c, of md] nm new by simp
        then show ?thesis using M' nf nm(1) len c by auto
      qed
    qed
  qed
qed

lemma skynet_module_query_cached:
  assumes "modules_inv M" "skynet_module_query dlopen dlsym name M = Some (M', Some k)"
  shows "skynet_module_query dlopen' dlsym' name M' = Some (M', Some k)"
  using skynet_module_query_keeps[OF assms] module_query_found[of M' k name]
  by (simp add: skynet_module_query_def)

lemma modules_init_inv: "modules_inv (skynet_module_init path)"
  by (simp add: modules_inv_def skynet_module_init_def MAX_MODULE_TYPE_def)

text \<open>The buffer of \<open>_try_open\<close> has room for the name and its NUL.\<close>

lemma segment_file_fits:
  assumes "segment_file seg name = Some tmp" "length seg \<le> length path"
  shows "length tmp < length path + length name"
  using assms by (auto simp: segment_file_def Let_def split: if_splits)

end
