(* ===== verification/Context.thy ===== *)
theory Context
  imports Handle Timer Module
begin

text \<open>
  The state of a node and the life of its services: the first half of
  \<^verbatim>\<open>skynet-src/skynet_server.c\<close> (contexts, references, sessions, pushing a message to
  a handle) with the parts of \<^verbatim>\<open>skynet_handle.c\<close>, \<^verbatim>\<open>skynet_harbor.c\<close>,
  \<^verbatim>\<open>skynet_error.c\<close> and \<^verbatim>\<open>skynet_timer.c\<close> that work on contexts.

  Memory: contexts, message queues and data blocks live at addresses taken from one
  counter, so a new object never shares an address with an older one. Reading or freeing
  an address that holds nothing is the abort \<open>None\<close>. Every operation is the run of one
  thread; theory Scheduler treats the interleaving of the queue operations.

  The functions of a service (\<open>create\<close>, \<open>init\<close>, \<open>release\<close>, \<open>signal\<close> and its callback) are
  code of the loaded modules: they are the fields of \<open>services\<close>, applied to the function
  pointer, and may change the whole state. The operating system is there too, and the result
  the socket server gives to a call.
\<close>

section \<open>State\<close>

definition GLOBALNAME_LENGTH :: nat where
  "GLOBALNAME_LENGTH = 16"

record remote_name =
  rn_name :: string
  rn_handle :: u32

record remote_message =
  rm_destination :: remote_name
  rm_message :: ptr
  rm_sz :: u64

record skynet_socket_message =
  sm_type :: int
  sm_id :: int
  sm_ud :: int
  sm_buffer :: ptr

text \<open>
  A heap block: bytes, a message for a remote node, or a socket message with the text that
  follows it (the address of the peer or an error).
\<close>

datatype block = Bytes "u8 list" | Remote remote_message | Socket skynet_socket_message "u8 list"

text \<open>The calls of \<^verbatim>\<open>skynet_socket.c\<close> into the socket server, as the node records them.\<close>

datatype socket_call =
    Call_send int ptr int
  | Call_send_lowpriority int ptr int
  | Call_listen u32 string int int
  | Call_connect u32 string int
  | Call_bind u32 int
  | Call_close u32 int
  | Call_shutdown u32 int
  | Call_start u32 int
  | Call_nodelay int
  | Call_udp u32 string int
  | Call_udp_connect int string int
  | Call_udp_send int string ptr int

record skynet_context =
  cx_instance :: ptr
  cx_mod :: nat
  cx_cb_ud :: ptr
  cx_cb :: ptr
  cx_queue :: ptr
  cx_logfile :: ptr
  cx_cpu_cost :: u64
  cx_cpu_start :: u64
  cx_result :: string
  cx_handle :: u32
  cx_session_id :: int
  cx_ref :: int
  cx_message_count :: int
  cx_init :: bool
  cx_endless :: bool
  cx_profile :: bool

record skynet_node =
  nd_total :: int
  nd_init :: int
  nd_monitor_exit :: u32
  nd_profile :: bool

record server = mq_world +
  sv_ctx :: "ptr \<Rightarrow> skynet_context option"
  sv_heap :: "ptr \<Rightarrow> block option"
  sv_brk :: ptr
  sv_files :: "ptr set"
  sv_H :: handle_storage
  sv_TI :: timer
  sv_M :: modules
  sv_E :: skynet_env
  sv_node :: skynet_node
  sv_REMOTE :: ptr
  sv_HARBOR :: u32
  sv_logger :: u32
  sv_key :: u32
  sv_calls :: "socket_call list"

record services =
  sf_create :: "ptr \<Rightarrow> server \<Rightarrow> (server \<times> ptr) option"
  sf_init :: "ptr \<Rightarrow> ptr \<Rightarrow> ptr \<Rightarrow> string option \<Rightarrow> server \<Rightarrow> (server \<times> int) option"
  sf_release :: "ptr \<Rightarrow> ptr \<Rightarrow> server \<Rightarrow> server option"
  sf_signal :: "ptr \<Rightarrow> ptr \<Rightarrow> int \<Rightarrow> server \<Rightarrow> server option"
  sf_cb :: "ptr \<Rightarrow> ptr \<Rightarrow> ptr \<Rightarrow> u32 \<Rightarrow> int \<Rightarrow> u32 \<Rightarrow> ptr \<Rightarrow> u64 \<Rightarrow> server \<Rightarrow> (server \<times> int) option"
  os_dlopen :: dlopen_t
  os_dlsym :: dlsym_t
  os_fopen :: "string \<Rightarrow> server \<Rightarrow> ptr"
  os_thread_time :: "server \<Rightarrow> u64"
  os_print_lf :: "u64 \<Rightarrow> string"
  socket_result :: "socket_call \<Rightarrow> server \<Rightarrow> int"

definition ctx_handles :: "server \<Rightarrow> ctx_handle" where
  "ctx_handles w = (\<lambda>c. map_option cx_handle (sv_ctx w c))"

abbreviation ctx_write :: "ptr \<Rightarrow> skynet_context \<Rightarrow> server \<Rightarrow> server" where
  "ctx_write c ctx w \<equiv> w\<lparr>sv_ctx := (sv_ctx w)(c \<mapsto> ctx)\<rparr>"

abbreviation node_total :: "int \<Rightarrow> server \<Rightarrow> server" where
  "node_total d w \<equiv> w\<lparr>sv_node := (sv_node w)\<lparr>nd_total := nd_total (sv_node w) + d\<rparr>\<rparr>"

section \<open>Memory\<close>

definition skynet_malloc :: "block \<Rightarrow> server \<Rightarrow> server \<times> ptr" where
  "skynet_malloc b w = (w\<lparr>sv_heap := (sv_heap w)(sv_brk w \<mapsto> b), sv_brk := sv_brk w + 1\<rparr>, sv_brk w)"

definition skynet_free :: "ptr \<Rightarrow> server \<Rightarrow> server option" where
  "skynet_free p w =
     (if p = NULL then Some w
      else case sv_heap w p of None \<Rightarrow> None | Some _ \<Rightarrow> Some (w\<lparr>sv_heap := (sv_heap w)(p := None)\<rparr>))"

definition read_bytes :: "ptr \<Rightarrow> u64 \<Rightarrow> server \<Rightarrow> u8 list option" where
  "read_bytes p sz w = (case sv_heap w p of
     Some (Bytes bs) \<Rightarrow> if unat sz \<le> length bs then Some (take (unat sz) bs) else None
   | _ \<Rightarrow> None)"

text \<open>\<open>sizeof(struct skynet_socket_message)\<close> on a 64-bit machine\<close>

definition sizeof_socket_message :: nat where
  "sizeof_socket_message = 24"

text \<open>A copy of \<open>sz\<close> bytes of a block with a NUL byte after it.\<close>

definition copy_block :: "ptr \<Rightarrow> u64 \<Rightarrow> server \<Rightarrow> block option" where
  "copy_block p sz w = (case sv_heap w p of
     Some (Socket m t) \<Rightarrow> if unat sz = sizeof_socket_message + length t then Some (Socket m t) else None
   | _ \<Rightarrow> do { bs \<leftarrow> read_bytes p sz w; Some (Bytes (bs @ [0])) })"

lemma copy_block_bytes: "read_bytes p sz w = Some bs \<Longrightarrow> copy_block p sz w = Some (Bytes (bs @ [0]))"
  by (auto simp: copy_block_def read_bytes_def split: option.splits block.splits if_splits)

definition fclose :: "ptr \<Rightarrow> server \<Rightarrow> server option" where
  "fclose f w = (if f \<in> sv_files w then Some (w\<lparr>sv_files := sv_files w - {f}\<rparr>) else None)"

section \<open>Contexts\<close>

definition skynet_context_total :: "server \<Rightarrow> int" where
  "skynet_context_total w = nd_total (sv_node w)"

definition context_inc :: "server \<Rightarrow> server" where
  "context_inc w = node_total 1 w"

definition context_dec :: "server \<Rightarrow> server" where
  "context_dec w = node_total (- 1) w"

text \<open>\<open>session_id\<close> is an \<open>int\<close>; its increment wraps around.\<close>

definition skynet_context_newsession :: "ptr \<Rightarrow> server \<Rightarrow> (server \<times> int) option" where
  "skynet_context_newsession c w = do {
     ctx \<leftarrow> sv_ctx w c;
     let session = to_int32 (cx_session_id ctx + 1);
     if session \<le> 0 then Some (ctx_write c (ctx\<lparr>cx_session_id := 1\<rparr>) w, 1)
     else Some (ctx_write c (ctx\<lparr>cx_session_id := session\<rparr>) w, session)
   }"

definition skynet_context_grab :: "ptr \<Rightarrow> server \<Rightarrow> server option" where
  "skynet_context_grab c w = do {
     ctx \<leftarrow> sv_ctx w c;
     Some (ctx_write c (ctx\<lparr>cx_ref := cx_ref ctx + 1\<rparr>) w)
   }"

definition skynet_context_reserve :: "ptr \<Rightarrow> server \<Rightarrow> server option" where
  "skynet_context_reserve c w = do {
     w \<leftarrow> skynet_context_grab c w;
     Some (context_dec w)
   }"

definition module_of :: "server \<Rightarrow> nat \<Rightarrow> skynet_module option" where
  "module_of w i = do { e \<leftarrow> array_get (ms_m (sv_M w)) i; e }"

definition skynet_module_instance_create :: "services \<Rightarrow> nat \<Rightarrow> server \<Rightarrow> (server \<times> ptr) option" where
  "skynet_module_instance_create E m w = do {
     md \<leftarrow> module_of w m;
     if md_create md \<noteq> NULL then sf_create E (md_create md) w else Some (w, 2 ^ 64 - 1)
   }"

definition skynet_module_instance_init ::
  "services \<Rightarrow> nat \<Rightarrow> ptr \<Rightarrow> ptr \<Rightarrow> string option \<Rightarrow> server \<Rightarrow> (server \<times> int) option" where
  "skynet_module_instance_init E m inst ctx parm w = do {
     md \<leftarrow> module_of w m;
     sf_init E (md_init md) inst ctx parm w
   }"

definition skynet_module_instance_release :: "services \<Rightarrow> nat \<Rightarrow> ptr \<Rightarrow> server \<Rightarrow> server option" where
  "skynet_module_instance_release E m inst w = do {
     md \<leftarrow> module_of w m;
     if md_release md \<noteq> NULL then sf_release E (md_release md) inst w else Some w
   }"

definition skynet_module_instance_signal :: "services \<Rightarrow> nat \<Rightarrow> ptr \<Rightarrow> int \<Rightarrow> server \<Rightarrow> server option" where
  "skynet_module_instance_signal E m inst signal w = do {
     md \<leftarrow> module_of w m;
     if md_signal md \<noteq> NULL then sf_signal E (md_signal md) inst signal w else Some w
   }"

definition delete_context :: "services \<Rightarrow> ptr \<Rightarrow> server \<Rightarrow> server option" where
  "delete_context E c w = do {
     ctx \<leftarrow> sv_ctx w c;
     w \<leftarrow> (if cx_logfile ctx \<noteq> NULL then fclose (cx_logfile ctx) w else Some w);
     w \<leftarrow> skynet_module_instance_release E (cx_mod ctx) (cx_instance ctx) w;
     ctx \<leftarrow> sv_ctx w c;
     w \<leftarrow> skynet_mq_mark_release w (cx_queue ctx);
     Some (context_dec (w\<lparr>sv_ctx := (sv_ctx w)(c := None)\<rparr>))
   }"

definition skynet_context_release :: "services \<Rightarrow> ptr \<Rightarrow> server \<Rightarrow> (server \<times> ptr) option" where
  "skynet_context_release E c w = do {
     ctx \<leftarrow> sv_ctx w c;
     let ref = cx_ref ctx - 1;
     let w = ctx_write c (ctx\<lparr>cx_ref := ref\<rparr>) w;
     if ref = 0 then do {
       w \<leftarrow> delete_context E c w;
       Some (w, NULL)
     } else Some (w, c)
   }"

text \<open>\<open>skynet_handle_grab\<close> and \<open>skynet_handle_retire\<close> with the references they move.\<close>

definition skynet_handle_grab :: "u32 \<Rightarrow> server \<Rightarrow> (server \<times> ptr) option" where
  "skynet_handle_grab handle w = do {
     c \<leftarrow> handle_grab (ctx_handles w) handle (sv_H w);
     if c = NULL then Some (w, NULL)
     else do { w \<leftarrow> skynet_context_grab c w; Some (w, c) }
   }"

definition skynet_handle_retire :: "services \<Rightarrow> u32 \<Rightarrow> server \<Rightarrow> (server \<times> int) option" where
  "skynet_handle_retire E handle w = do {
     (H, c) \<leftarrow> handle_retire (ctx_handles w) handle (sv_H w);
     let w = w\<lparr>sv_H := H\<rparr>;
     if c \<noteq> NULL then do { (w, _) \<leftarrow> skynet_context_release E c w; Some (w, 1) }
     else Some (w, 0)
   }"

text \<open>One round of \<open>skynet_handle_retireall\<close> from slot \<open>i\<close>, and the loop over the rounds.\<close>

partial_function (option) retire_round :: "services \<Rightarrow> nat \<Rightarrow> nat \<Rightarrow> server \<Rightarrow> (server \<times> nat) option" where
  "retire_round E i n w =
     (if i < hs_slot_size (sv_H w) then do {
        c \<leftarrow> array_get (hs_slot (sv_H w)) i;
        handle \<leftarrow> (if c \<noteq> NULL then ctx_handles w c else Some 0);
        if handle \<noteq> 0 then do {
          (w, r) \<leftarrow> skynet_handle_retire E handle w;
          retire_round E (Suc i) (if r \<noteq> 0 then n + 1 else n) w
        } else retire_round E (Suc i) n w
      } else Some (w, n))"

partial_function (option) skynet_handle_retireall :: "services \<Rightarrow> server \<Rightarrow> server option" where
  "skynet_handle_retireall E w = do {
     (w, n) \<leftarrow> retire_round E 0 0 w;
     if n = 0 then Some w else skynet_handle_retireall E w
   }"

section \<open>Messages to a context\<close>

definition skynet_context_push :: "services \<Rightarrow> u32 \<Rightarrow> skynet_message \<Rightarrow> server \<Rightarrow> (server \<times> int) option" where
  "skynet_context_push E handle message w = do {
     (w, c) \<leftarrow> skynet_handle_grab handle w;
     if c = NULL then Some (w, - 1)
     else do {
       ctx \<leftarrow> sv_ctx w c;
       w \<leftarrow> skynet_mq_push w (cx_queue ctx) message;
       (w, _) \<leftarrow> skynet_context_release E c w;
       Some (w, 0)
     }
   }"

definition skynet_context_endless :: "services \<Rightarrow> u32 \<Rightarrow> server \<Rightarrow> server option" where
  "skynet_context_endless E handle w = do {
     (w, c) \<leftarrow> skynet_handle_grab handle w;
     if c = NULL then Some w
     else do {
       ctx \<leftarrow> sv_ctx w c;
       (w, _) \<leftarrow> skynet_context_release E c (ctx_write c (ctx\<lparr>cx_endless := True\<rparr>) w);
       Some w
     }
   }"

definition skynet_context_send :: "ptr \<Rightarrow> ptr \<Rightarrow> u64 \<Rightarrow> u32 \<Rightarrow> u32 \<Rightarrow> int \<Rightarrow> server \<Rightarrow> server option" where
  "skynet_context_send c msg sz source type session w = do {
     ctx \<leftarrow> sv_ctx w c;
     skynet_mq_push w (cx_queue ctx)
       \<lparr>msg_source = source, msg_session = session, msg_data = msg,
        msg_sz = sz OR push_bit MESSAGE_TYPE_SHIFT (ucast type)\<rparr>
   }"

section \<open>Error messages\<close>

definition PTYPE_TEXT :: u64 where
  "PTYPE_TEXT = 0"

definition LOG_MESSAGE_SIZE :: nat where
  "LOG_MESSAGE_SIZE = 256"

definition text_block :: "string \<Rightarrow> block" where
  "text_block s = Bytes (map of_char s @ [0])"

text \<open>
  The loop that allocates a buffer for a long message, doubling until it fits; \<open>len\<close> is what
  \<open>vsnprintf\<close> returns.
\<close>

function error_alloc :: "block \<Rightarrow> int \<Rightarrow> int \<Rightarrow> server \<Rightarrow> (server \<times> ptr) option" where
  "error_alloc b len max_size w =
     (if max_size \<le> 0 then None else
      let max_size = max_size * 2; (w, data) = skynet_malloc b w
      in if len < max_size then Some (w, data)
         else case skynet_free data w of None \<Rightarrow> None | Some w \<Rightarrow> error_alloc b len max_size w)"
  by pat_completeness auto
termination
  by (relation "measure (\<lambda>(b, len, max_size, w). nat (len - max_size))") auto

declare error_alloc.simps [simp del]

text \<open>\<open>msg\<close> is the formatted text, or \<open>None\<close> when \<open>vsnprintf\<close> fails with a negative length.\<close>

definition skynet_error :: "services \<Rightarrow> ptr \<Rightarrow> string option \<Rightarrow> server \<Rightarrow> server option" where
  "skynet_error E context msg w = do {
     logger \<leftarrow> (if sv_logger w = 0 then skynet_handle_findname ''logger'' (sv_H w) else Some (sv_logger w));
     let w = w\<lparr>sv_logger := logger\<rparr>;
     if logger = 0 then Some w
     else do {
       let len = (case msg of None \<Rightarrow> - 1 | Some s \<Rightarrow> int (length s));
       let b = text_block (case msg of None \<Rightarrow> [] | Some s \<Rightarrow> s);
       (w, data) \<leftarrow> (if 0 \<le> len \<and> len < int LOG_MESSAGE_SIZE then Some (skynet_malloc b w)
                      else error_alloc b len (int LOG_MESSAGE_SIZE) w);
       if len < 0 then skynet_free data w
       else do {
         source \<leftarrow> (if context = NULL then Some 0 else ctx_handles w context);
         (w, _) \<leftarrow> skynet_context_push E logger
           \<lparr>msg_source = source, msg_session = 0, msg_data = data,
            msg_sz = word_of_int len OR push_bit MESSAGE_TYPE_SHIFT PTYPE_TEXT\<rparr> w;
         Some w
       }
     }
   }"

section \<open>The invariant of a node\<close>

text \<open>
  \<open>xs\<close> is the global list of message queues. Every live context holds at least one
  reference and has its own message queue; the handle table finds live contexts only; and
  addresses at or above the allocation counter are free.
\<close>

definition ctx_ok :: "server \<Rightarrow> ptr list \<Rightarrow> ptr \<Rightarrow> skynet_context \<Rightarrow> bool" where
  "ctx_ok w xs c ctx \<longleftrightarrow> c \<noteq> NULL \<and> c < sv_brk w \<and> 1 \<le> cx_ref ctx \<and>
     (\<exists>q ms. mq_cores w (cx_queue ctx) = Some q \<and> mq_rep q ms \<and> (\<not> mq_in_global q \<longrightarrow> cx_queue ctx \<notin> set xs))"

definition server_inv :: "server \<Rightarrow> ptr list \<Rightarrow> bool" where
  "server_inv w xs \<longleftrightarrow> gq_rep w xs \<and> table_inv (ctx_handles w, sv_H w) \<and>
     (\<forall>c ctx. sv_ctx w c = Some ctx \<longrightarrow> ctx_ok w xs c ctx) \<and>
     (\<forall>c d x y. sv_ctx w c = Some x \<longrightarrow> sv_ctx w d = Some y \<longrightarrow> cx_queue x = cx_queue y \<longrightarrow> c = d) \<and>
     (\<forall>p. sv_heap w p \<noteq> None \<longrightarrow> p \<noteq> NULL \<and> p < sv_brk w) \<and> 0 < sv_brk w"

definition ctx_pending :: "server \<Rightarrow> ptr \<Rightarrow> skynet_message list" where
  "ctx_pending w c = (case sv_ctx w c of None \<Rightarrow> [] | Some ctx \<Rightarrow>
     (case mq_cores w (cx_queue ctx) of None \<Rightarrow> [] | Some q \<Rightarrow> mq_msgs q))"

lemma server_more:
  assumes "mq_world.more w' = mq_world.more (w :: server)"
  shows "sv_ctx w' = sv_ctx w" "sv_heap w' = sv_heap w" "sv_brk w' = sv_brk w" "sv_H w' = sv_H w"
    "sv_TI w' = sv_TI w" "sv_M w' = sv_M w" "sv_E w' = sv_E w" "sv_node w' = sv_node w"
    "sv_REMOTE w' = sv_REMOTE w" "sv_HARBOR w' = sv_HARBOR w" "sv_logger w' = sv_logger w"
    "sv_key w' = sv_key w" "sv_files w' = sv_files w" "sv_calls w' = sv_calls w"
  using assms by (cases w; cases w'; simp)+

lemma mq_cores_more [simp]:
  "mq_cores (ctx_write c x w) = mq_cores w" "gq_rep (ctx_write c x w) xs = gq_rep w xs"
  by (simp_all add: mq_cores_def gq_rep_def)

lemma server_inv_ctx:
  assumes "server_inv w xs" "sv_ctx w c = Some ctx"
  obtains q where "mq_cores w (cx_queue ctx) = Some q" "mq_rep q (ctx_pending w c)"
    "\<not> mq_in_global q \<Longrightarrow> cx_queue ctx \<notin> set xs" "c \<noteq> NULL" "1 \<le> cx_ref ctx"
proof -
  have "ctx_ok w xs c ctx" using assms unfolding server_inv_def by blast
  then obtain q ms where q: "mq_cores w (cx_queue ctx) = Some q" "mq_rep q ms"
    "\<not> mq_in_global q \<longrightarrow> cx_queue ctx \<notin> set xs" "c \<noteq> NULL" "1 \<le> cx_ref ctx"
    unfolding ctx_ok_def by blast
  moreover have "ctx_pending w c = ms" using assms(2) q by (simp add: ctx_pending_def mq_rep_imp_msgs)
  ultimately show ?thesis using that by blast
qed

lemma grab_lookup:
  assumes "server_inv w xs"
  shows "(\<exists>c ctx. handle_lookup (ctx_handles w, sv_H w) h = Some c \<and> sv_ctx w c = Some ctx \<and> cx_handle ctx = h \<and>
            skynet_handle_grab h w = Some (ctx_write c (ctx\<lparr>cx_ref := cx_ref ctx + 1\<rparr>) w, c)) \<or>
         (handle_lookup (ctx_handles w, sv_H w) h = None \<and> skynet_handle_grab h w = Some (w, NULL))"
proof -
  have inv: "table_inv (ctx_handles w, sv_H w)" using assms by (simp add: server_inv_def)
  obtain c where c: "handle_grab (ctx_handles w) h (sv_H w) = Some c"
    using handle_grab_total[of "ctx_handles w" "sv_H w" h] inv by (auto simp: table_inv_def)
  show ?thesis
  proof (cases "c = NULL")
    case True
    then show ?thesis using c by (simp add: handle_lookup_def skynet_handle_grab_def)
  next
    case False
    then have l: "handle_lookup (ctx_handles w, sv_H w) h = Some c" using c by (simp add: handle_lookup_def)
    then have "ctx_handles w c = Some h" using handle_lookup_iff[OF inv] by blast
    then obtain ctx where "sv_ctx w c = Some ctx" "cx_handle ctx = h" by (auto simp: ctx_handles_def)
    then show ?thesis using c False l by (auto simp: skynet_handle_grab_def skynet_context_grab_def)
  qed
qed

text \<open>Taking a reference and giving it back leaves a live context as it was.\<close>

lemma release_grabbed:
  assumes "sv_ctx w c = Some (ctx\<lparr>cx_ref := cx_ref ctx + 1\<rparr>)" "1 \<le> cx_ref ctx"
  shows "skynet_context_release E c w = Some (ctx_write c ctx w, c)"
  using assms by (simp add: skynet_context_release_def)

lemma context_push_ok:
  assumes inv: "server_inv w xs" and c: "handle_lookup (ctx_handles w, sv_H w) h = Some c"
  shows "\<exists>w' ys. skynet_context_push E h m w = Some (w', 0) \<and> server_inv w' ys \<and>
    ctx_pending w' = (ctx_pending w)(c := ctx_pending w c @ [m]) \<and> mq_world.more w' = mq_world.more w \<and>
    (\<exists>ctx. sv_ctx w c = Some ctx \<and> set ys \<subseteq> insert (cx_queue ctx) (set xs) \<and>
       (\<forall>p. p \<noteq> cx_queue ctx \<longrightarrow> mq_cores w' p = mq_cores w p))"
proof -
  obtain ctx where ctx: "sv_ctx w c = Some ctx"
    "skynet_handle_grab h w = Some (ctx_write c (ctx\<lparr>cx_ref := cx_ref ctx + 1\<rparr>) w, c)"
    using grab_lookup[OF inv, of h] c by auto
  let ?w = "ctx_write c (ctx\<lparr>cx_ref := cx_ref ctx + 1\<rparr>) w" let ?p = "cx_queue ctx"
  obtain q where q: "mq_cores w ?p = Some q" "mq_rep q (ctx_pending w c)"
    "\<not> mq_in_global q \<Longrightarrow> ?p \<notin> set xs" and nz: "c \<noteq> NULL" "1 \<le> cx_ref ctx"
    using server_inv_ctx[OF inv ctx(1)] by blast
  let ?ys = "if mq_in_global q then xs else xs @ [?p]"
  have g: "gq_rep ?w xs" "mq_cores ?w ?p = Some q" using inv q by (simp_all add: server_inv_def)
  obtain w1 q1 where w1: "skynet_mq_push ?w ?p m = Some w1" "gq_rep w1 ?ys"
    "mq_cores w1 = (mq_cores ?w)(?p \<mapsto> q1)" "mq_rep q1 (ctx_pending w c @ [m])" "mq_in_global q1"
    "mq_world.more w1 = mq_world.more ?w"
    using skynet_mq_push_spec[OF g q(2,3)] by blast
  note m1 = server_more[OF w1(6)]
  define w2 where "w2 = ctx_write c ctx w1"
  have r: "skynet_context_release E c w1 = Some (w2, c)"
    using release_grabbed[of w1 c ctx] m1(1) nz(2) by (simp add: w2_def)
  have push: "skynet_context_push E h m w = Some (w2, 0)"
    using ctx(2) nz(1) w1(1) r by (simp add: skynet_context_push_def)
  have ctx2: "sv_ctx w2 = sv_ctx w" using m1(1) ctx(1) by (simp add: w2_def fun_upd_idem)
  have more: "mq_world.more w2 = mq_world.more w"
    using w1(6) ctx2 by (cases w; cases w1) (simp add: w2_def)
  note m2 = server_more[OF more]
  have cores: "mq_cores w2 = (mq_cores w)(?p \<mapsto> q1)" using w1(3) by (simp add: w2_def)
  have distinct_q: "c = d" if "sv_ctx w d = Some y" "cx_queue y = ?p" for d y
    using inv that ctx(1) unfolding server_inv_def by blast
  have "ctx_ok w2 ?ys d y" if "sv_ctx w d = Some y" for d y
  proof (cases "d = c")
    case True
    then show ?thesis using inv that ctx(1) w1(4,5) cores m2(3) unfolding server_inv_def ctx_ok_def by auto
  next
    case False
    then have "cx_queue y \<noteq> ?p" using distinct_q[OF that] by blast
    then show ?thesis using inv that cores m2(3) unfolding server_inv_def ctx_ok_def by auto
  qed
  moreover have "gq_rep w2 ?ys" using w1(2) by (simp add: w2_def)
  moreover have "ctx_handles w2 = ctx_handles w" using ctx2 by (simp add: ctx_handles_def)
  ultimately have "server_inv w2 ?ys" using inv ctx2 m2 unfolding server_inv_def by metis
  moreover have "ctx_pending w2 d = ((ctx_pending w)(c := ctx_pending w c @ [m])) d" for d
  proof (cases "d = c")
    case True
    then show ?thesis using ctx(1) ctx2 cores w1(4) by (simp add: ctx_pending_def mq_rep_imp_msgs)
  next
    case False
    then show ?thesis using ctx2 cores distinct_q[of d] by (auto simp: ctx_pending_def split: option.splits)
  qed
  moreover have "\<exists>ctx. sv_ctx w c = Some ctx \<and> set ?ys \<subseteq> insert (cx_queue ctx) (set xs) \<and>
      (\<forall>p. p \<noteq> cx_queue ctx \<longrightarrow> mq_cores w2 p = mq_cores w p)"
    using ctx(1) cores by auto
  ultimately show ?thesis using push more by blast
qed

lemma context_push_none:
  assumes "server_inv w xs" "handle_lookup (ctx_handles w, sv_H w) h = None"
  shows "skynet_context_push E h m w = Some (w, - 1)"
  using grab_lookup[OF assms(1), of h] assms(2) by (auto simp: skynet_context_push_def)

lemma ctx_pending_cong: "mq_cores w' = mq_cores w \<Longrightarrow> sv_ctx w' = sv_ctx w \<Longrightarrow> ctx_pending w' = ctx_pending w"
  by (rule ext) (simp add: ctx_pending_def split: option.split)

lemma skynet_malloc_inv:
  assumes inv: "server_inv w xs" and m: "skynet_malloc b w = (w', p)"
  shows "server_inv w' xs" "p \<noteq> NULL" "sv_heap w p = None" "sv_heap w' = (sv_heap w)(p \<mapsto> b)"
    "ctx_pending w' = ctx_pending w" "ctx_handles w' = ctx_handles w" "sv_H w' = sv_H w" "sv_ctx w' = sv_ctx w"
    "sv_HARBOR w' = sv_HARBOR w"
proof -
  have w': "w' = w\<lparr>sv_heap := (sv_heap w)(sv_brk w \<mapsto> b), sv_brk := sv_brk w + 1\<rparr>" and p: "p = sv_brk w"
    using m by (auto simp: skynet_malloc_def)
  have mq: "mq_cores w' = mq_cores w" "gq_rep w' xs = gq_rep w xs"
    by (simp_all add: w' mq_cores_def gq_rep_def)
  show same: "sv_heap w' = (sv_heap w)(p \<mapsto> b)" "ctx_handles w' = ctx_handles w" "sv_H w' = sv_H w"
    "sv_ctx w' = sv_ctx w" "sv_HARBOR w' = sv_HARBOR w"
    by (simp_all add: w' p ctx_handles_def)
  then show "ctx_pending w' = ctx_pending w" using ctx_pending_cong[OF mq(1)] by simp
  show pn: "p \<noteq> NULL" using inv p by (simp add: server_inv_def)
  show fresh: "sv_heap w p = None"
  proof (rule ccontr)
    assume "sv_heap w p \<noteq> None"
    then have "p < sv_brk w" using inv unfolding server_inv_def by blast
    then show False using p by simp
  qed
  have a: "ctx_ok w' xs c ctx" if "sv_ctx w c = Some ctx" for c ctx
  proof -
    have "ctx_ok w xs c ctx" using inv that unfolding server_inv_def by blast
    then show ?thesis unfolding ctx_ok_def mq(1) by (simp add: w')
  qed
  have b: "q \<noteq> NULL \<and> q < sv_brk w'" if "sv_heap w' q \<noteq> None" for q
  proof (cases "q = p")
    case True
    then show ?thesis using pn by (simp add: w' p)
  next
    case False
    then have "sv_heap w q \<noteq> None" using that same(1) by simp
    then have "q \<noteq> NULL \<and> q < sv_brk w" using inv unfolding server_inv_def by blast
    then show ?thesis by (simp add: w')
  qed
  have "0 < sv_brk w'" by (simp add: w')
  then show "server_inv w' xs"
    using inv a b unfolding server_inv_def mq same(2,3,4) by blast
qed

lemma skynet_free_inv:
  assumes inv: "server_inv w xs" and "p = NULL \<or> sv_heap w p \<noteq> None"
  shows "\<exists>w'. skynet_free p w = Some w' \<and> server_inv w' xs \<and> sv_heap w' = (sv_heap w)(p := None) \<and>
    ctx_pending w' = ctx_pending w \<and> sv_ctx w' = sv_ctx w"
proof (cases "p = NULL")
  case True
  moreover have "sv_heap w NULL = None" using inv unfolding server_inv_def by blast
  ultimately show ?thesis using inv by (simp add: skynet_free_def fun_upd_idem)
next
  case False
  let ?w = "w\<lparr>sv_heap := (sv_heap w)(p := None)\<rparr>"
  have mq: "mq_cores ?w = mq_cores w" "gq_rep ?w xs = gq_rep w xs" "ctx_handles ?w = ctx_handles w"
    by (simp_all add: mq_cores_def gq_rep_def ctx_handles_def)
  have "ctx_ok ?w xs c ctx = ctx_ok w xs c ctx" for c ctx unfolding ctx_ok_def mq(1) by simp
  then have "server_inv ?w xs" using inv mq unfolding server_inv_def by simp
  moreover have "ctx_pending ?w = ctx_pending w" using ctx_pending_cong[OF mq(1)] by simp
  ultimately show ?thesis using False assms(2) by (auto simp: skynet_free_def)
qed

lemma to_int32_range: "- (2 ^ 31) \<le> to_int32 x" "to_int32 x < 2 ^ 31"
  using sint_range_size[of "word_of_int x :: u32"] by (simp_all add: to_int32_def word_size)

text \<open>Sessions are positive, whatever the counter was.\<close>

lemma newsession_ok:
  assumes "sv_ctx w c = Some ctx"
  shows "\<exists>s. skynet_context_newsession c w = Some (ctx_write c (ctx\<lparr>cx_session_id := s\<rparr>) w, s) \<and>
    0 < s \<and> s < 2 ^ 31 \<and> (cx_session_id ctx \<in> {0..<2 ^ 31 - 1} \<longrightarrow> s = cx_session_id ctx + 1)"
proof -
  let ?s = "to_int32 (cx_session_id ctx + 1)"
  have "cx_session_id ctx \<in> {0..<2 ^ 31 - 1} \<Longrightarrow> ?s = cx_session_id ctx + 1"
    unfolding to_int32_def sint_sbintrunc' by (simp add: signed_take_bit_int_eq_self)
  then show ?thesis using assms to_int32_range(2)[of "cx_session_id ctx + 1"]
    by (auto simp: skynet_context_newsession_def Let_def)
qed

end
