(* ===== verification/Server.thy ===== *)
theory Server
  imports Context
begin

text \<open>
  The second half of \<^verbatim>\<open>skynet-src/skynet_server.c\<close>: sending, dispatching, launching
  and killing services, and the text commands of \<open>skynet_command\<close>; with
  \<^verbatim>\<open>skynet_harbor.c\<close>, \<^verbatim>\<open>skynet_monitor.c\<close> and \<open>skynet_timeout\<close> of
  \<^verbatim>\<open>skynet_timer.c\<close>. A context argument is its address, \<open>NULL\<close> included.
\<close>

section \<open>Message types\<close>

definition PTYPE_CLIENT :: u32 where
  "PTYPE_CLIENT = 3"

definition PTYPE_SYSTEM :: u32 where
  "PTYPE_SYSTEM = 4"

definition PTYPE_HARBOR :: u32 where
  "PTYPE_HARBOR = 5"

definition PTYPE_ERROR :: u32 where
  "PTYPE_ERROR = 7"

definition PTYPE_TAG_DONTCOPY :: u32 where
  "PTYPE_TAG_DONTCOPY = 0x10000"

definition PTYPE_TAG_ALLOCSESSION :: u32 where
  "PTYPE_TAG_ALLOCSESSION = 0x20000"

section \<open>The harbor\<close>

text \<open>\<open>sizeof(struct remote_message)\<close> on a 64-bit machine\<close>

definition sizeof_remote_message :: u64 where
  "sizeof_remote_message = 40"

definition skynet_harbor_send :: "ptr \<Rightarrow> u32 \<Rightarrow> int \<Rightarrow> server \<Rightarrow> server option" where
  "skynet_harbor_send rmsg source session w = (case sv_heap w rmsg of
     Some (Remote r) \<Rightarrow> do {
       let type = (ucast (drop_bit MESSAGE_TYPE_SHIFT (rm_sz r)) :: u32);
       let w = w\<lparr>sv_heap := (sv_heap w)(rmsg \<mapsto> Remote (r\<lparr>rm_sz := rm_sz r AND MESSAGE_TYPE_MASK\<rparr>))\<rparr>;
       c_assert (type \<noteq> PTYPE_SYSTEM \<and> type \<noteq> PTYPE_HARBOR \<and> sv_REMOTE w \<noteq> NULL);
       skynet_context_send (sv_REMOTE w) rmsg sizeof_remote_message source type session w
     }
   | _ \<Rightarrow> None)"

definition skynet_harbor_message_isremote :: "u32 \<Rightarrow> server \<Rightarrow> bool option" where
  "skynet_harbor_message_isremote handle w = do {
     c_assert (sv_HARBOR w \<noteq> NOT 0);
     let h = handle AND NOT HANDLE_MASK;
     Some (h \<noteq> sv_HARBOR w \<and> h \<noteq> 0)
   }"

definition skynet_harbor_init :: "int \<Rightarrow> server \<Rightarrow> server" where
  "skynet_harbor_init harbor w = w\<lparr>sv_HARBOR := push_bit HANDLE_REMOTE_SHIFT (word_of_int harbor)\<rparr>"

definition skynet_harbor_start :: "ptr \<Rightarrow> server \<Rightarrow> server option" where
  "skynet_harbor_start c w = do {
     w \<leftarrow> skynet_context_reserve c w;
     Some (w\<lparr>sv_REMOTE := c\<rparr>)
   }"

definition skynet_harbor_exit :: "services \<Rightarrow> server \<Rightarrow> server option" where
  "skynet_harbor_exit E w = do {
     let c = sv_REMOTE w;
     let w = w\<lparr>sv_REMOTE := NULL\<rparr>;
     if c \<noteq> NULL then do { (w, _) \<leftarrow> skynet_context_release E c w; Some w } else Some w
   }"

definition skynet_isremote :: "u32 \<Rightarrow> server \<Rightarrow> (bool \<times> u32) option" where
  "skynet_isremote handle w = do {
     ret \<leftarrow> skynet_harbor_message_isremote handle w;
     Some (ret, drop_bit HANDLE_REMOTE_SHIFT handle)
   }"

section \<open>Sending\<close>

definition filter_args ::
  "ptr \<Rightarrow> u32 \<Rightarrow> int \<Rightarrow> ptr \<Rightarrow> u64 \<Rightarrow> server \<Rightarrow> (server \<times> int \<times> ptr \<times> u64) option" where
  "filter_args context type session data sz w = do {
     let needcopy = (type AND PTYPE_TAG_DONTCOPY = 0);
     let allocsession = (type AND PTYPE_TAG_ALLOCSESSION \<noteq> 0);
     let type = type AND 0xff;
     (w, session) \<leftarrow> (if allocsession then do {
         c_assert (session = 0);
         skynet_context_newsession context w
       } else Some (w, session));
     (w, data) \<leftarrow> (if needcopy \<and> data \<noteq> NULL then do {
         b \<leftarrow> copy_block data sz w;
         Some (skynet_malloc b w)
       } else Some (w, data));
     Some (w, session, data, sz OR push_bit MESSAGE_TYPE_SHIFT (ucast type))
   }"

definition skynet_send ::
  "services \<Rightarrow> ptr \<Rightarrow> u32 \<Rightarrow> u32 \<Rightarrow> u32 \<Rightarrow> int \<Rightarrow> ptr \<Rightarrow> u64 \<Rightarrow> server \<Rightarrow> (server \<times> int) option" where
  "skynet_send E context source destination type session data sz w =
     (if sz AND MESSAGE_TYPE_MASK \<noteq> sz then do {
        w \<leftarrow> skynet_error E context (Some (''The message to '' @ print_x destination @ '' is too large'')) w;
        w \<leftarrow> (if type AND PTYPE_TAG_DONTCOPY \<noteq> 0 then skynet_free data w else Some w);
        Some (w, - 1)
      } else do {
        (w, session, data, sz) \<leftarrow> filter_args context type session data sz w;
        source \<leftarrow> (if source = 0 then ctx_handles w context else Some source);
        if destination = 0 then Some (w, session)
        else do {
          remote \<leftarrow> skynet_harbor_message_isremote destination w;
          if remote then do {
            let (w, rmsg) = skynet_malloc (Remote \<lparr>rm_destination =
                \<lparr>rn_name = replicate GLOBALNAME_LENGTH (CHR 0x00), rn_handle = destination\<rparr>,
                rm_message = data, rm_sz = sz\<rparr>) w;
            w \<leftarrow> skynet_harbor_send rmsg source session w;
            Some (w, session)
          } else do {
            (w, r) \<leftarrow> skynet_context_push E destination
              \<lparr>msg_source = source, msg_session = session, msg_data = data, msg_sz = sz\<rparr> w;
            if r \<noteq> 0 then do { w \<leftarrow> skynet_free data w; Some (w, - 1) } else Some (w, session)
          }
        }
      })"

definition copy_name :: "string \<Rightarrow> string" where
  "copy_name addr = take GLOBALNAME_LENGTH addr @ replicate (GLOBALNAME_LENGTH - length addr) (CHR 0x00)"

definition skynet_sendname ::
  "services \<Rightarrow> ptr \<Rightarrow> u32 \<Rightarrow> string \<Rightarrow> u32 \<Rightarrow> int \<Rightarrow> ptr \<Rightarrow> u64 \<Rightarrow> server \<Rightarrow> (server \<times> int) option" where
  "skynet_sendname E context source addr type session data sz w = do {
     source \<leftarrow> (if source = 0 then ctx_handles w context else Some source);
     if take 1 addr = '':'' then
       skynet_send E context source (ucast (strtoul16 (tl addr))) type session data sz w
     else if take 1 addr = ''.'' then do {
       des \<leftarrow> skynet_handle_findname (tl addr) (sv_H w);
       if des = 0 then do {
         w \<leftarrow> (if type AND PTYPE_TAG_DONTCOPY \<noteq> 0 then skynet_free data w else Some w);
         Some (w, - 1)
       } else skynet_send E context source des type session data sz w
     } else do {
       (w, session, data, sz) \<leftarrow> filter_args context type session data sz w;
       let (w, rmsg) = skynet_malloc (Remote \<lparr>rm_destination = \<lparr>rn_name = copy_name addr, rn_handle = 0\<rparr>,
           rm_message = data, rm_sz = sz\<rparr>) w;
       w \<leftarrow> skynet_harbor_send rmsg source session w;
       Some (w, session)
     }
   }"

definition skynet_timeout :: "services \<Rightarrow> u32 \<Rightarrow> int \<Rightarrow> int \<Rightarrow> server \<Rightarrow> (server \<times> int) option" where
  "skynet_timeout E handle time session w =
     (if time \<le> 0 then do {
        (w, r) \<leftarrow> skynet_context_push E handle (timer_message session) w;
        Some (w, if r \<noteq> 0 then - 1 else session)
      } else do {
        T \<leftarrow> timer_add (sv_TI w) \<lparr>te_handle = handle, te_session = session\<rparr> time;
        Some (w\<lparr>sv_TI := T\<rparr>, session)
      })"

text \<open>The pushes that \<open>dispatch_list\<close> makes for the timers that fired; failures are ignored.\<close>

fun push_all :: "services \<Rightarrow> (u32 \<times> skynet_message) list \<Rightarrow> server \<Rightarrow> server option" where
  "push_all E [] w = Some w"
| "push_all E ((handle, message) # ms) w = do {
     (w, _) \<leftarrow> skynet_context_push E handle message w;
     push_all E ms w
   }"

definition server_updatetime :: "services \<Rightarrow> int \<times> int \<Rightarrow> server \<Rightarrow> server option" where
  "server_updatetime E ti w = do {
     (T, out) \<leftarrow> skynet_updatetime ti (sv_TI w);
     push_all E out (w\<lparr>sv_TI := T\<rparr>)
   }"

section \<open>Dispatching\<close>

definition drop_message :: "services \<Rightarrow> u32 \<Rightarrow> skynet_message \<Rightarrow> server \<Rightarrow> server option" where
  "drop_message E handle msg w = do {
     w \<leftarrow> skynet_free (msg_data msg) w;
     c_assert (handle \<noteq> 0);
     (w, _) \<leftarrow> skynet_send E NULL handle (msg_source msg) PTYPE_ERROR 0 NULL 0 w;
     Some w
   }"

text \<open>The log file output of a message has no effect on the state.\<close>

definition server_dispatch_message :: "services \<Rightarrow> ptr \<Rightarrow> skynet_message \<Rightarrow> server \<Rightarrow> server option" where
  "server_dispatch_message E c msg w = do {
     ctx \<leftarrow> sv_ctx w c;
     c_assert (cx_init ctx);
     let w = w\<lparr>sv_key := cx_handle ctx\<rparr>;
     let type = (ucast (drop_bit MESSAGE_TYPE_SHIFT (msg_sz msg)) :: u32);
     let sz = msg_sz msg AND MESSAGE_TYPE_MASK;
     let ctx = ctx\<lparr>cx_message_count := to_int32 (cx_message_count ctx + 1)\<rparr>;
     let start = (if cx_profile ctx then os_thread_time E w else cx_cpu_start ctx);
     let w = ctx_write c (ctx\<lparr>cx_cpu_start := start\<rparr>) w;
     (w, reserve_msg) \<leftarrow> sf_cb E (cx_cb ctx) c (cx_cb_ud ctx) type (msg_session msg) (msg_source msg) (msg_data msg) sz w;
     w \<leftarrow> (if cx_profile ctx then do {
             ctx \<leftarrow> sv_ctx w c;
             let cost_time = os_thread_time E w - cx_cpu_start ctx;
             Some (ctx_write c (ctx\<lparr>cx_cpu_cost := cx_cpu_cost ctx + cost_time\<rparr>) w)
           } else Some w);
     if reserve_msg = 0 then skynet_free (msg_data msg) w else Some w
   }"

partial_function (option) dispatchall_loop :: "services \<Rightarrow> ptr \<Rightarrow> ptr \<Rightarrow> server \<Rightarrow> server option" where
  "dispatchall_loop E c q w = do {
     (w, msg) \<leftarrow> skynet_mq_pop w q;
     case msg of None \<Rightarrow> Some w
     | Some msg \<Rightarrow> do {
         w \<leftarrow> server_dispatch_message E c msg w;
         dispatchall_loop E c q w
       }
   }"

definition skynet_context_dispatchall :: "services \<Rightarrow> ptr \<Rightarrow> server \<Rightarrow> server option" where
  "skynet_context_dispatchall E c w = do {
     ctx \<leftarrow> sv_ctx w c;
     dispatchall_loop E c (cx_queue ctx) w
   }"

record skynet_monitor =
  mo_version :: int
  mo_check_version :: int
  mo_source :: u32
  mo_destination :: u32

definition skynet_monitor_new :: skynet_monitor where
  "skynet_monitor_new = \<lparr>mo_version = 0, mo_check_version = 0, mo_source = 0, mo_destination = 0\<rparr>"

definition skynet_monitor_trigger :: "skynet_monitor \<Rightarrow> u32 \<Rightarrow> u32 \<Rightarrow> skynet_monitor" where
  "skynet_monitor_trigger sm source destination =
     sm\<lparr>mo_source := source, mo_destination := destination, mo_version := to_int32 (mo_version sm + 1)\<rparr>"

definition print_08x :: "u32 \<Rightarrow> string" where
  "print_08x h = replicate (8 - length (print_x h)) (CHR ''0'') @ print_x h"

definition skynet_monitor_check :: "services \<Rightarrow> skynet_monitor \<Rightarrow> server \<Rightarrow> (server \<times> skynet_monitor) option" where
  "skynet_monitor_check E sm w =
     (if mo_version sm = mo_check_version sm then
        if mo_destination sm \<noteq> 0 then do {
          w \<leftarrow> skynet_context_endless E (mo_destination sm) w;
          w \<leftarrow> skynet_error E NULL (Some (''A message from [ :'' @ print_08x (mo_source sm) @ '' ] to [ :'' @
                 print_08x (mo_destination sm) @ '' ] maybe in an endless loop (version = '' @
                 print_d (mo_version sm) @ '')'')) w;
          Some (w, sm)
        } else Some (w, sm)
      else Some (w, sm\<lparr>mo_check_version := mo_version sm\<rparr>))"

text \<open>
  The loop of \<open>skynet_context_message_dispatch\<close> at round \<open>i\<close> of \<open>n\<close>: \<open>Some q\<close> when it returns
  from inside because the queue is empty, \<open>None\<close> when it ends.
\<close>

partial_function (option) dispatch_rounds ::
  "services \<Rightarrow> ptr \<Rightarrow> ptr \<Rightarrow> u32 \<Rightarrow> int \<Rightarrow> nat \<Rightarrow> nat \<Rightarrow> skynet_monitor \<Rightarrow> server \<Rightarrow>
   (server \<times> skynet_monitor \<times> ptr option) option" where
  "dispatch_rounds E q c handle weight i n sm w =
     (if i < n then do {
        (w, msg) \<leftarrow> skynet_mq_pop w q;
        case msg of
          None \<Rightarrow> do {
            (w, _) \<leftarrow> skynet_context_release E c w;
            (w, nq) \<leftarrow> skynet_globalmq_pop w;
            Some (w, sm, Some nq)
          }
        | Some msg \<Rightarrow> do {
            n \<leftarrow> (if i = 0 \<and> weight \<ge> 0 then do { len \<leftarrow> skynet_mq_length w q; Some (len div 2 ^ nat weight) }
                  else Some n);
            (w, overload) \<leftarrow> skynet_mq_overload w q;
            w \<leftarrow> (if overload \<noteq> 0 then skynet_error E c
                     (Some (''May overload, message queue length = '' @ print_d (int overload))) w
                   else Some w);
            let sm = skynet_monitor_trigger sm (msg_source msg) handle;
            ctx \<leftarrow> sv_ctx w c;
            w \<leftarrow> (if cx_cb ctx = NULL then skynet_free (msg_data msg) w
                   else server_dispatch_message E c msg w);
            dispatch_rounds E q c handle weight (Suc i) n (skynet_monitor_trigger sm 0 0) w
          }
      } else Some (w, sm, None))"

definition skynet_context_message_dispatch ::
  "services \<Rightarrow> skynet_monitor \<Rightarrow> ptr \<Rightarrow> int \<Rightarrow> server \<Rightarrow> (server \<times> skynet_monitor \<times> ptr) option" where
  "skynet_context_message_dispatch E sm q weight w = do {
     (w, q) \<leftarrow> (if q = NULL then skynet_globalmq_pop w else Some (w, q));
     if q = NULL then Some (w, sm, NULL)
     else do {
       handle \<leftarrow> skynet_mq_handle w q;
       (w, c) \<leftarrow> skynet_handle_grab handle w;
       if c = NULL then do {
         w \<leftarrow> skynet_mq_release (drop_message E handle) q w;
         (w, nq) \<leftarrow> skynet_globalmq_pop w;
         Some (w, sm, nq)
       } else do {
         (w, sm, early) \<leftarrow> dispatch_rounds E q c handle weight 0 1 sm w;
         case early of Some nq \<Rightarrow> Some (w, sm, nq)
         | None \<Rightarrow> do {
             ctx \<leftarrow> sv_ctx w c;
             c_assert (q = cx_queue ctx);
             (w, nq) \<leftarrow> skynet_globalmq_pop w;
             (w, q) \<leftarrow> (if nq \<noteq> NULL then do { w \<leftarrow> skynet_globalmq_push w q; Some (w, nq) } else Some (w, q));
             (w, _) \<leftarrow> skynet_context_release E c w;
             Some (w, sm, q)
           }
       }
     }
   }"

section \<open>Launching and killing\<close>

definition skynet_context_new :: "services \<Rightarrow> string \<Rightarrow> string option \<Rightarrow> server \<Rightarrow> (server \<times> ptr) option" where
  "skynet_context_new E name param w = do {
     (M, m) \<leftarrow> skynet_module_query (os_dlopen E) (os_dlsym E) name (sv_M w);
     let w = w\<lparr>sv_M := M\<rparr>;
     case m of None \<Rightarrow> Some (w, NULL)
     | Some m \<Rightarrow> do {
         (w, inst) \<leftarrow> skynet_module_instance_create E m w;
         if inst = NULL then Some (w, NULL)
         else do {
           let c = sv_brk w;
           let ctx = \<lparr>cx_instance = inst, cx_mod = m, cx_cb_ud = NULL, cx_cb = NULL, cx_queue = NULL,
             cx_logfile = NULL, cx_cpu_cost = 0, cx_cpu_start = 0, cx_result = [], cx_handle = 0,
             cx_session_id = 0, cx_ref = 2, cx_message_count = 0, cx_init = False, cx_endless = False,
             cx_profile = nd_profile (sv_node w)\<rparr>;
           let w = (ctx_write c ctx w)\<lparr>sv_brk := sv_brk w + 1\<rparr>;
           (H, handle) \<leftarrow> skynet_handle_register (ctx_handles w) c (sv_H w);
           let queue = sv_brk w;
           let w = w\<lparr>sv_H := H, sv_brk := sv_brk w + 1\<rparr>;
           let w = ctx_write c (ctx\<lparr>cx_handle := handle, cx_queue := queue\<rparr>) (skynet_mq_create handle queue w);
           let w = context_inc w;
           (w, r) \<leftarrow> skynet_module_instance_init E m inst c param w;
           if r = 0 then do {
             (w, ret) \<leftarrow> skynet_context_release E c w;
             w \<leftarrow> (if ret \<noteq> NULL then do { ctx \<leftarrow> sv_ctx w c; Some (ctx_write c (ctx\<lparr>cx_init := True\<rparr>) w) }
                    else Some w);
             w \<leftarrow> skynet_globalmq_push w queue;
             w \<leftarrow> (if ret \<noteq> NULL then skynet_error E ret
                      (Some (''LAUNCH '' @ name @ '' '' @ (case param of None \<Rightarrow> [] | Some p \<Rightarrow> p))) w
                    else Some w);
             Some (w, ret)
           } else do {
             w \<leftarrow> skynet_error E c (Some (''FAILED launch '' @ name)) w;
             handle \<leftarrow> ctx_handles w c;
             (w, _) \<leftarrow> skynet_context_release E c w;
             (w, _) \<leftarrow> skynet_handle_retire E handle w;
             w \<leftarrow> skynet_mq_release (drop_message E handle) queue w;
             Some (w, NULL)
           }
         }
       }
   }"

definition handle_exit :: "services \<Rightarrow> ptr \<Rightarrow> u32 \<Rightarrow> server \<Rightarrow> server option" where
  "handle_exit E context handle w = do {
     target \<leftarrow> (if handle = 0 then ctx_handles w context else Some handle);
     w \<leftarrow> skynet_error E context (Some (if handle = 0 then ''KILL self'' else ''KILL :'' @ print_x handle)) w;
     let handle = target;
     w \<leftarrow> (if nd_monitor_exit (sv_node w) \<noteq> 0 then do {
             (w, _) \<leftarrow> skynet_send E context handle (nd_monitor_exit (sv_node w)) PTYPE_CLIENT 0 NULL 0 w;
             Some w
           } else Some w);
     (w, _) \<leftarrow> skynet_handle_retire E handle w;
     Some w
   }"

section \<open>The node\<close>

definition THREAD_MAIN :: int where
  "THREAD_MAIN = 1"

definition skynet_context_handle :: "ptr \<Rightarrow> server \<Rightarrow> u32 option" where
  "skynet_context_handle c w = ctx_handles w c"

definition skynet_callback :: "ptr \<Rightarrow> ptr \<Rightarrow> ptr \<Rightarrow> server \<Rightarrow> server option" where
  "skynet_callback c ud cb w = do {
     ctx \<leftarrow> sv_ctx w c;
     Some (ctx_write c (ctx\<lparr>cx_cb := cb, cx_cb_ud := ud\<rparr>) w)
   }"

definition skynet_initthread :: "int \<Rightarrow> server \<Rightarrow> server" where
  "skynet_initthread m w = w\<lparr>sv_key := word_of_int (- m)\<rparr>"

definition skynet_globalinit :: "server \<Rightarrow> server" where
  "skynet_globalinit w = skynet_initthread THREAD_MAIN
     (w\<lparr>sv_node := (sv_node w)\<lparr>nd_total := 0, nd_monitor_exit := 0, nd_init := 1\<rparr>\<rparr>)"

definition skynet_current_handle :: "server \<Rightarrow> u32" where
  "skynet_current_handle w = (if nd_init (sv_node w) \<noteq> 0 then sv_key w else word_of_int (- THREAD_MAIN))"

definition skynet_profile_enable :: "int \<Rightarrow> server \<Rightarrow> server" where
  "skynet_profile_enable enable w = w\<lparr>sv_node := (sv_node w)\<lparr>nd_profile := (enable \<noteq> 0)\<rparr>\<rparr>"

section \<open>Sizes carry types\<close>

lemma pack_type:
  assumes "sz AND MESSAGE_TYPE_MASK = sz"
  shows "message_type (sz OR push_bit MESSAGE_TYPE_SHIFT (ucast (type AND 0xff :: u32))) = ucast (type AND 0xff)"
    and "(sz OR push_bit MESSAGE_TYPE_SHIFT (ucast (type AND 0xff :: u32))) AND MESSAGE_TYPE_MASK = sz"
proof -
  have m: "sz AND mask 56 = sz" using assms by (simp add: MESSAGE_TYPE_MASK_eq)
  have ff: "(0xff :: u32) = mask 8" by (simp add: mask_eq_exp_minus_1)
  have hi: "\<not> bit sz n" if "56 \<le> n" for n
  proof -
    have "bit (sz AND mask 56) n \<longleftrightarrow> bit sz n \<and> n < 56" by (auto simp: bit_and_iff bit_mask_iff dest: bit_imp_le_length)
    then show ?thesis using m that by simp
  qed
  show "message_type (sz OR push_bit MESSAGE_TYPE_SHIFT (ucast (type AND 0xff :: u32))) = ucast (type AND 0xff)"
    unfolding message_type_def MESSAGE_TYPE_SHIFT_def ff
    by (rule bit_eqI) (auto simp: bit_simps hi)
  show "(sz OR push_bit MESSAGE_TYPE_SHIFT (ucast (type AND 0xff :: u32))) AND MESSAGE_TYPE_MASK = sz"
    unfolding MESSAGE_TYPE_MASK_eq MESSAGE_TYPE_SHIFT_def ff
    by (rule bit_eqI) (auto simp: bit_simps, metis hi not_le)
qed

section \<open>What sending does\<close>

definition needs_copy :: "u32 \<Rightarrow> ptr \<Rightarrow> bool" where
  "needs_copy type data \<longleftrightarrow> type AND PTYPE_TAG_DONTCOPY = 0 \<and> data \<noteq> NULL"

definition allocs_session :: "u32 \<Rightarrow> bool" where
  "allocs_session type \<longleftrightarrow> type AND PTYPE_TAG_ALLOCSESSION \<noteq> 0"

lemma newsession_inv:
  assumes inv: "server_inv w xs" and c: "sv_ctx w c = Some ctx"
  shows "\<exists>w' s. skynet_context_newsession c w = Some (w', s) \<and> 0 < s \<and> server_inv w' xs \<and>
    sv_heap w' = sv_heap w \<and> sv_brk w' = sv_brk w \<and> ctx_pending w' = ctx_pending w \<and>
    ctx_handles w' = ctx_handles w \<and> sv_H w' = sv_H w \<and> sv_HARBOR w' = sv_HARBOR w"
proof -
  obtain s where s: "skynet_context_newsession c w = Some (ctx_write c (ctx\<lparr>cx_session_id := s\<rparr>) w, s)" "0 < s"
    using newsession_ok[OF c] by blast
  let ?w = "ctx_write c (ctx\<lparr>cx_session_id := s\<rparr>) w"
  have ch: "ctx_handles ?w = ctx_handles w" using c by (auto simp: ctx_handles_def fun_eq_iff)
  have mq: "mq_cores ?w = mq_cores w" "gq_rep ?w xs = gq_rep w xs" by simp_all
  have src: "\<exists>y. sv_ctx w d = Some y \<and> cx_queue y = cx_queue x \<and> cx_ref y = cx_ref x"
    if "sv_ctx ?w d = Some x" for d x using that c by (auto split: if_splits)
  have ok: "ctx_ok ?w xs d x" if dx: "sv_ctx ?w d = Some x" for d x
  proof -
    obtain y where y: "sv_ctx w d = Some y" "cx_queue y = cx_queue x" "cx_ref y = cx_ref x" using src[OF dx] by blast
    then have "ctx_ok w xs d y" using inv unfolding server_inv_def by blast
    then show ?thesis unfolding ctx_ok_def mq(1) y(2,3)[symmetric] by simp
  qed
  have dist: "d = e" if "sv_ctx ?w d = Some x" "sv_ctx ?w e = Some y" "cx_queue x = cx_queue y" for d e x y
    using src[OF that(1)] src[OF that(2)] that(3) inv unfolding server_inv_def by metis
  have fld: "sv_heap ?w = sv_heap w" "sv_brk ?w = sv_brk w" "sv_H ?w = sv_H w" "sv_HARBOR ?w = sv_HARBOR w" by simp_all
  have "server_inv ?w xs" using inv ok dist unfolding server_inv_def mq ch fld by blast
  moreover have "ctx_pending ?w = ctx_pending w"
    using c by (auto simp: ctx_pending_def fun_eq_iff split: option.split)
  ultimately show ?thesis using s ch by auto
qed

text \<open>
  \<open>_filter_args\<close> keeps the node well formed, packs the type into the size, and hands on
  either the caller's block or a private copy of it.
\<close>

lemma filter_args_ok:
  assumes inv: "server_inv w xs" and fits: "sz AND MESSAGE_TYPE_MASK = sz"
    and alloc: "allocs_session type \<Longrightarrow> session = 0 \<and> sv_ctx w context \<noteq> None"
    and copy: "needs_copy type data \<Longrightarrow> read_bytes data sz w = Some bs"
  shows "\<exists>w' s d. filter_args context type session data sz w =
      Some (w', s, d, sz OR push_bit MESSAGE_TYPE_SHIFT (ucast (type AND 0xff))) \<and> server_inv w' xs \<and>
    (if allocs_session type then 0 < s else s = session) \<and>
    (if needs_copy type data then d \<noteq> NULL \<and> sv_heap w d = None \<and> sv_heap w' = (sv_heap w)(d \<mapsto> Bytes (bs @ [0]))
     else d = data \<and> sv_heap w' = sv_heap w) \<and>
    ctx_pending w' = ctx_pending w \<and> ctx_handles w' = ctx_handles w \<and> sv_H w' = sv_H w \<and> sv_HARBOR w' = sv_HARBOR w"
proof -
  obtain w1 s where 1: "(if allocs_session type then do { c_assert (session = 0); skynet_context_newsession context w }
      else Some (w, session)) = Some (w1, s)" "server_inv w1 xs"
    "if allocs_session type then 0 < s else s = session"
    "sv_heap w1 = sv_heap w" "ctx_pending w1 = ctx_pending w" "ctx_handles w1 = ctx_handles w" "sv_H w1 = sv_H w"
    "sv_HARBOR w1 = sv_HARBOR w"
  proof (cases "allocs_session type")
    case True
    then obtain ctx where "sv_ctx w context = Some ctx" "session = 0" using alloc by auto
    then show ?thesis using newsession_inv[OF inv] that True by fastforce
  next
    case False
    then show ?thesis using that[of w session] inv by simp
  qed
  have eq: "filter_args context type session data sz w = do {
     (w, data) \<leftarrow> (if needs_copy type data then do { b \<leftarrow> copy_block data sz w1; Some (skynet_malloc b w1) }
                    else Some (w1, data));
     Some (w, s, data, sz OR push_bit MESSAGE_TYPE_SHIFT (ucast (type AND 0xff))) }"
    using 1(1) by (simp add: filter_args_def allocs_session_def needs_copy_def)
  show ?thesis
  proof (cases "needs_copy type data")
    case True
    then have "read_bytes data sz w1 = Some bs" using copy 1(4) by (simp add: read_bytes_def)
    then have rd: "copy_block data sz w1 = Some (Bytes (bs @ [0]))" by (rule copy_block_bytes)
    obtain w2 d where m: "skynet_malloc (Bytes (bs @ [0])) w1 = (w2, d)" by fastforce
    show ?thesis unfolding eq using True rd m skynet_malloc_inv[OF 1(2) m] 1(3-) by simp
  next
    case False
    then show ?thesis unfolding eq using 1(2-) by simp
  qed
qed

text \<open>The arguments with which a service may call \<open>skynet_send\<close>.\<close>

definition send_args_ok :: "server \<Rightarrow> ptr \<Rightarrow> u32 \<Rightarrow> u32 \<Rightarrow> int \<Rightarrow> ptr \<Rightarrow> u64 \<Rightarrow> u8 list \<Rightarrow> bool" where
  "send_args_ok w context source type session data sz bs \<longleftrightarrow>
     sz AND MESSAGE_TYPE_MASK = sz \<and> (source = 0 \<longrightarrow> sv_ctx w context \<noteq> None) \<and>
     (allocs_session type \<longrightarrow> session = 0 \<and> sv_ctx w context \<noteq> None) \<and>
     (needs_copy type data \<longrightarrow> read_bytes data sz w = Some bs) \<and>
     (\<not> needs_copy type data \<longrightarrow> data = NULL \<or> sv_heap w data \<noteq> None)"

definition effective_source :: "server \<Rightarrow> ptr \<Rightarrow> u32 \<Rightarrow> u32" where
  "effective_source w context source = (if source = 0 then the (ctx_handles w context) else source)"

lemma send_local_step:
  assumes inv: "server_inv w xs" and ok: "send_args_ok w context source type session data sz bs"
    and dst: "destination \<noteq> 0" "skynet_harbor_message_isremote destination w = Some False"
  obtains w1 s d where "skynet_send E context source destination type session data sz w =
      do { (w, r) \<leftarrow> skynet_context_push E destination \<lparr>msg_source = effective_source w context source, msg_session = s,
             msg_data = d, msg_sz = sz OR push_bit MESSAGE_TYPE_SHIFT (ucast (type AND 0xff))\<rparr> w1;
           if r \<noteq> 0 then do { w \<leftarrow> skynet_free d w; Some (w, - 1) } else Some (w, s) }"
    "server_inv w1 xs" "if allocs_session type then 0 < s else s = session"
    "if needs_copy type data then d \<noteq> NULL \<and> sv_heap w d = None \<and> sv_heap w1 = (sv_heap w)(d \<mapsto> Bytes (bs @ [0]))
     else d = data \<and> sv_heap w1 = sv_heap w"
    "ctx_pending w1 = ctx_pending w" "ctx_handles w1 = ctx_handles w" "sv_H w1 = sv_H w"
proof -
  obtain w1 s d where f: "filter_args context type session data sz w =
      Some (w1, s, d, sz OR push_bit MESSAGE_TYPE_SHIFT (ucast (type AND 0xff)))" "server_inv w1 xs"
    "if allocs_session type then 0 < s else s = session"
    "if needs_copy type data then d \<noteq> NULL \<and> sv_heap w d = None \<and> sv_heap w1 = (sv_heap w)(d \<mapsto> Bytes (bs @ [0]))
     else d = data \<and> sv_heap w1 = sv_heap w"
    "ctx_pending w1 = ctx_pending w" "ctx_handles w1 = ctx_handles w" "sv_H w1 = sv_H w" "sv_HARBOR w1 = sv_HARBOR w"
    using filter_args_ok[OF inv, of sz type session "context" data bs] ok unfolding send_args_ok_def by auto
  have src: "(if source = 0 then ctx_handles w1 context else Some source) = Some (effective_source w context source)"
    using ok f(6) by (auto simp: send_args_ok_def effective_source_def ctx_handles_def)
  have "skynet_harbor_message_isremote destination w1 = Some False"
    using dst(2) f(8) by (simp add: skynet_harbor_message_isremote_def)
  moreover have "sz AND MESSAGE_TYPE_MASK = sz" using ok by (simp add: send_args_ok_def)
  ultimately show ?thesis
    using that[of s d w1] f(1-7) src dst(1) by (simp add: skynet_send_def)
qed

text \<open>
  C6: sending to a live local service appends exactly one message to its queue, with the type and
  the size packed into one word, the effective source, and the session that is returned; the payload
  is a fresh copy with a terminating NUL, or the caller's own block when it asked not to copy. No
  other queue changes.
\<close>

theorem send_local_delivers:
  assumes inv: "server_inv w xs" and ok: "send_args_ok w context source type session data sz bs"
    and dst: "destination \<noteq> 0" "skynet_harbor_message_isremote destination w = Some False"
    and c: "handle_lookup (ctx_handles w, sv_H w) destination = Some c"
  shows "\<exists>w' s m ys. skynet_send E context source destination type session data sz w = Some (w', s) \<and>
    server_inv w' ys \<and> ctx_pending w' = (ctx_pending w)(c := ctx_pending w c @ [m]) \<and>
    message_type (msg_sz m) = ucast (type AND 0xff) \<and> msg_sz m AND MESSAGE_TYPE_MASK = sz \<and>
    msg_source m = effective_source w context source \<and> msg_session m = s \<and>
    (if allocs_session type then 0 < s else s = session) \<and>
    (if needs_copy type data
     then sv_heap w (msg_data m) = None \<and> sv_heap w' = (sv_heap w)(msg_data m \<mapsto> Bytes (bs @ [0]))
     else msg_data m = data \<and> sv_heap w' = sv_heap w)"
proof -
  obtain w1 s d where f: "skynet_send E context source destination type session data sz w =
      do { (w, r) \<leftarrow> skynet_context_push E destination \<lparr>msg_source = effective_source w context source, msg_session = s,
             msg_data = d, msg_sz = sz OR push_bit MESSAGE_TYPE_SHIFT (ucast (type AND 0xff))\<rparr> w1;
           if r \<noteq> 0 then do { w \<leftarrow> skynet_free d w; Some (w, - 1) } else Some (w, s) }"
    "server_inv w1 xs" "if allocs_session type then 0 < s else s = session"
    "if needs_copy type data then d \<noteq> NULL \<and> sv_heap w d = None \<and> sv_heap w1 = (sv_heap w)(d \<mapsto> Bytes (bs @ [0]))
     else d = data \<and> sv_heap w1 = sv_heap w"
    "ctx_pending w1 = ctx_pending w" "ctx_handles w1 = ctx_handles w" "sv_H w1 = sv_H w"
    by (rule send_local_step[OF inv ok dst])
  let ?m = "\<lparr>msg_source = effective_source w context source, msg_session = s,
     msg_data = d, msg_sz = sz OR push_bit MESSAGE_TYPE_SHIFT (ucast (type AND 0xff))\<rparr>"
  obtain w2 ys where p: "skynet_context_push E destination ?m w1 = Some (w2, 0)" "server_inv w2 ys"
    "ctx_pending w2 = (ctx_pending w1)(c := ctx_pending w1 c @ [?m])" "mq_world.more w2 = mq_world.more w1"
    using context_push_ok[OF f(2), of destination c E ?m] c f(6,7) by auto
  have fits: "sz AND MESSAGE_TYPE_MASK = sz" using ok by (simp add: send_args_ok_def)
  show ?thesis
    using f p server_more(2)[OF p(4)] pack_type[OF fits]
    by (intro exI[of _ w2] exI[of _ s] exI[of _ ?m] exI[of _ ys]) simp
qed

text \<open>A message to a handle that is gone is refused and its data is freed, a copy included.\<close>

text \<open>
  C26: sending to a handle that names no service of this node returns - 1, changes no queue, and
  frees the copy (or the block the caller gave away), so nothing leaks.
\<close>

theorem send_local_refused:
  assumes inv: "server_inv w xs" and ok: "send_args_ok w context source type session data sz bs"
    and dst: "destination \<noteq> 0" "skynet_harbor_message_isremote destination w = Some False"
    and c: "handle_lookup (ctx_handles w, sv_H w) destination = None"
  shows "\<exists>w'. skynet_send E context source destination type session data sz w = Some (w', - 1) \<and>
    server_inv w' xs \<and> ctx_pending w' = ctx_pending w \<and>
    sv_heap w' = (if needs_copy type data then sv_heap w else (sv_heap w)(data := None))"
proof -
  obtain w1 s d where f: "skynet_send E context source destination type session data sz w =
      do { (w, r) \<leftarrow> skynet_context_push E destination \<lparr>msg_source = effective_source w context source, msg_session = s,
             msg_data = d, msg_sz = sz OR push_bit MESSAGE_TYPE_SHIFT (ucast (type AND 0xff))\<rparr> w1;
           if r \<noteq> 0 then do { w \<leftarrow> skynet_free d w; Some (w, - 1) } else Some (w, s) }"
    "server_inv w1 xs"
    "if needs_copy type data then d \<noteq> NULL \<and> sv_heap w d = None \<and> sv_heap w1 = (sv_heap w)(d \<mapsto> Bytes (bs @ [0]))
     else d = data \<and> sv_heap w1 = sv_heap w"
    "ctx_pending w1 = ctx_pending w" "ctx_handles w1 = ctx_handles w" "sv_H w1 = sv_H w"
    by (rule send_local_step[OF inv ok dst])
  have push: "skynet_context_push E destination m w1 = Some (w1, - 1)" for m
    using context_push_none[OF f(2)] c f(5,6) by simp
  have "d = NULL \<or> sv_heap w1 d \<noteq> None"
    using f(3) ok by (auto simp: send_args_ok_def split: if_splits)
  then obtain w2 where w2: "skynet_free d w1 = Some w2" "server_inv w2 xs" "sv_heap w2 = (sv_heap w1)(d := None)"
    "ctx_pending w2 = ctx_pending w1"
    using skynet_free_inv[OF f(2), of d] by blast
  have "skynet_send E context source destination type session data sz w = Some (w2, - 1)"
    unfolding f(1) push using w2(1) by simp
  moreover have "sv_heap w2 = (if needs_copy type data then sv_heap w else (sv_heap w)(data := None))"
    using f(3) w2(3) by (auto simp: fun_upd_idem split: if_splits)
  ultimately show ?thesis using w2 f(4) by simp
qed

text \<open>
  A payload of 2 ^ 56 bytes or more, whose size would collide with the type tag, is refused
  with - 1; the block is freed when the caller gave it away.
\<close>

lemma send_too_large:
  assumes "sz AND MESSAGE_TYPE_MASK \<noteq> sz" "sv_logger w = 0" "skynet_handle_findname ''logger'' (sv_H w) = Some 0"
    "type AND PTYPE_TAG_DONTCOPY \<noteq> 0 \<Longrightarrow> data = NULL \<or> sv_heap w data \<noteq> None"
    "server_inv w xs"
  shows "\<exists>w'. skynet_send E context source destination type session data sz w = Some (w', - 1) \<and>
    ctx_pending w' = ctx_pending w \<and>
    sv_heap w' = (if type AND PTYPE_TAG_DONTCOPY \<noteq> 0 then (sv_heap w)(data := None) else sv_heap w)"
proof -
  have "w\<lparr>sv_logger := 0\<rparr> = w" using assms(2) by simp
  then have "skynet_error E context msg w = Some w" for msg
    using assms(2,3) by (simp add: skynet_error_def)
  then show ?thesis using assms(1) skynet_free_inv[OF assms(5) assms(4)]
    by (cases "type AND PTYPE_TAG_DONTCOPY = 0") (auto simp: skynet_send_def)
qed

section \<open>Dropping the messages of a dead service\<close>

definition error_message :: "u32 \<Rightarrow> skynet_message" where
  "error_message h = \<lparr>msg_source = h, msg_session = 0, msg_data = NULL,
     msg_sz = push_bit MESSAGE_TYPE_SHIFT (ucast PTYPE_ERROR)\<rparr>"

text \<open>The reports that the senders of the dropped messages get.\<close>

definition report_one :: "server \<Rightarrow> u32 \<Rightarrow> skynet_message \<Rightarrow> (ptr \<Rightarrow> skynet_message list) \<Rightarrow> ptr \<Rightarrow> skynet_message list" where
  "report_one w h m P = (if msg_source m = 0 then P else
     case handle_lookup (ctx_handles w, sv_H w) (msg_source m) of
       None \<Rightarrow> P | Some c \<Rightarrow> P(c := P c @ [error_message h]))"

lemma send_error_eq:
  assumes "h \<noteq> 0"
  shows "skynet_send E NULL h dst PTYPE_ERROR 0 NULL 0 w =
    (if dst = 0 then Some (w, 0) else do {
       remote \<leftarrow> skynet_harbor_message_isremote dst w;
       if remote then do {
         let (w, rmsg) = skynet_malloc (Remote \<lparr>rm_destination =
             \<lparr>rn_name = replicate GLOBALNAME_LENGTH (CHR 0x00), rn_handle = dst\<rparr>,
             rm_message = NULL, rm_sz = push_bit MESSAGE_TYPE_SHIFT (ucast PTYPE_ERROR)\<rparr>) w;
         w \<leftarrow> skynet_harbor_send rmsg h 0 w;
         Some (w, 0)
       } else do {
         (w, r) \<leftarrow> skynet_context_push E dst (error_message h) w;
         if r \<noteq> 0 then Some (w, - 1) else Some (w, 0)
       } })"
proof -
  have "PTYPE_ERROR AND PTYPE_TAG_DONTCOPY = 0" "PTYPE_ERROR AND PTYPE_TAG_ALLOCSESSION = 0"
    "PTYPE_ERROR AND 0xff = PTYPE_ERROR"
    by (simp_all add: PTYPE_ERROR_def PTYPE_TAG_DONTCOPY_def PTYPE_TAG_ALLOCSESSION_def)
  then show ?thesis using assms
    by (simp add: skynet_send_def filter_args_def error_message_def skynet_free_def cong: if_cong)
qed

definition foreign_queue :: "server \<Rightarrow> ptr \<Rightarrow> bool" where
  "foreign_queue w p \<longleftrightarrow> (\<forall>c ctx. sv_ctx w c = Some ctx \<longrightarrow> cx_queue ctx \<noteq> p)"

lemma drop_message_ok:
  assumes inv: "server_inv w xs" and h: "h \<noteq> 0"
    and p: "p \<notin> set xs" "foreign_queue w p"
    and src: "msg_source m \<noteq> 0 \<Longrightarrow> skynet_harbor_message_isremote (msg_source m) w = Some False"
    and data: "msg_data m = NULL \<or> sv_heap w (msg_data m) \<noteq> None"
  shows "\<exists>w' ys. drop_message E h m w = Some w' \<and> server_inv w' ys \<and> p \<notin> set ys \<and>
    sv_ctx w' = sv_ctx w \<and> sv_H w' = sv_H w \<and> sv_HARBOR w' = sv_HARBOR w \<and> mq_cores w' p = mq_cores w p \<and>
    sv_heap w' = (sv_heap w)(msg_data m := None) \<and> ctx_pending w' = report_one w h m (ctx_pending w)"
proof -
  obtain w1 where w1: "skynet_free (msg_data m) w = Some w1" "server_inv w1 xs"
    "sv_heap w1 = (sv_heap w)(msg_data m := None)" "ctx_pending w1 = ctx_pending w" "sv_ctx w1 = sv_ctx w"
    using skynet_free_inv[OF inv data] by blast
  have fld: "sv_H w1 = sv_H w" "sv_HARBOR w1 = sv_HARBOR w" "mq_cores w1 = mq_cores w" "ctx_handles w1 = ctx_handles w"
    using w1(1) by (auto simp: skynet_free_def ctx_handles_def mq_cores_def split: if_splits option.splits)
  have drop: "drop_message E h m w = do { (w, _) \<leftarrow> skynet_send E NULL h (msg_source m) PTYPE_ERROR 0 NULL 0 w1; Some w }"
    using w1(1) h by (simp add: drop_message_def)
  show ?thesis
  proof (cases "msg_source m = 0")
    case True
    then have "drop_message E h m w = Some w1" unfolding drop by (simp add: send_error_eq[OF h])
    then show ?thesis using w1 fld p(1) True by (auto simp: report_one_def)
  next
    case False
    then have rem: "skynet_harbor_message_isremote (msg_source m) w1 = Some False"
      using src fld(2) by (simp add: skynet_harbor_message_isremote_def)
    show ?thesis
    proof (cases "handle_lookup (ctx_handles w, sv_H w) (msg_source m)")
      case None
      then have "skynet_context_push E (msg_source m) (error_message h) w1 = Some (w1, - 1)"
        using context_push_none[OF w1(2)] fld by simp
      then have "drop_message E h m w = Some w1" unfolding drop using False rem by (simp add: send_error_eq[OF h])
      then show ?thesis using w1 fld p(1) False None by (auto simp: report_one_def)
    next
      case (Some c)
      then obtain w2 ys ctx where w2: "skynet_context_push E (msg_source m) (error_message h) w1 = Some (w2, 0)"
        "server_inv w2 ys" "ctx_pending w2 = (ctx_pending w1)(c := ctx_pending w1 c @ [error_message h])"
        "mq_world.more w2 = mq_world.more w1" "sv_ctx w1 c = Some ctx" "set ys \<subseteq> insert (cx_queue ctx) (set xs)"
        "\<forall>p. p \<noteq> cx_queue ctx \<longrightarrow> mq_cores w2 p = mq_cores w1 p"
        using context_push_ok[OF w1(2), of "msg_source m" c E "error_message h"] fld by auto
      note m2 = server_more[OF w2(4)]
      have "cx_queue ctx \<noteq> p" using p(2) w2(5) w1(5) by (auto simp: foreign_queue_def)
      then have "p \<notin> set ys" "mq_cores w2 p = mq_cores w p" using w2(6,7) p(1) fld(3) by auto
      moreover have "drop_message E h m w = Some w2" unfolding drop using False rem w2(1) by (simp add: send_error_eq[OF h])
      moreover have "ctx_pending w2 = report_one w h m (ctx_pending w)" using w2(3) w1(4) False Some by (simp add: report_one_def)
      ultimately show ?thesis using w2(2) m2 w1 fld by auto
    qed
  qed
qed

lemma server_inv_foreign:
  assumes inv: "server_inv w xs" and more: "mq_world.more w' = mq_world.more w" and g: "gq_rep w' xs"
    and cores: "\<And>r. r \<noteq> p \<Longrightarrow> mq_cores w' r = mq_cores w r"
    and p: "foreign_queue w p"
  shows "server_inv w' xs" "ctx_pending w' = ctx_pending w"
proof -
  note m = server_more[OF more]
  have "ctx_ok w' xs c ctx" if "sv_ctx w c = Some ctx" for c ctx
  proof -
    have "ctx_ok w xs c ctx" using inv that unfolding server_inv_def by blast
    moreover have "mq_cores w' (cx_queue ctx) = mq_cores w (cx_queue ctx)" using cores p that by (auto simp: foreign_queue_def)
    ultimately show ?thesis unfolding ctx_ok_def m by simp
  qed
  moreover have "ctx_handles w' = ctx_handles w" by (simp add: ctx_handles_def m)
  ultimately show "server_inv w' xs" using inv g unfolding server_inv_def m by simp
  show "ctx_pending w' = ctx_pending w"
    using cores p by (auto simp: ctx_pending_def m fun_eq_iff foreign_queue_def split: option.splits)
qed

fun data_freeable :: "(ptr \<Rightarrow> block option) \<Rightarrow> skynet_message list \<Rightarrow> bool" where
  "data_freeable hp [] = True"
| "data_freeable hp (m # ms) =
     ((msg_data m = NULL \<or> hp (msg_data m) \<noteq> None) \<and> data_freeable (hp(msg_data m := None)) ms)"

fun freed :: "skynet_message list \<Rightarrow> (ptr \<Rightarrow> block option) \<Rightarrow> ptr \<Rightarrow> block option" where
  "freed [] hp = hp"
| "freed (m # ms) hp = freed ms (hp(msg_data m := None))"

definition sources_local :: "server \<Rightarrow> skynet_message list \<Rightarrow> bool" where
  "sources_local w ms \<longleftrightarrow> (\<forall>m\<in>set ms. msg_source m \<noteq> 0 \<longrightarrow>
     skynet_harbor_message_isremote (msg_source m) w = Some False)"

lemma drop_loop_reports:
  assumes "server_inv w xs" "h \<noteq> 0" "p \<notin> set xs" "foreign_queue w p"
    and "mq_cores w p = Some q" "mq_rep q ms" "sources_local w ms" "data_freeable (sv_heap w) ms"
  shows "\<exists>w' ys q'. drop_loop (drop_message E h) p w = Some w' \<and> server_inv w' ys \<and> p \<notin> set ys \<and>
    mq_cores w' p = Some q' \<and> sv_ctx w' = sv_ctx w \<and>
    sv_heap w' = freed ms (sv_heap w) \<and>
    ctx_pending w' = fold (report_one w h) ms (ctx_pending w)"
  using assms
proof (induction ms arbitrary: w xs q)
  case Nil
  have g: "gq_rep w xs" using Nil.prems(1) by (simp add: server_inv_def)
  obtain w1 q1 where 1: "skynet_mq_pop w p = Some (w1, None)" "gq_rep w1 xs" "mq_cores w1 = (mq_cores w)(p \<mapsto> q1)"
    "mq_world.more w1 = mq_world.more w"
    using skynet_mq_pop_spec[OF g Nil.prems(5,6)] by auto
  have s: "server_inv w1 xs" "ctx_pending w1 = ctx_pending w"
    using server_inv_foreign[OF Nil.prems(1) 1(4,2), of p] 1(3) Nil.prems(4) by auto
  have "drop_loop (drop_message E h) p w = Some w1" using 1(1) by (simp add: drop_loop.simps)
  then show ?case using s 1(3) Nil.prems(3) server_more[OF 1(4)] by auto
next
  case (Cons m ms)
  have g: "gq_rep w xs" using Cons.prems(1) by (simp add: server_inv_def)
  obtain w1 q1 where 1: "skynet_mq_pop w p = Some (w1, Some m)" "gq_rep w1 xs" "mq_cores w1 = (mq_cores w)(p \<mapsto> q1)"
    "mq_rep q1 ms" "mq_world.more w1 = mq_world.more w"
    using skynet_mq_pop_spec[OF g Cons.prems(5,6)] by auto
  note m1 = server_more[OF 1(5)]
  have s1: "server_inv w1 xs" "ctx_pending w1 = ctx_pending w"
    using server_inv_foreign[OF Cons.prems(1) 1(5,2), of p] 1(3) Cons.prems(4) by auto
  have p1: "foreign_queue w1 p" using Cons.prems(4) m1 by (simp add: foreign_queue_def)
  have "msg_source m \<noteq> 0 \<Longrightarrow> skynet_harbor_message_isremote (msg_source m) w1 = Some False"
    using Cons.prems(7) m1 by (simp add: sources_local_def skynet_harbor_message_isremote_def)
  moreover have "msg_data m = NULL \<or> sv_heap w1 (msg_data m) \<noteq> None" using Cons.prems(8) m1 by simp
  ultimately obtain w2 ys where 2: "drop_message E h m w1 = Some w2" "server_inv w2 ys" "p \<notin> set ys"
    "sv_ctx w2 = sv_ctx w" "sv_H w2 = sv_H w" "sv_HARBOR w2 = sv_HARBOR w" "mq_cores w2 p = Some q1"
    "sv_heap w2 = (sv_heap w)(msg_data m := None)" "ctx_pending w2 = report_one w1 h m (ctx_pending w1)"
    using drop_message_ok[OF s1(1) Cons.prems(2,3) p1, of m E] 1(3) m1 by auto
  have rep: "report_one w1 h = report_one w h" "report_one w2 h = report_one w h"
    using m1 2(4,5) by (auto simp: report_one_def ctx_handles_def fun_eq_iff)
  have sl: "sources_local w2 ms" using Cons.prems(7) 2(6)
    by (simp add: sources_local_def skynet_harbor_message_isremote_def)
  have fq: "foreign_queue w2 p" using Cons.prems(4) 2(4) by (simp add: foreign_queue_def)
  have df: "data_freeable (sv_heap w2) ms" using Cons.prems(8) 2(8) by simp
  obtain w' zs q' where "drop_loop (drop_message E h) p w2 = Some w'" "server_inv w' zs" "p \<notin> set zs"
    "mq_cores w' p = Some q'" "sv_ctx w' = sv_ctx w2"
    "sv_heap w' = freed ms (sv_heap w2)"
    "ctx_pending w' = fold (report_one w2 h) ms (ctx_pending w2)"
    using Cons.IH[OF 2(2) Cons.prems(2) 2(3) fq 2(7) 1(4) sl df] by blast
  then show ?case using 1(1) 2(1,4,8,9) rep s1(2)
    by (intro exI[of _ w'] exI[of _ zs] exI[of _ q']) (simp add: drop_loop.simps[of _ _ w])
qed

text \<open>
  Releasing the queue of a dead service frees every message in it and sends one error
  message per message back to each sender that is still there.
\<close>


section \<open>Dispatching decodes what sending packed\<close>


section \<open>The watchdog\<close>

text \<open>
  Two checks with no message in between raise the alarm exactly when the worker is inside a
  callback: the service is marked endless.
\<close>

lemma monitor_idle_silent:
  "skynet_monitor_check E (skynet_monitor_trigger sm 0 0) w =
   Some (w, (skynet_monitor_trigger sm 0 0)\<lparr>mo_check_version := to_int32 (mo_version sm + 1)\<rparr>) \<or>
   skynet_monitor_check E (skynet_monitor_trigger sm 0 0) w = Some (w, skynet_monitor_trigger sm 0 0)"
  by (simp add: skynet_monitor_check_def skynet_monitor_trigger_def)


section \<open>Retiring a handle\<close>

lemma hs_inv_forget: "hs_inv ch s \<Longrightarrow> c \<notin> set (hs_slot s) \<Longrightarrow> hs_inv (ch(c := x)) s"
proof -
  assume inv: "hs_inv ch s" and c: "c \<notin> set (hs_slot s)"
  then have "\<forall>i<hs_slot_size s. hs_slot s ! i \<noteq> c" by (metis hs_inv_def nth_mem)
  then show ?thesis using inv by (simp add: hs_inv_def)
qed

lemma retired_slots:
  assumes inv: "hs_inv ch s" and c: "ch c = Some h"
  shows "c = NULL \<or> c \<notin> set ((hs_slot s)[slot_hash h (hs_slot_size s) := NULL])"
proof (rule ccontr)
  let ?j = "slot_hash h (hs_slot_size s)"
  assume "\<not> ?thesis"
  then obtain i where i: "i < length (hs_slot s)" "(hs_slot s)[?j := NULL] ! i = c" "c \<noteq> NULL"
    by (auto simp: in_set_conv_nth)
  then have "i \<noteq> ?j" by (metis nth_list_update_eq)
  then have "hs_slot s ! i = c" using i(2) by simp
  then show False using hs_inv_nth[OF inv, of i] i c \<open>i \<noteq> ?j\<close> inv by (auto simp: hs_inv_def)
qed

text \<open>
  Killing a service nobody else refers to: the handle and its names are gone, the context is
  freed, and its queue waits in the global list, flagged for release.
\<close>


end
