(* ===== verification/Command.thy ===== *)
theory Command
  imports Server
begin

text \<open>
  The text commands of \<^verbatim>\<open>skynet-src/skynet_server.c\<close> (\<open>skynet_command\<close> and the
  \<open>cmd_\<close> functions) and the log files of \<^verbatim>\<open>skynet-src/skynet_log.c\<close>. A command takes the
  calling context and a parameter string or \<open>NULL\<close>; its result is a string or \<open>NULL\<close>. The
  results that the code prints into \<open>context->result\<close> (32 bytes) are kept there too.
\<close>

section \<open>Helpers\<close>

definition set_result :: "ptr \<Rightarrow> string \<Rightarrow> server \<Rightarrow> (server \<times> string option) option" where
  "set_result c s w = do {
     ctx \<leftarrow> sv_ctx w c;
     c_assert (length s < 32);
     Some (ctx_write c (ctx\<lparr>cx_result := s\<rparr>) w, Some s)
   }"

definition id_to_hex :: "u32 \<Rightarrow> string" where
  "id_to_hex h = CHR '':'' # map (\<lambda>i. upper_digit (unat (drop_bit ((7 - i) * 4) h AND 0xf))) [0..<8]"

definition skynet_queryname :: "services \<Rightarrow> ptr \<Rightarrow> string \<Rightarrow> server \<Rightarrow> (server \<times> u32) option" where
  "skynet_queryname E context name w =
     (if take 1 name = '':'' then Some (w, ucast (strtoul16 (tl name)))
      else if take 1 name = ''.'' then do { h \<leftarrow> skynet_handle_findname (tl name) (sv_H w); Some (w, h) }
      else do {
        w \<leftarrow> skynet_error E context (Some (''Don't support query global name '' @ name)) w;
        Some (w, 0)
      })"

definition tohandle :: "services \<Rightarrow> ptr \<Rightarrow> string \<Rightarrow> server \<Rightarrow> (server \<times> u32) option" where
  "tohandle E context param w =
     (if take 1 param = '':'' then Some (w, ucast (strtoul16 (tl param)))
      else if take 1 param = ''.'' then do { h \<leftarrow> skynet_handle_findname (tl param) (sv_H w); Some (w, h) }
      else do {
        w \<leftarrow> skynet_error E context (Some (''Can't convert '' @ param @ '' to handle'')) w;
        Some (w, 0)
      })"

section \<open>Log files\<close>

definition skynet_log_open :: "services \<Rightarrow> ptr \<Rightarrow> u32 \<Rightarrow> server \<Rightarrow> (server \<times> ptr) option" where
  "skynet_log_open E context handle w = (case skynet_getenv (sv_E w) ''logpath'' of
     None \<Rightarrow> Some (w, NULL)
   | Some logpath \<Rightarrow> do {
       let tmp = logpath @ ''/'' @ print_08x handle @ ''.log'';
       let f = os_fopen E tmp w;
       if f \<noteq> NULL then do {
         w \<leftarrow> skynet_error E context (Some (''Open log file '' @ tmp)) (w\<lparr>sv_files := insert f (sv_files w)\<rparr>);
         Some (w, f)
       } else do {
         w \<leftarrow> skynet_error E context (Some (''Open log file '' @ tmp @ '' fail'')) w;
         Some (w, NULL)
       }
     })"

definition skynet_log_close :: "services \<Rightarrow> ptr \<Rightarrow> ptr \<Rightarrow> u32 \<Rightarrow> server \<Rightarrow> server option" where
  "skynet_log_close E context f handle w = do {
     w \<leftarrow> skynet_error E context (Some (''Close log file :'' @ print_08x handle)) w;
     fclose f w
   }"

section \<open>Commands\<close>

type_synonym command = "services \<Rightarrow> ptr \<Rightarrow> string option \<Rightarrow> server \<Rightarrow> (server \<times> string option) option"

definition cmd_timeout :: command where
  "cmd_timeout E context param w = do {
     p \<leftarrow> param;
     let ti = to_int32 (strtol10 p);
     (w, session) \<leftarrow> skynet_context_newsession context w;
     h \<leftarrow> ctx_handles w context;
     (w, _) \<leftarrow> skynet_timeout E h ti session w;
     set_result context (print_d session) w
   }"

definition cmd_reg :: command where
  "cmd_reg E context param w = do {
     h \<leftarrow> ctx_handles w context;
     case param of
       None \<Rightarrow> set_result context ('':'' @ print_x h) w
     | Some p \<Rightarrow>
         if p = [] then set_result context ('':'' @ print_x h) w
         else if take 1 p = ''.'' then do {
           (H, r) \<leftarrow> skynet_handle_namehandle h (tl p) (sv_H w);
           Some (w\<lparr>sv_H := H\<rparr>, r)
         } else do {
           w \<leftarrow> skynet_error E context (Some (''Can't register global name '' @ p @ '' in C'')) w;
           Some (w, None)
         }
   }"

definition cmd_query :: command where
  "cmd_query E context param w = do {
     p \<leftarrow> param;
     if take 1 p = ''.'' then do {
       h \<leftarrow> skynet_handle_findname (tl p) (sv_H w);
       if h \<noteq> 0 then set_result context ('':'' @ print_x h) w else Some (w, None)
     } else Some (w, None)
   }"

text \<open>
  The words that \<open>sscanf(param, "%s %s", ...)\<close> stores. A word that is missing leaves its
  buffer uninitialised, and the code then reads it.
\<close>

definition sscanf_word :: "string \<Rightarrow> (string \<times> string) option" where
  "sscanf_word s =
     (let r = dropWhile is_space s
      in if r = [] then None else Some (takeWhile (\<lambda>c. \<not> is_space c) r, dropWhile (\<lambda>c. \<not> is_space c) r))"

definition cmd_name :: command where
  "cmd_name E context param w = do {
     p \<leftarrow> param;
     (name, r) \<leftarrow> sscanf_word p;
     (handle, r) \<leftarrow> sscanf_word r;
     if take 1 handle \<noteq> '':'' then Some (w, None)
     else do {
       let handle_id = (ucast (strtoul16 (tl handle)) :: u32);
       if handle_id = 0 then Some (w, None)
       else if take 1 name = ''.'' then do {
         (H, r) \<leftarrow> skynet_handle_namehandle handle_id (tl name) (sv_H w);
         Some (w\<lparr>sv_H := H\<rparr>, r)
       } else do {
         w \<leftarrow> skynet_error E context (Some (''Can't set global name '' @ name @ '' in C'')) w;
         Some (w, None)
       }
     }
   }"

definition cmd_exit :: command where
  "cmd_exit E context param w = do { w \<leftarrow> handle_exit E context 0 w; Some (w, None) }"

definition cmd_kill :: command where
  "cmd_kill E context param w = do {
     p \<leftarrow> param;
     (w, handle) \<leftarrow> tohandle E context p w;
     if handle \<noteq> 0 then do { w \<leftarrow> handle_exit E context handle w; Some (w, None) } else Some (w, None)
   }"

definition launch_args :: "string \<Rightarrow> string option \<times> string option" where
  "launch_args param =
     (let (md, args) = strsep (\<lambda>c. c \<in> set [CHR '' '', CHR 0x09, CHR 0x0D, CHR 0x0A]) (Some param);
          (args, rest) = strsep (\<lambda>c. c \<in> set [CHR 0x0D, CHR 0x0A]) args
      in (md, args))"

definition cmd_launch :: command where
  "cmd_launch E context param w = do {
     p \<leftarrow> param;
     let (md, args) = launch_args p;
     md \<leftarrow> md;
     (w, inst) \<leftarrow> skynet_context_new E md args w;
     if inst = NULL then Some (w, None)
     else do {
       h \<leftarrow> ctx_handles w inst;
       set_result context (id_to_hex h) w
     }
   }"

definition cmd_getenv :: command where
  "cmd_getenv E context param w = do { p \<leftarrow> param; Some (w, skynet_getenv (sv_E w) p) }"

definition cmd_setenv :: command where
  "cmd_setenv E context param w = do {
     p \<leftarrow> param;
     let key = takeWhile (\<lambda>c. c \<noteq> CHR '' '') p;
     if length key = length p then Some (w, None)
     else do {
       e \<leftarrow> skynet_setenv key (drop (length key + 1) p) (sv_E w);
       Some (w\<lparr>sv_E := e\<rparr>, None)
     }
   }"

definition cmd_starttime :: command where
  "cmd_starttime E context param w = set_result context (print_u (skynet_starttime (sv_TI w))) w"

definition cmd_abort :: command where
  "cmd_abort E context param w = do { w \<leftarrow> skynet_handle_retireall E w; Some (w, None) }"

definition cmd_monitor :: command where
  "cmd_monitor E context param w = (case param of
     None \<Rightarrow>
       if nd_monitor_exit (sv_node w) \<noteq> 0 then set_result context ('':'' @ print_x (nd_monitor_exit (sv_node w))) w
       else Some (w, None)
   | Some p \<Rightarrow>
       if p = [] then
         if nd_monitor_exit (sv_node w) \<noteq> 0 then set_result context ('':'' @ print_x (nd_monitor_exit (sv_node w))) w
         else Some (w, None)
       else do {
         (w, handle) \<leftarrow> tohandle E context p w;
         Some (w\<lparr>sv_node := (sv_node w)\<lparr>nd_monitor_exit := handle\<rparr>\<rparr>, None)
       })"

definition cmd_stat :: command where
  "cmd_stat E context param w = do {
     p \<leftarrow> param;
     ctx \<leftarrow> sv_ctx w context;
     if p = ''mqlen'' then do {
       len \<leftarrow> skynet_mq_length w (cx_queue ctx);
       set_result context (print_d (int len)) w
     } else if p = ''endless'' then
       if cx_endless ctx then set_result context ''1'' (ctx_write context (ctx\<lparr>cx_endless := False\<rparr>) w)
       else set_result context ''0'' w
     else if p = ''cpu'' then set_result context (os_print_lf E (cx_cpu_cost ctx)) w
     else if p = ''time'' then
       if cx_profile ctx then set_result context (os_print_lf E (os_thread_time E w - cx_cpu_start ctx)) w
       else set_result context ''0'' w
     else if p = ''message'' then set_result context (print_d (cx_message_count ctx)) w
     else set_result context [] w
   }"

definition cmd_logon :: command where
  "cmd_logon E context param w = do {
     p \<leftarrow> param;
     (w, handle) \<leftarrow> tohandle E context p w;
     if handle = 0 then Some (w, None)
     else do {
       (w, c) \<leftarrow> skynet_handle_grab handle w;
       if c = NULL then Some (w, None)
       else do {
         ctx \<leftarrow> sv_ctx w c;
         w \<leftarrow> (if cx_logfile ctx = NULL then do {
                 (w, f) \<leftarrow> skynet_log_open E context handle w;
                 ctx \<leftarrow> sv_ctx w c;
                 if f = NULL then Some w
                 else if cx_logfile ctx = NULL then Some (ctx_write c (ctx\<lparr>cx_logfile := f\<rparr>) w)
                 else fclose f w
               } else Some w);
         (w, _) \<leftarrow> skynet_context_release E c w;
         Some (w, None)
       }
     }
   }"

definition cmd_logoff :: command where
  "cmd_logoff E context param w = do {
     p \<leftarrow> param;
     (w, handle) \<leftarrow> tohandle E context p w;
     if handle = 0 then Some (w, None)
     else do {
       (w, c) \<leftarrow> skynet_handle_grab handle w;
       if c = NULL then Some (w, None)
       else do {
         ctx \<leftarrow> sv_ctx w c;
         w \<leftarrow> (if cx_logfile ctx \<noteq> NULL then
                 skynet_log_close E context (cx_logfile ctx) handle (ctx_write c (ctx\<lparr>cx_logfile := NULL\<rparr>) w)
               else Some w);
         (w, _) \<leftarrow> skynet_context_release E c w;
         Some (w, None)
       }
     }
   }"

definition cmd_signal :: command where
  "cmd_signal E context param w = do {
     p \<leftarrow> param;
     (w, handle) \<leftarrow> tohandle E context p w;
     if handle = 0 then Some (w, None)
     else do {
       (w, c) \<leftarrow> skynet_handle_grab handle w;
       if c = NULL then Some (w, None)
       else do {
         let sig = (case strchr p (CHR '' '') of None \<Rightarrow> 0 | Some r \<Rightarrow> to_int32 (strtol0 r));
         ctx \<leftarrow> sv_ctx w c;
         w \<leftarrow> skynet_module_instance_signal E (cx_mod ctx) (cx_instance ctx) sig w;
         (w, _) \<leftarrow> skynet_context_release E c w;
         Some (w, None)
       }
     }
   }"

definition cmd_funcs :: "(string \<times> command) list" where
  "cmd_funcs =
     [(''TIMEOUT'', cmd_timeout), (''REG'', cmd_reg), (''QUERY'', cmd_query), (''NAME'', cmd_name),
      (''EXIT'', cmd_exit), (''KILL'', cmd_kill), (''LAUNCH'', cmd_launch), (''GETENV'', cmd_getenv),
      (''SETENV'', cmd_setenv), (''STARTTIME'', cmd_starttime), (''ABORT'', cmd_abort),
      (''MONITOR'', cmd_monitor), (''STAT'', cmd_stat), (''LOGON'', cmd_logon), (''LOGOFF'', cmd_logoff),
      (''SIGNAL'', cmd_signal)]"

fun command_find :: "(string \<times> command) list \<Rightarrow> string \<Rightarrow> command option" where
  "command_find [] cmd = None"
| "command_find ((name, func) # methods) cmd =
     (if strcmp cmd name = 0 then Some func else command_find methods cmd)"

definition skynet_command :: "services \<Rightarrow> ptr \<Rightarrow> string \<Rightarrow> string option \<Rightarrow> server \<Rightarrow> (server \<times> string option) option" where
  "skynet_command E context cmd param w = (case command_find cmd_funcs cmd of
     None \<Rightarrow> Some (w, None)
   | Some func \<Rightarrow> func E context param w)"

section \<open>Names of handles\<close>

lemma nibble: "unat (drop_bit n (h :: u32) AND 0xf) = unat h div 2 ^ n mod 16"
proof -
  have m: "(0xf :: u32) = mask 4" by (simp add: mask_eq_exp_minus_1)
  show ?thesis unfolding m by (simp add: mask_simps)
qed

lemma nibbles_value:
  assumes "n < 16 ^ k"
  shows "digits_value 16 (map (\<lambda>i. upper_digit (n div 16 ^ (k - 1 - i) mod 16)) [0..<k]) = n"
proof -
  have "digits_value 16 (map (\<lambda>i. upper_digit (n div 16 ^ (k - 1 - i) mod 16)) [0..<j]) = n div 16 ^ (k - j)"
    if "j \<le> k" for j
    using that
  proof (induction j)
    case 0
    then show ?case using assms by (simp add: digits_value_def)
  next
    case (Suc j)
    have "n div 16 ^ (k - Suc j) = n div 16 ^ (k - j) * 16 + n div 16 ^ (k - Suc j) mod 16"
    proof -
      have "k - j = Suc (k - Suc j)" using Suc.prems by simp
      then have "n div 16 ^ (k - j) = n div 16 ^ (k - Suc j) div 16" by (simp only: power_Suc2 div_mult2_eq)
      then show ?thesis by simp
    qed
    moreover have "k - 1 - j = k - Suc j" using Suc.prems by simp
    ultimately show ?case using Suc by (simp add: digits_value_append digit_value_upper)
  qed
  then show ?thesis using assms by simp
qed

lemma id_to_hex_value: "ucast (strtoul16 (tl (id_to_hex h))) = h"
proof -
  let ?ds = "map (\<lambda>i. upper_digit (unat h div 16 ^ (8 - 1 - i) mod 16)) [0..<8]"
  have ds: "tl (id_to_hex h) = ?ds"
    by (simp add: id_to_hex_def nibble power_mult upt_rec)
  have lt: "unat h < 2 ^ 32" using unsigned_less[of h] by simp
  then have "unat h < 16 ^ 8" by simp
  then have v: "digits_value 16 ?ds = unat h" by (rule nibbles_value)
  have "strtoul16 ?ds = of_nat (digits_value 16 ?ds)"
  proof (rule strtoul16_digits)
    show "\<forall>c\<in>set ?ds. is_digit 16 c" by (auto simp: is_digit_def digit_value_upper)
    show "digits_value 16 ?ds < 2 ^ 64" unfolding v using lt by simp
  qed simp
  then show ?thesis unfolding ds v by (simp add: ucast_ucast_u32)
qed

text \<open>Both ways the commands name a handle are read back as that handle.\<close>

lemma tohandle_names:
  "tohandle E context (CHR '':'' # print_x h) w = Some (w, h)"
  "tohandle E context (id_to_hex h) w = Some (w, h)"
proof -
  show "tohandle E context (CHR '':'' # print_x h) w = Some (w, h)"
    by (simp add: tohandle_def strtoul16_print_x)
  have "take 1 (id_to_hex h) = '':''" by (simp add: id_to_hex_def)
  then show "tohandle E context (id_to_hex h) w = Some (w, h)"
    by (simp add: tohandle_def id_to_hex_value)
qed

section \<open>Registering and finding names\<close>

lemma set_result_handle:
  assumes "sv_ctx w c \<noteq> None"
  shows "\<exists>w'. set_result c (CHR '':'' # print_x h) w = Some (w', Some (CHR '':'' # print_x h)) \<and> sv_H w' = sv_H w"
  using assms print_x_length[of h] by (auto simp: set_result_def)

text \<open>
  C36: a name registered with the command \<open>REG\<close> is found by \<open>QUERY\<close> from
  any service, as the handle of the service that registered it, and all other names stay.
\<close>

theorem reg_then_query:
  assumes "names_inv (sv_H w)"
    and "hs_name_count (sv_H w) < hs_name_cap (sv_H w) \<or> hs_name_cap (sv_H w) * 2 \<le> MAX_SLOT_SIZE"
    and "names_map (sv_H w) name = None" "ctx_handles w c = Some h" "h \<noteq> 0" "sv_ctx w d \<noteq> None"
  shows "\<exists>w1 w2. cmd_reg E c (Some (CHR ''.'' # name)) w = Some (w1, Some name) \<and>
    cmd_query E d (Some (CHR ''.'' # name)) w1 = Some (w2, Some (CHR '':'' # print_x h)) \<and>
    names_map (sv_H w2) = (names_map (sv_H w))(name \<mapsto> h)"
proof -
  obtain H where H: "insert_name name h (sv_H w) = Some (H, Some name)" "names_inv H"
    "names_map H = (names_map (sv_H w))(name \<mapsto> h)"
    using insert_name_ok[OF assms(1,2), of name h] assms(3) by auto
  let ?w = "w\<lparr>sv_H := H\<rparr>"
  have reg: "cmd_reg E c (Some (CHR ''.'' # name)) w = Some (?w, Some name)"
    using assms(4) H(1) by (simp add: cmd_reg_def skynet_handle_namehandle_def)
  have find: "skynet_handle_findname name H = Some h" using findname_ok[OF H(2), of name] H(3) by simp
  obtain w2 where "set_result d (CHR '':'' # print_x h) ?w = Some (w2, Some (CHR '':'' # print_x h))" "sv_H w2 = H"
    using set_result_handle[of ?w d h] assms(6) by auto
  then have "cmd_query E d (Some (CHR ''.'' # name)) ?w = Some (w2, Some (CHR '':'' # print_x h))"
    using find assms(5) by (simp add: cmd_query_def)
  then show ?thesis using reg \<open>sv_H w2 = H\<close> H(3) by blast
qed

lemma command_unknown:
  assumes "cmd \<notin> fst ` set cmd_funcs"
  shows "skynet_command E c cmd param w = Some (w, None)"
proof -
  have "command_find ms cmd = None" if "cmd \<notin> fst ` set ms" for ms
    using that by (induction ms) auto
  then show ?thesis using assms by (simp add: skynet_command_def)
qed

end
