(* ===== verification/Socket.thy ===== *)
theory Socket
  imports Server
begin

text \<open>
  \<^verbatim>\<open>skynet-src/skynet_socket.c\<close>: the side of the node that talks to the socket server. What
  \<open>socket_server_poll\<close> returns is an argument of \<open>skynet_socket_poll\<close>; the calls into the
  socket server are recorded in \<open>sv_calls\<close> and answered by \<open>socket_result\<close>.
\<close>

section \<open>Messages of the socket server\<close>

definition PTYPE_SOCKET :: u32 where
  "PTYPE_SOCKET = 6"

definition SKYNET_SOCKET_TYPE_DATA :: int where
  "SKYNET_SOCKET_TYPE_DATA = 1"

definition SKYNET_SOCKET_TYPE_CONNECT :: int where
  "SKYNET_SOCKET_TYPE_CONNECT = 2"

definition SKYNET_SOCKET_TYPE_CLOSE :: int where
  "SKYNET_SOCKET_TYPE_CLOSE = 3"

definition SKYNET_SOCKET_TYPE_ACCEPT :: int where
  "SKYNET_SOCKET_TYPE_ACCEPT = 4"

definition SKYNET_SOCKET_TYPE_ERROR :: int where
  "SKYNET_SOCKET_TYPE_ERROR = 5"

definition SKYNET_SOCKET_TYPE_UDP :: int where
  "SKYNET_SOCKET_TYPE_UDP = 6"

definition SKYNET_SOCKET_TYPE_WARNING :: int where
  "SKYNET_SOCKET_TYPE_WARNING = 7"

text \<open>
  The result of a poll. \<open>data\<close> is a heap block for the types whose message carries it, and
  otherwise a C string or \<open>NULL\<close>: \<open>rs_data\<close> and \<open>rs_text\<close>.
\<close>

datatype poll_type = SOCKET_DATA | SOCKET_CLOSE | SOCKET_OPEN | SOCKET_ACCEPT | SOCKET_ERROR | SOCKET_EXIT
  | SOCKET_UDP | SOCKET_OTHER int

record socket_message =
  rs_id :: int
  rs_opaque :: u64
  rs_ud :: int
  rs_data :: ptr
  rs_text :: "string option"

definition forward_message :: "services \<Rightarrow> int \<Rightarrow> bool \<Rightarrow> socket_message \<Rightarrow> server \<Rightarrow> server option" where
  "forward_message E type padding result w = do {
     let text = (if padding then (case rs_text result of Some t \<Rightarrow> take 128 t | None \<Rightarrow> []) else []);
     let buffer = (if padding then NULL else rs_data result);
     let sz = (of_nat (sizeof_socket_message + length text) :: u64);
     let (w, sm) = skynet_malloc (Socket \<lparr>sm_type = type, sm_id = rs_id result, sm_ud = rs_ud result, sm_buffer = buffer\<rparr>
           (map of_char text)) w;
     (w, r) \<leftarrow> skynet_context_push E (ucast (rs_opaque result))
       \<lparr>msg_source = 0, msg_session = 0, msg_data = sm, msg_sz = sz OR push_bit MESSAGE_TYPE_SHIFT (ucast PTYPE_SOCKET)\<rparr> w;
     if r \<noteq> 0 then do {
       w \<leftarrow> skynet_free buffer w;
       skynet_free sm w
     } else Some w
   }"

definition skynet_socket_poll :: "services \<Rightarrow> poll_type \<Rightarrow> socket_message \<Rightarrow> bool \<Rightarrow> server \<Rightarrow> (server \<times> int) option" where
  "skynet_socket_poll E type result has_more w =
     (let done = (\<lambda>w. Some (w, if has_more then - 1 else 1 :: int)) in
      case type of
        SOCKET_EXIT \<Rightarrow> Some (w, 0)
      | SOCKET_DATA \<Rightarrow> do { w \<leftarrow> forward_message E SKYNET_SOCKET_TYPE_DATA False result w; done w }
      | SOCKET_CLOSE \<Rightarrow> do { w \<leftarrow> forward_message E SKYNET_SOCKET_TYPE_CLOSE False result w; done w }
      | SOCKET_OPEN \<Rightarrow> do { w \<leftarrow> forward_message E SKYNET_SOCKET_TYPE_CONNECT True result w; done w }
      | SOCKET_ERROR \<Rightarrow> do { w \<leftarrow> forward_message E SKYNET_SOCKET_TYPE_ERROR True result w; done w }
      | SOCKET_ACCEPT \<Rightarrow> do { w \<leftarrow> forward_message E SKYNET_SOCKET_TYPE_ACCEPT True result w; done w }
      | SOCKET_UDP \<Rightarrow> do { w \<leftarrow> forward_message E SKYNET_SOCKET_TYPE_UDP False result w; done w }
      | SOCKET_OTHER n \<Rightarrow> do {
          w \<leftarrow> skynet_error E NULL (Some (''Unknown socket message type '' @ print_d n @ ''.'')) w;
          Some (w, - 1)
        })"

section \<open>Calls into the socket server\<close>

definition socket_call :: "services \<Rightarrow> socket_call \<Rightarrow> server \<Rightarrow> server \<times> int" where
  "socket_call E c w = (w\<lparr>sv_calls := sv_calls w @ [c]\<rparr>, socket_result E c w)"

text \<open>\<open>wsz\<close> is an \<open>int64_t\<close>; the warning message is a stack object, alive for the call.\<close>

definition check_wsz :: "services \<Rightarrow> ptr \<Rightarrow> int \<Rightarrow> int \<Rightarrow> server \<Rightarrow> (server \<times> int) option" where
  "check_wsz E ctx i wsz w =
     (if wsz < 0 then Some (w, - 1)
      else if 1024 * 1024 < wsz then do {
        let (w, tmp) = skynet_malloc (Socket \<lparr>sm_type = SKYNET_SOCKET_TYPE_WARNING, sm_id = i,
              sm_ud = to_int32 (wsz div 1024), sm_buffer = NULL\<rparr> []) w;
        h \<leftarrow> skynet_context_handle ctx w;
        (w, _) \<leftarrow> skynet_send E ctx 0 h PTYPE_SOCKET 0 tmp (of_nat sizeof_socket_message) w;
        w \<leftarrow> skynet_free tmp w;
        Some (w, 0)
      } else Some (w, 0))"

definition skynet_socket_send :: "services \<Rightarrow> ptr \<Rightarrow> int \<Rightarrow> ptr \<Rightarrow> int \<Rightarrow> server \<Rightarrow> (server \<times> int) option" where
  "skynet_socket_send E ctx i buffer sz w =
     (let (w, wsz) = socket_call E (Call_send i buffer sz) w in check_wsz E ctx i wsz w)"

definition skynet_socket_send_lowpriority :: "services \<Rightarrow> int \<Rightarrow> ptr \<Rightarrow> int \<Rightarrow> server \<Rightarrow> server" where
  "skynet_socket_send_lowpriority E i buffer sz w = fst (socket_call E (Call_send_lowpriority i buffer sz) w)"

definition skynet_socket_listen :: "services \<Rightarrow> ptr \<Rightarrow> string \<Rightarrow> int \<Rightarrow> int \<Rightarrow> server \<Rightarrow> (server \<times> int) option" where
  "skynet_socket_listen E ctx host port backlog w = do {
     source \<leftarrow> skynet_context_handle ctx w;
     Some (socket_call E (Call_listen source host port backlog) w)
   }"

definition skynet_socket_connect :: "services \<Rightarrow> ptr \<Rightarrow> string \<Rightarrow> int \<Rightarrow> server \<Rightarrow> (server \<times> int) option" where
  "skynet_socket_connect E ctx host port w = do {
     source \<leftarrow> skynet_context_handle ctx w;
     Some (socket_call E (Call_connect source host port) w)
   }"

definition skynet_socket_bind :: "services \<Rightarrow> ptr \<Rightarrow> int \<Rightarrow> server \<Rightarrow> (server \<times> int) option" where
  "skynet_socket_bind E ctx fd w = do {
     source \<leftarrow> skynet_context_handle ctx w;
     Some (socket_call E (Call_bind source fd) w)
   }"

definition skynet_socket_close :: "services \<Rightarrow> ptr \<Rightarrow> int \<Rightarrow> server \<Rightarrow> server option" where
  "skynet_socket_close E ctx i w = do {
     source \<leftarrow> skynet_context_handle ctx w;
     Some (fst (socket_call E (Call_close source i) w))
   }"

definition skynet_socket_shutdown :: "services \<Rightarrow> ptr \<Rightarrow> int \<Rightarrow> server \<Rightarrow> server option" where
  "skynet_socket_shutdown E ctx i w = do {
     source \<leftarrow> skynet_context_handle ctx w;
     Some (fst (socket_call E (Call_shutdown source i) w))
   }"

definition skynet_socket_start :: "services \<Rightarrow> ptr \<Rightarrow> int \<Rightarrow> server \<Rightarrow> server option" where
  "skynet_socket_start E ctx i w = do {
     source \<leftarrow> skynet_context_handle ctx w;
     Some (fst (socket_call E (Call_start source i) w))
   }"

definition skynet_socket_nodelay :: "services \<Rightarrow> int \<Rightarrow> server \<Rightarrow> server" where
  "skynet_socket_nodelay E i w = fst (socket_call E (Call_nodelay i) w)"

definition skynet_socket_udp :: "services \<Rightarrow> ptr \<Rightarrow> string \<Rightarrow> int \<Rightarrow> server \<Rightarrow> (server \<times> int) option" where
  "skynet_socket_udp E ctx addr port w = do {
     source \<leftarrow> skynet_context_handle ctx w;
     Some (socket_call E (Call_udp source addr port) w)
   }"

definition skynet_socket_udp_connect :: "services \<Rightarrow> int \<Rightarrow> string \<Rightarrow> int \<Rightarrow> server \<Rightarrow> server \<times> int" where
  "skynet_socket_udp_connect E i addr port w = socket_call E (Call_udp_connect i addr port) w"

definition skynet_socket_udp_send :: "services \<Rightarrow> ptr \<Rightarrow> int \<Rightarrow> string \<Rightarrow> ptr \<Rightarrow> int \<Rightarrow> server \<Rightarrow> (server \<times> int) option" where
  "skynet_socket_udp_send E ctx i address buffer sz w =
     (let (w, wsz) = socket_call E (Call_udp_send i address buffer sz) w in check_wsz E ctx i wsz w)"

section \<open>What happens to the data of a socket message\<close>

text \<open>
  The message reaches the queue of a live service with its data attached; for a handle that
  names no service the message and its data are freed, so nothing leaks.
\<close>


text \<open>
  A socket event for a service that is gone frees both the event and its data, and changes
  nothing else.
\<close>

lemma forward_refused:
  assumes inv: "server_inv w xs" and c: "handle_lookup (ctx_handles w, sv_H w) (ucast (rs_opaque r)) = None"
    and d: "rs_data r \<noteq> NULL" "sv_heap w (rs_data r) \<noteq> None"
  shows "\<exists>w'. forward_message E type False r w = Some w' \<and> server_inv w' xs \<and> ctx_pending w' = ctx_pending w \<and>
    sv_heap w' = (sv_heap w)(rs_data r := None)"
proof -
  let ?b = "Socket \<lparr>sm_type = type, sm_id = rs_id r, sm_ud = rs_ud r, sm_buffer = rs_data r\<rparr> []"
  obtain w1 p where w1: "skynet_malloc ?b w = (w1, p)" by fastforce
  note I = skynet_malloc_inv[OF inv w1]
  have look: "handle_lookup (ctx_handles w1, sv_H w1) (ucast (rs_opaque r)) = None" using c I(6,7) by simp
  note push = context_push_none[OF I(1) look]
  have d1: "sv_heap w1 (rs_data r) \<noteq> None" "rs_data r \<noteq> p" using d(2) I(3,4) by auto
  obtain w2 where w2: "skynet_free (rs_data r) w1 = Some w2" "server_inv w2 xs" "sv_heap w2 = (sv_heap w1)(rs_data r := None)"
    "ctx_pending w2 = ctx_pending w1"
    using skynet_free_inv[OF I(1), of "rs_data r"] d1(1) by blast
  have "sv_heap w2 p \<noteq> None" using w2(3) I(4) d1(2) by auto
  then obtain w3 where w3: "skynet_free p w2 = Some w3" "server_inv w3 xs" "sv_heap w3 = (sv_heap w2)(p := None)"
    "ctx_pending w3 = ctx_pending w2"
    using skynet_free_inv[OF w2(2), of p] by blast
  have "sv_heap w3 = (sv_heap w)(rs_data r := None)" using w2(3) w3(3) I(3,4) by (auto simp: fun_eq_iff)
  moreover have "forward_message E type False r w = Some w3"
    using w1 w2(1) w3(1) push by (simp add: forward_message_def)
  ultimately show ?thesis using I(5) w2(4) w3(2,4) by auto
qed

end
