(* ===== verification/Stream_Spec.thy ===== *)
theory Stream_Spec
  imports Prelude
begin

text \<open>
  The contract of a buffer for a byte stream, as \<^verbatim>\<open>service-src/databuffer.h\<close> promises it to
  the gate: chunks are appended in any division, and a read returns the oldest bytes.
  The lemmas on whole runs are proved here once. The second half is the framing of a
  stream by big-endian length headers, independent of how a component stores it.
\<close>

section \<open>Buffers\<close>

fun chunk_run :: "('s \<Rightarrow> 'c \<Rightarrow> 's option) \<Rightarrow> 's \<Rightarrow> 'c list \<Rightarrow> 's option" where
  "chunk_run push s [] = Some s"
| "chunk_run push s (c # cs) = do { s \<leftarrow> push s c; chunk_run push s cs }"

fun read_run :: "('s \<Rightarrow> nat \<Rightarrow> ('s \<times> u8 list) option) \<Rightarrow> 's \<Rightarrow> nat list \<Rightarrow> ('s \<times> u8 list list) option" where
  "read_run rd s [] = Some (s, [])"
| "read_run rd s (n # ns) = do {
     (s, b) \<leftarrow> rd s n;
     (s, bs) \<leftarrow> read_run rd s ns;
     Some (s, b # bs)
   }"

locale byte_stream =
  fixes rep :: "'s \<Rightarrow> u8 list \<Rightarrow> bool"
    and bytes :: "'c \<Rightarrow> u8 list"
    and pushable :: "'c list \<Rightarrow> 's \<Rightarrow> u8 list \<Rightarrow> bool"
    and push :: "'s \<Rightarrow> 'c \<Rightarrow> 's option"
    and rd :: "'s \<Rightarrow> nat \<Rightarrow> ('s \<times> u8 list) option"
  assumes push_ok: "rep s bs \<Longrightarrow> pushable (c # cs) s bs \<Longrightarrow>
      \<exists>s'. push s c = Some s' \<and> rep s' (bs @ bytes c) \<and> pushable cs s' (bs @ bytes c)"
    and rd_ok: "rep s (as @ bs) \<Longrightarrow> as \<noteq> [] \<Longrightarrow> \<exists>s'. rd s (length as) = Some (s', as) \<and> rep s' bs"
begin

lemma chunk_run_ok:
  "rep s bs \<Longrightarrow> pushable cs s bs \<Longrightarrow>
   \<exists>s'. chunk_run push s cs = Some s' \<and> rep s' (bs @ concat (map bytes cs))"
proof (induction cs arbitrary: s bs)
  case (Cons c cs)
  obtain s1 where s1: "push s c = Some s1" "rep s1 (bs @ bytes c)" "pushable cs s1 (bs @ bytes c)"
    using push_ok[OF Cons.prems] by blast
  show ?case using Cons.IH[OF s1(2,3)] s1(1) by auto
qed simp

lemma read_run_ok:
  "rep s (concat xs @ bs) \<Longrightarrow> [] \<notin> set xs \<Longrightarrow>
   \<exists>s'. read_run rd s (map length xs) = Some (s', xs) \<and> rep s' bs"
proof (induction xs arbitrary: s)
  case (Cons x xs)
  then obtain s1 where s1: "rd s (length x) = Some (s1, x)" "rep s1 (concat xs @ bs)"
    using rd_ok[of s x "concat xs @ bs"] by auto
  then show ?case using Cons.IH[OF s1(2)] Cons.prems by auto
qed simp

text \<open>The division of the stream into chunks does not matter to the reader.\<close>

lemma chunks_then_reads:
  assumes "rep s []" "pushable cs s []" "concat (map bytes cs) = concat xs @ bs" "[] \<notin> set xs"
  shows "\<exists>s1 s2. chunk_run push s cs = Some s1 \<and> read_run rd s1 (map length xs) = Some (s2, xs) \<and> rep s2 bs"
proof -
  obtain s1 where s1: "chunk_run push s cs = Some s1" "rep s1 (concat xs @ bs)"
    using chunk_run_ok[OF assms(1,2)] assms(3) by auto
  then show ?thesis using read_run_ok[OF s1(2) assms(4)] by blast
qed

end

section \<open>Frames\<close>

definition be_value :: "u8 list \<Rightarrow> nat" where
  "be_value bs = foldl (\<lambda>a b. a * 256 + unat b) 0 bs"

fun be_bytes :: "nat \<Rightarrow> nat \<Rightarrow> u8 list" where
  "be_bytes 0 n = []"
| "be_bytes (Suc k) n = be_bytes k (n div 256) @ [of_nat (n mod 256)]"

text \<open>
  The frames of a stream with headers of \<open>hs\<close> bytes and the bytes that are left; an empty
  frame is skipped.
\<close>

function frames :: "nat \<Rightarrow> u8 list \<Rightarrow> u8 list list \<times> u8 list" where
  "frames hs bs =
     (let n = be_value (take hs bs) in
      if hs = 0 \<or> length bs < hs + n \<or> length bs < hs then ([], bs)
      else let (fs, r) = frames hs (drop (hs + n) bs)
           in (if n = 0 then fs else take n (drop hs bs) # fs, r))"
  by pat_completeness auto
termination
  by (relation "measure (\<lambda>(hs, bs). length bs)") auto

declare frames.simps [simp del]

definition frame :: "nat \<Rightarrow> u8 list \<Rightarrow> u8 list" where
  "frame hs p = be_bytes hs (length p) @ p"

lemma length_be_bytes [simp]: "length (be_bytes k n) = k"
  by (induction k n rule: be_bytes.induct) auto

lemma be_value_snoc: "be_value (bs @ [b]) = be_value bs * 256 + unat b"
  by (simp add: be_value_def)

lemma be_bytes_2: "be_bytes 2 n = [of_nat (n div 256 mod 256), of_nat (n mod 256)]"
  by (simp add: numeral_2_eq_2)

lemma be_bytes_4: "be_bytes 4 n = [of_nat (n div 2 ^ 24 mod 256), of_nat (n div 2 ^ 16 mod 256), of_nat (n div 2 ^ 8 mod 256), of_nat (n mod 256)]"
proof -
  have "(4 :: nat) = Suc (Suc (Suc (Suc 0)))" by simp
  then show ?thesis by (simp only: be_bytes.simps append.simps div_mult2_eq[symmetric]) simp
qed

lemma be_value_bytes: "n < 256 ^ k \<Longrightarrow> be_value (be_bytes k n) = n"
proof (induction k n rule: be_bytes.induct)
  case (2 k n)
  then have "n div 256 < 256 ^ k" by (simp add: less_mult_imp_div_less)
  then have "be_value (be_bytes k (n div 256)) = n div 256" by (rule 2)
  moreover have "unat (of_nat (n mod 256) :: u8) = n mod 256" by (simp add: unat_of_nat)
  ultimately show ?case by (simp add: be_value_snoc)
qed (simp add: be_value_def)

lemma be_value_less: "be_value bs < 256 ^ length bs"
proof (induction bs rule: rev_induct)
  case (snoc b bs)
  have "unat b < 256" using unsigned_less[of b, where 'a = nat] by simp
  then show ?case using snoc by (simp add: be_value_snoc)
qed (simp add: be_value_def)

lemma be_bytes_value: "be_bytes (length bs) (be_value bs) = bs"
proof (induction bs rule: rev_induct)
  case (snoc b bs)
  have "unat b < 256" using unsigned_less[of b, where 'a = nat] by simp
  then show ?case using snoc by (simp add: be_value_snoc)
qed simp

lemma frames_short: "length bs < hs \<Longrightarrow> frames hs bs = ([], bs)"
  by (subst frames.simps) (simp add: Let_def)

lemma frames_unfinished: "length rest < be_value hb \<Longrightarrow> frames (length hb) (hb @ rest) = ([], hb @ rest)"
  by (subst frames.simps) (simp add: Let_def)

lemma frames_step:
  assumes "0 < length hb" "be_value hb \<le> length rest"
  shows "frames (length hb) (hb @ rest) = (let (fs, r) = frames (length hb) (drop (be_value hb) rest)
    in (if be_value hb = 0 then fs else take (be_value hb) rest # fs, r))"
  using assms by (subst frames.simps) (auto simp: Let_def not_less cong: if_cong)

lemma frames_one:
  assumes "0 < hs" "length p < 256 ^ hs" "p \<noteq> []"
  shows "frames hs (frame hs p @ bs) = (let (fs, r) = frames hs bs in (p # fs, r))"
proof -
  have "be_value (take hs (frame hs p @ bs)) = length p" using be_value_bytes[OF assms(2)] by (simp add: frame_def)
  then show ?thesis using assms(1,3) by (subst frames.simps) (simp add: frame_def split: prod.splits)
qed

text \<open>A stream of framed payloads is read as the payloads.\<close>

lemma frames_framed:
  assumes "0 < hs" "\<And>p. p \<in> set ps \<Longrightarrow> p \<noteq> [] \<and> length p < 256 ^ hs"
  shows "frames hs (concat (map (frame hs) ps)) = (ps, [])"
  using assms(2)
proof (induction ps)
  case Nil
  then show ?case using assms(1) by (simp add: frames_short)
next
  case (Cons p ps)
  then show ?case using frames_one[OF assms(1), of p "concat (map (frame hs) ps)"] by auto
qed

text \<open>Where the stream is cut does not matter: the rest of one chunk goes before the next.\<close>

lemma frames_append:
  "frames hs (as @ bs) = (let (fs, r) = frames hs as; (gs, r') = frames hs (r @ bs) in (fs @ gs, r'))"
proof (induction hs as rule: frames.induct)
  case (1 hs as)
  let ?n = "be_value (take hs as)"
  show ?case
  proof (cases "hs = 0 \<or> length as < hs + ?n \<or> length as < hs")
    case True
    then have "frames hs as = ([], as)" by (subst frames.simps) (simp add: Let_def)
    then show ?thesis by (simp split: prod.splits)
  next
    case False
    have ih: "frames hs (drop (hs + ?n) as @ bs) =
      (let (fs, r) = frames hs (drop (hs + ?n) as); (gs, r') = frames hs (r @ bs) in (fs @ gs, r'))"
      using 1[OF refl False] .
    have "frames hs (as @ bs) = (let (fs, r) = frames hs (drop (hs + ?n) as @ bs)
        in (if ?n = 0 then fs else take ?n (drop hs as) # fs, r))"
      using False by (subst frames.simps) (simp add: Let_def cong: if_cong)
    moreover have "frames hs as = (let (fs, r) = frames hs (drop (hs + ?n) as)
        in (if ?n = 0 then fs else take ?n (drop hs as) # fs, r))"
      using False by (subst frames.simps) (simp add: Let_def)
    ultimately show ?thesis using ih by (simp split: prod.splits)
  qed
qed

text \<open>The same framing for a reader that also delivers empty packages.\<close>

function packages :: "nat \<Rightarrow> u8 list \<Rightarrow> u8 list list \<times> u8 list" where
  "packages hs bs =
     (let n = be_value (take hs bs) in
      if hs = 0 \<or> length bs < hs + n \<or> length bs < hs then ([], bs)
      else let (ps, r) = packages hs (drop (hs + n) bs) in (take n (drop hs bs) # ps, r))"
  by pat_completeness auto
termination
  by (relation "measure (\<lambda>(hs, bs). length bs)") auto

declare packages.simps [simp del]

lemma frames_packages: "frames hs bs = (filter (\<lambda>p. p \<noteq> []) (fst (packages hs bs)), snd (packages hs bs))"
proof (induction hs bs rule: packages.induct)
  case (1 hs bs)
  let ?n = "be_value (take hs bs)"
  show ?case
  proof (cases "hs = 0 \<or> length bs < hs + ?n \<or> length bs < hs")
    case True
    then have "packages hs bs = ([], bs)" "frames hs bs = ([], bs)"
      by (subst packages.simps frames.simps, simp add: Let_def)+
    then show ?thesis by simp
  next
    case False
    note ih = 1[OF refl False]
    have "frames hs bs = (let (fs, r) = frames hs (drop (hs + ?n) bs)
        in (if ?n = 0 then fs else take ?n (drop hs bs) # fs, r))"
      using False by (subst frames.simps) (simp add: Let_def)
    moreover have "packages hs bs = (let (ps, r) = packages hs (drop (hs + ?n) bs) in (take ?n (drop hs bs) # ps, r))"
      using False by (subst packages.simps) (simp add: Let_def)
    moreover have "take ?n (drop hs bs) = [] \<longleftrightarrow> ?n = 0" using False by auto
    ultimately show ?thesis using ih
      by (simp add: Let_def del: take_eq_Nil take_eq_Nil2 drop_eq_Nil drop_eq_Nil2 split: prod.splits)
  qed
qed

lemma packages_short: "length bs < hs \<Longrightarrow> packages hs bs = ([], bs)"
  by (subst packages.simps) (simp add: Let_def)

lemma packages_unfinished: "length rest < be_value hb \<Longrightarrow> packages (length hb) (hb @ rest) = ([], hb @ rest)"
  by (subst packages.simps) (simp add: Let_def)

lemma packages_step:
  assumes "0 < length hb" "length p = be_value hb"
  shows "packages (length hb) (hb @ p @ rest) = (p # fst (packages (length hb) rest), snd (packages (length hb) rest))"
  using assms by (subst packages.simps) (simp add: Let_def split: prod.splits)

lemma packages_frame:
  assumes "length p < 256 ^ hs" "0 < hs"
  shows "packages hs (be_bytes hs (length p) @ p @ rest) = (p # fst (packages hs rest), snd (packages hs rest))"
  using packages_step[of "be_bytes hs (length p)" p rest] assms by (simp add: be_value_bytes)

lemma packages_append:
  "packages hs (as @ bs) =
     (fst (packages hs as) @ fst (packages hs (snd (packages hs as) @ bs)), snd (packages hs (snd (packages hs as) @ bs)))"
proof (induction hs as rule: packages.induct)
  case (1 hs as)
  let ?n = "be_value (take hs as)"
  show ?case
  proof (cases "hs = 0 \<or> length as < hs + ?n \<or> length as < hs")
    case True
    then have "packages hs as = ([], as)" by (subst packages.simps) (simp add: Let_def)
    then show ?thesis by simp
  next
    case False
    note ih = 1[OF refl False]
    have "packages hs (as @ bs) = (let (ps, r) = packages hs (drop (hs + ?n) as @ bs) in (take ?n (drop hs as) # ps, r))"
      using False by (subst packages.simps) (simp add: Let_def)
    moreover have "packages hs as = (let (ps, r) = packages hs (drop (hs + ?n) as) in (take ?n (drop hs as) # ps, r))"
      using False by (subst packages.simps) (simp add: Let_def)
    ultimately show ?thesis using ih by (simp split: prod.splits)
  qed
qed

lemma packages_framed:
  assumes "0 < hs" "\<And>p. p \<in> set ps \<Longrightarrow> length p < 256 ^ hs"
  shows "packages hs (concat (map (frame hs) ps)) = (ps, [])"
  using assms(2)
proof (induction ps)
  case Nil
  then show ?case using assms(1) by (simp add: packages_short)
next
  case (Cons p ps)
  then show ?case using packages_step[of "be_bytes hs (length p)" p] assms(1) by (simp add: frame_def be_value_bytes)
qed

end
