(* ===== verification/Databuffer.thy ===== *)
theory Databuffer
  imports Context Stream_Spec
begin

text \<open>
  \<^verbatim>\<open>service-src/databuffer.h\<close>: the received bytes of one connection as a linked list of
  chunks, with the list nodes taken from a pool all connections of a gate share.

  The nodes of the pools live in the store \<open>mp_msgs\<close>; the \<open>k\<close>-th pool has the addresses
  \<open>1 + 1023 k, ..., 1023 (k + 1)\<close>. The chunks are blocks of the heap of the node
  (\<open>sv_heap\<close>), which \<open>_return_message\<close> frees. An overflow of the \<open>int\<close> sizes is undefined
  and the abort \<open>None\<close>. \<open>databuffer_read\<close> returns the bytes it copies to its buffer.
\<close>

section \<open>Data and operations\<close>

definition MESSAGEPOOL :: nat where
  "MESSAGEPOOL = 1023"

record message =
  bm_buffer :: ptr
  bm_size :: int
  bm_next :: ptr

record databuffer =
  db_header :: int
  db_offset :: int
  db_size :: int
  db_head :: ptr
  db_tail :: ptr

record messagepool =
  mp_pool :: "ptr list"
  mp_freelist :: ptr
  mp_msgs :: "ptr \<Rightarrow> message option"

type_synonym dbuf = "databuffer \<times> messagepool \<times> server"

definition databuffer_zero :: databuffer where
  "databuffer_zero = \<lparr>db_header = 0, db_offset = 0, db_size = 0, db_head = NULL, db_tail = NULL\<rparr>"

definition messagepool_zero :: messagepool where
  "messagepool_zero = \<lparr>mp_pool = [], mp_freelist = NULL, mp_msgs = Map.empty\<rparr>"

definition messagepool_free :: "messagepool \<Rightarrow> messagepool" where
  "messagepool_free mp = \<lparr>mp_pool = [], mp_freelist = NULL,
     mp_msgs = (\<lambda>p. if \<exists>q\<in>set (mp_pool mp). q \<le> p \<and> p < q + MESSAGEPOOL then None else mp_msgs mp p)\<rparr>"

definition return_message :: "dbuf \<Rightarrow> dbuf option" where
  "return_message s = (case s of (db, mp, w) \<Rightarrow> do {
     let p = db_head db;
     m \<leftarrow> mp_msgs mp p;
     db \<leftarrow> (if bm_next m = NULL then do {
               c_assert (db_tail db = p);
               Some (db\<lparr>db_head := NULL, db_tail := NULL\<rparr>)
             } else Some (db\<lparr>db_head := bm_next m\<rparr>));
     w \<leftarrow> skynet_free (bm_buffer m) w;
     Some (db, mp\<lparr>mp_msgs := (mp_msgs mp)(p \<mapsto> \<lparr>bm_buffer = NULL, bm_size = 0, bm_next = mp_freelist mp\<rparr>),
                  mp_freelist := p\<rparr>, w)
   })"

text \<open>\<open>memcpy\<close> of \<open>n\<close> bytes from offset \<open>off\<close> of the block \<open>p\<close>.\<close>

definition read_slice :: "ptr \<Rightarrow> int \<Rightarrow> int \<Rightarrow> server \<Rightarrow> u8 list option" where
  "read_slice p off n w = (case sv_heap w p of
     Some (Bytes bs) \<Rightarrow> if 0 \<le> off \<and> 0 \<le> n \<and> off + n \<le> int (length bs) then Some (take (nat n) (drop (nat off) bs)) else None
   | _ \<Rightarrow> None)"

partial_function (option) read_loop :: "dbuf \<Rightarrow> int \<Rightarrow> (dbuf \<times> u8 list) option" where
  "read_loop s sz = (case s of (db, mp, w) \<Rightarrow> do {
     current \<leftarrow> mp_msgs mp (db_head db);
     let bsz = bm_size current - db_offset db;
     if sz < bsz then do {
       bs \<leftarrow> read_slice (bm_buffer current) (db_offset db) sz w;
       Some ((db\<lparr>db_offset := db_offset db + sz\<rparr>, mp, w), bs)
     } else if bsz = sz then do {
       bs \<leftarrow> read_slice (bm_buffer current) (db_offset db) sz w;
       s \<leftarrow> return_message (db\<lparr>db_offset := 0\<rparr>, mp, w);
       Some (s, bs)
     } else do {
       bs \<leftarrow> read_slice (bm_buffer current) (db_offset db) bsz w;
       (db, mp, w) \<leftarrow> return_message (db, mp, w);
       (s, cs) \<leftarrow> read_loop (db\<lparr>db_offset := 0\<rparr>, mp, w) (sz - bsz);
       Some (s, bs @ cs)
     }
   })"

definition databuffer_read :: "dbuf \<Rightarrow> int \<Rightarrow> (dbuf \<times> u8 list) option" where
  "databuffer_read s sz = (case s of (db, mp, w) \<Rightarrow> do {
     c_assert (sz \<le> db_size db);
     read_loop (db\<lparr>db_size := db_size db - sz\<rparr>, mp, w) sz
   })"

text \<open>The address of the next pool, and the nodes of a new pool at \<open>q\<close>.\<close>

definition pool_fresh :: "messagepool \<Rightarrow> ptr" where
  "pool_fresh mp = Suc (MESSAGEPOOL * length (mp_pool mp))"

definition new_pool :: "ptr \<Rightarrow> (ptr \<Rightarrow> message option) \<Rightarrow> ptr \<Rightarrow> message option" where
  "new_pool q M = (\<lambda>p. if q \<le> p \<and> p < q + MESSAGEPOOL
     then Some \<lparr>bm_buffer = NULL, bm_size = 0, bm_next = (if Suc p = q + MESSAGEPOOL then NULL else Suc p)\<rparr>
     else M p)"

definition pool_alloc :: "messagepool \<Rightarrow> (messagepool \<times> ptr) option" where
  "pool_alloc mp =
     (if mp_freelist mp \<noteq> NULL then do {
        let p = mp_freelist mp;
        m \<leftarrow> mp_msgs mp p;
        Some (mp\<lparr>mp_freelist := bm_next m\<rparr>, p)
      } else let q = pool_fresh mp
        in Some (mp\<lparr>mp_msgs := new_pool q (mp_msgs mp), mp_pool := q # mp_pool mp, mp_freelist := Suc q\<rparr>, q))"

definition databuffer_push :: "dbuf \<Rightarrow> ptr \<Rightarrow> int \<Rightarrow> dbuf option" where
  "databuffer_push s data sz = (case s of (db, mp, w) \<Rightarrow> do {
     (mp, p) \<leftarrow> pool_alloc mp;
     let mp = mp\<lparr>mp_msgs := (mp_msgs mp)(p \<mapsto> \<lparr>bm_buffer = data, bm_size = sz, bm_next = NULL\<rparr>)\<rparr>;
     c_assert (db_size db + sz < 2 ^ 31);
     let db = db\<lparr>db_size := db_size db + sz\<rparr>;
     if db_head db = NULL then do {
       c_assert (db_tail db = NULL);
       Some (db\<lparr>db_head := p, db_tail := p\<rparr>, mp, w)
     } else do {
       t \<leftarrow> mp_msgs mp (db_tail db);
       Some (db\<lparr>db_tail := p\<rparr>, mp\<lparr>mp_msgs := (mp_msgs mp)(db_tail db \<mapsto> t\<lparr>bm_next := p\<rparr>)\<rparr>, w)
     }
   })"

definition header_value :: "int \<Rightarrow> u8 list \<Rightarrow> int option" where
  "header_value header_size plen =
     (if header_size = 2 then do {
        a \<leftarrow> array_get plen 0; b \<leftarrow> array_get plen 1;
        Some (uint (push_bit 8 (ucast a) OR ucast b :: u32))
      } else do {
        a \<leftarrow> array_get plen 0; b \<leftarrow> array_get plen 1; c \<leftarrow> array_get plen 2; d \<leftarrow> array_get plen 3;
        Some (sint (push_bit 24 (ucast a) OR push_bit 16 (ucast b) OR push_bit 8 (ucast c) OR ucast d :: u32))
      })"

definition databuffer_readheader :: "dbuf \<Rightarrow> int \<Rightarrow> (dbuf \<times> int) option" where
  "databuffer_readheader s header_size = (case s of (db, mp, w) \<Rightarrow>
     if db_header db = 0 \<and> db_size db < header_size then Some (s, - 1)
     else do {
       (db, mp, w) \<leftarrow> (if db_header db = 0 then do {
           ((db, mp, w), plen) \<leftarrow> databuffer_read s header_size;
           h \<leftarrow> header_value header_size plen;
           Some (db\<lparr>db_header := h\<rparr>, mp, w)
         } else Some s);
       if db_size db < db_header db then Some ((db, mp, w), - 1) else Some ((db, mp, w), db_header db)
     })"

definition databuffer_reset :: "databuffer \<Rightarrow> databuffer" where
  "databuffer_reset db = db\<lparr>db_header := 0\<rparr>"

partial_function (option) databuffer_clear :: "dbuf \<Rightarrow> dbuf option" where
  "databuffer_clear s = (case s of (db, mp, w) \<Rightarrow>
     if db_head db \<noteq> NULL then do { s \<leftarrow> return_message s; databuffer_clear s }
     else Some (databuffer_zero, mp, w))"

section \<open>What a buffer holds\<close>

text \<open>
  The chunks of a buffer as triples of node, block and bytes, and the free nodes. The frame
  \<open>(N, D, M0, w0)\<close> lists the nodes and blocks of others, which no operation may touch.
\<close>

type_synonym chunk = "ptr \<times> ptr \<times> u8 list"
type_synonym dframe = "ptr set \<times> ptr set \<times> (ptr \<Rightarrow> message option) \<times> server"

fun msgs_at :: "(ptr \<Rightarrow> message option) \<Rightarrow> (ptr \<Rightarrow> block option) \<Rightarrow> ptr \<Rightarrow> chunk list \<Rightarrow> bool" where
  "msgs_at M H p [] \<longleftrightarrow> p = NULL"
| "msgs_at M H p ((x, d, b) # L) \<longleftrightarrow> p = x \<and> x \<noteq> NULL \<and> d \<noteq> NULL \<and> H d = Some (Bytes b) \<and>
     (\<exists>n. M x = Some \<lparr>bm_buffer = d, bm_size = int (length b), bm_next = n\<rparr> \<and> msgs_at M H n L)"

fun free_at :: "(ptr \<Rightarrow> message option) \<Rightarrow> ptr \<Rightarrow> ptr list \<Rightarrow> bool" where
  "free_at M p [] \<longleftrightarrow> p = NULL"
| "free_at M p (x # F) \<longleftrightarrow> p = x \<and> x \<noteq> NULL \<and> (\<exists>m. M x = Some m \<and> free_at M (bm_next m) F)"

abbreviation nodes :: "chunk list \<Rightarrow> ptr list" where
  "nodes L \<equiv> map fst L"

abbreviation blocks :: "chunk list \<Rightarrow> ptr list" where
  "blocks L \<equiv> map (fst \<circ> snd) L"

abbreviation chunk_bytes :: "chunk list \<Rightarrow> u8 list" where
  "chunk_bytes L \<equiv> concat (map (snd \<circ> snd) L)"

definition pool_ok :: "messagepool \<Rightarrow> ptr list \<Rightarrow> bool" where
  "pool_ok mp F \<longleftrightarrow> free_at (mp_msgs mp) (mp_freelist mp) F \<and>
     (\<forall>p. mp_msgs mp p \<noteq> None \<longrightarrow> p < pool_fresh mp)"

definition offset_ok :: "databuffer \<Rightarrow> chunk list \<Rightarrow> bool" where
  "offset_ok db L \<longleftrightarrow> 0 \<le> db_offset db \<and>
     (case L of [] \<Rightarrow> db_offset db = 0 | (x, d, b) # _ \<Rightarrow> db_offset db \<le> int (length b))"

definition db_chunks :: "dframe \<Rightarrow> dbuf \<Rightarrow> chunk list \<Rightarrow> ptr list \<Rightarrow> bool" where
  "db_chunks fr s L F \<longleftrightarrow> (case (fr, s) of ((N, D, M0, w0), (db, mp, w)) \<Rightarrow>
     msgs_at (mp_msgs mp) (sv_heap w) (db_head db) L \<and> pool_ok mp F \<and>
     db_tail db = (if L = [] then NULL else fst (last L)) \<and> offset_ok db L \<and>
     distinct (nodes L @ F) \<and> distinct (blocks L) \<and>
     N \<inter> set (nodes L @ F) = {} \<and> D \<inter> set (blocks L) = {} \<and>
     (\<forall>x\<in>N. x < pool_fresh mp \<and> mp_msgs mp x = M0 x) \<and>
     w = w0\<lparr>sv_heap := sv_heap w\<rparr> \<and> (\<forall>d\<in>D. sv_heap w d = sv_heap w0 d))"

definition db_bytes :: "databuffer \<Rightarrow> chunk list \<Rightarrow> u8 list" where
  "db_bytes db L = drop (nat (db_offset db)) (chunk_bytes L)"

definition db_rep :: "dframe \<Rightarrow> dbuf \<Rightarrow> u8 list \<Rightarrow> bool" where
  "db_rep fr s bs \<longleftrightarrow> (\<exists>L F. db_chunks fr s L F \<and> bs = db_bytes (fst s) L \<and> db_size (fst s) = int (length bs))"

lemma db_upd [simp]:
  "offset_ok (db\<lparr>db_size := n\<rparr>) L = offset_ok db L" "offset_ok (db\<lparr>db_header := n\<rparr>) L = offset_ok db L"
  "offset_ok (db\<lparr>db_head := p\<rparr>) L = offset_ok db L" "offset_ok (db\<lparr>db_tail := p\<rparr>) L = offset_ok db L"
  "db_bytes (db\<lparr>db_size := n\<rparr>) L = db_bytes db L" "db_bytes (db\<lparr>db_header := n\<rparr>) L = db_bytes db L"
  by (simp_all add: offset_ok_def db_bytes_def split: list.splits)

lemma db_chunks_upd [simp]:
  "db_chunks fr (db\<lparr>db_size := n\<rparr>, mp, w) L F = db_chunks fr (db, mp, w) L F"
  "db_chunks fr (db\<lparr>db_header := n\<rparr>, mp, w) L F = db_chunks fr (db, mp, w) L F"
  by (simp_all add: db_chunks_def split: prod.splits)

section \<open>Reading\<close>

lemma msgs_at_cong:
  assumes "\<And>x. x \<in> set (nodes L) \<Longrightarrow> M' x = M x" "\<And>d. d \<in> set (blocks L) \<Longrightarrow> H' d = H d"
  shows "msgs_at M' H' p L = msgs_at M H p L"
  using assms by (induction M H p L rule: msgs_at.induct) auto

lemma free_at_cong:
  assumes "\<And>x. x \<in> set F \<Longrightarrow> M' x = M x"
  shows "free_at M' p F = free_at M p F"
  using assms by (induction M p F rule: free_at.induct) auto

lemma db_chunksD:
  assumes "db_chunks (N, D, M0, w0) (db, mp, w) L F"
  shows "msgs_at (mp_msgs mp) (sv_heap w) (db_head db) L" "free_at (mp_msgs mp) (mp_freelist mp) F"
    "\<And>p. mp_msgs mp p \<noteq> None \<Longrightarrow> p < pool_fresh mp" "db_tail db = (if L = [] then NULL else fst (last L))"
    "offset_ok db L" "distinct (nodes L @ F)" "distinct (blocks L)"
    "N \<inter> set (nodes L @ F) = {}" "D \<inter> set (blocks L) = {}"
    "\<And>x. x \<in> N \<Longrightarrow> x < pool_fresh mp" "\<And>x. x \<in> N \<Longrightarrow> mp_msgs mp x = M0 x"
    "w = w0\<lparr>sv_heap := sv_heap w\<rparr>" "\<And>d. d \<in> D \<Longrightarrow> sv_heap w d = sv_heap w0 d"
  using assms unfolding db_chunks_def pool_ok_def by auto

lemma return_message_ok:
  assumes "db_chunks fr (db, mp, w) ((x, d, b) # L) F"
  shows "\<exists>db' mp' w'. return_message (db\<lparr>db_offset := off\<rparr>, mp, w) = Some (db'\<lparr>db_offset := off\<rparr>, mp', w') \<and>
    db_chunks fr (db'\<lparr>db_offset := 0\<rparr>, mp', w') L (x # F) \<and> db_size db' = db_size db \<and> db_header db' = db_header db"
proof -
  obtain N D M0 w0 where fr: "fr = (N, D, M0, w0)" by (cases fr)
  note C = db_chunksD[OF assms[unfolded fr]]
  obtain n where n: "db_head db = x" "x \<noteq> NULL" "d \<noteq> NULL" "sv_heap w d = Some (Bytes b)"
    "mp_msgs mp x = Some \<lparr>bm_buffer = d, bm_size = int (length b), bm_next = n\<rparr>" "msgs_at (mp_msgs mp) (sv_heap w) n L"
    using C(1) by auto
  have nL: "n = NULL \<longleftrightarrow> L = []" using n(6) by (cases L) auto
  define db' where "db' = (if n = NULL then db\<lparr>db_head := NULL, db_tail := NULL\<rparr> else db\<lparr>db_head := n\<rparr>)"
  define mp' where "mp' = mp\<lparr>mp_msgs := (mp_msgs mp)(x \<mapsto> \<lparr>bm_buffer = NULL, bm_size = 0, bm_next = mp_freelist mp\<rparr>),
      mp_freelist := x\<rparr>"
  define w' where "w' = w\<lparr>sv_heap := (sv_heap w)(d := None)\<rparr>"
  have t: "n = NULL \<Longrightarrow> db_tail db = x" using C(4) nL by simp
  have "return_message (db\<lparr>db_offset := off\<rparr>, mp, w) = Some (db'\<lparr>db_offset := off\<rparr>, mp', w')"
    using n t by (simp add: return_message_def skynet_free_def db'_def mp'_def w'_def)
  moreover have "msgs_at (mp_msgs mp') (sv_heap w') n L = msgs_at (mp_msgs mp) (sv_heap w) n L"
    using C(6,7) by (intro msgs_at_cong) (auto simp: mp'_def w'_def)
  moreover have "free_at (mp_msgs mp') (mp_freelist mp) F = free_at (mp_msgs mp) (mp_freelist mp) F"
    using C(6) by (intro free_at_cong) (auto simp: mp'_def)
  moreover have "w' = w0\<lparr>sv_heap := sv_heap w'\<rparr>" using C(12) by (cases w; cases w0) (simp add: w'_def)
  moreover have fresh: "pool_fresh mp' = pool_fresh mp" by (simp add: pool_fresh_def mp'_def)
  moreover have "p < pool_fresh mp" if "mp_msgs mp' p \<noteq> None" for p
    using that C(3)[of p] C(3)[of x] n(5) by (auto simp: mp'_def split: if_splits)
  moreover have "mp_msgs mp' y = M0 y \<and> y < pool_fresh mp" if "y \<in> N" for y using that C(8,10,11) by (auto simp: mp'_def)
  moreover have "sv_heap w' e = sv_heap w0 e" if "e \<in> D" for e using that C(9,13) by (auto simp: w'_def)
  moreover have "offset_ok (db'\<lparr>db_offset := 0\<rparr>) L" by (auto simp: offset_ok_def split: list.splits)
  ultimately have "return_message (db\<lparr>db_offset := off\<rparr>, mp, w) = Some (db'\<lparr>db_offset := off\<rparr>, mp', w')"
    "db_chunks fr (db'\<lparr>db_offset := 0\<rparr>, mp', w') L (x # F)"
    using C(2,4,6,7,8,9) n(2,6) nL fresh
    by (auto simp: fr db_chunks_def pool_ok_def db'_def) (auto simp: mp'_def)
  then show ?thesis by (auto simp: db'_def)
qed

lemma db_offset_self: "db\<lparr>db_offset := db_offset db\<rparr> = db"
  by (cases db) simp

lemma read_slice_ok:
  assumes "sv_heap w d = Some (Bytes b)" "0 \<le> off" "0 \<le> n" "off + n \<le> int (length b)"
  shows "read_slice d off n w = Some (take (nat n) (drop (nat off) b))"
  using assms by (simp add: read_slice_def)

lemma db_chunks_offset:
  assumes "db_chunks fr (db, mp, w) L F" "offset_ok (db\<lparr>db_offset := off\<rparr>) L"
  shows "db_chunks fr (db\<lparr>db_offset := off\<rparr>, mp, w) L F"
  using assms by (auto simp: db_chunks_def split: prod.splits)

lemma read_loop_ok:
  assumes "db_chunks fr (db, mp, w) L F" "0 < sz" "sz \<le> int (length (db_bytes db L))"
  shows "\<exists>db' mp' w' L' F'. read_loop (db, mp, w) sz = Some ((db', mp', w'), take (nat sz) (db_bytes db L)) \<and>
    db_chunks fr (db', mp', w') L' F' \<and> db_bytes db' L' = drop (nat sz) (db_bytes db L) \<and>
    db_size db' = db_size db \<and> db_header db' = db_header db"
  using assms
proof (induction L arbitrary: db mp w F sz)
  case Nil
  then show ?case by (simp add: db_bytes_def)
next
  case (Cons c L)
  obtain x d b where c: "c = (x, d, b)" by (cases c)
  obtain N D M0 w0 where fr: "fr = (N, D, M0, w0)" by (cases fr)
  note C = db_chunksD[OF Cons.prems(1)[unfolded fr c]]
  let ?off = "db_offset db" let ?bsz = "int (length b) - ?off"
  obtain n where n: "db_head db = x" "sv_heap w d = Some (Bytes b)"
    "mp_msgs mp x = Some \<lparr>bm_buffer = d, bm_size = int (length b), bm_next = n\<rparr>"
    using C(1) by auto
  have off: "0 \<le> ?off" "?off \<le> int (length b)" using C(5) by (auto simp: offset_ok_def)
  have bytes: "db_bytes db (c # L) = drop (nat ?off) b @ chunk_bytes L" using off c by (simp add: db_bytes_def)
  have ld: "length (drop (nat ?off) b) = nat ?bsz" using off by simp
  note ret = return_message_ok[OF Cons.prems(1)[unfolded c]]
  have bb: "db_bytes (db'\<lparr>db_offset := 0\<rparr>) L = chunk_bytes L" for db' by (simp add: db_bytes_def)
  consider "sz < ?bsz" | "sz = ?bsz" | "?bsz < sz" by linarith
  then show ?case
  proof cases
    case 1
    have s: "read_slice d ?off sz w = Some (take (nat sz) (drop (nat ?off) b))"
      using 1 off n(2) Cons.prems(2) by (intro read_slice_ok) auto
    have "db_chunks fr (db\<lparr>db_offset := ?off + sz\<rparr>, mp, w) (c # L) F"
      using Cons.prems(1,2) off 1 c by (intro db_chunks_offset) (auto simp: offset_ok_def)
    moreover have "db_bytes (db\<lparr>db_offset := ?off + sz\<rparr>) (c # L) = drop (nat sz) (db_bytes db (c # L))"
    proof -
      have "drop (nat (?off + sz)) X = drop (nat sz) (drop (nat ?off) X)" for X :: "u8 list"
        using off Cons.prems(2) by (simp add: nat_add_distrib add.commute)
      from this[of "chunk_bytes (c # L)"] show ?thesis by (simp add: db_bytes_def)
    qed
    moreover have "take (nat sz) (db_bytes db (c # L)) = take (nat sz) (drop (nat ?off) b)"
      using 1 ld by (simp add: bytes)
    ultimately show ?thesis using 1 n s by (subst read_loop.simps) (auto simp: Let_def)
  next
    case 2
    have s: "read_slice d ?off sz w = Some (take (nat sz) (drop (nat ?off) b))"
      using 2 off n(2) Cons.prems(2) by (intro read_slice_ok) auto
    obtain db' mp' w' where r: "return_message (db\<lparr>db_offset := 0\<rparr>, mp, w) = Some (db'\<lparr>db_offset := 0\<rparr>, mp', w')"
      "db_chunks fr (db'\<lparr>db_offset := 0\<rparr>, mp', w') L (x # F)" "db_size db' = db_size db" "db_header db' = db_header db"
      using ret[of 0] by blast
    have "read_loop (db, mp, w) sz = Some ((db'\<lparr>db_offset := 0\<rparr>, mp', w'), take (nat sz) (db_bytes db (c # L)))"
      using 2 n s r(1) ld by (subst read_loop.simps) (simp add: Let_def bytes)
    moreover have "db_bytes (db'\<lparr>db_offset := 0\<rparr>) L = drop (nat sz) (db_bytes db (c # L))"
      using 2 ld by (simp add: bytes bb)
    ultimately show ?thesis using r by fastforce
  next
    case 3
    have s: "read_slice d ?off ?bsz w = Some (drop (nat ?off) b)"
      using read_slice_ok[OF n(2), of ?off ?bsz] off ld by simp
    obtain db' mp' w' where r: "return_message (db, mp, w) = Some (db'\<lparr>db_offset := ?off\<rparr>, mp', w')"
      "db_chunks fr (db'\<lparr>db_offset := 0\<rparr>, mp', w') L (x # F)" "db_size db' = db_size db" "db_header db' = db_header db"
      using ret[of ?off] unfolding db_offset_self by blast
    have lt: "0 < sz - ?bsz" "sz - ?bsz \<le> int (length (db_bytes (db'\<lparr>db_offset := 0\<rparr>) L))"
      using 3 Cons.prems(3) ld off unfolding bb bytes length_append by linarith+
    obtain db2 mp2 w2 L' F' where ih: "read_loop (db'\<lparr>db_offset := 0\<rparr>, mp', w') (sz - ?bsz) =
        Some ((db2, mp2, w2), take (nat (sz - ?bsz)) (chunk_bytes L))"
      "db_chunks fr (db2, mp2, w2) L' F'" "db_bytes db2 L' = drop (nat (sz - ?bsz)) (chunk_bytes L)"
      "db_size db2 = db_size db" "db_header db2 = db_header db"
      using Cons.IH[OF r(2) lt] r(3,4) unfolding bb by auto
    have split: "nat sz = nat ?bsz + nat (sz - ?bsz)" using 3 off by linarith
    have "read_loop (db, mp, w) sz = Some ((db2, mp2, w2), take (nat sz) (db_bytes db (c # L)))"
      using 3 n s r(1) ih(1) ld by (subst read_loop.simps) (simp add: Let_def bytes split)
    moreover have "db_bytes db2 L' = drop (nat sz) (db_bytes db (c # L))"
      using ih(3) ld by (simp add: bytes split)
    ultimately show ?thesis using ih by blast
  qed
qed

lemma databuffer_read_ok:
  assumes "db_rep fr s (as @ bs)" "as \<noteq> []"
  shows "\<exists>s'. databuffer_read s (int (length as)) = Some (s', as) \<and> db_rep fr s' bs \<and>
    db_header (fst s') = db_header (fst s)"
proof -
  obtain db mp w where s: "s = (db, mp, w)" by (cases s)
  obtain L F where r: "db_chunks fr (db, mp, w) L F" "as @ bs = db_bytes db L" "db_size db = int (length (as @ bs))"
    using assms(1) unfolding s db_rep_def fst_conv by blast
  let ?db = "db\<lparr>db_size := db_size db - int (length as)\<rparr>"
  have b: "db_bytes ?db L = as @ bs" using r(2) by (simp add: db_bytes_def)
  have "db_chunks fr (?db, mp, w) L F" using r(1) by simp
  then obtain db' mp' w' L' F' where "read_loop (?db, mp, w) (int (length as)) = Some ((db', mp', w'), as)"
    "db_chunks fr (db', mp', w') L' F'" "db_bytes db' L' = bs" "db_size db' = db_size ?db" "db_header db' = db_header db"
    using read_loop_ok[of fr ?db mp w L F "int (length as)"] assms(2) unfolding b by auto
  then show ?thesis using r(3) by (auto simp: s databuffer_read_def db_rep_def)
qed

section \<open>Pushing\<close>

lemma free_at_new:
  "p + k \<le> q + MESSAGEPOOL \<Longrightarrow> 0 < p \<Longrightarrow> q \<le> p \<Longrightarrow> 0 < k \<Longrightarrow> p + k = q + MESSAGEPOOL \<Longrightarrow>
   free_at (new_pool q M) p [p..<p + k]"
proof (induction k arbitrary: p)
  case (Suc k)
  have l: "[p..<p + Suc k] = p # [Suc p..<Suc p + k]" by (simp add: upt_conv_Cons)
  have np: "new_pool q M p = Some \<lparr>bm_buffer = NULL, bm_size = 0, bm_next = (if k = 0 then NULL else Suc p)\<rparr>"
    using Suc.prems by (auto simp: new_pool_def)
  have "free_at (new_pool q M) (if k = 0 then NULL else Suc p) [Suc p..<Suc p + k]"
    using Suc by (cases "k = 0") auto
  then show ?case unfolding l using Suc.prems(2) np by (simp del: upt_Suc)
qed simp

lemma pool_alloc_ok:
  assumes c: "db_chunks (N, D, M0, w0) (db, mp, w) L F"
  shows "\<exists>mp' p F'. pool_alloc mp = Some (mp', p) \<and> db_chunks (N, D, M0, w0) (db, mp', w) L F' \<and>
    p \<noteq> NULL \<and> p < pool_fresh mp' \<and> p \<notin> N \<and> p \<notin> set (nodes L @ F')"
proof (cases F)
  case (Cons x F')
  note C = db_chunksD[OF c]
  obtain m where m: "mp_freelist mp = x" "x \<noteq> NULL" "mp_msgs mp x = Some m" "free_at (mp_msgs mp) (bm_next m) F'"
    using C(2) Cons by auto
  let ?mp = "mp\<lparr>mp_freelist := bm_next m\<rparr>"
  have pf: "pool_fresh ?mp = pool_fresh mp" by (simp add: pool_fresh_def)
  have "db_chunks (N, D, M0, w0) (db, ?mp, w) L F'"
    using C(1,3-) m Cons pf by (auto simp: db_chunks_def pool_ok_def)
  moreover have "x < pool_fresh mp" using C(3) m(3) by simp
  moreover have "x \<notin> N" "x \<notin> set (nodes L @ F')" using C(6,8) Cons by auto
  ultimately show ?thesis using m pf by (auto simp: pool_alloc_def)
next
  case Nil
  note C = db_chunksD[OF c]
  let ?q = "pool_fresh mp"
  let ?mp = "mp\<lparr>mp_msgs := new_pool ?q (mp_msgs mp), mp_pool := ?q # mp_pool mp, mp_freelist := Suc ?q\<rparr>"
  let ?F = "[Suc ?q..<?q + MESSAGEPOOL]"
  have pf: "pool_fresh ?mp = ?q + MESSAGEPOOL" by (simp add: pool_fresh_def)
  have q: "0 < ?q" "1 < MESSAGEPOOL" by (simp_all add: pool_fresh_def MESSAGEPOOL_def)
  have old: "x < ?q" if "x \<in> set (nodes L)" for x
  proof -
    have "msgs_at M H p K \<Longrightarrow> x \<in> set (nodes K) \<Longrightarrow> M x \<noteq> None" for M H p K
      by (induction M H p K rule: msgs_at.induct) auto
    then show ?thesis using C(1,3) that by blast
  qed
  have "free_at (new_pool ?q (mp_msgs mp)) (Suc ?q) ?F"
    using free_at_new[of "Suc ?q" "MESSAGEPOOL - 1" ?q "mp_msgs mp"] q by simp
  moreover have same: "new_pool ?q (mp_msgs mp) x = mp_msgs mp x" if "x < ?q" for x
    using that by (simp add: new_pool_def)
  moreover have "msgs_at (new_pool ?q (mp_msgs mp)) (sv_heap w) (db_head db) L"
    using C(1) old same by (subst msgs_at_cong[of L _ "mp_msgs mp" _ "sv_heap w"]) auto
  moreover have "p < ?q + MESSAGEPOOL" if "new_pool ?q (mp_msgs mp) p \<noteq> None" for p
    using that C(3)[of p] by (auto simp: new_pool_def split: if_splits)
  moreover have "N \<inter> set ?F = {}" using C(10) by force
  moreover have "set (nodes L) \<inter> set ?F = {}" using old by force
  moreover have "x < ?q + MESSAGEPOOL \<and> new_pool ?q (mp_msgs mp) x = M0 x" if "x \<in> N" for x
    using that C(10,11) same by fastforce
  ultimately have "db_chunks (N, D, M0, w0) (db, ?mp, w) L ?F"
    using C(4-9,12,13) pf unfolding db_chunks_def pool_ok_def by auto
  moreover have "?q \<notin> N" using C(10) by blast
  moreover have "?q \<notin> set (nodes L)" using old by blast
  ultimately show ?thesis using C(2) Nil pf q by (auto simp: pool_alloc_def Let_def)
qed

lemma msgs_at_snoc:
  assumes "msgs_at M H q L" "L \<noteq> []" "distinct (nodes L)" "p \<notin> set (nodes L)" "p \<noteq> NULL" "d \<noteq> NULL" "H d = Some (Bytes b)"
  shows "\<exists>t. M (fst (last L)) = Some t \<and>
    msgs_at (M(p \<mapsto> \<lparr>bm_buffer = d, bm_size = int (length b), bm_next = NULL\<rparr>, fst (last L) \<mapsto> t\<lparr>bm_next := p\<rparr>)) H q (L @ [(p, d, b)])"
  using assms
proof (induction L arbitrary: q)
  case (Cons c L)
  obtain x e a where c: "c = (x, e, a)" by (cases c)
  show ?case
  proof (cases "L = []")
    case True
    then show ?thesis using Cons.prems c by auto
  next
    case False
    obtain n where n: "q = x" "x \<noteq> NULL" "e \<noteq> NULL" "H e = Some (Bytes a)"
      "M x = Some \<lparr>bm_buffer = e, bm_size = int (length a), bm_next = n\<rparr>" "msgs_at M H n L"
      using Cons.prems(1) c by auto
    obtain t where t: "M (fst (last L)) = Some t"
      "msgs_at (M(p \<mapsto> \<lparr>bm_buffer = d, bm_size = int (length b), bm_next = NULL\<rparr>, fst (last L) \<mapsto> t\<lparr>bm_next := p\<rparr>)) H n (L @ [(p, d, b)])"
      using Cons.IH[OF n(6) False _ _ Cons.prems(5-7)] Cons.prems(3,4) c by (simp del: fun_upd_apply) blast
    define M' where "M' = M(p \<mapsto> \<lparr>bm_buffer = d, bm_size = int (length b), bm_next = NULL\<rparr>, fst (last L) \<mapsto> t\<lparr>bm_next := p\<rparr>)"
    have "x \<noteq> p" "x \<noteq> fst (last L)" using Cons.prems(3,4) c False by (auto simp: last_in_set)
    then have "M' x = M x" by (simp add: M'_def)
    then have "msgs_at M' H q ((c # L) @ [(p, d, b)])" using t(2) n c by (simp add: M'_def[symmetric])
    then show ?thesis using t(1) False by (auto simp: M'_def simp del: fun_upd_apply)
  qed
qed simp

lemma offset_ok_snoc: "offset_ok db L \<Longrightarrow> offset_ok db (L @ [c])"
  by (auto simp: offset_ok_def split: list.splits)

lemma databuffer_push_ok:
  assumes r: "db_rep (N, D, M0, w0) s bs" and b: "sv_heap (snd (snd s)) d = Some (Bytes b)" "d \<noteq> NULL"
    and d: "\<forall>L F. db_chunks (N, D, M0, w0) s L F \<longrightarrow> d \<notin> set (blocks L)" "d \<notin> D"
    and sz: "int (length bs) + int (length b) < 2 ^ 31"
  shows "\<exists>s'. databuffer_push s d (int (length b)) = Some s' \<and> db_rep (N, D, M0, w0) s' (bs @ b) \<and>
    db_header (fst s') = db_header (fst s) \<and> snd (snd s') = snd (snd s) \<and>
    (\<exists>L F p F'. db_chunks (N, D, M0, w0) s L F \<and> db_chunks (N, D, M0, w0) s' (L @ [(p, d, b)]) F')"
proof -
  obtain db mp w where s: "s = (db, mp, w)" by (cases s)
  obtain L F0 where c0: "db_chunks (N, D, M0, w0) (db, mp, w) L F0" "bs = db_bytes db L" "db_size db = int (length bs)"
    using r unfolding s db_rep_def fst_conv by blast
  obtain mp1 p F where a: "pool_alloc mp = Some (mp1, p)" "db_chunks (N, D, M0, w0) (db, mp1, w) L F"
    "p \<noteq> NULL" "p < pool_fresh mp1" "p \<notin> N" "p \<notin> set (nodes L @ F)"
    using pool_alloc_ok[OF c0(1)] by blast
  note C = db_chunksD[OF a(2)]
  have dL: "d \<notin> set (blocks L)" using d(1) c0(1) s by blast
  let ?m = "\<lparr>bm_buffer = d, bm_size = int (length b), bm_next = NULL\<rparr>"
  let ?db = "db\<lparr>db_size := db_size db + int (length b)\<rparr>"
  let ?L = "L @ [(p, d, b)]"
  have hb: "sv_heap w d = Some (Bytes b)" using b s by simp
  have main: "db_chunks (N, D, M0, w0) (?db\<lparr>db_head := hd (nodes ?L), db_tail := p\<rparr>, mp1\<lparr>mp_msgs := M\<rparr>, w) ?L F"
    if M: "msgs_at M (sv_heap w) (hd (nodes ?L)) ?L" "\<And>x. x \<noteq> p \<Longrightarrow> x \<notin> set (nodes L) \<Longrightarrow> M x = mp_msgs mp1 x"
      "\<And>x. M x \<noteq> None \<Longrightarrow> x = p \<or> mp_msgs mp1 x \<noteq> None" for M
  proof -
    have "M x = mp_msgs mp1 x" if "x \<in> set F" for x using that C(6) a(6) by (intro M(2)) auto
    then have f: "free_at M (mp_freelist mp1) F" using C(2) free_at_cong[of F M "mp_msgs mp1"] by simp
    have pf: "pool_fresh (mp1\<lparr>mp_msgs := M\<rparr>) = pool_fresh mp1" by (simp add: pool_fresh_def)
    have "x < pool_fresh mp1" if "M x \<noteq> None" for x using M(3)[OF that] a(4) C(3) by blast
    moreover have "x < pool_fresh mp1 \<and> M x = M0 x" if "x \<in> N" for x
      using that C(8,10,11) a(5) M(2)[of x] by auto
    moreover have "offset_ok (?db\<lparr>db_head := hd (nodes ?L), db_tail := p\<rparr>) ?L"
      using offset_ok_snoc[OF C(5)] by simp
    ultimately show ?thesis using f pf M(1) C(6-9,12,13) a(3,5,6) dL d(2)
      by (auto simp: db_chunks_def pool_ok_def)
  qed
  have bytes: "db_bytes (?db\<lparr>db_head := q, db_tail := p\<rparr>) ?L = bs @ b" for q
    using C(5) c0(2) by (cases L) (auto simp: db_bytes_def offset_ok_def)
  have fits: "db_size db + int (length b) < 2147483648" using sz c0(3) by simp
  have rep: "db_rep (N, D, M0, w0) (?db\<lparr>db_head := hd (nodes ?L), db_tail := p\<rparr>, mp', w) (bs @ b)"
    if "db_chunks (N, D, M0, w0) (?db\<lparr>db_head := hd (nodes ?L), db_tail := p\<rparr>, mp', w) ?L F" for mp'
    unfolding db_rep_def using that bytes c0(3) by (intro exI[of _ ?L] exI[of _ F]) simp
  show ?thesis
  proof (cases "L = []")
    case True
    let ?M = "(mp_msgs mp1)(p \<mapsto> ?m)"
    have "db_chunks (N, D, M0, w0) (?db\<lparr>db_head := p, db_tail := p\<rparr>, mp1\<lparr>mp_msgs := ?M\<rparr>, w) ?L F"
      using main[of ?M] True a(3) b(2) hb by (auto split: if_splits)
    moreover have "databuffer_push s d (int (length b)) = Some (?db\<lparr>db_head := p, db_tail := p\<rparr>, mp1\<lparr>mp_msgs := ?M\<rparr>, w)"
      using C(1,4) True a(1) fits by (simp add: s databuffer_push_def)
    ultimately show ?thesis using rep[of "mp1\<lparr>mp_msgs := ?M\<rparr>"] True s c0(1) by fastforce
  next
    case False
    have h: "db_head db = hd (nodes ?L)" "db_head db \<noteq> NULL" using C(1) False by (cases L; auto)+
    obtain t where t: "mp_msgs mp1 (fst (last L)) = Some t"
      "msgs_at ((mp_msgs mp1)(p \<mapsto> ?m, fst (last L) \<mapsto> t\<lparr>bm_next := p\<rparr>)) (sv_heap w) (db_head db) ?L"
      using msgs_at_snoc[OF C(1) False _ _ a(3) b(2) hb] C(6) a(6) by auto
    let ?M = "(mp_msgs mp1)(p \<mapsto> ?m, fst (last L) \<mapsto> t\<lparr>bm_next := p\<rparr>)"
    have l: "fst (last L) \<in> set (nodes L)" using False by simp
    then have lp: "fst (last L) \<noteq> p" using a(6) by auto
    have "db_chunks (N, D, M0, w0) (?db\<lparr>db_head := hd (nodes ?L), db_tail := p\<rparr>, mp1\<lparr>mp_msgs := ?M\<rparr>, w) ?L F"
      using t l h(1) by (intro main) (auto split: if_splits)
    moreover have "?db\<lparr>db_tail := p\<rparr> = ?db\<lparr>db_head := hd (nodes ?L), db_tail := p\<rparr>" using h(1) by (cases db) simp
    then have "databuffer_push s d (int (length b)) = Some (?db\<lparr>db_head := hd (nodes ?L), db_tail := p\<rparr>, mp1\<lparr>mp_msgs := ?M\<rparr>, w)"
      using C(4) False h a(1) fits t(1) lp by (simp add: s databuffer_push_def)
    ultimately show ?thesis using rep[of "mp1\<lparr>mp_msgs := ?M\<rparr>"] s c0(1) by fastforce
  qed
qed

section \<open>The buffer as a byte stream\<close>

lemma msgs_at_unique: "msgs_at M H p L \<Longrightarrow> msgs_at M H p L' \<Longrightarrow> L = L'"
proof (induction M H p L arbitrary: L' rule: msgs_at.induct)
  case (1 M H p)
  then show ?case by (cases L') auto
next
  case (2 M H p x d b L)
  obtain n where n: "p = x" "x \<noteq> NULL" "H d = Some (Bytes b)" "msgs_at M H n L"
    "M x = Some \<lparr>bm_buffer = d, bm_size = int (length b), bm_next = n\<rparr>"
    using 2(2) by auto
  obtain d' b' n' L'' where n': "L' = (x, d', b') # L''" "H d' = Some (Bytes b')" "msgs_at M H n' L''"
    "M x = Some \<lparr>bm_buffer = d', bm_size = int (length b'), bm_next = n'\<rparr>"
    using 2(3) n(1,2) by (cases L') auto
  have "d' = d" "n' = n" using n(5) n'(4) by auto
  moreover from this have "L = L''" using n(4) n'(3) by (intro 2(1)[of n]) auto
  ultimately show ?case using n(3) n'(1,2) by simp
qed

lemma db_chunks_unique: "db_chunks fr s L F \<Longrightarrow> db_chunks fr s L' F' \<Longrightarrow> L = L'"
  by (auto simp: db_chunks_def split: prod.splits dest: msgs_at_unique)

definition db_owns :: "dframe \<Rightarrow> dbuf \<Rightarrow> ptr \<Rightarrow> bool" where
  "db_owns fr s d \<longleftrightarrow> (\<exists>L F. db_chunks fr s L F \<and> d \<in> set (blocks L))"

text \<open>Chunks that can be pushed: allocated blocks, all different, owned by nobody.\<close>

definition chunks_ok :: "dframe \<Rightarrow> (ptr \<times> u8 list) list \<Rightarrow> dbuf \<Rightarrow> u8 list \<Rightarrow> bool" where
  "chunks_ok fr cs s bs \<longleftrightarrow> distinct (map fst cs) \<and>
     (\<forall>(d, b)\<in>set cs. d \<noteq> NULL \<and> sv_heap (snd (snd s)) d = Some (Bytes b) \<and> \<not> db_owns fr s d \<and> d \<notin> fst (snd fr)) \<and>
     int (length bs) + int (length (concat (map snd cs))) < 2 ^ 31"

lemma push_chunk_ok:
  assumes r: "db_rep fr s bs" and p: "chunks_ok fr ((d, b) # cs) s bs"
  shows "\<exists>s'. databuffer_push s d (int (length b)) = Some s' \<and> db_rep fr s' (bs @ b) \<and> chunks_ok fr cs s' (bs @ b)"
proof -
  obtain N D M0 w0 where fr: "fr = (N, D, M0, w0)" by (cases fr)
  have d: "\<forall>L F. db_chunks fr s L F \<longrightarrow> d \<notin> set (blocks L)" "d \<notin> D" "d \<noteq> NULL" "sv_heap (snd (snd s)) d = Some (Bytes b)"
    "int (length bs) + int (length b) < 2 ^ 31"
    using p by (auto simp: chunks_ok_def db_owns_def fr)
  obtain s' L F q F' where s': "databuffer_push s d (int (length b)) = Some s'" "db_rep fr s' (bs @ b)"
    "snd (snd s') = snd (snd s)" "db_chunks fr s L F" "db_chunks fr s' (L @ [(q, d, b)]) F'"
    using databuffer_push_ok[OF r[unfolded fr] d(4,3) d(1)[unfolded fr] d(2,5)] unfolding fr by blast
  have "\<not> db_owns fr s' e" if "e \<noteq> d" "\<not> db_owns fr s e" for e
  proof
    assume "db_owns fr s' e"
    then obtain L' F'' where l: "db_chunks fr s' L' F''" "e \<in> set (blocks L')" by (auto simp: db_owns_def)
    have "L' = L @ [(q, d, b)]" by (rule db_chunks_unique[OF l(1) s'(5)])
    then have "e \<in> set (blocks L)" using l(2) that(1) by auto
    then show False using that(2) s'(4) unfolding db_owns_def by blast
  qed
  note owns = this
  have "e \<noteq> NULL \<and> sv_heap (snd (snd s')) e = Some (Bytes a) \<and> \<not> db_owns fr s' e \<and> e \<notin> fst (snd fr)"
    if "(e, a) \<in> set cs" for e a
  proof -
    have "e \<noteq> d" using p that unfolding chunks_ok_def by (auto simp: image_iff)
    moreover have "\<not> db_owns fr s e \<and> e \<noteq> NULL \<and> sv_heap (snd (snd s)) e = Some (Bytes a) \<and> e \<notin> fst (snd fr)"
      using p that unfolding chunks_ok_def by auto
    ultimately show ?thesis using owns s'(3) by simp
  qed
  moreover have "distinct (map fst cs)" "int (length (bs @ b)) + int (length (concat (map snd cs))) < 2 ^ 31"
    using p unfolding chunks_ok_def by auto
  ultimately have "chunks_ok fr cs s' (bs @ b)" unfolding chunks_ok_def by blast
  then show ?thesis using s' by blast
qed

interpretation dbstream: byte_stream "db_rep fr" snd "chunks_ok fr"
  "\<lambda>s (d, b). databuffer_push s d (int (length b))" "\<lambda>s n. databuffer_read s (int n)" for fr
proof
  fix s bs c cs assume "db_rep fr s bs" "chunks_ok fr (c # cs) s bs"
  then show "\<exists>s'. (case c of (d, b) \<Rightarrow> databuffer_push s d (int (length b))) = Some s' \<and>
      db_rep fr s' (bs @ snd c) \<and> chunks_ok fr cs s' (bs @ snd c)"
    using push_chunk_ok[of fr s bs "fst c" "snd c" cs] by (cases c) auto
next
  fix s as bs assume "db_rep fr s (as @ bs)" "as \<noteq> []"
  then show "\<exists>s'. databuffer_read s (int (length as)) = Some (s', as) \<and> db_rep fr s' bs"
    using databuffer_read_ok by blast
qed

section \<open>Headers and clearing\<close>

lemma or_byte:
  assumes "unat x < 2 ^ 24"
  shows "unat (push_bit 8 x OR ucast (b :: u8) :: u32) = unat x * 256 + unat b"
proof -
  have b: "unat b < 256" using unsigned_less[of b, where 'a = nat] by simp
  have "push_bit 8 x OR ucast b = push_bit 8 x + (ucast b :: u32)"
    by (rule disjunctive_add[symmetric]) (auto simp: bit_simps dest: bit_imp_le_length)
  moreover have "unat (push_bit 8 x) = unat x * 256"
    using assms by (simp add: push_bit_eq_mult unat_word_ariths)
  moreover have "unat (ucast b :: u32) = unat b" using b by (simp add: unsigned_ucast_eq take_bit_nat_eq_self)
  ultimately show ?thesis using assms b by (simp add: unat_word_ariths)
qed

lemma header_value_ok:
  assumes "length b = hs" "hs = 2 \<or> hs = 4"
  shows "header_value (int hs) b = Some (if hs = 2 then int (be_value b) else to_int32 (int (be_value b)))"
proof (cases "hs = 2")
  case True
  obtain x y where b: "b = [x, y]" using assms(1) True by (auto simp: length_Suc_conv numeral_2_eq_2)
  have "unat x < 256" using unsigned_less[of x, where 'a = nat] by simp
  then have "unat (push_bit 8 (ucast x) OR ucast y :: u32) = unat x * 256 + unat y"
    using or_byte[of "ucast x" y] by (simp add: unsigned_ucast_eq take_bit_nat_eq_self)
  then have "uint (push_bit 8 (ucast x) OR ucast y :: u32) = int (unat x * 256 + unat y)" by (metis uint_nat)
  then show ?thesis using True b by (simp add: header_value_def array_get_def be_value_def)
next
  case False
  then have "length b = Suc (Suc (Suc (Suc 0)))" "hs = 4" using assms by auto
  then obtain x y z t where b: "b = [x, y, z, t]" and hs: "hs = 4" by (auto simp: length_Suc_conv)
  have lt: "unat (v :: u8) < 256" for v using unsigned_less[of v, where 'a = nat] by simp
  let ?h = "push_bit 8 (push_bit 8 (push_bit 8 (ucast x) OR ucast y) OR ucast z) OR ucast t :: u32"
  have 1: "unat (push_bit 8 (ucast x) OR ucast y :: u32) = unat x * 256 + unat y"
    using or_byte[of "ucast x" y] lt[of x] by (simp add: unsigned_ucast_eq take_bit_nat_eq_self)
  then have 2: "unat (push_bit 8 (push_bit 8 (ucast x) OR ucast y) OR ucast z :: u32) = (unat x * 256 + unat y) * 256 + unat z"
    using or_byte[of "push_bit 8 (ucast x) OR ucast y" z] lt[of x] lt[of y] by simp
  then have "unat ?h = be_value b"
    using or_byte[of "push_bit 8 (push_bit 8 (ucast x) OR ucast y) OR ucast z" t] lt[of x] lt[of y] lt[of z]
    by (simp add: be_value_def b)
  moreover have "word_of_int (int (unat ?h)) = ?h" by (simp del: push_bit_word_beyond)
  ultimately have "?h = word_of_int (int (be_value b))" by metis
  moreover have "?h = push_bit 24 (ucast x) OR push_bit 16 (ucast y) OR push_bit 8 (ucast z) OR ucast t"
    by (simp add: push_bit_or or.assoc)
  ultimately show ?thesis using hs by (simp add: header_value_def array_get_def b to_int32_def)
qed

text \<open>The stream still to be framed: a header that was taken off the buffer counts as unread.\<close>

definition db_stream :: "nat \<Rightarrow> dbuf \<Rightarrow> u8 list \<Rightarrow> u8 list" where
  "db_stream hs s bs = (if db_header (fst s) = 0 then bs else be_bytes hs (nat (db_header (fst s))) @ bs)"

definition header_ok :: "nat \<Rightarrow> dbuf \<Rightarrow> bool" where
  "header_ok hs s \<longleftrightarrow> (hs = 2 \<or> hs = 4) \<and> 0 \<le> db_header (fst s) \<and> db_header (fst s) < min (2 ^ 31) (256 ^ hs)"

lemma db_rep_header: "db_rep fr (db\<lparr>db_header := h\<rparr>, mp, w) bs = db_rep fr (db, mp, w) bs"
  by (simp add: db_rep_def)

lemma db_rep_size: "db_rep fr s bs \<Longrightarrow> db_size (fst s) = int (length bs)"
  by (auto simp: db_rep_def)

lemma readheader_short:
  assumes "db_rep fr s bs" "header_ok hs s" "length (db_stream hs s bs) < hs"
  shows "databuffer_readheader s (int hs) = Some (s, - 1)"
  using assms db_rep_size[OF assms(1)]
  by (auto simp: databuffer_readheader_def db_stream_def header_ok_def split: prod.splits if_splits)

text \<open>Taking the header off a stream that holds one.\<close>

lemma readheader_take:
  assumes r: "db_rep fr s bs" and h: "header_ok hs s" and st: "db_stream hs s bs = hd_bytes @ rest" "length hd_bytes = hs"
    and n: "be_value hd_bytes < 2 ^ 31"
  shows "\<exists>s'. databuffer_readheader s (int hs) =
      Some (s', if length rest < be_value hd_bytes then - 1 else int (be_value hd_bytes)) \<and>
    db_rep fr s' rest \<and> db_header (fst s') = int (be_value hd_bytes)"
proof -
  obtain db mp w where s: "s = (db, mp, w)" by (cases s)
  have hs: "hs = 2 \<or> hs = 4" using h by (simp add: header_ok_def)
  let ?n = "be_value hd_bytes"
  show ?thesis
  proof (cases "db_header db = 0")
    case True
    then have bs: "bs = hd_bytes @ rest" using st(1) s by (simp add: db_stream_def)
    obtain s1 where s1: "databuffer_read s (int hs) = Some (s1, hd_bytes)" "db_rep fr s1 rest"
      using databuffer_read_ok[of fr s hd_bytes rest] r bs st(2) hs by fastforce
    obtain db1 mp1 w1 where e1: "s1 = (db1, mp1, w1)" by (cases s1)
    have "to_int32 (int ?n) = int ?n" using n by (intro to_int32_id) auto
    then have hv: "header_value (int hs) hd_bytes = Some (int ?n)" using header_value_ok[OF st(2) hs] by simp
    have sz: "\<not> db_size db < int hs" using db_rep_size[OF r] bs st(2) s by simp
    have sz1: "db_size db1 = int (length rest)" using db_rep_size[OF s1(2)] e1 by simp
    have "databuffer_readheader s (int hs) = Some ((db1\<lparr>db_header := int ?n\<rparr>, mp1, w1),
        if length rest < ?n then - 1 else int ?n)"
      using s1(1) hv True sz sz1 by (simp add: databuffer_readheader_def s e1)
    then show ?thesis using s1(2) e1 by (auto simp: db_rep_header)
  next
    case False
    then have "be_bytes hs (nat (db_header db)) @ bs = hd_bytes @ rest" using st(1) s by (simp add: db_stream_def)
    then have e: "hd_bytes = be_bytes hs (nat (db_header db))" "bs = rest" using st(2) by auto
    have "nat (db_header db) < 256 ^ hs" using h s hs by (auto simp: header_ok_def)
    then have hn: "int ?n = db_header db" using e(1) be_value_bytes[of "nat (db_header db)" hs] h s by (simp add: header_ok_def)
    then have "databuffer_readheader s (int hs) = Some (s, if length rest < ?n then - 1 else int ?n)"
      using False db_rep_size[OF r] e(2) by (auto simp: databuffer_readheader_def s)
    then show ?thesis using r e(2) hn s by auto
  qed
qed

lemma databuffer_clear_ok:
  assumes "db_chunks fr (db, mp, w) L F"
  shows "\<exists>mp' w' F'. databuffer_clear (db\<lparr>db_offset := off\<rparr>, mp, w) = Some (databuffer_zero, mp', w') \<and>
    db_chunks fr (databuffer_zero, mp', w') [] F' \<and> length F' = length F + length L"
  using assms
proof (induction L arbitrary: db mp w F)
  case Nil
  then have "db_chunks fr (databuffer_zero, mp, w) [] F" "db_head db = NULL"
    by (auto simp: db_chunks_def databuffer_zero_def offset_ok_def split: prod.splits)
  then show ?case by (subst databuffer_clear.simps) auto
next
  case (Cons c L)
  obtain x d b where c: "c = (x, d, b)" by (cases c)
  have h: "db_head db \<noteq> NULL" using Cons.prems c by (auto simp: db_chunks_def split: prod.splits)
  obtain db' mp' w' where r: "return_message (db\<lparr>db_offset := off\<rparr>, mp, w) = Some (db'\<lparr>db_offset := off\<rparr>, mp', w')"
    "db_chunks fr (db'\<lparr>db_offset := 0\<rparr>, mp', w') L (x # F)"
    using return_message_ok[OF Cons.prems[unfolded c], of off] by blast
  show ?case using Cons.IH[OF r(2)] h r(1) by (subst databuffer_clear.simps) auto
qed

text \<open>A header of four bytes above \<open>INT_MAX\<close> is read as a negative size.\<close>

lemma header_negative: "header_value 4 [0x80, 0, 0, 0] = Some (- (2 ^ 31))"
  by (simp add: header_value_def array_get_def)

end
