(* ===== verification/Slot_Spec.thy ===== *)
theory Slot_Spec
  imports Prelude
begin

text \<open>
  The contract of a bounded allocator of slots for identifiers: what
  \<^verbatim>\<open>service-src/hashid.h\<close> promises the gate, which keeps the state of a connection in
  the slot of its socket id. A slot belongs to one identifier from its insertion to its
  removal; the consequence for whole histories of connections is proved here once.
\<close>

datatype slot_op = Open int | Close int

fun slot_run ::
  "('s \<Rightarrow> bool) \<Rightarrow> ('s \<Rightarrow> int \<Rightarrow> ('s \<times> int) option) \<Rightarrow> ('s \<Rightarrow> int \<Rightarrow> ('s \<times> int) option) \<Rightarrow> 's \<Rightarrow> slot_op list \<Rightarrow> 's option"
where
  "slot_run full ins rem s [] = Some s"
| "slot_run full ins rem s (Open i # ops) =
     (if full s then slot_run full ins rem s ops else do { (s, _) \<leftarrow> ins s i; slot_run full ins rem s ops })"
| "slot_run full ins rem s (Close i # ops) = do { (s, _) \<leftarrow> rem s i; slot_run full ins rem s ops }"

text \<open>The identifiers that are open after a history, for a table of \<open>n\<close> slots.\<close>

fun open_ids :: "nat \<Rightarrow> int set \<Rightarrow> slot_op list \<Rightarrow> int set" where
  "open_ids n I [] = I"
| "open_ids n I (Open i # ops) = open_ids n (if card I = n then I else insert i I) ops"
| "open_ids n I (Close i # ops) = open_ids n (I - {i}) ops"

text \<open>No identifier is opened while it is open.\<close>

fun fresh_opens :: "nat \<Rightarrow> int set \<Rightarrow> slot_op list \<Rightarrow> bool" where
  "fresh_opens n I [] \<longleftrightarrow> True"
| "fresh_opens n I (Open i # ops) \<longleftrightarrow> i \<notin> I \<and> fresh_opens n (if card I = n then I else insert i I) ops"
| "fresh_opens n I (Close i # ops) \<longleftrightarrow> fresh_opens n (I - {i}) ops"

fun op_id :: "slot_op \<Rightarrow> int" where
  "op_id (Open i) = i"
| "op_id (Close i) = i"

locale slot_table =
  fixes inv :: "'s \<Rightarrow> bool"
    and cap :: "'s \<Rightarrow> nat"
    and valid :: "'s \<Rightarrow> int \<Rightarrow> bool"
    and slot :: "'s \<Rightarrow> int \<Rightarrow> nat option"
    and full :: "'s \<Rightarrow> bool"
    and lookup :: "'s \<Rightarrow> int \<Rightarrow> int option"
    and ins :: "'s \<Rightarrow> int \<Rightarrow> ('s \<times> int) option"
    and rem :: "'s \<Rightarrow> int \<Rightarrow> ('s \<times> int) option"
  assumes slot_bound: "inv s \<Longrightarrow> slot s i = Some k \<Longrightarrow> k < cap s"
    and slot_inj: "inv s \<Longrightarrow> slot s i = Some k \<Longrightarrow> slot s j = Some k \<Longrightarrow> i = j"
    and full_iff: "inv s \<Longrightarrow> full s \<longleftrightarrow> card (dom (slot s)) = cap s"
    and lookup_ok: "inv s \<Longrightarrow> valid s i \<Longrightarrow> lookup s i = Some (case slot s i of None \<Rightarrow> - 1 | Some k \<Rightarrow> int k)"
    and ins_ok: "inv s \<Longrightarrow> valid s i \<Longrightarrow> \<not> full s \<Longrightarrow> slot s i = None \<Longrightarrow>
        \<exists>s' k. ins s i = Some (s', int k) \<and> inv s' \<and> cap s' = cap s \<and> valid s' = valid s \<and>
          k \<notin> ran (slot s) \<and> slot s' = (slot s)(i \<mapsto> k)"
    and rem_ok: "inv s \<Longrightarrow> valid s i \<Longrightarrow>
        \<exists>s'. rem s i = Some (s', case slot s i of None \<Rightarrow> - 1 | Some k \<Rightarrow> int k) \<and> inv s' \<and>
          cap s' = cap s \<and> valid s' = valid s \<and> slot s' = (slot s)(i := None)"
begin

text \<open>Every history runs, and the table then holds exactly the identifiers that are open.\<close>

lemma slot_run_ok:
  "inv s \<Longrightarrow> \<forall>p\<in>set ops. valid s (op_id p) \<Longrightarrow> fresh_opens (cap s) (dom (slot s)) ops \<Longrightarrow>
   \<exists>s'. slot_run full ins rem s ops = Some s' \<and> inv s' \<and> cap s' = cap s \<and> valid s' = valid s \<and>
     dom (slot s') = open_ids (cap s) (dom (slot s)) ops"
proof (induction ops arbitrary: s)
  case (Cons p ops)
  show ?case
  proof (cases p)
    case (Open i)
    show ?thesis
    proof (cases "full s")
      case True
      then show ?thesis using Cons full_iff[OF Cons.prems(1)] Open by simp
    next
      case False
      have v: "valid s i" "slot s i = None" using Cons.prems Open by auto
      obtain s1 k where s1: "ins s i = Some (s1, int k)" "inv s1" "cap s1 = cap s" "valid s1 = valid s"
        "slot s1 = (slot s)(i \<mapsto> k)"
        using ins_ok[OF Cons.prems(1) v(1) False v(2)] by blast
      have d: "dom (slot s1) = insert i (dom (slot s))" using s1(5) by simp
      have c: "card (dom (slot s)) \<noteq> cap s" using False full_iff[OF Cons.prems(1)] by simp
      show ?thesis using Cons.IH[OF s1(2)] Cons.prems s1(1-4) c False Open by (simp add: d)
    qed
  next
    case (Close i)
    have v: "valid s i" using Cons.prems Close by auto
    obtain s1 r where s1: "rem s i = Some (s1, r)" "inv s1" "cap s1 = cap s" "valid s1 = valid s"
      "slot s1 = (slot s)(i := None)"
      using rem_ok[OF Cons.prems(1) v] by blast
    have d: "dom (slot s1) = dom (slot s) - {i}" using s1(5) by simp
    show ?thesis using Cons.IH[OF s1(2)] Cons.prems s1(1-4) Close by (simp add: d)
  qed
qed simp

text \<open>Two identifiers that are found have different slots, inside the array of the client.\<close>

lemma lookup_slots:
  assumes "inv s" "valid s i" "valid s j" "lookup s i = Some a" "lookup s j = Some b" "0 \<le> a" "a = b"
  shows "i = j" "a < int (cap s)"
  using assms lookup_ok slot_inj slot_bound by (auto split: option.splits)

end

end
