(* ===== verification/Hashid.thy ===== *)
theory Hashid
  imports C_Lib Slot_Spec
begin

text \<open>
  \<^verbatim>\<open>service-src/hashid.h\<close>: the table from socket ids to slots of the gate's array of
  connections. Nodes live in one array; a pointer to a node is its index, \<open>NULL\<close> is \<open>None\<close>,
  and the pointer difference \<open>c - hi->uid\<close> is the index itself. Chains of colliding nodes
  are linked through \<open>next\<close>. The invariant \<open>hashid_rep\<close> names the chain of every bucket.
\<close>

section \<open>Data and operations\<close>

record hashid_node =
  hn_id :: int
  hn_next :: "nat option"

record hashid =
  hi_hashmod :: int
  hi_cap :: int
  hi_count :: int
  hi_id :: "hashid_node list"
  hi_hash :: "nat option list"

definition free_node :: hashid_node where
  "free_node = \<lparr>hn_id = - 1, hn_next = None\<rparr>"

text \<open>The doubling of \<open>hashcap\<close>; an overflow of the \<open>int\<close> is undefined and the abort.\<close>

function hashcap_loop :: "int \<Rightarrow> int \<Rightarrow> int option" where
  "hashcap_loop hashcap mx =
     (if hashcap < mx then if hashcap \<le> 0 \<or> 2 ^ 30 \<le> hashcap then None else hashcap_loop (hashcap * 2) mx
      else Some hashcap)"
  by pat_completeness auto
termination
  by (relation "measure (\<lambda>(hashcap, mx). nat (mx - hashcap))") auto

declare hashcap_loop.simps [simp del]

definition hashid_init :: "int \<Rightarrow> hashid option" where
  "hashid_init mx = do {
     hashcap \<leftarrow> hashcap_loop 16 mx;
     Some \<lparr>hi_hashmod = hashcap - 1, hi_cap = mx, hi_count = 0,
       hi_id = replicate (nat mx) free_node, hi_hash = replicate (nat hashcap) None\<rparr>
   }"

definition hashid_clear :: "hashid \<Rightarrow> hashid" where
  "hashid_clear hi = hi\<lparr>hi_id := [], hi_hash := [], hi_hashmod := 1, hi_cap := 0, hi_count := 0\<rparr>"

definition id_hash :: "hashid \<Rightarrow> int \<Rightarrow> nat" where
  "id_hash hi uid = nat (uid AND hi_hashmod hi)"

partial_function (option) lookup_chain :: "hashid \<Rightarrow> int \<Rightarrow> nat option \<Rightarrow> int option" where
  "lookup_chain hi uid c = (case c of
     None \<Rightarrow> Some (- 1)
   | Some i \<Rightarrow> do {
       n \<leftarrow> array_get (hi_id hi) i;
       if hn_id n = uid then Some (int i) else lookup_chain hi uid (hn_next n)
     })"

definition hashid_lookup :: "hashid \<Rightarrow> int \<Rightarrow> int option" where
  "hashid_lookup hi uid = do {
     c \<leftarrow> array_get (hi_hash hi) (id_hash hi uid);
     lookup_chain hi uid c
   }"

text \<open>The loop of \<open>hashid_remove\<close> after node \<open>c\<close>: unlinks the node of \<open>uid\<close> and returns it.\<close>

partial_function (option) remove_scan :: "hashid \<Rightarrow> int \<Rightarrow> nat \<Rightarrow> (hashid \<times> nat option) option" where
  "remove_scan hi uid c = do {
     n \<leftarrow> array_get (hi_id hi) c;
     case hn_next n of
       None \<Rightarrow> Some (hi, None)
     | Some t \<Rightarrow> do {
         m \<leftarrow> array_get (hi_id hi) t;
         if hn_id m = uid then Some (hi\<lparr>hi_id := (hi_id hi)[c := n\<lparr>hn_next := hn_next m\<rparr>]\<rparr>, Some t)
         else remove_scan hi uid t
       }
   }"

definition hashid_remove :: "hashid \<Rightarrow> int \<Rightarrow> (hashid \<times> int) option" where
  "hashid_remove hi uid = do {
     let h = id_hash hi uid;
     p \<leftarrow> array_get (hi_hash hi) h;
     case p of
       None \<Rightarrow> Some (hi, - 1)
     | Some c \<Rightarrow> do {
         n \<leftarrow> array_get (hi_id hi) c;
         (hi, r) \<leftarrow> (if hn_id n = uid then Some (hi\<lparr>hi_hash := (hi_hash hi)[h := hn_next n]\<rparr>, Some c)
                      else remove_scan hi uid c);
         case r of
           None \<Rightarrow> Some (hi, - 1)
         | Some t \<Rightarrow> Some (hi\<lparr>hi_id := (hi_id hi)[t := free_node], hi_count := hi_count hi - 1\<rparr>, int t)
       }
   }"

text \<open>\<open>%\<close> of C on \<open>int\<close>: the remainder has the sign of the dividend.\<close>

definition c_rem :: "int \<Rightarrow> int \<Rightarrow> int" where
  "c_rem a b = sgn a * (\<bar>a\<bar> mod \<bar>b\<bar>)"

text \<open>The search of a free node; \<open>i + uid\<close> wraps, and a negative index is outside the array.\<close>

function insert_scan :: "hashid \<Rightarrow> int \<Rightarrow> int \<Rightarrow> nat option option" where
  "insert_scan hi uid i =
     (if i < hi_cap hi then
        let index = c_rem (to_int32 (i + uid)) (hi_cap hi)
        in if index < 0 then None
           else case array_get (hi_id hi) (nat index) of
                  None \<Rightarrow> None
                | Some n \<Rightarrow> if hn_id n = - 1 then Some (Some (nat index)) else insert_scan hi uid (i + 1)
      else Some None)"
  by pat_completeness auto
termination
  by (relation "measure (\<lambda>(hi, uid, i). nat (hi_cap hi - i))") auto

declare insert_scan.simps [simp del]

definition hashid_insert :: "hashid \<Rightarrow> int \<Rightarrow> (hashid \<times> int) option" where
  "hashid_insert hi uid = do {
     r \<leftarrow> insert_scan hi uid 0;
     c \<leftarrow> r;
     n \<leftarrow> array_get (hi_id hi) c;
     c_assert (hn_next n = None);
     let h = id_hash hi uid;
     p \<leftarrow> array_get (hi_hash hi) h;
     let n = n\<lparr>hn_id := uid, hn_next := p\<rparr>;
     Some (hi\<lparr>hi_count := hi_count hi + 1, hi_id := (hi_id hi)[c := n], hi_hash := (hi_hash hi)[h := Some c]\<rparr>, int c)
   }"

definition hashid_full :: "hashid \<Rightarrow> bool" where
  "hashid_full hi \<longleftrightarrow> hi_count hi = hi_cap hi"

section \<open>Invariant\<close>

fun chain :: "hashid_node list \<Rightarrow> nat option \<Rightarrow> nat list \<Rightarrow> bool" where
  "chain ids c [] \<longleftrightarrow> c = None"
| "chain ids c (x # xs) \<longleftrightarrow> c = Some x \<and> x < length ids \<and> chain ids (hn_next (ids ! x)) xs"

definition used :: "hashid \<Rightarrow> nat set" where
  "used hi = {x. x < length (hi_id hi) \<and> hn_id (hi_id hi ! x) \<noteq> - 1}"

definition hashid_rep :: "hashid \<Rightarrow> (nat \<Rightarrow> nat list) \<Rightarrow> bool" where
  "hashid_rep hi C \<longleftrightarrow>
     int (length (hi_id hi)) = hi_cap hi \<and> int (length (hi_hash hi)) = hi_hashmod hi + 1 \<and> 0 \<le> hi_hashmod hi \<and>
     (\<forall>h < length (hi_hash hi). chain (hi_id hi) (hi_hash hi ! h) (C h) \<and> distinct (C h) \<and>
        set (C h) = {x \<in> used hi. id_hash hi (hn_id (hi_id hi ! x)) = h}) \<and>
     (\<forall>x < length (hi_id hi). x \<notin> used hi \<longrightarrow> hi_id hi ! x = free_node) \<and>
     inj_on (\<lambda>x. hn_id (hi_id hi ! x)) (used hi) \<and>
     hi_count hi = int (card (used hi))"

definition hashid_inv :: "hashid \<Rightarrow> bool" where
  "hashid_inv hi \<longleftrightarrow> (\<exists>C. hashid_rep hi C)"

text \<open>The slot of an id, and the ids whose search cannot overflow.\<close>

definition id_slot :: "hashid \<Rightarrow> int \<Rightarrow> nat option" where
  "id_slot hi uid = (if uid = - 1 then None else find (\<lambda>x. hn_id (hi_id hi ! x) = uid) [0..<length (hi_id hi)])"

definition id_valid :: "hashid \<Rightarrow> int \<Rightarrow> bool" where
  "id_valid hi uid \<longleftrightarrow> 0 \<le> uid \<and> uid + hi_cap hi \<le> 2 ^ 31"

lemma hashid_repD:
  assumes "hashid_rep hi C"
  shows "int (length (hi_id hi)) = hi_cap hi" "int (length (hi_hash hi)) = hi_hashmod hi + 1" "0 \<le> hi_hashmod hi"
    "\<And>h. h < length (hi_hash hi) \<Longrightarrow> chain (hi_id hi) (hi_hash hi ! h) (C h)"
    "\<And>h. h < length (hi_hash hi) \<Longrightarrow> distinct (C h)"
    "\<And>h. h < length (hi_hash hi) \<Longrightarrow> set (C h) = {x \<in> used hi. id_hash hi (hn_id (hi_id hi ! x)) = h}"
    "\<And>x. x < length (hi_id hi) \<Longrightarrow> x \<notin> used hi \<Longrightarrow> hi_id hi ! x = free_node"
    "inj_on (\<lambda>x. hn_id (hi_id hi ! x)) (used hi)" "hi_count hi = int (card (used hi))"
  using assms unfolding hashid_rep_def by blast+

lemma id_hash_less:
  assumes "hashid_rep hi C"
  shows "id_hash hi uid < length (hi_hash hi)"
proof -
  have "uid AND hi_hashmod hi \<le> hi_hashmod hi"
    using hashid_repD(3)[OF assms] by (rule AND_upper2)
  then have "nat (uid AND hi_hashmod hi) \<le> nat (hi_hashmod hi)" by (rule nat_mono)
  then show ?thesis using hashid_repD(2,3)[OF assms] by (simp add: id_hash_def)
qed

lemma chain_cong:
  assumes "length ids' = length ids" "\<And>x. x \<in> set xs \<Longrightarrow> hn_next (ids' ! x) = hn_next (ids ! x)"
  shows "chain ids' c xs = chain ids c xs"
  using assms(2) by (induction xs arbitrary: c) (auto simp: assms(1))

lemma chain_bound: "chain ids c xs \<Longrightarrow> x \<in> set xs \<Longrightarrow> x < length ids"
  by (induction xs arbitrary: c) auto

lemma find_slot_iff:
  assumes "inj_on (\<lambda>x. hn_id (ids ! x)) U" "\<And>x. hn_id (ids ! x) = uid \<Longrightarrow> x \<in> set xs \<longleftrightarrow> x \<in> U"
  shows "find (\<lambda>x. hn_id (ids ! x) = uid) xs = Some x \<longleftrightarrow> x \<in> U \<and> hn_id (ids ! x) = uid"
proof (cases "find (\<lambda>x. hn_id (ids ! x) = uid) xs")
  case None
  then have "hn_id (ids ! x) \<noteq> uid" if "x \<in> set xs" for x using that by (auto simp: find_None_iff)
  then show ?thesis using None assms(2)[of x] by auto
next
  case (Some y)
  then have "y \<in> set xs" "hn_id (ids ! y) = uid" by (auto simp: find_Some_iff)
  then have "y \<in> U" "hn_id (ids ! y) = uid" using assms(2) by auto
  then show ?thesis using Some assms(1) by (auto dest: inj_onD)
qed

lemma id_slot_iff:
  assumes "hashid_rep hi C"
  shows "id_slot hi uid = Some x \<longleftrightarrow> x \<in> used hi \<and> hn_id (hi_id hi ! x) = uid"
proof (cases "uid = - 1")
  case True
  then show ?thesis by (auto simp: id_slot_def used_def)
next
  case False
  then have "x \<in> set [0..<length (hi_id hi)] \<longleftrightarrow> x \<in> used hi" if "hn_id (hi_id hi ! x) = uid" for x
    using that by (simp add: used_def)
  then show ?thesis
    using find_slot_iff[OF hashid_repD(8)[OF assms], of uid "[0..<length (hi_id hi)]" x] False
    by (simp add: id_slot_def)
qed

lemma find_bucket:
  assumes "hashid_rep hi C"
  shows "find (\<lambda>x. hn_id (hi_id hi ! x) = uid) (C (id_hash hi uid)) = id_slot hi uid"
proof -
  have "x \<in> set (C (id_hash hi uid)) \<longleftrightarrow> x \<in> used hi" if "hn_id (hi_id hi ! x) = uid" for x
    using hashid_repD(6)[OF assms id_hash_less[OF assms], of uid] that by auto
  then have "find (\<lambda>x. hn_id (hi_id hi ! x) = uid) (C (id_hash hi uid)) = Some x \<longleftrightarrow> id_slot hi uid = Some x" for x
    using find_slot_iff[OF hashid_repD(8)[OF assms], of uid "C (id_hash hi uid)" x] id_slot_iff[OF assms]
    by simp
  then have "(\<lambda>_. find (\<lambda>x. hn_id (hi_id hi ! x) = uid) (C (id_hash hi uid))) = (\<lambda>_. id_slot hi uid)"
    by (intro map_eqI) simp
  then show ?thesis by metis
qed

section \<open>Lookup\<close>

lemma lookup_chain_ok:
  "chain (hi_id hi) c xs \<Longrightarrow> lookup_chain hi uid c =
     Some (case find (\<lambda>x. hn_id (hi_id hi ! x) = uid) xs of None \<Rightarrow> - 1 | Some k \<Rightarrow> int k)"
  by (induction xs arbitrary: c) (auto simp: lookup_chain.simps array_get_in)

lemma hashid_lookup_ok:
  assumes "hashid_rep hi C"
  shows "hashid_lookup hi uid = Some (case id_slot hi uid of None \<Rightarrow> - 1 | Some k \<Rightarrow> int k)"
  using lookup_chain_ok[OF hashid_repD(4)[OF assms id_hash_less[OF assms]], of uid]
    find_bucket[OF assms] id_hash_less[OF assms]
  by (simp add: hashid_lookup_def array_get_in)

section \<open>Removal\<close>

lemma remove_scan_ok:
  assumes "chain (hi_id hi) (Some c) (c # xs)" "distinct (c # xs)"
  shows "case find (\<lambda>x. hn_id (hi_id hi ! x) = uid) xs of
      None \<Rightarrow> remove_scan hi uid c = Some (hi, None)
    | Some t \<Rightarrow> \<exists>ids. remove_scan hi uid c = Some (hi\<lparr>hi_id := ids\<rparr>, Some t) \<and> length ids = length (hi_id hi) \<and>
        chain ids (Some c) (remove1 t (c # xs)) \<and> (\<forall>x. hn_id (ids ! x) = hn_id (hi_id hi ! x)) \<and>
        (\<forall>x. x \<notin> set (c # xs) \<longrightarrow> ids ! x = hi_id hi ! x)"
  using assms
proof (induction xs arbitrary: c)
  case Nil
  then show ?case by (simp add: remove_scan.simps array_get_in)
next
  case (Cons t ys)
  let ?ids = "hi_id hi"
  have n: "hn_next (?ids ! c) = Some t" "c < length ?ids" "t < length ?ids" using Cons.prems by auto
  show ?case
  proof (cases "hn_id (?ids ! t) = uid")
    case True
    let ?ids' = "?ids[c := (?ids ! c)\<lparr>hn_next := hn_next (?ids ! t)\<rparr>]"
    have "chain ?ids' (hn_next (?ids ! t)) ys"
      using Cons.prems by (subst chain_cong[of _ ?ids]) (auto simp: nth_list_update)
    moreover have "hn_id (?ids' ! x) = hn_id (?ids ! x)" for x
      using n by (cases "x = c") auto
    ultimately show ?thesis
      using True n Cons.prems by (auto simp: remove_scan.simps[of _ _ c] array_get_in)
  next
    case False
    have st: "remove_scan hi uid c = remove_scan hi uid t"
      using False n by (simp add: remove_scan.simps[of _ _ c] array_get_in)
    have ih: "case find (\<lambda>x. hn_id (hi_id hi ! x) = uid) ys of
        None \<Rightarrow> remove_scan hi uid t = Some (hi, None)
      | Some u \<Rightarrow> \<exists>ids. remove_scan hi uid t = Some (hi\<lparr>hi_id := ids\<rparr>, Some u) \<and> length ids = length (hi_id hi) \<and>
          chain ids (Some t) (remove1 u (t # ys)) \<and> (\<forall>x. hn_id (ids ! x) = hn_id (hi_id hi ! x)) \<and>
          (\<forall>x. x \<notin> set (t # ys) \<longrightarrow> ids ! x = hi_id hi ! x)"
      using Cons.prems by (intro Cons.IH) auto
    show ?thesis
    proof (cases "find (\<lambda>x. hn_id (hi_id hi ! x) = uid) ys")
      case None
      then show ?thesis using ih st False by simp
    next
      case (Some u)
      then obtain ids where ids: "remove_scan hi uid t = Some (hi\<lparr>hi_id := ids\<rparr>, Some u)"
        "length ids = length ?ids" "chain ids (Some t) (remove1 u (t # ys))"
        "\<And>x. hn_id (ids ! x) = hn_id (?ids ! x)" "\<And>x. x \<notin> set (t # ys) \<Longrightarrow> ids ! x = ?ids ! x"
        using ih by auto
      have "u \<in> set ys" using Some by (auto simp: find_Some_iff)
      then have "u \<noteq> c" using Cons.prems by auto
      moreover have "ids ! c = ?ids ! c" using ids(5) Cons.prems by auto
      ultimately have "chain ids (Some c) (remove1 u (c # t # ys))" using ids(2,3) n by simp
      then show ?thesis using Some False ids st by auto
    qed
  qed
qed

text \<open>Freeing node \<open>t\<close> once its bucket \<open>h\<close> is linked without it keeps the invariant.\<close>

lemma free_node_rep:
  assumes r: "hashid_rep hi C" and t: "t \<in> used hi" "h = id_hash hi (hn_id (hi_id hi ! t))"
    and ids: "length ids = length (hi_id hi)" "\<And>x. hn_id (ids ! x) = hn_id (hi_id hi ! x)"
      "\<And>x. x \<notin> set (C h) \<Longrightarrow> ids ! x = hi_id hi ! x"
    and hash: "length hash = length (hi_hash hi)" "\<And>h'. h' \<noteq> h \<Longrightarrow> hash ! h' = hi_hash hi ! h'"
      "chain ids (hash ! h) (remove1 t (C h))"
  shows "hashid_rep (hi\<lparr>hi_hash := hash, hi_id := ids[t := free_node], hi_count := hi_count hi - 1\<rparr>)
           (C(h := remove1 t (C h)))" (is "hashid_rep ?hi ?C")
proof -
  note R = hashid_repD[OF r]
  have tl: "t < length ids" using t ids(1) by (simp add: used_def)
  have h: "h < length (hi_hash hi)" using id_hash_less[OF r] t(2) by simp
  have u: "used ?hi = used hi - {t}"
    using tl ids by (auto simp: used_def nth_list_update free_node_def)
  have idh: "id_hash ?hi = id_hash hi" by (simp add: id_hash_def fun_eq_iff)
  have hid: "hn_id (ids[t := free_node] ! x) = hn_id (hi_id hi ! x)" if "x \<in> used hi" "x \<noteq> t" for x
    using that ids(2) by simp
  have "chain (hi_id ?hi) (hash ! h') (?C h') \<and> distinct (?C h') \<and>
      set (?C h') = {x \<in> used ?hi. id_hash ?hi (hn_id (hi_id ?hi ! x)) = h'}"
    if h': "h' < length (hi_hash hi)" for h'
  proof (cases "h' = h")
    case True
    have "chain (ids[t := free_node]) (hash ! h) (remove1 t (C h))"
      using R(5)[OF h] hash(3) by (subst chain_cong[of _ ids]) (auto simp: nth_list_update)
    moreover have "set (remove1 t (C h)) = {x \<in> used ?hi. id_hash ?hi (hn_id (hi_id ?hi ! x)) = h}"
      using R(5)[OF h] R(6)[OF h] u idh by (auto simp: hid ids(2))
    ultimately show ?thesis using True R(5)[OF h] by simp
  next
    case False
    have d: "x \<noteq> t \<and> x \<notin> set (C h)" if "x \<in> set (C h')" for x
      using that R(6)[OF h'] R(6)[OF h] t False by auto
    have "ids[t := free_node] ! x = hi_id hi ! x" if "x \<in> set (C h')" for x
      using d[OF that] ids(3) by simp
    then have "chain (ids[t := free_node]) (hash ! h') (C h')"
      using R(4)[OF h'] hash(2)[OF False] ids(1) by (subst chain_cong[of _ "hi_id hi"]) auto
    moreover have "set (C h') = {x \<in> used ?hi. id_hash ?hi (hn_id (hi_id ?hi ! x)) = h'}"
      using R(6)[OF h'] u idh d by (auto simp: hid ids(2))
    ultimately show ?thesis using False R(5)[OF h'] by simp
  qed
  moreover have "inj_on (\<lambda>x. hn_id (hi_id ?hi ! x)) (used ?hi)"
    using R(8) u by (auto simp: inj_on_def hid ids(2))
  moreover have "hi_id ?hi ! x = free_node" if "x < length (hi_id ?hi)" "x \<notin> used ?hi" for x
  proof (cases "x = t")
    case False
    then have "x \<notin> used hi" using that(2) u by blast
    then have "x \<notin> set (C h)" using R(6)[OF h] by blast
    then show ?thesis using R(7)[of x] that(1) \<open>x \<notin> used hi\<close> False ids(1,3) by simp
  qed (use tl in simp)
  moreover have "finite (used hi)" by (rule finite_subset[of _ "{..<length (hi_id hi)}"]) (auto simp: used_def)
  then have "hi_count hi - 1 = int (card (used ?hi))" using R(9) u t(1) card_Suc_Diff1[of "used hi" t] by simp
  ultimately show ?thesis using R(1,2,3) ids(1) hash(1) by (simp add: hashid_rep_def)
qed

lemma remove_slot:
  assumes r: "hashid_rep hi C" "hashid_rep hi' C'"
    and u: "used hi' = used hi - {t}" "id_slot hi uid = Some t"
    and ids: "\<And>x. x \<in> used hi' \<Longrightarrow> hn_id (hi_id hi' ! x) = hn_id (hi_id hi ! x)"
  shows "id_slot hi' = (id_slot hi)(uid := None)"
proof -
  have t: "t \<in> used hi" "hn_id (hi_id hi ! t) = uid" using id_slot_iff[OF r(1)] u(2) by auto
  have "id_slot hi' i = Some x \<longleftrightarrow> ((id_slot hi)(uid := None)) i = Some x" for i x
  proof (cases "x \<in> used hi \<and> hn_id (hi_id hi ! x) = i")
    case True
    then have "i = uid \<longleftrightarrow> x = t" using t inj_onD[OF hashid_repD(8)[OF r(1)], of x t] by auto
    then show ?thesis using True id_slot_iff[OF r(1), of i x] id_slot_iff[OF r(2), of i x] ids[of x] u(1) by auto
  next
    case False
    have "id_slot hi i \<noteq> Some x" using False id_slot_iff[OF r(1)] by blast
    moreover have "id_slot hi' i \<noteq> Some x" using False id_slot_iff[OF r(2)] ids u(1) by (metis Diff_iff)
    ultimately show ?thesis by simp
  qed
  then show ?thesis by (rule map_eqI)
qed

lemma hashid_remove_ok:
  assumes r: "hashid_rep hi C"
  shows "\<exists>hi' C'. hashid_remove hi uid = Some (hi', case id_slot hi uid of None \<Rightarrow> - 1 | Some k \<Rightarrow> int k) \<and>
    hashid_rep hi' C' \<and> hi_cap hi' = hi_cap hi \<and> id_slot hi' = (id_slot hi)(uid := None)"
proof -
  note R = hashid_repD[OF r]
  let ?h = "id_hash hi uid"
  have h: "?h < length (hi_hash hi)" by (rule id_hash_less[OF r])
  note f = find_bucket[OF r, of uid]
  have slot: "t \<in> used hi" "?h = id_hash hi (hn_id (hi_id hi ! t))" if "id_slot hi uid = Some t" for t
    using that id_slot_iff[OF r] by auto
  have removed: "id_slot (hi\<lparr>hi_hash := hash, hi_id := ids[t := free_node], hi_count := hi_count hi - 1\<rparr>) = (id_slot hi)(uid := None)"
    if "id_slot hi uid = Some t" "length ids = length (hi_id hi)" "\<And>x. hn_id (ids ! x) = hn_id (hi_id hi ! x)"
      "hashid_rep (hi\<lparr>hi_hash := hash, hi_id := ids[t := free_node], hi_count := hi_count hi - 1\<rparr>) C'" for t ids hash C'
    using that slot[OF that(1)]
    by (intro remove_slot[OF r that(4)]) (auto simp: used_def nth_list_update free_node_def)
  show ?thesis
  proof (cases "C ?h")
    case Nil
    then have "hi_hash hi ! ?h = None" "id_slot hi uid = None" using R(4)[OF h] f by auto
    then show ?thesis using h r by (auto simp: hashid_remove_def array_get_in fun_eq_iff)
  next
    case (Cons c xs)
    then have c: "hi_hash hi ! ?h = Some c" "c < length (hi_id hi)" "chain (hi_id hi) (hn_next (hi_id hi ! c)) xs"
      using R(4)[OF h] by auto
    show ?thesis
    proof (cases "hn_id (hi_id hi ! c) = uid")
      case True
      then have s: "id_slot hi uid = Some c" using f Cons by simp
      let ?hash = "(hi_hash hi)[?h := hn_next (hi_id hi ! c)]"
      have rep: "hashid_rep (hi\<lparr>hi_hash := ?hash, hi_id := (hi_id hi)[c := free_node], hi_count := hi_count hi - 1\<rparr>)
          (C(?h := remove1 c (C ?h)))"
        using h c(3) Cons by (intro free_node_rep[OF r slot[OF s]]) auto
      show ?thesis using removed[OF s _ _ rep] rep s h c True
        by (auto simp: hashid_remove_def array_get_in)
    next
      case False
      have rs: "case id_slot hi uid of
          None \<Rightarrow> remove_scan hi uid c = Some (hi, None)
        | Some t \<Rightarrow> \<exists>ids. remove_scan hi uid c = Some (hi\<lparr>hi_id := ids\<rparr>, Some t) \<and> length ids = length (hi_id hi) \<and>
            chain ids (Some c) (remove1 t (c # xs)) \<and> (\<forall>x. hn_id (ids ! x) = hn_id (hi_id hi ! x)) \<and>
            (\<forall>x. x \<notin> set (c # xs) \<longrightarrow> ids ! x = hi_id hi ! x)"
        using remove_scan_ok[of hi c xs uid] R(4)[OF h] R(5)[OF h] f False Cons by simp
      show ?thesis
      proof (cases "id_slot hi uid")
        case None
        then show ?thesis using rs False h c r by (auto simp: hashid_remove_def array_get_in fun_eq_iff)
      next
        case (Some t)
        then obtain ids where ids: "remove_scan hi uid c = Some (hi\<lparr>hi_id := ids\<rparr>, Some t)" "length ids = length (hi_id hi)"
          "chain ids (Some c) (remove1 t (c # xs))" "\<And>x. hn_id (ids ! x) = hn_id (hi_id hi ! x)"
          "\<And>x. x \<notin> set (c # xs) \<Longrightarrow> ids ! x = hi_id hi ! x"
          using rs by auto
        have rep: "hashid_rep (hi\<lparr>hi_hash := hi_hash hi, hi_id := ids[t := free_node], hi_count := hi_count hi - 1\<rparr>)
            (C(?h := remove1 t (C ?h)))"
          using ids Cons c(1) by (intro free_node_rep[OF r slot[OF Some]]) auto
        have "hi\<lparr>hi_hash := hi_hash hi, hi_id := ids[t := free_node], hi_count := hi_count hi - 1\<rparr> =
            hi\<lparr>hi_id := ids[t := free_node], hi_count := hi_count hi - 1\<rparr>" by (cases hi) simp
        then show ?thesis using removed[OF Some ids(2,4) rep] rep Some ids(1) h c False
          by (auto simp: hashid_remove_def array_get_in)
      qed
    qed
  qed
qed

section \<open>Insertion\<close>

lemma insert_scan_ok:
  assumes "int (length (hi_id hi)) = hi_cap hi" "id_valid hi uid" "0 \<le> i"
  shows "\<exists>r. insert_scan hi uid i = Some r \<and> (case r of
      Some x \<Rightarrow> x < length (hi_id hi) \<and> hn_id (hi_id hi ! x) = - 1
    | None \<Rightarrow> \<forall>j. i \<le> j \<longrightarrow> j < hi_cap hi \<longrightarrow> nat ((j + uid) mod hi_cap hi) \<in> used hi)"
  using assms
proof (induction hi uid i rule: insert_scan.induct)
  case (1 hi uid i)
  show ?case
  proof (cases "i < hi_cap hi")
    case True
    let ?x = "(i + uid) mod hi_cap hi"
    have v: "0 \<le> i + uid" "i + uid < 2 ^ 31" using 1(3,4) True by (auto simp: id_valid_def)
    then have t: "to_int32 (i + uid) = i + uid" by (intro to_int32_id) auto
    have "sgn (i + uid) * ((i + uid) mod hi_cap hi) = (i + uid) mod hi_cap hi"
      using v(1) by (cases "i + uid = 0") (auto simp: sgn_if)
    then have x: "c_rem (to_int32 (i + uid)) (hi_cap hi) = ?x" "0 \<le> ?x" "?x < hi_cap hi"
      using v True 1(4) unfolding t by (auto simp: c_rem_def)
    then have lt: "nat ?x < length (hi_id hi)" using 1(2) by linarith
    show ?thesis
    proof (cases "hn_id (hi_id hi ! nat ?x) = - 1")
      case free: True
      then show ?thesis using True x lt by (subst insert_scan.simps) (auto simp: Let_def array_get_in)
    next
      case False
      have st: "insert_scan hi uid i = insert_scan hi uid (i + 1)"
        using True x lt False by (subst insert_scan.simps) (auto simp: Let_def array_get_in)
      have "\<not> c_rem (to_int32 (i + uid)) (hi_cap hi) < 0"
        "array_get (hi_id hi) (nat (c_rem (to_int32 (i + uid)) (hi_cap hi))) = Some (hi_id hi ! nat ?x)"
        using x lt by (simp_all add: array_get_in)
      then obtain r where r: "insert_scan hi uid (i + 1) = Some r" "case r of
          Some x \<Rightarrow> x < length (hi_id hi) \<and> hn_id (hi_id hi ! x) = - 1
        | None \<Rightarrow> \<forall>j. i + 1 \<le> j \<longrightarrow> j < hi_cap hi \<longrightarrow> nat ((j + uid) mod hi_cap hi) \<in> used hi"
        using 1(1)[OF True refl _ _ False] 1(2-4) by auto
      moreover have "nat ?x \<in> used hi" using lt False by (simp add: used_def)
      moreover have "nat ((j + uid) mod hi_cap hi) \<in> used hi"
        if "r = None" "i \<le> j" "j < hi_cap hi" for j
        using that r(2) \<open>nat ?x \<in> used hi\<close> by (cases "j = i") auto
      ultimately show ?thesis using st by (auto split: option.splits)
    qed
  next
    case False
    then show ?thesis by (subst insert_scan.simps) auto
  qed
qed

lemma finite_used [simp]: "finite (used hi)"
  by (rule finite_subset[of _ "{..<length (hi_id hi)}"]) (auto simp: used_def)

lemma all_used_full:
  assumes r: "hashid_rep hi C" and all: "\<forall>j. 0 \<le> j \<longrightarrow> j < hi_cap hi \<longrightarrow> nat ((j + uid) mod hi_cap hi) \<in> used hi"
  shows "hashid_full hi"
proof -
  note R = hashid_repD[OF r]
  have "x \<in> used hi" if "x < length (hi_id hi)" for x
  proof -
    let ?j = "(int x - uid) mod hi_cap hi"
    have c: "0 < hi_cap hi" "int x < hi_cap hi" using that R(1) by linarith+
    then have "(?j + uid) mod hi_cap hi = int x" by (simp add: mod_simps)
    moreover have "0 \<le> ?j" "?j < hi_cap hi" using c by simp_all
    ultimately show ?thesis using all by (metis nat_int)
  qed
  then have "used hi = {..<length (hi_id hi)}" by (auto simp: used_def)
  then show ?thesis using R(1,9) by (simp add: hashid_full_def)
qed

lemma hashid_insert_ok:
  assumes r: "hashid_rep hi C" and v: "id_valid hi uid" and f: "\<not> hashid_full hi" and n: "id_slot hi uid = None"
  shows "\<exists>hi' C' k. hashid_insert hi uid = Some (hi', int k) \<and> hashid_rep hi' C' \<and> hi_cap hi' = hi_cap hi \<and>
    k \<notin> ran (id_slot hi) \<and> id_slot hi' = (id_slot hi)(uid \<mapsto> k)"
proof -
  note R = hashid_repD[OF r]
  obtain c where c: "insert_scan hi uid 0 = Some (Some c)" "c < length (hi_id hi)" "hn_id (hi_id hi ! c) = - 1"
    using insert_scan_ok[OF R(1) v, of 0] all_used_full[OF r, of uid] f by (auto split: option.splits)
  have cu: "c \<notin> used hi" using c by (simp add: used_def)
  then have fc: "hi_id hi ! c = free_node" using R(7) c by blast
  let ?h = "id_hash hi uid"
  have h: "?h < length (hi_hash hi)" by (rule id_hash_less[OF r])
  let ?ids = "(hi_id hi)[c := \<lparr>hn_id = uid, hn_next = hi_hash hi ! ?h\<rparr>]"
  define hi' where "hi' = hi\<lparr>hi_count := hi_count hi + 1, hi_id := ?ids, hi_hash := (hi_hash hi)[?h := Some c]\<rparr>"
  have u0: "uid \<noteq> - 1" using v by (auto simp: id_valid_def)
  have u: "used hi' = insert c (used hi)"
    using c(2) u0 by (auto simp: used_def nth_list_update hi'_def)
  have idh: "id_hash hi' = id_hash hi" by (simp add: id_hash_def fun_eq_iff hi'_def)
  have old: "hn_id (hi_id hi' ! x) = hn_id (hi_id hi ! x)" "x \<noteq> c" if "x \<in> used hi" for x
  proof -
    show "x \<noteq> c" using that cu by auto
    then show "hn_id (hi_id hi' ! x) = hn_id (hi_id hi ! x)" by (simp add: hi'_def)
  qed
  have new: "hn_id (hi_id hi' ! c) = uid" using c(2) by (simp add: hi'_def)
  have nouid: "hn_id (hi_id hi ! x) \<noteq> uid" if "x \<in> used hi" for x using n id_slot_iff[OF r, of uid x] that by auto
  have ch: "chain ?ids p (C h') = chain (hi_id hi) p (C h')" if "h' < length (hi_hash hi)" for h' p
  proof (rule chain_cong)
    fix x assume "x \<in> set (C h')"
    then have "x \<noteq> c" using R(6)[OF that] cu by blast
    then show "hn_next (?ids ! x) = hn_next (hi_id hi ! x)" by simp
  qed simp
  have "hashid_rep hi' (C(?h := c # C ?h))"
    unfolding hashid_rep_def
  proof (intro conjI allI impI)
    fix h' assume "h' < length (hi_hash hi')"
    then have h': "h' < length (hi_hash hi)" by (simp add: hi'_def)
    show "chain (hi_id hi') (hi_hash hi' ! h') ((C(?h := c # C ?h)) h')"
      using ch[OF h'] R(4)[OF h'] h' c(2) by (cases "h' = ?h") (auto simp: hi'_def)
    show "distinct ((C(?h := c # C ?h)) h')"
      using R(5)[OF h'] R(6)[OF h'] cu by auto
    show "set ((C(?h := c # C ?h)) h') = {x \<in> used hi'. id_hash hi' (hn_id (hi_id hi' ! x)) = h'}"
      using R(6)[OF h'] u old new by (auto simp: idh)
  next
    fix x assume "x < length (hi_id hi')" "x \<notin> used hi'"
    then show "hi_id hi' ! x = free_node" using R(7)[of x] u by (auto simp: hi'_def nth_list_update)
  next
    show "inj_on (\<lambda>x. hn_id (hi_id hi' ! x)) (used hi')"
      unfolding u inj_on_insert using R(8) cu
      by (auto simp: inj_on_def old(1) new nouid[symmetric])
    show "hi_count hi' = int (card (used hi'))" using R(9) u cu by (simp add: hi'_def)
  qed (use R(1-3) in \<open>simp_all add: hi'_def\<close>)
  moreover from this have "id_slot hi' i = Some x \<longleftrightarrow> ((id_slot hi)(uid \<mapsto> c)) i = Some x" for i x
    using id_slot_iff[OF r, of i x] id_slot_iff[of hi' "C(?h := c # C ?h)" i x] u old new nouid[of x] by auto
  then have "id_slot hi' = (id_slot hi)(uid \<mapsto> c)" by (rule map_eqI)
  moreover have "hashid_insert hi uid = Some (hi', int c)"
    using c h fc by (simp add: hashid_insert_def array_get_in hi'_def free_node_def Let_def)
  moreover have "c \<notin> ran (id_slot hi)" using id_slot_iff[OF r] cu by (auto simp: ran_def)
  ultimately show ?thesis by (auto simp: hi'_def)
qed

section \<open>The table as an allocator of slots\<close>

lemma id_slot_card:
  assumes "hashid_rep hi C"
  shows "card (dom (id_slot hi)) = card (used hi)"
proof -
  have "dom (id_slot hi) = (\<lambda>x. hn_id (hi_id hi ! x)) ` used hi"
    using id_slot_iff[OF assms] by (auto simp: dom_def)
  then show ?thesis using hashid_repD(8)[OF assms] by (simp add: card_image)
qed

interpretation hash_slots: slot_table hashid_inv "\<lambda>hi. length (hi_id hi)" id_valid id_slot hashid_full
  hashid_lookup hashid_insert hashid_remove
proof
  fix s i k assume "hashid_inv s" "id_slot s i = Some k"
  then show "k < length (hi_id s)" using id_slot_iff by (auto simp: hashid_inv_def used_def)
next
  fix s i j k assume "hashid_inv s" "id_slot s i = Some k" "id_slot s j = Some k"
  then show "i = j" using id_slot_iff by (auto simp: hashid_inv_def)
next
  fix s assume "hashid_inv s"
  then show "hashid_full s \<longleftrightarrow> card (dom (id_slot s)) = length (hi_id s)"
    using id_slot_card[of s] hashid_repD(1,9)[of s] by (auto simp: hashid_inv_def hashid_full_def)
next
  fix s i assume "hashid_inv s"
  then show "hashid_lookup s i = Some (case id_slot s i of None \<Rightarrow> - 1 | Some k \<Rightarrow> int k)"
    using hashid_lookup_ok by (auto simp: hashid_inv_def)
next
  fix s i assume "hashid_inv s" "id_valid s i" "\<not> hashid_full s" "id_slot s i = None"
  then obtain s' C C' k where "hashid_rep s C" "hashid_insert s i = Some (s', int k)" "hashid_rep s' C'" "hi_cap s' = hi_cap s"
    "k \<notin> ran (id_slot s)" "id_slot s' = (id_slot s)(i \<mapsto> k)"
    using hashid_insert_ok[of s _ i] unfolding hashid_inv_def by blast
  then show "\<exists>s' k. hashid_insert s i = Some (s', int k) \<and> hashid_inv s' \<and> length (hi_id s') = length (hi_id s) \<and>
      id_valid s' = id_valid s \<and> k \<notin> ran (id_slot s) \<and> id_slot s' = (id_slot s)(i \<mapsto> k)"
    using hashid_repD(1)[of s C] hashid_repD(1)[of s' C'] by (auto simp: hashid_inv_def id_valid_def fun_eq_iff)
next
  fix s i assume "hashid_inv s" "id_valid s i"
  then obtain s' C C' where "hashid_rep s C" "hashid_remove s i = Some (s', case id_slot s i of None \<Rightarrow> - 1 | Some k \<Rightarrow> int k)"
    "hashid_rep s' C'" "hi_cap s' = hi_cap s" "id_slot s' = (id_slot s)(i := None)"
    using hashid_remove_ok[of s _ i] unfolding hashid_inv_def by blast
  then show "\<exists>s'. hashid_remove s i = Some (s', case id_slot s i of None \<Rightarrow> - 1 | Some k \<Rightarrow> int k) \<and> hashid_inv s' \<and>
      length (hi_id s') = length (hi_id s) \<and> id_valid s' = id_valid s \<and> id_slot s' = (id_slot s)(i := None)"
    using hashid_repD(1)[of s C] hashid_repD(1)[of s' C'] by (auto simp: hashid_inv_def id_valid_def fun_eq_iff)
qed

lemma hashcap_loop_ok:
  assumes "0 < h" "h \<le> 2 ^ 30" "mx \<le> 2 ^ 30" "\<exists>k. h = 2 ^ k"
  shows "\<exists>k. hashcap_loop h mx = Some (2 ^ k) \<and> mx \<le> 2 ^ k"
  using assms
proof (induction h mx rule: hashcap_loop.induct)
  case (1 h mx)
  show ?case
  proof (cases "h < mx")
    case True
    obtain k where k: "h = 2 ^ k" using 1(5) by blast
    have h: "\<not> (h \<le> 0 \<or> 2 ^ 30 \<le> h)" using 1(2-4) True by simp
    have "k < 30"
    proof (rule ccontr)
      assume "\<not> k < 30"
      then have "(2 :: int) ^ 30 \<le> 2 ^ k" by (intro power_increasing) auto
      then show False using h k by simp
    qed
    then have "(2 :: int) ^ Suc k \<le> 2 ^ 30" by (intro power_increasing) auto
    then have "h * 2 \<le> 2 ^ 30" "\<exists>k. h * 2 = 2 ^ k" using k by (auto intro: exI[of _ "Suc k"])
    then show ?thesis using 1(1)[OF True h] 1(2-4) True h by (subst hashcap_loop.simps) auto
  qed (use 1 in \<open>subst hashcap_loop.simps; auto\<close>)
qed

lemma hashid_init_ok:
  assumes "0 \<le> mx" "mx \<le> 2 ^ 30"
  shows "\<exists>hi. hashid_init mx = Some hi \<and> hashid_inv hi \<and> hi_cap hi = mx \<and> id_slot hi = Map.empty"
proof -
  obtain k where k: "hashcap_loop 16 mx = Some (2 ^ k)" "mx \<le> 2 ^ k"
    using hashcap_loop_ok[of 16 mx] assms exI[of "\<lambda>k. (16 :: int) = 2 ^ k" 4] by auto
  let ?hi = "\<lparr>hi_hashmod = 2 ^ k - 1, hi_cap = mx, hi_count = 0,
    hi_id = replicate (nat mx) free_node, hi_hash = replicate (nat (2 ^ k)) None\<rparr>"
  have u: "used ?hi = {}" by (auto simp: used_def free_node_def)
  have r: "hashid_rep ?hi (\<lambda>_. [])" using assms u by (simp add: hashid_rep_def)
  then have "id_slot ?hi = Map.empty" using id_slot_iff[OF r] u by (intro map_eqI) auto
  then show ?thesis using k r by (auto simp: hashid_init_def hashid_inv_def)
qed

end
