(* ===== verification/Gate.thy ===== *)
theory Gate
  imports Command Socket Databuffer Hashid
begin

text \<open>
  \<^verbatim>\<open>service-src/service_gate.c\<close>: the service that accepts connections, cuts their byte
  streams into messages and forwards these to agents. A function takes the gate and the node
  and returns both. A stack buffer that is passed to \<open>skynet_send\<close> is a block that lives
  for the call. A local \<open>char\<close> array is a list of characters that contains its NUL bytes.
\<close>

section \<open>State\<close>

definition BACKLOG :: int where
  "BACKLOG = 32"

record connection =
  c_id :: int
  c_agent :: u32
  c_client :: u32
  c_remote_name :: string
  c_buffer :: databuffer

record gate =
  g_ctx :: ptr
  g_listen_id :: int
  g_watchdog :: u32
  g_broker :: u32
  g_client_tag :: int
  g_header_size :: int
  g_max_connection :: int
  g_hash :: hashid
  g_conn :: "connection list"
  g_mp :: messagepool

definition connection_zero :: connection where
  "connection_zero = \<lparr>c_id = 0, c_agent = 0, c_client = 0, c_remote_name = [], c_buffer = databuffer_zero\<rparr>"

definition gate_create :: gate where
  "gate_create = \<lparr>g_ctx = NULL, g_listen_id = - 1, g_watchdog = 0, g_broker = 0, g_client_tag = 0, g_header_size = 0,
     g_max_connection = 0, g_hash = \<lparr>hi_hashmod = 0, hi_cap = 0, hi_count = 0, hi_id = [], hi_hash = []\<rparr>,
     g_conn = [], g_mp = messagepool_zero\<rparr>"

fun close_all :: "services \<Rightarrow> ptr \<Rightarrow> connection list \<Rightarrow> server \<Rightarrow> server option" where
  "close_all E ctx [] w = Some w"
| "close_all E ctx (c # cs) w = do {
     w \<leftarrow> (if 0 \<le> c_id c then skynet_socket_close E ctx (c_id c) w else Some w);
     close_all E ctx cs w
   }"

definition gate_release :: "services \<Rightarrow> gate \<Rightarrow> server \<Rightarrow> (gate \<times> server) option" where
  "gate_release E g w = do {
     w \<leftarrow> close_all E (g_ctx g) (take (nat (g_max_connection g)) (g_conn g)) w;
     w \<leftarrow> (if 0 \<le> g_listen_id g then skynet_socket_close E (g_ctx g) (g_listen_id g) w else Some w);
     Some (g\<lparr>g_mp := messagepool_free (g_mp g), g_hash := hashid_clear (g_hash g), g_conn := []\<rparr>, w)
   }"

section \<open>Commands\<close>

abbreviation NUL :: char where
  "NUL \<equiv> CHR 0x00"

text \<open>The C string at position \<open>p\<close> of an array.\<close>

definition cstr :: "string \<Rightarrow> nat \<Rightarrow> string" where
  "cstr tmp p = takeWhile (\<lambda>c. c \<noteq> NUL) (drop p tmp)"

text \<open>\<open>msg\<close> is the whole array, of \<open>sz + 1\<close> characters.\<close>

definition parm :: "string \<Rightarrow> nat \<Rightarrow> nat \<Rightarrow> string" where
  "parm msg sz command_sz =
     (let rest = dropWhile (\<lambda>c. c = CHR '' '') (drop command_sz (take sz msg))
      in rest @ NUL # drop (Suc (length rest)) msg)"

definition forward_agent :: "gate \<Rightarrow> int \<Rightarrow> u32 \<Rightarrow> u32 \<Rightarrow> gate option" where
  "forward_agent g fd agentaddr clientaddr = do {
     i \<leftarrow> hashid_lookup (g_hash g) fd;
     if 0 \<le> i then do {
       agent \<leftarrow> array_get (g_conn g) (nat i);
       Some (g\<lparr>g_conn := (g_conn g)[nat i := agent\<lparr>c_agent := agentaddr, c_client := clientaddr\<rparr>]\<rparr>)
     } else Some g
   }"

text \<open>
  \<open>memcmp\<close> of the first \<open>i\<close> characters with a literal and its NUL; a comparison that runs past
  the literal is undefined.
\<close>

definition memcmp_lit :: "string \<Rightarrow> string \<Rightarrow> nat \<Rightarrow> bool option" where
  "memcmp_lit command lit i =
     (if take (min i (Suc (length lit))) command \<noteq> take (min i (Suc (length lit))) (lit @ [NUL]) then Some False
      else if i \<le> Suc (length lit) then Some True else None)"

text \<open>\<open>strsep(&p, " ")\<close> on the string at position \<open>p\<close>: the array with the blank overwritten and the new \<open>p\<close>.\<close>

definition strsep_at :: "string \<Rightarrow> nat \<Rightarrow> string \<times> nat option" where
  "strsep_at tmp p =
     (let k = length (takeWhile (\<lambda>c. c \<noteq> CHR '' '') (cstr tmp p))
      in if k < length (cstr tmp p) then (tmp[p + k := NUL], Some (Suc (p + k))) else (tmp, None))"

definition ctrl :: "services \<Rightarrow> gate \<Rightarrow> u8 list \<Rightarrow> server \<Rightarrow> (gate \<times> server) option" where
  "ctrl E g msg w =
     (let sz = length msg; tmp = map (\<lambda>b. char_of (unat b)) msg @ [NUL]; ctx = g_ctx g;
          i = length (takeWhile (\<lambda>c. c \<noteq> CHR '' '') (take sz tmp)) in
      if sz = 0 then Some (g, w)
      else do {
        kick \<leftarrow> memcmp_lit tmp ''kick'' i;
        if kick then do {
          let uid = to_int32 (strtol10 (cstr (parm tmp sz i) 0));
          k \<leftarrow> hashid_lookup (g_hash g) uid;
          w \<leftarrow> (if 0 \<le> k then skynet_socket_close E ctx uid w else Some w);
          Some (g, w)
        } else do {
          forward \<leftarrow> memcmp_lit tmp ''forward'' i;
          if forward then do {
            let tmp = parm tmp sz i;
            let (tmp, client) = strsep_at tmp 0;
            case client of None \<Rightarrow> Some (g, w)
            | Some agent \<Rightarrow> do {
                let uid = to_int32 (strtol10 (cstr tmp 0));
                let (tmp, client) = strsep_at tmp agent;
                case client of None \<Rightarrow> Some (g, w)
                | Some client \<Rightarrow> do {
                    g \<leftarrow> forward_agent g uid (ucast (strtoul16 (cstr tmp (Suc agent)))) (ucast (strtoul16 (cstr tmp (Suc client))));
                    Some (g, w)
                  }
              }
          } else do {
            broker \<leftarrow> memcmp_lit tmp ''broker'' i;
            if broker then do {
              (w, h) \<leftarrow> skynet_queryname E ctx (cstr (parm tmp sz i) 0) w;
              Some (g\<lparr>g_broker := h\<rparr>, w)
            } else do {
              start \<leftarrow> memcmp_lit tmp ''start'' i;
              if start then do {
                let uid = to_int32 (strtol10 (cstr (parm tmp sz i) 0));
                k \<leftarrow> hashid_lookup (g_hash g) uid;
                w \<leftarrow> (if 0 \<le> k then skynet_socket_start E ctx uid w else Some w);
                Some (g, w)
              } else do {
                close \<leftarrow> memcmp_lit tmp ''close'' i;
                if close then
                  (if 0 \<le> g_listen_id g then do {
                     w \<leftarrow> skynet_socket_close E ctx (g_listen_id g) w;
                     Some (g\<lparr>g_listen_id := - 1\<rparr>, w)
                   } else Some (g, w))
                else do {
                  w \<leftarrow> skynet_error E ctx (Some (''[gate] Unkown command : '' @ cstr tmp 0)) w;
                  Some (g, w)
                }
              }
            }
          }
        }
      })"

section \<open>Forwarding data\<close>

definition report :: "services \<Rightarrow> gate \<Rightarrow> string \<Rightarrow> server \<Rightarrow> server option" where
  "report E g text w =
     (if g_watchdog g = 0 then Some w
      else do {
        c_assert (length text < 1024);
        let (w, tmp) = skynet_malloc (text_block text) w;
        (w, _) \<leftarrow> skynet_send E (g_ctx g) 0 (g_watchdog g) (ucast PTYPE_TEXT) 0 tmp (of_nat (length text)) w;
        skynet_free tmp w
      })"

definition heap_write :: "ptr \<Rightarrow> u8 list \<Rightarrow> server \<Rightarrow> server" where
  "heap_write p bs w = w\<lparr>sv_heap := (sv_heap w)(p \<mapsto> Bytes bs)\<rparr>"

text \<open>Allocate \<open>n\<close> bytes in front of the payload, fill them with \<open>pre\<close>, read the payload behind them, and send.\<close>

definition read_and_send ::
  "services \<Rightarrow> gate \<Rightarrow> databuffer \<Rightarrow> string \<Rightarrow> nat \<Rightarrow> int \<Rightarrow> u32 \<Rightarrow> u32 \<Rightarrow> u32 \<Rightarrow> server \<Rightarrow>
   (databuffer \<times> gate \<times> server) option" where
  "read_and_send E g db pre n len source destination type w = do {
     c_assert (0 \<le> len);
     let (w, temp) = skynet_malloc (Bytes (replicate (nat len + n) 0)) w;
     ((db, mp, w), bs) \<leftarrow> databuffer_read (db, g_mp g, w) len;
     let w = heap_write temp (map of_char pre @ bs @ replicate (n - length pre) 0) w;
     (w, _) \<leftarrow> skynet_send E (g_ctx g) source destination (type OR PTYPE_TAG_DONTCOPY) 1 temp
        (word_of_int (len + int (length pre))) w;
     Some (db, g\<lparr>g_mp := mp\<rparr>, w)
   }"

definition forward :: "services \<Rightarrow> gate \<Rightarrow> connection \<Rightarrow> databuffer \<Rightarrow> int \<Rightarrow> server \<Rightarrow> (databuffer \<times> gate \<times> server) option" where
  "forward E g c db len w =
     (if g_broker g \<noteq> 0 then read_and_send E g db [] 0 len 0 (g_broker g) (word_of_int (g_client_tag g)) w
      else if c_agent c \<noteq> 0 then
        read_and_send E g db [] 0 len (c_client c) (c_agent c) (word_of_int (g_client_tag g)) w
      else if g_watchdog g \<noteq> 0 then
        read_and_send E g db (print_d (c_id c) @ '' data '') 32 len 0 (g_watchdog g) (ucast PTYPE_TEXT) w
      else Some (db, g, w))"

text \<open>The loop of \<open>dispatch_message\<close>; \<open>c->buffer\<close> is the argument \<open>db\<close>, the rest of \<open>c\<close> does not change.\<close>

partial_function (option) dispatch_loop ::
  "services \<Rightarrow> connection \<Rightarrow> int \<Rightarrow> databuffer \<Rightarrow> gate \<Rightarrow> server \<Rightarrow> (databuffer \<times> gate \<times> server) option" where
  "dispatch_loop E c i db g w = do {
     ((db, mp, w), len) \<leftarrow> databuffer_readheader (db, g_mp g, w) (g_header_size g);
     let g = g\<lparr>g_mp := mp\<rparr>;
     if len < 0 then Some (db, g, w)
     else if 0 < len then
       if 0x1000000 \<le> len then do {
         (db, mp, w) \<leftarrow> databuffer_clear (db, mp, w);
         w \<leftarrow> skynet_socket_close E (g_ctx g) i w;
         w \<leftarrow> skynet_error E (g_ctx g) (Some ''Recv socket message > 16M'') w;
         Some (db, g\<lparr>g_mp := mp\<rparr>, w)
       } else do {
         (db, g, w) \<leftarrow> forward E g c db len w;
         dispatch_loop E c i (databuffer_reset db) g w
       }
     else dispatch_loop E c i db g w
   }"

definition dispatch_message :: "services \<Rightarrow> gate \<Rightarrow> nat \<Rightarrow> int \<Rightarrow> ptr \<Rightarrow> int \<Rightarrow> server \<Rightarrow> (gate \<times> server) option" where
  "dispatch_message E g k i data sz w = do {
     c \<leftarrow> array_get (g_conn g) k;
     (db, mp, w) \<leftarrow> databuffer_push (c_buffer c, g_mp g, w) data sz;
     (db, g, w) \<leftarrow> dispatch_loop E c i db (g\<lparr>g_mp := mp\<rparr>) w;
     Some (g\<lparr>g_conn := (g_conn g)[k := c\<lparr>c_buffer := db\<rparr>]\<rparr>, w)
   }"

section \<open>Events\<close>

definition dispatch_socket_message ::
  "services \<Rightarrow> gate \<Rightarrow> skynet_socket_message \<Rightarrow> u8 list \<Rightarrow> server \<Rightarrow> (gate \<times> server) option" where
  "dispatch_socket_message E g m text w =
     (let ctx = g_ctx g; ty = sm_type m in
      if ty = SKYNET_SOCKET_TYPE_DATA then do {
        k \<leftarrow> hashid_lookup (g_hash g) (sm_id m);
        if 0 \<le> k then dispatch_message E g (nat k) (sm_id m) (sm_buffer m) (sm_ud m) w
        else do {
          w \<leftarrow> skynet_error E ctx (Some (''Drop unknown connection '' @ print_d (sm_id m) @ '' message'')) w;
          w \<leftarrow> skynet_socket_close E ctx (sm_id m) w;
          w \<leftarrow> skynet_free (sm_buffer m) w;
          Some (g, w)
        }
      } else if ty = SKYNET_SOCKET_TYPE_CONNECT then
        if sm_id m = g_listen_id g then Some (g, w)
        else do {
          k \<leftarrow> hashid_lookup (g_hash g) (sm_id m);
          if k < 0 then do {
            w \<leftarrow> skynet_error E ctx (Some (''Close unknown connection '' @ print_d (sm_id m))) w;
            w \<leftarrow> skynet_socket_close E ctx (sm_id m) w;
            Some (g, w)
          } else Some (g, w)
        }
      else if ty = SKYNET_SOCKET_TYPE_CLOSE \<or> ty = SKYNET_SOCKET_TYPE_ERROR then do {
        (hi, k) \<leftarrow> hashid_remove (g_hash g) (sm_id m);
        let g = g\<lparr>g_hash := hi\<rparr>;
        if 0 \<le> k then do {
          c \<leftarrow> array_get (g_conn g) (nat k);
          (db, mp, w) \<leftarrow> databuffer_clear (c_buffer c, g_mp g, w);
          let g = g\<lparr>g_mp := mp, g_conn := (g_conn g)[nat k := connection_zero\<lparr>c_id := - 1\<rparr>]\<rparr>;
          w \<leftarrow> report E g (print_d (sm_id m) @ '' close'') w;
          Some (g, w)
        } else Some (g, w)
      } else if ty = SKYNET_SOCKET_TYPE_ACCEPT then do {
        c_assert (g_listen_id g = sm_id m);
        if hashid_full (g_hash g) then do {
          w \<leftarrow> skynet_socket_close E ctx (sm_ud m) w;
          Some (g, w)
        } else do {
          (hi, k) \<leftarrow> hashid_insert (g_hash g) (sm_ud m);
          c \<leftarrow> array_get (g_conn g) (nat k);
          let c = c\<lparr>c_id := sm_ud m, c_remote_name := cstr (map (\<lambda>b. char_of (unat b)) (take 31 text)) 0\<rparr>;
          let g = g\<lparr>g_hash := hi, g_conn := (g_conn g)[nat k := c]\<rparr>;
          w \<leftarrow> report E g (print_d (c_id c) @ '' open '' @ print_d (c_id c) @ '' '' @ c_remote_name c @ '':0'') w;
          w \<leftarrow> skynet_error E ctx (Some (''socket open: '' @ print_x (word_of_int (c_id c)))) w;
          Some (g, w)
        }
      } else if ty = SKYNET_SOCKET_TYPE_WARNING then do {
        w \<leftarrow> skynet_error E ctx (Some (''fd ('' @ print_d (sm_id m) @ '') send buffer ('' @ print_d (sm_ud m) @ '')K'')) w;
        Some (g, w)
      } else Some (g, w))"

text \<open>The callback; its result says whether the message stays with the gate.\<close>

definition gate_cb :: "services \<Rightarrow> gate \<Rightarrow> u32 \<Rightarrow> u32 \<Rightarrow> ptr \<Rightarrow> u64 \<Rightarrow> server \<Rightarrow> (gate \<times> server \<times> int) option" where
  "gate_cb E g type source msg sz w =
     (if type = ucast PTYPE_TEXT then do {
        bs \<leftarrow> (if sz = 0 then Some [] else read_bytes msg sz w);
        (g, w) \<leftarrow> ctrl E g bs w;
        Some (g, w, 0)
      } else if type = PTYPE_CLIENT then
        if sz \<le> 4 then do {
          w \<leftarrow> skynet_error E (g_ctx g) (Some (''Invalid client message from '' @ print_x source)) w;
          Some (g, w, 0)
        } else do {
          bs \<leftarrow> read_bytes msg sz w;
          let idbuf = drop (unat sz - 4) bs;
          let uid = (ucast (idbuf ! 0) OR push_bit 8 (ucast (idbuf ! 1)) OR push_bit 16 (ucast (idbuf ! 2)) OR
                     push_bit 24 (ucast (idbuf ! 3)) :: u32);
          k \<leftarrow> hashid_lookup (g_hash g) (sint uid);
          if 0 \<le> k then do {
            (w, _) \<leftarrow> skynet_socket_send E (g_ctx g) (sint uid) msg (to_int32 (uint (sz - 4))) w;
            Some (g, w, 1)
          } else do {
            w \<leftarrow> skynet_error E (g_ctx g) (Some (''Invalid client id '' @ print_d (sint uid) @ '' from '' @ print_x source)) w;
            Some (g, w, 0)
          }
        }
      else if type = PTYPE_SOCKET then
        (case sv_heap w msg of
           Some (Socket m text) \<Rightarrow> do { (g, w) \<leftarrow> dispatch_socket_message E g m text w; Some (g, w, 0) }
         | _ \<Rightarrow> None)
      else Some (g, w, 0))"

section \<open>Starting\<close>

definition start_listen :: "services \<Rightarrow> gate \<Rightarrow> string \<Rightarrow> server \<Rightarrow> (gate \<times> server \<times> int) option" where
  "start_listen E g listen_addr w =
     (let ctx = g_ctx g; portstr = strchr listen_addr (CHR '':'');
          port = to_int32 (strtol10 (case portstr of None \<Rightarrow> listen_addr | Some s \<Rightarrow> tl s));
          host = (case portstr of None \<Rightarrow> [] | Some s \<Rightarrow> take (length listen_addr - length s) listen_addr) in
      if port \<le> 0 then do {
        w \<leftarrow> skynet_error E ctx (Some (''Invalid gate address '' @ listen_addr)) w;
        Some (g, w, 1)
      } else do {
        (w, l) \<leftarrow> skynet_socket_listen E ctx host port BACKLOG w;
        let g = g\<lparr>g_listen_id := l\<rparr>;
        if l < 0 then Some (g, w, 1)
        else do {
          w \<leftarrow> skynet_socket_start E ctx l w;
          Some (g, w, 0)
        }
      })"

text \<open>\<open>%d\<close> of \<open>sscanf\<close>: at least one digit after blanks and a sign.\<close>

definition sscanf_int :: "string \<Rightarrow> (int \<times> string) option" where
  "sscanf_int s =
     (let (neg, r) = read_sign (dropWhile is_space s); ds = takeWhile (is_digit 10) r
      in if ds = [] then None else Some (to_int32 (strtol_sat neg (digits_value 10 ds)), dropWhile (is_digit 10) r))"

text \<open>The values that \<open>sscanf(parm, "%c %s %s %d %d", ...)\<close> stores; \<open>None\<close> when fewer than four.\<close>

definition scan_parm :: "string \<Rightarrow> (char \<times> string \<times> string \<times> int \<times> int) option" where
  "scan_parm p = (case p of [] \<Rightarrow> None | header # r \<Rightarrow> do {
     (watchdog, r) \<leftarrow> sscanf_word r;
     (binding, r) \<leftarrow> sscanf_word r;
     (client_tag, r) \<leftarrow> sscanf_int r;
     Some (header, watchdog, binding, client_tag, case sscanf_int r of None \<Rightarrow> 0 | Some (mx, _) \<Rightarrow> mx)
   })"

definition gate_init ::
  "services \<Rightarrow> ptr \<Rightarrow> ptr \<Rightarrow> gate \<Rightarrow> ptr \<Rightarrow> string option \<Rightarrow> server \<Rightarrow> (gate \<times> server \<times> int) option" where
  "gate_init E self cb g ctx prm w = (case prm of None \<Rightarrow> Some (g, w, 1) | Some p \<Rightarrow>
     let fail = (\<lambda>text w. do { w \<leftarrow> skynet_error E ctx (Some text) w; Some (g, w, 1) }) in
     case scan_parm p of
       None \<Rightarrow> fail (''Invalid gate parm '' @ p) w
     | Some (header, watchdog, binding, client_tag, mx) \<Rightarrow>
         if mx \<le> 0 then fail ''Need max connection'' w
         else if header \<noteq> CHR ''S'' \<and> header \<noteq> CHR ''L'' then fail ''Invalid data header style'' w
         else do {
           let client_tag = (if client_tag = 0 then uint PTYPE_CLIENT else client_tag);
           (w, wd) \<leftarrow> (if take 1 watchdog = ''!'' then Some (w, 0) else skynet_queryname E ctx watchdog w);
           let g = g\<lparr>g_watchdog := wd\<rparr>;
           if take 1 watchdog \<noteq> ''!'' \<and> wd = 0 then do {
             w \<leftarrow> skynet_error E ctx (Some (''Invalid watchdog '' @ watchdog)) w;
             Some (g, w, 1)
           } else do {
             hi \<leftarrow> hashid_init mx;
             let g = g\<lparr>g_ctx := ctx, g_hash := hi, g_conn := replicate (nat mx) (connection_zero\<lparr>c_id := - 1\<rparr>),
                       g_max_connection := mx, g_client_tag := client_tag,
                       g_header_size := (if header = CHR ''S'' then 2 else 4)\<rparr>;
             w \<leftarrow> skynet_callback ctx self cb w;
             start_listen E g binding w
           }
         })"

section \<open>Sending without a copy\<close>

text \<open>A message that is handed over as it is goes to a live local service unchanged, and nothing else changes.\<close>

lemma send_direct:
  assumes inv: "server_inv w xs" and fits: "sz AND MESSAGE_TYPE_MASK = sz"
    and src: "source \<noteq> 0 \<or> ctx_handles w context \<noteq> None"
    and ty: "type AND PTYPE_TAG_DONTCOPY \<noteq> 0" "type AND PTYPE_TAG_ALLOCSESSION = 0"
    and dst: "destination \<noteq> 0" "skynet_harbor_message_isremote destination w = Some False"
    and c: "handle_lookup (ctx_handles w, sv_H w) destination = Some c"
  shows "\<exists>w' m ys. skynet_send E context source destination type session data sz w = Some (w', session) \<and>
    server_inv w' ys \<and> ctx_pending w' = (ctx_pending w)(c := ctx_pending w c @ [m]) \<and>
    msg_data m = data \<and> msg_session m = session \<and> msg_source m = effective_source w context source \<and>
    message_type (msg_sz m) = ucast (type AND 0xff) \<and> msg_sz m AND MESSAGE_TYPE_MASK = sz \<and>
    mq_world.more w' = mq_world.more w"
proof -
  let ?m = "\<lparr>msg_source = effective_source w context source, msg_session = session, msg_data = data,
    msg_sz = sz OR push_bit MESSAGE_TYPE_SHIFT (ucast (type AND 0xff))\<rparr>"
  obtain w' ys where p: "skynet_context_push E destination ?m w = Some (w', 0)" "server_inv w' ys"
    "ctx_pending w' = (ctx_pending w)(c := ctx_pending w c @ [?m])" "mq_world.more w' = mq_world.more w"
    using context_push_ok[OF inv c, of E ?m] by blast
  have f: "filter_args context type session data sz w =
      Some (w, session, data, sz OR push_bit MESSAGE_TYPE_SHIFT (ucast (type AND 0xff)))"
    using ty by (simp add: filter_args_def)
  have "(if source = 0 then ctx_handles w context else Some source) = Some (effective_source w context source)"
    using src by (auto simp: effective_source_def)
  then have "skynet_send E context source destination type session data sz w = Some (w', session)"
    using fits f dst p(1) by (simp add: skynet_send_def)
  then show ?thesis using p(2-4) pack_type[OF fits] by (intro exI[of _ w'] exI[of _ ?m]) auto
qed

section \<open>The buffer of a connection among the other blocks\<close>

text \<open>
  \<open>db_own N D s bs\<close>: the buffer holds \<open>bs\<close>, its nodes are not in \<open>N\<close>, and every block outside \<open>D\<close> is
  allocated, so a free address is in \<open>D\<close>.
\<close>

definition db_own :: "ptr set \<Rightarrow> ptr set \<Rightarrow> dbuf \<Rightarrow> u8 list \<Rightarrow> bool" where
  "db_own N D s bs \<longleftrightarrow> (case s of (db, mp, w) \<Rightarrow>
     db_rep (N, D, mp_msgs mp, w) s bs \<and> (\<forall>d. d \<notin> D \<longrightarrow> sv_heap w d \<noteq> None))"

lemma msgs_at_blocks: "msgs_at M H p L \<Longrightarrow> d \<in> set (blocks L) \<Longrightarrow> H d \<noteq> None"
  by (induction M H p L rule: msgs_at.induct) auto

lemma db_own_rebase:
  assumes "db_rep (N, D, M0, w0) (db, mp, w) bs"
  shows "\<exists>D'. D \<subseteq> D' \<and> db_own N D' (db, mp, w) bs"
proof -
  obtain L F where c: "db_chunks (N, D, M0, w0) (db, mp, w) L F" "bs = db_bytes db L" "db_size db = int (length bs)"
    using assms unfolding db_rep_def by auto
  note C = db_chunksD[OF c(1)]
  have "db_chunks (N, - set (blocks L), mp_msgs mp, w) (db, mp, w) L F"
    using C(1-8,10) unfolding db_chunks_def pool_ok_def by auto
  then have "db_rep (N, - set (blocks L), mp_msgs mp, w) (db, mp, w) bs" using c(2,3) unfolding db_rep_def by auto
  moreover have "sv_heap w d \<noteq> None" if "d \<notin> - set (blocks L)" for d using msgs_at_blocks[OF C(1)] that by simp
  moreover have "D \<subseteq> - set (blocks L)" using C(9) by auto
  ultimately show ?thesis unfolding db_own_def by auto
qed

lemma db_own_world:
  assumes "db_own N D (db, mp, w) bs" "\<And>d. d \<notin> D \<Longrightarrow> sv_heap w' d = sv_heap w d"
  shows "db_own N D (db, mp, w') bs"
proof -
  obtain L F where c: "db_chunks (N, D, mp_msgs mp, w) (db, mp, w) L F" "bs = db_bytes db L" "db_size db = int (length bs)"
    using assms(1) unfolding db_own_def db_rep_def by auto
  note C = db_chunksD[OF c(1)]
  have "msgs_at (mp_msgs mp) (sv_heap w') (db_head db) L"
    using C(1,9) assms(2) msgs_at_cong[of L "mp_msgs mp" "mp_msgs mp" "sv_heap w'" "sv_heap w"] by blast
  then have "db_chunks (N, D, mp_msgs mp, w') (db, mp, w') L F"
    using C(2-10) unfolding db_chunks_def pool_ok_def by auto
  then show ?thesis using c(2,3) assms unfolding db_own_def db_rep_def by auto
qed

lemma db_own_header: "db_own N D (db\<lparr>db_header := h\<rparr>, mp, w) bs = db_own N D (db, mp, w) bs"
  by (simp add: db_own_def db_rep_header)

lemma server_inv_heap:
  assumes "server_inv w xs" "\<And>p. H p \<noteq> None \<Longrightarrow> sv_heap w p \<noteq> None"
  shows "server_inv (w\<lparr>sv_heap := H\<rparr>) xs" "ctx_pending (w\<lparr>sv_heap := H\<rparr>) = ctx_pending w"
proof -
  have eq: "mq_cores (w\<lparr>sv_heap := H\<rparr>) = mq_cores w" "gq_rep (w\<lparr>sv_heap := H\<rparr>) xs = gq_rep w xs"
    "ctx_handles (w\<lparr>sv_heap := H\<rparr>) = ctx_handles w"
    by (simp_all add: mq_cores_def gq_rep_def ctx_handles_def)
  show "server_inv (w\<lparr>sv_heap := H\<rparr>) xs"
    using assms unfolding server_inv_def ctx_ok_def eq by simp
  show "ctx_pending (w\<lparr>sv_heap := H\<rparr>) = ctx_pending w" using eq(1) by (intro ctx_pending_cong) simp_all
qed

lemma server_inv_shrink:
  assumes "server_inv w xs" "w' = w\<lparr>sv_heap := sv_heap w'\<rparr>" "\<And>p. sv_heap w' p \<noteq> None \<Longrightarrow> sv_heap w p \<noteq> None"
  shows "server_inv w' xs" "ctx_pending w' = ctx_pending w"
  using server_inv_heap[OF assms(1), of "sv_heap w'"] assms(3) unfolding assms(2)[symmetric] by blast+

section \<open>Forwarding one message\<close>

text \<open>What does not change while the gate works on a connection: contexts, handles and the harbor.\<close>

definition same_node :: "server \<Rightarrow> server \<Rightarrow> bool" where
  "same_node w w' \<longleftrightarrow> sv_ctx w' = sv_ctx w \<and> sv_H w' = sv_H w \<and> sv_HARBOR w' = sv_HARBOR w"

lemma same_node_handles: "same_node w w' \<Longrightarrow> ctx_handles w' = ctx_handles w"
  by (simp add: same_node_def ctx_handles_def)

lemma same_node_trans: "same_node w w' \<Longrightarrow> same_node w' w'' \<Longrightarrow> same_node w w''"
  by (simp add: same_node_def)

text \<open>A destination that is a live service of this node.\<close>

definition local_service :: "server \<Rightarrow> u32 \<Rightarrow> ptr \<Rightarrow> bool" where
  "local_service w h k \<longleftrightarrow> h \<noteq> 0 \<and> skynet_harbor_message_isremote h w = Some False \<and>
     handle_lookup (ctx_handles w, sv_H w) h = Some k"

lemma same_node_service:
  assumes "same_node w w'"
  shows "local_service w' h k = local_service w h k"
  using assms same_node_handles[OF assms]
  by (simp add: local_service_def skynet_harbor_message_isremote_def same_node_def)

definition payload_message :: "server \<Rightarrow> u32 \<Rightarrow> u32 \<Rightarrow> skynet_message \<Rightarrow> u8 list \<Rightarrow> bool" where
  "payload_message w source tag m p \<longleftrightarrow> sv_heap w (msg_data m) = Some (Bytes p) \<and> msg_source m = source \<and>
     message_type (msg_sz m) = ucast (tag AND 0xff) \<and> unat (msg_sz m AND MESSAGE_TYPE_MASK) = length p"

lemma small_size_fits:
  assumes "n < 2 ^ 56"
  shows "(of_nat n :: u64) AND MESSAGE_TYPE_MASK = of_nat n" "unat (of_nat n :: u64) = n"
proof -
  show u: "unat (of_nat n :: u64) = n" using assms by (simp add: unat_of_nat)
  have "unat ((of_nat n :: u64) AND mask 56) = unat (of_nat n :: u64)" using assms u by (simp add: unat_and_mask)
  then show "(of_nat n :: u64) AND MESSAGE_TYPE_MASK = of_nat n" by (simp add: MESSAGE_TYPE_MASK_eq word_unat_eq_iff)
qed

lemma dontcopy_tag:
  fixes tag :: u32
  assumes "tag AND PTYPE_TAG_ALLOCSESSION = 0"
  shows "(tag OR PTYPE_TAG_DONTCOPY) AND PTYPE_TAG_DONTCOPY \<noteq> 0" "(tag OR PTYPE_TAG_DONTCOPY) AND PTYPE_TAG_ALLOCSESSION = 0"
    "(tag OR PTYPE_TAG_DONTCOPY) AND 0xff = tag AND 0xff"
proof -
  have "(tag OR PTYPE_TAG_DONTCOPY) AND PTYPE_TAG_DONTCOPY = PTYPE_TAG_DONTCOPY" by (simp add: bit.conj_disj_distrib2)
  then show "(tag OR PTYPE_TAG_DONTCOPY) AND PTYPE_TAG_DONTCOPY \<noteq> 0" by (simp add: PTYPE_TAG_DONTCOPY_def)
  show "(tag OR PTYPE_TAG_DONTCOPY) AND PTYPE_TAG_ALLOCSESSION = 0" "(tag OR PTYPE_TAG_DONTCOPY) AND 0xff = tag AND 0xff"
    using assms by (simp_all add: bit.conj_disj_distrib2 PTYPE_TAG_DONTCOPY_def PTYPE_TAG_ALLOCSESSION_def)
qed

lemma read_and_send_ok:
  assumes inv: "server_inv w xs" and own: "db_own N D (db, g_mp g, w) (p @ rest)" and p: "p \<noteq> []" "length p < 2 ^ 31"
    and src: "source \<noteq> 0 \<or> ctx_handles w (g_ctx g) \<noteq> None" and tag: "tag AND PTYPE_TAG_ALLOCSESSION = 0"
    and dst: "local_service w a k"
  shows "\<exists>db' mp' w' D' m ys. read_and_send E g db [] 0 (int (length p)) source a tag w = Some (db', g\<lparr>g_mp := mp'\<rparr>, w') \<and>
    server_inv w' ys \<and> same_node w w' \<and> db_own N D' (db', mp', w') rest \<and> D \<subseteq> D' \<and> db_header db' = db_header db \<and>
    ctx_pending w' = (ctx_pending w)(k := ctx_pending w k @ [m]) \<and>
    payload_message w' (effective_source w (g_ctx g) source) tag m p \<and> msg_data m \<in> D' \<and>
    (\<forall>d\<in>D. sv_heap w d \<noteq> None \<longrightarrow> sv_heap w' d = sv_heap w d) \<and> (\<forall>x\<in>N. mp_msgs mp' x = mp_msgs (g_mp g) x)"
proof -
  obtain w1 t where m1: "skynet_malloc (Bytes (replicate (length p) 0)) w = (w1, t)" by fastforce
  note I = skynet_malloc_inv[OF inv m1]
  have tD: "t \<in> D" using own I(3) unfolding db_own_def by auto
  have own1: "db_own N D (db, g_mp g, w1) (p @ rest)"
    using own by (rule db_own_world) (use I(4) tD in auto)
  then have rep1: "db_rep (N, D, mp_msgs (g_mp g), w1) (db, g_mp g, w1) (p @ rest)"
    and out1: "\<And>d. d \<notin> D \<Longrightarrow> sv_heap w1 d \<noteq> None" unfolding db_own_def by auto
  obtain s2 where s2: "databuffer_read (db, g_mp g, w1) (int (length p)) = Some (s2, p)"
    "db_rep (N, D, mp_msgs (g_mp g), w1) s2 rest" "db_header (fst s2) = db_header db"
    using databuffer_read_ok[OF rep1 p(1)] by auto
  obtain db2 mp2 w2 where e2: "s2 = (db2, mp2, w2)" by (cases s2)
  obtain L2 F2 where c2: "db_chunks (N, D, mp_msgs (g_mp g), w1) (db2, mp2, w2) L2 F2"
    using s2(2) e2 unfolding db_rep_def by auto
  note C = db_chunksD[OF c2]
  obtain D2 where D2: "D \<subseteq> D2" "db_own N D2 (db2, mp2, w2) rest"
    using db_own_rebase[OF s2(2)[unfolded e2]] by blast
  have w2: "w2 = w1\<lparr>sv_heap := sv_heap w2\<rparr>" by (rule C(12))
  have "sv_heap w1 d \<noteq> None" if "sv_heap w2 d \<noteq> None" for d
    using that C(13)[of d] out1[of d] by (cases "d \<in> D") auto
  note inv2 = server_inv_shrink[OF I(1) w2 this]
  define w3 where "w3 = heap_write t p w2"
  have h2t: "sv_heap w2 t \<noteq> None" using C(13)[OF tD] I(4) by simp
  have inv3: "server_inv w3 xs" "ctx_pending w3 = ctx_pending w1"
    using server_inv_heap[OF inv2(1), of "(sv_heap w2)(t \<mapsto> Bytes p)"] h2t inv2(2)
    by (auto simp: w3_def heap_write_def split: if_splits)
  have own3: "db_own N D2 (db2, mp2, w3) rest"
    using D2(2) by (rule db_own_world) (use tD D2(1) in \<open>auto simp: w3_def heap_write_def\<close>)
  have eq3: "ctx_handles w3 = ctx_handles w1" "sv_H w3 = sv_H w1" "sv_HARBOR w3 = sv_HARBOR w1" "sv_ctx w3 = sv_ctx w1"
    by (subst w3_def, subst w2, simp add: heap_write_def ctx_handles_def)+
  have sn3: "same_node w w3" using eq3 I(7-9) by (simp add: same_node_def)
  have ls3: "local_service w3 a k" using dst same_node_service[OF sn3] by simp
  note sz = small_size_fits[of "length p"]
  obtain w4 m ys where w4: "skynet_send E (g_ctx g) source a (tag OR PTYPE_TAG_DONTCOPY) 1 t (of_nat (length p)) w3 = Some (w4, 1)"
    "server_inv w4 ys" "ctx_pending w4 = (ctx_pending w3)(k := ctx_pending w3 k @ [m])" "msg_data m = t"
    "msg_source m = effective_source w3 (g_ctx g) source" "message_type (msg_sz m) = ucast (tag AND 0xff)"
    "msg_sz m AND MESSAGE_TYPE_MASK = of_nat (length p)" "mq_world.more w4 = mq_world.more w3"
    using send_direct[OF inv3(1) sz(1), of source "g_ctx g" "tag OR PTYPE_TAG_DONTCOPY" a k E 1 t]
      p(2) src same_node_handles[OF sn3] dontcopy_tag[OF tag] ls3 unfolding local_service_def by auto
  note m4 = server_more[OF w4(8)]
  have run: "read_and_send E g db [] 0 (int (length p)) source a tag w = Some (db2, g\<lparr>g_mp := mp2\<rparr>, w4)"
    using m1 s2(1) e2 w4(1) by (simp add: read_and_send_def w3_def)
  have own4: "db_own N D2 (db2, mp2, w4) rest" using own3 by (rule db_own_world) (use m4(2) in simp)
  have heap: "sv_heap w4 d = sv_heap w d" if "d \<in> D" "sv_heap w d \<noteq> None" for d
    using that C(13)[OF that(1)] I(3,4) m4(2) by (auto simp: w3_def heap_write_def)
  have pm: "payload_message w4 (effective_source w (g_ctx g) source) tag m p"
    using w4(4-7) m4(2) sz(2) p(2) same_node_handles[OF sn3]
    by (simp add: payload_message_def w3_def heap_write_def effective_source_def)
  have "same_node w w4" using sn3 m4(1,4,10) by (simp add: same_node_def)
  then show ?thesis
    using run w4(2-4) own4 D2(1) s2(3) e2 pm heap tD C(11) inv3(2) I(5)
    by (intro exI[of _ db2] exI[of _ mp2] exI[of _ w4] exI[of _ D2] exI[of _ m] exI[of _ ys]) auto
qed

section \<open>Framing\<close>

text \<open>
  The state in which a gate forwards the data of a connection to its agent \<open>k\<close>: no broker, an agent that is
  a live service of this node, and a client tag that asks for no session.
\<close>

definition agent_ready :: "gate \<Rightarrow> connection \<Rightarrow> ptr \<Rightarrow> server \<Rightarrow> bool" where
  "agent_ready g c k w \<longleftrightarrow> g_broker g = 0 \<and> local_service w (c_agent c) k \<and>
     (c_client c \<noteq> 0 \<or> ctx_handles w (g_ctx g) \<noteq> None) \<and>
     word_of_int (g_client_tag g) AND PTYPE_TAG_ALLOCSESSION = 0"

lemma agent_ready_same: "same_node w w' \<Longrightarrow> agent_ready (g\<lparr>g_mp := mp\<rparr>) c k w' = agent_ready g c k w"
  using same_node_service[of w w'] same_node_handles[of w w'] by (simp add: agent_ready_def)

abbreviation agent_source :: "gate \<Rightarrow> connection \<Rightarrow> server \<Rightarrow> u32" where
  "agent_source g c w \<equiv> effective_source w (g_ctx g) (c_client c)"

abbreviation agent_payloads :: "gate \<Rightarrow> connection \<Rightarrow> server \<Rightarrow> server \<Rightarrow> skynet_message list \<Rightarrow> u8 list list \<Rightarrow> bool" where
  "agent_payloads g c w w' ms fs \<equiv>
     list_all2 (payload_message w' (agent_source g c w) (word_of_int (g_client_tag g))) ms fs"

text \<open>What one run of the loop does to the node: \<open>fs\<close> are the payloads sent, \<open>r\<close> the bytes that stay.\<close>

definition loop_result ::
  "services \<Rightarrow> connection \<Rightarrow> int \<Rightarrow> ptr \<Rightarrow> nat \<Rightarrow> ptr set \<Rightarrow> ptr set \<Rightarrow> databuffer \<Rightarrow> gate \<Rightarrow> server \<Rightarrow> u8 list list \<Rightarrow> u8 list \<Rightarrow> bool"
where
  "loop_result E c i k hs N D db g w fs r \<longleftrightarrow> (\<exists>db' mp' w' D' bs' ys ms.
     dispatch_loop E c i db g w = Some (db', g\<lparr>g_mp := mp'\<rparr>, w') \<and> server_inv w' ys \<and> same_node w w' \<and>
     db_own N D' (db', mp', w') bs' \<and> D \<subseteq> D' \<and> header_ok hs (db', mp', w') \<and> db_stream hs (db', mp', w') bs' = r \<and>
     ctx_pending w' = (ctx_pending w)(k := ctx_pending w k @ ms) \<and> agent_payloads g c w w' ms fs \<and>
     set (map msg_data ms) \<subseteq> D' \<and>
     (\<forall>d\<in>D. sv_heap w d \<noteq> None \<longrightarrow> sv_heap w' d = sv_heap w d) \<and> (\<forall>x\<in>N. mp_msgs mp' x = mp_msgs (g_mp g) x))"

lemma db_own_rep: "db_own N D (db, mp, w) bs \<Longrightarrow> db_rep (N, D, mp_msgs mp, w) (db, mp, w) bs"
  by (simp add: db_own_def)

lemma gate_mp_self: "g\<lparr>g_mp := g_mp g\<rparr> = g"
  by (cases g) simp

text \<open>Reading a header frees blocks of the buffer only.\<close>

lemma readheader_own:
  assumes inv: "server_inv w xs" and own: "db_own N D (db, mp, w) bs" and h: "header_ok hs (db, mp, w)"
    and st: "db_stream hs (db, mp, w) bs = hb @ rest" "length hb = hs" and n: "be_value hb < 2 ^ 31"
  shows "\<exists>db' mp' w' D'. databuffer_readheader (db, mp, w) (int hs) =
      Some ((db', mp', w'), if length rest < be_value hb then - 1 else int (be_value hb)) \<and>
    db_own N D' (db', mp', w') rest \<and> D \<subseteq> D' \<and> db_header db' = int (be_value hb) \<and> server_inv w' xs \<and>
    ctx_pending w' = ctx_pending w \<and> same_node w w' \<and> (\<forall>d\<in>D. sv_heap w' d = sv_heap w d) \<and> (\<forall>x\<in>N. mp_msgs mp' x = mp_msgs mp x)"
proof -
  obtain s' where s': "databuffer_readheader (db, mp, w) (int hs) =
      Some (s', if length rest < be_value hb then - 1 else int (be_value hb))"
    "db_rep (N, D, mp_msgs mp, w) s' rest" "db_header (fst s') = int (be_value hb)"
    using readheader_take[OF db_own_rep[OF own] h st n] by blast
  obtain db1 mp1 w1 where e: "s' = (db1, mp1, w1)" by (cases s')
  obtain L F where c: "db_chunks (N, D, mp_msgs mp, w) (db1, mp1, w1) L F" using s'(2) e unfolding db_rep_def by auto
  note C = db_chunksD[OF c]
  have "sv_heap w d \<noteq> None" if "sv_heap w1 d \<noteq> None" for d
    using that C(13)[of d] own unfolding db_own_def by (cases "d \<in> D") auto
  note inv1 = server_inv_shrink[OF inv C(12) this]
  have "same_node w w1" using C(12) by (cases w; cases w1) (simp add: same_node_def)
  moreover obtain D' where "D \<subseteq> D'" "db_own N D' (db1, mp1, w1) rest"
    using db_own_rebase[OF s'(2)[unfolded e]] by blast
  ultimately show ?thesis using s'(1,3) e inv1 C(11,13) by auto
qed

text \<open>The three ways a round of the loop ends.\<close>

lemma loop_stops:
  assumes inv: "server_inv w xs" and own: "db_own N D (db, g_mp g, w) bs" and h: "header_ok hs (db, g_mp g, w)"
    and hs: "g_header_size g = int hs" and st: "db_stream hs (db, g_mp g, w) bs = st" and short: "length st < hs"
  shows "loop_result E c i k hs N D db g w [] st"
proof -
  have "databuffer_readheader (db, g_mp g, w) (int hs) = Some ((db, g_mp g, w), - 1)"
    using readheader_short[OF db_own_rep[OF own] h] st short by simp
  then have "dispatch_loop E c i db g w = Some (db, g\<lparr>g_mp := g_mp g\<rparr>, w)"
    using hs by (subst dispatch_loop.simps) simp
  then show ?thesis unfolding loop_result_def using inv own h st by (fastforce simp: same_node_def)
qed

lemma loop_waits:
  assumes inv: "server_inv w xs" and own: "db_own N D (db, g_mp g, w) bs" and h: "header_ok hs (db, g_mp g, w)"
    and hs: "g_header_size g = int hs" and st: "db_stream hs (db, g_mp g, w) bs = hb @ rest" "length hb = hs"
    and n: "be_value hb < 2 ^ 31" "length rest < be_value hb"
  shows "loop_result E c i k hs N D db g w [] (hb @ rest)"
proof -
  obtain db' mp' w' D' where r: "databuffer_readheader (db, g_mp g, w) (int hs) = Some ((db', mp', w'), - 1)"
    "db_own N D' (db', mp', w') rest" "D \<subseteq> D'" "db_header db' = int (be_value hb)" "server_inv w' xs"
    "ctx_pending w' = ctx_pending w" "same_node w w'" "\<forall>d\<in>D. sv_heap w' d = sv_heap w d" "\<forall>x\<in>N. mp_msgs mp' x = mp_msgs (g_mp g) x"
    using readheader_own[OF inv own h st n(1)] n(2) by auto
  have "be_value hb < 256 ^ hs" using be_value_less[of hb] st(2) by simp
  then have hd: "header_ok hs (db', mp', w')" using h r(4) n(1) by (auto simp: header_ok_def)
  have "db_stream hs (db', mp', w') rest = hb @ rest"
    using r(4) n(2) be_bytes_value[of hb] st(2) by (simp add: db_stream_def)
  moreover have "dispatch_loop E c i db g w = Some (db', g\<lparr>g_mp := mp'\<rparr>, w')"
    using hs r(1) by (subst dispatch_loop.simps) simp
  ultimately show ?thesis unfolding loop_result_def using r hd by (fastforce simp: fun_upd_idem)
qed

text \<open>A run that continues from another state.\<close>

lemma loop_continues:
  assumes res: "loop_result E c i k hs N D' db' (g\<lparr>g_mp := mp'\<rparr>) w' fs r"
    and step: "dispatch_loop E c i db g w = dispatch_loop E c i db' (g\<lparr>g_mp := mp'\<rparr>) w'"
    and D: "D \<subseteq> D'" and sn: "same_node w w'" and N: "\<forall>x\<in>N. mp_msgs mp' x = mp_msgs (g_mp g) x"
    and heap: "\<forall>d\<in>D. sv_heap w d \<noteq> None \<longrightarrow> sv_heap w' d = sv_heap w d"
    and pend: "ctx_pending w' = (ctx_pending w)(k := ctx_pending w k @ ms)"
    and pay: "agent_payloads g c w w' ms gs" "set (map msg_data ms) \<subseteq> D'"
  shows "loop_result E c i k hs N D db g w (gs @ fs) r"
proof -
  obtain db2 mp2 w2 D2 bs2 ys ms2 where r: "dispatch_loop E c i db' (g\<lparr>g_mp := mp'\<rparr>) w' = Some (db2, g\<lparr>g_mp := mp'\<rparr>\<lparr>g_mp := mp2\<rparr>, w2)"
    "server_inv w2 ys" "same_node w' w2" "db_own N D2 (db2, mp2, w2) bs2" "D' \<subseteq> D2" "header_ok hs (db2, mp2, w2)"
    "db_stream hs (db2, mp2, w2) bs2 = r" "ctx_pending w2 = (ctx_pending w')(k := ctx_pending w' k @ ms2)"
    "agent_payloads (g\<lparr>g_mp := mp'\<rparr>) c w' w2 ms2 fs" "set (map msg_data ms2) \<subseteq> D2"
    "\<forall>d\<in>D'. sv_heap w' d \<noteq> None \<longrightarrow> sv_heap w2 d = sv_heap w' d" "\<forall>x\<in>N. mp_msgs mp2 x = mp_msgs (g_mp (g\<lparr>g_mp := mp'\<rparr>)) x"
    using res unfolding loop_result_def by blast
  have src: "agent_source (g\<lparr>g_mp := mp'\<rparr>) c w' = agent_source g c w"
    using same_node_handles[OF sn] by (simp add: effective_source_def)
  have keep: "payload_message w2 (agent_source g c w) (word_of_int (g_client_tag g)) m p"
    if "m \<in> set ms" "payload_message w' (agent_source g c w) (word_of_int (g_client_tag g)) m p" for m p
  proof -
    have "msg_data m \<in> D'" using pay(2) that(1) by auto
    then have "sv_heap w2 (msg_data m) = sv_heap w' (msg_data m)" using r(11) that(2) by (simp add: payload_message_def)
    then show ?thesis using that(2) by (simp add: payload_message_def)
  qed
  have "agent_payloads g c w w2 ms gs" by (rule list.rel_mono_strong[OF pay(1)]) (rule keep)
  then have "agent_payloads g c w w2 (ms @ ms2) (gs @ fs)" using r(9) src by (simp add: list_all2_appendI)
  moreover have "ctx_pending w2 = (ctx_pending w)(k := ctx_pending w k @ (ms @ ms2))" using r(8) pend by auto
  moreover have "\<forall>d\<in>D. sv_heap w d \<noteq> None \<longrightarrow> sv_heap w2 d = sv_heap w d" using heap r(11) D by auto
  moreover have "dispatch_loop E c i db g w = Some (db2, g\<lparr>g_mp := mp2\<rparr>, w2)" using step r(1) by simp
  ultimately show ?thesis unfolding loop_result_def
    using r(2,4-7,10,12) D N pay(2) same_node_trans[OF sn r(3)]
    by (intro exI[of _ db2] exI[of _ mp2] exI[of _ w2] exI[of _ D2] exI[of _ bs2] exI[of _ ys] exI[of _ "ms @ ms2"]) auto
qed

text \<open>
  The loop of \<open>dispatch_message\<close> cuts the stream of a connection into frames: it sends every complete payload to
  the agent, in order, and keeps the rest. Payloads must be below the limit of 16 MB, and the length of
  an unfinished one must fit an \<open>int\<close>.
\<close>

lemma dispatch_loop_frames:
  assumes "server_inv w xs" "db_own N D (db, g_mp g, w) bs" "header_ok hs (db, g_mp g, w)" "g_header_size g = int hs"
    "agent_ready g c k w" "db_stream hs (db, g_mp g, w) bs = st" "frames hs st = (fs, r)"
    "\<forall>f\<in>set fs. length f < 0x1000000" "be_value (take hs r) < 2 ^ 31"
  shows "loop_result E c i k hs N D db g w fs r"
  using assms
proof (induction "length st" arbitrary: w xs D db g bs st fs rule: less_induct)
  case less
  note inv = less.prems(1) and own = less.prems(2) and h = less.prems(3) and hs = less.prems(4) and ready = less.prems(5)
    and st = less.prems(6) and fr = less.prems(7) and small = less.prems(8) and rest_ok = less.prems(9)
  have hs0: "0 < hs" using h by (auto simp: header_ok_def)
  show ?case
  proof (cases "length st < hs")
    case True
    then show ?thesis using frames_short fr loop_stops[OF inv own h hs st] by auto
  next
    case False
    define hb where "hb = take hs st" define rest where "rest = drop hs st" define n where "n = be_value hb"
    have s: "st = hb @ rest" "length hb = hs" using False by (simp_all add: hb_def rest_def)
    note st' = st[unfolded s(1)]
    show ?thesis
    proof (cases "length rest < n")
      case True
      then have "frames hs st = ([], st)" using frames_unfinished[of rest hb] s by (simp add: n_def)
      then have f: "fs = []" "r = st" using fr by auto
      have "n < 2 ^ 31" using rest_ok f(2) by (simp add: n_def hb_def)
      then show ?thesis using loop_waits[OF inv own h hs st' s(2)] True f s(1) by (simp add: n_def)
    next
      case complete: False
      obtain fs' where fs': "frames hs (drop n rest) = (fs', r)" "fs = (if n = 0 then fs' else take n rest # fs')"
      proof -
        have "frames hs st = (let (fs, r) = frames hs (drop n rest) in (if n = 0 then fs else take n rest # fs, r))"
          using frames_step[of hb rest] complete hs0 s unfolding n_def by simp
        then show ?thesis using that fr by (cases "frames hs (drop n rest)") auto
      qed
      have n24: "n < 0x1000000" using small fs'(2) complete by (cases "n = 0") auto
      obtain db1 mp1 w1 D1 where r1: "databuffer_readheader (db, g_mp g, w) (int hs) = Some ((db1, mp1, w1), int n)"
        "db_own N D1 (db1, mp1, w1) rest" "D \<subseteq> D1" "db_header db1 = int n" "server_inv w1 xs"
        "ctx_pending w1 = ctx_pending w" "same_node w w1" "\<forall>d\<in>D. sv_heap w1 d = sv_heap w d" "\<forall>x\<in>N. mp_msgs mp1 x = mp_msgs (g_mp g) x"
        using readheader_own[OF inv own h st' s(2)] n24 complete unfolding n_def by auto
      have lt: "length (drop n rest) < length st" using s hs0 by simp
      have ready1: "agent_ready (g\<lparr>g_mp := mp1\<rparr>) c k w1" using ready agent_ready_same[OF r1(7)] by simp
      show ?thesis
      proof (cases "n = 0")
        case True
        have "loop_result E c i k hs N D1 db1 (g\<lparr>g_mp := mp1\<rparr>) w1 fs' r"
          using less.hyps[OF lt, of w1 xs D1 db1 "g\<lparr>g_mp := mp1\<rparr>" rest fs'] r1 True fs' small rest_ok ready1 h hs
          by (simp add: header_ok_def db_stream_def)
        moreover have "dispatch_loop E c i db g w = dispatch_loop E c i db1 (g\<lparr>g_mp := mp1\<rparr>) w1"
          using r1(1) True hs by (subst dispatch_loop.simps) simp
        ultimately have "loop_result E c i k hs N D db g w ([] @ fs') r"
          by (rule loop_continues[where ms = "[]"]) (use r1 in \<open>auto simp: fun_upd_idem\<close>)
        then show ?thesis using fs'(2) True by simp
      next
        case pos: False
        have np: "take n rest \<noteq> []" "length (take n rest) = n" using pos complete by auto
        let ?g1 = "g\<lparr>g_mp := mp1\<rparr>"
        have pre: "db_own N D1 (db1, g_mp ?g1, w1) (take n rest @ drop n rest)" "length (take n rest) < 2 ^ 31"
          "c_client c \<noteq> 0 \<or> ctx_handles w1 (g_ctx ?g1) \<noteq> None"
          "word_of_int (g_client_tag g) AND PTYPE_TAG_ALLOCSESSION = 0" "local_service w1 (c_agent c) k"
          using r1(2) np(2) n24 ready1 unfolding agent_ready_def by auto
        obtain db2 mp2 w2 D2 m ys where r2: "read_and_send E ?g1 db1 [] 0 (int (length (take n rest))) (c_client c) (c_agent c)
            (word_of_int (g_client_tag g)) w1 = Some (db2, ?g1\<lparr>g_mp := mp2\<rparr>, w2)" "server_inv w2 ys" "same_node w1 w2"
          "db_own N D2 (db2, mp2, w2) (drop n rest)" "D1 \<subseteq> D2" "ctx_pending w2 = (ctx_pending w1)(k := ctx_pending w1 k @ [m])"
          "payload_message w2 (effective_source w1 (g_ctx ?g1) (c_client c)) (word_of_int (g_client_tag g)) m (take n rest)"
          "msg_data m \<in> D2" "\<forall>d\<in>D1. sv_heap w1 d \<noteq> None \<longrightarrow> sv_heap w2 d = sv_heap w1 d"
          "\<forall>x\<in>N. mp_msgs mp2 x = mp_msgs (g_mp ?g1) x"
          using read_and_send_ok[OF r1(5) pre(1) np(1) pre(2-5), where E = E] by blast
        have sn: "same_node w w2" by (rule same_node_trans[OF r1(7) r2(3)])
        have "loop_result E c i k hs N D2 (databuffer_reset db2) (g\<lparr>g_mp := mp2\<rparr>) w2 fs' r"
          using less.hyps[OF lt, of w2 ys D2 "databuffer_reset db2" "g\<lparr>g_mp := mp2\<rparr>" "drop n rest" fs']
            r2(2,4) fs' small rest_ok h hs agent_ready_same[OF sn, where g = g and mp = mp2 and c = c and k = k] ready pos
          by (simp add: header_ok_def db_stream_def databuffer_reset_def db_own_header)
        moreover have "forward E ?g1 c db1 (int n) w1 = Some (db2, g\<lparr>g_mp := mp2\<rparr>, w2)"
          using r2(1) ready1 np(2) by (simp add: forward_def agent_ready_def local_service_def)
        then have "dispatch_loop E c i db g w = dispatch_loop E c i (databuffer_reset db2) (g\<lparr>g_mp := mp2\<rparr>) w2"
          using r1(1) pos hs n24 by (subst dispatch_loop.simps) simp
        ultimately have "loop_result E c i k hs N D db g w ([take n rest] @ fs') r"
        proof (rule loop_continues[where ms = "[m]"])
          have "effective_source w1 (g_ctx g) (c_client c) = agent_source g c w"
            using same_node_handles[OF r1(7)] by (simp add: effective_source_def)
          then show "agent_payloads g c w w2 [m] [take n rest]" using r2(7) by simp
          show "\<forall>d\<in>D. sv_heap w d \<noteq> None \<longrightarrow> sv_heap w2 d = sv_heap w d" using r1(3,8) r2(9) by auto
        qed (use r1 r2 sn in auto)
        then show ?thesis using fs'(2) pos by simp
      qed
    qed
  qed
qed

text \<open>
  One socket message with data: the chunk is appended to the stream of the connection, and the frames that are
  complete now go to the agent. The other connections and the rest of the gate do not change.
\<close>

text \<open>
  C2: when data arrives on a connection, the gate cuts the stream of all bytes received so far into
  frames at the big endian length headers, sends every complete payload to the agent as one message
  each, in order, and keeps exactly the unfinished rest; other connections and the rest of the gate
  do not change.
\<close>

theorem dispatch_message_frames:
  assumes inv: "server_inv w xs" and j: "j < length (g_conn g)" and c: "c = g_conn g ! j"
    and own: "db_own N D (c_buffer c, g_mp g, w) bs" and h: "header_ok hs (c_buffer c, g_mp g, w)"
    and hs: "g_header_size g = int hs" and ready: "agent_ready g c k w"
    and d: "d \<in> D" "d \<noteq> NULL" "sv_heap w d = Some (Bytes b)" "int (length bs) + int (length b) < 2 ^ 31"
    and fr: "frames hs (db_stream hs (c_buffer c, g_mp g, w) bs @ b) = (fs, r)"
    and small: "\<forall>f\<in>set fs. length f < 0x1000000" "be_value (take hs r) < 2 ^ 31"
  shows "\<exists>db' mp' w' D' bs' ys ms. dispatch_message E g j i d (int (length b)) w =
      Some (g\<lparr>g_mp := mp', g_conn := (g_conn g)[j := c\<lparr>c_buffer := db'\<rparr>]\<rparr>, w') \<and>
    server_inv w' ys \<and> same_node w w' \<and> db_own N D' (db', mp', w') bs' \<and> header_ok hs (db', mp', w') \<and>
    db_stream hs (db', mp', w') bs' = r \<and> ctx_pending w' = (ctx_pending w)(k := ctx_pending w k @ ms) \<and>
    agent_payloads g c w w' ms fs \<and> (\<forall>e\<in>D - {d}. sv_heap w e \<noteq> None \<longrightarrow> sv_heap w' e = sv_heap w e) \<and>
    (\<forall>x\<in>N. mp_msgs mp' x = mp_msgs (g_mp g) x)"
proof -
  let ?db = "c_buffer c" let ?mp = "g_mp g"
  obtain L F where ch: "db_chunks (N, D, mp_msgs ?mp, w) (?db, ?mp, w) L F" "bs = db_bytes ?db L" "db_size ?db = int (length bs)"
    using own unfolding db_own_def db_rep_def by auto
  note C = db_chunksD[OF ch(1)]
  have dL: "d \<notin> set (blocks L)" using C(9) d(1) by auto
  have ch': "db_chunks (N, D - {d}, mp_msgs ?mp, w) (?db, ?mp, w) L F"
    using C unfolding db_chunks_def pool_ok_def by auto
  then have rep: "db_rep (N, D - {d}, mp_msgs ?mp, w) (?db, ?mp, w) bs" using ch(2,3) unfolding db_rep_def by auto
  have "\<forall>L F. db_chunks (N, D - {d}, mp_msgs ?mp, w) (?db, ?mp, w) L F \<longrightarrow> d \<notin> set (blocks L)"
    using db_chunks_unique[OF _ ch'] dL by blast
  then obtain db1 mp1 w1 where s1: "databuffer_push (?db, ?mp, w) d (int (length b)) = Some (db1, mp1, w1)"
    "db_rep (N, D - {d}, mp_msgs ?mp, w) (db1, mp1, w1) (bs @ b)" "db_header db1 = db_header ?db" "w1 = w"
    using databuffer_push_ok[OF rep, of d b] d(2-4) by auto
  obtain L1 F1 where c1: "db_chunks (N, D - {d}, mp_msgs ?mp, w) (db1, mp1, w) L1 F1" using s1(2,4) unfolding db_rep_def by auto
  obtain D1 where D1: "D - {d} \<subseteq> D1" "db_own N D1 (db1, mp1, w) (bs @ b)"
    using db_own_rebase[OF s1(2)[unfolded s1(4)]] by blast
  have "loop_result E c i k hs N D1 db1 (g\<lparr>g_mp := mp1\<rparr>) w fs r"
  proof (rule dispatch_loop_frames[OF inv])
    show "db_stream hs (db1, g_mp (g\<lparr>g_mp := mp1\<rparr>), w) (bs @ b) = db_stream hs (?db, ?mp, w) bs @ b"
      using s1(3) by (simp add: db_stream_def)
    show "agent_ready (g\<lparr>g_mp := mp1\<rparr>) c k w" using ready by (simp add: agent_ready_def)
  qed (use D1 h s1(3) hs fr small in \<open>auto simp: header_ok_def\<close>)
  then obtain db' mp' w' D' bs' ys ms where r: "dispatch_loop E c i db1 (g\<lparr>g_mp := mp1\<rparr>) w = Some (db', g\<lparr>g_mp := mp1\<rparr>\<lparr>g_mp := mp'\<rparr>, w')"
    "server_inv w' ys" "same_node w w'" "db_own N D' (db', mp', w') bs'" "header_ok hs (db', mp', w')"
    "db_stream hs (db', mp', w') bs' = r" "ctx_pending w' = (ctx_pending w)(k := ctx_pending w k @ ms)"
    "agent_payloads (g\<lparr>g_mp := mp1\<rparr>) c w w' ms fs" "\<forall>e\<in>D1. sv_heap w e \<noteq> None \<longrightarrow> sv_heap w' e = sv_heap w e"
    "\<forall>x\<in>N. mp_msgs mp' x = mp_msgs (g_mp (g\<lparr>g_mp := mp1\<rparr>)) x"
    unfolding loop_result_def by blast
  have "dispatch_message E g j i d (int (length b)) w = Some (g\<lparr>g_mp := mp', g_conn := (g_conn g)[j := c\<lparr>c_buffer := db'\<rparr>]\<rparr>, w')"
    using j c s1(1,4) r(1) by (simp add: dispatch_message_def array_get_in)
  moreover have "\<forall>x\<in>N. mp_msgs mp' x = mp_msgs ?mp x" using r(10) db_chunksD(11)[OF c1] by simp
  ultimately show ?thesis using r(2-9) D1(1)
    by (intro exI[of _ db'] exI[of _ mp'] exI[of _ w'] exI[of _ D'] exI[of _ bs'] exI[of _ ys] exI[of _ ms]) auto
qed

end
