(* ===== verification/Netpack.thy ===== *)
theory Netpack
  imports Socket Stream_Spec
begin

text \<open>
  \<^verbatim>\<open>lualib-src/lua-netpack.c\<close>: the library with which a gate written in Lua cuts the data of
  its connections into packages with a header of two bytes. A queue holds the packages that
  wait to be popped, in a ring, and the unfinished package of each connection, in a hash
  table of chains.

  The first value of the Lua stack, the queue or \<open>nil\<close>, is the argument and result \<open>L\<close> of the
  functions. A block of memory is the list of its bytes, \<open>None\<close> where it is not yet written: every block has one
  owner, so passing a pointer on hands over the list, and freeing a block drops it. A chain linked
  by \<open>next\<close> is a list. An overflow of an \<open>int\<close> is undefined and the abort \<open>None\<close>.
\<close>

section \<open>Data\<close>

definition QUEUESIZE :: nat where
  "QUEUESIZE = 1024"

definition HASHSIZE :: nat where
  "HASHSIZE = 4096"

record netpack =
  np_id :: int
  np_size :: int
  np_buffer :: "u8 option list"

record uncomplete =
  uc_pack :: netpack
  uc_read :: int
  uc_header :: int

record netpack_queue =
  npq_cap :: nat
  npq_head :: nat
  npq_tail :: nat
  npq_hash :: "uncomplete list list"
  npq_queue :: "netpack option list"

type_synonym lua_queue = "netpack_queue option"

text \<open>What \<open>lfilter\<close> returns to Lua after the queue.\<close>

datatype np_event =
    Ev_none
  | Ev_data int "u8 option list" int
  | Ev_more
  | Ev_error int "u8 list"
  | Ev_open int "u8 list"
  | Ev_close int
  | Ev_warning int int

section \<open>The table of unfinished packages\<close>

definition hash_fd :: "int \<Rightarrow> nat option" where
  "hash_fd fd =
     (let s = fd div 2 ^ 24 + fd div 2 ^ 12 + fd in
      if - (2 ^ 31) \<le> s \<and> s < 2 ^ 31 then Some (nat (s mod int HASHSIZE)) else None)"

text \<open>The walk along a chain: the entry of \<open>fd\<close>, if any, and the chain without it.\<close>

fun find_chain :: "int \<Rightarrow> uncomplete list \<Rightarrow> uncomplete option \<times> uncomplete list" where
  "find_chain fd [] = (None, [])"
| "find_chain fd (uc # us) =
     (if np_id (uc_pack uc) = fd then (Some uc, us)
      else let (r, us') = find_chain fd us in (r, uc # us'))"

definition find_uncomplete :: "lua_queue \<Rightarrow> int \<Rightarrow> (lua_queue \<times> uncomplete option) option" where
  "find_uncomplete L fd = (case L of None \<Rightarrow> Some (None, None)
   | Some q \<Rightarrow> do {
       h \<leftarrow> hash_fd fd;
       chain \<leftarrow> array_get (npq_hash q) h;
       let (uc, chain) = find_chain fd chain;
       hash \<leftarrow> array_set (npq_hash q) h chain;
       Some (Some (q\<lparr>npq_hash := hash\<rparr>), uc)
     })"

definition get_queue :: "lua_queue \<Rightarrow> netpack_queue" where
  "get_queue L = (case L of Some q \<Rightarrow> q
   | None \<Rightarrow> \<lparr>npq_cap = QUEUESIZE, npq_head = 0, npq_tail = 0, npq_hash = replicate HASHSIZE [],
       npq_queue = replicate QUEUESIZE None\<rparr>)"

definition uncomplete_zero :: "int \<Rightarrow> uncomplete" where
  "uncomplete_zero fd = \<lparr>uc_pack = \<lparr>np_id = fd, np_size = 0, np_buffer = []\<rparr>, uc_read = 0, uc_header = 0\<rparr>"

text \<open>
  \<open>save_uncomplete\<close> and the assignments the callers make through the pointer it returns,
  which are the argument \<open>fill\<close>.
\<close>

definition link_uncomplete :: "netpack_queue \<Rightarrow> int \<Rightarrow> uncomplete \<Rightarrow> netpack_queue option" where
  "link_uncomplete q fd uc = do {
     h \<leftarrow> hash_fd fd;
     chain \<leftarrow> array_get (npq_hash q) h;
     hash \<leftarrow> array_set (npq_hash q) h (uc # chain);
     Some (q\<lparr>npq_hash := hash\<rparr>)
   }"

definition save_uncomplete :: "lua_queue \<Rightarrow> int \<Rightarrow> (uncomplete \<Rightarrow> uncomplete) \<Rightarrow> lua_queue option" where
  "save_uncomplete L fd fill = do {
     q \<leftarrow> link_uncomplete (get_queue L) fd (fill (uncomplete_zero fd));
     Some (Some q)
   }"

definition close_uncomplete :: "lua_queue \<Rightarrow> int \<Rightarrow> lua_queue option" where
  "close_uncomplete L fd = do { (L, _) \<leftarrow> find_uncomplete L fd; Some L }"

section \<open>The queue of packages\<close>

definition np_expand_queue :: "netpack_queue \<Rightarrow> netpack_queue" where
  "np_expand_queue q = \<lparr>npq_cap = npq_cap q + QUEUESIZE, npq_head = 0, npq_tail = npq_cap q,
     npq_hash = npq_hash q,
     npq_queue = map (\<lambda>i. npq_queue q ! ((npq_head q + i) mod npq_cap q)) [0..<npq_cap q]
                 @ replicate QUEUESIZE None\<rparr>"

definition np_push :: "netpack_queue \<Rightarrow> netpack \<Rightarrow> netpack_queue option" where
  "np_push q np = do {
     arr \<leftarrow> array_set (npq_queue q) (npq_tail q) (Some np);
     let tail = (if npq_cap q \<le> npq_tail q + 1 then npq_tail q + 1 - npq_cap q else npq_tail q + 1);
     let q = q\<lparr>npq_queue := arr, npq_tail := tail\<rparr>;
     Some (if npq_head q = npq_tail q then np_expand_queue q else q)
   }"

definition push_data :: "lua_queue \<Rightarrow> int \<Rightarrow> u8 option list \<Rightarrow> int \<Rightarrow> bool \<Rightarrow> lua_queue option" where
  "push_data L fd buffer sz clone = do {
     buffer \<leftarrow> (if clone then do { c_assert (nat sz \<le> length buffer); Some (take (nat sz) buffer) }
               else Some buffer);
     q \<leftarrow> np_push (get_queue L) \<lparr>np_id = fd, np_size = sz, np_buffer = buffer\<rparr>;
     Some (Some q)
   }"

definition lpop :: "lua_queue \<Rightarrow> (lua_queue \<times> netpack option) option" where
  "lpop L = (case L of None \<Rightarrow> Some (L, None)
   | Some q \<Rightarrow>
       if npq_head q = npq_tail q then Some (L, None)
       else do {
         slot \<leftarrow> array_get (npq_queue q) (npq_head q);
         np \<leftarrow> slot;
         let head = (if npq_cap q \<le> npq_head q + 1 then 0 else npq_head q + 1);
         Some (Some (q\<lparr>npq_head := head\<rparr>), Some np)
       })"

text \<open>The blocks a call frees are the second result.\<close>

definition clear_list :: "uncomplete list \<Rightarrow> u8 option list list" where
  "clear_list uc = map (np_buffer \<circ> uc_pack) uc"

fun free_slots :: "netpack_queue \<Rightarrow> nat list \<Rightarrow> u8 option list list option" where
  "free_slots q [] = Some []"
| "free_slots q (i # is) = do {
     slot \<leftarrow> array_get (npq_queue q) (i mod npq_cap q);
     np \<leftarrow> slot;
     bs \<leftarrow> free_slots q is;
     Some (np_buffer np # bs)
   }"

definition lclear :: "lua_queue \<Rightarrow> (lua_queue \<times> u8 option list list) option" where
  "lclear L = (case L of None \<Rightarrow> Some (None, [])
   | Some q \<Rightarrow> do {
       let freed = concat (map clear_list (npq_hash q));
       let tail = (if npq_tail q < npq_head q then npq_tail q + npq_cap q else npq_tail q);
       slots \<leftarrow> free_slots q [npq_head q..<tail];
       Some (Some (q\<lparr>npq_hash := map (\<lambda>_. []) (npq_hash q), npq_head := 0, npq_tail := 0\<rparr>), freed @ slots)
     })"

section \<open>Cutting data into packages\<close>

definition read_size :: "u8 list \<Rightarrow> nat option" where
  "read_size buffer = do {
     b0 \<leftarrow> array_get buffer 0;
     b1 \<leftarrow> array_get buffer 1;
     Some (unat (push_bit 8 (ucast b0) OR ucast b1 :: u32))
   }"

text \<open>\<open>memcpy\<close> of \<open>src\<close> to offset \<open>i\<close> of a block; outside the block it is the abort.\<close>

definition copy_in :: "u8 option list \<Rightarrow> nat \<Rightarrow> u8 list \<Rightarrow> u8 option list option" where
  "copy_in dst i src =
     (if i + length src \<le> length dst then Some (take i dst @ map Some src @ drop (i + length src) dst) else None)"

definition save_header :: "lua_queue \<Rightarrow> int \<Rightarrow> u8 \<Rightarrow> lua_queue option" where
  "save_header L fd b = save_uncomplete L fd (\<lambda>uc. uc\<lparr>uc_read := - 1, uc_header := uint b\<rparr>)"

definition save_partial :: "lua_queue \<Rightarrow> int \<Rightarrow> nat \<Rightarrow> u8 list \<Rightarrow> lua_queue option" where
  "save_partial L fd pack_size buffer = do {
     block \<leftarrow> copy_in (replicate pack_size None) 0 buffer;
     save_uncomplete L fd (\<lambda>uc. uc\<lparr>uc_read := int (length buffer),
       uc_pack := (uc_pack uc)\<lparr>np_size := int pack_size, np_buffer := block\<rparr>\<rparr>)
   }"

function push_more :: "lua_queue \<Rightarrow> int \<Rightarrow> u8 list \<Rightarrow> lua_queue option" where
  "push_more L fd buffer =
     (if length buffer = 1 then save_header L fd (hd buffer)
      else do {
        pack_size \<leftarrow> read_size buffer;
        let buffer' = drop 2 buffer;
        if length buffer' < pack_size then save_partial L fd pack_size buffer'
        else do {
          L \<leftarrow> push_data L fd (map Some buffer') (int pack_size) True;
          let rest = drop pack_size buffer';
          if rest \<noteq> [] then push_more L fd rest else Some L
        }
      })"
  by pat_completeness auto
termination
  by (relation "measure (\<lambda>(L, fd, b). length b)") auto

declare push_more.simps [simp del]

text \<open>The header byte that was missing, of an entry that has only the first one.\<close>

definition fill_header :: "uncomplete \<Rightarrow> u8 list \<Rightarrow> (uncomplete \<times> u8 list) option" where
  "fill_header uc buffer =
     (if uc_read uc < 0 then do {
        c_assert (uc_read uc = - 1);
        b \<leftarrow> array_get buffer 0;
        let pack_size = uint (ucast b OR push_bit 8 (word_of_int (uc_header uc)) :: u32);
        Some (uc\<lparr>uc_read := 0, uc_pack := (uc_pack uc)\<lparr>np_size := pack_size,
                np_buffer := replicate (nat pack_size) None\<rparr>\<rparr>, tl buffer)
      } else Some (uc, buffer))"

definition filter_data :: "lua_queue \<Rightarrow> int \<Rightarrow> u8 list \<Rightarrow> (lua_queue \<times> np_event) option" where
  "filter_data L fd buffer = do {
     (L, found) \<leftarrow> find_uncomplete L fd;
     case found of
       Some uc \<Rightarrow> do {
         (uc, buffer) \<leftarrow> fill_header uc buffer;
         let need = np_size (uc_pack uc) - uc_read uc;
         if int (length buffer) < need then do {
           block \<leftarrow> copy_in (np_buffer (uc_pack uc)) (nat (uc_read uc)) buffer;
           q \<leftarrow> L;
           q \<leftarrow> link_uncomplete q fd (uc\<lparr>uc_read := uc_read uc + int (length buffer),
                  uc_pack := (uc_pack uc)\<lparr>np_buffer := block\<rparr>\<rparr>);
           Some (Some q, Ev_none)
         } else do {
           block \<leftarrow> copy_in (np_buffer (uc_pack uc)) (nat (uc_read uc)) (take (nat need) buffer);
           let buffer = drop (nat need) buffer;
           if buffer = [] then Some (L, Ev_data fd block (np_size (uc_pack uc)))
           else do {
             L \<leftarrow> push_data L fd block (np_size (uc_pack uc)) False;
             L \<leftarrow> push_more L fd buffer;
             Some (L, Ev_more)
           }
         }
       }
     | None \<Rightarrow>
         if length buffer = 1 then do { L \<leftarrow> save_header L fd (hd buffer); Some (L, Ev_none) }
         else do {
           pack_size \<leftarrow> read_size buffer;
           let buffer = drop 2 buffer;
           if length buffer < pack_size then do { L \<leftarrow> save_partial L fd pack_size buffer; Some (L, Ev_none) }
           else if length buffer = pack_size then
             Some (L, Ev_data fd (map Some buffer) (int (length buffer)))
           else do {
             L \<leftarrow> push_data L fd (map Some buffer) (int pack_size) True;
             L \<leftarrow> push_more L fd (drop pack_size buffer);
             Some (L, Ev_more)
           }
         }
   }"

section \<open>Socket messages\<close>

text \<open>
  A message of the socket server: \<open>nm_buffer\<close> is the block it points to, \<open>None\<close> for \<open>NULL\<close>, and
  \<open>nm_padding\<close> the text behind it.
\<close>

record np_message =
  nm_type :: int
  nm_id :: int
  nm_ud :: int
  nm_buffer :: "u8 list option"
  nm_padding :: "u8 list"

definition pushstring :: "u8 list \<Rightarrow> int \<Rightarrow> u8 list option" where
  "pushstring msg sz = do { c_assert (0 \<le> sz \<and> nat sz \<le> length msg); Some (take (nat sz) msg) }"

definition lfilter :: "lua_queue \<Rightarrow> np_message \<Rightarrow> int \<Rightarrow> (lua_queue \<times> np_event) option" where
  "lfilter L message sz =
     (let (buffer, sz) = (case nm_buffer message of
            None \<Rightarrow> (nm_padding message, sz - int sizeof_socket_message) | Some b \<Rightarrow> (b, - 1));
          type = nm_type message; i = nm_id message; ud = nm_ud message in
      if type = SKYNET_SOCKET_TYPE_DATA then do {
        c_assert (sz = - 1);
        c_assert (0 \<le> ud \<and> nat ud \<le> length buffer);
        filter_data L i (take (nat ud) buffer)
      }
      else if type = SKYNET_SOCKET_TYPE_CONNECT then Some (L, Ev_none)
      else if type = SKYNET_SOCKET_TYPE_CLOSE then do { L \<leftarrow> close_uncomplete L i; Some (L, Ev_close i) }
      else if type = SKYNET_SOCKET_TYPE_ACCEPT then do { s \<leftarrow> pushstring buffer sz; Some (L, Ev_open ud s) }
      else if type = SKYNET_SOCKET_TYPE_ERROR then do {
        L \<leftarrow> close_uncomplete L i;
        s \<leftarrow> pushstring buffer sz;
        Some (L, Ev_error i s)
      }
      else if type = SKYNET_SOCKET_TYPE_WARNING then Some (L, Ev_warning i ud)
      else Some (L, Ev_none))"

section \<open>Packing\<close>

definition write_size :: "nat \<Rightarrow> u8 list" where
  "write_size len = (let n = of_nat len :: u32 in [ucast (drop_bit 8 n AND 0xff), ucast (n AND 0xff)])"

definition lpack :: "u8 list \<Rightarrow> string + u8 list" where
  "lpack msg =
     (if 0x10000 \<le> length msg
      then Inl (''Invalid size (too long) of data : '' @ print_d (to_int32 (int (length msg))))
      else Inr (write_size (length msg) @ msg))"

definition ltostring :: "u8 option list option \<Rightarrow> int \<Rightarrow> u8 list option" where
  "ltostring ptr sz = (case ptr of None \<Rightarrow> Some []
   | Some b \<Rightarrow> do {
       c_assert (0 \<le> sz \<and> nat sz \<le> length b \<and> None \<notin> set (take (nat sz) b));
       Some (map the (take (nat sz) b))
     })"

section \<open>The queue is first-in first-out\<close>

definition npq_rep :: "netpack_queue \<Rightarrow> netpack list \<Rightarrow> bool" where
  "npq_rep q xs \<longleftrightarrow> npq_cap q = length (npq_queue q) \<and> ring_rep (npq_queue q) (npq_head q) (npq_tail q) xs"

definition queue_rep :: "lua_queue \<Rightarrow> netpack list \<Rightarrow> bool" where
  "queue_rep L xs \<longleftrightarrow> npq_rep (get_queue L) xs"

lemma np_push_rep:
  assumes "npq_rep q xs"
  shows "\<exists>q'. np_push q x = Some q' \<and> npq_rep q' (xs @ [x]) \<and> npq_hash q' = npq_hash q"
proof -
  let ?A = "(npq_queue q)[npq_tail q := Some x]"
  have rr: "ring_rep (npq_queue q) (npq_head q) (npq_tail q) xs" and cap: "npq_cap q = length (npq_queue q)"
    using assms by (simp_all add: npq_rep_def)
  note b = ring_rep_bounds[OF rr] and P = ring_rep_push(1,2)[OF rr, of x] ring_rep_push(3)[OF rr]
  have t: "(if npq_cap q \<le> npq_tail q + 1 then npq_tail q + 1 - npq_cap q else npq_tail q + 1)
      = Suc (npq_tail q) mod length (npq_queue q)"
    using b cap by (auto simp: mod_if)
  define q1 where "q1 = q\<lparr>npq_queue := ?A, npq_tail := Suc (npq_tail q) mod length (npq_queue q)\<rparr>"
  have push: "np_push q x = Some (if npq_head q1 = npq_tail q1 then np_expand_queue q1 else q1)"
    using b unfolding np_push_def t q1_def by (simp add: array_set_in)
  show ?thesis
  proof (cases "Suc (length xs) = length (npq_queue q)")
    case True
    then have full: "npq_head q1 = npq_tail q1" using P(3) by (simp add: q1_def)
    have "map (\<lambda>i. npq_queue q1 ! ((npq_head q1 + i) mod npq_cap q1)) [0..<npq_cap q1] = map Some (xs @ [x])"
      using P(1) True cap by (simp add: q1_def ring_def)
    then have "npq_queue (np_expand_queue q1) = map Some (xs @ [x]) @ replicate QUEUESIZE None"
      by (simp only: np_expand_queue_def netpack_queue.simps)
    moreover have "npq_tail (np_expand_queue q1) = length (xs @ [x])" "npq_head (np_expand_queue q1) = 0"
      "npq_cap (np_expand_queue q1) = length (xs @ [x]) + QUEUESIZE" "npq_hash (np_expand_queue q1) = npq_hash q"
      using True cap by (simp_all add: np_expand_queue_def q1_def)
    ultimately show ?thesis using push full ring_rep_fresh[of QUEUESIZE "xs @ [x]"]
      by (simp add: npq_rep_def QUEUESIZE_def)
  next
    case False
    then have lt: "Suc (length xs) < length (npq_queue q)" using rr by (simp add: ring_rep_def)
    then have "npq_rep q1 (xs @ [x])" using P(2) cap by (simp add: npq_rep_def q1_def)
    moreover have "npq_head q1 \<noteq> npq_tail q1" using P(3) False by (simp add: q1_def)
    ultimately show ?thesis using push by (simp add: q1_def)
  qed
qed

text \<open>The package with the payload \<open>p\<close> of connection \<open>fd\<close>.\<close>

definition pack_of :: "int \<Rightarrow> u8 list \<Rightarrow> netpack" where
  "pack_of fd p = \<lparr>np_id = fd, np_size = int (length p), np_buffer = map Some p\<rparr>"

abbreviation push_pack :: "lua_queue \<Rightarrow> netpack \<Rightarrow> lua_queue option" where
  "push_pack L np \<equiv> push_data L (np_id np) (np_buffer np) (np_size np) False"

lemma push_pack_eq: "push_pack L np = map_option Some (np_push (get_queue L) np)"
  by (cases np, cases "np_push (get_queue L) np") (simp_all add: push_data_def)

lemma get_queue_Some [simp]: "get_queue (Some q) = q"
  by (simp add: get_queue_def)

lemma lpop_Cons:
  assumes "queue_rep L (x # xs)"
  shows "\<exists>q'. lpop L = Some (Some q', Some x) \<and> npq_rep q' xs \<and> npq_hash q' = npq_hash (get_queue L)"
proof (cases L)
  case None
  then show ?thesis using assms by (simp add: queue_rep_def npq_rep_def get_queue_def ring_rep_def ring_Suc_hd QUEUESIZE_def)
next
  case (Some q)
  then have rr: "ring_rep (npq_queue q) (npq_head q) (npq_tail q) (x # xs)" and cap: "npq_cap q = length (npq_queue q)"
    using assms by (simp_all add: queue_rep_def npq_rep_def)
  note b = ring_rep_bounds[OF rr] and P = ring_rep_pop[OF rr]
  have "lpop L = Some (Some (q\<lparr>npq_head := Suc (npq_head q) mod length (npq_queue q)\<rparr>), Some x)"
    using Some P(1,2) b cap by (auto simp: lpop_def array_get_in mod_if)
  then show ?thesis using Some P(3) cap by (simp add: npq_rep_def)
qed

lemma lpop_Nil:
  assumes "queue_rep L []"
  shows "lpop L = Some (L, None)"
proof (cases L)
  case (Some q)
  then show ?thesis using assms ring_rep_Nil_iff[of "npq_queue q" "npq_head q" "npq_tail q" "[]"]
    by (simp add: lpop_def queue_rep_def npq_rep_def)
qed (simp add: lpop_def)

interpretation np: fifo_total queue_rep "\<lambda>_ _ _. True" push_pack lpop
proof (unfold_locales, goal_cases)
  case (1 L xs x)
  then show ?case using np_push_rep[of "get_queue L" xs x] by (auto simp: queue_rep_def push_pack_eq)
next
  case (2 L x xs)
  then show ?case using lpop_Cons[OF 2] by (auto simp: queue_rep_def)
next
  case (3 L)
  then show ?case using lpop_Nil by blast
qed simp

lemma queue_rep_new: "queue_rep None []"
  by (simp add: queue_rep_def npq_rep_def get_queue_def QUEUESIZE_def ring_rep_empty)

section \<open>Unfinished packages\<close>

text \<open>An entry of the table, and the bytes of the stream it has consumed.\<close>

definition uc_inv :: "uncomplete \<Rightarrow> bool" where
  "uc_inv uc \<longleftrightarrow>
     (if uc_read uc < 0 then uc_read uc = - 1 \<and> 0 \<le> uc_header uc \<and> uc_header uc < 256
      else uc_read uc < np_size (uc_pack uc) \<and> np_size (uc_pack uc) < 0x10000 \<and>
        int (length (np_buffer (uc_pack uc))) = np_size (uc_pack uc) \<and>
        None \<notin> set (take (nat (uc_read uc)) (np_buffer (uc_pack uc))))"

definition uc_bytes :: "uncomplete \<Rightarrow> u8 list" where
  "uc_bytes uc =
     (if uc_read uc < 0 then [word_of_int (uc_header uc)]
      else be_bytes 2 (nat (np_size (uc_pack uc))) @ map the (take (nat (uc_read uc)) (np_buffer (uc_pack uc))))"

abbreviation uc_id :: "uncomplete \<Rightarrow> int" where
  "uc_id uc \<equiv> np_id (uc_pack uc)"

definition hash_inv :: "uncomplete list list \<Rightarrow> bool" where
  "hash_inv H \<longleftrightarrow> length H = HASHSIZE \<and>
     (\<forall>h<HASHSIZE. distinct (map uc_id (H ! h)) \<and> (\<forall>uc\<in>set (H ! h). uc_inv uc \<and> hash_fd (uc_id uc) = Some h))"

text \<open>The entry of a connection, and the bytes that wait for the rest of their package.\<close>

definition uc_lookup :: "uncomplete list list \<Rightarrow> int \<Rightarrow> uncomplete option" where
  "uc_lookup H fd = (case hash_fd fd of None \<Rightarrow> None | Some h \<Rightarrow> find (\<lambda>uc. uc_id uc = fd) (H ! h))"

definition pending :: "lua_queue \<Rightarrow> int \<Rightarrow> u8 list" where
  "pending L fd = (case uc_lookup (npq_hash (get_queue L)) fd of None \<Rightarrow> [] | Some uc \<Rightarrow> uc_bytes uc)"

definition netpack_inv :: "lua_queue \<Rightarrow> netpack list \<Rightarrow> bool" where
  "netpack_inv L xs \<longleftrightarrow> queue_rep L xs \<and> hash_inv (npq_hash (get_queue L))"

lemma hash_fd_less: "hash_fd fd = Some h \<Longrightarrow> h < HASHSIZE"
  by (auto simp: hash_fd_def HASHSIZE_def Let_def split: if_splits)

lemma find_chain_find: "fst (find_chain fd us) = find (\<lambda>uc. uc_id uc = fd) us"
  by (induction us) (auto split: prod.splits)

lemma find_chain_rest:
  "distinct (map uc_id us) \<Longrightarrow> snd (find_chain fd us) = filter (\<lambda>uc. uc_id uc \<noteq> fd) us"
proof (induction us)
  case (Cons u us)
  have "uc_id x \<noteq> uc_id u" if "x \<in> set us" for x
    using Cons.prems imageI[OF that, of uc_id] by auto
  then have "filter (\<lambda>uc. uc_id uc \<noteq> uc_id u) us = us" by (intro filter_True) simp
  then show ?case using Cons by (auto split: prod.splits)
qed simp

lemma find_filter_other: "fd \<noteq> fd' \<Longrightarrow> find (\<lambda>uc. uc_id uc = fd') (filter (\<lambda>uc. uc_id uc \<noteq> fd) us) = find (\<lambda>uc. uc_id uc = fd') us"
  by (induction us) auto

lemma find_filter_same: "find (\<lambda>uc. uc_id uc = fd) (filter (\<lambda>uc. uc_id uc \<noteq> fd) us) = None"
  by (induction us) auto

text \<open>Taking an entry out of the table, and putting one in.\<close>

lemma hash_inv_remove:
  assumes inv: "hash_inv H" and h: "hash_fd fd = Some h"
  shows "hash_inv (H[h := snd (find_chain fd (H ! h))])"
    and "uc_lookup (H[h := snd (find_chain fd (H ! h))]) = (uc_lookup H)(fd := None)"
proof -
  have l: "length H = HASHSIZE" "h < HASHSIZE" "distinct (map uc_id (H ! h))"
    using inv hash_fd_less[OF h] by (auto simp: hash_inv_def)
  note r = find_chain_rest[OF l(3), of fd]
  show "hash_inv (H[h := snd (find_chain fd (H ! h))])"
    using inv l unfolding r by (auto simp: hash_inv_def nth_list_update distinct_map_filter)
  show "uc_lookup (H[h := snd (find_chain fd (H ! h))]) = (uc_lookup H)(fd := None)"
    unfolding r using h l
    by (auto simp: uc_lookup_def fun_eq_iff nth_list_update find_filter_other find_filter_same split: option.splits)
qed

lemma hash_inv_insert:
  assumes inv: "hash_inv H" and h: "hash_fd fd = Some h" and new: "uc_lookup H fd = None" and uc: "uc_inv uc" "uc_id uc = fd"
  shows "hash_inv (H[h := uc # H ! h])" "uc_lookup (H[h := uc # H ! h]) = (uc_lookup H)(fd \<mapsto> uc)"
proof -
  have l: "length H = HASHSIZE" "h < HASHSIZE" using inv hash_fd_less[OF h] by (auto simp: hash_inv_def)
  have "uc_id uc \<notin> uc_id ` set (H ! h)" using new h uc(2) by (auto simp: uc_lookup_def find_None_iff)
  then show "hash_inv (H[h := uc # H ! h])"
    using inv l h uc by (auto simp: hash_inv_def nth_list_update)
  show "uc_lookup (H[h := uc # H ! h]) = (uc_lookup H)(fd \<mapsto> uc)"
    using h l uc by (auto simp: uc_lookup_def fun_eq_iff nth_list_update split: option.splits)
qed

lemma uc_lookup_inv:
  assumes "hash_inv H" "uc_lookup H fd = Some uc"
  shows "uc_inv uc" "uc_id uc = fd"
proof -
  obtain h where h: "hash_fd fd = Some h" "find (\<lambda>uc. uc_id uc = fd) (H ! h) = Some uc"
    using assms(2) by (auto simp: uc_lookup_def split: option.splits)
  have "uc \<in> set (H ! h)" "uc_id uc = fd" using h(2) by (auto simp: find_Some_iff)
  then show "uc_inv uc" "uc_id uc = fd" using assms(1) hash_fd_less[OF h(1)] by (simp_all add: hash_inv_def)
qed

lemma uc_bytes_not_Nil: "uc_bytes uc \<noteq> []"
  by (simp add: uc_bytes_def numeral_2_eq_2)

lemma pending_Nil_iff: "pending L fd = [] \<longleftrightarrow> uc_lookup (npq_hash (get_queue L)) fd = None"
  by (simp add: pending_def uc_bytes_not_Nil split: option.splits)

lemma hash_inv_new: "hash_inv (replicate HASHSIZE [])" "uc_lookup (replicate HASHSIZE []) = Map.empty"
  by (auto simp: hash_inv_def uc_lookup_def fun_eq_iff hash_fd_less split: option.splits)

lemma netpack_inv_new: "netpack_inv None []" "pending None fd = []"
  using queue_rep_new hash_inv_new(1) hash_inv_new(2) by (simp_all add: netpack_inv_def pending_def get_queue_def)

text \<open>What waits for a connection is never a complete package.\<close>

lemma pending_packages:
  assumes "netpack_inv L xs"
  shows "packages 2 (pending L fd) = ([], pending L fd)"
proof (cases "uc_lookup (npq_hash (get_queue L)) fd")
  case (Some uc)
  then have "uc_inv uc" using assms uc_lookup_inv(1) unfolding netpack_inv_def by blast
  then have "packages 2 (uc_bytes uc) = ([], uc_bytes uc)"
  proof (cases "uc_read uc < 0")
    case False
    let ?n = "nat (np_size (uc_pack uc))"
    have u: "nat (uc_read uc) < ?n" "?n < 256 ^ 2"
      using \<open>uc_inv uc\<close> False by (auto simp: uc_inv_def)
    have "be_value (be_bytes 2 ?n) = ?n" using u(2) by (rule be_value_bytes)
    then have "length (map the (take (nat (uc_read uc)) (np_buffer (uc_pack uc)))) < be_value (be_bytes 2 ?n)"
      using u(1) by (metis length_map length_take min.cobounded2 le_less_trans)
    from packages_unfinished[OF this] show ?thesis using False by (simp add: uc_bytes_def)
  qed (simp add: uc_bytes_def packages_short)
  then show ?thesis using Some by (simp add: pending_def)
qed (simp add: pending_def packages_short)

lemma find_uncomplete_ok:
  assumes inv: "netpack_inv L xs" and h: "hash_fd fd \<noteq> None"
  shows "\<exists>L'. find_uncomplete L fd = Some (L', uc_lookup (npq_hash (get_queue L)) fd) \<and> netpack_inv L' xs \<and>
    pending L' = (pending L)(fd := []) \<and> (uc_lookup (npq_hash (get_queue L)) fd \<noteq> None \<longrightarrow> L' \<noteq> None)"
proof (cases L)
  case None
  then show ?thesis using inv by (simp add: find_uncomplete_def netpack_inv_new get_queue_def hash_inv_new fun_eq_iff)
next
  case (Some q)
  obtain k where k: "hash_fd fd = Some k" using h by auto
  let ?H = "npq_hash q"
  have H: "hash_inv ?H" and rep: "npq_rep q xs" using inv Some by (simp_all add: netpack_inv_def queue_rep_def)
  then have l: "k < length ?H" using hash_fd_less[OF k] by (simp add: hash_inv_def)
  let ?q = "q\<lparr>npq_hash := ?H[k := snd (find_chain fd (?H ! k))]\<rparr>"
  have "find_uncomplete L fd = Some (Some ?q, uc_lookup ?H fd)"
    using Some k l find_chain_find[of fd "?H ! k"]
    by (auto simp: find_uncomplete_def array_get_in array_set_in uc_lookup_def split: prod.splits)
  moreover have "netpack_inv (Some ?q) xs"
    using hash_inv_remove(1)[OF H k] rep by (simp add: netpack_inv_def queue_rep_def npq_rep_def)
  moreover have "pending (Some ?q) = (pending L)(fd := [])"
    using hash_inv_remove(2)[OF H k] Some by (auto simp: pending_def fun_eq_iff)
  ultimately show ?thesis using Some by auto
qed

lemma link_uncomplete_ok:
  assumes inv: "netpack_inv L xs" and h: "hash_fd fd \<noteq> None" and new: "pending L fd = []"
    and uc: "uc_inv uc" "uc_id uc = fd"
  shows "\<exists>q'. link_uncomplete (get_queue L) fd uc = Some q' \<and> netpack_inv (Some q') xs \<and>
    pending (Some q') = (pending L)(fd := uc_bytes uc)"
proof -
  obtain k where k: "hash_fd fd = Some k" using h by auto
  let ?q = "get_queue L" let ?H = "npq_hash ?q"
  have H: "hash_inv ?H" and rep: "npq_rep ?q xs" using inv by (simp_all add: netpack_inv_def queue_rep_def)
  have n: "uc_lookup ?H fd = None" using new by (simp add: pending_Nil_iff)
  have l: "k < length ?H" using hash_fd_less[OF k] H by (simp add: hash_inv_def)
  let ?q' = "?q\<lparr>npq_hash := ?H[k := uc # ?H ! k]\<rparr>"
  note I = hash_inv_insert[OF H k n uc]
  have "link_uncomplete ?q fd uc = Some ?q'" using k l by (simp add: link_uncomplete_def array_get_in array_set_in)
  moreover have "netpack_inv (Some ?q') xs" using I(1) rep by (simp add: netpack_inv_def queue_rep_def npq_rep_def)
  moreover have "pending (Some ?q') = (pending L)(fd := uc_bytes uc)" using I(2) by (auto simp: pending_def fun_eq_iff)
  ultimately show ?thesis by blast
qed

lemma push_data_ok:
  assumes inv: "netpack_inv L xs"
  shows "\<exists>L'. push_data L fd (map Some p) (int (length p)) False = Some L' \<and> netpack_inv L' (xs @ [pack_of fd p]) \<and>
    pending L' = pending L"
proof -
  obtain q' where "np_push (get_queue L) (pack_of fd p) = Some q'" "npq_rep q' (xs @ [pack_of fd p])"
    "npq_hash q' = npq_hash (get_queue L)"
    using np_push_rep[of "get_queue L" xs "pack_of fd p"] inv by (auto simp: netpack_inv_def queue_rep_def)
  then show ?thesis using inv
    by (auto simp: push_data_def pack_of_def netpack_inv_def queue_rep_def pending_def fun_eq_iff)
qed

lemma push_data_clone: "push_data L fd (map Some (p @ r)) (int (length p)) True = push_data L fd (map Some p) (int (length p)) False"
  by (simp add: push_data_def)

section \<open>Framing\<close>

lemma save_header_ok:
  assumes "netpack_inv L xs" "hash_fd fd \<noteq> None" "pending L fd = []"
  shows "\<exists>L'. save_header L fd b = Some L' \<and> netpack_inv L' xs \<and> pending L' = (pending L)(fd := [b])"
proof -
  let ?uc = "(uncomplete_zero fd)\<lparr>uc_read := - 1, uc_header := uint b\<rparr>"
  have "uint b < 256" using unsigned_less[of b, where 'a = int] by simp
  then have "uc_inv ?uc" "uc_id ?uc = fd" "uc_bytes ?uc = [b]"
    by (simp_all add: uc_inv_def uc_bytes_def uncomplete_zero_def)
  then show ?thesis using link_uncomplete_ok[OF assms, of ?uc] by (auto simp: save_header_def save_uncomplete_def)
qed

lemma save_partial_ok:
  assumes "netpack_inv L xs" "hash_fd fd \<noteq> None" "pending L fd = []" "length bs < n" "n < 0x10000"
  shows "\<exists>L'. save_partial L fd n bs = Some L' \<and> netpack_inv L' xs \<and> pending L' = (pending L)(fd := be_bytes 2 n @ bs)"
proof -
  let ?block = "map Some bs @ replicate (n - length bs) None"
  let ?uc = "(uncomplete_zero fd)\<lparr>uc_read := int (length bs),
    uc_pack := (uc_pack (uncomplete_zero fd))\<lparr>np_size := int n, np_buffer := ?block\<rparr>\<rparr>"
  have "uc_inv ?uc" "uc_id ?uc = fd" "uc_bytes ?uc = be_bytes 2 n @ bs"
    using assms(4,5) by (auto simp: uc_inv_def uc_bytes_def uncomplete_zero_def comp_def)
  moreover have "copy_in (replicate n None) 0 bs = Some ?block" using assms(4) by (simp add: copy_in_def)
  ultimately show ?thesis using link_uncomplete_ok[OF assms(1-3), of ?uc] by (auto simp: save_partial_def save_uncomplete_def)
qed

lemma or_bytes: "unat (push_bit 8 (ucast b0) OR ucast (b1 :: u8) :: u32) = be_value [b0, b1]" for b0 :: u8
proof -
  have "(push_bit 8 (ucast b0) OR ucast b1 :: u32) = push_bit 8 (ucast b0) + ucast b1"
    by (rule disjunctive_add[symmetric]) (auto simp: bit_simps dest: byte_bits)
  also have "\<dots> = of_nat (unat b0 * 256 + unat b1)"
    by (simp add: push_bit_eq_mult)
  finally have eq: "(push_bit 8 (ucast b0) OR ucast b1 :: u32) = of_nat (unat b0 * 256 + unat b1)" .
  have "unat b0 * 256 + unat b1 < 2 ^ LENGTH(32)"
    using unsigned_less[of b0, where 'a = nat] unsigned_less[of b1, where 'a = nat] by simp
  then show ?thesis unfolding eq unat_of_nat by (simp add: be_value_def)
qed

lemma read_size_ok: "read_size (b0 # b1 # rest) = Some (be_value [b0, b1])"
  by (simp add: read_size_def array_get_def or_bytes)

lemma be_value_pair: "be_value [b0, b1] < 0x10000"
  using be_value_less[of "[b0, b1]"] by simp

lemma be_bytes_pair: "be_bytes 2 (be_value [b0, b1]) = [b0, b1]"
  using be_bytes_value[of "[b0, b1]"] by (simp add: numeral_2_eq_2)

lemma packages_pair_unfinished:
  "length rest < be_value [b0, b1] \<Longrightarrow> packages 2 (b0 # b1 # rest) = ([], b0 # b1 # rest)"
  using packages_unfinished[of rest "[b0, b1]"] by (simp add: numeral_2_eq_2)

lemma packages_pair_step:
  "length p = be_value [b0, b1] \<Longrightarrow>
   packages 2 (b0 # b1 # p @ rest) = (p # fst (packages 2 rest), snd (packages 2 rest))"
  using packages_step[of "[b0, b1]" p rest] by (simp add: numeral_2_eq_2)

lemma two_bytes: "length bs \<noteq> 1 \<Longrightarrow> bs \<noteq> [] \<Longrightarrow> \<exists>b0 b1 rest. bs = b0 # b1 # rest"
  by (metis One_nat_def length_0_conv length_Suc_conv neq_Nil_conv)

lemma push_more_ok:
  assumes "netpack_inv L xs" "hash_fd fd \<noteq> None" "pending L fd = []" "bs \<noteq> []"
  shows "\<exists>L'. push_more L fd bs = Some L' \<and> netpack_inv L' (xs @ map (pack_of fd) (fst (packages 2 bs))) \<and>
    pending L' = (pending L)(fd := snd (packages 2 bs))"
  using assms
proof (induction "length bs" arbitrary: L xs bs rule: less_induct)
  case less
  note inv = less.prems(1) and h = less.prems(2) and new = less.prems(3)
  show ?case
  proof (cases "length bs = 1")
    case True
    then have "packages 2 bs = ([], bs)" "bs = [hd bs]"
      by (simp add: packages_short) (use True in \<open>cases bs; simp\<close>)
    moreover have "push_more L fd bs = save_header L fd (hd bs)" using True by (subst push_more.simps) simp
    ultimately show ?thesis using save_header_ok[OF inv h new, of "hd bs"] by simp
  next
    case False
    then obtain b0 b1 rest where bs: "bs = b0 # b1 # rest" using two_bytes less.prems(4) by blast
    let ?n = "be_value [b0, b1]"
    show ?thesis
    proof (cases "length rest < ?n")
      case True
      then have "push_more L fd bs = save_partial L fd ?n rest"
        unfolding bs by (subst push_more.simps) (simp add: read_size_ok)
      then show ?thesis using save_partial_ok[OF inv h new True be_value_pair] packages_pair_unfinished[OF True]
        by (simp add: bs be_bytes_pair)
    next
      case complete: False
      define p r where "p = take ?n rest" and "r = drop ?n rest"
      have p: "rest = p @ r" "length p = ?n" using complete by (simp_all add: p_def r_def)
      obtain L1 where L1: "push_data L fd (map Some p) (int (length p)) False = Some L1"
        "netpack_inv L1 (xs @ [pack_of fd p])" "pending L1 = pending L"
        using push_data_ok[OF inv, of fd p] by blast
      have step: "push_more L fd bs = (if r \<noteq> [] then push_more L1 fd r else Some L1)"
        unfolding bs using L1(1) push_data_clone[of L fd p r] p complete
        by (subst push_more.simps) (simp add: read_size_ok)
      have pk: "packages 2 bs = (p # fst (packages 2 r), snd (packages 2 r))"
        using packages_pair_step[OF p(2), of r] by (simp add: bs p(1))
      show ?thesis
      proof (cases "r = []")
        case True
        then show ?thesis using step pk L1 new by (simp add: packages_short fun_upd_idem)
      next
        case False
        have "length r < length bs" by (simp add: bs p(1))
        then show ?thesis using less.hyps[of r L1 "xs @ [pack_of fd p]"] False L1(2,3) h new step pk by simp
      qed
    qed
  qed
qed

text \<open>
  What \<open>filter\<close> does with data, stated on the stream of the connection: \<open>ps\<close> are the packages that are
  complete now. No package changes nothing else; exactly one package with no byte left is returned at once;
  otherwise all of them go to the queue.
\<close>

definition data_event :: "int \<Rightarrow> u8 list list \<Rightarrow> u8 list \<Rightarrow> np_event" where
  "data_event fd ps r =
     (if ps = [] then Ev_none
      else if length ps = 1 \<and> r = [] then Ev_data fd (map Some (hd ps)) (int (length (hd ps)))
      else Ev_more)"

definition data_queued :: "int \<Rightarrow> u8 list list \<Rightarrow> u8 list \<Rightarrow> netpack list" where
  "data_queued fd ps r = (if length ps = 1 \<and> r = [] then [] else map (pack_of fd) ps)"

definition filter_result :: "netpack list \<Rightarrow> int \<Rightarrow> u8 list \<Rightarrow> (int \<Rightarrow> u8 list) \<Rightarrow> (lua_queue \<times> np_event) option \<Rightarrow> bool" where
  "filter_result xs fd st pend res \<longleftrightarrow> (\<exists>L'. case packages 2 st of (ps, r) \<Rightarrow>
     res = Some (L', data_event fd ps r) \<and> netpack_inv L' (xs @ data_queued fd ps r) \<and> pending L' = pend(fd := r))"

text \<open>The first package of the data is complete and there is more behind it.\<close>

lemma push_first:
  assumes inv: "netpack_inv L xs" and h: "hash_fd fd \<noteq> None" and new: "pending L fd = []" and bs: "bs \<noteq> []"
    and p: "length p = be_value [b0, b1]"
  shows "filter_result xs fd (b0 # b1 # p @ bs) (pending L) (do {
    L \<leftarrow> push_data L fd (map Some p) (int (length p)) False;
    L \<leftarrow> push_more L fd bs;
    Some (L, Ev_more)
  })"
proof -
  obtain L1 where L1: "push_data L fd (map Some p) (int (length p)) False = Some L1"
    "netpack_inv L1 (xs @ [pack_of fd p])" "pending L1 = pending L"
    using push_data_ok[OF inv, of fd p] by blast
  have n1: "pending L1 fd = []" using L1(3) new by simp
  obtain L2 where L2: "push_more L1 fd bs = Some L2"
    "netpack_inv L2 ((xs @ [pack_of fd p]) @ map (pack_of fd) (fst (packages 2 bs)))"
    "pending L2 = (pending L1)(fd := snd (packages 2 bs))"
    using push_more_ok[OF L1(2) h n1 bs] by blast
  have ne: "fst (packages 2 bs) \<noteq> [] \<or> snd (packages 2 bs) \<noteq> []"
    using bs by (subst (1 2) packages.simps) (simp add: Let_def split: prod.splits)
  show ?thesis using L1 L2 ne
    by (simp add: filter_result_def packages_pair_step[OF p] data_event_def data_queued_def length_Suc_conv) auto
qed

lemma fill_header_ok:
  assumes "uc_inv uc" "bs \<noteq> []"
  obtains uc' bs' b0 b1 where "fill_header uc bs = Some (uc', bs')" "uc_id uc' = uc_id uc"
    "0 \<le> uc_read uc'" "np_size (uc_pack uc') = int (be_value [b0, b1])" "length (np_buffer (uc_pack uc')) = be_value [b0, b1]"
    "uc_read uc' \<le> np_size (uc_pack uc')"
    "None \<notin> set (take (nat (uc_read uc')) (np_buffer (uc_pack uc')))"
    "uc_bytes uc @ bs = b0 # b1 # map the (take (nat (uc_read uc')) (np_buffer (uc_pack uc'))) @ bs'"
proof (cases "uc_read uc < 0")
  case True
  obtain b1 bs' where bs: "bs = b1 # bs'" using assms(2) by (cases bs) auto
  define b0 :: u8 where "b0 = word_of_int (uc_header uc)"
  have hd: "uc_read uc = - 1" "0 \<le> uc_header uc" "uc_header uc < 256" using assms(1) True by (simp_all add: uc_inv_def)
  then have b0: "(word_of_int (uc_header uc) :: u32) = ucast b0" by (simp add: b0_def unsigned_of_int take_bit_int_eq_self)
  have n: "uint (ucast b1 OR push_bit 8 (word_of_int (uc_header uc)) :: u32) = int (be_value [b0, b1])"
    "unat (ucast b1 OR push_bit 8 (word_of_int (uc_header uc)) :: u32) = be_value [b0, b1]"
    unfolding b0 or_bytes[symmetric] by (simp_all add: or.commute)
  let ?uc = "uc\<lparr>uc_read := 0, uc_pack := (uc_pack uc)\<lparr>np_size := int (be_value [b0, b1]),
    np_buffer := replicate (be_value [b0, b1]) None\<rparr>\<rparr>"
  have "fill_header uc bs = Some (?uc, bs')" using hd(1) bs n by (simp add: fill_header_def array_get_def)
  then show ?thesis by (rule that[of ?uc bs' b0 b1]) (use True bs in \<open>simp_all add: uc_bytes_def b0_def\<close>)
next
  case False
  have u: "uc_read uc < np_size (uc_pack uc)" "np_size (uc_pack uc) < 0x10000"
      "int (length (np_buffer (uc_pack uc))) = np_size (uc_pack uc)"
      "None \<notin> set (take (nat (uc_read uc)) (np_buffer (uc_pack uc)))"
    using assms(1) False by (auto simp: uc_inv_def)
  let ?n = "nat (np_size (uc_pack uc))"
  obtain b0 b1 where b: "be_bytes 2 ?n = [b0, b1]" by (simp add: numeral_2_eq_2)
  have n: "be_value [b0, b1] = ?n" unfolding b[symmetric] using u(2) by (intro be_value_bytes) simp
  have "fill_header uc bs = Some (uc, bs)" using False by (simp add: fill_header_def)
  then show ?thesis by (rule that[of uc bs b0 b1]) (use False u n b in \<open>simp_all add: uc_bytes_def\<close>)
qed

lemma copy_in_ok:
  assumes "i \<le> length dst" "None \<notin> set (take i dst)" "length src \<le> length dst - i"
  obtains block where "copy_in dst i src = Some block" "length block = length dst"
    "take (i + length src) block = map Some (map the (take i dst) @ src)"
proof -
  have "map Some (map the (take i dst)) = take i dst" using map_Some_the[OF assms(2)] .
  then show ?thesis using assms that[of "take i dst @ map Some src @ drop (i + length src) dst"]
    by (simp add: copy_in_def)
qed

lemma filter_result_base: "pend' = pend(fd := []) \<Longrightarrow> filter_result xs fd st pend' res = filter_result xs fd st pend res"
  by (simp add: filter_result_def)

text \<open>Data of a connection that has no unfinished package.\<close>

lemma filter_fresh:
  assumes inv: "netpack_inv L xs" and h: "hash_fd fd \<noteq> None" and new: "pending L fd = []" and bs: "bs \<noteq> []"
    and found: "find_uncomplete L0 fd = Some (L, None)"
  shows "filter_result xs fd bs (pending L) (filter_data L0 fd bs)"
proof (cases "length bs = 1")
  case True
  then have "packages 2 bs = ([], bs)" "bs = [hd bs]"
    by (simp add: packages_short) (use True in \<open>cases bs; simp\<close>)
  then show ?thesis using save_header_ok[OF inv h new, of "hd bs"] True found
    by (auto simp: filter_data_def filter_result_def data_event_def data_queued_def)
next
  case False
  then obtain b0 b1 rest where b: "bs = b0 # b1 # rest" using two_bytes bs by blast
  let ?n = "be_value [b0, b1]"
  consider "length rest < ?n" | "length rest = ?n" | "?n < length rest" by linarith
  then show ?thesis
  proof cases
    case 1
    then show ?thesis using save_partial_ok[OF inv h new 1 be_value_pair] packages_pair_unfinished[OF 1] found
      by (auto simp: b filter_data_def filter_result_def data_event_def data_queued_def read_size_ok be_bytes_pair)
  next
    case 2
    then have "packages 2 bs = ([rest], [])" using packages_pair_step[OF 2, of "[]"] by (simp add: b packages_short)
    then show ?thesis using 2 inv found new
      by (auto simp: b filter_data_def filter_result_def data_event_def data_queued_def read_size_ok fun_upd_idem)
  next
    case 3
    define p r where "p = take ?n rest" and "r = drop ?n rest"
    have p: "rest = p @ r" "length p = ?n" "r \<noteq> []" using 3 by (simp_all add: p_def r_def)
    have "filter_data L0 fd bs = do {
        L \<leftarrow> push_data L fd (map Some p) (int (length p)) False;
        L \<leftarrow> push_more L fd r;
        Some (L, Ev_more)
      }"
      using found p push_data_clone[of L fd p r] by (simp add: b filter_data_def read_size_ok)
    then show ?thesis using push_first[OF inv h new p(3,2)] by (simp add: b p(1))
  qed
qed

text \<open>Data that continues an unfinished package.\<close>

lemma filter_continue:
  assumes inv: "netpack_inv (Some q) xs" and h: "hash_fd fd \<noteq> None" and new: "pending (Some q) fd = []" and bs: "bs \<noteq> []"
    and found: "find_uncomplete L0 fd = Some (Some q, Some uc)" and uc: "uc_inv uc" "uc_id uc = fd"
  shows "filter_result xs fd (uc_bytes uc @ bs) (pending (Some q)) (filter_data L0 fd bs)"
proof -
  obtain u cs b0 b1 where u: "fill_header uc bs = Some (u, cs)" "uc_id u = fd"
    "0 \<le> uc_read u" "np_size (uc_pack u) = int (be_value [b0, b1])" "length (np_buffer (uc_pack u)) = be_value [b0, b1]"
    "uc_read u \<le> np_size (uc_pack u)" "None \<notin> set (take (nat (uc_read u)) (np_buffer (uc_pack u)))"
    "uc_bytes uc @ bs = b0 # b1 # map the (take (nat (uc_read u)) (np_buffer (uc_pack u))) @ cs"
    using fill_header_ok[OF uc(1) bs] uc(2) by metis
  define i n dst where "i = nat (uc_read u)" and "n = be_value [b0, b1]" and "dst = np_buffer (uc_pack u)"
  have i: "uc_read u = int i" "i \<le> n" using u(3,4,6) by (simp_all add: i_def n_def)
  define have_bytes where "have_bytes = map the (take i dst)"
  have hb: "length have_bytes = i" using i u(5) by (simp add: have_bytes_def dst_def n_def)
  have st: "uc_bytes uc @ bs = b0 # b1 # have_bytes @ cs" using u(8) by (simp add: have_bytes_def i_def dst_def)
  have dst: "length dst = n" "None \<notin> set (take i dst)" using u(5,7) by (simp_all add: dst_def n_def i_def)
  have n16: "n < 0x10000" using be_value_pair by (simp add: n_def)
  show ?thesis
  proof (cases "length cs < n - i")
    case True
    obtain block where block: "copy_in dst i cs = Some block" "length block = n"
      "take (i + length cs) block = map Some (have_bytes @ cs)"
      using copy_in_ok[of i dst cs] i(2) True dst unfolding have_bytes_def by (metis less_imp_le)
    let ?u = "u\<lparr>uc_read := int i + int (length cs), uc_pack := (uc_pack u)\<lparr>np_buffer := block\<rparr>\<rparr>"
    have ok: "uc_inv ?u" "uc_id ?u = fd" "uc_bytes ?u = uc_bytes uc @ bs"
    proof -
      have t: "take (nat (int i + int (length cs))) block = map Some (have_bytes @ cs)"
        using block(3) by (simp add: nat_add_distrib)
      have "int i + int (length cs) < int n" "int n < 0x10000" using True n16 by linarith+
      then show "uc_inv ?u" using u(4) block(2) t by (simp add: uc_inv_def n_def[symmetric])
      show "uc_id ?u = fd" using u(2) by simp
      have "be_bytes 2 n = [b0, b1]" unfolding n_def by (rule be_bytes_pair)
      then have "uc_bytes ?u = b0 # b1 # have_bytes @ cs"
        using u(4) t by (simp add: uc_bytes_def n_def[symmetric] comp_def)
      then show "uc_bytes ?u = uc_bytes uc @ bs" using st by simp
    qed
    obtain q' where q': "link_uncomplete (get_queue (Some q)) fd ?u = Some q'" "netpack_inv (Some q') xs"
      "pending (Some q') = (pending (Some q))(fd := uc_bytes ?u)"
      using link_uncomplete_ok[OF inv h new ok(1,2)] by blast
    have "packages 2 (uc_bytes uc @ bs) = ([], uc_bytes uc @ bs)"
      unfolding st by (rule packages_pair_unfinished) (use hb i True in \<open>simp add: n_def\<close>)
    moreover have "filter_data L0 fd bs = Some (Some q', Ev_none)"
    proof -
      have "int (length cs) < int n - int i" using True i(2) by linarith
      then show ?thesis using found u(1,4) i(1) block(1) q'(1)
        by (simp add: filter_data_def Let_def n_def[symmetric] dst_def[symmetric])
    qed
    ultimately show ?thesis using q'(2,3) ok(3) by (simp add: filter_result_def data_event_def data_queued_def)
  next
    case False
    define c r where "c = take (n - i) cs" and "r = drop (n - i) cs"
    have c: "cs = c @ r" "length c = n - i" using False by (simp_all add: c_def r_def)
    define p where "p = have_bytes @ c"
    have p: "length p = n" "uc_bytes uc @ bs = b0 # b1 # p @ r" using hb c i st by (simp_all add: p_def)
    obtain block where block: "copy_in dst i c = Some block" "length block = n"
      "take (i + length c) block = map Some p"
      using copy_in_ok[of i dst c] i(2) c(2) dst unfolding p_def have_bytes_def by (metis order_refl)
    then have bl: "block = map Some p" using c(2) i by simp
    have fd: "filter_data L0 fd bs = (if r = [] then Some (Some q, Ev_data fd (map Some p) (int (length p)))
      else do {
        L \<leftarrow> push_data (Some q) fd (map Some p) (int (length p)) False;
        L \<leftarrow> push_more L fd r;
        Some (L, Ev_more)
      })"
    proof -
      have "\<not> int (length cs) < int n - int i" "nat (int n - int i) = n - i" using False i(2) by linarith+
      then show ?thesis using found u(1,4) i(1) block(1) bl p(1)
        by (simp add: filter_data_def Let_def n_def[symmetric] dst_def[symmetric] c_def[symmetric] r_def[symmetric])
    qed
    show ?thesis
    proof (cases "r = []")
      case True
      then have "packages 2 (uc_bytes uc @ bs) = ([p], [])"
        using packages_pair_step[of p b0 b1 "[]"] p by (simp add: n_def packages_short)
      then show ?thesis using fd True inv new by (auto simp: filter_result_def data_event_def data_queued_def fun_upd_idem)
    next
      case False
      then show ?thesis using push_first[OF inv h new False, of p b0 b1] p fd by (simp add: n_def)
    qed
  qed
qed

lemma filter_data_ok:
  assumes inv: "netpack_inv L xs" and h: "hash_fd fd \<noteq> None" and bs: "bs \<noteq> []"
  shows "filter_result xs fd (pending L fd @ bs) (pending L) (filter_data L fd bs)"
proof -
  let ?found = "uc_lookup (npq_hash (get_queue L)) fd"
  obtain L1 where L1: "find_uncomplete L fd = Some (L1, ?found)" "netpack_inv L1 xs"
    "pending L1 = (pending L)(fd := [])" "?found \<noteq> None \<longrightarrow> L1 \<noteq> None"
    using find_uncomplete_ok[OF inv h] by blast
  have new: "pending L1 fd = []" using L1(3) by simp
  show ?thesis
  proof (cases ?found)
    case None
    then show ?thesis using filter_fresh[OF L1(2) h new bs] L1(1,3) by (simp add: pending_def filter_result_base)
  next
    case (Some uc)
    then obtain q where q: "L1 = Some q" using L1(4) by auto
    have "uc_inv uc" "uc_id uc = fd" using inv Some uc_lookup_inv unfolding netpack_inv_def by blast+
    then have "filter_result xs fd (uc_bytes uc @ bs) (pending L1) (filter_data L fd bs)"
      using filter_continue[of q xs fd bs L uc] L1(1,2) new bs h q Some by simp
    moreover have "pending L fd = uc_bytes uc" using Some by (simp add: pending_def)
    ultimately show ?thesis using filter_result_base[OF L1(3)] by simp
  qed
qed

text \<open>
  C17: whatever the chunks in which the data of a connection arrives, \<open>filter\<close> cuts the stream of its bytes
  into the packages it consists of: after every chunk the table holds exactly the bytes of the unfinished
  package, a single complete package is returned at once, several are appended to the queue, in order, and the
  other connections do not change. No byte that was not received is delivered.
\<close>

theorem filter_data_packages:
  assumes "netpack_inv L xs" "hash_fd fd \<noteq> None" "bs \<noteq> []" "packages 2 (pending L fd @ bs) = (ps, r)"
  shows "\<exists>L'. filter_data L fd bs = Some (L', data_event fd ps r) \<and>
    netpack_inv L' (xs @ data_queued fd ps r) \<and> pending L' = (pending L)(fd := r)"
  using filter_data_ok[OF assms(1-3)] assms(4) by (simp add: filter_result_def)

section \<open>A client of the library\<close>

text \<open>
  The loop of a gate in Lua over one socket message with data: a package that \<open>filter\<close> returns is
  dispatched, and on \<open>more\<close> the queue is popped until it is empty. \<open>recv\<close> returns the packages in the order of dispatch.
\<close>

partial_function (option) drain :: "lua_queue \<Rightarrow> (lua_queue \<times> netpack list) option" where
  "drain L = do {
     (L, np) \<leftarrow> lpop L;
     case np of None \<Rightarrow> Some (L, [])
     | Some np \<Rightarrow> do { (L, nps) \<leftarrow> drain L; Some (L, np # nps) }
   }"

definition recv :: "lua_queue \<Rightarrow> int \<times> u8 list \<Rightarrow> (lua_queue \<times> netpack list) option" where
  "recv L e = do {
     (L, ev) \<leftarrow> filter_data L (fst e) (snd e);
     case ev of Ev_data fd b n \<Rightarrow> Some (L, [\<lparr>np_id = fd, np_size = n, np_buffer = b\<rparr>])
     | Ev_more \<Rightarrow> drain L
     | _ \<Rightarrow> Some (L, [])
   }"

fun recv_run :: "lua_queue \<Rightarrow> (int \<times> u8 list) list \<Rightarrow> (lua_queue \<times> netpack list) option" where
  "recv_run L [] = Some (L, [])"
| "recv_run L (e # es) = do {
     (L, d) \<leftarrow> recv L e;
     (L, ds) \<leftarrow> recv_run L es;
     Some (L, d @ ds)
   }"

text \<open>The bytes of one connection in a sequence of socket messages.\<close>

definition stream_of :: "int \<Rightarrow> (int \<times> u8 list) list \<Rightarrow> u8 list" where
  "stream_of fd es = concat (map snd (filter (\<lambda>e. fst e = fd) es))"

lemma lpop_inv:
  assumes "netpack_inv L (x # xs)"
  shows "\<exists>L'. lpop L = Some (L', Some x) \<and> netpack_inv L' xs \<and> pending L' = pending L"
  using lpop_Cons[of L x xs] assms by (auto simp: netpack_inv_def queue_rep_def pending_def fun_eq_iff)

lemma drain_ok: "netpack_inv L xs \<Longrightarrow> \<exists>L'. drain L = Some (L', xs) \<and> netpack_inv L' [] \<and> pending L' = pending L"
proof (induction xs arbitrary: L)
  case Nil
  then show ?case using lpop_Nil[of L] by (subst drain.simps) (simp add: netpack_inv_def)
next
  case (Cons x xs)
  obtain L1 where L1: "lpop L = Some (L1, Some x)" "netpack_inv L1 xs" "pending L1 = pending L"
    using lpop_inv[OF Cons.prems] by blast
  then show ?case using Cons.IH[OF L1(2)] by (subst drain.simps) auto
qed

lemma recv_ok:
  assumes inv: "netpack_inv L []" and h: "hash_fd fd \<noteq> None" and bs: "bs \<noteq> []"
    and ps: "packages 2 (pending L fd @ bs) = (ps, r)"
  shows "\<exists>L'. recv L (fd, bs) = Some (L', map (pack_of fd) ps) \<and> netpack_inv L' [] \<and> pending L' = (pending L)(fd := r)"
proof -
  obtain L1 where L1: "filter_data L fd bs = Some (L1, data_event fd ps r)" "netpack_inv L1 (data_queued fd ps r)"
    "pending L1 = (pending L)(fd := r)"
    using filter_data_ok[OF inv h bs] ps by (auto simp: filter_result_def)
  consider "ps = []" | p where "ps = [p]" "r = []" | "ps \<noteq> []" "\<not> (length ps = 1 \<and> r = [])"
    by (metis One_nat_def length_0_conv length_Suc_conv)
  then show ?thesis
  proof cases
    case 3
    then have "data_event fd ps r = Ev_more" "data_queued fd ps r = map (pack_of fd) ps"
      by (auto simp: data_event_def data_queued_def)
    then show ?thesis using L1 drain_ok[OF L1(2)] by (simp add: recv_def)
  qed (use L1 in \<open>simp_all add: recv_def data_event_def data_queued_def pack_of_def\<close>)
qed

lemma stream_of_Cons: "stream_of fd (e # es) = (if fst e = fd then snd e else []) @ stream_of fd es"
  by (simp add: stream_of_def)

text \<open>
  Whatever the order in which the chunks of several connections arrive, the packages dispatched for a
  connection are those of its own stream, in order.
\<close>

lemma recv_run_ok:
  assumes "netpack_inv L []" "\<forall>e\<in>set es. hash_fd (fst e) \<noteq> None \<and> snd e \<noteq> []"
  shows "\<exists>L' ds. recv_run L es = Some (L', ds) \<and> netpack_inv L' [] \<and>
    (\<forall>fd. filter (\<lambda>np. np_id np = fd) ds = map (pack_of fd) (fst (packages 2 (pending L fd @ stream_of fd es))) \<and>
          pending L' fd = snd (packages 2 (pending L fd @ stream_of fd es)))"
  using assms
proof (induction es arbitrary: L)
  case Nil
  then show ?case by (simp add: stream_of_def pending_packages)
next
  case (Cons e es)
  obtain f bs where e: "e = (f, bs)" by fastforce
  define ps r where "ps = fst (packages 2 (pending L f @ bs))" and "r = snd (packages 2 (pending L f @ bs))"
  then have p: "packages 2 (pending L f @ bs) = (ps, r)" by simp
  obtain L1 where L1: "recv L e = Some (L1, map (pack_of f) ps)" "netpack_inv L1 []" "pending L1 = (pending L)(f := r)"
    using recv_ok[OF Cons.prems(1) _ _ p] Cons.prems(2) e by auto
  obtain L2 ds where L2: "recv_run L1 es = Some (L2, ds)" "netpack_inv L2 []"
    "\<forall>fd. filter (\<lambda>np. np_id np = fd) ds = map (pack_of fd) (fst (packages 2 (pending L1 fd @ stream_of fd es))) \<and>
      pending L2 fd = snd (packages 2 (pending L1 fd @ stream_of fd es))"
    using Cons.IH[OF L1(2)] Cons.prems(2) by auto
  have flt: "filter (\<lambda>np. np_id np = fd) (map (pack_of f) ps) = (if fd = f then map (pack_of f) ps else [])" for fd
    by (induction ps) (auto simp: pack_of_def)
  have "filter (\<lambda>np. np_id np = fd) (map (pack_of f) ps @ ds) =
        map (pack_of fd) (fst (packages 2 (pending L fd @ stream_of fd (e # es)))) \<and>
      pending L2 fd = snd (packages 2 (pending L fd @ stream_of fd (e # es)))" for fd
  proof (cases "fd = f")
    case True
    have "packages 2 ((pending L f @ bs) @ stream_of f es) = (ps @ fst (packages 2 (r @ stream_of f es)), snd (packages 2 (r @ stream_of f es)))"
      using packages_append[of 2 "pending L f @ bs" "stream_of f es"] p by simp
    then show ?thesis using True L2(3) L1(3) flt e by (simp add: stream_of_Cons)
  next
    case False
    then show ?thesis using L2(3) L1(3) flt e by (simp add: stream_of_Cons)
  qed
  then show ?case using L1(1) L2(1,2) by simp
qed


lemma lpack_frame: "lpack m = Inr f \<Longrightarrow> f = frame 2 m \<and> length m < 0x10000"
proof -
  assume "lpack m = Inr f"
  then have m: "length m < 0x10000" "f = write_size (length m) @ m" by (auto simp: lpack_def split: if_splits)
  let ?n = "of_nat (length m) :: u32"
  have n: "unat ?n = length m" using m(1) by (simp add: unat_of_nat)
  have "ucast (drop_bit 8 ?n AND 0xff) = (of_nat (unat (drop_bit 8 ?n AND mask 8)) :: u8)"
    "ucast (?n AND 0xff) = (of_nat (unat (?n AND mask 8)) :: u8)" by (simp_all add: mask_eq_exp_minus_1)
  then have "write_size (length m) = be_bytes 2 (length m)"
    by (simp add: write_size_def be_bytes_2 mask_simps n)
  then show ?thesis using m by (simp add: frame_def)
qed

text \<open>
  C18: what one side packs the other side receives, whatever the chunks in which the network delivers
  it and however the chunks of different connections are mixed.
\<close>

theorem netpack_roundtrip:
  assumes inv: "netpack_inv L []" "\<forall>fd. pending L fd = []"
    and es: "\<forall>e\<in>set es. hash_fd (fst e) \<noteq> None \<and> snd e \<noteq> []"
    and sent: "\<forall>fd. map lpack (ms fd) = map Inr (pk fd) \<and> stream_of fd es = concat (pk fd)"
  shows "\<exists>L' ds. recv_run L es = Some (L', ds) \<and> netpack_inv L' [] \<and>
    (\<forall>fd. filter (\<lambda>np. np_id np = fd) ds = map (pack_of fd) (ms fd) \<and> pending L' fd = [])"
proof -
  have "packages 2 (pending L fd @ stream_of fd es) = (ms fd, [])" for fd
  proof -
    have "list_all2 (\<lambda>m f. lpack m = Inr f) (ms fd) (pk fd)"
      using sent by (simp add: list_all2_conv_all_nth) (metis length_map nth_map)
    then have "pk fd = map (frame 2) (ms fd)" "\<forall>m\<in>set (ms fd). length m < 0x10000"
      by (induction rule: list_all2_induct) (auto dest: lpack_frame)
    then show ?thesis using packages_framed[of 2 "ms fd"] sent inv(2) by simp
  qed
  then show ?thesis using recv_run_ok[OF inv(1) es] by simp
qed

section \<open>The other messages\<close>

text \<open>A message as the socket server sends it.\<close>

definition np_message_ok :: "np_message \<Rightarrow> int \<Rightarrow> bool" where
  "np_message_ok m sz \<longleftrightarrow> hash_fd (nm_id m) \<noteq> None \<and>
     (if nm_type m = SKYNET_SOCKET_TYPE_DATA
      then \<exists>b. nm_buffer m = Some b \<and> b \<noteq> [] \<and> nm_ud m = int (length b)
      else nm_buffer m = None \<and> sz = int (sizeof_socket_message + length (nm_padding m)))"

lemma close_uncomplete_ok:
  assumes "netpack_inv L xs" "hash_fd fd \<noteq> None"
  shows "\<exists>L'. close_uncomplete L fd = Some L' \<and> netpack_inv L' xs \<and> pending L' = (pending L)(fd := [])"
  using find_uncomplete_ok[OF assms] by (auto simp: close_uncomplete_def)

lemma pushstring_ok: "pushstring b (int (length b)) = Some b"
  by (simp add: pushstring_def)


text \<open>Clearing the queue frees what waits in the ring and in the table, and nothing stays behind.\<close>

lemma free_slots_ok:
  assumes "npq_cap q = length (npq_queue q)" "npq_queue q \<noteq> []" "ring (npq_queue q) h k = map Some xs"
  shows "free_slots q [h..<h + k] = Some (map np_buffer xs)"
  using assms(3)
proof (induction xs arbitrary: h k)
  case Nil
  then have "k = 0" by (metis length_map length_ring list.size(3))
  then show ?case by simp
next
  case (Cons x xs)
  then obtain j where j: "k = Suc j" by (metis length_map length_ring length_Suc_conv)
  let ?A = "npq_queue q"
  have "[0..<Suc j] = 0 # map Suc [0..<j]" by (simp add: map_Suc_upt upt_conv_Cons)
  then have "ring ?A h (Suc j) = ?A ! (h mod length ?A) # ring ?A (Suc h) j" by (simp add: ring_def del: upt_Suc)
  then have "?A ! (h mod length ?A) = Some x" "ring ?A (Suc h) j = map Some xs" using Cons.prems j by simp_all
  then show ?case using Cons.IH[of "Suc h" j] assms(1,2) j
    by (simp add: upt_conv_Cons array_get_in del: upt_Suc)
qed

lemma lclear_ok:
  assumes "netpack_inv (Some q) xs"
  shows "\<exists>q'. lclear (Some q) = Some (Some q', concat (map clear_list (npq_hash q)) @ map np_buffer xs) \<and>
    netpack_inv (Some q') [] \<and> (\<forall>fd. pending (Some q') fd = [])"
proof -
  let ?A = "npq_queue q"
  have cap: "npq_cap q = length ?A" and rr: "ring_rep ?A (npq_head q) (npq_tail q) xs" and H: "hash_inv (npq_hash q)"
    using assms by (simp_all add: netpack_inv_def queue_rep_def npq_rep_def)
  note b = ring_rep_bounds[OF rr]
  have ne: "?A \<noteq> []" using b by auto
  have t: "(if npq_tail q < npq_head q then npq_tail q + npq_cap q else npq_tail q) = npq_head q + length xs"
    using rr b cap by (auto simp: ring_rep_def mod_if split: if_splits)
  have "free_slots q [npq_head q..<npq_head q + length xs] = Some (map np_buffer xs)"
    using free_slots_ok[OF cap ne] rr by (simp add: ring_rep_def)
  then have "lclear (Some q) = Some (Some (q\<lparr>npq_hash := map (\<lambda>_. []) (npq_hash q), npq_head := 0, npq_tail := 0\<rparr>),
      concat (map clear_list (npq_hash q)) @ map np_buffer xs)"
    unfolding lclear_def Let_def option.case t by simp
  moreover have "map (\<lambda>_. []) (npq_hash q) = (replicate HASHSIZE [] :: uncomplete list list)" using H by (simp add: hash_inv_def map_replicate_const)
  ultimately have "lclear (Some q) = Some (Some (q\<lparr>npq_hash := replicate HASHSIZE [], npq_head := 0, npq_tail := 0\<rparr>),
      concat (map clear_list (npq_hash q)) @ map np_buffer xs)" by simp
  then show ?thesis using cap ne hash_inv_new(1) hash_inv_new(2) ring_rep_empty[of ?A]
    by (simp add: netpack_inv_def queue_rep_def npq_rep_def pending_def)
qed

end
