(* ===== verification/Harbor.thy ===== *)
theory Harbor
  imports Gate Netpack
begin

text \<open>
  \<^verbatim>\<open>service-src/service_harbor.c\<close>: the service that connects the nodes of a cluster. Messages for
  another node are sent over its connection or wait in a queue until the node, or the global name
  they are addressed to, is known; what arrives from another node is cut into messages and sent to
  the local services.

  A function takes the harbor and the node and returns both. The buffers of messages are blocks of the
  heap of the node. The block a slave receives into is only known to the harbor until it is complete: it is the list
  \<open>sl_recv_buffer\<close>, \<open>None\<close> where it is not yet written, and becomes a block of the heap when
  it is handed to \<open>skynet_send\<close>. A chain of the hash table is a list, and a pointer to a
  node of it is the chain and the position in it. Stack buffers passed to
  \<open>skynet_send\<close> are blocks that live for the call. The \<open>int\<close> fields of a queue are natural numbers: they agree with the
  C values while the capacity is below \<open>2 ^ 30\<close>.
\<close>

section \<open>Data\<close>

definition HASH_SIZE :: nat where
  "HASH_SIZE = 4096"

definition HARBOR_QUEUE_SIZE :: nat where
  "HARBOR_QUEUE_SIZE = 1024"

definition HEADER_COOKIE_LENGTH :: nat where
  "HEADER_COOKIE_LENGTH = 12"

definition REMOTE_MAX :: nat where
  "REMOTE_MAX = 256"

record remote_message_header =
  rh_source :: u32
  rh_destination :: u32
  rh_session :: u32

record harbor_msg =
  hm_header :: remote_message_header
  hm_buffer :: ptr
  hm_size :: u64

record harbor_msg_queue =
  hq_size :: nat
  hq_head :: nat
  hq_tail :: nat
  hq_data :: "harbor_msg option list"

record keyvalue =
  kv_key :: string
  kv_hash :: u32
  kv_value :: u32
  kv_queue :: "harbor_msg_queue option"

type_synonym hashmap = "keyvalue list list"

datatype slave_status = STATUS_WAIT | STATUS_HANDSHAKE | STATUS_HEADER | STATUS_CONTENT | STATUS_DOWN

record slave =
  sl_fd :: int
  sl_queue :: "harbor_msg_queue option"
  sl_status :: slave_status
  sl_length :: nat
  sl_read :: nat
  sl_size :: "u8 list"
  sl_recv_buffer :: "u8 option list"

record harbor =
  hb_ctx :: ptr
  hb_id :: int
  hb_slave :: u32
  hb_map :: hashmap
  hb_s :: "slave list"

abbreviation slave_write :: "nat \<Rightarrow> slave \<Rightarrow> harbor \<Rightarrow> harbor" where
  "slave_write i s h \<equiv> h\<lparr>hb_s := (hb_s h)[i := s]\<rparr>"

section \<open>Queues of messages\<close>

definition push_queue_msg :: "harbor_msg_queue \<Rightarrow> harbor_msg \<Rightarrow> harbor_msg_queue option" where
  "push_queue_msg q m = do {
     let q = (if (hq_tail q + 1) mod hq_size q = hq_head q then
         q\<lparr>hq_data := map (\<lambda>i. hq_data q ! ((i + hq_head q) mod hq_size q)) [0..<hq_size q - 1]
               @ replicate (hq_size q + 1) None,
           hq_head := 0, hq_tail := hq_size q - 1, hq_size := hq_size q * 2\<rparr>
       else q);
     data \<leftarrow> array_set (hq_data q) (hq_tail q) (Some m);
     Some (q\<lparr>hq_data := data, hq_tail := (hq_tail q + 1) mod hq_size q\<rparr>)
   }"

definition push_queue :: "harbor_msg_queue \<Rightarrow> ptr \<Rightarrow> u64 \<Rightarrow> remote_message_header \<Rightarrow> harbor_msg_queue option" where
  "push_queue q buffer sz header = push_queue_msg q \<lparr>hm_header = header, hm_buffer = buffer, hm_size = sz\<rparr>"

definition pop_queue :: "harbor_msg_queue \<Rightarrow> (harbor_msg_queue \<times> harbor_msg option) option" where
  "pop_queue q =
     (if hq_head q = hq_tail q then Some (q, None)
      else do {
        slot \<leftarrow> array_get (hq_data q) (hq_head q);
        m \<leftarrow> slot;
        Some (q\<lparr>hq_head := (hq_head q + 1) mod hq_size q\<rparr>, Some m)
      })"

definition new_queue :: harbor_msg_queue where
  "new_queue = \<lparr>hq_size = HARBOR_QUEUE_SIZE, hq_head = 0, hq_tail = 0, hq_data = replicate HARBOR_QUEUE_SIZE None\<rparr>"

text \<open>
  The loops \<open>while ((m = pop_queue(queue)) != NULL) ...\<close> with the body \<open>f\<close>, which acts on the
  rest of the state.
\<close>

partial_function (option) pop_loop ::
  "(harbor_msg \<Rightarrow> 's \<Rightarrow> 's option) \<Rightarrow> harbor_msg_queue \<Rightarrow> 's \<Rightarrow> (harbor_msg_queue \<times> 's) option" where
  "pop_loop f q s = do {
     (q, m) \<leftarrow> pop_queue q;
     case m of None \<Rightarrow> Some (q, s)
     | Some m \<Rightarrow> do { s \<leftarrow> f m s; pop_loop f q s }
   }"

definition harbor_release_queue :: "harbor_msg_queue option \<Rightarrow> server \<Rightarrow> server option" where
  "harbor_release_queue queue w = (case queue of None \<Rightarrow> Some w
   | Some q \<Rightarrow> do {
       (q, w) \<leftarrow> pop_loop (\<lambda>m w. skynet_free (hm_buffer m) w) q w;
       Some w
     })"

section \<open>The table of global names\<close>

text \<open>The 32-bit word at index \<open>i\<close> of the name, on a little endian machine.\<close>

definition name_word :: "string \<Rightarrow> nat \<Rightarrow> u32" where
  "name_word name i =
     (let b = (\<lambda>k. of_char (name ! (4 * i + k)) :: u32)
      in b 0 OR push_bit 8 (b 1) OR push_bit 16 (b 2) OR push_bit 24 (b 3))"

definition name_hash :: "string \<Rightarrow> u32" where
  "name_hash name = name_word name 0 XOR name_word name 1 XOR name_word name 2 XOR name_word name 3"

text \<open>\<open>strncmp(a, b, GLOBALNAME_LENGTH) == 0\<close>\<close>

definition same_name :: "string \<Rightarrow> string \<Rightarrow> bool" where
  "same_name a b \<longleftrightarrow> cstr (take GLOBALNAME_LENGTH a) 0 = cstr (take GLOBALNAME_LENGTH b) 0"

fun chain_search :: "u32 \<Rightarrow> string \<Rightarrow> keyvalue list \<Rightarrow> nat \<Rightarrow> nat option" where
  "chain_search h name [] i = None"
| "chain_search h name (node # ns) i =
     (if kv_hash node = h \<and> same_name (kv_key node) name then Some i else chain_search h name ns (Suc i))"

definition hash_search :: "hashmap \<Rightarrow> string \<Rightarrow> (nat \<times> nat) option option" where
  "hash_search hash name = do {
     let h = name_hash name;
     let b = unat h mod HASH_SIZE;
     chain \<leftarrow> array_get hash b;
     Some (map_option (Pair b) (chain_search h name chain 0))
   }"

definition hash_insert :: "hashmap \<Rightarrow> string \<Rightarrow> (hashmap \<times> nat \<times> nat) option" where
  "hash_insert hash name = do {
     let h = name_hash name;
     let b = unat h mod HASH_SIZE;
     chain \<leftarrow> array_get hash b;
     Some (hash[b := \<lparr>kv_key = take GLOBALNAME_LENGTH name, kv_hash = h, kv_value = 0, kv_queue = None\<rparr> # chain], b, 0)
   }"

definition hash_new :: hashmap where
  "hash_new = replicate HASH_SIZE []"

definition kv_get :: "nat \<times> nat \<Rightarrow> hashmap \<Rightarrow> keyvalue option" where
  "kv_get p hash = do { chain \<leftarrow> array_get hash (fst p); array_get chain (snd p) }"

definition kv_set :: "nat \<times> nat \<Rightarrow> keyvalue \<Rightarrow> hashmap \<Rightarrow> hashmap" where
  "kv_set p kv hash = hash[fst p := (hash ! fst p)[snd p := kv]]"

fun release_nodes :: "keyvalue list \<Rightarrow> server \<Rightarrow> server option" where
  "release_nodes [] w = Some w"
| "release_nodes (node # ns) w = do { w \<leftarrow> harbor_release_queue (kv_queue node) w; release_nodes ns w }"

definition hash_delete :: "hashmap \<Rightarrow> server \<Rightarrow> server option" where
  "hash_delete hash w = release_nodes (concat hash) w"

section \<open>Opening and closing\<close>

definition close_harbor :: "services \<Rightarrow> nat \<Rightarrow> harbor \<times> server \<Rightarrow> (harbor \<times> server) option" where
  "close_harbor E i hw = (case hw of (h, w) \<Rightarrow> do {
     s \<leftarrow> array_get (hb_s h) i;
     w \<leftarrow> (if sl_fd s \<noteq> 0 then skynet_socket_close E (hb_ctx h) (sl_fd s) w else Some w);
     w \<leftarrow> harbor_release_queue (sl_queue s) w;
     Some (slave_write i (s\<lparr>sl_status := STATUS_DOWN, sl_queue := None\<rparr>) h, w)
   })"

definition report_harbor_down :: "services \<Rightarrow> harbor \<Rightarrow> nat \<Rightarrow> server \<Rightarrow> server option" where
  "report_harbor_down E h i w = do {
     let text = ''D '' @ print_d (int i);
     let (w, down) = skynet_malloc (text_block text) w;
     (w, _) \<leftarrow> skynet_send E (hb_ctx h) 0 (hb_slave h) (ucast PTYPE_TEXT) 0 down (of_nat (length text)) w;
     skynet_free down w
   }"

definition slave_zero :: slave where
  "slave_zero = \<lparr>sl_fd = 0, sl_queue = None, sl_status = STATUS_WAIT, sl_length = 0, sl_read = 0,
     sl_size = [0, 0, 0, 0], sl_recv_buffer = []\<rparr>"

definition harbor_create :: harbor where
  "harbor_create = \<lparr>hb_ctx = NULL, hb_id = 0, hb_slave = 0, hb_map = hash_new, hb_s = replicate REMOTE_MAX slave_zero\<rparr>"

fun close_slaves :: "services \<Rightarrow> nat list \<Rightarrow> harbor \<times> server \<Rightarrow> (harbor \<times> server) option" where
  "close_slaves E [] hw = Some hw"
| "close_slaves E (i # is) hw = do {
     s \<leftarrow> array_get (hb_s (fst hw)) i;
     hw \<leftarrow> (if sl_fd s \<noteq> 0 \<and> sl_status s \<noteq> STATUS_DOWN then close_harbor E i hw else Some hw);
     close_slaves E is hw
   }"

definition harbor_release :: "services \<Rightarrow> harbor \<Rightarrow> server \<Rightarrow> server option" where
  "harbor_release E h w = do {
     (h, w) \<leftarrow> close_slaves E [1..<REMOTE_MAX] (h, w);
     hash_delete (hb_map h) w
   }"

section \<open>The wire format\<close>

definition to_bigendian :: "u32 \<Rightarrow> u8 list" where
  "to_bigendian n = [ucast (drop_bit 24 n AND 0xff), ucast (drop_bit 16 n AND 0xff),
     ucast (drop_bit 8 n AND 0xff), ucast (n AND 0xff)]"

definition header_to_message :: "remote_message_header \<Rightarrow> u8 list" where
  "header_to_message header =
     to_bigendian (rh_source header) @ to_bigendian (rh_destination header) @ to_bigendian (rh_session header)"

definition from_bigendian :: "u8 list \<Rightarrow> u32" where
  "from_bigendian bytes = push_bit 24 (ucast (bytes ! 0)) OR push_bit 16 (ucast (bytes ! 1)) OR
     push_bit 8 (ucast (bytes ! 2)) OR ucast (bytes ! 3)"

definition message_to_header :: "u8 list \<Rightarrow> remote_message_header" where
  "message_to_header message = \<lparr>rh_source = from_bigendian (take 4 message),
     rh_destination = from_bigendian (take 4 (drop 4 message)), rh_session = from_bigendian (take 4 (drop 8 message))\<rparr>"

text \<open>\<open>msg\<close> is the whole content of the received block, of \<open>sz\<close> bytes.\<close>

definition forward_local_messsage :: "services \<Rightarrow> harbor \<Rightarrow> u8 list \<Rightarrow> server \<Rightarrow> server option" where
  "forward_local_messsage E h msg w = do {
     c_assert (HEADER_COOKIE_LENGTH \<le> length msg);
     let (w, p) = skynet_malloc (Bytes msg) w;
     let header = message_to_header (drop (length msg - HEADER_COOKIE_LENGTH) msg);
     let type = drop_bit HANDLE_REMOTE_SHIFT (rh_destination header);
     let destination = (rh_destination header AND HANDLE_MASK) OR push_bit HANDLE_REMOTE_SHIFT (word_of_int (hb_id h));
     (w, r) \<leftarrow> skynet_send E (hb_ctx h) (rh_source header) destination (type OR PTYPE_TAG_DONTCOPY)
        (sint (rh_session header)) p (of_nat (length msg - HEADER_COOKIE_LENGTH)) w;
     if r < 0 then do {
       w \<leftarrow> (if type \<noteq> PTYPE_ERROR then do {
               (w, _) \<leftarrow> skynet_send E (hb_ctx h) destination (rh_source header) PTYPE_ERROR (sint (rh_session header)) NULL 0 w;
               Some w
             } else Some w);
       skynet_error E (hb_ctx h) (Some (''Unknown destination :'' @ print_x destination @ '' from :'' @
         print_x (rh_source header) @ '' type('' @ print_u type @ '')'')) w
     } else Some w
   }"

text \<open>The bytes \<open>memcpy\<close> reads from a message buffer, which may be \<open>NULL\<close> when it is empty.\<close>

definition buffer_bytes :: "ptr \<Rightarrow> u64 \<Rightarrow> server \<Rightarrow> u8 list option" where
  "buffer_bytes p sz w = (if sz = 0 then Some [] else read_bytes p sz w)"

definition send_remote :: "services \<Rightarrow> ptr \<Rightarrow> int \<Rightarrow> ptr \<Rightarrow> u64 \<Rightarrow> remote_message_header \<Rightarrow> server \<Rightarrow> server option" where
  "send_remote E ctx fd buffer sz cookie w = do {
     let sz_header = sz + of_nat HEADER_COOKIE_LENGTH;
     if 0xffffffff < sz_header then
       skynet_error E ctx (Some (''remote message from :'' @ print_08x (rh_source cookie) @ '' to :'' @
         print_08x (rh_destination cookie) @ '' is too large.'')) w
     else do {
       bs \<leftarrow> buffer_bytes buffer sz w;
       let (w, sendbuf) = skynet_malloc (Bytes (to_bigendian (ucast sz_header) @ bs @ header_to_message cookie)) w;
       (w, _) \<leftarrow> skynet_socket_send E ctx fd sendbuf (to_int32 (uint sz_header + 4)) w;
       Some w
     }
   }"

section \<open>Messages that waited\<close>

definition send_and_free :: "services \<Rightarrow> ptr \<Rightarrow> int \<Rightarrow> u32 \<Rightarrow> harbor_msg \<Rightarrow> server \<Rightarrow> server option" where
  "send_and_free E ctx fd dest m w = do {
     let header = hm_header m;
     w \<leftarrow> send_remote E ctx fd (hm_buffer m) (hm_size m) (header\<lparr>rh_destination := rh_destination header OR dest\<rparr>) w;
     skynet_free (hm_buffer m) w
   }"

definition dispatch_name_queue :: "services \<Rightarrow> nat \<times> nat \<Rightarrow> harbor \<times> server \<Rightarrow> (harbor \<times> server) option" where
  "dispatch_name_queue E p hw = (case hw of (h, w) \<Rightarrow> do {
     node \<leftarrow> kv_get p (hb_map h);
     queue \<leftarrow> kv_queue node;
     let handle = kv_value node;
     let i = unat (drop_bit HANDLE_REMOTE_SHIFT handle);
     let ctx = hb_ctx h;
     s \<leftarrow> array_get (hb_s h) i;
     if sl_fd s = 0 then
       if sl_status s = STATUS_DOWN then do {
         w \<leftarrow> skynet_error E ctx (Some (''Drop message to '' @ cstr (kv_key node) 0 @ '' (in harbor '' @ print_d (int i) @ '')'')) w;
         Some (h, w)
       } else do {
         (queue, sq) \<leftarrow> (case sl_queue s of
            None \<Rightarrow> Some (None, queue)
          | Some sq \<Rightarrow> do {
              (queue, sq) \<leftarrow> pop_loop (\<lambda>m sq. push_queue_msg sq m) queue sq;
              Some (Some queue, sq)
            });
         let h = h\<lparr>hb_map := kv_set p (node\<lparr>kv_queue := queue\<rparr>) (hb_map h)\<rparr>;
         if i = unat (drop_bit HANDLE_REMOTE_SHIFT (hb_slave h)) then do {
           (sq, w) \<leftarrow> pop_loop (\<lambda>m w. do {
               (w, _) \<leftarrow> skynet_send E ctx (rh_source (hm_header m)) handle
                  (drop_bit HANDLE_REMOTE_SHIFT (rh_destination (hm_header m)) OR PTYPE_TAG_DONTCOPY)
                  (sint (rh_session (hm_header m))) (hm_buffer m) (hm_size m) w;
               Some w
             }) sq w;
           w \<leftarrow> harbor_release_queue (Some sq) w;
           Some (slave_write i (s\<lparr>sl_queue := None\<rparr>) h, w)
         } else Some (slave_write i (s\<lparr>sl_queue := Some sq\<rparr>) h, w)
       }
     else do {
       (queue, w) \<leftarrow> pop_loop (send_and_free E ctx (sl_fd s) (handle AND HANDLE_MASK)) queue w;
       Some (h\<lparr>hb_map := kv_set p (node\<lparr>kv_queue := Some queue\<rparr>) (hb_map h)\<rparr>, w)
     }
   })"

definition dispatch_queue :: "services \<Rightarrow> nat \<Rightarrow> harbor \<times> server \<Rightarrow> (harbor \<times> server) option" where
  "dispatch_queue E i hw = (case hw of (h, w) \<Rightarrow> do {
     s \<leftarrow> array_get (hb_s h) i;
     c_assert (sl_fd s \<noteq> 0);
     case sl_queue s of None \<Rightarrow> Some (h, w)
     | Some queue \<Rightarrow> do {
         (queue, w) \<leftarrow> pop_loop (send_and_free E (hb_ctx h) (sl_fd s) 0) queue w;
         w \<leftarrow> harbor_release_queue (Some queue) w;
         Some (slave_write i (s\<lparr>sl_queue := None\<rparr>) h, w)
       }
   })"

section \<open>Data from other nodes\<close>

text \<open>The length in the four bytes of a header, of which the first one must be 0.\<close>

definition content_length :: "u8 list \<Rightarrow> nat option option" where
  "content_length sz = do {
     b0 \<leftarrow> array_get sz 0;
     b1 \<leftarrow> array_get sz 1;
     b2 \<leftarrow> array_get sz 2;
     b3 \<leftarrow> array_get sz 3;
     Some (if b0 \<noteq> 0 then None else Some (unat (push_bit 16 (ucast b1) OR push_bit 8 (ucast b2) OR ucast b3 :: u32)))
   }"

text \<open>
  The loop of \<open>push_socket_data\<close>: \<open>buffer\<close> is what is left of the data. A case that falls through to
  the next one is a further round, because it has just set the status of that case.
\<close>

partial_function (option) push_data_loop :: "services \<Rightarrow> nat \<Rightarrow> u8 list \<Rightarrow> harbor \<times> server \<Rightarrow> (harbor \<times> server) option" where
  "push_data_loop E i buffer hw = do {
     let (h, w) = hw;
     s \<leftarrow> array_get (hb_s h) i;
     case sl_status s of
       STATUS_HANDSHAKE \<Rightarrow> do {
         remote_id \<leftarrow> array_get buffer 0;
         if unat remote_id \<noteq> i then do {
           w \<leftarrow> skynet_error E (hb_ctx h) (Some (''Invalid shakehand id ('' @ print_d (int i) @ '') from fd = '' @
             print_d (sl_fd s) @ '' , harbor = '' @ print_d (uint remote_id))) w;
           close_harbor E i (h, w)
         } else do {
           hw \<leftarrow> dispatch_queue E i (slave_write i (s\<lparr>sl_status := STATUS_HEADER\<rparr>) h, w);
           push_data_loop E i (tl buffer) hw
         }
       }
     | STATUS_HEADER \<Rightarrow>
         if length buffer < 4 - sl_read s then
           Some (slave_write i (s\<lparr>sl_size := take (sl_read s) (sl_size s) @ buffer @ drop (sl_read s + length buffer) (sl_size s),
                   sl_read := sl_read s + length buffer\<rparr>) h, w)
         else do {
           let need = 4 - sl_read s;
           let sz = take (sl_read s) (sl_size s) @ take need buffer;
           let s = s\<lparr>sl_size := sz\<rparr>;
           content \<leftarrow> content_length sz;
           case content of None \<Rightarrow> do {
             w \<leftarrow> skynet_error E (hb_ctx h) (Some (''Message is too long from harbor '' @ print_d (int i))) w;
             close_harbor E i (slave_write i s h, w)
           }
           | Some len \<Rightarrow> do {
             let h = slave_write i (s\<lparr>sl_length := len, sl_read := 0, sl_recv_buffer := replicate len None,
               sl_status := STATUS_CONTENT\<rparr>) h;
             if drop need buffer = [] then Some (h, w) else push_data_loop E i (drop need buffer) (h, w)
           }
         }
     | STATUS_CONTENT \<Rightarrow>
         if length buffer < sl_length s - sl_read s then do {
           b \<leftarrow> copy_in (sl_recv_buffer s) (sl_read s) buffer;
           Some (slave_write i (s\<lparr>sl_recv_buffer := b, sl_read := sl_read s + length buffer\<rparr>) h, w)
         } else do {
           let need = sl_length s - sl_read s;
           b \<leftarrow> copy_in (sl_recv_buffer s) (sl_read s) (take need buffer);
           c_assert (None \<notin> set b);
           w \<leftarrow> forward_local_messsage E h (map the b) w;
           let h = slave_write i (s\<lparr>sl_length := 0, sl_read := 0, sl_recv_buffer := [], sl_status := STATUS_HEADER\<rparr>) h;
           if drop need buffer = [] then Some (h, w) else push_data_loop E i (drop need buffer) (h, w)
         }
     | _ \<Rightarrow> Some (h, w)
   }"

text \<open>The search for the slave with a connection: \<open>i\<close> counts from 1.\<close>

definition find_slave :: "harbor \<Rightarrow> int \<Rightarrow> nat option" where
  "find_slave h fd = find (\<lambda>i. sl_fd (hb_s h ! i) = fd) [1..<REMOTE_MAX]"

definition push_socket_data :: "services \<Rightarrow> skynet_socket_message \<Rightarrow> harbor \<times> server \<Rightarrow> (harbor \<times> server) option" where
  "push_socket_data E message hw = (case hw of (h, w) \<Rightarrow> do {
     c_assert (sm_type message = SKYNET_SOCKET_TYPE_DATA);
     case find_slave h (sm_id message) of
       None \<Rightarrow> do {
         w \<leftarrow> skynet_free (sm_buffer message) w;
         w \<leftarrow> skynet_error E (hb_ctx h) (Some (''Invalid socket fd ('' @ print_d (sm_id message) @ '') data'')) w;
         Some (h, w)
       }
     | Some i \<Rightarrow> do {
         buffer \<leftarrow> read_bytes (sm_buffer message) (word_of_int (sm_ud message)) w;
         push_data_loop E i buffer (h, w)
       }
   })"

section \<open>Sending to other nodes\<close>

definition update_name :: "services \<Rightarrow> string \<Rightarrow> u32 \<Rightarrow> harbor \<times> server \<Rightarrow> (harbor \<times> server) option" where
  "update_name E name handle hw = (case hw of (h, w) \<Rightarrow> do {
     found \<leftarrow> hash_search (hb_map h) name;
     (map, p) \<leftarrow> (case found of Some p \<Rightarrow> Some (hb_map h, p) | None \<Rightarrow> hash_insert (hb_map h) name);
     node \<leftarrow> kv_get p map;
     let h = h\<lparr>hb_map := kv_set p (node\<lparr>kv_value := handle\<rparr>) map\<rparr>;
     if kv_queue node \<noteq> None then do {
       (h, w) \<leftarrow> dispatch_name_queue E p (h, w);
       node \<leftarrow> kv_get p (hb_map h);
       w \<leftarrow> harbor_release_queue (kv_queue node) w;
       Some (h\<lparr>hb_map := kv_set p (node\<lparr>kv_queue := None\<rparr>) (hb_map h)\<rparr>, w)
     } else Some (h, w)
   })"

text \<open>The result says whether the message was kept or handed over, so that the caller must not free it.\<close>

definition remote_send_handle ::
  "services \<Rightarrow> u32 \<Rightarrow> u32 \<Rightarrow> u32 \<Rightarrow> int \<Rightarrow> ptr \<Rightarrow> u64 \<Rightarrow> harbor \<times> server \<Rightarrow> (harbor \<times> server \<times> bool) option" where
  "remote_send_handle E source destination type session msg sz hw = (case hw of (h, w) \<Rightarrow> do {
     let i = unat (drop_bit HANDLE_REMOTE_SHIFT destination);
     let ctx = hb_ctx h;
     if int i = hb_id h then do {
       (w, _) \<leftarrow> skynet_send E ctx source destination (type OR PTYPE_TAG_DONTCOPY) session msg sz w;
       Some (h, w, True)
     } else do {
       s \<leftarrow> array_get (hb_s h) i;
       let header = \<lparr>rh_source = source,
         rh_destination = push_bit HANDLE_REMOTE_SHIFT type OR (destination AND HANDLE_MASK),
         rh_session = word_of_int session\<rparr>;
       if sl_fd s = 0 \<or> sl_status s = STATUS_HANDSHAKE then
         if sl_status s = STATUS_DOWN then do {
           (w, _) \<leftarrow> skynet_send E ctx destination source PTYPE_ERROR 0 NULL 0 w;
           w \<leftarrow> skynet_error E ctx (Some (''Drop message to harbor '' @ print_d (int i) @ '' from '' @ print_x source @
             '' to '' @ print_x destination @ '' (session = '' @ print_d session @ '', msgsz = '' @
             print_d (to_int32 (uint sz)) @ '')'')) w;
           Some (h, w, False)
         } else do {
           q \<leftarrow> push_queue (case sl_queue s of None \<Rightarrow> new_queue | Some q \<Rightarrow> q) msg sz header;
           Some (slave_write i (s\<lparr>sl_queue := Some q\<rparr>) h, w, True)
         }
       else do {
         w \<leftarrow> send_remote E ctx (sl_fd s) msg sz header w;
         Some (h, w, False)
       }
     }
   })"

definition remote_send_name ::
  "services \<Rightarrow> u32 \<Rightarrow> string \<Rightarrow> u32 \<Rightarrow> int \<Rightarrow> ptr \<Rightarrow> u64 \<Rightarrow> harbor \<times> server \<Rightarrow> (harbor \<times> server \<times> bool) option" where
  "remote_send_name E source name type session msg sz hw = (case hw of (h, w) \<Rightarrow> do {
     found \<leftarrow> hash_search (hb_map h) name;
     (map, p) \<leftarrow> (case found of Some p \<Rightarrow> Some (hb_map h, p) | None \<Rightarrow> hash_insert (hb_map h) name);
     let h = h\<lparr>hb_map := map\<rparr>;
     node \<leftarrow> kv_get p map;
     if kv_value node = 0 then do {
       q \<leftarrow> push_queue (case kv_queue node of None \<Rightarrow> new_queue | Some q \<Rightarrow> q) msg sz
         \<lparr>rh_source = source, rh_destination = push_bit HANDLE_REMOTE_SHIFT type, rh_session = word_of_int session\<rparr>;
       let h = h\<lparr>hb_map := kv_set p (node\<lparr>kv_queue := Some q\<rparr>) map\<rparr>;
       let text = cstr (''Q '' @ take GLOBALNAME_LENGTH name) 0;
       let (w, query) = skynet_malloc (text_block text) w;
       (w, _) \<leftarrow> skynet_send E (hb_ctx h) 0 (hb_slave h) (ucast PTYPE_TEXT) 0 query (of_nat (length text)) w;
       w \<leftarrow> skynet_free query w;
       Some (h, w, True)
     } else remote_send_handle E source (kv_value node) type session msg sz (h, w)
   })"

section \<open>Commands and events\<close>

definition handshake :: "services \<Rightarrow> nat \<Rightarrow> harbor \<Rightarrow> server \<Rightarrow> server option" where
  "handshake E i h w = do {
     s \<leftarrow> array_get (hb_s h) i;
     let (w, p) = skynet_malloc (Bytes [word_of_int (hb_id h)]) w;
     (w, _) \<leftarrow> skynet_socket_send E (hb_ctx h) (sl_fd s) p 1 w;
     Some w
   }"

text \<open>The two numbers of \<open>sscanf(buffer, "%d %d", &fd, &id)\<close>; what is not read stays 0.\<close>

definition scan_fd_id :: "string \<Rightarrow> int \<times> int" where
  "scan_fd_id s = (case sscanf_int s of None \<Rightarrow> (0, 0)
   | Some (fd, r) \<Rightarrow> (fd, case sscanf_int r of None \<Rightarrow> 0 | Some (i, _) \<Rightarrow> i))"

definition connect_slave :: "services \<Rightarrow> bool \<Rightarrow> int \<Rightarrow> nat \<Rightarrow> harbor \<times> server \<Rightarrow> (harbor \<times> server) option" where
  "connect_slave E accepted fd i hw = (case hw of (h, w) \<Rightarrow> do {
     s \<leftarrow> array_get (hb_s h) i;
     if sl_fd s \<noteq> 0 then do {
       w \<leftarrow> skynet_error E (hb_ctx h) (Some (''Harbor '' @ print_d (int i) @ '' alreay exist'')) w;
       Some (h, w)
     } else do {
       let h = slave_write i (s\<lparr>sl_fd := fd\<rparr>) h;
       w \<leftarrow> skynet_socket_start E (hb_ctx h) fd w;
       w \<leftarrow> handshake E i h w;
       if accepted
       then dispatch_queue E i (slave_write i (s\<lparr>sl_fd := fd, sl_status := STATUS_HEADER\<rparr>) h, w)
       else Some (slave_write i (s\<lparr>sl_fd := fd, sl_status := STATUS_HANDSHAKE\<rparr>) h, w)
     }
   })"

text \<open>\<open>msg\<close> are the bytes of the command, \<open>sz\<close> of them. A command shorter than its first two bytes is undefined.\<close>

definition harbor_command :: "services \<Rightarrow> u8 list \<Rightarrow> u32 \<Rightarrow> harbor \<times> server \<Rightarrow> (harbor \<times> server) option" where
  "harbor_command E msg source hw = (case hw of (h, w) \<Rightarrow> do {
     c_assert (msg \<noteq> []);
     let text = map (\<lambda>b. char_of (unat b)) msg;
     let cmd = hd text;
     let name = drop 2 text;
     let s = to_int32 (int (length msg)) - 2;
     if cmd = CHR ''N'' then
       if s \<le> 0 \<or> int GLOBALNAME_LENGTH \<le> s then do {
         w \<leftarrow> skynet_error E (hb_ctx h) (Some (''Invalid global name '' @ cstr name 0)) w;
         Some (h, w)
       } else update_name E (copy_name name) source (h, w)
     else if cmd = CHR ''S'' \<or> cmd = CHR ''A'' then do {
       c_assert (0 \<le> s);
       let (fd, i) = scan_fd_id (cstr name 0);
       if fd = 0 \<or> i \<le> 0 \<or> int REMOTE_MAX \<le> i then do {
         w \<leftarrow> skynet_error E (hb_ctx h) (Some (''Invalid command '' @ [cmd] @ '' '' @ cstr name 0)) w;
         Some (h, w)
       } else connect_slave E (cmd = CHR ''A'') fd (nat i) (h, w)
     } else do {
       w \<leftarrow> skynet_error E (hb_ctx h) (Some (''Unknown command '' @ cstr text 0)) w;
       Some (h, w)
     }
   })"

definition harbor_id :: "harbor \<Rightarrow> int \<Rightarrow> nat" where
  "harbor_id h fd = (case find_slave h fd of None \<Rightarrow> 0 | Some i \<Rightarrow> i)"

definition harbor_socket :: "services \<Rightarrow> skynet_socket_message \<Rightarrow> u32 \<Rightarrow> harbor \<times> server \<Rightarrow> (harbor \<times> server) option" where
  "harbor_socket E message type hw = (case hw of (h, w) \<Rightarrow>
     let ty = sm_type message; i = harbor_id h (sm_id message) in
     if ty = SKYNET_SOCKET_TYPE_DATA then do {
       (h, w) \<leftarrow> push_socket_data E message (h, w);
       w \<leftarrow> skynet_free (sm_buffer message) w;
       Some (h, w)
     } else if ty = SKYNET_SOCKET_TYPE_ERROR \<or> ty = SKYNET_SOCKET_TYPE_CLOSE then do {
       w \<leftarrow> (if i \<noteq> 0 then report_harbor_down E h i w
             else skynet_error E (hb_ctx h) (Some (''Unkown fd ('' @ print_d (sm_id message) @ '') closed'')) w);
       Some (h, w)
     } else if ty = SKYNET_SOCKET_TYPE_CONNECT then Some (h, w)
     else if ty = SKYNET_SOCKET_TYPE_WARNING then do {
       w \<leftarrow> (if i \<noteq> 0 then skynet_error E (hb_ctx h) (Some (''message havn't send to Harbor ('' @ print_d (int i) @
               '') reach '' @ print_d (sm_ud message) @ '' K'')) w
             else Some w);
       Some (h, w)
     } else do {
       w \<leftarrow> skynet_error E (hb_ctx h) (Some (''recv invalid socket message type '' @ print_u type)) w;
       Some (h, w)
     })"

definition harbor_mainloop ::
  "services \<Rightarrow> harbor \<Rightarrow> u32 \<Rightarrow> int \<Rightarrow> u32 \<Rightarrow> ptr \<Rightarrow> u64 \<Rightarrow> server \<Rightarrow> (harbor \<times> server \<times> int) option" where
  "harbor_mainloop E h type session source msg sz w =
     (if type = PTYPE_SOCKET then
        (case sv_heap w msg of
           Some (Socket message _) \<Rightarrow> do { (h, w) \<leftarrow> harbor_socket E message type (h, w); Some (h, w, 0) }
         | _ \<Rightarrow> None)
      else if type = PTYPE_HARBOR then do {
        bs \<leftarrow> read_bytes msg sz w;
        (h, w) \<leftarrow> harbor_command E bs source (h, w);
        Some (h, w, 0)
      } else
        (case sv_heap w msg of
           Some (Remote rmsg) \<Rightarrow> do {
             (h, w, kept) \<leftarrow> (if rn_handle (rm_destination rmsg) = 0
               then remote_send_name E source (rn_name (rm_destination rmsg)) type session (rm_message rmsg) (rm_sz rmsg) (h, w)
               else remote_send_handle E source (rn_handle (rm_destination rmsg)) type session (rm_message rmsg) (rm_sz rmsg) (h, w));
             w \<leftarrow> (if kept then Some w else skynet_free (rm_message rmsg) w);
             Some (h, w, 0)
           }
         | _ \<Rightarrow> None))"

text \<open>\<open>%u\<close> of \<open>sscanf\<close>; the value is reduced to 32 bits.\<close>

definition sscanf_u :: "string \<Rightarrow> u32 option" where
  "sscanf_u s =
     (let (neg, r) = read_sign (dropWhile is_space s); ds = takeWhile (is_digit 10) r; n = digits_value 10 ds
      in if ds = [] then None else Some (ucast (if 2 ^ 64 \<le> n then - 1 else if neg then - of_nat n else of_nat n :: u64)))"

definition harbor_init ::
  "ptr \<Rightarrow> ptr \<Rightarrow> harbor \<Rightarrow> ptr \<Rightarrow> string \<Rightarrow> server \<Rightarrow> (harbor \<times> server \<times> int) option" where
  "harbor_init self cb h ctx args w = do {
     let h = h\<lparr>hb_ctx := ctx\<rparr>;
     let (i, slave) = (case sscanf_int args of None \<Rightarrow> (0, 0)
       | Some (i, r) \<Rightarrow> (i, case sscanf_u r of None \<Rightarrow> 0 | Some u \<Rightarrow> u));
     if slave = 0 then Some (h, w, 1)
     else do {
       w \<leftarrow> skynet_callback ctx self cb w;
       w \<leftarrow> skynet_harbor_start ctx w;
       Some (h\<lparr>hb_id := i, hb_slave := slave\<rparr>, w, 0)
     }
   }"

section \<open>The queues are first-in first-out\<close>

definition hq_rep :: "harbor_msg_queue \<Rightarrow> harbor_msg list \<Rightarrow> bool" where
  "hq_rep q xs \<longleftrightarrow> hq_size q = length (hq_data q) \<and> ring_rep (hq_data q) (hq_head q) (hq_tail q) xs"

lemma push_queue_rep:
  assumes "hq_rep q xs"
  shows "\<exists>q'. push_queue_msg q m = Some q' \<and> hq_rep q' (xs @ [m])"
proof -
  have rr: "ring_rep (hq_data q) (hq_head q) (hq_tail q) xs" and sz: "hq_size q = length (hq_data q)"
    using assms by (simp_all add: hq_rep_def)
  note b = ring_rep_bounds[OF rr]
  have room: "\<exists>q'. push_queue_msg q0 m = Some q' \<and> hq_rep q' (xs @ [m])"
    if q0: "hq_rep q0 xs" "Suc (length xs) < hq_size q0" for q0
  proof -
    have r0: "ring_rep (hq_data q0) (hq_head q0) (hq_tail q0) xs" and s0: "hq_size q0 = length (hq_data q0)"
      using q0(1) by (simp_all add: hq_rep_def)
    have "(hq_tail q0 + 1) mod hq_size q0 \<noteq> hq_head q0" using ring_rep_push(3)[OF r0] q0(2) s0 by auto
    then show ?thesis using ring_rep_push(2)[OF r0, of m] q0(2) s0 ring_rep_bounds[OF r0]
      by (simp add: push_queue_msg_def array_set_in hq_rep_def Let_def)
  qed
  show ?thesis
  proof (cases "Suc (length xs) = length (hq_data q)")
    case True
    let ?D = "map (\<lambda>i. hq_data q ! ((i + hq_head q) mod hq_size q)) [0..<hq_size q - 1]"
    have l: "hq_size q - 1 = length xs" using True sz by simp
    then have D: "?D = map Some xs" using rr sz by (simp add: ring_rep_def ring_def add.commute)
    let ?q = "q\<lparr>hq_data := map Some xs @ replicate (hq_size q + 1) None, hq_head := 0, hq_tail := hq_size q - 1, hq_size := hq_size q * 2\<rparr>"
    have "hq_rep ?q xs" using ring_rep_fresh[of "hq_size q + 1" xs] l True sz by (simp add: hq_rep_def)
    moreover have "Suc (length xs) < hq_size ?q" using True sz b by auto
    ultimately obtain q' where q': "push_queue_msg ?q m = Some q'" "hq_rep q' (xs @ [m])" using room by blast
    have full: "(hq_tail q + 1) mod hq_size q = hq_head q" using ring_rep_push(3)[OF rr] True sz by simp
    have "(hq_tail ?q + 1) mod hq_size ?q \<noteq> hq_head ?q" using True sz l b by auto
    then have "push_queue_msg q m = push_queue_msg ?q m"
      using full D by (simp add: push_queue_msg_def Let_def)
    then show ?thesis using q' by simp
  next
    case False
    then have "Suc (length xs) < hq_size q" using rr sz by (simp add: ring_rep_def)
    then show ?thesis using room[OF assms] by blast
  qed
qed

lemma pop_queue_Cons:
  assumes "hq_rep q (m # ms)"
  shows "\<exists>q'. pop_queue q = Some (q', Some m) \<and> hq_rep q' ms"
proof -
  have rr: "ring_rep (hq_data q) (hq_head q) (hq_tail q) (m # ms)" and sz: "hq_size q = length (hq_data q)"
    using assms by (simp_all add: hq_rep_def)
  show ?thesis using ring_rep_pop[OF rr] ring_rep_bounds[OF rr] sz
    by (simp add: pop_queue_def array_get_in hq_rep_def)
qed

lemma pop_queue_Nil: "hq_rep q [] \<Longrightarrow> pop_queue q = Some (q, None)"
  using ring_rep_Nil_iff[of "hq_data q" "hq_head q" "hq_tail q" "[]"] by (simp add: pop_queue_def hq_rep_def)

lemma new_queue_rep: "hq_rep new_queue []"
  by (simp add: hq_rep_def new_queue_def HARBOR_QUEUE_SIZE_def ring_rep_empty)

interpretation hq: fifo_total hq_rep "\<lambda>_ _ _. True" push_queue_msg pop_queue
proof (unfold_locales, goal_cases)
  case (1 q xs m)
  then show ?case using push_queue_rep by blast
next
  case (2 q m ms)
  then show ?case by (rule pop_queue_Cons)
next
  case (3 q)
  then show ?case using pop_queue_Nil by blast
qed simp

text \<open>A loop that pops until the queue is empty does its body for every message, in order.\<close>

lemma pop_loop_fold:
  "hq_rep q ms \<Longrightarrow> \<exists>q'. hq_rep q' [] \<and> pop_loop f q s = map_option (Pair q') (fold_option f ms s)"
proof (induction ms arbitrary: q s)
  case Nil
  then show ?case using pop_queue_Nil[OF Nil] by (subst pop_loop.simps) auto
next
  case (Cons m ms)
  obtain q1 where q1: "pop_queue q = Some (q1, Some m)" "hq_rep q1 ms" using pop_queue_Cons[OF Cons.prems] by blast
  show ?case
  proof (cases "f m s")
    case None
    then show ?thesis using q1 Cons.IH[OF q1(2)] by (subst pop_loop.simps) auto
  next
    case (Some s1)
    then show ?thesis using q1 Cons.IH[OF q1(2), of s1] by (subst pop_loop.simps) simp
  qed
qed

lemma release_empty:
  assumes "hq_rep q []"
  shows "harbor_release_queue (Some q) w = Some w"
proof -
  have "pop_loop f q w = Some (q, w)" for f using pop_queue_Nil[OF assms] by (subst pop_loop.simps) simp
  then show ?thesis by (simp add: harbor_release_queue_def)
qed

text \<open>When a node is connected, everything that waited for it is sent, in order, and freed.\<close>

lemma dispatch_queue_ok:
  assumes "i < length (hb_s h)" "sl_fd (hb_s h ! i) \<noteq> 0" "sl_queue (hb_s h ! i) = Some q" "hq_rep q ms"
  shows "dispatch_queue E i (h, w) =
    map_option (Pair (slave_write i ((hb_s h ! i)\<lparr>sl_queue := None\<rparr>) h))
      (fold_option (send_and_free E (hb_ctx h) (sl_fd (hb_s h ! i)) 0) ms w)"
proof -
  obtain q' where q': "hq_rep q' []" "pop_loop (send_and_free E (hb_ctx h) (sl_fd (hb_s h ! i)) 0) q w =
      map_option (Pair q') (fold_option (send_and_free E (hb_ctx h) (sl_fd (hb_s h ! i)) 0) ms w)"
    using pop_loop_fold[OF assms(4), of "send_and_free E (hb_ctx h) (sl_fd (hb_s h ! i)) 0" w] by auto
  then show ?thesis using assms(1-3)
    by (cases "fold_option (send_and_free E (hb_ctx h) (sl_fd (hb_s h ! i)) 0) ms w")
      (simp_all add: dispatch_queue_def array_get_in release_empty)
qed

end
