(* ===== verification/Harbor_Stream.thy ===== *)
theory Harbor_Stream
  imports Harbor
begin

text \<open>
  What the harbor service guarantees: the stream of bytes from another node is cut into messages whatever
  the chunks it arrives in, a message sent on one node arrives on the other with the same source, session, type and
  payload, and the invariant on the connections, with what it says about nodes that are down.
\<close>

section \<open>The wire format\<close>

lemma from_bigendian_value: "from_bigendian [b0, b1, b2, b3] = of_nat (be_value [b0, b1, b2, b3])"
proof -
  let ?x = "push_bit 24 (ucast b0) :: u32" and ?y = "push_bit 16 (ucast b1) :: u32"
    and ?z = "push_bit 8 (ucast b2) :: u32" and ?t = "ucast b3 :: u32"
  have 1: "(?x OR ?y OR ?z OR ?t) = ?x + (?y OR ?z OR ?t)"
    by (rule disjunctive_add[symmetric]) (auto simp: bit_simps dest: byte_bits)
  have 2: "(?y OR ?z OR ?t) = ?y + (?z OR ?t)"
    by (rule disjunctive_add[symmetric]) (auto simp: bit_simps dest: byte_bits)
  have 3: "(?z OR ?t) = ?z + ?t"
    by (rule disjunctive_add[symmetric]) (auto simp: bit_simps dest: byte_bits)
  have "from_bigendian [b0, b1, b2, b3] = (?x OR ?y OR ?z OR ?t)"
    by (simp add: from_bigendian_def or.assoc)
  also have "\<dots> = ?x + (?y + (?z + ?t))" unfolding 1 unfolding 2 unfolding 3 ..
  also have "\<dots> = of_nat (be_value [b0, b1, b2, b3])" by (simp add: push_bit_eq_mult be_value_def)
  finally show ?thesis .
qed

lemma to_bigendian_bytes: "to_bigendian n = be_bytes 4 (unat n)"
proof -
  have "ucast (x AND 0xff) = (of_nat (unat x mod 256) :: u8)" for x :: u32
  proof -
    have "ucast (x AND 0xff) = (of_nat (unat (x AND mask 8)) :: u8)" by (simp add: mask_eq_exp_minus_1)
    then show ?thesis by (simp add: unat_and_mask)
  qed
  then show ?thesis by (simp add: to_bigendian_def be_bytes_4 unat_drop_bit)
qed

lemma from_to_bigendian: "from_bigendian (to_bigendian n) = n"
proof -
  obtain a b c d where l: "to_bigendian n = [a, b, c, d]" by (simp add: to_bigendian_def)
  have "unat n < 256 ^ 4" using unsigned_less[of n, where 'a = nat] by simp
  then have "be_value [a, b, c, d] = unat n" using be_value_bytes[of "unat n" 4] l to_bigendian_bytes[of n] by simp
  then show ?thesis unfolding l from_bigendian_value by simp
qed

lemma message_to_header_of: "message_to_header (header_to_message ck) = ck"
  by (simp add: message_to_header_def header_to_message_def from_to_bigendian to_bigendian_bytes)
    (simp add: from_to_bigendian flip: to_bigendian_bytes)

text \<open>The bytes of a message on the connection: the length, the payload and the cookie.\<close>

definition wire :: "u8 list \<times> remote_message_header \<Rightarrow> u8 list" where
  "wire m = frame 4 (fst m @ header_to_message (snd m))"

lemma length_header [simp]: "length (header_to_message ck) = HEADER_COOKIE_LENGTH"
  by (simp add: header_to_message_def to_bigendian_def HEADER_COOKIE_LENGTH_def)

section \<open>The stream of a connection\<close>

text \<open>A slave that is connected, and the bytes of the unfinished message it has received.\<close>

definition slave_open :: "slave \<Rightarrow> bool" where
  "slave_open s \<longleftrightarrow> length (sl_size s) = 4 \<and>
     (case sl_status s of
        STATUS_HEADER \<Rightarrow> sl_read s < 4
      | STATUS_CONTENT \<Rightarrow> sl_read s < sl_length s \<and> sl_length s < 2 ^ 24 \<and> length (sl_recv_buffer s) = sl_length s \<and>
          None \<notin> set (take (sl_read s) (sl_recv_buffer s))
      | _ \<Rightarrow> False)"

definition slave_bytes :: "slave \<Rightarrow> u8 list" where
  "slave_bytes s = (case sl_status s of
     STATUS_HEADER \<Rightarrow> take (sl_read s) (sl_size s)
   | STATUS_CONTENT \<Rightarrow> be_bytes 4 (sl_length s) @ map the (take (sl_read s) (sl_recv_buffer s))
   | _ \<Rightarrow> [])"

text \<open>A package that fits the format: it has a cookie, and the first byte of its length is 0.\<close>

definition package_ok :: "u8 list \<Rightarrow> bool" where
  "package_ok p \<longleftrightarrow> HEADER_COOKIE_LENGTH \<le> length p \<and> length p < 2 ^ 24"

definition rest_ok :: "u8 list \<Rightarrow> bool" where
  "rest_ok r \<longleftrightarrow> (4 \<le> length r \<longrightarrow> be_value (take 4 r) < 2 ^ 24)"

lemma forward_cong: "forward_local_messsage E (slave_write i s h) = forward_local_messsage E h"
proof -
  have same: "hb_ctx (slave_write i s h) = hb_ctx h" "hb_id (slave_write i s h) = hb_id h" by simp_all
  show ?thesis unfolding forward_local_messsage_def same ..
qed

lemma be_value_first: "be_value [b0, b1, b2, b3] < 2 ^ 24 \<Longrightarrow> b0 = 0"
proof -
  assume "be_value [b0, b1, b2, b3] < 2 ^ 24"
  then have "unat b0 * 2 ^ 24 < 2 ^ 24" by (simp add: be_value_def)
  then have "unat b0 = 0" by simp
  then show ?thesis by (simp add: unat_eq_zero)
qed

lemma content_length_ok:
  assumes "length hb = 4" "be_value hb < 2 ^ 24"
  shows "content_length hb = Some (Some (be_value hb))"
proof -
  obtain b0 b1 b2 b3 where b: "hb = [b0, b1, b2, b3]" using length_4_conv[OF assms(1)] by blast
  have b0: "b0 = 0" using be_value_first assms(2) unfolding b by blast
  have "(push_bit 16 (ucast b1) OR push_bit 8 (ucast b2) OR ucast b3 :: u32) = from_bigendian hb"
    by (simp add: from_bigendian_def b b0)
  also have "\<dots> = of_nat (be_value hb)" unfolding b by (rule from_bigendian_value)
  finally have "unat (push_bit 16 (ucast b1) OR push_bit 8 (ucast b2) OR ucast b3 :: u32) = be_value hb mod 2 ^ 32"
    by (simp only: unat_of_nat) simp
  then show ?thesis using assms(2) b b0 by (simp add: content_length_def array_get_def)
qed

definition stream_result ::
  "services \<Rightarrow> nat \<Rightarrow> harbor \<Rightarrow> u8 list list \<Rightarrow> u8 list \<Rightarrow> server \<Rightarrow> (harbor \<times> server) option \<Rightarrow> bool" where
  "stream_result E i h ps r w res \<longleftrightarrow> (case fold_option (forward_local_messsage E h) ps w of
     None \<Rightarrow> res = None
   | Some w' \<Rightarrow> \<exists>s'. res = Some (slave_write i s' h, w') \<and> slave_open s' \<and> slave_bytes s' = r \<and>
       sl_fd s' = sl_fd (hb_s h ! i) \<and> sl_queue s' = sl_queue (hb_s h ! i))"

lemma stream_result_stop:
  "res = Some (slave_write i s' h, w) \<Longrightarrow> slave_open s' \<Longrightarrow> slave_bytes s' = r \<Longrightarrow> sl_fd s' = sl_fd (hb_s h ! i) \<Longrightarrow>
   sl_queue s' = sl_queue (hb_s h ! i) \<Longrightarrow> stream_result E i h [] r w res"
  by (auto simp: stream_result_def)

lemma stream_result_write:
  assumes "i < length (hb_s h)" "stream_result E i (slave_write i s h) ps r w res"
    "sl_fd s = sl_fd (hb_s h ! i)" "sl_queue s = sl_queue (hb_s h ! i)"
  shows "stream_result E i h ps r w res"
  using assms by (simp add: stream_result_def forward_cong split: option.splits)

text \<open>The length of the next message has just been received.\<close>

lemma header_received:
  assumes s: "sl_status s = STATUS_HEADER" "sl_read s < 4" "length (sl_size s) = 4" and i: "i < length (hb_s h)" "hb_s h ! i = s"
    and hb: "take (sl_read s) (sl_size s) @ take (4 - sl_read s) bs = hb" "4 - sl_read s \<le> length bs" "be_value hb < 2 ^ 24" "0 < be_value hb"
  defines "s1 \<equiv> s\<lparr>sl_size := hb, sl_length := be_value hb, sl_read := 0, sl_recv_buffer := replicate (be_value hb) None,
      sl_status := STATUS_CONTENT\<rparr>"
  shows "push_data_loop E i bs (h, w) =
      (if drop (4 - sl_read s) bs = [] then Some (slave_write i s1 h, w)
       else push_data_loop E i (drop (4 - sl_read s) bs) (slave_write i s1 h, w))"
    and "slave_open s1" "slave_bytes s1 = hb"
proof -
  have l: "length hb = 4" using hb(1,2) s(2,3) by auto
  show "push_data_loop E i bs (h, w) =
      (if drop (4 - sl_read s) bs = [] then Some (slave_write i s1 h, w)
       else push_data_loop E i (drop (4 - sl_read s) bs) (slave_write i s1 h, w))"
    using s(1) i hb(1,2) content_length_ok[OF l hb(3)]
    by (subst push_data_loop.simps) (auto simp: array_get_in s1_def Let_def)
  show "slave_open s1" using hb(3,4) l by (simp add: slave_open_def s1_def)
  show "slave_bytes s1 = hb" using be_bytes_value[of hb] l by (simp add: slave_bytes_def s1_def)
qed

text \<open>The rest of a message has just been received.\<close>

lemma content_received:
  assumes s: "sl_status s = STATUS_CONTENT" "slave_open s" and i: "i < length (hb_s h)" "hb_s h ! i = s"
    and p: "map the (take (sl_read s) (sl_recv_buffer s)) @ take (sl_length s - sl_read s) bs = p"
      "sl_length s - sl_read s \<le> length bs"
  defines "s1 \<equiv> s\<lparr>sl_length := 0, sl_read := 0, sl_recv_buffer := [], sl_status := STATUS_HEADER\<rparr>"
  shows "push_data_loop E i bs (h, w) = do {
      w \<leftarrow> forward_local_messsage E h p w;
      if drop (sl_length s - sl_read s) bs = [] then Some (slave_write i s1 h, w)
      else push_data_loop E i (drop (sl_length s - sl_read s) bs) (slave_write i s1 h, w)
    }"
    and "slave_open s1" "slave_bytes s1 = []"
proof -
  have o: "sl_read s < sl_length s" "length (sl_recv_buffer s) = sl_length s"
    "None \<notin> set (take (sl_read s) (sl_recv_buffer s))" "length (sl_size s) = 4" using s by (simp_all add: slave_open_def)
  obtain b where b: "copy_in (sl_recv_buffer s) (sl_read s) (take (sl_length s - sl_read s) bs) = Some b"
    "length b = sl_length s" "take (sl_read s + length (take (sl_length s - sl_read s) bs)) b = map Some p"
    using copy_in_ok[of "sl_read s" "sl_recv_buffer s" "take (sl_length s - sl_read s) bs"] o p by auto
  then have "b = map Some p" using o(1) p(2) by simp
  then have "None \<notin> set b" "map the b = p" by (auto simp: comp_def)
  then show "push_data_loop E i bs (h, w) = do {
      w \<leftarrow> forward_local_messsage E h p w;
      if drop (sl_length s - sl_read s) bs = [] then Some (slave_write i s1 h, w)
      else push_data_loop E i (drop (sl_length s - sl_read s) bs) (slave_write i s1 h, w)
    }"
    unfolding s1_def using s(1) i b(1) p(2) by (subst push_data_loop.simps) (simp add: array_get_in Let_def)
  show "slave_open s1" "slave_bytes s1 = []" using o(4) by (simp_all add: slave_open_def slave_bytes_def s1_def)
qed

text \<open>The length in a header of a stream of such packages.\<close>

lemma package_header_ok:
  assumes "length hb = 4" "packages 4 (hb @ rs) = (ps, r)" "\<forall>p\<in>set ps. package_ok p" "rest_ok r"
  shows "0 < be_value hb \<and> be_value hb < 2 ^ 24"
proof (cases "length rs < be_value hb")
  case True
  then have "r = hb @ rs" using packages_unfinished[of rs hb] assms(1,2) by simp
  then show ?thesis using True assms(1,4) by (simp add: rest_ok_def)
next
  case False
  let ?p = "take (be_value hb) rs" and ?q = "drop (be_value hb) rs"
  have "packages 4 (hb @ ?p @ ?q) = (?p # fst (packages 4 ?q), snd (packages 4 ?q))"
    using packages_step[of hb ?p ?q] assms(1) False by simp
  then have "?p \<in> set ps" using assms(2) by auto
  then have "package_ok ?p" using assms(3) by blast
  then show ?thesis using False by (simp add: package_ok_def HEADER_COOKIE_LENGTH_def)
qed

definition loop_ok :: "services \<Rightarrow> nat \<Rightarrow> u8 list \<Rightarrow> u8 list \<Rightarrow> bool" where
  "loop_ok E i r bs \<longleftrightarrow> (\<forall>h ps w. i < length (hb_s h) \<longrightarrow> slave_open (hb_s h ! i) \<longrightarrow>
     packages 4 (slave_bytes (hb_s h ! i) @ bs) = (ps, r) \<longrightarrow> (\<forall>p\<in>set ps. package_ok p) \<longrightarrow>
     stream_result E i h ps r w (push_data_loop E i bs (h, w)))"

lemma stream_header:
  assumes IH: "\<And>cs. length cs < length bs \<Longrightarrow> cs \<noteq> [] \<Longrightarrow> loop_ok E i r cs"
    and st: "sl_status s = STATUS_HEADER" and i: "i < length (hb_s h)" and s_def: "s = hb_s h ! i" and op: "slave_open s"
    and bs: "bs \<noteq> []" and pk: "packages 4 (slave_bytes s @ bs) = (ps, r)" and ok: "\<forall>p\<in>set ps. package_ok p" and rest: "rest_ok r"
  shows "stream_result E i h ps r w (push_data_loop E i bs (h, w))"
proof -
  have s: "sl_read s < 4" "length (sl_size s) = 4" "slave_bytes s = take (sl_read s) (sl_size s)"
    using op st by (simp_all add: slave_open_def slave_bytes_def)
  show ?thesis
  proof (cases "length bs < 4 - sl_read s")
    case True
    let ?s = "s\<lparr>sl_size := take (sl_read s) (sl_size s) @ bs @ drop (sl_read s + length bs) (sl_size s),
      sl_read := sl_read s + length bs\<rparr>"
    have "length (slave_bytes s @ bs) < 4" using True s by simp
    then have pr: "ps = []" "r = slave_bytes s @ bs" using pk by (simp_all add: packages_short)
    have "push_data_loop E i bs (h, w) = Some (slave_write i ?s h, w)"
      using True st i by (subst push_data_loop.simps) (simp add: array_get_in s_def[symmetric])
    moreover have "slave_open ?s" "slave_bytes ?s = r"
      using True st s pr(2) by (simp_all add: slave_open_def slave_bytes_def)
    ultimately show ?thesis unfolding pr(1) by (intro stream_result_stop[where s' = ?s]) (simp_all add: s_def)
  next
    case False
    define hb rs where "hb = take (sl_read s) (sl_size s) @ take (4 - sl_read s) bs" and "rs = drop (4 - sl_read s) bs"
    have hb: "length hb = 4" "slave_bytes s @ bs = hb @ rs" using False s by (auto simp: hb_def rs_def)
    note pk = pk[unfolded hb(2)]
    have n: "0 < be_value hb \<and> be_value hb < 2 ^ 24" by (rule package_header_ok[OF hb(1) pk ok rest])
    define s1 where "s1 = s\<lparr>sl_size := hb, sl_length := be_value hb, sl_read := 0,
      sl_recv_buffer := replicate (be_value hb) None, sl_status := STATUS_CONTENT\<rparr>"
    have H: "push_data_loop E i bs (h, w) = (if rs = [] then Some (slave_write i s1 h, w)
        else push_data_loop E i rs (slave_write i s1 h, w))" "slave_open s1" "slave_bytes s1 = hb"
      using header_received[OF st s(1,2) i s_def[symmetric] hb_def[symmetric] _ conjunct2[OF n] conjunct1[OF n]] False
      unfolding s1_def rs_def by simp_all
    have eq: "sl_fd s1 = sl_fd (hb_s h ! i)" "sl_queue s1 = sl_queue (hb_s h ! i)" by (simp_all add: s1_def s_def)
    show ?thesis
    proof (cases "rs = []")
      case True
      then have "ps = []" "r = hb" using pk packages_unfinished[of "[]" hb] hb(1) n by auto
      then show ?thesis using stream_result_stop[OF _ H(2) H(3) eq] H(1) True by auto
    next
      case more: False
      have "length rs < length bs" using False s(1) bs by (simp add: rs_def)
      then have "stream_result E i (slave_write i s1 h) ps r w (push_data_loop E i rs (slave_write i s1 h, w))"
        using IH[of rs] i H(2,3) more pk ok unfolding loop_ok_def by simp
      then show ?thesis using stream_result_write[OF i _ eq] H(1) more by simp
    qed
  qed
qed

lemma stream_content:
  assumes IH: "\<And>cs. length cs < length bs \<Longrightarrow> cs \<noteq> [] \<Longrightarrow> loop_ok E i r cs"
    and st: "sl_status s = STATUS_CONTENT" and i: "i < length (hb_s h)" and s_def: "s = hb_s h ! i" and op: "slave_open s"
    and bs: "bs \<noteq> []" and pk: "packages 4 (slave_bytes s @ bs) = (ps, r)" and ok: "\<forall>p\<in>set ps. package_ok p"
  shows "stream_result E i h ps r w (push_data_loop E i bs (h, w))"
proof -
  define got where "got = map the (take (sl_read s) (sl_recv_buffer s))"
  have s: "sl_read s < sl_length s" "sl_length s < 2 ^ 24" "length (sl_recv_buffer s) = sl_length s"
    "None \<notin> set (take (sl_read s) (sl_recv_buffer s))" "length (sl_size s) = 4"
    "slave_bytes s = be_bytes 4 (sl_length s) @ got" "length got = sl_read s"
    using op st by (auto simp: slave_open_def slave_bytes_def got_def)
  have n: "be_value (be_bytes 4 (sl_length s)) = sl_length s" using s(2) by (intro be_value_bytes) simp
  show ?thesis
  proof (cases "length bs < sl_length s - sl_read s")
    case True
    have "packages 4 (be_bytes 4 (sl_length s) @ (got @ bs)) = ([], be_bytes 4 (sl_length s) @ (got @ bs))"
      using packages_unfinished[of "got @ bs" "be_bytes 4 (sl_length s)"] n True s(7) by simp
    then have pr: "ps = []" "r = be_bytes 4 (sl_length s) @ got @ bs" using pk s(6) by simp_all
    obtain b where b: "copy_in (sl_recv_buffer s) (sl_read s) bs = Some b" "length b = sl_length s"
      "take (sl_read s + length bs) b = map Some (got @ bs)"
      using copy_in_ok[of "sl_read s" "sl_recv_buffer s" bs] s True unfolding got_def by (metis less_imp_le)
    let ?s = "s\<lparr>sl_recv_buffer := b, sl_read := sl_read s + length bs\<rparr>"
    have "push_data_loop E i bs (h, w) = Some (slave_write i ?s h, w)"
      using True st i b(1) by (subst push_data_loop.simps) (simp add: array_get_in s_def[symmetric])
    moreover have "slave_open ?s" "slave_bytes ?s = r"
      using True st s(2,5) pr(2) b(2,3) by (auto simp: slave_open_def slave_bytes_def comp_def)
    ultimately show ?thesis unfolding pr(1) by (intro stream_result_stop[where s' = ?s]) (simp_all add: s_def)
  next
    case False
    define p rs where "p = got @ take (sl_length s - sl_read s) bs" and "rs = drop (sl_length s - sl_read s) bs"
    have p: "length p = sl_length s" "slave_bytes s @ bs = be_bytes 4 (length p) @ p @ rs"
      using False s by (auto simp: p_def rs_def)
    have "packages 4 (slave_bytes s @ bs) = (p # fst (packages 4 rs), snd (packages 4 rs))"
      unfolding p(2) by (rule packages_frame) (use s(2) p(1) in simp_all)
    then obtain qs where qs: "ps = p # qs" "packages 4 rs = (qs, r)" using pk by (metis prod.collapse prod.inject)
    define s1 where "s1 = s\<lparr>sl_length := 0, sl_read := 0, sl_recv_buffer := [], sl_status := STATUS_HEADER\<rparr>"
    have C: "push_data_loop E i bs (h, w) = do {
        w \<leftarrow> forward_local_messsage E h p w;
        if rs = [] then Some (slave_write i s1 h, w) else push_data_loop E i rs (slave_write i s1 h, w)
      }" "slave_open s1" "slave_bytes s1 = []"
      using content_received[OF st op i s_def[symmetric] p_def[unfolded got_def, symmetric]] False
      unfolding s1_def rs_def by simp_all
    have eq: "sl_fd s1 = sl_fd (hb_s h ! i)" "sl_queue s1 = sl_queue (hb_s h ! i)" by (simp_all add: s1_def s_def)
    show ?thesis
    proof (cases "forward_local_messsage E h p w")
      case None
      then show ?thesis using C(1) qs(1) by (simp add: stream_result_def)
    next
      case (Some w1)
      have "stream_result E i h qs r w1 (push_data_loop E i bs (h, w))"
      proof (cases "rs = []")
        case True
        then have "qs = []" "r = []" using qs(2) by (simp_all add: packages_short)
        then show ?thesis using stream_result_stop[OF _ C(2) C(3) eq] C(1) Some True by auto
      next
        case more: False
        have "length rs < length bs" using False s(1) bs by (simp add: rs_def)
        then have "stream_result E i (slave_write i s1 h) qs r w1 (push_data_loop E i rs (slave_write i s1 h, w1))"
          using IH[of rs] i C(2,3) more qs ok unfolding loop_ok_def by simp
        then show ?thesis using stream_result_write[OF i _ eq] C(1) Some more by simp
      qed
      then show ?thesis using Some qs(1) by (simp add: stream_result_def)
    qed
  qed
qed

text \<open>
  The loop forwards exactly the messages that are complete in the stream, in order, and keeps the rest.
\<close>

lemma push_data_stream:
  assumes "bs \<noteq> []" "rest_ok r"
  shows "loop_ok E i r bs"
  using assms(1)
proof (induction "length bs" arbitrary: bs rule: less_induct)
  case less
  show ?case unfolding loop_ok_def
  proof (intro allI impI, goal_cases)
    case (1 h ps w)
    then consider "sl_status (hb_s h ! i) = STATUS_HEADER" | "sl_status (hb_s h ! i) = STATUS_CONTENT"
      by (auto simp: slave_open_def split: slave_status.splits)
    then show ?case
      using stream_header[OF less.hyps _ 1(1) refl 1(2) less.prems 1(3,4) assms(2)]
        stream_content[OF less.hyps _ 1(1) refl 1(2) less.prems 1(3,4)] by cases blast+
  qed
qed

lemma rest_ok_prefix:
  assumes "packages 4 (as @ bs) = (ps, r)" "\<forall>p\<in>set ps. package_ok p" "rest_ok r"
  shows "rest_ok (snd (packages 4 as))" "\<forall>p\<in>set (fst (packages 4 as)). package_ok p"
proof -
  let ?r = "snd (packages 4 as)"
  have *: "fst (packages 4 as) @ fst (packages 4 (?r @ bs)) = ps" "snd (packages 4 (?r @ bs)) = r"
    using packages_append[of 4 as bs] assms(1) by simp_all
  then show "\<forall>p\<in>set (fst (packages 4 as)). package_ok p" using assms(2) by auto
  show "rest_ok ?r"
  proof (cases "4 \<le> length ?r")
    case True
    have "packages 4 (take 4 ?r @ (drop 4 ?r @ bs)) = (fst (packages 4 (?r @ bs)), r)"
      using *(2) by (simp add: prod_eq_iff flip: append_assoc)
    then show ?thesis using package_header_ok[of "take 4 ?r"] True assms(2,3) *(1) by (auto simp: rest_ok_def)
  qed (simp add: rest_ok_def)
qed

lemma slave_bytes_unfinished:
  assumes "slave_open s"
  shows "packages 4 (slave_bytes s) = ([], slave_bytes s)"
proof (cases "sl_status s = STATUS_CONTENT")
  case True
  have n: "be_value (be_bytes 4 (sl_length s)) = sl_length s"
    by (rule be_value_bytes) (use assms True in \<open>simp add: slave_open_def\<close>)
  have "length (map the (take (sl_read s) (sl_recv_buffer s))) < be_value (be_bytes 4 (sl_length s))"
    unfolding n using assms True by (simp add: slave_open_def)
  from packages_unfinished[OF this] show ?thesis using True by (simp add: slave_bytes_def)
next
  case False
  then show ?thesis using assms
    by (auto simp: slave_open_def slave_bytes_def packages_short split: slave_status.splits)
qed

lemma stream_result_append:
  assumes i: "i < length (hb_s h)" and a: "stream_result E i h ps r w (push_data_loop E i c (h, w))"
    and b: "\<And>s' w'. slave_open s' \<Longrightarrow> slave_bytes s' = r \<Longrightarrow>
      stream_result E i (slave_write i s' h) qs r' w' (fold_option (push_data_loop E i) cs (slave_write i s' h, w'))"
  shows "stream_result E i h (ps @ qs) r' w (fold_option (push_data_loop E i) (c # cs) (h, w))"
proof (cases "fold_option (forward_local_messsage E h) ps w")
  case None
  then show ?thesis using a by (simp add: stream_result_def fold_option_append)
next
  case (Some w1)
  then obtain s1 where s1: "push_data_loop E i c (h, w) = Some (slave_write i s1 h, w1)" "slave_open s1" "slave_bytes s1 = r"
    "sl_fd s1 = sl_fd (hb_s h ! i)" "sl_queue s1 = sl_queue (hb_s h ! i)" using a by (auto simp: stream_result_def)
  have "stream_result E i h qs r' w1 (fold_option (push_data_loop E i) cs (slave_write i s1 h, w1))"
    by (rule stream_result_write[OF i b[OF s1(2,3)] s1(4,5)])
  then show ?thesis using Some s1(1) by (simp add: stream_result_def fold_option_append)
qed

text \<open>The data may arrive in any chunks.\<close>

lemma stream_chunks:
  assumes "i < length (hb_s h)" "slave_open (hb_s h ! i)" "[] \<notin> set cs"
    "packages 4 (slave_bytes (hb_s h ! i) @ concat cs) = (ps, r)" "\<forall>p\<in>set ps. package_ok p" "rest_ok r"
  shows "stream_result E i h ps r w (fold_option (push_data_loop E i) cs (h, w))"
  using assms
proof (induction cs arbitrary: h w ps)
  case Nil
  have "ps = []" "r = slave_bytes (hb_s h ! i)" using slave_bytes_unfinished[OF Nil(2)] Nil(4) by simp_all
  then show ?case using Nil(2) by (auto intro!: stream_result_stop[where s' = "hb_s h ! i"])
next
  case (Cons c cs)
  let ?st = "slave_bytes (hb_s h ! i) @ c"
  define ps1 r1 where "ps1 = fst (packages 4 ?st)" and "r1 = snd (packages 4 ?st)"
  define ps2 where "ps2 = fst (packages 4 (r1 @ concat cs))"
  have pk: "packages 4 (?st @ concat cs) = (ps, r)" using Cons.prems(4) by simp
  have eq: "ps = ps1 @ ps2" "packages 4 (r1 @ concat cs) = (ps2, r)"
    using packages_append[of 4 ?st "concat cs"] pk by (simp_all add: ps1_def ps2_def r1_def prod_eq_iff)
  have ok: "rest_ok r1" "\<forall>p\<in>set ps1. package_ok p"
    using rest_ok_prefix[OF pk Cons.prems(5,6)] by (simp_all add: ps1_def r1_def)
  have "stream_result E i h ps1 r1 w (push_data_loop E i c (h, w))"
  proof -
    have "packages 4 ?st = (ps1, r1)" by (simp add: ps1_def r1_def)
    then show ?thesis using push_data_stream[of c r1 E i] ok Cons.prems(1-3) unfolding loop_ok_def by auto
  qed
  moreover have "stream_result E i (slave_write i s' h) ps2 r w' (fold_option (push_data_loop E i) cs (slave_write i s' h, w'))"
    if "slave_open s'" "slave_bytes s' = r1" for s' w'
    using Cons.IH[of "slave_write i s' h" ps2 w'] that Cons.prems eq by simp
  ultimately show ?case unfolding eq(1) by (rule stream_result_append[OF Cons.prems(1)])
qed

text \<open>
  C16: whatever the chunks in which the data of another node arrives, the harbor forwards exactly the messages of
  the stream, each once and in order, and keeps the unfinished rest.
\<close>

theorem harbor_stream:
  assumes "i < length (hb_s h)" "slave_open (hb_s h ! i)" "[] \<notin> set cs"
    "packages 4 (slave_bytes (hb_s h ! i) @ concat cs) = (ps, r)" "\<forall>p\<in>set ps. package_ok p" "rest_ok r"
  shows "case fold_option (forward_local_messsage E h) ps w of
      None \<Rightarrow> fold_option (push_data_loop E i) cs (h, w) = None
    | Some w' \<Rightarrow> \<exists>s'. fold_option (push_data_loop E i) cs (h, w) = Some (slave_write i s' h, w') \<and>
        slave_open s' \<and> slave_bytes s' = r \<and> sl_fd s' = sl_fd (hb_s h ! i) \<and> sl_queue s' = sl_queue (hb_s h ! i)"
  using stream_chunks[OF assms, of E w] unfolding stream_result_def .

section \<open>From one node to the other\<close>

lemma type_tag:
  assumes "unat (t :: u32) < 256"
  shows "(t OR PTYPE_TAG_DONTCOPY) AND PTYPE_TAG_DONTCOPY \<noteq> 0" "(t OR PTYPE_TAG_DONTCOPY) AND PTYPE_TAG_ALLOCSESSION = 0"
    "(t OR PTYPE_TAG_DONTCOPY) AND 0xff = t"
proof -
  have "take_bit 8 t = t" using assms by (intro take_bit_small) simp
  then have lo: "bit t n \<Longrightarrow> n < 8" for n by (metis bit_take_bit_iff)
  have c: "PTYPE_TAG_DONTCOPY = push_bit 16 1" "PTYPE_TAG_ALLOCSESSION = push_bit 17 1" "(0xff :: u32) = mask 8"
    by (simp_all add: PTYPE_TAG_DONTCOPY_def PTYPE_TAG_ALLOCSESSION_def mask_eq_exp_minus_1)
  have b: "bit PTYPE_TAG_DONTCOPY n \<longleftrightarrow> n = 16" "bit PTYPE_TAG_ALLOCSESSION n \<longleftrightarrow> n = 17" for n
    unfolding c bit_push_bit_iff by (auto simp: bit_1_iff)
  have "bit ((t OR PTYPE_TAG_DONTCOPY) AND PTYPE_TAG_DONTCOPY) 16" by (simp add: bit_and_iff bit_or_iff b)
  then show "(t OR PTYPE_TAG_DONTCOPY) AND PTYPE_TAG_DONTCOPY \<noteq> 0" by (metis bit_0_eq bot_apply bot_bool_def)
  show "(t OR PTYPE_TAG_DONTCOPY) AND PTYPE_TAG_ALLOCSESSION = 0"
    by (rule bit_eqI) (auto simp: bit_and_iff bit_or_iff b dest: lo)
  show "(t OR PTYPE_TAG_DONTCOPY) AND 0xff = t" unfolding c(3)
    by (rule bit_eqI) (auto simp: bit_and_iff bit_or_iff bit_mask_iff b dest: lo)
qed

text \<open>The service a cookie addresses on the node of the harbor \<open>h\<close>.\<close>

definition local_destination :: "harbor \<Rightarrow> remote_message_header \<Rightarrow> u32" where
  "local_destination h ck = (rh_destination ck AND HANDLE_MASK) OR push_bit HANDLE_REMOTE_SHIFT (word_of_int (hb_id h))"

definition remote_type :: "remote_message_header \<Rightarrow> u32" where
  "remote_type ck = drop_bit HANDLE_REMOTE_SHIFT (rh_destination ck)"

text \<open>The message that a package with the payload \<open>p\<close> and the cookie \<open>ck\<close> becomes.\<close>

definition remote_delivered :: "server \<Rightarrow> u8 list \<Rightarrow> remote_message_header \<Rightarrow> skynet_message \<Rightarrow> bool" where
  "remote_delivered w p ck m \<longleftrightarrow> msg_source m = rh_source ck \<and> msg_session m = sint (rh_session ck) \<and>
     message_type (msg_sz m) = ucast (remote_type ck) \<and> msg_sz m AND MESSAGE_TYPE_MASK = of_nat (length p) \<and>
     sv_heap w (msg_data m) = Some (Bytes (p @ header_to_message ck))"

lemma small_size: "n < 2 ^ 24 \<Longrightarrow> (of_nat n :: u64) AND MESSAGE_TYPE_MASK = of_nat n"
proof -
  assume n: "n < 2 ^ 24"
  have "take_bit 56 (of_nat n :: u64) = of_nat n"
    using n by (intro take_bit_small) (simp add: unat_of_nat)
  then show ?thesis by (simp add: MESSAGE_TYPE_MASK_eq take_bit_eq_mask)
qed

lemma forward_wire:
  assumes inv: "server_inv w xs" and p: "package_ok (p @ header_to_message ck)"
    and d: "local_service w (local_destination h ck) c" and src: "rh_source ck \<noteq> 0" and nonneg: "0 \<le> sint (rh_session ck)"
  shows "\<exists>w' m ys. forward_local_messsage E h (p @ header_to_message ck) w = Some w' \<and> server_inv w' ys \<and> same_node w w' \<and>
    ctx_pending w' = (ctx_pending w)(c := ctx_pending w c @ [m]) \<and> remote_delivered w' p ck m"
proof -
  let ?b = "Bytes (p @ header_to_message ck)" and ?type = "remote_type ck" and ?d = "local_destination h ck"
  obtain w1 a where w1: "skynet_malloc ?b w = (w1, a)" by fastforce
  note I = skynet_malloc_inv[OF inv w1]
  have "unat (rh_destination ck) < 2 ^ 32" using unsigned_less[of "rh_destination ck", where 'a = nat] by simp
  then have t: "unat ?type < 256" by (simp add: remote_type_def HANDLE_REMOTE_SHIFT_def unat_drop_bit)
  have sz: "(of_nat (length p) :: u64) AND MESSAGE_TYPE_MASK = of_nat (length p)"
    using p by (intro small_size) (simp add: package_ok_def HEADER_COOKIE_LENGTH_def)
  have sn: "same_node w w1" using I(7-9) by (simp add: same_node_def)
  have d1: "local_service w1 ?d c" using same_node_service[OF sn] d by simp
  obtain w2 m ys where w2: "skynet_send E (hb_ctx h) (rh_source ck) ?d (?type OR PTYPE_TAG_DONTCOPY) (sint (rh_session ck)) a
      (of_nat (length p)) w1 = Some (w2, sint (rh_session ck))"
    "server_inv w2 ys" "ctx_pending w2 = (ctx_pending w1)(c := ctx_pending w1 c @ [m])"
    "msg_data m = a" "msg_session m = sint (rh_session ck)" "msg_source m = effective_source w1 (hb_ctx h) (rh_source ck)"
    "message_type (msg_sz m) = ucast ((?type OR PTYPE_TAG_DONTCOPY) AND 0xff)" "msg_sz m AND MESSAGE_TYPE_MASK = of_nat (length p)"
    "mq_world.more w2 = mq_world.more w1"
    using send_direct[OF I(1) sz _ type_tag(1,2)[OF t], of "rh_source ck" "hb_ctx h" ?d c E "sint (rh_session ck)" a] d1 src
    unfolding local_service_def by blast
  have drop: "drop (length (p @ header_to_message ck) - HEADER_COOKIE_LENGTH) (p @ header_to_message ck) = header_to_message ck"
    by simp
  have "forward_local_messsage E h (p @ header_to_message ck) w = Some w2"
    unfolding forward_local_messsage_def drop Let_def w1 message_to_header_of
    using w2(1) nonneg by (simp add: local_destination_def remote_type_def)
  moreover have "same_node w w2" using sn server_more[OF w2(9)] by (simp add: same_node_def)
  moreover have "remote_delivered w2 p ck m"
    using w2(4-8) type_tag(3)[OF t] src I(4) server_more[OF w2(9)] by (simp add: remote_delivered_def effective_source_def)
  ultimately show ?thesis using w2(2,3) I(5) by auto
qed

text \<open>The cookie \<open>remote_send_handle\<close> writes, read on the node the handle belongs to.\<close>

definition cookie_of :: "u32 \<Rightarrow> u32 \<Rightarrow> u32 \<Rightarrow> int \<Rightarrow> remote_message_header" where
  "cookie_of source destination type session = \<lparr>rh_source = source,
     rh_destination = push_bit HANDLE_REMOTE_SHIFT type OR (destination AND HANDLE_MASK), rh_session = word_of_int session\<rparr>"

lemma cookie_type:
  assumes "unat type < 256"
  shows "remote_type (cookie_of source destination type session) = type"
proof -
  have "take_bit 8 type = type" using assms by (intro take_bit_small) simp
  then have lo: "bit type n \<Longrightarrow> n < 8" for n by (metis bit_take_bit_iff)
  show ?thesis unfolding remote_type_def cookie_of_def HANDLE_MASK_eq HANDLE_REMOTE_SHIFT_def
    by (rule bit_eqI) (auto simp: bit_simps dest: lo)
qed

lemma cookie_destination:
  assumes "hb_id h = int (unat (drop_bit HANDLE_REMOTE_SHIFT destination))"
  shows "local_destination h (cookie_of source destination type session) = destination"
proof -
  have "(word_of_int (hb_id h) :: u32) = drop_bit HANDLE_REMOTE_SHIFT destination" unfolding assms by simp
  then show ?thesis unfolding local_destination_def cookie_of_def HANDLE_MASK_eq HANDLE_REMOTE_SHIFT_def
    by (intro bit_eqI) (auto simp: bit_simps, metis le_add_diff_inverse not_less)
qed

text \<open>The socket server reports at most 1 MB of unsent data, so no warning is sent.\<close>

definition small_backlog :: "services \<Rightarrow> bool" where
  "small_backlog E \<longleftrightarrow> (\<forall>c w. socket_result E c w \<le> 1024 * 1024)"

lemma socket_send_small:
  assumes "small_backlog E"
  shows "\<exists>r. skynet_socket_send E ctx fd p n w = Some (w\<lparr>sv_calls := sv_calls w @ [Call_send fd p n]\<rparr>, r)"
  using assms by (auto simp: skynet_socket_send_def socket_call_def check_wsz_def small_backlog_def not_less[symmetric])

lemma send_remote_ok:
  assumes "small_backlog E" "buffer_bytes buffer sz w = Some p" "length p = unat sz" "package_ok (p @ header_to_message ck)"
  shows "\<exists>w'. send_remote E ctx fd buffer sz ck w = Some w' \<and>
    sv_calls w' = sv_calls w @ [Call_send fd (sv_brk w) (int (length (wire (p, ck))))] \<and>
    sv_heap w' (sv_brk w) = Some (Bytes (wire (p, ck)))"
proof -
  have n: "unat sz + 12 < 2 ^ 24" using assms(3,4) by (simp add: package_ok_def HEADER_COOKIE_LENGTH_def)
  then have u: "unat (sz + 12) = unat sz + 12" by (simp add: unat_word_ariths)
  have not_large: "\<not> 0xffffffff < sz + 12" using n u by (simp add: word_less_nat_alt)
  have "unat (ucast (sz + 12) :: u32) = unat sz + 12" using n u by (simp add: unsigned_ucast_eq take_bit_nat_eq_self)
  then have bytes: "to_bigendian (ucast (sz + 12)) @ p @ header_to_message ck = wire (p, ck)"
    using assms(3) by (simp add: to_bigendian_bytes wire_def frame_def HEADER_COOKIE_LENGTH_def)
  have len: "to_int32 (uint (sz + 12) + 4) = int (length (wire (p, ck)))"
  proof -
    have "uint (sz + 12) = uint sz + 12" using arg_cong[OF u, of int] by simp
    moreover have "uint sz = int (length p)" using assms(3) by simp
    ultimately have "uint (sz + 12) + 4 = int (length (wire (p, ck)))" by (simp add: wire_def frame_def HEADER_COOKIE_LENGTH_def)
    moreover have "length p + 12 < 2 ^ 24" using n assms(3) by simp
    then have "int (length (wire (p, ck))) < 2 ^ 31" by (simp add: wire_def frame_def HEADER_COOKIE_LENGTH_def)
    ultimately show ?thesis by (simp add: to_int32_id)
  qed
  obtain w1 a where w1: "skynet_malloc (Bytes (wire (p, ck))) w = (w1, a)" by fastforce
  then have a: "a = sv_brk w" "sv_heap w1 a = Some (Bytes (wire (p, ck)))" "sv_calls w1 = sv_calls w"
    by (auto simp: skynet_malloc_def)
  obtain r where r: "skynet_socket_send E ctx fd a (int (length (wire (p, ck)))) w1 =
      Some (w1\<lparr>sv_calls := sv_calls w1 @ [Call_send fd a (int (length (wire (p, ck))))]\<rparr>, r)"
    using socket_send_small[OF assms(1)] by blast
  have "send_remote E ctx fd buffer sz ck w = Some (w1\<lparr>sv_calls := sv_calls w1 @ [Call_send fd a (int (length (wire (p, ck))))]\<rparr>)"
    unfolding send_remote_def Let_def using not_large assms(2) r
    by (simp add: HEADER_COOKIE_LENGTH_def bytes w1 len)
  then show ?thesis using a by simp
qed

lemma wire_packages:
  assumes "package_ok (p @ header_to_message ck)"
  shows "packages 4 (wire (p, ck)) = ([p @ header_to_message ck], [])"
  using packages_frame[of "p @ header_to_message ck" 4 "[]"] assms
  by (simp add: wire_def frame_def package_ok_def packages_short)

text \<open>
  C15: a message for a service of another node that is connected arrives there. What \<open>remote_send_handle\<close> writes
  to the connection is, in whatever chunks the other node receives it, one message in the queue of the service,
  with the same source, session, type and payload.
\<close>

theorem harbor_roundtrip:
  assumes A: "i = unat (drop_bit HANDLE_REMOTE_SHIFT destination)" "int i \<noteq> hb_id hA" "i < length (hb_s hA)"
      "sl_fd (hb_s hA ! i) \<noteq> 0" "sl_status (hb_s hA ! i) \<noteq> STATUS_HANDSHAKE"
    and msg: "buffer_bytes msg sz wA = Some p" "length p = unat sz" "length p + HEADER_COOKIE_LENGTH < 2 ^ 24"
      "unat type < 256" "source \<noteq> 0" "0 \<le> session" "session < 2 ^ 31" "small_backlog E"
    and B: "server_inv wB xs" "hb_id hB = int i" "local_service wB destination c"
      "j < length (hb_s hB)" "slave_open (hb_s hB ! j)" "slave_bytes (hb_s hB ! j) = []"
  shows "\<exists>wA' a bs. remote_send_handle E source destination type session msg sz (hA, wA) = Some (hA, wA', False) \<and>
    sv_calls wA' = sv_calls wA @ [Call_send (sl_fd (hb_s hA ! i)) a (int (length bs))] \<and> sv_heap wA' a = Some (Bytes bs) \<and>
    (\<forall>cs. concat cs = bs \<and> [] \<notin> set cs \<longrightarrow>
      (\<exists>hB' wB' m ys t. fold_option (push_data_loop F j) cs (hB, wB) = Some (hB', wB') \<and> server_inv wB' ys \<and>
        ctx_pending wB' = (ctx_pending wB)(c := ctx_pending wB c @ [m]) \<and>
        msg_source m = source \<and> msg_session m = session \<and> message_type (msg_sz m) = ucast type \<and>
        msg_sz m AND MESSAGE_TYPE_MASK = of_nat (length p) \<and> sv_heap wB' (msg_data m) = Some (Bytes (p @ t))))"
proof -
  let ?ck = "cookie_of source destination type session" and ?fd = "sl_fd (hb_s hA ! i)"
  let ?pk = "p @ header_to_message ?ck"
  have ok: "package_ok ?pk" using msg(3) by (simp add: package_ok_def)
  have ses: "sint (rh_session ?ck) = session"
    using to_int32_id[of session] msg(6,7) by (simp add: cookie_of_def to_int32_def)
  obtain wA' where wA': "send_remote E (hb_ctx hA) ?fd msg sz ?ck wA = Some wA'"
    "sv_calls wA' = sv_calls wA @ [Call_send ?fd (sv_brk wA) (int (length (wire (p, ?ck))))]"
    "sv_heap wA' (sv_brk wA) = Some (Bytes (wire (p, ?ck)))"
    using send_remote_ok[OF msg(8,1,2) ok] by blast
  have "remote_send_handle E source destination type session msg sz (hA, wA) = Some (hA, wA', False)"
    using A wA'(1) unfolding cookie_of_def by (simp add: remote_send_handle_def Let_def array_get_in)
  moreover have "\<exists>hB' wB' m ys t. fold_option (push_data_loop F j) cs (hB, wB) = Some (hB', wB') \<and> server_inv wB' ys \<and>
        ctx_pending wB' = (ctx_pending wB)(c := ctx_pending wB c @ [m]) \<and>
        msg_source m = source \<and> msg_session m = session \<and> message_type (msg_sz m) = ucast type \<and>
        msg_sz m AND MESSAGE_TYPE_MASK = of_nat (length p) \<and> sv_heap wB' (msg_data m) = Some (Bytes (p @ t))"
    if cs: "concat cs = wire (p, ?ck)" "[] \<notin> set cs" for cs
  proof -
    have dst: "local_destination hB ?ck = destination" using B(2) A(1) by (intro cookie_destination) simp
    obtain w' m ys where w': "forward_local_messsage F hB ?pk wB = Some w'" "server_inv w' ys"
      "ctx_pending w' = (ctx_pending wB)(c := ctx_pending wB c @ [m])" "remote_delivered w' p ?ck m"
      using forward_wire[OF B(1) ok, where h = hB and c = c and E = F] B(3) dst msg(5,6) ses by (auto simp: cookie_of_def)
    have "packages 4 (slave_bytes (hb_s hB ! j) @ concat cs) = ([?pk], [])" using wire_packages[OF ok] cs(1) B(6) by simp
    then have "stream_result F j hB [?pk] [] wB (fold_option (push_data_loop F j) cs (hB, wB))"
      using stream_chunks[OF B(4,5) cs(2)] ok by (simp add: rest_ok_def)
    then obtain s' where "fold_option (push_data_loop F j) cs (hB, wB) = Some (slave_write j s' hB, w')"
      using w'(1) by (auto simp: stream_result_def)
    then show ?thesis using w'(2-4) ses cookie_type[OF msg(4)]
      by (intro exI[of _ "slave_write j s' hB"] exI[of _ w'] exI[of _ m] exI[of _ ys] exI[of _ "header_to_message ?ck"])
        (simp add: remote_delivered_def, simp add: cookie_of_def)
  qed
  ultimately show ?thesis using wA'(2,3) by blast
qed

section \<open>Connections that are down\<close>

text \<open>Only a slave without a connection is in the first status.\<close>

definition slaves_ok :: "slave list \<Rightarrow> bool" where
  "slaves_ok ss \<longleftrightarrow> (\<forall>s\<in>set ss. sl_status s \<noteq> STATUS_WAIT \<longrightarrow> sl_fd s \<noteq> 0)"

lemma slaves_ok_get: "slaves_ok ss \<Longrightarrow> i < length ss \<Longrightarrow> sl_status (ss ! i) \<noteq> STATUS_WAIT \<Longrightarrow> sl_fd (ss ! i) \<noteq> 0"
  by (auto simp: slaves_ok_def)

lemma slaves_ok_connected: "slaves_ok ss \<Longrightarrow> sl_fd s \<noteq> 0 \<Longrightarrow> slaves_ok (ss[i := s])"
  by (auto simp: slaves_ok_def dest!: set_update_subset_insert[THEN subsetD])

lemma slaves_ok_keep:
  assumes "slaves_ok ss" "i < length ss" "sl_fd s = sl_fd (ss ! i)" "sl_status s = sl_status (ss ! i)"
  shows "slaves_ok (ss[i := s])"
proof -
  have "sl_status s \<noteq> STATUS_WAIT \<longrightarrow> sl_fd s \<noteq> 0" using slaves_ok_get[OF assms(1,2)] assms(3,4) by simp
  then show ?thesis using assms(1) by (auto simp: slaves_ok_def dest!: set_update_subset_insert[THEN subsetD])
qed

lemmas slaves_ok_simps = array_get_Some_iff slaves_ok_keep slaves_ok_connected

lemma close_harbor_inv:
  assumes "close_harbor E i (h, w) = Some (h', w')" "slaves_ok (hb_s h)" "i < length (hb_s h)" "sl_status (hb_s h ! i) \<noteq> STATUS_WAIT"
  shows "slaves_ok (hb_s h')"
  using assms slaves_ok_get[OF assms(2-4)]
  by (auto simp: close_harbor_def slaves_ok_simps split: bind_splits)

lemma dispatch_queue_inv: "dispatch_queue E i (h, w) = Some (h', w') \<Longrightarrow> slaves_ok (hb_s h) \<Longrightarrow> slaves_ok (hb_s h')"
  by (auto simp: dispatch_queue_def slaves_ok_simps split: bind_splits option.splits)

lemma dispatch_name_queue_inv: "dispatch_name_queue E p (h, w) = Some (h', w') \<Longrightarrow> slaves_ok (hb_s h) \<Longrightarrow> slaves_ok (hb_s h')"
  by (auto simp: dispatch_name_queue_def Let_def bind_eq_Some_conv slaves_ok_simps split: option.splits if_splits)

lemma update_name_inv: "update_name E name handle (h, w) = Some (h', w') \<Longrightarrow> slaves_ok (hb_s h) \<Longrightarrow> slaves_ok (hb_s h')"
  by (auto simp: update_name_def Let_def split: bind_splits option.splits if_splits dest!: dispatch_name_queue_inv)

lemma remote_send_handle_inv:
  "remote_send_handle E source destination type session msg sz (h, w) = Some (h', w', k) \<Longrightarrow> slaves_ok (hb_s h) \<Longrightarrow> slaves_ok (hb_s h')"
  by (auto simp: remote_send_handle_def Let_def slaves_ok_simps split: bind_splits if_splits)

lemma remote_send_name_inv:
  "remote_send_name E source name type session msg sz (h, w) = Some (h', w', k) \<Longrightarrow> slaves_ok (hb_s h) \<Longrightarrow> slaves_ok (hb_s h')"
  by (auto simp: remote_send_name_def Let_def split: bind_splits option.splits if_splits prod.splits dest!: remote_send_handle_inv)

lemma connect_slave_inv:
  "connect_slave E acc fd i (h, w) = Some (h', w') \<Longrightarrow> fd \<noteq> 0 \<Longrightarrow> slaves_ok (hb_s h) \<Longrightarrow> slaves_ok (hb_s h')"
  by (auto simp: connect_slave_def Let_def slaves_ok_simps split: bind_splits if_splits dest!: dispatch_queue_inv)

lemma harbor_command_inv: "harbor_command E msg source (h, w) = Some (h', w') \<Longrightarrow> slaves_ok (hb_s h) \<Longrightarrow> slaves_ok (hb_s h')"
  by (auto simp: harbor_command_def Let_def split: bind_splits if_splits prod.splits dest: update_name_inv connect_slave_inv)

lemma push_data_loop_inv:
  assumes "push_data_loop E i bs hw = Some hw'"
  shows "slaves_ok (hb_s (fst hw)) \<longrightarrow> slaves_ok (hb_s (fst hw'))"
proof (rule push_data_loop.raw_induct[of "\<lambda>E i bs hw hw'. slaves_ok (hb_s (fst hw)) \<longrightarrow> slaves_ok (hb_s (fst hw'))",
    OF _ assms], rule impI, goal_cases)
  case (1 loop E i bs hw hw')
  obtain h w where hw: "hw = (h, w)" by fastforce
  obtain h' w' where hw': "hw' = (h', w')" by fastforce
  have ok: "slaves_ok (hb_s h)" using 1(3) hw by simp
  have IH: "slaves_ok (hb_s h'')" if "loop E j cs (g, v) = Some (h'', w'')" "slaves_ok (hb_s g)" for j cs g v h'' w''
    using 1(1) that by fastforce
  show ?case
  proof (cases "array_get (hb_s h) i")
    case (Some s)
    then have s: "i < length (hb_s h)" "s = hb_s h ! i" by (simp_all add: array_get_Some_iff)
    note body = 1(2)[unfolded hw hw' Let_def prod.case Some bind.bind_lunit]
    have fd: "sl_status s \<noteq> STATUS_WAIT \<Longrightarrow> sl_fd s \<noteq> 0" using slaves_ok_get[OF ok s(1)] s(2) by simp
    show ?thesis
    proof (cases "sl_status s")
      case STATUS_HANDSHAKE
      then show ?thesis using body ok s fd hw'
        by (auto simp: slaves_ok_connected split: bind_splits if_splits elim!: close_harbor_inv IH dest!: dispatch_queue_inv)
    next
      case STATUS_HEADER
      then show ?thesis using body ok s fd hw'
        by (auto simp: slaves_ok_connected split: bind_splits if_splits option.splits elim!: close_harbor_inv IH)
    next
      case STATUS_CONTENT
      then show ?thesis using body ok s fd hw'
        by (auto simp: slaves_ok_connected split: bind_splits if_splits elim!: IH)
    qed (use body ok hw' in simp_all)
  qed (use 1(2) hw in simp)
qed

text \<open>One round of the service; between two rounds other services change the node.\<close>

inductive harbor_step :: "services \<Rightarrow> harbor \<Rightarrow> harbor \<Rightarrow> bool" for E where
  "harbor_mainloop E h type session source msg sz w = Some (h', w', r) \<Longrightarrow> harbor_step E h h'"

lemma push_socket_data_inv: "push_socket_data E m (h, w) = Some (h', w') \<Longrightarrow> slaves_ok (hb_s h) \<Longrightarrow> slaves_ok (hb_s h')"
  using push_data_loop_inv[of E _ _ "(h, w)" "(h', w')"]
  by (auto simp: push_socket_data_def split: bind_splits option.splits)

lemma harbor_step_inv: "harbor_step E h h' \<Longrightarrow> slaves_ok (hb_s h) \<Longrightarrow> slaves_ok (hb_s h')"
  by (induction rule: harbor_step.induct)
    (auto simp: harbor_mainloop_def harbor_socket_def Let_def bind_eq_Some_conv split: if_splits option.splits block.splits
      dest: push_socket_data_inv harbor_command_inv remote_send_name_inv remote_send_handle_inv)

lemma harbor_create_inv: "slaves_ok (hb_s harbor_create)"
  by (simp add: slaves_ok_def harbor_create_def slave_zero_def)

text \<open>
  C21: in every state the harbor reaches, a connection it has closed keeps its number. A message for a node that is down
  is therefore written to the closed connection and freed; the branch that sends an error back to the
  source is never taken.
\<close>

theorem harbor_down_not_reported:
  assumes run: "(harbor_step E)\<^sup>*\<^sup>* (harbor_create\<lparr>hb_ctx := ctx, hb_id := k, hb_slave := sl\<rparr>) h"
    and i: "i = unat (drop_bit HANDLE_REMOTE_SHIFT destination)" "int i \<noteq> hb_id h" "i < length (hb_s h)"
    and down: "sl_status (hb_s h ! i) = STATUS_DOWN"
  shows "sl_fd (hb_s h ! i) \<noteq> 0 \<and> remote_send_handle F source destination type session msg sz (h, w) =
    map_option (\<lambda>w'. (h, w', False)) (send_remote F (hb_ctx h) (sl_fd (hb_s h ! i)) msg sz
      (cookie_of source destination type session) w)"
proof -
  have "slaves_ok (hb_s h)" using run
    by (induction rule: rtranclp_induct) (auto intro: harbor_step_inv simp: harbor_create_inv)
  then have fd: "sl_fd (hb_s h ! i) \<noteq> 0" using slaves_ok_get[OF _ i(3)] down by simp
  then show ?thesis using i down
    by (auto simp: remote_send_handle_def Let_def array_get_in cookie_of_def split: bind_splits)
qed


section \<open>Messages that waited for a name\<close>

text \<open>
  Messages addressed to a global name that is not known yet carry no handle. When the name turns out to belong to a node
  that is not connected yet, they move to the queue of that node as they are, so what is sent once the node
  is connected has the handle 0.
\<close>

lemma kv_get_set: "kv_get p m = Some kv \<Longrightarrow> kv_get p (kv_set p kv' m) = Some kv'"
  by (auto simp: kv_get_def kv_set_def array_get_def split: if_splits)

lemma name_queue_moves:
  assumes "kv_get p (hb_map h) = Some node" "kv_queue node = Some q" "i = unat (drop_bit HANDLE_REMOTE_SHIFT (kv_value node))"
    "i < length (hb_s h)" "sl_fd (hb_s h ! i) = 0" "sl_status (hb_s h ! i) = STATUS_WAIT" "sl_queue (hb_s h ! i) = None"
    "i \<noteq> unat (drop_bit HANDLE_REMOTE_SHIFT (hb_slave h))"
  shows "dispatch_name_queue E p (h, w) =
    Some (slave_write i ((hb_s h ! i)\<lparr>sl_queue := Some q\<rparr>) (h\<lparr>hb_map := kv_set p (node\<lparr>kv_queue := None\<rparr>) (hb_map h)\<rparr>), w)"
  using assms by (simp add: dispatch_name_queue_def array_get_in Let_def)

lemma name_cookie_destination:
  "rh_destination ck AND HANDLE_MASK = 0 \<Longrightarrow>
   local_destination h ck = push_bit HANDLE_REMOTE_SHIFT (word_of_int (hb_id h))"
  by (simp add: local_destination_def)

text \<open>For a node that is connected the handle is filled in.\<close>

lemma name_queue_sent:
  assumes "kv_get p (hb_map h) = Some node" "kv_queue node = Some q" "hq_rep q ms" "i = unat (drop_bit HANDLE_REMOTE_SHIFT (kv_value node))"
    "i < length (hb_s h)" "sl_fd (hb_s h ! i) \<noteq> 0"
  shows "\<exists>q'. hq_rep q' [] \<and> dispatch_name_queue E p (h, w) =
    map_option (Pair (h\<lparr>hb_map := kv_set p (node\<lparr>kv_queue := Some q'\<rparr>) (hb_map h)\<rparr>))
      (fold_option (send_and_free E (hb_ctx h) (sl_fd (hb_s h ! i)) (kv_value node AND HANDLE_MASK)) ms w)"
proof -
  let ?f = "send_and_free E (hb_ctx h) (sl_fd (hb_s h ! i)) (kv_value node AND HANDLE_MASK)"
  obtain q' where q': "hq_rep q' []" "pop_loop ?f q w = map_option (Pair q') (fold_option ?f ms w)"
    using pop_loop_fold[OF assms(3), of ?f w] by auto
  then have "dispatch_name_queue E p (h, w) =
      map_option (Pair (h\<lparr>hb_map := kv_set p (node\<lparr>kv_queue := Some q'\<rparr>) (hb_map h)\<rparr>)) (fold_option ?f ms w)"
    using assms by (cases "fold_option ?f ms w") (simp_all add: dispatch_name_queue_def array_get_in Let_def)
  then show ?thesis using q'(1) by blast
qed

end
