(* ===== verification/Sample_Node.thy ===== *)
theory Sample_Node
  imports Command Gate Harbor_Stream
begin

text \<open>
  A small node with two services, for the concrete instances of the properties: contexts at 16
  and 17 with the handles \<open>:1000001\<close> and \<open>:1000002\<close>, empty queues at 32 and 33 that are not in the
  global list, and two blocks of bytes. It satisfies the invariant of a node.
\<close>

definition sample_services :: services where
  "sample_services = \<lparr>sf_create = \<lambda>_ w. Some (w, NULL), sf_init = \<lambda>_ _ _ _ w. Some (w, 0),
     sf_release = \<lambda>_ _ w. Some w, sf_signal = \<lambda>_ _ _ w. Some w,
     sf_cb = \<lambda>_ _ _ _ _ _ _ _ w. Some (w, 0), os_dlopen = \<lambda>_. NULL, os_dlsym = \<lambda>_ _. NULL,
     os_fopen = \<lambda>_ _. NULL, os_thread_time = \<lambda>_. 0, os_print_lf = \<lambda>_. [], socket_result = \<lambda>_ _. 0\<rparr>"

definition sample_queue :: "u32 \<Rightarrow> message_queue" where
  "sample_queue h = \<lparr>mq_handle = h, mq_cap = DEFAULT_QUEUE_SIZE, mq_head = 0, mq_tail = 0, mq_release = False,
     mq_in_global = False, mq_overload = 0, mq_overload_threshold = MQ_OVERLOAD,
     mq_queue = replicate DEFAULT_QUEUE_SIZE None, mq_next = NULL\<rparr>"

definition sample_context :: "u32 \<Rightarrow> ptr \<Rightarrow> skynet_context" where
  "sample_context h q = \<lparr>cx_instance = NULL, cx_mod = 0, cx_cb_ud = NULL, cx_cb = 8, cx_queue = q, cx_logfile = NULL,
     cx_cpu_cost = 0, cx_cpu_start = 0, cx_result = [], cx_handle = h, cx_session_id = 0, cx_ref = 1,
     cx_message_count = 0, cx_init = True, cx_endless = False, cx_profile = False\<rparr>"

definition sample_module :: skynet_module where
  "sample_module = \<lparr>md_name = ''logger'', md_module = 8, md_create = NULL, md_init = 8, md_release = NULL, md_signal = NULL\<rparr>"

definition sample_node :: server where
  "sample_node = \<lparr>mq_store = [32 \<mapsto> sample_queue 0x01000001, 33 \<mapsto> sample_queue 0x01000002], gq_head = NULL, gq_tail = NULL,
     sv_ctx = [16 \<mapsto> sample_context 0x01000001 32, 17 \<mapsto> sample_context 0x01000002 33],
     sv_heap = [48 \<mapsto> Bytes [1, 2, 3], 49 \<mapsto> Bytes [0, 2, 7, 8, 0]], sv_brk = 100, sv_files = {},
     sv_H = (skynet_handle_init 1)\<lparr>hs_handle_index := 3, hs_slot := [NULL, 16, 17, NULL]\<rparr>,
     sv_TI = skynet_timer_init (0, 0) (0, 0),
     sv_M = (skynet_module_init ''./?.so'')\<lparr>ms_count := 1, ms_m := (replicate MAX_MODULE_TYPE None)[0 := Some sample_module]\<rparr>,
     sv_E = skynet_env_init, sv_node = \<lparr>nd_total = 2, nd_init = 1, nd_monitor_exit = 0, nd_profile = False\<rparr>,
     sv_REMOTE = NULL, sv_HARBOR = 0x01000000, sv_logger = 0, sv_key = 0, sv_calls = []\<rparr>"

lemmas sample_defs = sample_node_def sample_context_def sample_queue_def skynet_handle_init_def DEFAULT_SLOT_SIZE_def

lemma sample_queue_rep: "mq_rep (sample_queue h) []" "mq_rep (mq_core (sample_queue h)) []"
  by (auto simp: mq_rep_def mq_inv_def mq_slots_def sample_queue_def DEFAULT_QUEUE_SIZE_def mq_length_def ring_def
      mq_core_def MQ_OVERLOAD_def)

lemma sample_hash: "slot_hash 0x01000001 4 = 1" "slot_hash 0x01000002 4 = 2" "slot_hash 0x01000003 4 = 3"
  by (simp_all add: slot_hash_def)

lemma sample_table: "table_inv (ctx_handles sample_node, sv_H sample_node)"
proof -
  have "\<exists>k\<le>24. (4 :: nat) = 2 ^ k" by (rule exI[of _ 2]) simp
  moreover have "\<exists>h. ctx_handles sample_node ([NULL, 16, 17, NULL] ! i) = Some h \<and> slot_hash h 4 = i"
    if lt: "i < 4" and nz: "[NULL, 16, 17, NULL] ! i \<noteq> NULL" for i
  proof -
    consider "i = 0" | "i = 1" | "i = 2" | "i = 3" using lt by linarith
    then show ?thesis using nz by cases (simp_all add: ctx_handles_def sample_hash sample_node_def sample_context_def)
  qed
  ultimately show ?thesis
    by (auto simp: table_inv_def hs_inv_def names_inv_def hs_names_def sample_node_def skynet_handle_init_def
        DEFAULT_SLOT_SIZE_def HANDLE_REMOTE_SHIFT_def)
qed

text \<open>The parts of the node, so that proofs need not unfold all of it.\<close>

lemma sample_parts [simp]:
  "sv_ctx sample_node = [16 \<mapsto> sample_context 0x01000001 32, 17 \<mapsto> sample_context 0x01000002 33]"
  "sv_heap sample_node = [48 \<mapsto> Bytes [1, 2, 3], 49 \<mapsto> Bytes [0, 2, 7, 8, 0]]"
  "sv_brk sample_node = 100" "sv_logger sample_node = 0" "sv_HARBOR sample_node = 0x01000000"
  "mq_store sample_node = [32 \<mapsto> sample_queue 0x01000001, 33 \<mapsto> sample_queue 0x01000002]"
  "gq_head sample_node = NULL" "gq_tail sample_node = NULL"
  by (simp_all add: sample_node_def)

lemma sample_context_parts [simp]:
  "cx_queue (sample_context h q) = q" "cx_ref (sample_context h q) = 1" "cx_handle (sample_context h q) = h"
  "cx_mod (sample_context h q) = 0" "cx_logfile (sample_context h q) = NULL" "cx_init (sample_context h q)"
  "\<not> cx_profile (sample_context h q)" "cx_cb (sample_context h q) = 8" "cx_cb_ud (sample_context h q) = NULL"
  by (simp_all add: sample_context_def)

lemma sample_cores: "mq_cores sample_node = [32 \<mapsto> mq_core (sample_queue 0x01000001), 33 \<mapsto> mq_core (sample_queue 0x01000002)]"
  by (auto simp: mq_cores_def fun_eq_iff)

lemma sample_inv: "server_inv sample_node []"
proof -
  have gq: "gq_rep sample_node []" by (auto simp: gq_rep_def sample_queue_def split: if_splits)
  have "ctx_ok sample_node [] 16 (sample_context 0x01000001 32)" "ctx_ok sample_node [] 17 (sample_context 0x01000002 33)"
    unfolding ctx_ok_def sample_cores by (simp_all del: mq_core_simps, auto intro: sample_queue_rep(2))
  then have ok: "\<forall>c ctx. sv_ctx sample_node c = Some ctx \<longrightarrow> ctx_ok sample_node [] c ctx" by simp
  have inj: "\<forall>c d x y. sv_ctx sample_node c = Some x \<longrightarrow> sv_ctx sample_node d = Some y \<longrightarrow>
      cx_queue x = cx_queue y \<longrightarrow> c = d"
    by (auto split: if_splits)
  have heap: "\<forall>p. sv_heap sample_node p \<noteq> None \<longrightarrow> p \<noteq> NULL \<and> p < sv_brk sample_node" by simp
  show ?thesis unfolding server_inv_def by (intro conjI gq sample_table ok inj heap) simp
qed

lemma sample_lookup:
  "handle_lookup (ctx_handles sample_node, sv_H sample_node) 0x01000001 = Some 16"
  "handle_lookup (ctx_handles sample_node, sv_H sample_node) 0x01000002 = Some 17"
  "handle_lookup (ctx_handles sample_node, sv_H sample_node) 0x01000003 = None"
  by (simp_all add: handle_lookup_def handle_grab_def ctx_handles_def sample_defs slot_hash_def array_get_def)

lemma sample_local: "skynet_harbor_message_isremote 0x01000001 sample_node = Some False"
  "skynet_harbor_message_isremote 0x01000002 sample_node = Some False"
  "skynet_harbor_message_isremote 0x01000003 sample_node = Some False"
  by (simp_all add: skynet_harbor_message_isremote_def sample_node_def HANDLE_MASK_def)

lemma sample_pending: "ctx_pending sample_node 16 = []" "ctx_pending sample_node 17 = []"
  using mq_rep_imp_msgs[OF sample_queue_rep(2)]
  by (simp_all add: ctx_pending_def mq_cores_def sample_node_def sample_context_def)

lemma sample_no_logger: "skynet_handle_findname ''logger'' (sv_H sample_node) = Some 0"
  by (simp add: skynet_handle_findname_def sample_node_def skynet_handle_init_def name_search.simps)

lemma sample_handles: "ctx_handles sample_node 16 = Some 0x01000001" "ctx_handles sample_node 17 = Some 0x01000002"
  by (simp_all add: ctx_handles_def)

lemma sample_names: "names_inv (sv_H sample_node)" "names_map (sv_H sample_node) = Map.empty"
    "hs_name_count (sv_H sample_node) < hs_name_cap (sv_H sample_node)"
  using sample_table by (auto simp: table_inv_def names_map_def hs_names_def sample_node_def skynet_handle_init_def)

text \<open>A gate with one connection, whose agent is the second service.\<close>

definition sample_connection :: connection where
  "sample_connection = connection_zero\<lparr>c_id := 1, c_agent := 0x01000002\<rparr>"

definition sample_gate :: gate where
  "sample_gate = \<lparr>g_ctx = 16, g_listen_id = 1, g_watchdog = 0, g_broker = 0, g_client_tag = 3, g_header_size = 2,
     g_max_connection = 1, g_hash = \<lparr>hi_hashmod = 0, hi_cap = 0, hi_count = 0, hi_id = [], hi_hash = []\<rparr>,
     g_conn = [sample_connection], g_mp = messagepool_zero\<rparr>"

lemma sample_buffer: "db_own {} UNIV (databuffer_zero, messagepool_zero, sample_node) []"
  by (auto simp: db_own_def db_rep_def db_chunks_def pool_ok_def offset_ok_def databuffer_zero_def messagepool_zero_def
      db_bytes_def intro!: exI[of _ "[]"])

text \<open>The node with the queue of a third service that died with a message pending.\<close>

definition dead_queue :: message_queue where
  "dead_queue = (sample_queue 0x01000004)\<lparr>mq_release := True, mq_tail := 1,
     mq_queue := (replicate DEFAULT_QUEUE_SIZE None)[0 := Some \<lparr>msg_source = 0x01000001, msg_session = 9, msg_data = 48, msg_sz = 3\<rparr>]\<rparr>"

lemma dead_queue_rep:
  "mq_rep (mq_core dead_queue) [\<lparr>msg_source = 0x01000001, msg_session = 9, msg_data = 48, msg_sz = 3\<rparr>]"
  by (auto simp: mq_rep_def mq_inv_def mq_slots_def dead_queue_def sample_queue_def DEFAULT_QUEUE_SIZE_def mq_length_def
      ring_def mq_core_def MQ_OVERLOAD_def)

definition dead_node :: server where
  "dead_node = sample_node\<lparr>mq_store := (mq_store sample_node)(34 \<mapsto> dead_queue)\<rparr>"

lemma dead_node_parts [simp]:
  "sv_ctx dead_node = sv_ctx sample_node" "sv_heap dead_node = sv_heap sample_node" "sv_H dead_node = sv_H sample_node"
  "ctx_handles dead_node = ctx_handles sample_node"
  "skynet_harbor_message_isremote h dead_node = skynet_harbor_message_isremote h sample_node"
  "mq_cores dead_node = (mq_cores sample_node)(34 \<mapsto> mq_core dead_queue)"
  by (auto simp: dead_node_def ctx_handles_def skynet_harbor_message_isremote_def mq_cores_def fun_eq_iff)

section \<open>Harbors\<close>

text \<open>Two harbors: of the node 2, connected to node 1, and of the sample node, which is node 1.\<close>

definition sample_slave :: "int \<Rightarrow> slave" where
  "sample_slave fd = slave_zero\<lparr>sl_fd := fd, sl_status := STATUS_HEADER\<rparr>"

definition sample_harbor :: "int \<Rightarrow> nat \<Rightarrow> harbor" where
  "sample_harbor i j = harbor_create\<lparr>hb_ctx := 16, hb_id := i, hb_slave := 0x01000001,
     hb_s := (replicate REMOTE_MAX slave_zero)[j := sample_slave 5]\<rparr>"

lemma sample_harbor_parts [simp]:
  "hb_ctx (sample_harbor i j) = 16" "hb_id (sample_harbor i j) = i" "length (hb_s (sample_harbor i j)) = 256"
  "j < 256 \<Longrightarrow> hb_s (sample_harbor i j) ! j = sample_slave 5"
  by (simp_all add: sample_harbor_def REMOTE_MAX_def)

lemma sample_slave_open: "slave_open (sample_slave fd)" "slave_bytes (sample_slave fd) = []"
  by (simp_all add: sample_slave_def slave_open_def slave_bytes_def slave_zero_def)

lemma sample_backlog: "small_backlog sample_services"
  by (simp add: small_backlog_def sample_services_def)

lemma sample_service: "local_service sample_node 0x01000002 17"
  using sample_lookup(2) sample_local(2) by (simp add: local_service_def)


text \<open>
  A harbor that is told to connect to node 2 and then receives the wrong id from it: the two rounds run on the sample node with
  the messages at 50 and 51.
\<close>

definition sample_start :: harbor where
  "sample_start = harbor_create\<lparr>hb_ctx := 16, hb_id := 1, hb_slave := 0x01000001\<rparr>"

definition sample_waiting :: harbor where
  "sample_waiting = slave_write 2 (slave_zero\<lparr>sl_fd := 5, sl_status := STATUS_HANDSHAKE\<rparr>) sample_start"

definition sample_down :: harbor where
  "sample_down = slave_write 2 (slave_zero\<lparr>sl_fd := 5, sl_status := STATUS_DOWN\<rparr>) sample_waiting"

definition sample_messages :: server where
  "sample_messages = sample_node\<lparr>sv_heap := [50 \<mapsto> Bytes [83, 32, 53, 32, 50],
     51 \<mapsto> Socket \<lparr>sm_type = SKYNET_SOCKET_TYPE_DATA, sm_id = 5, sm_ud = 1, sm_buffer = 52\<rparr> [], 52 \<mapsto> Bytes [9]]\<rparr>"

lemma sample_slaves [simp]:
  "length (hb_s sample_start) = 256" "hb_s sample_start ! 2 = slave_zero" "hb_ctx sample_start = 16"
  "length (hb_s sample_waiting) = 256" "hb_s sample_waiting ! 2 = slave_zero\<lparr>sl_fd := 5, sl_status := STATUS_HANDSHAKE\<rparr>"
  "hb_ctx sample_waiting = 16"
  by (simp_all add: sample_start_def sample_waiting_def harbor_create_def REMOTE_MAX_def)

lemma sample_messages_parts [simp]:
  "sv_heap sample_messages 50 = Some (Bytes [83, 32, 53, 32, 50])"
  "sv_heap sample_messages 51 = Some (Socket \<lparr>sm_type = SKYNET_SOCKET_TYPE_DATA, sm_id = 5, sm_ud = 1, sm_buffer = 52\<rparr> [])"
  "sv_heap sample_messages 52 = Some (Bytes [9])" "ctx_handles sample_messages 16 = Some 0x01000001"
  "sv_ctx sample_messages 16 = Some (sample_context 0x01000001 32)"
  "sv_logger sample_messages = 0" "skynet_handle_findname ''logger'' (sv_H sample_messages) = Some 0"
  using sample_no_logger by (simp_all add: sample_messages_def ctx_handles_def)

lemma sample_connect: "harbor_step sample_services sample_start sample_waiting"
proof -
  have chars: "map (\<lambda>b. char_of (unat b)) ([83, 32, 53, 32, 50] :: u8 list) = ''S 5 2''" by code_simp
  have two: "scan_fd_id (cstr ''5 2'' 0) = (5, 2)" by code_simp
  have len: "to_int32 5 = 5" by (simp add: to_int32_id)
  have "\<exists>w'. connect_slave sample_services False 5 2 (sample_start, sample_messages) = Some (sample_waiting, w')"
    by (simp add: connect_slave_def array_get_in slave_zero_def skynet_socket_start_def skynet_context_handle_def socket_call_def
        handshake_def skynet_malloc_def sample_waiting_def Let_def skynet_socket_send_def check_wsz_def sample_services_def)
  then obtain w' where w': "connect_slave sample_services False 5 2 (sample_start, sample_messages) = Some (sample_waiting, w')"
    by blast
  have "harbor_command sample_services [83, 32, 53, 32, 50] 1 (sample_start, sample_messages) = Some (sample_waiting, w')"
    unfolding harbor_command_def chars Let_def using two len w' by (simp add: REMOTE_MAX_def)
  then have "harbor_mainloop sample_services sample_start PTYPE_HARBOR 0 1 50 5 sample_messages = Some (sample_waiting, w', 0)"
    by (simp add: harbor_mainloop_def PTYPE_HARBOR_def PTYPE_SOCKET_def read_bytes_def)
  then show ?thesis by (rule harbor_step.intros)
qed

lemma sample_refuse: "harbor_step sample_services sample_waiting sample_down"
proof -
  have find: "find_slave sample_waiting 5 = Some 2"
  proof -
    have "[1..<256] = [1, 2] @ [3..<256]" by (simp add: upt_rec)
    moreover have "sl_fd (hb_s sample_waiting ! 1) = 0"
      by (simp add: sample_waiting_def sample_start_def harbor_create_def REMOTE_MAX_def slave_zero_def)
    ultimately show ?thesis by (simp add: find_slave_def REMOTE_MAX_def)
  qed
  have "\<exists>w'. push_data_loop sample_services 2 [9] (sample_waiting, sample_messages) = Some (sample_down, w') \<and> sv_heap w' = sv_heap sample_messages"
    by (subst push_data_loop.simps)
      (simp add: array_get_in slave_zero_def skynet_error_def close_harbor_def skynet_socket_close_def skynet_context_handle_def
        socket_call_def harbor_release_queue_def sample_down_def ctx_handles_def)
  then obtain w' where w': "push_data_loop sample_services 2 [9] (sample_waiting, sample_messages) = Some (sample_down, w')"
    "sv_heap w' = sv_heap sample_messages" by blast
  then have "harbor_mainloop sample_services sample_waiting PTYPE_SOCKET 0 0 51 24 sample_messages =
      Some (sample_down, w'\<lparr>sv_heap := (sv_heap w')(52 := None)\<rparr>, 0)"
    using find by (simp add: harbor_mainloop_def harbor_socket_def push_socket_data_def read_bytes_def skynet_free_def Let_def)
  then show ?thesis by (rule harbor_step.intros)
qed

end
