(* ===== verification/Lua_Value.thy ===== *)
theory Lua_Value
  imports Prelude "HOL-Library.Multiset"
begin

text \<open>
  The values of Lua 5.3 as the C libraries see them through the API: integers and numbers of 64 bits,
  strings of bytes, light userdata, and tables. The tables of a running program live in a heap and may share and
  contain each other, in cycles too. What a C function builds from nothing is a tree of fresh tables.
\<close>

section \<open>Values and tables\<close>

text \<open>
  The type argument is what stands for a table: its address, or the fresh table itself. A number
  is the 64 bits of its IEEE double; \<open>LOther\<close> is a function, a full userdata or a thread, with the name of its type.
\<close>

datatype 't lua_val =
    LNil
  | LBoolean bool
  | LInteger u64
  | LNumber u64
  | LString "u8 list"
  | LLightuserdata u64
  | LTable 't
  | LOther string

type_synonym lua_value = "ptr lua_val"

text \<open>
  A table: the pairs in the order of \<open>lua_next\<close>, the result of \<open>lua_rawlen\<close>, and, when its metatable
  has \<open>__pairs\<close>, the pairs that the iteration it starts returns before the first nil key.
\<close>

record lua_table =
  tb_pairs :: "(lua_value \<times> lua_value) list"
  tb_rawlen :: nat
  tb_metapairs :: "(lua_value \<times> lua_value) list option"

type_synonym lua_heap = "ptr \<Rightarrow> lua_table"

definition lua_rawgeti :: "lua_table \<Rightarrow> int \<Rightarrow> lua_value" where
  "lua_rawgeti t i = (case map_of (tb_pairs t) (LInteger (word_of_int i)) of None \<Rightarrow> LNil | Some v \<Rightarrow> v)"

text \<open>A fresh table, with the pairs in the order they were added.\<close>

datatype lua_tree = LTree "(lua_tree lua_val \<times> lua_tree lua_val) list"

type_synonym fresh_value = "lua_tree lua_val"

section \<open>Numbers as keys\<close>

text \<open>
  A double with an integral value that fits is converted when it is used as a key
  (\<open>luaV_tointeger\<close> in \<open>luaH_get\<close> and \<open>luaH_newkey\<close>), and a NaN is refused.
\<close>

definition double_exp :: "u64 \<Rightarrow> nat" where
  "double_exp b = unat (drop_bit 52 b) mod 2048"

definition double_frac :: "u64 \<Rightarrow> nat" where
  "double_frac b = unat b mod 2 ^ 52"

definition double_is_nan :: "u64 \<Rightarrow> bool" where
  "double_is_nan b \<longleftrightarrow> double_exp b = 2047 \<and> double_frac b \<noteq> 0"

definition double_magnitude :: "u64 \<Rightarrow> nat option" where
  "double_magnitude b =
     (let e = double_exp b; m = 2 ^ 52 + double_frac b in
      if e = 2047 then None
      else if e = 0 then (if double_frac b = 0 then Some 0 else None)
      else if 1075 \<le> e then Some (m * 2 ^ (e - 1075))
      else if m mod 2 ^ (1075 - e) = 0 then Some (m div 2 ^ (1075 - e)) else None)"

definition double_to_integer :: "u64 \<Rightarrow> u64 option" where
  "double_to_integer b =
     (case double_magnitude b of
        None \<Rightarrow> None
      | Some m \<Rightarrow>
          let v = (if bit b 63 then - int m else int m) in
          if - (2 ^ 63) \<le> v \<and> v < 2 ^ 63 then Some (word_of_int v) else None)"

text \<open>The keys a table can hold.\<close>

definition proper_key :: "'t lua_val \<Rightarrow> bool" where
  "proper_key k = (case k of
     LNil \<Rightarrow> False
   | LNumber b \<Rightarrow> \<not> double_is_nan b \<and> double_to_integer b = None
   | _ \<Rightarrow> True)"

section \<open>Copies\<close>

text \<open>What a reader of the table sees: the pairs of \<open>__pairs\<close>, or its own.\<close>

definition tb_content :: "lua_table \<Rightarrow> (lua_value \<times> lua_value) list" where
  "tb_content t = (case tb_metapairs t of None \<Rightarrow> tb_pairs t | Some ps \<Rightarrow> ps)"

text \<open>
  A fresh table is a copy of a table in the heap when it has copies of the same pairs, in any order.
  Whatever is no table is its own copy.
\<close>

inductive same_table :: "lua_heap \<Rightarrow> ptr \<Rightarrow> lua_tree \<Rightarrow> bool" for H where
  same_tableI:
  "mset ps = mset (tb_content (H a)) \<Longrightarrow>
   list_all2 (rel_prod (rel_lua_val (same_table H)) (rel_lua_val (same_table H))) ps kvs \<Longrightarrow>
   same_table H a (LTree kvs)"
monos list.rel_mono prod.rel_mono lua_val.rel_mono

abbreviation same_value :: "lua_heap \<Rightarrow> lua_value \<Rightarrow> fresh_value \<Rightarrow> bool" where
  "same_value H \<equiv> rel_lua_val (same_table H)"

inductive_cases same_tableE: "same_table H a t"

text \<open>What Lua guarantees of every table, and the sizes for which a C \<open>int\<close> is enough.\<close>

definition value_ok :: "lua_value \<Rightarrow> bool" where
  "value_ok v = (case v of LString s \<Rightarrow> length s < 2 ^ 31 | _ \<Rightarrow> True)"

definition table_ok :: "lua_table \<Rightarrow> bool" where
  "table_ok t \<longleftrightarrow>
     distinct (map fst (tb_content t)) \<and>
     (\<forall>(k, v) \<in> set (tb_content t). proper_key k \<and> v \<noteq> LNil \<and> value_ok k \<and> value_ok v) \<and>
     tb_rawlen t < 2 ^ 31 \<and>
     (tb_rawlen t = 0 \<or> lua_rawgeti t (int (tb_rawlen t)) \<noteq> LNil)"

definition heap_ok :: "lua_heap \<Rightarrow> bool" where
  "heap_ok H \<longleftrightarrow> (\<forall>a. table_ok (H a))"

lemma same_value_simps [simp]:
  "same_value H LNil w \<longleftrightarrow> w = LNil"
  "same_value H (LBoolean b) w \<longleftrightarrow> w = LBoolean b"
  "same_value H (LInteger i) w \<longleftrightarrow> w = LInteger i"
  "same_value H (LNumber n) w \<longleftrightarrow> w = LNumber n"
  "same_value H (LString s) w \<longleftrightarrow> w = LString s"
  "same_value H (LLightuserdata p) w \<longleftrightarrow> w = LLightuserdata p"
  "same_value H (LTable a) w \<longleftrightarrow> (\<exists>t. w = LTable t \<and> same_table H a t)"
  "same_value H (LOther ty) w \<longleftrightarrow> w = LOther ty"
  by (cases w; auto)+

lemma same_value_LNil [simp]: "same_value H v LNil \<longleftrightarrow> v = LNil"
  by (cases v) auto

end
