(* ===== verification/Seri.thy ===== *)
theory Seri
  imports Lua_Value
begin

text \<open>
  \<^verbatim>\<open>lualib-src/lua-seri.c\<close>: Lua values as bytes and back, the contents of the messages between
  services written in Lua. The machine is little endian. The bytes a block was never given are \<open>None\<close>;
  freeing the blocks (\<open>wb_free\<close>) is not modelled.
\<close>

section \<open>Errors, constants and the bytes of integers\<close>

text \<open>
  The errors that end in \<open>luaL_error\<close>, and those of the API functions that are called. The
  error of an invalid stream has the number of bytes left; the source line in its text is left out.
  \<open>Outside\<close> is a read outside of the buffer and \<open>Out_of_fuel\<close> a recursion cut short: neither exists
  in the code, and both are shown not to happen.
\<close>

datatype seri_error =
    Too_depth
  | Unsupport_type string
  | Invalid_stream int
  | Null_pointer
  | Block_too_big
  | Index_is_nil
  | Index_is_nan
  | Outside
  | Out_of_fuel

definition andthen :: "'e + 'a \<Rightarrow> ('a \<Rightarrow> 'e + 'b) \<Rightarrow> 'e + 'b" where
  "andthen r f = (case r of Inl e \<Rightarrow> Inl e | Inr x \<Rightarrow> f x)"

lemma andthen_simps [simp]:
  "andthen (Inl e) f = Inl e"
  "andthen (Inr x) f = f x"
  by (simp_all add: andthen_def)

lemma andthen_eq_Inr: "andthen r f = Inr y \<longleftrightarrow> (\<exists>x. r = Inr x \<and> f x = Inr y)"
  by (cases r) auto

lemma andthen_eq_Inl: "andthen r f = Inl e \<longleftrightarrow> r = Inl e \<or> (\<exists>x. r = Inr x \<and> f x = Inl e)"
  by (cases r) auto

definition TYPE_NIL :: int where "TYPE_NIL = 0"
definition TYPE_BOOLEAN :: int where "TYPE_BOOLEAN = 1"
definition TYPE_NUMBER :: int where "TYPE_NUMBER = 2"
definition TYPE_NUMBER_ZERO :: int where "TYPE_NUMBER_ZERO = 0"
definition TYPE_NUMBER_BYTE :: int where "TYPE_NUMBER_BYTE = 1"
definition TYPE_NUMBER_WORD :: int where "TYPE_NUMBER_WORD = 2"
definition TYPE_NUMBER_DWORD :: int where "TYPE_NUMBER_DWORD = 4"
definition TYPE_NUMBER_QWORD :: int where "TYPE_NUMBER_QWORD = 6"
definition TYPE_NUMBER_REAL :: int where "TYPE_NUMBER_REAL = 8"
definition TYPE_USERDATA :: int where "TYPE_USERDATA = 3"
definition TYPE_SHORT_STRING :: int where "TYPE_SHORT_STRING = 4"
definition TYPE_LONG_STRING :: int where "TYPE_LONG_STRING = 5"
definition TYPE_TABLE :: int where "TYPE_TABLE = 6"
definition MAX_COOKIE :: int where "MAX_COOKIE = 32"
definition BLOCK_SIZE :: nat where "BLOCK_SIZE = 128"
definition MAX_DEPTH :: nat where "MAX_DEPTH = 32"

lemmas seri_consts = TYPE_NIL_def TYPE_BOOLEAN_def TYPE_NUMBER_def TYPE_NUMBER_ZERO_def TYPE_NUMBER_BYTE_def
  TYPE_NUMBER_WORD_def TYPE_NUMBER_DWORD_def TYPE_NUMBER_QWORD_def TYPE_NUMBER_REAL_def TYPE_USERDATA_def
  TYPE_SHORT_STRING_def TYPE_LONG_STRING_def TYPE_TABLE_def MAX_COOKIE_def

definition COMBINE_TYPE :: "int \<Rightarrow> int \<Rightarrow> u8" where
  "COMBINE_TYPE t v = word_of_int (t OR push_bit 3 v)"

text \<open>The \<open>k\<close> bytes of an integer in memory.\<close>

fun le_bytes :: "nat \<Rightarrow> int \<Rightarrow> u8 list" where
  "le_bytes 0 n = []"
| "le_bytes (Suc k) n = word_of_int n # le_bytes k (n div 256)"

fun le_value :: "u8 list \<Rightarrow> int" where
  "le_value [] = 0"
| "le_value (b # bs) = uint b + 256 * le_value bs"

section \<open>Writing\<close>

text \<open>The chain of blocks from \<open>head\<close>; \<open>current\<close> is its last one.\<close>

record write_block =
  wb_blocks :: "u8 option list list"
  wb_len :: u32
  wb_ptr :: nat

definition blk_alloc :: "u8 option list" where
  "blk_alloc = replicate BLOCK_SIZE None"

definition blk_write :: "u8 option list \<Rightarrow> nat \<Rightarrow> u8 list \<Rightarrow> u8 option list" where
  "blk_write blk p bs = take p blk @ map Some bs @ drop (p + length bs) blk"

definition wb_copy :: "write_block \<Rightarrow> u8 list \<Rightarrow> write_block" where
  "wb_copy b bs = b\<lparr>wb_blocks := butlast (wb_blocks b) @ [blk_write (last (wb_blocks b)) (wb_ptr b) bs],
     wb_len := wb_len b + of_nat (length bs)\<rparr>"

definition wb_again :: "write_block \<Rightarrow> write_block" where
  "wb_again b = b\<lparr>wb_blocks := wb_blocks b @ [blk_alloc], wb_ptr := 0\<rparr>"

function wb_fill :: "write_block \<Rightarrow> u8 list \<Rightarrow> write_block" where
  "wb_fill b buf =
     (if wb_ptr b + length buf \<le> BLOCK_SIZE
      then (wb_copy b buf)\<lparr>wb_ptr := wb_ptr b + length buf\<rparr>
      else let copy = BLOCK_SIZE - wb_ptr b
           in wb_fill (wb_again (wb_copy b (take copy buf))) (drop copy buf))"
  by pat_completeness auto
termination
  by (relation "measure (\<lambda>(b, buf). length buf + (if BLOCK_SIZE \<le> wb_ptr b then 1 else 0))")
    (auto simp: wb_again_def BLOCK_SIZE_def)

declare wb_fill.simps [simp del]

definition wb_push :: "write_block \<Rightarrow> u8 list \<Rightarrow> write_block" where
  "wb_push b buf = wb_fill (if wb_ptr b = BLOCK_SIZE then wb_again b else b) buf"

definition wb_init :: "u8 option list \<Rightarrow> write_block" where
  "wb_init b = \<lparr>wb_blocks = [b], wb_len = 0, wb_ptr = 0\<rparr>"

definition wb_nil :: "write_block \<Rightarrow> write_block" where
  "wb_nil wb = wb_push wb [word_of_int TYPE_NIL]"

definition wb_boolean :: "write_block \<Rightarrow> bool \<Rightarrow> write_block" where
  "wb_boolean wb b = wb_push wb [COMBINE_TYPE TYPE_BOOLEAN (if b then 1 else 0)]"

definition wb_integer :: "write_block \<Rightarrow> u64 \<Rightarrow> write_block" where
  "wb_integer wb v =
     (if v = 0 then wb_push wb [COMBINE_TYPE TYPE_NUMBER TYPE_NUMBER_ZERO]
      else if sint v \<noteq> sint (ucast v :: u32) then
        wb_push (wb_push wb [COMBINE_TYPE TYPE_NUMBER TYPE_NUMBER_QWORD]) (le_bytes 8 (uint v))
      else if sint v < 0 then
        wb_push (wb_push wb [COMBINE_TYPE TYPE_NUMBER TYPE_NUMBER_DWORD]) (le_bytes 4 (uint (ucast v :: u32)))
      else if sint v < 0x100 then
        wb_push (wb_push wb [COMBINE_TYPE TYPE_NUMBER TYPE_NUMBER_BYTE]) [ucast v]
      else if sint v < 0x10000 then
        wb_push (wb_push wb [COMBINE_TYPE TYPE_NUMBER TYPE_NUMBER_WORD]) (le_bytes 2 (uint (ucast v :: u16)))
      else
        wb_push (wb_push wb [COMBINE_TYPE TYPE_NUMBER TYPE_NUMBER_DWORD]) (le_bytes 4 (uint (ucast v :: u32))))"

definition wb_real :: "write_block \<Rightarrow> u64 \<Rightarrow> write_block" where
  "wb_real wb v = wb_push (wb_push wb [COMBINE_TYPE TYPE_NUMBER TYPE_NUMBER_REAL]) (le_bytes 8 (uint v))"

definition wb_pointer :: "write_block \<Rightarrow> u64 \<Rightarrow> write_block" where
  "wb_pointer wb v = wb_push (wb_push wb [word_of_int TYPE_USERDATA]) (le_bytes 8 (uint v))"

text \<open>The length of the string is converted to an \<open>int\<close> by the caller.\<close>

definition wb_string :: "write_block \<Rightarrow> u8 list \<Rightarrow> int \<Rightarrow> write_block" where
  "wb_string wb str len =
     (if len < MAX_COOKIE then
        let wb = wb_push wb [COMBINE_TYPE TYPE_SHORT_STRING len]
        in if 0 < len then wb_push wb (take (nat len) str) else wb
      else
        let wb =
          (if len < 0x10000
           then wb_push (wb_push wb [COMBINE_TYPE TYPE_LONG_STRING 2]) (le_bytes 2 (uint (word_of_int len :: u16)))
           else wb_push (wb_push wb [COMBINE_TYPE TYPE_LONG_STRING 4]) (le_bytes 4 (uint (word_of_int len :: u32))))
        in wb_push wb (take (nat len) str))"

text \<open>
  The functions for tables call \<open>pack_one\<close> for every element; it is their first argument, at the depth they
  were called with.
\<close>

type_synonym packer = "write_block \<Rightarrow> lua_value \<Rightarrow> seri_error + write_block"

function wb_array_loop :: "packer \<Rightarrow> write_block \<Rightarrow> lua_table \<Rightarrow> int \<Rightarrow> int \<Rightarrow> seri_error + write_block" where
  "wb_array_loop pack wb t i array_size =
     (if i \<le> array_size
      then andthen (pack wb (lua_rawgeti t i)) (\<lambda>wb. wb_array_loop pack wb t (i + 1) array_size)
      else Inr wb)"
  by pat_completeness auto
termination
  by (relation "measure (\<lambda>(pack, wb, t, i, n). nat (n + 1 - i))") auto

declare wb_array_loop.simps [simp del]

definition wb_table_array :: "packer \<Rightarrow> write_block \<Rightarrow> lua_table \<Rightarrow> seri_error + write_block \<times> int" where
  "wb_table_array pack wb t =
     (let array_size = sint (of_nat (tb_rawlen t) :: u32);
          wb = (if MAX_COOKIE - 1 \<le> array_size
                then wb_integer (wb_push wb [COMBINE_TYPE TYPE_TABLE (MAX_COOKIE - 1)]) (word_of_int array_size)
                else wb_push wb [COMBINE_TYPE TYPE_TABLE array_size])
      in andthen (wb_array_loop pack wb t 1 array_size) (\<lambda>wb. Inr (wb, array_size)))"

definition in_array :: "lua_value \<Rightarrow> int \<Rightarrow> bool" where
  "in_array k array_size = (case k of LInteger x \<Rightarrow> 0 < sint x \<and> sint x \<le> array_size | _ \<Rightarrow> False)"

fun wb_hash_loop :: "packer \<Rightarrow> write_block \<Rightarrow> (lua_value \<times> lua_value) list \<Rightarrow> int \<Rightarrow> seri_error + write_block" where
  "wb_hash_loop pack wb [] array_size = Inr (wb_nil wb)"
| "wb_hash_loop pack wb ((k, v) # ps) array_size =
     (if in_array k array_size then wb_hash_loop pack wb ps array_size
      else andthen (pack wb k) (\<lambda>wb. andthen (pack wb v) (\<lambda>wb. wb_hash_loop pack wb ps array_size)))"

definition wb_table_hash :: "packer \<Rightarrow> write_block \<Rightarrow> lua_table \<Rightarrow> int \<Rightarrow> seri_error + write_block" where
  "wb_table_hash pack wb t array_size = wb_hash_loop pack wb (tb_pairs t) array_size"

fun wb_metapairs_loop :: "packer \<Rightarrow> write_block \<Rightarrow> (lua_value \<times> lua_value) list \<Rightarrow> seri_error + write_block" where
  "wb_metapairs_loop pack wb [] = Inr (wb_nil wb)"
| "wb_metapairs_loop pack wb ((k, v) # ps) =
     andthen (pack wb k) (\<lambda>wb. andthen (pack wb v) (\<lambda>wb. wb_metapairs_loop pack wb ps))"

definition wb_table_metapairs ::
  "packer \<Rightarrow> write_block \<Rightarrow> (lua_value \<times> lua_value) list \<Rightarrow> seri_error + write_block" where
  "wb_table_metapairs pack wb ps = wb_metapairs_loop pack (wb_push wb [COMBINE_TYPE TYPE_TABLE 0]) ps"

definition wb_table :: "packer \<Rightarrow> write_block \<Rightarrow> lua_table \<Rightarrow> seri_error + write_block" where
  "wb_table pack wb t = (case tb_metapairs t of
     Some ps \<Rightarrow> wb_table_metapairs pack wb ps
   | None \<Rightarrow> andthen (wb_table_array pack wb t) (\<lambda>(wb, array_size). wb_table_hash pack wb t array_size))"

function pack_one :: "lua_heap \<Rightarrow> write_block \<Rightarrow> lua_value \<Rightarrow> nat \<Rightarrow> seri_error + write_block" where
  "pack_one H b v depth =
     (if MAX_DEPTH < depth then Inl Too_depth
      else case v of
        LNil \<Rightarrow> Inr (wb_nil b)
      | LInteger x \<Rightarrow> Inr (wb_integer b x)
      | LNumber n \<Rightarrow> Inr (wb_real b n)
      | LBoolean x \<Rightarrow> Inr (wb_boolean b x)
      | LString str \<Rightarrow> Inr (wb_string b str (sint (of_nat (length str) :: u32)))
      | LLightuserdata p \<Rightarrow> Inr (wb_pointer b p)
      | LTable a \<Rightarrow> wb_table (\<lambda>b v. pack_one H b v (depth + 1)) b (H a)
      | LOther ty \<Rightarrow> Inl (Unsupport_type ty))"
  by pat_completeness auto
termination
  by (relation "measure (\<lambda>(H, b, v, depth). 33 - depth)") (auto simp: MAX_DEPTH_def)

declare pack_one.simps [simp del]

fun pack_from :: "lua_heap \<Rightarrow> write_block \<Rightarrow> lua_value list \<Rightarrow> seri_error + write_block" where
  "pack_from H b [] = Inr b"
| "pack_from H b (v # vs) = andthen (pack_one H b v 0) (\<lambda>b. pack_from H b vs)"

text \<open>The bytes in the first \<open>len\<close> positions of the chain, and \<open>None\<close> when one of them was never written.\<close>

fun seri_copy :: "u8 option list list \<Rightarrow> int \<Rightarrow> u8 option list" where
  "seri_copy bs len =
     (if len \<le> 0 then []
      else case bs of
        [] \<Rightarrow> [None]
      | b # bs \<Rightarrow> if int BLOCK_SIZE \<le> len then take BLOCK_SIZE b @ seri_copy bs (len - int BLOCK_SIZE)
                  else take (nat len) b)"

declare seri_copy.simps [simp del]

definition seri :: "u8 option list list \<Rightarrow> int \<Rightarrow> (u8 list \<times> int) option" where
  "seri bs len = (let xs = seri_copy bs len in if None \<in> set xs then None else Some (map the xs, len))"

text \<open>The buffer and its size; \<open>None\<close> inside is a read of a byte that was never written.\<close>

definition luaseri_pack :: "lua_heap \<Rightarrow> lua_value list \<Rightarrow> seri_error + (u8 list \<times> int) option" where
  "luaseri_pack H args =
     andthen (pack_from H (wb_init blk_alloc) args) (\<lambda>wb. Inr (seri (wb_blocks wb) (sint (wb_len wb))))"

section \<open>Reading\<close>

record read_block =
  rb_buffer :: "u8 list"
  rb_len :: int
  rb_ptr :: int

definition rball_init :: "u8 list \<Rightarrow> int \<Rightarrow> read_block" where
  "rball_init buffer n = \<lparr>rb_buffer = buffer, rb_len = n, rb_ptr = 0\<rparr>"

text \<open>The position of the bytes that were read, or \<open>None\<close> for \<open>NULL\<close>. A negative size steps back.\<close>

definition rb_read :: "read_block \<Rightarrow> int \<Rightarrow> (read_block \<times> int) option" where
  "rb_read rb sz =
     (if rb_len rb < sz then None
      else Some (rb\<lparr>rb_ptr := rb_ptr rb + sz, rb_len := rb_len rb - sz\<rparr>, rb_ptr rb))"

definition buffer_at :: "read_block \<Rightarrow> int \<Rightarrow> int \<Rightarrow> seri_error + u8 list" where
  "buffer_at rb p n =
     (if 0 \<le> p \<and> 0 \<le> n \<and> p + n \<le> int (length (rb_buffer rb))
      then Inr (take (nat n) (drop (nat p) (rb_buffer rb))) else Inl Outside)"

text \<open>The step that most functions share: read \<open>sz\<close> bytes or raise an error.\<close>

definition rb_bytes :: "read_block \<Rightarrow> int \<Rightarrow> seri_error + read_block \<times> u8 list" where
  "rb_bytes rb sz = (case rb_read rb sz of
     None \<Rightarrow> Inl (Invalid_stream (rb_len rb))
   | Some (rb', p) \<Rightarrow> andthen (buffer_at rb p sz) (\<lambda>bs. Inr (rb', bs)))"

definition get_integer :: "read_block \<Rightarrow> int \<Rightarrow> seri_error + read_block \<times> u64" where
  "get_integer rb cookie =
     (if cookie = TYPE_NUMBER_ZERO then Inr (rb, 0)
      else if cookie = TYPE_NUMBER_BYTE then
        andthen (rb_bytes rb 1) (\<lambda>(rb, bs). Inr (rb, word_of_int (le_value bs)))
      else if cookie = TYPE_NUMBER_WORD then
        andthen (rb_bytes rb 2) (\<lambda>(rb, bs). Inr (rb, word_of_int (le_value bs)))
      else if cookie = TYPE_NUMBER_DWORD then
        andthen (rb_bytes rb 4) (\<lambda>(rb, bs). Inr (rb, scast (word_of_int (le_value bs) :: u32)))
      else if cookie = TYPE_NUMBER_QWORD then
        andthen (rb_bytes rb 8) (\<lambda>(rb, bs). Inr (rb, word_of_int (le_value bs)))
      else Inl (Invalid_stream (rb_len rb)))"

definition get_real :: "read_block \<Rightarrow> seri_error + read_block \<times> u64" where
  "get_real rb = andthen (rb_bytes rb 8) (\<lambda>(rb, bs). Inr (rb, word_of_int (le_value bs)))"

definition get_pointer :: "read_block \<Rightarrow> seri_error + read_block \<times> u64" where
  "get_pointer rb = andthen (rb_bytes rb 8) (\<lambda>(rb, bs). Inr (rb, word_of_int (le_value bs)))"

text \<open>
  A negative length is no error for \<open>rb_read\<close>; \<open>lua_pushlstring\<close> gets it as a \<open>size_t\<close> and raises the
  error of a block that is too big.
\<close>

definition get_buffer :: "read_block \<Rightarrow> int \<Rightarrow> seri_error + read_block \<times> u8 list" where
  "get_buffer rb len = (case rb_read rb len of
     None \<Rightarrow> Inl (Invalid_stream (rb_len rb))
   | Some (rb', p) \<Rightarrow>
       if len < 0 then Inl Block_too_big
       else andthen (buffer_at rb p len) (\<lambda>bs. Inr (rb', bs)))"

text \<open>
  \<open>lua_rawset\<close> and \<open>lua_rawseti\<close> on a table that is being built. Two tables are never the same key,
  as each was just made.
\<close>

definition raw_equal :: "fresh_value \<Rightarrow> fresh_value \<Rightarrow> bool" where
  "raw_equal k k' \<longleftrightarrow> k = k' \<and> (case k of LTable t \<Rightarrow> False | _ \<Rightarrow> True)"

definition raw_key :: "fresh_value \<Rightarrow> seri_error + fresh_value" where
  "raw_key k = (case k of
     LNil \<Rightarrow> Inl Index_is_nil
   | LNumber b \<Rightarrow>
       if double_is_nan b then Inl Index_is_nan
       else (case double_to_integer b of None \<Rightarrow> Inr k | Some i \<Rightarrow> Inr (LInteger i))
   | _ \<Rightarrow> Inr k)"

type_synonym fresh_pairs = "(fresh_value \<times> fresh_value) list"

fun pairs_set :: "fresh_pairs \<Rightarrow> fresh_value \<Rightarrow> fresh_value \<Rightarrow> fresh_pairs" where
  "pairs_set [] k v = (if v = LNil then [] else [(k, v)])"
| "pairs_set ((k', v') # ps) k v =
     (if raw_equal k' k then (if v = LNil then ps else (k, v) # ps) else (k', v') # pairs_set ps k v)"

definition lua_rawset :: "fresh_pairs \<Rightarrow> fresh_value \<Rightarrow> fresh_value \<Rightarrow> seri_error + fresh_pairs" where
  "lua_rawset t k v = andthen (raw_key k) (\<lambda>k. Inr (pairs_set t k v))"

text \<open>The first argument of the functions for tables is \<open>unpack_one\<close>.\<close>

type_synonym unpacker = "read_block \<Rightarrow> seri_error + read_block \<times> fresh_value"

function unpack_array :: "unpacker \<Rightarrow> read_block \<Rightarrow> fresh_pairs \<Rightarrow> int \<Rightarrow> int \<Rightarrow> seri_error + read_block \<times> fresh_pairs" where
  "unpack_array unpack rb t i array_size =
     (if i \<le> array_size
      then andthen (unpack rb) (\<lambda>(rb, v).
             unpack_array unpack rb (pairs_set t (LInteger (word_of_int i)) v) (i + 1) array_size)
      else Inr (rb, t))"
  by pat_completeness auto
termination
  by (relation "measure (\<lambda>(unpack, rb, t, i, n). nat (n + 1 - i))") auto

declare unpack_array.simps [simp del]

primrec unpack_hash :: "nat \<Rightarrow> unpacker \<Rightarrow> read_block \<Rightarrow> fresh_pairs \<Rightarrow> seri_error + read_block \<times> fresh_pairs" where
  "unpack_hash 0 unpack rb t = Inl Out_of_fuel"
| "unpack_hash (Suc fuel) unpack rb t =
     andthen (unpack rb) (\<lambda>(rb, k).
       if k = LNil then Inr (rb, t)
       else andthen (unpack rb) (\<lambda>(rb, v).
         andthen (lua_rawset t k v) (\<lambda>t. unpack_hash fuel unpack rb t)))"

definition table_size :: "read_block \<Rightarrow> int \<Rightarrow> seri_error + read_block \<times> int" where
  "table_size rb array_size =
     (if array_size = MAX_COOKIE - 1 then
        andthen (rb_bytes rb 1) (\<lambda>(rb, bs).
          let type = le_value bs; cookie = type div 8 in
          if type mod 8 \<noteq> TYPE_NUMBER \<or> cookie = TYPE_NUMBER_REAL then Inl (Invalid_stream (rb_len rb))
          else andthen (get_integer rb cookie) (\<lambda>(rb, n). Inr (rb, sint (ucast n :: u32))))
      else Inr (rb, array_size))"

definition unpack_table :: "nat \<Rightarrow> unpacker \<Rightarrow> read_block \<Rightarrow> int \<Rightarrow> seri_error + read_block \<times> fresh_value" where
  "unpack_table fuel unpack rb array_size =
     andthen (table_size rb array_size) (\<lambda>(rb, array_size).
     andthen (unpack_array unpack rb [] 1 array_size) (\<lambda>(rb, t).
     andthen (unpack_hash fuel unpack rb t) (\<lambda>(rb, t). Inr (rb, LTable (LTree t)))))"

definition push_value :: "nat \<Rightarrow> unpacker \<Rightarrow> read_block \<Rightarrow> int \<Rightarrow> int \<Rightarrow> seri_error + read_block \<times> fresh_value" where
  "push_value fuel unpack rb type cookie =
     (if type = TYPE_NIL then Inr (rb, LNil)
      else if type = TYPE_BOOLEAN then Inr (rb, LBoolean (cookie \<noteq> 0))
      else if type = TYPE_NUMBER then
        if cookie = TYPE_NUMBER_REAL
        then andthen (get_real rb) (\<lambda>(rb, n). Inr (rb, LNumber n))
        else andthen (get_integer rb cookie) (\<lambda>(rb, i). Inr (rb, LInteger i))
      else if type = TYPE_USERDATA then andthen (get_pointer rb) (\<lambda>(rb, p). Inr (rb, LLightuserdata p))
      else if type = TYPE_SHORT_STRING then andthen (get_buffer rb cookie) (\<lambda>(rb, s). Inr (rb, LString s))
      else if type = TYPE_LONG_STRING then
        if cookie = 2 then
          andthen (rb_bytes rb 2) (\<lambda>(rb, bs).
          andthen (get_buffer rb (le_value bs)) (\<lambda>(rb, s). Inr (rb, LString s)))
        else if cookie \<noteq> 4 then Inl (Invalid_stream (rb_len rb))
        else
          andthen (rb_bytes rb 4) (\<lambda>(rb, bs).
          andthen (get_buffer rb (sint (word_of_int (le_value bs) :: u32))) (\<lambda>(rb, s). Inr (rb, LString s)))
      else if type = TYPE_TABLE then unpack_table fuel unpack rb cookie
      else Inl (Invalid_stream (rb_len rb)))"

primrec unpack_one :: "nat \<Rightarrow> unpacker" where
  "unpack_one 0 = (\<lambda>rb. Inl Out_of_fuel)"
| "unpack_one (Suc fuel) = (\<lambda>rb.
     andthen (rb_bytes rb 1) (\<lambda>(rb, bs).
       push_value fuel (unpack_one fuel) rb (le_value bs mod 8) (le_value bs div 8)))"

text \<open>The values on the stack of Lua; the end of the buffer after a value ends the loop.\<close>

primrec unpack_loop :: "nat \<Rightarrow> nat \<Rightarrow> read_block \<Rightarrow> seri_error + fresh_value list" where
  "unpack_loop 0 fuel rb = Inl Out_of_fuel"
| "unpack_loop (Suc n) fuel rb = (case rb_read rb 1 of
     None \<Rightarrow> Inr []
   | Some (rb', p) \<Rightarrow>
       andthen (buffer_at rb p 1) (\<lambda>bs.
       andthen (push_value fuel (unpack_one fuel) rb' (le_value bs mod 8) (le_value bs div 8)) (\<lambda>(rb, v).
       andthen (unpack_loop n fuel rb) (\<lambda>vs. Inr (v # vs)))))"

text \<open>
  The first argument from Lua: nothing, a string, or a pointer (\<open>None\<close> is \<open>NULL\<close>) with a length. The
  fuel is more than the bytes there are.
\<close>

datatype unpack_arg = Arg_none | Arg_string "u8 list" | Arg_buffer "u8 list option" int

definition unpack_buffer :: "u8 list option \<Rightarrow> int \<Rightarrow> seri_error + fresh_value list" where
  "unpack_buffer buffer len =
     (if len = 0 then Inr []
      else case buffer of
        None \<Rightarrow> Inl Null_pointer
      | Some bs \<Rightarrow> let fuel = nat len + 1 in unpack_loop fuel fuel (rball_init bs len))"

definition luaseri_unpack :: "unpack_arg \<Rightarrow> seri_error + fresh_value list" where
  "luaseri_unpack arg = (case arg of
     Arg_none \<Rightarrow> Inr []
   | Arg_string s \<Rightarrow> unpack_buffer (Some s) (sint (of_nat (length s) :: u32))
   | Arg_buffer buffer len \<Rightarrow> unpack_buffer buffer len)"

end
