(* ===== verification/Seri_Roundtrip.thy ===== *)
theory Seri_Roundtrip
  imports Seri
begin

text \<open>
  What \<^verbatim>\<open>lua-seri.c\<close> guarantees: the chain of blocks holds the bytes written and nothing else is read, every stream
  that was packed is unpacked to copies of the values, an arbitrary stream is read inside of its buffer and to an
  end, and tables that are too deep or contain themselves are refused.
\<close>

section \<open>Numbers\<close>

lemma sint_of_int_32: "- (2 ^ 31) \<le> i \<Longrightarrow> i < 2 ^ 31 \<Longrightarrow> sint (word_of_int i :: u32) = i"
  by (simp add: signed_of_int signed_take_bit_int_eq_self)

lemma sint_of_nat_32: "n < 2 ^ 31 \<Longrightarrow> sint (of_nat n :: u32) = int n"
  by (simp add: signed_of_nat signed_take_bit_int_eq_self)

lemma uint_sint: "0 \<le> sint (v :: u64) \<Longrightarrow> uint v = sint v"
proof -
  assume "0 \<le> sint v"
  moreover have "sint v < 2 ^ 63" using sint_lt[of v] by simp
  moreover have "uint v = sint v mod 2 ^ 64" using uint_word_of_int[of "sint v", where 'a = 64] by simp
  ultimately show ?thesis by simp
qed

lemma word_of_int_uint_ucast:
  assumes "uint (v :: u64) < 2 ^ LENGTH('a)"
  shows "word_of_int (uint (ucast v :: 'a::len word)) = v"
  using assms by (simp add: unsigned_ucast_eq take_bit_int_eq_self)

lemma scast_ucast_sint:
  assumes "sint (v :: u64) = sint (ucast v :: u32)"
  shows "scast (ucast v :: u32) = v"
proof -
  have "scast (ucast v :: u32) = (word_of_int (sint (ucast v :: u32)) :: u64)" by simp
  also have "\<dots> = v" using assms[symmetric] by simp
  finally show ?thesis .
qed

lemma length_le_bytes [simp]: "length (le_bytes k n) = k"
  by (induction k arbitrary: n) auto

lemma le_value_bytes: "le_value (le_bytes k n) = n mod 256 ^ k"
proof (induction k arbitrary: n)
  case (Suc k)
  have "n mod (256 * 256 ^ k) = 256 * (n div 256 mod 256 ^ k) + n mod 256"
    by (rule zmod_zmult2_eq) simp
  moreover have "uint (word_of_int n :: u8) = n mod 256" by (simp add: uint_word_of_int)
  ultimately show ?case using Suc by simp
qed simp

lemma le_value_bytes_self: "0 \<le> n \<Longrightarrow> n < 256 ^ k \<Longrightarrow> le_value (le_bytes k n) = n"
  by (simp add: le_value_bytes)

lemma le_value_bounds: "0 \<le> le_value bs \<and> le_value bs < 256 ^ length bs"
proof (induction bs)
  case (Cons b bs)
  have "0 \<le> uint b \<and> uint b < 256" using uint_lt2p[of b] by simp
  then show ?case using Cons by simp
qed simp

lemma uint_COMBINE_TYPE:
  assumes "0 \<le> t" "t < 8" "0 \<le> c" "c < 32"
  shows "uint (COMBINE_TYPE t c) = t + 8 * c"
proof -
  have "take_bit 3 t = t" using assms by (simp add: take_bit_int_eq_self)
  then have "\<not> bit t n \<or> \<not> bit (push_bit 3 c) n" for n
    by (metis bit_push_bit_iff bit_take_bit_iff not_le)
  then have "t OR push_bit 3 c = t + push_bit 3 c" by (simp add: disjunctive_add)
  also have "\<dots> = t + 8 * c" by (simp add: push_bit_eq_mult)
  finally have "COMBINE_TYPE t c = word_of_int (t + 8 * c)" by (simp only: COMBINE_TYPE_def)
  moreover have "uint (word_of_int (t + 8 * c) :: u8) = (t + 8 * c) mod 256" by (simp only: uint_word_of_int) simp
  ultimately show ?thesis using assms by simp
qed

lemma type_byte:
  assumes "0 \<le> t" "t < 8" "0 \<le> c" "c < 32"
  shows "le_value [COMBINE_TYPE t c] mod 8 = t" "le_value [COMBINE_TYPE t c] div 8 = c"
  using assms by (simp_all add: uint_COMBINE_TYPE)

section \<open>The chain of blocks\<close>

definition wb_rep :: "write_block \<Rightarrow> u8 list \<Rightarrow> bool" where
  "wb_rep wb bs \<longleftrightarrow>
     (\<exists>xs l. wb_blocks wb = xs @ [l] \<and> (\<forall>b \<in> set xs. length b = BLOCK_SIZE) \<and> length l = BLOCK_SIZE \<and>
        wb_ptr wb \<le> BLOCK_SIZE \<and> concat xs @ take (wb_ptr wb) l = map Some bs \<and> wb_len wb = of_nat (length bs))"

lemma wb_init_rep: "wb_rep (wb_init blk_alloc) []"
  by (simp add: wb_rep_def wb_init_def blk_alloc_def)

lemma wb_copy_rep:
  assumes "wb_rep wb bs" "wb_ptr wb + length x \<le> BLOCK_SIZE"
  shows "wb_rep ((wb_copy wb x)\<lparr>wb_ptr := wb_ptr wb + length x\<rparr>) (bs @ x)"
proof -
  obtain xs l where r: "wb_blocks wb = xs @ [l]" "\<forall>b \<in> set xs. length b = BLOCK_SIZE" "length l = BLOCK_SIZE"
    "concat xs @ take (wb_ptr wb) l = map Some bs" "wb_len wb = of_nat (length bs)"
    using assms(1) by (auto simp: wb_rep_def)
  let ?l = "blk_write l (wb_ptr wb) x"
  have "length ?l = BLOCK_SIZE" using r(3) assms(2) by (simp add: blk_write_def)
  moreover have "take (wb_ptr wb + length x) ?l = take (wb_ptr wb) l @ map Some x"
    using r(3) assms(2) by (simp add: blk_write_def)
  moreover have "concat xs @ take (wb_ptr wb) l @ map Some x = map Some (bs @ x)" using r(4) by (metis append_assoc map_append)
  ultimately show ?thesis using r assms(2) unfolding wb_rep_def
    by (intro exI[of _ xs] exI[of _ ?l]) (simp add: wb_copy_def)
qed

lemma wb_again_rep:
  assumes "wb_rep wb bs" "wb_ptr wb = BLOCK_SIZE"
  shows "wb_rep (wb_again wb) bs"
proof -
  obtain xs l where r: "wb_blocks wb = xs @ [l]" "\<forall>b \<in> set xs. length b = BLOCK_SIZE" "length l = BLOCK_SIZE"
    "concat xs @ take (wb_ptr wb) l = map Some bs" "wb_len wb = of_nat (length bs)"
    using assms(1) by (auto simp: wb_rep_def)
  then have "concat (xs @ [l]) = map Some bs" using assms(2) by simp
  then show ?thesis using r unfolding wb_rep_def
    by (intro exI[of _ "xs @ [l]"] exI[of _ blk_alloc]) (auto simp: wb_again_def blk_alloc_def)
qed

lemma wb_fill_rep: "wb_rep wb bs \<Longrightarrow> wb_rep (wb_fill wb x) (bs @ x)"
proof (induction wb x arbitrary: bs rule: wb_fill.induct)
  case (1 wb x)
  show ?case
  proof (cases "wb_ptr wb + length x \<le> BLOCK_SIZE")
    case True
    then show ?thesis using wb_copy_rep[OF "1.prems" True] by (simp add: wb_fill.simps[of wb x])
  next
    case False
    let ?n = "BLOCK_SIZE - wb_ptr wb"
    have n: "wb_ptr wb \<le> BLOCK_SIZE" using "1.prems" by (auto simp: wb_rep_def)
    have len: "length (take ?n x) = ?n" using False by simp
    have "wb_rep ((wb_copy wb (take ?n x))\<lparr>wb_ptr := BLOCK_SIZE\<rparr>) (bs @ take ?n x)"
      using wb_copy_rep[OF "1.prems", of "take ?n x"] n len by simp
    then have "wb_rep (wb_again (wb_copy wb (take ?n x))) (bs @ take ?n x)"
      using wb_again_rep[of "(wb_copy wb (take ?n x))\<lparr>wb_ptr := BLOCK_SIZE\<rparr>"] by (simp add: wb_again_def)
    then have "wb_rep (wb_fill (wb_again (wb_copy wb (take ?n x))) (drop ?n x)) ((bs @ take ?n x) @ drop ?n x)"
      using "1.IH"[OF False refl] by blast
    then show ?thesis using False by (simp add: wb_fill.simps[of wb x] Let_def)
  qed
qed

lemma wb_push_rep: "wb_rep wb bs \<Longrightarrow> wb_rep (wb_push wb x) (bs @ x)"
  using wb_again_rep wb_fill_rep by (simp add: wb_push_def)

lemma wb_rep_length: "wb_rep wb bs \<Longrightarrow> length bs \<le> length (concat (wb_blocks wb))"
proof -
  assume "wb_rep wb bs"
  then obtain xs l where "wb_blocks wb = xs @ [l]" "concat xs @ take (wb_ptr wb) l = map Some bs" by (auto simp: wb_rep_def)
  moreover have "length (concat xs @ take (wb_ptr wb) l) \<le> length (concat (xs @ [l]))" by simp
  ultimately show ?thesis by (metis length_map)
qed

lemma seri_copy_chain:
  assumes "\<forall>b \<in> set xs. length b = BLOCK_SIZE" "length l = BLOCK_SIZE" "p \<le> BLOCK_SIZE"
  shows "seri_copy (xs @ [l]) (int (BLOCK_SIZE * length xs + p)) = concat xs @ take p l"
  using assms
proof (induction xs)
  case Nil
  then show ?case by (cases "p = BLOCK_SIZE") (auto simp: seri_copy.simps BLOCK_SIZE_def)
next
  case (Cons b xs)
  have "seri_copy (b # xs @ [l]) (int (BLOCK_SIZE * length (b # xs) + p))
      = take BLOCK_SIZE b @ seri_copy (xs @ [l]) (int (BLOCK_SIZE * length (b # xs) + p) - int BLOCK_SIZE)"
    by (subst seri_copy.simps) (simp add: BLOCK_SIZE_def)
  moreover have "int (BLOCK_SIZE * length (b # xs) + p) - int BLOCK_SIZE = int (BLOCK_SIZE * length xs + p)" by simp
  ultimately show ?case using Cons by simp
qed

lemma seri_ok:
  assumes "wb_rep wb bs" "length bs < 2 ^ 31"
  shows "seri (wb_blocks wb) (sint (wb_len wb)) = Some (bs, int (length bs))"
proof -
  obtain xs l where r: "wb_blocks wb = xs @ [l]" "\<forall>b \<in> set xs. length b = BLOCK_SIZE" "length l = BLOCK_SIZE"
    "wb_ptr wb \<le> BLOCK_SIZE" "concat xs @ take (wb_ptr wb) l = map Some bs" "wb_len wb = of_nat (length bs)"
    using assms(1) by (auto simp: wb_rep_def)
  have "length (concat xs) = BLOCK_SIZE * length xs" using r(2) by (induction xs) auto
  then have "length bs = BLOCK_SIZE * length xs + wb_ptr wb"
    using arg_cong[OF r(5), of length] r(3,4) by simp
  then have "seri_copy (wb_blocks wb) (int (length bs)) = map Some bs"
    using seri_copy_chain[OF r(2,3,4)] r(1,5) by simp
  moreover have "sint (wb_len wb) = int (length bs)"
    using sint_of_nat_32[OF assms(2)] by (simp add: r(6))
  ultimately show ?thesis by (simp add: seri_def Let_def comp_def)
qed

section \<open>Reading what is there\<close>

definition rb_has :: "read_block \<Rightarrow> u8 list \<Rightarrow> bool" where
  "rb_has rb bs \<longleftrightarrow> 0 \<le> rb_ptr rb \<and> int (length bs) \<le> rb_len rb \<and>
     rb_ptr rb + int (length bs) \<le> int (length (rb_buffer rb)) \<and>
     take (length bs) (drop (nat (rb_ptr rb)) (rb_buffer rb)) = bs"

definition rb_skip :: "read_block \<Rightarrow> nat \<Rightarrow> read_block" where
  "rb_skip rb n = rb\<lparr>rb_ptr := rb_ptr rb + int n, rb_len := rb_len rb - int n\<rparr>"

lemma rb_skip_0 [simp]: "rb_skip rb 0 = rb"
  by (simp add: rb_skip_def)

lemma rb_skip_skip [simp]: "rb_skip (rb_skip rb m) n = rb_skip rb (m + n)"
  by (simp add: rb_skip_def algebra_simps)

lemma rb_has_append:
  assumes "rb_has rb (a @ b)"
  shows "rb_has rb a" "rb_has (rb_skip rb (length a)) b"
proof -
  let ?d = "drop (nat (rb_ptr rb)) (rb_buffer rb)"
  have t: "take (length a + length b) ?d = a @ b" using assms by (simp add: rb_has_def)
  have "take (length a) ?d = take (length a) (a @ b)" unfolding t[symmetric] by simp
  moreover have "take (length b) (drop (length a) ?d) = drop (length a) (a @ b)"
    unfolding t[symmetric] by (simp add: drop_take)
  moreover have "nat (rb_ptr rb + int (length a)) = length a + nat (rb_ptr rb)" if "0 \<le> rb_ptr rb"
    using that by simp
  ultimately show "rb_has rb a" "rb_has (rb_skip rb (length a)) b"
    using assms by (auto simp: rb_has_def rb_skip_def)
qed

lemma rb_has_Cons:
  assumes "rb_has rb (x # b)"
  shows "rb_has rb [x]" "rb_has (rb_skip rb 1) b"
  using rb_has_append[of rb "[x]" b] assms by simp_all

lemma rb_bytes_has:
  assumes "rb_has rb a" "int (length a) = sz"
  shows "rb_bytes rb sz = Inr (rb_skip rb (length a), a)"
proof -
  have "nat sz = length a" using assms(2) by simp
  then show ?thesis using assms by (auto simp: rb_bytes_def rb_read_def buffer_at_def rb_has_def rb_skip_def)
qed

lemma get_buffer_has:
  assumes "rb_has rb a" "int (length a) = len"
  shows "get_buffer rb len = Inr (rb_skip rb (length a), a)"
proof -
  have "nat len = length a" using assms(2) by simp
  then show ?thesis using assms by (auto simp: get_buffer_def rb_read_def buffer_at_def rb_has_def rb_skip_def)
qed

lemma unpack_one_type:
  assumes "rb_has rb (COMBINE_TYPE t c # b)" "0 \<le> t" "t < 8" "0 \<le> c" "c < 32"
  shows "unpack_one (Suc f) rb = push_value f (unpack_one f) (rb_skip rb 1) t c"
  using rb_bytes_has[OF rb_has_Cons(1)[OF assms(1)]] type_byte[OF assms(2-)] by simp

lemma wb_integer_rep:
  assumes "wb_rep wb bs"
  shows "\<exists>c out. wb_rep (wb_integer wb v) (bs @ COMBINE_TYPE TYPE_NUMBER c # out) \<and>
    c \<in> {0, 1, 2, 4, 6} \<and> (\<forall>rb. rb_has rb out \<longrightarrow> get_integer rb c = Inr (rb_skip rb (length out), v))"
proof -
  note push = wb_push_rep[OF assms]
  have push2: "wb_rep (wb_push (wb_push wb [x]) y) (bs @ x # y)" for x y
    using wb_push_rep[OF push[of "[x]"], of y] by simp
  have u: "0 \<le> uint x \<and> uint x < 2 ^ LENGTH('a)" for x :: "'a::len word" by simp
  consider "v = 0" | "v \<noteq> 0" "sint v \<noteq> sint (ucast v :: u32)"
    | "v \<noteq> 0" "sint v = sint (ucast v :: u32)" "sint v < 0"
    | "v \<noteq> 0" "sint v = sint (ucast v :: u32)" "0 \<le> sint v" "sint v < 0x100"
    | "v \<noteq> 0" "sint v = sint (ucast v :: u32)" "0x100 \<le> sint v" "sint v < 0x10000"
    | "v \<noteq> 0" "sint v = sint (ucast v :: u32)" "0x10000 \<le> sint v"
    by linarith
  then show ?thesis
  proof cases
    case 1
    then show ?thesis using push
      by (intro exI[of _ 0] exI[of _ "[]"]) (simp add: wb_integer_def get_integer_def seri_consts)
  next
    case 2
    then show ?thesis using push2 u[of v]
      by (intro exI[of _ 6] exI[of _ "le_bytes 8 (uint v)"])
        (simp add: wb_integer_def get_integer_def seri_consts rb_bytes_has le_value_bytes_self)
  next
    case 3
    let ?w = "ucast v :: u32"
    have "scast ?w = v" using 3(2) by (rule scast_ucast_sint)
    then show ?thesis using 3 push2 u[of ?w]
      by (intro exI[of _ 4] exI[of _ "le_bytes 4 (uint ?w)"])
        (simp add: wb_integer_def get_integer_def seri_consts rb_bytes_has le_value_bytes_self)
  next
    case 4
    have uv: "uint v = sint v" using 4 by (simp add: uint_sint)
    then have "word_of_int (uint (ucast v :: u8)) = v" using 4 by (intro word_of_int_uint_ucast) simp
    then show ?thesis using 4 push2[of _ "[ucast v]"]
      by (intro exI[of _ 1] exI[of _ "[ucast v]"])
        (simp add: wb_integer_def get_integer_def seri_consts rb_bytes_has)
  next
    case 5
    let ?w = "ucast v :: u16"
    have uv: "uint v = sint v" using 5 by (simp add: uint_sint)
    then have "word_of_int (uint ?w) = v" using 5 by (intro word_of_int_uint_ucast) simp
    then show ?thesis using 5 push2 u[of ?w]
      by (intro exI[of _ 2] exI[of _ "le_bytes 2 (uint ?w)"])
        (simp add: wb_integer_def get_integer_def seri_consts rb_bytes_has le_value_bytes_self)
  next
    case 6
    let ?w = "ucast v :: u32"
    have "scast ?w = v" using 6(2) by (rule scast_ucast_sint)
    then show ?thesis using 6 push2 u[of ?w]
      by (intro exI[of _ 4] exI[of _ "le_bytes 4 (uint ?w)"])
        (simp add: wb_integer_def get_integer_def seri_consts rb_bytes_has le_value_bytes_self)
  qed
qed

section \<open>One value\<close>

text \<open>The bytes \<open>out\<close> are read as the value \<open>w\<close>, a copy of \<open>v\<close>.\<close>

definition encodes :: "lua_heap \<Rightarrow> lua_value \<Rightarrow> u8 list \<Rightarrow> fresh_value \<Rightarrow> bool" where
  "encodes H v out w \<longleftrightarrow> same_value H v w \<and> out \<noteq> [] \<and>
     (\<forall>f rb. length out \<le> f \<longrightarrow> rb_has rb out \<longrightarrow> unpack_one f rb = Inr (rb_skip rb (length out), w))"

lemma encodesI:
  assumes "same_value H v w" "0 \<le> t" "t < 8" "0 \<le> c" "c < 32"
    and "\<And>f rb. length out \<le> f \<Longrightarrow> rb_has (rb_skip rb 1) out \<Longrightarrow>
      push_value f (unpack_one f) (rb_skip rb 1) t c = Inr (rb_skip rb (Suc (length out)), w)"
  shows "encodes H v (COMBINE_TYPE t c # out) w"
proof -
  have "unpack_one f rb = Inr (rb_skip rb (Suc (length out)), w)"
    if "Suc (length out) \<le> f" "rb_has rb (COMBINE_TYPE t c # out)" for f rb
  proof (cases f)
    case (Suc g)
    then show ?thesis
      using unpack_one_type[OF that(2) assms(2-5)] assms(6)[of g rb] that(1) rb_has_Cons(2)[OF that(2)] by simp
  qed (use that in simp)
  then show ?thesis using assms(1) by (simp add: encodes_def)
qed

definition packs :: "lua_heap \<Rightarrow> packer \<Rightarrow> lua_value \<Rightarrow> bool" where
  "packs H pack v \<longleftrightarrow>
     (\<forall>wb bs wb'. wb_rep wb bs \<longrightarrow> pack wb v = Inr wb' \<longrightarrow> (\<exists>out w. wb_rep wb' (bs @ out) \<and> encodes H v out w))"

lemma TYPE_byte:
  "wb_nil wb = wb_push wb [COMBINE_TYPE 0 0]"
  "wb_pointer wb v = wb_push (wb_push wb [COMBINE_TYPE 3 0]) (le_bytes 8 (uint v))"
  by (simp_all add: wb_nil_def wb_pointer_def COMBINE_TYPE_def seri_consts)

lemma wb_push2_rep: "wb_rep wb bs \<Longrightarrow> wb_rep (wb_push (wb_push wb [x]) y) (bs @ x # y)"
  using wb_push_rep[OF wb_push_rep, of wb bs "[x]" y] by simp

lemma wb_push3_rep: "wb_rep wb bs \<Longrightarrow> wb_rep (wb_push (wb_push (wb_push wb [x]) y) z) (bs @ x # y @ z)"
  using wb_push_rep[OF wb_push2_rep, of wb bs x y z] by simp

lemma wb_nil_encodes: "wb_rep wb bs \<Longrightarrow> \<exists>out. wb_rep (wb_nil wb) (bs @ out) \<and> encodes H LNil out LNil"
  by (rule exI[of _ "[COMBINE_TYPE 0 0]"])
    (auto simp: TYPE_byte seri_consts push_value_def intro!: wb_push_rep encodesI)

lemma wb_boolean_encodes:
  "wb_rep wb bs \<Longrightarrow> \<exists>out. wb_rep (wb_boolean wb b) (bs @ out) \<and> encodes H (LBoolean b) out (LBoolean b)"
  by (rule exI[of _ "[COMBINE_TYPE 1 (if b then 1 else 0)]"])
    (auto simp: wb_boolean_def push_value_def seri_consts intro!: wb_push_rep encodesI)

lemma wb_integer_encodes:
  assumes "wb_rep wb bs"
  shows "\<exists>out. wb_rep (wb_integer wb v) (bs @ out) \<and> encodes H (LInteger v) out (LInteger v)"
proof -
  obtain c out where o: "wb_rep (wb_integer wb v) (bs @ COMBINE_TYPE TYPE_NUMBER c # out)" "c \<in> {0, 1, 2, 4, 6}"
    "\<And>rb. rb_has rb out \<Longrightarrow> get_integer rb c = Inr (rb_skip rb (length out), v)"
    using wb_integer_rep[OF assms] by blast
  have "encodes H (LInteger v) (COMBINE_TYPE TYPE_NUMBER c # out) (LInteger v)"
    by (rule encodesI) (use o(2,3) in \<open>auto simp: push_value_def seri_consts\<close>)
  then show ?thesis using o(1) by blast
qed

lemma le_bytes_u64: "word_of_int (le_value (le_bytes 8 (uint v))) = (v :: u64)"
  using uint_lt2p[of v] by (simp add: le_value_bytes_self)

lemma wb_real_encodes: "wb_rep wb bs \<Longrightarrow> \<exists>out. wb_rep (wb_real wb v) (bs @ out) \<and> encodes H (LNumber v) out (LNumber v)"
  by (rule exI[of _ "COMBINE_TYPE 2 8 # le_bytes 8 (uint v)"])
    (auto simp: wb_real_def push_value_def seri_consts get_real_def rb_bytes_has le_bytes_u64 intro!: wb_push2_rep encodesI)

lemma wb_pointer_encodes:
  "wb_rep wb bs \<Longrightarrow> \<exists>out. wb_rep (wb_pointer wb v) (bs @ out) \<and> encodes H (LLightuserdata v) out (LLightuserdata v)"
  by (rule exI[of _ "COMBINE_TYPE 3 0 # le_bytes 8 (uint v)"])
    (auto simp: TYPE_byte push_value_def seri_consts get_pointer_def rb_bytes_has
      le_bytes_u64 intro!: wb_push2_rep encodesI)

lemma wb_string_encodes:
  assumes "wb_rep wb bs" "length s < 2 ^ 31"
  shows "\<exists>out. wb_rep (wb_string wb s (sint (of_nat (length s) :: u32))) (bs @ out) \<and>
    encodes H (LString s) out (LString s)"
proof -
  let ?n = "int (length s)"
  have n: "sint (of_nat (length s) :: u32) = ?n" by (rule sint_of_nat_32[OF assms(2)])
  consider "length s < 32" | "32 \<le> length s" "length s < 0x10000" | "0x10000 \<le> length s" by linarith
  then show ?thesis
  proof cases
    case 1
    have "wb_rep (wb_string wb s ?n) (bs @ COMBINE_TYPE 4 ?n # s)"
      using 1 wb_push2_rep[OF assms(1)] wb_push_rep[OF assms(1)] by (cases s) (simp_all add: wb_string_def seri_consts Let_def)
    moreover have "encodes H (LString s) (COMBINE_TYPE 4 ?n # s) (LString s)"
      by (rule encodesI) (use 1 in \<open>auto simp: push_value_def seri_consts get_buffer_has\<close>)
    ultimately show ?thesis using n by auto
  next
    case 2
    let ?b = "le_bytes 2 (uint (word_of_int ?n :: u16))"
    have "uint (word_of_int ?n :: u16) = ?n mod 2 ^ 16" by (simp only: uint_word_of_int) simp
    then have b: "le_value ?b = ?n" using 2 by (simp add: le_value_bytes_self)
    have "wb_rep (wb_string wb s ?n) (bs @ COMBINE_TYPE 5 2 # ?b @ s)"
      using 2 wb_push3_rep[OF assms(1)] by (simp add: wb_string_def seri_consts Let_def)
    moreover have "encodes H (LString s) (COMBINE_TYPE 5 2 # ?b @ s) (LString s)"
    proof (rule encodesI)
      fix f rb assume "rb_has (rb_skip rb 1) (?b @ s)"
      note h = rb_has_append[OF this]
      show "push_value f (unpack_one f) (rb_skip rb 1) 5 2 = Inr (rb_skip rb (Suc (length (?b @ s))), LString s)"
        using rb_bytes_has[OF h(1)] get_buffer_has[OF h(2)] b by (simp add: push_value_def seri_consts)
    qed simp_all
    ultimately show ?thesis using n by auto
  next
    case 3
    let ?b = "le_bytes 4 (uint (word_of_int ?n :: u32))"
    have "uint (word_of_int ?n :: u32) = ?n mod 2 ^ 32" by (simp only: uint_word_of_int) simp
    then have b: "le_value ?b = ?n" using assms(2) by (simp add: le_value_bytes_self)
    have "wb_rep (wb_string wb s ?n) (bs @ COMBINE_TYPE 5 4 # ?b @ s)"
      using 3 wb_push3_rep[OF assms(1)] by (simp add: wb_string_def seri_consts Let_def)
    moreover have "encodes H (LString s) (COMBINE_TYPE 5 4 # ?b @ s) (LString s)"
    proof (rule encodesI)
      fix f rb assume "rb_has (rb_skip rb 1) (?b @ s)"
      note h = rb_has_append[OF this]
      show "push_value f (unpack_one f) (rb_skip rb 1) 5 4 = Inr (rb_skip rb (Suc (length (?b @ s))), LString s)"
        using rb_bytes_has[OF h(1)] get_buffer_has[OF h(2)] b n by (simp add: push_value_def seri_consts)
    qed simp_all
    ultimately show ?thesis using n by auto
  qed
qed

section \<open>The elements of a table\<close>

abbreviation same_pairs :: "lua_heap \<Rightarrow> (lua_value \<times> lua_value) list \<Rightarrow> fresh_pairs \<Rightarrow> bool" where
  "same_pairs H \<equiv> list_all2 (rel_prod (same_value H) (same_value H))"

lemma pairs_set_fresh:
  "\<forall>p \<in> set t. \<not> raw_equal (fst p) k \<Longrightarrow> pairs_set t k v = t @ (if v = LNil then [] else [(k, v)])"
  by (induction t k v rule: pairs_set.induct) auto

lemma raw_equal_same: "same_value H k w \<Longrightarrow> same_value H k' w' \<Longrightarrow> raw_equal w w' \<Longrightarrow> k = k'"
  by (cases k; cases k') (auto simp: raw_equal_def)

lemma same_pairs_fresh:
  assumes "same_pairs H ps t" "k \<notin> fst ` set ps" "same_value H k w"
  shows "\<forall>p \<in> set t. \<not> raw_equal (fst p) w"
proof
  fix p assume "p \<in> set t"
  then obtain i where "i < length t" "p = t ! i" by (auto simp: in_set_conv_nth)
  then have "ps ! i \<in> set ps" "same_value H (fst (ps ! i)) (fst p)"
    using assms(1) list_all2_nthD2[OF assms(1), of i] by (auto simp: rel_prod_sel dest: list_all2_lengthD)
  then show "\<not> raw_equal (fst p) w" using raw_equal_same[OF _ assms(3)] assms(2) by force
qed

lemma raw_key_proper: "proper_key k \<Longrightarrow> same_value H k w \<Longrightarrow> raw_key w = Inr w"
  by (cases k) (auto simp: proper_key_def raw_key_def)

lemma wb_hash_loop_filter:
  "wb_hash_loop pack wb ps n = wb_metapairs_loop pack wb (filter (\<lambda>(k, v). \<not> in_array k n) ps)"
  by (induction pack wb ps n rule: wb_hash_loop.induct) (auto simp: andthen_def split: sum.splits)

lemma packsD:
  assumes "packs H pack v" "wb_rep wb bs" "pack wb v = Inr wb'"
  obtains out w where "wb_rep wb' (bs @ out)" "encodes H v out w"
  using assms unfolding packs_def by blast

lemma encodesD:
  assumes "encodes H v out w"
  shows "same_value H v w" "0 < length out"
    "length out \<le> f \<Longrightarrow> rb_has rb out \<Longrightarrow> unpack_one f rb = Inr (rb_skip rb (length out), w)"
  using assms by (auto simp: encodes_def)

definition pairs_encode :: "lua_heap \<Rightarrow> (lua_value \<times> lua_value) list \<Rightarrow> u8 list \<Rightarrow> fresh_pairs \<Rightarrow> bool" where
  "pairs_encode H ps out kvs \<longleftrightarrow> same_pairs H ps kvs \<and> length ps < length out \<and>
     (\<forall>f g rb qs t. length out \<le> f \<longrightarrow> length ps < g \<longrightarrow> rb_has rb out \<longrightarrow> same_pairs H qs t \<longrightarrow>
        distinct (map fst (qs @ ps)) \<longrightarrow> unpack_hash g (unpack_one f) rb t = Inr (rb_skip rb (length out), t @ kvs))"

lemma pairs_encode_Nil:
  assumes "encodes H LNil out LNil"
  shows "pairs_encode H [] out []"
proof -
  have "unpack_hash g (unpack_one f) rb t = Inr (rb_skip rb (length out), t)"
    if "length out \<le> f" "0 < g" "rb_has rb out" for f g rb t
    using encodesD(3)[OF assms that(1,3)] that(2) by (cases g) auto
  then show ?thesis using encodesD[OF assms] by (simp add: pairs_encode_def)
qed

lemma pairs_encode_Cons:
  assumes "encodes H k ok wk" "encodes H v ov wv" "pairs_encode H ps out kvs" "proper_key k" "v \<noteq> LNil"
  shows "pairs_encode H ((k, v) # ps) (ok @ ov @ out) ((wk, wv) # kvs)"
proof -
  note k = encodesD[OF assms(1)] and v = encodesD[OF assms(2)]
  have nil: "wk \<noteq> LNil" "wv \<noteq> LNil" using assms(4,5) k(1) v(1) by (auto simp: proper_key_def)
  have "unpack_hash g (unpack_one f) rb t = Inr (rb_skip rb (length (ok @ ov @ out)), t @ (wk, wv) # kvs)"
    if p: "length (ok @ ov @ out) \<le> f" "length ((k, v) # ps) < g" "rb_has rb (ok @ ov @ out)" "same_pairs H qs t"
      "distinct (map fst (qs @ (k, v) # ps))" for f g rb qs t
  proof -
    obtain g' where g: "g = Suc g'" "length ps < g'" using p(2) by (cases g) auto
    note h1 = rb_has_append[OF p(3)]
    note h2 = rb_has_append[OF h1(2)]
    have "lua_rawset t wk wv = Inr (t @ [(wk, wv)])"
      using pairs_set_fresh[OF same_pairs_fresh[OF p(4) _ k(1)]] p(5) nil raw_key_proper[OF assms(4) k(1)]
      by (auto simp: lua_rawset_def)
    moreover have "same_pairs H (qs @ [(k, v)]) (t @ [(wk, wv)])"
      using p(4) k(1) v(1) by (auto intro: list_all2_appendI)
    then have "unpack_hash g' (unpack_one f) (rb_skip (rb_skip rb (length ok)) (length ov)) (t @ [(wk, wv)])
        = Inr (rb_skip (rb_skip (rb_skip rb (length ok)) (length ov)) (length out), (t @ [(wk, wv)]) @ kvs)"
      using assms(3) p(1,5) g(2) h2(2) unfolding pairs_encode_def by (metis (no_types, lifting) add_leE append_Cons append_assoc append_Nil length_append)
    ultimately show ?thesis using k(3)[of f rb] v(3)[of f "rb_skip rb (length ok)"] h1(1) h2(1) p(1) nil g(1)
      by (simp add: add.assoc)
  qed
  moreover have "length ((k, v) # ps) < length (ok @ ov @ out)"
    using assms(3) k(2) v(2) unfolding pairs_encode_def length_append list.size by linarith
  moreover have "same_pairs H ((k, v) # ps) ((wk, wv) # kvs)" using assms(3) k(1) v(1) by (simp add: pairs_encode_def)
  ultimately show ?thesis unfolding pairs_encode_def by blast
qed

lemma wb_pairs_encode:
  assumes "wb_rep wb bs" "wb_metapairs_loop pack wb ps = Inr wb'"
    "\<forall>(k, v) \<in> set ps. packs H pack k \<and> packs H pack v \<and> proper_key k \<and> v \<noteq> LNil"
  shows "\<exists>out kvs. wb_rep wb' (bs @ out) \<and> pairs_encode H ps out kvs"
  using assms
proof (induction ps arbitrary: wb bs)
  case Nil
  then show ?case using wb_nil_encodes[OF Nil(1), of H] pairs_encode_Nil by auto
next
  case (Cons p ps)
  obtain k v where p: "p = (k, v)" by fastforce
  obtain wb1 wb2 where r: "pack wb k = Inr wb1" "pack wb1 v = Inr wb2" "wb_metapairs_loop pack wb2 ps = Inr wb'"
    using Cons.prems(2) p by (auto simp: andthen_eq_Inr)
  have e: "packs H pack k" "packs H pack v" "proper_key k" "v \<noteq> LNil" using Cons.prems(3) p by auto
  obtain ok wk where k: "wb_rep wb1 (bs @ ok)" "encodes H k ok wk" by (rule packsD[OF e(1) Cons.prems(1) r(1)])
  obtain ov wv where v: "wb_rep wb2 ((bs @ ok) @ ov)" "encodes H v ov wv" by (rule packsD[OF e(2) k(1) r(2)])
  obtain out kvs where "wb_rep wb' (((bs @ ok) @ ov) @ out)" "pairs_encode H ps out kvs"
    using Cons.IH[OF v(1) r(3)] Cons.prems(3) by auto
  then show ?case using pairs_encode_Cons[OF k(2) v(2) _ e(3,4)] p by (metis append_assoc)
qed

text \<open>The pairs in the array part, from the index \<open>i\<close> on.\<close>

definition array_pairs :: "lua_table \<Rightarrow> int \<Rightarrow> int \<Rightarrow> (lua_value \<times> lua_value) list" where
  "array_pairs t i n = filter (\<lambda>p. snd p \<noteq> LNil) (map (\<lambda>j. (LInteger (word_of_int j), lua_rawgeti t j)) [i..n])"

lemma array_pairs_Cons:
  "i \<le> n \<Longrightarrow> array_pairs t i n =
     (if lua_rawgeti t i = LNil then [] else [(LInteger (word_of_int i), lua_rawgeti t i)]) @ array_pairs t (i + 1) n"
  by (simp add: array_pairs_def upto_rec1)

lemma array_pairs_Nil: "n < i \<Longrightarrow> array_pairs t i n = []"
  by (simp add: array_pairs_def)

lemma set_array_pairs:
  "set (array_pairs t i n) = {(LInteger (word_of_int j), lua_rawgeti t j) | j. i \<le> j \<and> j \<le> n \<and> lua_rawgeti t j \<noteq> LNil}"
  by (auto simp: array_pairs_def)

lemma word_of_int_inj_u64:
  assumes "(word_of_int i :: u64) = word_of_int j" "0 \<le> i" "i < 2 ^ 63" "0 \<le> j" "j < 2 ^ 63"
  shows "i = j"
proof -
  have "i mod 2 ^ 64 = j mod 2 ^ 64" using arg_cong[OF assms(1), of uint] by (simp add: uint_word_of_int)
  then show ?thesis using assms(2-) by simp
qed

lemma distinct_array_pairs: "0 \<le> i \<Longrightarrow> n < 2 ^ 63 \<Longrightarrow> distinct (map fst (array_pairs t i n))"
  unfolding array_pairs_def
  by (intro distinct_map_filter) (auto simp: distinct_map comp_def inj_on_def intro: word_of_int_inj_u64)

definition array_encode :: "lua_heap \<Rightarrow> lua_table \<Rightarrow> int \<Rightarrow> int \<Rightarrow> u8 list \<Rightarrow> fresh_pairs \<Rightarrow> bool" where
  "array_encode H t i n out kvs \<longleftrightarrow> same_pairs H (array_pairs t i n) kvs \<and>
     (\<forall>f rb qs ws. length out \<le> f \<longrightarrow> rb_has rb out \<longrightarrow> same_pairs H qs ws \<longrightarrow>
        (\<forall>j. i \<le> j \<and> j \<le> n \<longrightarrow> LInteger (word_of_int j) \<notin> fst ` set qs) \<longrightarrow>
        unpack_array (unpack_one f) rb ws i n = Inr (rb_skip rb (length out), ws @ kvs))"

lemma array_encode_Nil: "n < i \<Longrightarrow> array_encode H t i n [] []"
  by (simp add: array_encode_def array_pairs_Nil unpack_array.simps)

lemma array_encode_Cons:
  assumes "i \<le> n" "0 \<le> i" "n < 2 ^ 63" "encodes H (lua_rawgeti t i) ov w" "array_encode H t (i + 1) n out kvs"
  shows "array_encode H t i n (ov @ out) ((if w = LNil then [] else [(LInteger (word_of_int i), w)]) @ kvs)"
proof -
  let ?x = "if w = LNil then [] else [(LInteger (word_of_int i), w)]"
  let ?p = "if lua_rawgeti t i = LNil then [] else [(LInteger (word_of_int i), lua_rawgeti t i)]"
  note e = encodesD[OF assms(4)]
  have p: "array_pairs t i n = ?p @ array_pairs t (i + 1) n" by (rule array_pairs_Cons[OF assms(1)])
  have x: "same_pairs H ?p ?x" using e(1) by auto
  have "unpack_array (unpack_one f) rb ws i n = Inr (rb_skip rb (length (ov @ out)), ws @ ?x @ kvs)"
    if h: "length (ov @ out) \<le> f" "rb_has rb (ov @ out)" "same_pairs H qs ws"
      "\<forall>j. i \<le> j \<and> j \<le> n \<longrightarrow> LInteger (word_of_int j) \<notin> fst ` set qs" for f rb qs ws
  proof -
    note hb = rb_has_append[OF h(2)]
    have "LInteger (word_of_int i) \<notin> fst ` set qs" using h(4) assms(1) by blast
    then have "pairs_set ws (LInteger (word_of_int i)) w = ws @ ?x"
      by (intro pairs_set_fresh same_pairs_fresh[OF h(3), of "LInteger (word_of_int i)"]) simp_all
    moreover have "(word_of_int j :: u64) \<noteq> word_of_int i" if "i + 1 \<le> j" "j \<le> n" for j
      using word_of_int_inj_u64[of j i] that assms(1-3) by fastforce
    then have "\<forall>j. i + 1 \<le> j \<and> j \<le> n \<longrightarrow> LInteger (word_of_int j) \<notin> fst ` set (qs @ ?p)"
      using h(4) by auto
    then have "unpack_array (unpack_one f) (rb_skip rb (length ov)) (ws @ ?x) (i + 1) n
        = Inr (rb_skip (rb_skip rb (length ov)) (length out), (ws @ ?x) @ kvs)"
      using assms(5) h(1) hb(2) list_all2_appendI[OF h(3) x] unfolding array_encode_def
      by (metis (no_types, lifting) add_leE length_append)
    ultimately show ?thesis using e(3)[of f rb] hb(1) h(1) assms(1) by (simp add: unpack_array.simps[of _ rb])
  qed
  then show ?thesis using assms(5) p list_all2_appendI[OF x] unfolding array_encode_def by simp
qed

lemma wb_array_encode:
  assumes "wb_rep wb bs" "wb_array_loop pack wb t i n = Inr wb'" "0 \<le> i" "n < 2 ^ 63"
    "\<forall>j. i \<le> j \<and> j \<le> n \<longrightarrow> packs H pack (lua_rawgeti t j)"
  shows "\<exists>out kvs. wb_rep wb' (bs @ out) \<and> array_encode H t i n out kvs"
  using assms
proof (induction pack wb t i n arbitrary: bs rule: wb_array_loop.induct)
  case (1 pack wb t i n)
  show ?case
  proof (cases "i \<le> n")
    case True
    then obtain wb1 where r: "pack wb (lua_rawgeti t i) = Inr wb1" "wb_array_loop pack wb1 t (i + 1) n = Inr wb'"
      using "1.prems"(2) wb_array_loop.simps[of pack wb t i n] by (auto simp: andthen_eq_Inr)
    have "packs H pack (lua_rawgeti t i)" using "1.prems"(5) True by blast
    then obtain ov w where v: "wb_rep wb1 (bs @ ov)" "encodes H (lua_rawgeti t i) ov w"
      using "1.prems"(1) r(1) by (auto elim: packsD)
    obtain out kvs where "wb_rep wb' ((bs @ ov) @ out)" "array_encode H t (i + 1) n out kvs"
      using "1.IH"[OF True v(1) r(2)] "1.prems"(3-5) by auto
    then show ?thesis using array_encode_Cons[OF True "1.prems"(3,4) v(2)] by (metis append_assoc)
  next
    case False
    then have "wb' = wb" using "1.prems"(2) wb_array_loop.simps[of pack wb t i n] by simp
    then show ?thesis using False "1.prems"(1) array_encode_Nil[of n i H t] by (intro exI[of _ "[]"]) simp
  qed
qed

lemma table_pairs_mset:
  assumes "table_ok t" "tb_metapairs t = None" "n = int (tb_rawlen t)"
  shows "distinct (map fst (array_pairs t 1 n @ filter (\<lambda>(k, v). \<not> in_array k n) (tb_pairs t)))"
    and "mset (array_pairs t 1 n @ filter (\<lambda>(k, v). \<not> in_array k n) (tb_pairs t)) = mset (tb_pairs t)"
proof -
  let ?f = "filter (\<lambda>(k, v). \<not> in_array k n) (tb_pairs t)"
  have d: "distinct (map fst (tb_pairs t))" and v: "\<forall>p \<in> set (tb_pairs t). snd p \<noteq> LNil" and n: "n < 2 ^ 31"
    using assms by (auto simp: table_ok_def tb_content_def)
  have get: "lua_rawgeti t j = (case map_of (tb_pairs t) (LInteger (word_of_int j)) of None \<Rightarrow> LNil | Some x \<Rightarrow> x)" for j
    by (rule lua_rawgeti_def)
  have in_ar: "in_array (LInteger (word_of_int j)) n" if "1 \<le> j" "j \<le> n" for j
    using that n by (simp add: in_array_def signed_of_int signed_take_bit_int_eq_self)
  have "fst ` set (array_pairs t 1 n) \<inter> fst ` set ?f = {}" using in_ar by (force simp: set_array_pairs)
  moreover have "distinct (map fst (array_pairs t 1 n))" using n by (intro distinct_array_pairs) simp_all
  ultimately show dd: "distinct (map fst (array_pairs t 1 n @ ?f))"
    using d by (simp add: distinct_map_filter)
  have "(k, x) \<in> set (array_pairs t 1 n) \<longleftrightarrow> (k, x) \<in> set (tb_pairs t) \<and> in_array k n" for k x
  proof
    assume "(k, x) \<in> set (array_pairs t 1 n)"
    then obtain j where "k = LInteger (word_of_int j)" "x = lua_rawgeti t j" "1 \<le> j" "j \<le> n" "x \<noteq> LNil"
      by (auto simp: set_array_pairs)
    then show "(k, x) \<in> set (tb_pairs t) \<and> in_array k n"
      using in_ar get[of j] by (auto split: option.splits dest: map_of_SomeD)
  next
    assume a: "(k, x) \<in> set (tb_pairs t) \<and> in_array k n"
    then obtain w where w: "k = LInteger w" "0 < sint w" "sint w \<le> n" by (auto simp: in_array_def split: lua_val.splits)
    have "map_of (tb_pairs t) k = Some x" using d a by simp
    then have "lua_rawgeti t (sint w) = x" using w(1) get[of "sint w"] by simp
    then show "(k, x) \<in> set (array_pairs t 1 n)" using w a v by (force simp: set_array_pairs)
  qed
  then have "set (array_pairs t 1 n @ ?f) = set (tb_pairs t)" by auto
  then show "mset (array_pairs t 1 n @ ?f) = mset (tb_pairs t)"
    using set_eq_iff_mset_eq_distinct dd d unfolding distinct_map by blast
qed

section \<open>Tables and the round trip\<close>

definition size_header :: "u8 list \<Rightarrow> int \<Rightarrow> int \<Rightarrow> bool" where
  "size_header hdr c n \<longleftrightarrow> 0 \<le> c \<and> c < 32 \<and>
     (\<forall>rb. rb_has rb hdr \<longrightarrow> table_size rb c = Inr (rb_skip rb (length hdr), n))"

lemma size_header_small: "0 \<le> n \<Longrightarrow> n < 31 \<Longrightarrow> size_header [] n n"
  by (simp add: size_header_def table_size_def seri_consts)

lemma size_header_large:
  assumes "wb_rep wb bs" "0 \<le> n" "n < 2 ^ 31"
  shows "\<exists>hdr. wb_rep (wb_integer wb (word_of_int n)) (bs @ hdr) \<and> size_header hdr 31 n"
proof -
  obtain c out where o: "wb_rep (wb_integer wb (word_of_int n)) (bs @ COMBINE_TYPE TYPE_NUMBER c # out)"
    "c \<in> {0, 1, 2, 4, 6}" "\<And>rb. rb_has rb out \<Longrightarrow> get_integer rb c = Inr (rb_skip rb (length out), word_of_int n)"
    using wb_integer_rep[OF assms(1)] by blast
  let ?hdr = "COMBINE_TYPE TYPE_NUMBER c # out"
  have c: "0 \<le> c" "c < 32" "c \<noteq> 8" using o(2) by auto
  have b: "le_value [COMBINE_TYPE TYPE_NUMBER c] mod 8 = 2" "le_value [COMBINE_TYPE TYPE_NUMBER c] div 8 = c"
    using type_byte[OF _ _ c(1,2), of 2] by (simp_all add: seri_consts)
  have "(ucast (word_of_int n :: u64) :: u32) = word_of_int n" using assms(2,3) by (simp add: unsigned_of_int take_bit_int_eq_self)
  then have n: "sint (ucast (word_of_int n :: u64) :: u32) = n" using sint_of_int_32[of n] assms(2,3) by simp
  have "table_size rb 31 = Inr (rb_skip rb (length ?hdr), n)" if "rb_has rb ?hdr" for rb
  proof -
    note h = rb_has_Cons[OF that]
    show ?thesis
      using rb_bytes_has[OF h(1)] o(3)[OF h(2)] b c n by (simp add: table_size_def Let_def seri_consts)
  qed
  then show ?thesis using o(1) by (intro exI[of _ ?hdr]) (simp add: size_header_def)
qed

lemma table_encodes:
  assumes "size_header hdr c n" "array_encode H (H a) 1 n oa kva" "pairs_encode H ps op kvp"
    "distinct (map fst (array_pairs (H a) 1 n @ ps))" "mset (array_pairs (H a) 1 n @ ps) = mset (tb_content (H a))"
  shows "encodes H (LTable a) (COMBINE_TYPE TYPE_TABLE c # hdr @ oa @ op) (LTable (LTree (kva @ kvp)))"
proof (rule encodesI)
  have "same_pairs H (array_pairs (H a) 1 n @ ps) (kva @ kvp)"
    using assms(2,3) by (auto simp: array_encode_def pairs_encode_def intro: list_all2_appendI)
  then show "same_value H (LTable a) (LTable (LTree (kva @ kvp)))"
    using same_table.same_tableI[of "array_pairs (H a) 1 n @ ps" H a] assms(5) by auto
  fix f rb assume f: "length (hdr @ oa @ op) \<le> f" and h: "rb_has (rb_skip rb 1) (hdr @ oa @ op)"
  note h1 = rb_has_append[OF h]
  note h2 = rb_has_append[OF h1(2)]
  have "table_size (rb_skip rb 1) c = Inr (rb_skip rb (Suc (length hdr)), n)"
    using assms(1) h1(1) by (simp add: size_header_def)
  moreover have "unpack_array (unpack_one f) (rb_skip rb (Suc (length hdr))) [] 1 n
      = Inr (rb_skip rb (Suc (length hdr) + length oa), kva)"
    using assms(2) f h2(1) unfolding array_encode_def by force
  moreover have "unpack_hash f (unpack_one f) (rb_skip rb (Suc (length hdr) + length oa)) kva
      = Inr (rb_skip rb (Suc (length hdr) + length oa + length op), kva @ kvp)"
  proof -
    have "length ps < f" "length op \<le> f" using assms(3) f by (auto simp: pairs_encode_def)
    moreover have "same_pairs H (array_pairs (H a) 1 n) kva" using assms(2) by (simp add: array_encode_def)
    moreover have "rb_has (rb_skip rb (Suc (length hdr) + length oa)) op" using h2(2) by simp
    ultimately show ?thesis using assms(3,4) unfolding pairs_encode_def by (metis rb_skip_skip)
  qed
  ultimately show "push_value f (unpack_one f) (rb_skip rb 1) TYPE_TABLE c
      = Inr (rb_skip rb (Suc (length (hdr @ oa @ op))), LTable (LTree (kva @ kvp)))"
    by (simp add: push_value_def unpack_table_def seri_consts add.assoc)
qed (use assms(1) in \<open>auto simp: size_header_def TYPE_TABLE_def\<close>)

lemma table_ok_elements:
  assumes "table_ok t" "tb_metapairs t = None"
  shows "value_ok (lua_rawgeti t i)"
  using assms by (auto simp: table_ok_def tb_content_def lua_rawgeti_def value_ok_def dest!: map_of_SomeD split: option.splits)

lemma wb_table_packs:
  assumes "table_ok (H a)" "\<And>x. value_ok x \<Longrightarrow> packs H pack x" "wb_rep wb bs" "wb_table pack wb (H a) = Inr wb'"
  shows "\<exists>out w. wb_rep wb' (bs @ out) \<and> encodes H (LTable a) out w"
proof (cases "tb_metapairs (H a)")
  case (Some ps)
  let ?wb = "wb_push wb [COMBINE_TYPE TYPE_TABLE 0]"
  have ps: "tb_content (H a) = ps" using Some by (simp add: tb_content_def)
  have rep: "wb_rep ?wb (bs @ [COMBINE_TYPE TYPE_TABLE 0])" by (rule wb_push_rep[OF assms(3)])
  have "wb_metapairs_loop pack ?wb ps = Inr wb'" using assms(4) Some by (simp add: wb_table_def wb_table_metapairs_def)
  then obtain op kvp where "wb_rep wb' ((bs @ [COMBINE_TYPE TYPE_TABLE 0]) @ op)" "pairs_encode H ps op kvp"
    using wb_pairs_encode[OF rep, of pack ps wb' H] assms(1,2) ps by (fastforce simp: table_ok_def)
  moreover have "distinct (map fst ps)" using assms(1) ps by (simp add: table_ok_def)
  ultimately show ?thesis
    using table_encodes[OF size_header_small[of 0] array_encode_Nil, where H = H and a = a and ps = ps] ps
    by (auto simp: array_pairs_Nil)
next
  case None
  let ?n = "int (tb_rawlen (H a))"
  let ?ps = "filter (\<lambda>(k, v). \<not> in_array k ?n) (tb_pairs (H a))"
  have n: "sint (of_nat (tb_rawlen (H a)) :: u32) = ?n" "?n < 2 ^ 31"
    using assms(1) sint_of_nat_32[of "tb_rawlen (H a)"] by (simp_all add: table_ok_def)
  define wb0 where "wb0 = (if 31 \<le> ?n then wb_integer (wb_push wb [COMBINE_TYPE TYPE_TABLE (MAX_COOKIE - 1)]) (word_of_int ?n)
    else wb_push wb [COMBINE_TYPE TYPE_TABLE ?n])"
  obtain wb1 where r: "wb_array_loop pack wb0 (H a) 1 ?n = Inr wb1" "wb_metapairs_loop pack wb1 ?ps = Inr wb'"
    using assms(4) None n(1)
    by (auto simp: wb_table_def wb_table_array_def wb_table_hash_def wb_hash_loop_filter andthen_eq_Inr Let_def
      wb0_def MAX_COOKIE_def[THEN arg_cong, of "\<lambda>x. x - 1 \<le> _"])
  obtain hdr c where h: "wb_rep wb0 (bs @ COMBINE_TYPE TYPE_TABLE c # hdr)" "size_header hdr c ?n"
  proof (cases "31 \<le> ?n")
    case True
    show ?thesis using that True size_header_large[OF wb_push_rep[OF assms(3), of "[COMBINE_TYPE TYPE_TABLE 31]"], of ?n] n
      by (auto simp: wb0_def MAX_COOKIE_def)
  next
    case False
    show ?thesis using that False size_header_small[of ?n] wb_push_rep[OF assms(3)] by (auto simp: wb0_def)
  qed
  obtain oa kva where a: "wb_rep wb1 ((bs @ COMBINE_TYPE TYPE_TABLE c # hdr) @ oa)" "array_encode H (H a) 1 ?n oa kva"
    using wb_array_encode[OF h(1) r(1)] n(2) assms(2)[OF table_ok_elements[OF assms(1) None]] by force
  have "\<forall>(k, v) \<in> set ?ps. packs H pack k \<and> packs H pack v \<and> proper_key k \<and> v \<noteq> LNil"
    using assms(1,2) None by (auto simp: table_ok_def tb_content_def)
  then obtain op kvp where p: "wb_rep wb' (((bs @ COMBINE_TYPE TYPE_TABLE c # hdr) @ oa) @ op)" "pairs_encode H ?ps op kvp"
    using wb_pairs_encode[OF a(1) r(2)] by blast
  have "encodes H (LTable a) (COMBINE_TYPE TYPE_TABLE c # hdr @ oa @ op) (LTable (LTree (kva @ kvp)))"
    using table_encodes[OF h(2) a(2) p(2)] table_pairs_mset[OF assms(1) None refl] None by (simp add: tb_content_def)
  then show ?thesis using p(1) by auto
qed

lemma pack_one_packs: "heap_ok H \<Longrightarrow> value_ok v \<Longrightarrow> packs H (\<lambda>b v. pack_one H b v depth) v"
proof (induction "33 - depth" arbitrary: depth v rule: less_induct)
  case less
  show ?case unfolding packs_def
  proof (intro allI impI)
    fix wb bs wb' assume w: "wb_rep wb bs" and p: "pack_one H wb v depth = Inr wb'"
    have d: "depth \<le> 32" using p pack_one.simps[of H wb v depth] by (auto simp: MAX_DEPTH_def split: if_splits)
    show "\<exists>out w. wb_rep wb' (bs @ out) \<and> encodes H v out w"
    proof (cases v)
      case (LTable a)
      have "wb_table (\<lambda>b v. pack_one H b v (depth + 1)) wb (H a) = Inr wb'"
        using p d LTable pack_one.simps[of H wb v depth] by (simp add: MAX_DEPTH_def)
      moreover have "packs H (\<lambda>b v. pack_one H b v (depth + 1)) x" if "value_ok x" for x
        using less.hyps[of "depth + 1" x] d that less.prems(1) by (simp add: diff_less_mono2)
      moreover have "table_ok (H a)" using less.prems(1) by (simp add: heap_ok_def)
      ultimately show ?thesis using wb_table_packs[OF _ _ w] LTable by blast
    next
      case (LString s)
      then show ?thesis using p d wb_string_encodes[OF w, of s H] less.prems(2) pack_one.simps[of H wb v depth]
        by (auto simp: MAX_DEPTH_def value_ok_def)
    qed (use p d pack_one.simps[of H wb v depth] wb_nil_encodes[OF w] wb_boolean_encodes[OF w] wb_integer_encodes[OF w]
        wb_real_encodes[OF w] wb_pointer_encodes[OF w] in \<open>fastforce simp: MAX_DEPTH_def\<close>)+
  qed
qed

lemma unpack_loop_step:
  "unpack_loop (Suc n) f rb = (if rb_len rb < 1 then Inr [] else
     andthen (unpack_one (Suc f) rb) (\<lambda>(rb, v). andthen (unpack_loop n f rb) (\<lambda>vs. Inr (v # vs))))"
  by (cases "buffer_at rb (rb_ptr rb) 1") (simp_all add: rb_read_def rb_bytes_def)

definition values_encode :: "lua_heap \<Rightarrow> lua_value list \<Rightarrow> u8 list \<Rightarrow> fresh_value list \<Rightarrow> bool" where
  "values_encode H vs out ws \<longleftrightarrow> list_all2 (same_value H) vs ws \<and> length vs \<le> length out \<and>
     (\<forall>n f rb. length vs < n \<longrightarrow> length out \<le> f \<longrightarrow> rb_has rb out \<longrightarrow> rb_len rb = int (length out) \<longrightarrow>
        unpack_loop n f rb = Inr ws)"

lemma values_encode_Nil: "values_encode H [] [] []"
proof -
  have "unpack_loop n f rb = Inr []" if "0 < n" "rb_len rb = 0" for n f rb
    using that by (cases n) (simp_all add: unpack_loop_step del: unpack_loop.simps(2))
  then show ?thesis by (simp add: values_encode_def)
qed

lemma values_encode_Cons:
  assumes "encodes H v ov w" "values_encode H vs out ws"
  shows "values_encode H (v # vs) (ov @ out) (w # ws)"
proof -
  note e = encodesD[OF assms(1)]
  have "unpack_loop n f rb = Inr (w # ws)"
    if p: "length (v # vs) < n" "length (ov @ out) \<le> f" "rb_has rb (ov @ out)" "rb_len rb = int (length (ov @ out))" for n f rb
  proof -
    obtain m where m: "n = Suc m" "length vs < m" using p(1) by (cases n) auto
    note h = rb_has_append[OF p(3)]
    have "rb_len (rb_skip rb (length ov)) = int (length out)" using p(4) by (simp add: rb_skip_def)
    then have "unpack_loop m f (rb_skip rb (length ov)) = Inr ws"
      using assms(2) m(2) p(2) h(2) by (simp add: values_encode_def)
    moreover have "unpack_one (Suc f) rb = Inr (rb_skip rb (length ov), w)" using e(3)[of "Suc f" rb] p(2) h(1) by simp
    moreover have "\<not> rb_len rb < 1" using p(4) e(2) unfolding length_append by linarith
    ultimately show ?thesis using m(1) by (simp add: unpack_loop_step del: unpack_loop.simps(2) unpack_one.simps(2))
  qed
  moreover have "length (v # vs) \<le> length (ov @ out)"
    using assms(2) e(2) unfolding values_encode_def length_append list.size by linarith
  ultimately show ?thesis using assms(2) e(1) unfolding values_encode_def by simp
qed

lemma pack_from_encodes:
  assumes "heap_ok H" "wb_rep wb bs" "pack_from H wb vs = Inr wb'" "\<forall>v \<in> set vs. value_ok v"
  shows "\<exists>out ws. wb_rep wb' (bs @ out) \<and> values_encode H vs out ws"
  using assms(2-)
proof (induction vs arbitrary: wb bs)
  case Nil
  then show ?case using values_encode_Nil[of H] by (intro exI[of _ "[]"]) simp
next
  case (Cons v vs)
  obtain wb1 where r: "pack_one H wb v 0 = Inr wb1" "pack_from H wb1 vs = Inr wb'"
    using Cons.prems(2) by (auto simp: andthen_eq_Inr)
  have "packs H (\<lambda>b v. pack_one H b v 0) v" using pack_one_packs[OF assms(1)] Cons.prems(3) by simp
  then obtain ov w where o: "wb_rep wb1 (bs @ ov)" "encodes H v ov w" using r(1) Cons.prems(1) by (auto elim: packsD)
  obtain out ws where "wb_rep wb' ((bs @ ov) @ out)" "values_encode H vs out ws"
    using Cons.IH[OF o(1) r(2)] Cons.prems(3) by auto
  then show ?case using values_encode_Cons[OF o(2)] by (metis append_assoc)
qed

lemma unpack_buffer_encoded:
  assumes "values_encode H vs bs ws"
  shows "unpack_buffer (Some bs) (int (length bs)) = Inr ws"
proof (cases "bs = []")
  case True
  then show ?thesis using assms by (auto simp: values_encode_def unpack_buffer_def)
next
  case False
  have "rb_has (rball_init bs (int (length bs))) bs" by (simp add: rb_has_def rball_init_def)
  then have "unpack_loop (length bs + 1) (length bs + 1) (rball_init bs (int (length bs))) = Inr ws"
    using assms unfolding values_encode_def by (simp add: rball_init_def del: unpack_loop.simps)
  then show ?thesis using False by (simp add: unpack_buffer_def Let_def del: unpack_loop.simps)
qed

text \<open>
  C12: whatever values are packed, tables in tables with keys of any type included, the message that \<open>luaseri_pack\<close>
  makes is complete (no byte of it was left unwritten), and \<open>luaseri_unpack\<close>, from the memory or from a string, returns
  copies of all values in order: the same scalars and strings, and for a table a fresh one with copies of exactly
  its pairs (or those its \<open>__pairs\<close> gives). The chain of blocks must stay below 2 GB.
\<close>

theorem seri_roundtrip:
  assumes "heap_ok H" "\<forall>v \<in> set vs. value_ok v" "pack_from H (wb_init blk_alloc) vs = Inr wb"
    "length (concat (wb_blocks wb)) < 2 ^ 31"
  shows "\<exists>bs ws. luaseri_pack H vs = Inr (Some (bs, int (length bs))) \<and>
    luaseri_unpack (Arg_buffer (Some bs) (int (length bs))) = Inr ws \<and> luaseri_unpack (Arg_string bs) = Inr ws \<and>
    list_all2 (same_value H) vs ws"
proof -
  obtain bs ws where r: "wb_rep wb bs" "values_encode H vs bs ws"
    using pack_from_encodes[OF assms(1) wb_init_rep assms(3,2)] by auto
  have n: "length bs < 2 ^ 31" using wb_rep_length[OF r(1)] assms(4) by simp
  have "luaseri_pack H vs = Inr (Some (bs, int (length bs)))" using assms(3) seri_ok[OF r(1) n] by (simp add: luaseri_pack_def)
  moreover have "sint (of_nat (length bs) :: u32) = int (length bs)" by (rule sint_of_nat_32[OF n])
  ultimately show ?thesis
    using unpack_buffer_encoded[OF r(2)] r(2) by (intro exI[of _ bs] exI[of _ ws]) (simp add: luaseri_unpack_def values_encode_def)
qed

end
