(* ===== verification/Seri_Safe.thy ===== *)
theory Seri_Safe
  imports Seri_Roundtrip
begin

text \<open>
  What \<^verbatim>\<open>lua-seri.c\<close> does with an arbitrary stream, for instance one from another node: it reads inside of the
  buffer, comes to an end, and returns proper Lua values or raises an error of Lua. And which values \<open>luaseri_pack\<close>
  accepts: those without functions and without tables nested too deep, so no table that contains itself.
\<close>

section \<open>Proper fresh values\<close>

definition pairs_ok :: "fresh_pairs \<Rightarrow> bool" where
  "pairs_ok t \<longleftrightarrow> (\<forall>(k, v) \<in> set t. proper_key k \<and> v \<noteq> LNil) \<and> sorted_wrt (\<lambda>p q. \<not> raw_equal (fst p) (fst q)) t"

text \<open>Keys that a table can hold, no key twice, no nil value, and so in every table inside.\<close>

inductive tree_ok :: "lua_tree \<Rightarrow> bool" where
  "pairs_ok t \<Longrightarrow> \<forall>(k, v) \<in> set t. pred_lua_val tree_ok k \<and> pred_lua_val tree_ok v \<Longrightarrow> tree_ok (LTree t)"
monos lua_val.pred_mono

abbreviation fresh_ok :: "fresh_value \<Rightarrow> bool" where
  "fresh_ok \<equiv> pred_lua_val tree_ok"

abbreviation fresh_pairs_ok :: "fresh_pairs \<Rightarrow> bool" where
  "fresh_pairs_ok t \<equiv> pairs_ok t \<and> (\<forall>(k, v) \<in> set t. fresh_ok k \<and> fresh_ok v)"

lemma set_pairs_set: "set (pairs_set t k v) \<subseteq> insert (k, v) (set t)"
  by (induction t k v rule: pairs_set.induct) auto

lemma pairs_set_value: "(k', v') \<in> set (pairs_set t k v) \<Longrightarrow> (k', v') \<in> set t \<or> k' = k \<and> v' = v \<and> v \<noteq> LNil"
  by (induction t k v rule: pairs_set.induct) (auto split: if_splits)

lemma raw_equal_trans: "raw_equal a b \<Longrightarrow> raw_equal c b = raw_equal c a"
  by (auto simp: raw_equal_def)

lemma sorted_pairs_set:
  "sorted_wrt (\<lambda>p q. \<not> raw_equal (fst p) (fst q)) t \<Longrightarrow> sorted_wrt (\<lambda>p q. \<not> raw_equal (fst p) (fst q)) (pairs_set t k v)"
proof (induction t k v rule: pairs_set.induct)
  case (2 k' v' t k v)
  have "\<not> raw_equal k' (fst q)" if "q \<in> set (pairs_set t k v)" "\<not> raw_equal k' k" for q
    using set_pairs_set[of t k v] that "2.prems" by auto
  then show ?case using 2 by (auto simp: raw_equal_def)
qed simp

lemma fresh_pairs_set:
  assumes "fresh_pairs_ok t" "proper_key k" "fresh_ok k" "fresh_ok v"
  shows "fresh_pairs_ok (pairs_set t k v)"
  using assms sorted_pairs_set[of t k v] by (auto simp: pairs_ok_def dest: pairs_set_value)

lemma raw_key_ok: "raw_key k = Inr k' \<Longrightarrow> fresh_ok k \<Longrightarrow> proper_key k' \<and> fresh_ok k'"
  by (auto simp: raw_key_def proper_key_def split: lua_val.splits if_splits option.splits)

section \<open>Reading an arbitrary stream\<close>

definition rb_ok :: "read_block \<Rightarrow> bool" where
  "rb_ok rb \<longleftrightarrow> 0 \<le> rb_ptr rb \<and> 0 \<le> rb_len rb \<and> rb_ptr rb + rb_len rb \<le> int (length (rb_buffer rb))"

definition lua_error :: "seri_error \<Rightarrow> bool" where
  "lua_error e \<longleftrightarrow> e \<noteq> Outside \<and> e \<noteq> Out_of_fuel"

text \<open>An error of Lua, or at least \<open>k\<close> bytes read and a result with \<open>P\<close>.\<close>

definition reads :: "int \<Rightarrow> ('a \<Rightarrow> bool) \<Rightarrow> read_block \<Rightarrow> seri_error + read_block \<times> 'a \<Rightarrow> bool" where
  "reads k P rb r \<longleftrightarrow> (case r of
     Inl e \<Rightarrow> lua_error e
   | Inr (rb', x) \<Rightarrow> rb_ok rb' \<and> rb_len rb' + k \<le> rb_len rb \<and> P x)"

lemma reads_Inl [simp]: "reads k P rb (Inl e) \<longleftrightarrow> lua_error e"
  by (simp add: reads_def)

lemma reads_Inr [simp]: "reads k P rb (Inr (rb', x)) \<longleftrightarrow> rb_ok rb' \<and> rb_len rb' + k \<le> rb_len rb \<and> P x"
  by (simp add: reads_def)

lemma lua_error_simps [simp]:
  "lua_error (Invalid_stream n)" "lua_error Block_too_big" "lua_error Index_is_nil" "lua_error Index_is_nan"
  "lua_error Null_pointer" "\<not> lua_error Outside" "\<not> lua_error Out_of_fuel"
  by (simp_all add: lua_error_def)

lemma reads_andthen:
  assumes "reads j P rb r" "\<And>rb' x. rb_ok rb' \<Longrightarrow> rb_len rb' + j \<le> rb_len rb \<Longrightarrow> P x \<Longrightarrow> reads (k - j) Q rb' (f (rb', x))"
  shows "reads k Q rb (andthen r f)"
proof (cases r)
  case (Inr y)
  obtain rb' x where y: "y = (rb', x)" by fastforce
  have "reads (k - j) Q rb' (f (rb', x))" using assms Inr y by simp
  then show ?thesis using assms(1) Inr y by (cases "f (rb', x)") auto
qed (use assms(1) in simp)

lemma reads_weaken: "reads j P rb r \<Longrightarrow> k \<le> j \<Longrightarrow> (\<And>x. P x \<Longrightarrow> Q x) \<Longrightarrow> reads k Q rb r"
  by (cases r) auto

lemma reads_bytes: "rb_ok rb \<Longrightarrow> 0 \<le> sz \<Longrightarrow> reads sz (\<lambda>bs. int (length bs) = sz) rb (rb_bytes rb sz)"
  by (auto simp: rb_bytes_def rb_read_def buffer_at_def rb_ok_def)

lemma reads_get_buffer: "rb_ok rb \<Longrightarrow> reads 0 (\<lambda>_. True) rb (get_buffer rb len)"
  by (auto simp: get_buffer_def rb_read_def buffer_at_def rb_ok_def)

lemma reads_bytes_then:
  assumes "rb_ok rb" "0 \<le> sz" "\<And>rb' bs. rb_ok rb' \<Longrightarrow> rb_len rb' + sz \<le> rb_len rb \<Longrightarrow> reads (k - sz) Q rb' (f (rb', bs))"
  shows "reads k Q rb (andthen (rb_bytes rb sz) f)"
  by (rule reads_andthen[OF reads_bytes[OF assms(1,2)]]) (use assms(3) in blast)

lemma reads_get_integer: "rb_ok rb \<Longrightarrow> reads 0 (\<lambda>_. True) rb (get_integer rb cookie)"
  by (auto simp: get_integer_def intro!: reads_bytes_then)

lemma reads_table_size: "rb_ok rb \<Longrightarrow> reads 0 (\<lambda>_. True) rb (table_size rb n)"
  unfolding table_size_def
  by (auto simp: Let_def intro!: reads_bytes_then reads_andthen[OF reads_get_integer])

lemma reads_unpack_array:
  assumes "\<And>rb. rb_ok rb \<Longrightarrow> rb_len rb < m \<Longrightarrow> reads 1 fresh_ok rb (un rb)" "rb_ok rb" "rb_len rb < m" "fresh_pairs_ok t"
  shows "reads 0 fresh_pairs_ok rb (unpack_array un rb t i n)"
  using assms
proof (induction un rb t i n rule: unpack_array.induct)
  case (1 un rb t i n)
  show ?case
  proof (cases "i \<le> n")
    case True
    have "reads 0 fresh_pairs_ok rb (andthen (un rb) (\<lambda>(rb, v). unpack_array un rb (pairs_set t (LInteger (word_of_int i)) v) (i + 1) n))"
    proof (rule reads_andthen[OF "1.prems"(1)[OF "1.prems"(2,3)]])
      fix rb' v assume a: "rb_ok rb'" "rb_len rb' + 1 \<le> rb_len rb" "fresh_ok v"
      have "fresh_pairs_ok (pairs_set t (LInteger (word_of_int i)) v)"
        by (rule fresh_pairs_set[OF "1.prems"(4) _ _ a(3)]) (simp_all add: proper_key_def)
      then have "reads 0 fresh_pairs_ok rb' (unpack_array un rb' (pairs_set t (LInteger (word_of_int i)) v) (i + 1) n)"
        using "1.IH"[OF True "1.prems"(1) a(1)] a(2) "1.prems"(3) by simp
      then show "reads (0 - 1) fresh_pairs_ok rb' (case (rb', v) of (rb, v) \<Rightarrow>
          unpack_array un rb (pairs_set t (LInteger (word_of_int i)) v) (i + 1) n)"
        by (auto elim: reads_weaken)
    qed
    then show ?thesis using True unpack_array.simps[of un rb t i n] by simp
  qed (use "1.prems" unpack_array.simps[of un rb t i n] in auto)
qed

lemma reads_unpack_hash:
  assumes "\<And>rb. rb_ok rb \<Longrightarrow> rb_len rb < m \<Longrightarrow> reads 1 fresh_ok rb (un rb)" "rb_ok rb" "rb_len rb < m" "rb_len rb < int g"
    "fresh_pairs_ok t"
  shows "reads 0 fresh_pairs_ok rb (unpack_hash g un rb t)"
  using assms(2-)
proof (induction g arbitrary: rb t)
  case 0
  then show ?case by (simp add: rb_ok_def)
next
  case (Suc g)
  have "reads (- 1) fresh_pairs_ok rb1 (andthen (un rb1) (\<lambda>(rb, v). andthen (lua_rawset t k v) (\<lambda>t. unpack_hash g un rb t)))"
    if a: "rb_ok rb1" "rb_len rb1 + 1 \<le> rb_len rb" "fresh_ok k" for rb1 k
  proof (rule reads_andthen[OF assms(1)[OF a(1)]])
    show "rb_len rb1 < m" using a(2) Suc.prems(2) by simp
    fix rb2 v assume b: "rb_ok rb2" "rb_len rb2 + 1 \<le> rb_len rb1" "fresh_ok v"
    show "reads (- 1 - 1) fresh_pairs_ok rb2 (case (rb2, v) of (rb, v) \<Rightarrow> andthen (lua_rawset t k v) (\<lambda>t. unpack_hash g un rb t))"
    proof (cases "raw_key k")
      case (Inl e)
      then show ?thesis
        by (auto simp: lua_rawset_def raw_key_def split: lua_val.splits if_splits option.splits)
    next
      case (Inr k')
      have "fresh_pairs_ok (pairs_set t k' v)"
        using fresh_pairs_set[OF Suc.prems(4)] raw_key_ok[OF Inr a(3)] b(3) by blast
      then have "reads 0 fresh_pairs_ok rb2 (unpack_hash g un rb2 (pairs_set t k' v))"
        using Suc.IH[OF b(1)] a(2) b(2) Suc.prems(2,3) by simp
      then show ?thesis using Inr by (auto simp: lua_rawset_def elim: reads_weaken)
    qed
  qed
  then show ?case
    using Suc.prems by (auto intro!: reads_andthen[OF assms(1)[OF Suc.prems(1,2)]])
qed

lemma reads_push_value:
  assumes "\<And>rb. rb_ok rb \<Longrightarrow> rb_len rb < int f \<Longrightarrow> reads 1 fresh_ok rb (un rb)" "rb_ok rb" "rb_len rb < int f"
  shows "reads 0 fresh_ok rb (push_value f un rb type cookie)"
proof -
  have e: "fresh_pairs_ok []" by (simp add: pairs_ok_def)
  have hash: "reads 0 fresh_ok rb (andthen (unpack_hash f un rb t) (\<lambda>(rb, t). Inr (rb, LTable (LTree t))))"
    if "rb_ok rb" "rb_len rb < int f" "fresh_pairs_ok t" for rb t
    by (rule reads_andthen[OF reads_unpack_hash[OF assms(1) that(1,2,2,3)]]) (auto intro: tree_ok.intros)
  have array: "reads 0 fresh_ok rb (andthen (unpack_array un rb [] 1 n) (\<lambda>(rb, t).
      andthen (unpack_hash f un rb t) (\<lambda>(rb, t). Inr (rb, LTable (LTree t)))))"
    if "rb_ok rb" "rb_len rb < int f" for rb n
    by (rule reads_andthen[OF reads_unpack_array[OF assms(1) that e]]) (use hash that in auto)
  have table: "reads 0 fresh_ok rb (unpack_table f un rb cookie)" unfolding unpack_table_def
    by (rule reads_andthen[OF reads_table_size[OF assms(2)]]) (use array assms(3) in auto)
  have str: "reads 0 fresh_ok rb (andthen (get_buffer rb len) (\<lambda>(rb, s). Inr (rb, LString s)))" if "rb_ok rb" for rb len
    by (rule reads_andthen[OF reads_get_buffer[OF that]]) simp
  have long: "reads 0 fresh_ok rb (andthen (rb_bytes rb n) (\<lambda>(rb, bs).
      andthen (get_buffer rb (g bs)) (\<lambda>(rb, s). Inr (rb, LString s))))" if "0 \<le> n" for n g
    by (rule reads_bytes_then[OF assms(2) that]) (use that in \<open>auto intro!: reads_weaken[OF str]\<close>)
  have real: "reads 0 fresh_ok rb (andthen (get_real rb) (\<lambda>(rb, n). Inr (rb, LNumber n)))"
    "reads 0 fresh_ok rb (andthen (get_pointer rb) (\<lambda>(rb, n). Inr (rb, LLightuserdata n)))"
    unfolding get_real_def get_pointer_def by (rule reads_andthen[OF reads_bytes_then[OF assms(2)], of _ 0 "\<lambda>_. True"]; simp)+
  have int: "reads 0 fresh_ok rb (andthen (get_integer rb cookie) (\<lambda>(rb, i). Inr (rb, LInteger i)))"
    by (rule reads_andthen[OF reads_get_integer[OF assms(2)]]) simp
  show ?thesis using assms(2) table str[OF assms(2)] real int by (simp add: push_value_def long)
qed

lemma reads_unpack_one: "rb_ok rb \<Longrightarrow> rb_len rb < int f \<Longrightarrow> reads 1 fresh_ok rb (unpack_one f rb)"
proof (induction f arbitrary: rb)
  case 0
  then show ?case by (simp add: rb_ok_def)
next
  case (Suc f)
  have "reads 0 fresh_ok rb' (push_value f (unpack_one f) rb' type cookie)" if "rb_ok rb'" "rb_len rb' + 1 \<le> rb_len rb" for rb' type cookie
    by (rule reads_push_value[OF Suc.IH]) (use that Suc.prems in auto)
  then show ?case using Suc.prems(1) by (auto intro!: reads_bytes_then)
qed

lemma unpack_loop_ok:
  assumes "rb_ok rb" "rb_len rb < int n" "rb_len rb < int f"
  shows "case unpack_loop n f rb of Inl e \<Rightarrow> lua_error e | Inr ws \<Rightarrow> \<forall>w \<in> set ws. fresh_ok w"
  using assms
proof (induction n arbitrary: rb)
  case 0
  then show ?case by (simp add: rb_ok_def)
next
  case (Suc n)
  show ?case
  proof (cases "rb_len rb < 1")
    case False
    have b: "buffer_at rb (rb_ptr rb) 1 = Inr (take 1 (drop (nat (rb_ptr rb)) (rb_buffer rb)))"
      using Suc.prems(1) False by (simp add: buffer_at_def rb_ok_def)
    let ?rb = "rb\<lparr>rb_ptr := rb_ptr rb + 1, rb_len := rb_len rb - 1\<rparr>"
    have ok: "rb_ok ?rb" "rb_len ?rb < int f" using Suc.prems False by (simp_all add: rb_ok_def)
    have r: "reads 0 fresh_ok ?rb (push_value f (unpack_one f) ?rb t c)" for t c
      by (rule reads_push_value[OF reads_unpack_one ok])
    show ?thesis
    proof (cases "push_value f (unpack_one f) ?rb (le_value (take 1 (drop (nat (rb_ptr rb)) (rb_buffer rb))) mod 8)
        (le_value (take 1 (drop (nat (rb_ptr rb)) (rb_buffer rb))) div 8)")
      case (Inl e)
      then show ?thesis using r[of "le_value (take 1 (drop (nat (rb_ptr rb)) (rb_buffer rb))) mod 8"
          "le_value (take 1 (drop (nat (rb_ptr rb)) (rb_buffer rb))) div 8"] b False by (simp add: rb_read_def)
    next
      case (Inr y)
      obtain rb' v where y: "y = (rb', v)" by fastforce
      have "rb_ok rb' \<and> rb_len rb' \<le> rb_len rb - 1 \<and> fresh_ok v"
        using r[of "le_value (take 1 (drop (nat (rb_ptr rb)) (rb_buffer rb))) mod 8"
          "le_value (take 1 (drop (nat (rb_ptr rb)) (rb_buffer rb))) div 8"] Inr y by simp
      then show ?thesis using Suc.IH[of rb'] Suc.prems Inr y b False
        by (cases "unpack_loop n f rb'") (auto simp: rb_read_def)
    qed
  qed (simp add: rb_read_def)
qed

text \<open>
  C13: for every stream of bytes, whoever made it, \<open>luaseri_unpack\<close> comes to an end, reads no byte outside of the
  buffer it was given, and either raises an error of Lua or returns well-formed values: in every table, also in
  those inside others, the keys are different, not nil and not NaN, and no value is nil.
\<close>

theorem unpack_any_stream:
  assumes "len \<le> int (length bs)"
  shows "case luaseri_unpack (Arg_buffer (Some bs) len) of
      Inl e \<Rightarrow> e \<noteq> Outside \<and> e \<noteq> Out_of_fuel
    | Inr ws \<Rightarrow> \<forall>w \<in> set ws. fresh_ok w"
proof (cases "0 < len")
  case True
  then have "rb_ok (rball_init bs len)" using assms by (simp add: rb_ok_def rball_init_def)
  then show ?thesis using True unpack_loop_ok[of "rball_init bs len" "nat len + 1" "nat len + 1"]
    by (simp add: luaseri_unpack_def unpack_buffer_def Let_def rball_init_def lua_error_def split: sum.splits)
next
  case False
  then have "unpack_loop 1 1 (rball_init bs len) = Inr []" by (simp add: rball_init_def rb_read_def)
  then show ?thesis using False by (auto simp: luaseri_unpack_def unpack_buffer_def Let_def rball_init_def rb_read_def)
qed

section \<open>What can be packed\<close>

text \<open>No function, userdata or thread inside, and at most \<open>n\<close> levels.\<close>

fun packable :: "lua_heap \<Rightarrow> nat \<Rightarrow> lua_value \<Rightarrow> bool" where
  "packable H 0 v = False"
| "packable H (Suc n) v = (case v of
     LTable a \<Rightarrow> \<forall>(k, x) \<in> set (tb_content (H a)). packable H n k \<and> packable H n x
   | LOther ty \<Rightarrow> False
   | _ \<Rightarrow> True)"

text \<open>A packer that accepts the values with \<open>P\<close>, whatever was written before.\<close>

definition accepts :: "packer \<Rightarrow> (lua_value \<Rightarrow> bool) \<Rightarrow> bool" where
  "accepts pack P \<longleftrightarrow> (\<forall>wb x. (\<exists>wb'. pack wb x = Inr wb') \<longleftrightarrow> P x)"

lemma andthen_accepts:
  "(\<And>x. (\<exists>y. f x = Inr y) \<longleftrightarrow> B) \<Longrightarrow> (\<exists>y. andthen r f = Inr y) \<longleftrightarrow> (\<exists>x. r = Inr x) \<and> B"
  by (cases r) auto

lemma wb_pairs_accepts:
  assumes "accepts pack P"
  shows "(\<exists>wb'. wb_metapairs_loop pack wb ps = Inr wb') \<longleftrightarrow> (\<forall>(k, v) \<in> set ps. P k \<and> P v)"
proof (induction ps arbitrary: wb)
  case (Cons p ps)
  have pk: "(\<exists>wb'. pack wb x = Inr wb') \<longleftrightarrow> P x" for wb x using assms by (simp add: accepts_def)
  obtain k v where p: "p = (k, v)" by fastforce
  have "(\<exists>wb'. andthen (pack wb v) (\<lambda>wb. wb_metapairs_loop pack wb ps) = Inr wb') \<longleftrightarrow>
      P v \<and> (\<forall>(k, v) \<in> set ps. P k \<and> P v)" for wb
    unfolding pk[of wb v, symmetric] by (rule andthen_accepts) (rule Cons)
  then have "(\<exists>wb'. wb_metapairs_loop pack wb (p # ps) = Inr wb') \<longleftrightarrow> P k \<and> P v \<and> (\<forall>(k, v) \<in> set ps. P k \<and> P v)"
    unfolding p wb_metapairs_loop.simps pk[of wb k, symmetric] by (rule andthen_accepts)
  then show ?case using p by simp
qed simp

lemma wb_array_accepts:
  assumes "accepts pack P"
  shows "(\<exists>wb'. wb_array_loop pack wb t i n = Inr wb') \<longleftrightarrow> (\<forall>j. i \<le> j \<and> j \<le> n \<longrightarrow> P (lua_rawgeti t j))"
  using assms
proof (induction pack wb t i n rule: wb_array_loop.induct)
  case (1 pack wb t i n)
  show ?case
  proof (cases "i \<le> n")
    case True
    have "(\<exists>wb'. wb_array_loop pack wb t i n = Inr wb') \<longleftrightarrow>
        (\<exists>wb1. pack wb (lua_rawgeti t i) = Inr wb1 \<and> (\<forall>j. i + 1 \<le> j \<and> j \<le> n \<longrightarrow> P (lua_rawgeti t j)))"
      using True "1.IH"[OF True "1.prems"] wb_array_loop.simps[of pack wb t i n] by (auto simp: andthen_eq_Inr)
    also have "\<dots> \<longleftrightarrow> P (lua_rawgeti t i) \<and> (\<forall>j. i + 1 \<le> j \<and> j \<le> n \<longrightarrow> P (lua_rawgeti t j))"
      using "1.prems" by (simp add: accepts_def)
    also have "\<dots> \<longleftrightarrow> (\<forall>j. i \<le> j \<and> j \<le> n \<longrightarrow> P (lua_rawgeti t j))"
      using True by (metis add1_zle_eq order_le_less order_refl)
    finally show ?thesis .
  qed (use wb_array_loop.simps[of pack wb t i n] in auto)
qed

lemma wb_table_accepts:
  assumes "accepts pack P" "table_ok t" "\<And>x i. P x \<Longrightarrow> P LNil \<and> P (LInteger i)"
  shows "(\<exists>wb'. wb_table pack wb t = Inr wb') \<longleftrightarrow> (\<forall>(k, v) \<in> set (tb_content t). P k \<and> P v)"
proof (cases "tb_metapairs t")
  case (Some ps)
  then show ?thesis using wb_pairs_accepts[OF assms(1)] by (simp add: wb_table_def wb_table_metapairs_def tb_content_def)
next
  case None
  let ?n = "int (tb_rawlen t)"
  let ?ps = "filter (\<lambda>(k, v). \<not> in_array k ?n) (tb_pairs t)"
  have n: "sint (of_nat (tb_rawlen t) :: u32) = ?n"
    using assms(2) sint_of_nat_32[of "tb_rawlen t"] by (simp add: table_ok_def)
  have c: "tb_content t = tb_pairs t" using None by (simp add: tb_content_def)
  have "(\<exists>r. andthen (wb_array_loop pack w t 1 ?n) (\<lambda>wb. Inr (wb, ?n)) = Inr r) \<longleftrightarrow>
      (\<exists>wb'. wb_array_loop pack w t 1 ?n = Inr wb') \<and> True" for w
    by (rule andthen_accepts) simp
  then have "(\<exists>r. wb_table_array pack wb t = Inr r) \<longleftrightarrow> (\<forall>j. 1 \<le> j \<and> j \<le> ?n \<longrightarrow> P (lua_rawgeti t j))"
    unfolding wb_table_array_def Let_def n by (simp add: wb_array_accepts[OF assms(1)])
  moreover have "(\<exists>wb'. wb_table pack wb t = Inr wb') \<longleftrightarrow>
      (\<exists>r. wb_table_array pack wb t = Inr r) \<and> (\<forall>(k, v) \<in> set ?ps. P k \<and> P v)"
  proof (cases "wb_table_array pack wb t")
    case (Inr r)
    then obtain wb1 where "r = (wb1, ?n)" unfolding wb_table_array_def Let_def n by (auto simp: andthen_eq_Inr split: if_splits)
    then show ?thesis using None Inr wb_pairs_accepts[OF assms(1), of wb1 ?ps]
      by (simp add: wb_table_def wb_table_hash_def wb_hash_loop_filter)
  qed (use None in \<open>simp add: wb_table_def\<close>)
  moreover have "set (tb_pairs t) = set (array_pairs t 1 ?n) \<union> set ?ps"
    using arg_cong[OF table_pairs_mset(2)[OF assms(2) None refl], of set_mset] by auto
  moreover have "(\<forall>j. 1 \<le> j \<and> j \<le> ?n \<longrightarrow> P (lua_rawgeti t j)) \<longleftrightarrow> (\<forall>(k, v) \<in> set (array_pairs t 1 ?n). P k \<and> P v)"
  proof
    assume "\<forall>j. 1 \<le> j \<and> j \<le> ?n \<longrightarrow> P (lua_rawgeti t j)"
    then show "\<forall>(k, v) \<in> set (array_pairs t 1 ?n). P k \<and> P v" using assms(3) by (fastforce simp: set_array_pairs)
  next
    assume a: "\<forall>(k, v) \<in> set (array_pairs t 1 ?n). P k \<and> P v"
    have "P LNil" if "1 \<le> ?n"
    proof -
      have "lua_rawgeti t ?n \<noteq> LNil" using assms(2) that by (auto simp: table_ok_def)
      then have "(LInteger (word_of_int ?n), lua_rawgeti t ?n) \<in> set (array_pairs t 1 ?n)"
        using that unfolding set_array_pairs by blast
      then show ?thesis using a assms(3) by fast
    qed
    moreover have "P (lua_rawgeti t j)" if "1 \<le> j" "j \<le> ?n" "lua_rawgeti t j \<noteq> LNil" for j
    proof -
      have "(LInteger (word_of_int j), lua_rawgeti t j) \<in> set (array_pairs t 1 ?n)"
        using that unfolding set_array_pairs by blast
      then show ?thesis using a by fast
    qed
    ultimately show "\<forall>j. 1 \<le> j \<and> j \<le> ?n \<longrightarrow> P (lua_rawgeti t j)" by (metis order_trans)
  qed
  ultimately show ?thesis unfolding c by (simp only: ball_Un)
qed

lemma packable_scalar: "packable H n x \<Longrightarrow> packable H n LNil \<and> packable H n (LInteger i)"
  by (cases n) auto

text \<open>Exactly the values of at most 33 levels without functions, userdata and threads are packed.\<close>

lemma pack_one_accepts:
  assumes "heap_ok H"
  shows "accepts (\<lambda>b v. pack_one H b v depth) (packable H (33 - depth))"
proof (induction "33 - depth" arbitrary: depth rule: less_induct)
  case less
  have "(\<exists>wb'. pack_one H wb v depth = Inr wb') \<longleftrightarrow> packable H (33 - depth) v" for wb v
  proof (cases "depth \<le> 32")
    case True
    then obtain m where m: "33 - depth = Suc m" "33 - (depth + 1) = m" by (metis Suc_diff_Suc add.commute diff_diff_left le_imp_less_Suc
        numeral_2_eq_2 one_add_one plus_1_eq_Suc eval_nat_numeral(3) Suc_eq_plus1)
    have "accepts (\<lambda>b v. pack_one H b v (depth + 1)) (packable H m)" using less[of "depth + 1"] m by simp
    then have "(\<exists>wb'. wb_table (\<lambda>b v. pack_one H b v (depth + 1)) wb (H a) = Inr wb') \<longleftrightarrow>
        (\<forall>(k, v) \<in> set (tb_content (H a)). packable H m k \<and> packable H m v)" for a
      using assms by (intro wb_table_accepts packable_scalar) (simp_all add: heap_ok_def)
    then show ?thesis using True m(1) pack_one.simps[of H wb v depth] by (cases v) (simp_all add: MAX_DEPTH_def)
  next
    case False
    then show ?thesis using pack_one.simps[of H wb v depth] by (simp add: MAX_DEPTH_def)
  qed
  then show ?case by (simp add: accepts_def)
qed

lemma pack_from_accepts:
  "heap_ok H \<Longrightarrow> (\<exists>wb'. pack_from H wb vs = Inr wb') \<longleftrightarrow> (\<forall>v \<in> set vs. packable H 33 v)"
proof (induction vs arbitrary: wb)
  case (Cons v vs)
  have "(\<exists>wb'. pack_one H wb v 0 = Inr wb') \<longleftrightarrow> packable H 33 v"
    using pack_one_accepts[OF Cons.prems, of 0] by (simp add: accepts_def)
  moreover have "(\<exists>wb'. pack_from H wb (v # vs) = Inr wb') \<longleftrightarrow>
      (\<exists>wb'. pack_one H wb v 0 = Inr wb') \<and> (\<forall>v \<in> set vs. packable H 33 v)"
    unfolding pack_from.simps by (rule andthen_accepts) (rule Cons.IH[OF Cons.prems])
  ultimately show ?case by simp
qed simp

definition contains :: "lua_heap \<Rightarrow> ptr \<Rightarrow> ptr \<Rightarrow> bool" where
  "contains H a b \<longleftrightarrow> (\<exists>(k, v) \<in> set (tb_content (H a)). k = LTable b \<or> v = LTable b)"

lemma packable_contains:
  assumes "contains H a b" "packable H n (LTable a)"
  shows "\<exists>m < n. packable H m (LTable b)"
  using assms by (cases n) (fastforce simp: contains_def)+

lemma packable_descends: "(contains H)\<^sup>+\<^sup>+ a b \<Longrightarrow> packable H n (LTable a) \<Longrightarrow> \<exists>m < n. packable H m (LTable b)"
proof (induction rule: tranclp_induct)
  case (base b)
  then show ?case by (rule packable_contains)
next
  case (step b c)
  then show ?case using packable_contains[OF step.hyps(2)] by (meson less_trans)
qed

lemma cyclic_not_packable: "(contains H)\<^sup>+\<^sup>+ a a \<Longrightarrow> \<not> packable H n (LTable a)"
proof (induction n rule: less_induct)
  case (less n)
  then show ?case using packable_descends[of H a a n] by blast
qed

text \<open>
  C14: packing comes to an end for all tables, and \<open>luaseri_pack\<close> makes a message from its arguments
  exactly when none of them has more than 33 levels or holds a function, userdata or thread anywhere. A table that
  contains itself, directly or through other tables, is always refused.
\<close>

theorem pack_accepts_finite:
  assumes "heap_ok H"
  shows "((\<exists>r. luaseri_pack H vs = Inr r) \<longleftrightarrow> (\<forall>v \<in> set vs. packable H 33 v)) \<and>
    (LTable a \<in> set vs \<and> (contains H)\<^sup>+\<^sup>+ a a \<longrightarrow> (\<exists>e. luaseri_pack H vs = Inl e))"
proof -
  have *: "(\<exists>r. luaseri_pack H vs = Inr r) \<longleftrightarrow> (\<forall>v \<in> set vs. packable H 33 v)"
    unfolding luaseri_pack_def pack_from_accepts[OF assms, of "wb_init blk_alloc", symmetric]
    by (simp add: andthen_accepts[where B = True])
  moreover have "\<exists>e. luaseri_pack H vs = Inl e" if "LTable a \<in> set vs" "(contains H)\<^sup>+\<^sup>+ a a"
  proof -
    have "\<not> (\<exists>r. luaseri_pack H vs = Inr r)" unfolding * using cyclic_not_packable[OF that(2)] that(1) by blast
    then show ?thesis by (cases "luaseri_pack H vs") auto
  qed
  ultimately show ?thesis by blast
qed

section \<open>A small heap\<close>

text \<open>A list with a named field that is another table, and at 3 a table that contains itself through the table at 4.\<close>

definition sample_heap :: lua_heap where
  "sample_heap a =
     (if a = 1 then \<lparr>tb_pairs = [(LInteger 1, LInteger 300), (LInteger 2, LString [65, 66]), (LString [67], LTable 2)],
        tb_rawlen = 2, tb_metapairs = None\<rparr>
      else if a = 3 then \<lparr>tb_pairs = [(LInteger 1, LTable 4)], tb_rawlen = 1, tb_metapairs = None\<rparr>
      else if a = 4 then \<lparr>tb_pairs = [], tb_rawlen = 0, tb_metapairs = Some [(LTable 3, LBoolean True)]\<rparr>
      else \<lparr>tb_pairs = [], tb_rawlen = 0, tb_metapairs = None\<rparr>)"

lemma sample_heap_ok: "heap_ok sample_heap"
  by (auto simp: heap_ok_def table_ok_def sample_heap_def tb_content_def proper_key_def value_ok_def lua_rawgeti_def)

definition sample_values :: "lua_value list" where
  "sample_values = [LTable 1, LNil, LString [65, 66, 67]]"

theorem seri_roundtrip_witness:
  "\<exists>bs ws. luaseri_pack sample_heap sample_values = Inr (Some (bs, int (length bs))) \<and>
    luaseri_unpack (Arg_string bs) = Inr ws \<and> list_all2 (same_value sample_heap) sample_values ws"
proof -
  have "case pack_from sample_heap (wb_init blk_alloc) sample_values of
      Inl e \<Rightarrow> False | Inr wb \<Rightarrow> length (concat (wb_blocks wb)) = 128"
    by code_simp
  then obtain wb where wb: "pack_from sample_heap (wb_init blk_alloc) sample_values = Inr wb"
    "length (concat (wb_blocks wb)) < 2 ^ 31" by (auto split: sum.splits)
  have "\<forall>v \<in> set sample_values. value_ok v" by (auto simp: sample_values_def value_ok_def)
  from seri_roundtrip[OF sample_heap_ok this wb] show ?thesis by blast
qed

theorem unpack_any_stream_witness:
  "case luaseri_unpack (Arg_buffer (Some [14, 34, 251, 255, 255, 255]) 6) of
      Inl e \<Rightarrow> e \<noteq> Outside \<and> e \<noteq> Out_of_fuel | Inr ws \<Rightarrow> \<forall>w \<in> set ws. fresh_ok w"
  using unpack_any_stream[of 6 "[14, 34, 251, 255, 255, 255]"] by simp

theorem pack_accepts_finite_witness:
  "(\<exists>e. luaseri_pack sample_heap [LNil, LTable 3] = Inl e) \<and> (\<exists>r. luaseri_pack sample_heap [LNil, LString [65]] = Inr r)"
proof -
  have "contains sample_heap 3 4" "contains sample_heap 4 3" by (simp_all add: contains_def sample_heap_def tb_content_def)
  then have c: "(contains sample_heap)\<^sup>+\<^sup>+ 3 3" by (meson tranclp.r_into_trancl tranclp.trancl_into_trancl)
  have "packable sample_heap 33 LNil" "packable sample_heap 33 (LString [65])" by (simp_all add: numeral_eq_Suc)
  then show ?thesis
    using pack_accepts_finite[OF sample_heap_ok, of "[LNil, LTable 3]" 3] pack_accepts_finite[OF sample_heap_ok, of "[LNil, LString [65]]" 3] c
    by simp
qed

end
