(* ===== verification/Socket_Server.thy ===== *)
theory Socket_Server
  imports Socket
begin

text \<open>
  \<^verbatim>\<open>skynet-src/socket_server.c\<close>: the thread that owns all sockets of a node. Other threads reserve the number
  of a socket and write requests into a pipe; the socket thread reads them, waits for events and reports what happened.
  Every system call is appended to a trace, and its result is a function of the trace, so that the operating
  system may do anything. The lists of pending data of a socket are lists; the bytes behind a pointer are looked up
  in the heap when a buffer is queued, as nobody changes them afterwards.

  A call of a function is one step here: the atomic operations of \<open>reserve_id\<close> always succeed at once, and the pipe keeps
  requests whole and in order and is never full. \<open>EAGAIN\<close> stands also for \<open>EWOULDBLOCK\<close> and \<open>EMFILE\<close>
  for \<open>ENFILE\<close>; the text of an error is the one of the call that failed, although the code reads \<open>errno\<close> after it closed the
  socket. Messages on \<open>stderr\<close> are left out, and a size in \<open>int\<close> is a number without bound.
\<close>

section \<open>Types\<close>

definition MAX_SOCKET :: nat where "MAX_SOCKET = 65536"
definition MIN_READ_BUFFER :: int where "MIN_READ_BUFFER = 64"
definition MAX_EVENT :: nat where "MAX_EVENT = 64"
definition MAX_UDP_PACKAGE :: int where "MAX_UDP_PACKAGE = 65535"
definition UDP_ADDRESS_SIZE :: nat where "UDP_ADDRESS_SIZE = 19"

definition HASH_ID :: "int \<Rightarrow> nat" where
  "HASH_ID i = unat (word_of_int i :: u32) mod MAX_SOCKET"

datatype socket_type = SOCKET_TYPE_INVALID | SOCKET_TYPE_RESERVE | SOCKET_TYPE_PLISTEN | SOCKET_TYPE_LISTEN
  | SOCKET_TYPE_CONNECTING | SOCKET_TYPE_CONNECTED | SOCKET_TYPE_HALFCLOSE | SOCKET_TYPE_PACCEPT | SOCKET_TYPE_BIND

definition PROTOCOL_TCP :: nat where "PROTOCOL_TCP = 0"
definition PROTOCOL_UDP :: nat where "PROTOCOL_UDP = 1"
definition PROTOCOL_UDPv6 :: nat where "PROTOCOL_UDPv6 = 2"

datatype priority = PRIORITY_HIGH | PRIORITY_LOW

text \<open>The bytes from \<open>ptr\<close> on, as many as \<open>sz\<close>, are \<open>wr_data\<close>.\<close>

record write_buffer =
  wr_buffer :: ptr
  wr_ptr :: ptr
  wr_data :: "u8 list"
  wr_userobject :: bool
  wr_udp_address :: "u8 list"

text \<open>The two members of the union \<open>p\<close> are used by different protocols.\<close>

record socket =
  sk_opaque :: u64
  sk_high :: "write_buffer list"
  sk_low :: "write_buffer list"
  sk_wb_size :: int
  sk_fd :: int
  sk_id :: int
  sk_protocol :: nat
  sk_type :: socket_type
  sk_size :: int
  sk_udp_address :: "u8 list"

text \<open>An event for a socket, by its slot, or for the pipe.\<close>

record sp_event =
  ev_s :: "nat option"
  ev_read :: bool
  ev_write :: bool

record request_send =
  rq_id :: int
  rq_sz :: int
  rq_buffer :: ptr

datatype request =
    Req_S int u64
  | Req_B int int u64
  | Req_L int int u64
  | Req_K int bool u64
  | Req_O int int u64 string
  | Req_X
  | Req_D request_send
  | Req_P request_send
  | Req_A request_send "u8 list"
  | Req_T int int int
  | Req_U int int int u64
  | Req_C int "u8 list"
  | Req_unknown char

text \<open>The system calls, and the functions of \<^verbatim>\<open>socket_poll.h\<close>.\<close>

type_synonym sockaddr = "u8 list"

datatype sockopt_level = Level_socket | Level_tcp

datatype ip_protocol = IPPROTO_TCP | IPPROTO_UDP

datatype syscall =
    Sys_write int "u8 list"
  | Sys_sendto int "u8 list" "sockaddr option"
  | Sys_read int int
  | Sys_recvfrom int int
  | Sys_close int
  | Sys_socket int ip_protocol
  | Sys_setsockopt int sockopt_level int int
  | Sys_connect int sockaddr
  | Sys_bind int sockaddr
  | Sys_listen int int
  | Sys_accept int
  | Sys_getsockopt int
  | Sys_getpeername int
  | Sys_getaddrinfo string int ip_protocol
  | Sys_pipe
  | Sp_create
  | Sp_release
  | Sp_nonblocking int
  | Sp_add int "nat option"
  | Sp_del int
  | Sp_write int nat bool
  | Sp_wait

datatype errno = EINTR | EAGAIN | EINPROGRESS | EMFILE | Errno string

record sys_result =
  sy_ret :: int
  sy_errno :: errno
  sy_data :: "u8 list"
  sy_addr :: sockaddr
  sy_family :: int
  sy_addrs :: "(int \<times> sockaddr) list"
  sy_events :: "sp_event list"
  sy_fds :: "int \<times> int"

text \<open>
  What the code gets from outside: the results of system calls after a trace, the texts of \<open>strerror\<close> and
  \<open>gai_strerror\<close>, and \<open>inet_ntop\<close> with the port.
\<close>

record os =
  os_result :: "syscall list \<Rightarrow> sys_result"
  os_strerror :: "errno \<Rightarrow> string"
  os_gai_strerror :: "int \<Rightarrow> string"
  os_inet_ntop :: "sockaddr \<Rightarrow> string option"
  os_port :: "sockaddr \<Rightarrow> int"

record socket_server =
  ss_recvctrl_fd :: int
  ss_sendctrl_fd :: int
  ss_checkctrl :: bool
  ss_alloc_id :: u32
  ss_event_n :: nat
  ss_event_index :: nat
  ss_soi_buffer :: "(ptr \<Rightarrow> ptr) option"
  ss_ev :: "sp_event list"
  ss_slot :: "nat \<Rightarrow> socket"
  ss_pipe :: "request list"
  ss_heap :: "ptr \<rightharpoonup> u8 list"
  ss_brk :: ptr
  ss_calls :: "syscall list"

text \<open>What a function reports: \<open>None\<close> is the result \<open>-1\<close>.\<close>

type_synonym socket_report = "(poll_type \<times> socket_message) option"

definition reports :: "poll_type \<Rightarrow> socket_report \<Rightarrow> bool" where
  "reports t r = (case r of None \<Rightarrow> False | Some (t', m) \<Rightarrow> t' = t)"

definition sys :: "os \<Rightarrow> syscall \<Rightarrow> socket_server \<Rightarrow> sys_result \<times> socket_server" where
  "sys E c ss = (let calls = ss_calls ss @ [c] in (os_result E calls, ss\<lparr>ss_calls := calls\<rparr>))"

definition set_slot :: "nat \<Rightarrow> socket \<Rightarrow> socket_server \<Rightarrow> socket_server" where
  "set_slot i s ss = ss\<lparr>ss_slot := (ss_slot ss)(i := s)\<rparr>"

definition set_type :: "nat \<Rightarrow> socket_type \<Rightarrow> socket_server \<Rightarrow> socket_server" where
  "set_type i t ss = set_slot i ((ss_slot ss i)\<lparr>sk_type := t\<rparr>) ss"

definition ss_malloc :: "u8 list \<Rightarrow> socket_server \<Rightarrow> ptr \<times> socket_server" where
  "ss_malloc bs ss = (ss_brk ss, ss\<lparr>ss_heap := (ss_heap ss)(ss_brk ss \<mapsto> bs), ss_brk := ss_brk ss + 1\<rparr>)"

text \<open>\<open>FREE\<close> and \<open>soi.free\<close>; a second one on the same object is \<open>None\<close>.\<close>

definition ss_free :: "ptr \<Rightarrow> socket_server \<Rightarrow> socket_server option" where
  "ss_free p ss =
     (if p = NULL then Some ss
      else if ss_heap ss p = None then None
      else Some (ss\<lparr>ss_heap := (ss_heap ss)(p := None)\<rparr>))"

definition message_of :: "int \<Rightarrow> u64 \<Rightarrow> int \<Rightarrow> ptr \<Rightarrow> string option \<Rightarrow> socket_message" where
  "message_of i opaque ud data text = \<lparr>rs_id = i, rs_opaque = opaque, rs_ud = ud, rs_data = data, rs_text = text\<rparr>"

section \<open>Buffers and slots\<close>

record send_object =
  so_buffer :: ptr
  so_data :: "u8 list"
  so_userobject :: bool

text \<open>A negative size marks an object of the interface \<open>soi\<close>, if one is set; its bytes are those of the heap entry.\<close>

definition send_object_init :: "ptr \<Rightarrow> int \<Rightarrow> socket_server \<Rightarrow> send_object option" where
  "send_object_init obj sz ss = do {
     bytes \<leftarrow> ss_heap ss obj;
     if sz < 0 then do {
       soi_buffer \<leftarrow> ss_soi_buffer ss;
       Some \<lparr>so_buffer = soi_buffer obj, so_data = bytes, so_userobject = True\<rparr>
     }
     else do {
       c_assert (nat sz \<le> length bytes);
       Some \<lparr>so_buffer = obj, so_data = take (nat sz) bytes, so_userobject = False\<rparr>
     }
   }"

definition write_buffer_free :: "write_buffer \<Rightarrow> socket_server \<Rightarrow> socket_server option" where
  "write_buffer_free wb ss = ss_free (wr_buffer wb) ss"

definition SO_REUSEADDR :: int where "SO_REUSEADDR = 2"
definition SO_KEEPALIVE :: int where "SO_KEEPALIVE = 9"
definition TCP_NODELAY :: int where "TCP_NODELAY = 1"

definition socket_keepalive :: "os \<Rightarrow> int \<Rightarrow> socket_server \<Rightarrow> socket_server" where
  "socket_keepalive E fd ss = snd (sys E (Sys_setsockopt fd Level_socket SO_KEEPALIVE 1) ss)"

fun reserve_loop :: "nat \<Rightarrow> socket_server \<Rightarrow> socket_server \<times> int" where
  "reserve_loop 0 ss = (ss, - 1)"
| "reserve_loop (Suc n) ss =
     (let a = ss_alloc_id ss + 1;
          a = (if sint a < 0 then a AND 0x7fffffff else a);
          i = sint a;
          ss = ss\<lparr>ss_alloc_id := a\<rparr>;
          s = ss_slot ss (HASH_ID i)
      in if sk_type s = SOCKET_TYPE_INVALID
         then (set_slot (HASH_ID i) (s\<lparr>sk_type := SOCKET_TYPE_RESERVE, sk_id := i, sk_fd := - 1\<rparr>) ss, i)
         else reserve_loop n ss)"

definition reserve_id :: "socket_server \<Rightarrow> socket_server \<times> int" where
  "reserve_id ss = reserve_loop MAX_SOCKET ss"

definition free_wb_list :: "write_buffer list \<Rightarrow> socket_server \<Rightarrow> socket_server option" where
  "free_wb_list wbs ss = fold_option write_buffer_free wbs ss"

definition force_close :: "os \<Rightarrow> nat \<Rightarrow> socket_server \<Rightarrow> (socket_server \<times> socket_message) option" where
  "force_close E i ss =
     (let s = ss_slot ss i; result = message_of (sk_id s) (sk_opaque s) 0 NULL None in
      if sk_type s = SOCKET_TYPE_INVALID then Some (ss, result)
      else do {
        c_assert (sk_type s \<noteq> SOCKET_TYPE_RESERVE);
        ss \<leftarrow> free_wb_list (sk_high s) ss;
        ss \<leftarrow> free_wb_list (sk_low s) ss;
        let ss = (if sk_type s \<noteq> SOCKET_TYPE_PACCEPT \<and> sk_type s \<noteq> SOCKET_TYPE_PLISTEN
                  then snd (sys E (Sp_del (sk_fd s)) ss) else ss);
        let ss = (if sk_type s \<noteq> SOCKET_TYPE_BIND then snd (sys E (Sys_close (sk_fd s)) ss) else ss);
        Some (set_slot i (s\<lparr>sk_high := [], sk_low := [], sk_type := SOCKET_TYPE_INVALID\<rparr>) ss, result)
      })"

definition new_fd :: "os \<Rightarrow> int \<Rightarrow> int \<Rightarrow> nat \<Rightarrow> u64 \<Rightarrow> bool \<Rightarrow> socket_server \<Rightarrow> (socket_server \<times> nat option) option" where
  "new_fd E i fd protocol opaque add ss =
     (let h = HASH_ID i; s = ss_slot ss h in do {
        c_assert (sk_type s = SOCKET_TYPE_RESERVE);
        let (r, ss) = (if add then (let (r, ss) = sys E (Sp_add fd (Some h)) ss in (sy_ret r \<noteq> 0, ss)) else (False, ss));
        if r then Some (set_type h SOCKET_TYPE_INVALID ss, None)
        else do {
          c_assert (sk_high s = []);
          c_assert (sk_low s = []);
          Some (set_slot h (s\<lparr>sk_id := i, sk_fd := fd, sk_protocol := protocol, sk_size := MIN_READ_BUFFER,
                  sk_opaque := opaque, sk_wb_size := 0\<rparr>) ss, Some h)
        }
      })"

definition socket_zero :: socket where
  "socket_zero = \<lparr>sk_opaque = 0, sk_high = [], sk_low = [], sk_wb_size = 0, sk_fd = 0, sk_id = 0, sk_protocol = 0,
     sk_type = SOCKET_TYPE_INVALID, sk_size = 0, sk_udp_address = []\<rparr>"

text \<open>The memory of a new server: the fields that the code does not set are zero in the model.\<close>

definition socket_server_start_state :: socket_server where
  "socket_server_start_state = \<lparr>ss_recvctrl_fd = 0, ss_sendctrl_fd = 0, ss_checkctrl = True, ss_alloc_id = 0, ss_event_n = 0, ss_event_index = 0,
     ss_soi_buffer = None, ss_ev = replicate MAX_EVENT \<lparr>ev_s = None, ev_read = False, ev_write = False\<rparr>,
     ss_slot = (\<lambda>_. socket_zero), ss_pipe = [], ss_heap = Map.empty, ss_brk = 1, ss_calls = []\<rparr>"

definition FD_SETSIZE :: int where "FD_SETSIZE = 1024"

definition socket_server_create :: "os \<Rightarrow> socket_server option" where
  "socket_server_create E =
     (let (efd, ss) = sys E Sp_create socket_server_start_state in
      if sy_ret efd = - 1 then None
      else let (p, ss) = sys E Sys_pipe ss in
        if sy_ret p \<noteq> 0 then None
        else let (r, ss) = sys E (Sp_add (fst (sy_fds p)) None) ss in
          if sy_ret r \<noteq> 0 then None
          else do {
            c_assert (fst (sy_fds p) < FD_SETSIZE);
            Some (ss\<lparr>ss_recvctrl_fd := fst (sy_fds p), ss_sendctrl_fd := snd (sy_fds p)\<rparr>)
          })"

fun release_loop :: "os \<Rightarrow> nat list \<Rightarrow> socket_server \<Rightarrow> socket_server option" where
  "release_loop E [] ss = Some ss"
| "release_loop E (i # is) ss =
     (if sk_type (ss_slot ss i) \<noteq> SOCKET_TYPE_RESERVE
      then do { (ss, _) \<leftarrow> force_close E i ss; release_loop E is ss }
      else release_loop E is ss)"

definition socket_server_release :: "os \<Rightarrow> socket_server \<Rightarrow> socket_server option" where
  "socket_server_release E ss = do {
     ss \<leftarrow> release_loop E [0..<MAX_SOCKET] ss;
     let ss = snd (sys E (Sys_close (ss_sendctrl_fd ss)) ss);
     let ss = snd (sys E (Sys_close (ss_recvctrl_fd ss)) ss);
     Some (snd (sys E Sp_release ss))
   }"

text \<open>The loop over the addresses of a host: the socket that connects or may still do so, or the last error.\<close>

fun connect_loop :: "os \<Rightarrow> (int \<times> sockaddr) list \<Rightarrow> errno \<Rightarrow> socket_server \<Rightarrow>
    socket_server \<times> (errno + int \<times> sockaddr \<times> bool)" where
  "connect_loop E [] err ss = (ss, Inl err)"
| "connect_loop E ((family, addr) # ais) err ss =
     (let (r, ss) = sys E (Sys_socket family IPPROTO_TCP) ss; sock = sy_ret r in
      if sock < 0 then connect_loop E ais (sy_errno r) ss
      else
        let ss = socket_keepalive E sock ss;
            ss = snd (sys E (Sp_nonblocking sock) ss);
            (c, ss) = sys E (Sys_connect sock addr) ss
        in if sy_ret c \<noteq> 0 \<and> sy_errno c \<noteq> EINPROGRESS
           then connect_loop E ais (sy_errno c) (snd (sys E (Sys_close sock) ss))
           else (ss, Inr (sock, addr, sy_ret c = 0)))"

definition open_failed :: "int \<Rightarrow> u64 \<Rightarrow> string \<Rightarrow> socket_server \<Rightarrow> socket_server \<times> socket_report" where
  "open_failed i opaque text ss =
     (set_type (HASH_ID i) SOCKET_TYPE_INVALID ss, Some (SOCKET_ERROR, message_of i opaque 0 NULL (Some text)))"

definition open_socket :: "os \<Rightarrow> int \<Rightarrow> int \<Rightarrow> u64 \<Rightarrow> string \<Rightarrow> socket_server \<Rightarrow> (socket_server \<times> socket_report) option" where
  "open_socket E i port opaque host ss =
     (let (g, ss) = sys E (Sys_getaddrinfo host port IPPROTO_TCP) ss in
      if sy_ret g \<noteq> 0 then Some (open_failed i opaque (os_gai_strerror E (sy_ret g)) ss)
      else let (ss, c) = connect_loop E (sy_addrs g) (sy_errno g) ss in
        case c of
          Inl err \<Rightarrow> Some (open_failed i opaque (os_strerror E err) ss)
        | Inr (sock, addr, connected) \<Rightarrow> do {
            (ss, ns) \<leftarrow> new_fd E i sock PROTOCOL_TCP opaque True ss;
            case ns of
              None \<Rightarrow> Some (open_failed i opaque ''reach skynet socket number limit'' (snd (sys E (Sys_close sock) ss)))
            | Some h \<Rightarrow>
                if connected
                then Some (set_type h SOCKET_TYPE_CONNECTED ss,
                  Some (SOCKET_OPEN, message_of i opaque 0 NULL (os_inet_ntop E addr)))
                else Some (snd (sys E (Sp_write sock h True) (set_type h SOCKET_TYPE_CONNECTING ss)), None)
          })"

section \<open>Sending\<close>

definition get_list :: "priority \<Rightarrow> socket \<Rightarrow> write_buffer list" where
  "get_list pr s = (case pr of PRIORITY_HIGH \<Rightarrow> sk_high s | PRIORITY_LOW \<Rightarrow> sk_low s)"

definition set_list :: "priority \<Rightarrow> write_buffer list \<Rightarrow> socket \<Rightarrow> socket" where
  "set_list pr wbs s = (case pr of PRIORITY_HIGH \<Rightarrow> s\<lparr>sk_high := wbs\<rparr> | PRIORITY_LOW \<Rightarrow> s\<lparr>sk_low := wbs\<rparr>)"

definition advance :: "nat \<Rightarrow> write_buffer \<Rightarrow> write_buffer" where
  "advance n wb = wb\<lparr>wr_ptr := wr_ptr wb + n, wr_data := drop n (wr_data wb)\<rparr>"

partial_function (option) send_list_tcp :: "os \<Rightarrow> nat \<Rightarrow> priority \<Rightarrow> socket_server \<Rightarrow> (socket_server \<times> socket_report) option" where
  "send_list_tcp E i pr ss = (case get_list pr (ss_slot ss i) of
     [] \<Rightarrow> Some (ss, None)
   | tmp # rest \<Rightarrow>
       let (r, ss) = sys E (Sys_write (sk_fd (ss_slot ss i)) (wr_data tmp)) ss; sz = sy_ret r in
       if sz < 0 then
         (if sy_errno r = EINTR then send_list_tcp E i pr ss
          else if sy_errno r = EAGAIN then Some (ss, None)
          else do { (ss, m) \<leftarrow> force_close E i ss; Some (ss, Some (SOCKET_CLOSE, m)) })
       else
         let s = (ss_slot ss i)\<lparr>sk_wb_size := sk_wb_size (ss_slot ss i) - sz\<rparr> in
         if sz \<noteq> int (length (wr_data tmp))
         then Some (set_slot i (set_list pr (advance (nat sz) tmp # rest) s) ss, None)
         else do {
           ss \<leftarrow> write_buffer_free tmp (set_slot i (set_list pr rest s) ss);
           send_list_tcp E i pr ss
         })"

text \<open>The port and the address of the peer in network order, or \<open>None\<close> when the protocol does not fit.\<close>

definition udp_socket_address :: "socket \<Rightarrow> u8 list \<Rightarrow> sockaddr option" where
  "udp_socket_address s address =
     (if unat (address ! 0) \<noteq> sk_protocol s then None
      else if sk_protocol s = PROTOCOL_UDP then Some (take 6 (drop 1 address))
      else if sk_protocol s = PROTOCOL_UDPv6 then Some (take 18 (drop 1 address))
      else None)"

fun send_list_udp :: "os \<Rightarrow> nat \<Rightarrow> priority \<Rightarrow> write_buffer list \<Rightarrow> socket_server \<Rightarrow> (socket_server \<times> socket_report) option" where
  "send_list_udp E i pr [] ss = Some (ss, None)"
| "send_list_udp E i pr (tmp # rest) ss =
     (let s = ss_slot ss i;
          (r, ss) = sys E (Sys_sendto (sk_fd s) (wr_data tmp) (udp_socket_address s (wr_udp_address tmp))) ss
      in if sy_ret r < 0 then Some (ss, None)
         else do {
           let s = s\<lparr>sk_wb_size := sk_wb_size s - int (length (wr_data tmp))\<rparr>;
           ss \<leftarrow> write_buffer_free tmp (set_slot i (set_list pr rest s) ss);
           send_list_udp E i pr rest ss
         })"

definition send_list :: "os \<Rightarrow> nat \<Rightarrow> priority \<Rightarrow> socket_server \<Rightarrow> (socket_server \<times> socket_report) option" where
  "send_list E i pr ss =
     (if sk_protocol (ss_slot ss i) = PROTOCOL_TCP then send_list_tcp E i pr ss
      else send_list_udp E i pr (get_list pr (ss_slot ss i)) ss)"

definition list_uncomplete :: "write_buffer list \<Rightarrow> bool" where
  "list_uncomplete wbs = (case wbs of [] \<Rightarrow> False | wb # _ \<Rightarrow> wr_ptr wb \<noteq> wr_buffer wb)"

definition raise_uncomplete :: "nat \<Rightarrow> socket_server \<Rightarrow> socket_server option" where
  "raise_uncomplete i ss = (let s = ss_slot ss i in
     case sk_low s of
       [] \<Rightarrow> None
     | tmp # rest \<Rightarrow> do {
         c_assert (sk_high s = []);
         Some (set_slot i (s\<lparr>sk_low := rest, sk_high := [tmp]\<rparr>) ss)
       })"

definition send_buffer :: "os \<Rightarrow> nat \<Rightarrow> socket_server \<Rightarrow> (socket_server \<times> socket_report) option" where
  "send_buffer E i ss = do {
     c_assert (\<not> list_uncomplete (sk_low (ss_slot ss i)));
     (ss, r) \<leftarrow> send_list E i PRIORITY_HIGH ss;
     if r \<noteq> None then Some (ss, r)
     else if sk_high (ss_slot ss i) = [] then
       if sk_low (ss_slot ss i) \<noteq> [] then do {
         (ss, r) \<leftarrow> send_list E i PRIORITY_LOW ss;
         if r \<noteq> None then Some (ss, r)
         else if list_uncomplete (sk_low (ss_slot ss i)) then do { ss \<leftarrow> raise_uncomplete i ss; Some (ss, None) }
         else Some (ss, None)
       }
       else
         let ss = snd (sys E (Sp_write (sk_fd (ss_slot ss i)) i False) ss) in
         if sk_type (ss_slot ss i) = SOCKET_TYPE_HALFCLOSE
         then do { (ss, m) \<leftarrow> force_close E i ss; Some (ss, Some (SOCKET_CLOSE, m)) }
         else Some (ss, None)
     else Some (ss, None)
   }"

text \<open>The common part of the three functions that queue a buffer; \<open>n\<close> bytes of it were written already.\<close>

definition append_sendbuffer_common :: "nat \<Rightarrow> priority \<Rightarrow> request_send \<Rightarrow> nat \<Rightarrow> u8 list \<Rightarrow> socket_server \<Rightarrow> socket_server option" where
  "append_sendbuffer_common i pr request n address ss = do {
     so \<leftarrow> send_object_init (rq_buffer request) (rq_sz request) ss;
     let s = ss_slot ss i;
     let buf = \<lparr>wr_buffer = rq_buffer request, wr_ptr = so_buffer so + n, wr_data = drop n (so_data so),
                wr_userobject = so_userobject so, wr_udp_address = address\<rparr>;
     Some (set_slot i ((set_list pr (get_list pr s @ [buf]) s)\<lparr>sk_wb_size := sk_wb_size s + int (length (wr_data buf))\<rparr>) ss)
   }"

definition append_sendbuffer_udp :: "nat \<Rightarrow> priority \<Rightarrow> request_send \<Rightarrow> u8 list \<Rightarrow> socket_server \<Rightarrow> socket_server option" where
  "append_sendbuffer_udp i pr request address ss = append_sendbuffer_common i pr request 0 address ss"

definition append_sendbuffer :: "nat \<Rightarrow> request_send \<Rightarrow> nat \<Rightarrow> socket_server \<Rightarrow> socket_server option" where
  "append_sendbuffer i request n ss = append_sendbuffer_common i PRIORITY_HIGH request n [] ss"

definition append_sendbuffer_low :: "nat \<Rightarrow> request_send \<Rightarrow> socket_server \<Rightarrow> socket_server option" where
  "append_sendbuffer_low i request ss = append_sendbuffer_common i PRIORITY_LOW request 0 [] ss"

definition send_buffer_empty :: "socket \<Rightarrow> bool" where
  "send_buffer_empty s \<longleftrightarrow> sk_high s = [] \<and> sk_low s = []"

text \<open>A TCP socket with nothing pending: write at once.\<close>

definition send_direct_tcp :: "os \<Rightarrow> nat \<Rightarrow> request_send \<Rightarrow> send_object \<Rightarrow> socket_server \<Rightarrow> (socket_server \<times> socket_report) option" where
  "send_direct_tcp E i request so ss =
     (let fd = sk_fd (ss_slot ss i); (r, ss) = sys E (Sys_write fd (so_data so)) ss in
      if sy_ret r < 0 \<and> sy_errno r \<noteq> EINTR \<and> sy_errno r \<noteq> EAGAIN then do {
        (ss, m) \<leftarrow> force_close E i ss;
        ss \<leftarrow> ss_free (rq_buffer request) ss;
        Some (ss, Some (SOCKET_CLOSE, m))
      } else
        let n = (if sy_ret r < 0 then 0 else nat (sy_ret r)) in
        if n = length (so_data so) then do { ss \<leftarrow> ss_free (rq_buffer request) ss; Some (ss, None) }
        else do {
          ss \<leftarrow> append_sendbuffer i request n ss;
          Some (snd (sys E (Sp_write fd i True) ss), None)
        })"

definition send_direct_udp ::
  "os \<Rightarrow> nat \<Rightarrow> request_send \<Rightarrow> send_object \<Rightarrow> priority \<Rightarrow> u8 list \<Rightarrow> socket_server \<Rightarrow> (socket_server \<times> socket_report) option" where
  "send_direct_udp E i request so pr address ss =
     (let s = ss_slot ss i; (r, ss) = sys E (Sys_sendto (sk_fd s) (so_data so) (udp_socket_address s address)) ss in
      if sy_ret r \<noteq> int (length (so_data so)) then do {
        ss \<leftarrow> append_sendbuffer_udp i pr request address ss;
        Some (snd (sys E (Sp_write (sk_fd s) i True) ss), None)
      } else do { ss \<leftarrow> ss_free (rq_buffer request) ss; Some (ss, None) })"

definition send_socket ::
  "os \<Rightarrow> request_send \<Rightarrow> priority \<Rightarrow> u8 list option \<Rightarrow> socket_server \<Rightarrow> (socket_server \<times> socket_report) option" where
  "send_socket E request pr udp_address ss =
     (let i = HASH_ID (rq_id request); s = ss_slot ss i;
          address = (case udp_address of Some a \<Rightarrow> a | None \<Rightarrow> sk_udp_address s) in do {
        so \<leftarrow> send_object_init (rq_buffer request) (rq_sz request) ss;
        if sk_type s = SOCKET_TYPE_INVALID \<or> sk_id s \<noteq> rq_id request \<or> sk_type s = SOCKET_TYPE_HALFCLOSE \<or>
           sk_type s = SOCKET_TYPE_PACCEPT \<or> sk_type s = SOCKET_TYPE_PLISTEN \<or> sk_type s = SOCKET_TYPE_LISTEN
        then do { ss \<leftarrow> ss_free (rq_buffer request) ss; Some (ss, None) }
        else if send_buffer_empty s \<and> sk_type s = SOCKET_TYPE_CONNECTED then
          if sk_protocol s = PROTOCOL_TCP then send_direct_tcp E i request so ss
          else send_direct_udp E i request so pr address ss
        else if sk_protocol s = PROTOCOL_TCP then
          if pr = PRIORITY_LOW then do { ss \<leftarrow> append_sendbuffer_low i request ss; Some (ss, None) }
          else do { ss \<leftarrow> append_sendbuffer i request 0 ss; Some (ss, None) }
        else do { ss \<leftarrow> append_sendbuffer_udp i pr request address ss; Some (ss, None) }
      })"

section \<open>Requests\<close>

definition listen_socket :: "os \<Rightarrow> int \<Rightarrow> int \<Rightarrow> u64 \<Rightarrow> socket_server \<Rightarrow> (socket_server \<times> socket_report) option" where
  "listen_socket E i fd opaque ss = do {
     (ss, ns) \<leftarrow> new_fd E i fd PROTOCOL_TCP opaque False ss;
     case ns of
       None \<Rightarrow> Some (open_failed i opaque ''reach skynet socket number limit'' (snd (sys E (Sys_close fd) ss)))
     | Some h \<Rightarrow> Some (set_type h SOCKET_TYPE_PLISTEN ss, None)
   }"

definition close_socket :: "os \<Rightarrow> int \<Rightarrow> bool \<Rightarrow> u64 \<Rightarrow> socket_server \<Rightarrow> (socket_server \<times> socket_report) option" where
  "close_socket E i shutdown opaque ss =
     (let h = HASH_ID i; s = ss_slot ss h in
      if sk_type s = SOCKET_TYPE_INVALID \<or> sk_id s \<noteq> i
      then Some (ss, Some (SOCKET_CLOSE, message_of i opaque 0 NULL None))
      else do {
        (ss, r) \<leftarrow> (if \<not> send_buffer_empty s then send_buffer E h ss else Some (ss, None));
        if r \<noteq> None then Some (ss, r)
        else if shutdown \<or> send_buffer_empty (ss_slot ss h) then do {
          (ss, m) \<leftarrow> force_close E h ss;
          Some (ss, Some (SOCKET_CLOSE, m\<lparr>rs_id := i, rs_opaque := opaque\<rparr>))
        }
        else Some (set_type h SOCKET_TYPE_HALFCLOSE ss, None)
      })"

definition bind_socket :: "os \<Rightarrow> int \<Rightarrow> int \<Rightarrow> u64 \<Rightarrow> socket_server \<Rightarrow> (socket_server \<times> socket_report) option" where
  "bind_socket E i fd opaque ss = do {
     (ss, ns) \<leftarrow> new_fd E i fd PROTOCOL_TCP opaque True ss;
     case ns of
       None \<Rightarrow> Some (ss, Some (SOCKET_ERROR, message_of i opaque 0 NULL (Some ''reach skynet socket number limit'')))
     | Some h \<Rightarrow> Some (set_type h SOCKET_TYPE_BIND (snd (sys E (Sp_nonblocking fd) ss)),
         Some (SOCKET_OPEN, message_of i opaque 0 NULL (Some ''binding'')))
   }"

definition start_socket :: "os \<Rightarrow> int \<Rightarrow> u64 \<Rightarrow> socket_server \<Rightarrow> (socket_server \<times> socket_report) option" where
  "start_socket E i opaque ss =
     (let h = HASH_ID i; s = ss_slot ss h in
      if sk_type s = SOCKET_TYPE_INVALID \<or> sk_id s \<noteq> i
      then Some (ss, Some (SOCKET_ERROR, message_of i opaque 0 NULL (Some ''invalid socket'')))
      else if sk_type s = SOCKET_TYPE_PACCEPT \<or> sk_type s = SOCKET_TYPE_PLISTEN then
        let (r, ss) = sys E (Sp_add (sk_fd s) (Some h)) ss in
        if sy_ret r \<noteq> 0 then do {
          (ss, m) \<leftarrow> force_close E h ss;
          Some (ss, Some (SOCKET_ERROR, m\<lparr>rs_text := Some (os_strerror E (sy_errno r))\<rparr>))
        } else
          let t = (if sk_type s = SOCKET_TYPE_PACCEPT then SOCKET_TYPE_CONNECTED else SOCKET_TYPE_LISTEN) in
          Some (set_slot h (s\<lparr>sk_type := t, sk_opaque := opaque\<rparr>) ss,
            Some (SOCKET_OPEN, message_of i opaque 0 NULL (Some ''start'')))
      else if sk_type s = SOCKET_TYPE_CONNECTED then
        Some (set_slot h (s\<lparr>sk_opaque := opaque\<rparr>) ss, Some (SOCKET_OPEN, message_of i opaque 0 NULL (Some ''transfer'')))
      else Some (ss, None))"

definition setopt_socket :: "os \<Rightarrow> int \<Rightarrow> int \<Rightarrow> int \<Rightarrow> socket_server \<Rightarrow> socket_server" where
  "setopt_socket E i what val ss =
     (let s = ss_slot ss (HASH_ID i) in
      if sk_type s = SOCKET_TYPE_INVALID \<or> sk_id s \<noteq> i then ss
      else snd (sys E (Sys_setsockopt (sk_fd s) Level_tcp what val) ss))"

definition AF_INET6 :: int where "AF_INET6 = 10"
definition AF_INET :: int where "AF_INET = 2"

definition add_udp_socket :: "os \<Rightarrow> int \<Rightarrow> int \<Rightarrow> int \<Rightarrow> u64 \<Rightarrow> socket_server \<Rightarrow> socket_server option" where
  "add_udp_socket E i fd family opaque ss =
     (let protocol = (if family = AF_INET6 then PROTOCOL_UDPv6 else PROTOCOL_UDP) in do {
        (ss, ns) \<leftarrow> new_fd E i fd protocol opaque True ss;
        case ns of
          None \<Rightarrow> Some (set_type (HASH_ID i) SOCKET_TYPE_INVALID (snd (sys E (Sys_close fd) ss)))
        | Some h \<Rightarrow> Some (set_slot h ((ss_slot ss h)\<lparr>sk_type := SOCKET_TYPE_CONNECTED,
            sk_udp_address := replicate UDP_ADDRESS_SIZE 0\<rparr>) ss)
      })"

definition set_udp_address :: "int \<Rightarrow> u8 list \<Rightarrow> socket_server \<Rightarrow> socket_server \<times> socket_report" where
  "set_udp_address i address ss =
     (let h = HASH_ID i; s = ss_slot ss h; type = unat (address ! 0) in
      if sk_type s = SOCKET_TYPE_INVALID \<or> sk_id s \<noteq> i then (ss, None)
      else if type \<noteq> sk_protocol s
      then (ss, Some (SOCKET_ERROR, message_of (sk_id s) (sk_opaque s) 0 NULL (Some ''protocol mismatch'')))
      else
        let n = (if type = PROTOCOL_UDP then 1 + 2 + 4 else 1 + 2 + 16) in
        (set_slot h (s\<lparr>sk_udp_address := take n address @ drop n (sk_udp_address s)\<rparr>) ss, None))"

text \<open>One request from the pipe, which is not empty.\<close>

definition ctrl_cmd :: "os \<Rightarrow> socket_server \<Rightarrow> (socket_server \<times> socket_report) option" where
  "ctrl_cmd E ss = (case ss_pipe ss of
     [] \<Rightarrow> None
   | request # rest \<Rightarrow>
       let ss = ss\<lparr>ss_pipe := rest\<rparr> in
       case request of
         Req_S i opaque \<Rightarrow> start_socket E i opaque ss
       | Req_B i fd opaque \<Rightarrow> bind_socket E i fd opaque ss
       | Req_L i fd opaque \<Rightarrow> listen_socket E i fd opaque ss
       | Req_K i shutdown opaque \<Rightarrow> close_socket E i shutdown opaque ss
       | Req_O i port opaque host \<Rightarrow> open_socket E i port opaque host ss
       | Req_X \<Rightarrow> Some (ss, Some (SOCKET_EXIT, message_of 0 0 0 NULL None))
       | Req_D r \<Rightarrow> send_socket E r PRIORITY_HIGH None ss
       | Req_P r \<Rightarrow> send_socket E r PRIORITY_LOW None ss
       | Req_A r address \<Rightarrow> send_socket E r PRIORITY_HIGH (Some address) ss
       | Req_C i address \<Rightarrow> Some (set_udp_address i address ss)
       | Req_T i what val \<Rightarrow> Some (setopt_socket E i what val ss, None)
       | Req_U i fd family opaque \<Rightarrow> do { ss \<leftarrow> add_udp_socket E i fd family opaque ss; Some (ss, None) }
       | Req_unknown c \<Rightarrow> Some (ss, None))"

section \<open>Events\<close>

definition forward_message_tcp :: "os \<Rightarrow> nat \<Rightarrow> socket_server \<Rightarrow> (socket_server \<times> socket_report) option" where
  "forward_message_tcp E i ss =
     (let s = ss_slot ss i; sz = sk_size s; (r, ss) = sys E (Sys_read (sk_fd s) sz) ss; n = sy_ret r in
      if n < 0 then
        (if sy_errno r = EINTR \<or> sy_errno r = EAGAIN then Some (ss, None)
         else do {
           (ss, m) \<leftarrow> force_close E i ss;
           Some (ss, Some (SOCKET_ERROR, m\<lparr>rs_text := Some (os_strerror E (sy_errno r))\<rparr>))
         })
      else if n = 0 then do { (ss, m) \<leftarrow> force_close E i ss; Some (ss, Some (SOCKET_CLOSE, m)) }
      else if sk_type s = SOCKET_TYPE_HALFCLOSE then Some (ss, None)
      else
        let sz' = (if n = sz then sz * 2 else if MIN_READ_BUFFER < sz \<and> n * 2 < sz then sz div 2 else sz);
            (buffer, ss) = ss_malloc (sy_data r) ss
        in Some (set_slot i (s\<lparr>sk_size := sz'\<rparr>) ss, Some (SOCKET_DATA, message_of (sk_id s) (sk_opaque s) n buffer None)))"

text \<open>The type, the port and the address, in network order as the system returned them.\<close>

definition gen_udp_address :: "nat \<Rightarrow> sockaddr \<Rightarrow> u8 list" where
  "gen_udp_address protocol sa =
     of_nat protocol # take (if protocol = PROTOCOL_UDP then 2 + 4 else 2 + 16) sa"

definition forward_message_udp :: "os \<Rightarrow> nat \<Rightarrow> socket_server \<Rightarrow> (socket_server \<times> socket_report) option" where
  "forward_message_udp E i ss =
     (let s = ss_slot ss i; (r, ss) = sys E (Sys_recvfrom (sk_fd s) MAX_UDP_PACKAGE) ss; n = sy_ret r in
      if n < 0 then
        (if sy_errno r = EINTR \<or> sy_errno r = EAGAIN then Some (ss, None)
         else do {
           (ss, m) \<leftarrow> force_close E i ss;
           Some (ss, Some (SOCKET_ERROR, m\<lparr>rs_text := Some (os_strerror E (sy_errno r))\<rparr>))
         })
      else
        let protocol = (if sy_family r = AF_INET then PROTOCOL_UDP else PROTOCOL_UDPv6) in
        if sk_protocol s \<noteq> protocol then Some (ss, None)
        else
          let (data, ss) = ss_malloc (sy_data r @ gen_udp_address protocol (sy_addr r)) ss in
          Some (ss, Some (SOCKET_UDP, message_of (sk_id s) (sk_opaque s) n data None)))"

text \<open>\<open>getsockopt\<close> returns its code, and the pending error, if any, as \<open>sy_data\<close> that is not empty.\<close>

definition report_connect :: "os \<Rightarrow> nat \<Rightarrow> socket_server \<Rightarrow> (socket_server \<times> socket_report) option" where
  "report_connect E i ss =
     (let s = ss_slot ss i; (r, ss) = sys E (Sys_getsockopt (sk_fd s)) ss in
      if sy_ret r < 0 \<or> sy_data r \<noteq> [] then do {
        (ss, m) \<leftarrow> force_close E i ss;
        Some (ss, Some (SOCKET_ERROR, m\<lparr>rs_text := Some (os_strerror E (sy_errno r))\<rparr>))
      } else
        let ss = set_type i SOCKET_TYPE_CONNECTED ss;
            ss = (if send_buffer_empty s then snd (sys E (Sp_write (sk_fd s) i False) ss) else ss);
            (p, ss) = sys E (Sys_getpeername (sk_fd s)) ss
        in Some (ss, Some (SOCKET_OPEN, message_of (sk_id s) (sk_opaque s) 0 NULL
             (if sy_ret p = 0 then os_inet_ntop E (sy_addr p) else None))))"

text \<open>The result is \<open>0\<close> for a retry, positive for a new connection and negative at the limit of files.\<close>

definition report_accept :: "os \<Rightarrow> nat \<Rightarrow> socket_server \<Rightarrow> (socket_server \<times> int \<times> socket_message) option" where
  "report_accept E i ss =
     (let s = ss_slot ss i; (r, ss) = sys E (Sys_accept (sk_fd s)) ss; fd = sy_ret r;
          none = message_of (sk_id s) (sk_opaque s) 0 NULL None in
      if fd < 0 then
        (if sy_errno r = EMFILE then Some (ss, - 1, none\<lparr>rs_text := Some (os_strerror E EMFILE)\<rparr>)
         else Some (ss, 0, none))
      else
        let (ss, j) = reserve_id ss in
        if j < 0 then Some (snd (sys E (Sys_close fd) ss), 0, none)
        else do {
          let ss = socket_keepalive E fd ss;
          let ss = snd (sys E (Sp_nonblocking fd) ss);
          (ss, ns) \<leftarrow> new_fd E j fd PROTOCOL_TCP (sk_opaque s) False ss;
          case ns of
            None \<Rightarrow> Some (snd (sys E (Sys_close fd) ss), 0, none)
          | Some h \<Rightarrow>
              Some (set_type h SOCKET_TYPE_PACCEPT ss, 1,
                message_of (sk_id s) (sk_opaque s) j NULL
                  (case os_inet_ntop E (sy_addr r) of None \<Rightarrow> None
                   | Some t \<Rightarrow> Some (t @ '':'' @ print_d (os_port E (sy_addr r)))))
        })"

text \<open>The first pending event of the socket that was just closed is cleared.\<close>

fun clear_event :: "(nat \<Rightarrow> socket) \<Rightarrow> int \<Rightarrow> sp_event list \<Rightarrow> sp_event list" where
  "clear_event slot i [] = []"
| "clear_event slot i (e # es) = (case ev_s e of
     None \<Rightarrow> e # clear_event slot i es
   | Some h \<Rightarrow>
       if sk_type (slot h) = SOCKET_TYPE_INVALID \<and> sk_id (slot h) = i then e\<lparr>ev_s := None\<rparr> # es
       else e # clear_event slot i es)"

definition clear_closed_event :: "poll_type \<Rightarrow> socket_message \<Rightarrow> socket_server \<Rightarrow> socket_server" where
  "clear_closed_event type result ss =
     (if type = SOCKET_CLOSE \<or> type = SOCKET_ERROR then
        let k = ss_event_index ss; n = ss_event_n ss; es = ss_ev ss in
        ss\<lparr>ss_ev := take k es @ clear_event (ss_slot ss) (rs_id result) (take (n - k) (drop k es)) @ drop n es\<rparr>
      else ss)"

text \<open>The event at the index, for a socket that is neither connecting, listening nor invalid.\<close>

definition poll_transfer :: "os \<Rightarrow> nat \<Rightarrow> sp_event \<Rightarrow> nat \<Rightarrow> socket_server \<Rightarrow> (socket_server \<times> socket_report) option" where
  "poll_transfer E k e i ss =
     (if ev_read e then
        if sk_protocol (ss_slot ss i) = PROTOCOL_TCP then do {
          (ss, r) \<leftarrow> forward_message_tcp E i ss;
          Some (if ev_write e \<and> \<not> reports SOCKET_CLOSE r \<and> \<not> reports SOCKET_ERROR r
                then ss\<lparr>ss_ev := (ss_ev ss)[k := e\<lparr>ev_read := False\<rparr>], ss_event_index := k\<rparr> else ss, r)
        } else do {
          (ss, r) \<leftarrow> forward_message_udp E i ss;
          if reports SOCKET_UDP r then Some (ss\<lparr>ss_event_index := k\<rparr>, r)
          else Some (if ev_write e \<and> \<not> reports SOCKET_CLOSE r \<and> \<not> reports SOCKET_ERROR r
                then ss\<lparr>ss_ev := (ss_ev ss)[k := e\<lparr>ev_read := False\<rparr>], ss_event_index := k\<rparr> else ss, r)
        }
      else if ev_write e then send_buffer E i ss
      else Some (ss, None))"

definition poll_event :: "os \<Rightarrow> socket_server \<Rightarrow> (socket_server \<times> socket_report) option" where
  "poll_event E ss =
     (let k = ss_event_index ss; e = ss_ev ss ! k; ss = ss\<lparr>ss_event_index := k + 1\<rparr> in
      case ev_s e of
        None \<Rightarrow> Some (ss, None)
      | Some i \<Rightarrow> (case sk_type (ss_slot ss i) of
          SOCKET_TYPE_CONNECTING \<Rightarrow> report_connect E i ss
        | SOCKET_TYPE_LISTEN \<Rightarrow> do {
            (ss, ok, m) \<leftarrow> report_accept E i ss;
            Some (ss, if 0 < ok then Some (SOCKET_ACCEPT, m) else if ok < 0 then Some (SOCKET_ERROR, m) else None)
          }
        | SOCKET_TYPE_INVALID \<Rightarrow> Some (ss, None)
        | _ \<Rightarrow> poll_transfer E k e i ss))"

definition poll_wait :: "os \<Rightarrow> socket_server \<Rightarrow> bool \<times> socket_server" where
  "poll_wait E ss =
     (let (r, ss) = sys E Sp_wait ss; es = sy_events r in
      if sy_ret r \<le> 0 then (False, ss\<lparr>ss_checkctrl := True, ss_event_index := 0, ss_event_n := 0\<rparr>)
      else (True, ss\<lparr>ss_ev := es @ drop (length es) (ss_ev ss), ss_checkctrl := True, ss_event_index := 0,
              ss_event_n := length es\<rparr>))"

text \<open>
  One round of the loop of \<open>socket_server_poll\<close>: the value of \<open>*more\<close>, and \<open>None\<close> to go on or what to return.
  The pipe has data exactly when a request is in it.
\<close>

definition poll_step :: "os \<Rightarrow> bool \<Rightarrow> socket_server \<Rightarrow> (socket_server \<times> bool \<times> socket_report option) option" where
  "poll_step E has_more ss =
     (if ss_checkctrl ss \<and> ss_pipe ss \<noteq> [] then do {
        (ss, r) \<leftarrow> ctrl_cmd E ss;
        case r of
          None \<Rightarrow> Some (ss, has_more, None)
        | Some (type, m) \<Rightarrow> Some (clear_closed_event type m ss, has_more, Some r)
      } else
        let ss = ss\<lparr>ss_checkctrl := False\<rparr>;
            wait = (ss_event_index ss = ss_event_n ss);
            (ok, ss) = (if wait then poll_wait E ss else (True, ss));
            has_more = (if wait then False else has_more)
        in if \<not> ok then Some (ss, has_more, Some None)
           else do {
             (ss, r) \<leftarrow> poll_event E ss;
             Some (ss, has_more, if r = None then None else Some r)
           })"

partial_function (option) socket_server_poll :: "os \<Rightarrow> bool \<Rightarrow> socket_server \<Rightarrow> (socket_server \<times> bool \<times> socket_report) option" where
  "socket_server_poll E has_more ss = do {
     (ss, has_more, r) \<leftarrow> poll_step E has_more ss;
     case r of None \<Rightarrow> socket_server_poll E has_more ss | Some r \<Rightarrow> Some (ss, has_more, r)
   }"

section \<open>Functions for other threads\<close>

definition send_request :: "request \<Rightarrow> socket_server \<Rightarrow> socket_server" where
  "send_request r ss = ss\<lparr>ss_pipe := ss_pipe ss @ [r]\<rparr>"

definition SIZEOF_REQUEST_OPEN :: nat where "SIZEOF_REQUEST_OPEN = 24"

definition socket_server_connect :: "u64 \<Rightarrow> string \<Rightarrow> int \<Rightarrow> socket_server \<Rightarrow> socket_server \<times> int" where
  "socket_server_connect opaque addr port ss =
     (if 256 \<le> length addr + SIZEOF_REQUEST_OPEN then (ss, - 1)
      else let (ss, i) = reserve_id ss in
        if i < 0 then (ss, - 1) else (send_request (Req_O i port opaque addr) ss, i))"

definition free_buffer :: "ptr \<Rightarrow> int \<Rightarrow> socket_server \<Rightarrow> socket_server option" where
  "free_buffer buffer sz ss = do {
     c_assert (sz < 0 \<longrightarrow> ss_soi_buffer ss \<noteq> None);
     ss_free buffer ss
   }"

definition known_id :: "int \<Rightarrow> socket_server \<Rightarrow> bool" where
  "known_id i ss \<longleftrightarrow> sk_id (ss_slot ss (HASH_ID i)) = i \<and> sk_type (ss_slot ss (HASH_ID i)) \<noteq> SOCKET_TYPE_INVALID"

definition socket_server_send :: "int \<Rightarrow> ptr \<Rightarrow> int \<Rightarrow> socket_server \<Rightarrow> (socket_server \<times> int) option" where
  "socket_server_send i buffer sz ss =
     (if \<not> known_id i ss then do { ss \<leftarrow> free_buffer buffer sz ss; Some (ss, - 1) }
      else Some (send_request (Req_D \<lparr>rq_id = i, rq_sz = sz, rq_buffer = buffer\<rparr>) ss, sk_wb_size (ss_slot ss (HASH_ID i))))"

definition socket_server_send_lowpriority :: "int \<Rightarrow> ptr \<Rightarrow> int \<Rightarrow> socket_server \<Rightarrow> socket_server option" where
  "socket_server_send_lowpriority i buffer sz ss =
     (if \<not> known_id i ss then free_buffer buffer sz ss
      else Some (send_request (Req_P \<lparr>rq_id = i, rq_sz = sz, rq_buffer = buffer\<rparr>) ss))"

definition socket_server_exit :: "socket_server \<Rightarrow> socket_server" where
  "socket_server_exit ss = send_request Req_X ss"

definition socket_server_close :: "u64 \<Rightarrow> int \<Rightarrow> socket_server \<Rightarrow> socket_server" where
  "socket_server_close opaque i ss = send_request (Req_K i False opaque) ss"

definition socket_server_shutdown :: "u64 \<Rightarrow> int \<Rightarrow> socket_server \<Rightarrow> socket_server" where
  "socket_server_shutdown opaque i ss = send_request (Req_K i True opaque) ss"

text \<open>The descriptor, or \<open>-1\<close>; the family is the one of the first address.\<close>

definition do_bind :: "os \<Rightarrow> string option \<Rightarrow> int \<Rightarrow> ip_protocol \<Rightarrow> socket_server \<Rightarrow> socket_server \<times> int \<times> int" where
  "do_bind E host port protocol ss =
     (let host = (case host of None \<Rightarrow> ''0.0.0.0'' | Some h \<Rightarrow> if h = [] then ''0.0.0.0'' else h);
          (g, ss) = sys E (Sys_getaddrinfo host port protocol) ss in
      if sy_ret g \<noteq> 0 then (ss, - 1, 0)
      else case sy_addrs g of
        [] \<Rightarrow> (ss, - 1, 0)
      | (family, addr) # _ \<Rightarrow>
          let (f, ss) = sys E (Sys_socket family protocol) ss; fd = sy_ret f in
          if fd < 0 then (ss, - 1, family)
          else let (o1, ss) = sys E (Sys_setsockopt fd Level_socket SO_REUSEADDR 1) ss in
            if sy_ret o1 = - 1 then (snd (sys E (Sys_close fd) ss), - 1, family)
            else let (b, ss) = sys E (Sys_bind fd addr) ss in
              if sy_ret b \<noteq> 0 then (snd (sys E (Sys_close fd) ss), - 1, family) else (ss, fd, family))"

definition do_listen :: "os \<Rightarrow> string option \<Rightarrow> int \<Rightarrow> int \<Rightarrow> socket_server \<Rightarrow> socket_server \<times> int" where
  "do_listen E host port backlog ss =
     (let (ss, fd, family) = do_bind E host port IPPROTO_TCP ss in
      if fd < 0 then (ss, - 1)
      else let (l, ss) = sys E (Sys_listen fd backlog) ss in
        if sy_ret l = - 1 then (snd (sys E (Sys_close fd) ss), - 1) else (ss, fd))"

definition socket_server_listen :: "os \<Rightarrow> u64 \<Rightarrow> string option \<Rightarrow> int \<Rightarrow> int \<Rightarrow> socket_server \<Rightarrow> socket_server \<times> int" where
  "socket_server_listen E opaque addr port backlog ss =
     (let (ss, fd) = do_listen E addr port backlog ss in
      if fd < 0 then (ss, - 1)
      else let (ss, i) = reserve_id ss in
        if i < 0 then (snd (sys E (Sys_close fd) ss), i) else (send_request (Req_L i fd opaque) ss, i))"

definition socket_server_bind :: "u64 \<Rightarrow> int \<Rightarrow> socket_server \<Rightarrow> socket_server \<times> int" where
  "socket_server_bind opaque fd ss =
     (let (ss, i) = reserve_id ss in
      if i < 0 then (ss, - 1) else (send_request (Req_B i fd opaque) ss, i))"

definition socket_server_start :: "u64 \<Rightarrow> int \<Rightarrow> socket_server \<Rightarrow> socket_server" where
  "socket_server_start opaque i ss = send_request (Req_S i opaque) ss"

definition socket_server_nodelay :: "int \<Rightarrow> socket_server \<Rightarrow> socket_server" where
  "socket_server_nodelay i ss = send_request (Req_T i TCP_NODELAY 1) ss"

definition socket_server_userobject :: "(ptr \<Rightarrow> ptr) \<Rightarrow> socket_server \<Rightarrow> socket_server" where
  "socket_server_userobject buffer ss = ss\<lparr>ss_soi_buffer := Some buffer\<rparr>"

definition socket_server_udp :: "os \<Rightarrow> u64 \<Rightarrow> string option \<Rightarrow> int \<Rightarrow> socket_server \<Rightarrow> socket_server \<times> int" where
  "socket_server_udp E opaque addr port ss =
     (let (ss, fd, family) =
        (if port \<noteq> 0 \<or> addr \<noteq> None then do_bind E addr port IPPROTO_UDP ss
         else let (f, ss) = sys E (Sys_socket AF_INET IPPROTO_UDP) ss in (ss, sy_ret f, AF_INET)) in
      if fd < 0 then (ss, - 1)
      else let ss = snd (sys E (Sp_nonblocking fd) ss); (ss, i) = reserve_id ss in
        if i < 0 then (snd (sys E (Sys_close fd) ss), - 1) else (send_request (Req_U i fd family opaque) ss, i))"

definition address_size :: "u8 list \<Rightarrow> nat option" where
  "address_size address =
     (if unat (address ! 0) = PROTOCOL_UDP then Some (1 + 2 + 4)
      else if unat (address ! 0) = PROTOCOL_UDPv6 then Some (1 + 2 + 16) else None)"

definition socket_server_udp_send :: "int \<Rightarrow> u8 list \<Rightarrow> ptr \<Rightarrow> int \<Rightarrow> socket_server \<Rightarrow> (socket_server \<times> int) option" where
  "socket_server_udp_send i address buffer sz ss =
     (if \<not> known_id i ss then do { ss \<leftarrow> free_buffer buffer sz ss; Some (ss, - 1) }
      else case address_size address of
        None \<Rightarrow> do { ss \<leftarrow> free_buffer buffer sz ss; Some (ss, - 1) }
      | Some n \<Rightarrow> Some (send_request (Req_A \<lparr>rq_id = i, rq_sz = sz, rq_buffer = buffer\<rparr> (take n address)) ss,
          sk_wb_size (ss_slot ss (HASH_ID i))))"

definition socket_server_udp_connect :: "os \<Rightarrow> int \<Rightarrow> string \<Rightarrow> int \<Rightarrow> socket_server \<Rightarrow> socket_server \<times> int" where
  "socket_server_udp_connect E i addr port ss =
     (let (g, ss) = sys E (Sys_getaddrinfo addr port IPPROTO_UDP) ss in
      if sy_ret g \<noteq> 0 then (ss, - 1)
      else case sy_addrs g of
        [] \<Rightarrow> (ss, - 1)
      | (family, sa) # _ \<Rightarrow>
          if family = AF_INET then (send_request (Req_C i (gen_udp_address PROTOCOL_UDP sa)) ss, 0)
          else if family = AF_INET6 then (send_request (Req_C i (gen_udp_address PROTOCOL_UDPv6 sa)) ss, 0)
          else (ss, - 1))"

text \<open>The address behind the data of a UDP message, which is \<open>ud\<close> bytes long.\<close>

definition socket_server_udp_address :: "socket_message \<Rightarrow> socket_server \<Rightarrow> u8 list option option" where
  "socket_server_udp_address m ss = do {
     bytes \<leftarrow> ss_heap ss (rs_data m);
     c_assert (nat (rs_ud m) < length bytes);
     let address = drop (nat (rs_ud m)) bytes;
     Some (map_option (\<lambda>n. take n address) (address_size address))
   }"

section \<open>The interface of the node\<close>

text \<open>The functions of \<^verbatim>\<open>skynet_socket.c\<close> that only pass on, with the server as an argument.\<close>

definition skynet_socket_init :: "os \<Rightarrow> socket_server option" where
  "skynet_socket_init E = socket_server_create E"

definition skynet_socket_exit :: "socket_server \<Rightarrow> socket_server" where
  "skynet_socket_exit ss = socket_server_exit ss"

definition skynet_socket_free :: "os \<Rightarrow> socket_server \<Rightarrow> socket_server option" where
  "skynet_socket_free E ss = socket_server_release E ss"

definition skynet_socket_udp_address :: "skynet_socket_message \<Rightarrow> socket_server \<Rightarrow> u8 list option option" where
  "skynet_socket_udp_address msg ss =
     (if sm_type msg \<noteq> SKYNET_SOCKET_TYPE_UDP then Some None
      else socket_server_udp_address \<lparr>rs_id = sm_id msg, rs_opaque = 0, rs_ud = sm_ud msg, rs_data = sm_buffer msg, rs_text = None\<rparr> ss)"

end
