(* ===== verification/Socket_Send.thy ===== *)
theory Socket_Send
  imports Socket_Server
begin

text \<open>
  The sending half of the socket server: who owns which buffer, what one call of \<open>send_list\<close> and \<open>send_buffer\<close> does,
  and that the bytes a connection gets are whole packages, in order within each priority.
\<close>

section \<open>What is assumed of the system calls\<close>

text \<open>\<open>write\<close> accepts at most the bytes it was given, and the same call is not interrupted for ever.\<close>

definition writes_ok :: "os \<Rightarrow> bool" where
  "writes_ok E \<longleftrightarrow> (\<forall>calls fd bs. sy_ret (os_result E (calls @ [Sys_write fd bs])) \<le> int (length bs))"

definition interrupted :: "os \<Rightarrow> syscall list \<Rightarrow> bool" where
  "interrupted E calls \<longleftrightarrow> sy_ret (os_result E calls) < 0 \<and> sy_errno (os_result E calls) = EINTR"

definition interrupts_end :: "os \<Rightarrow> bool" where
  "interrupts_end E \<longleftrightarrow> (\<forall>calls c. \<exists>n. \<not> interrupted E (calls @ replicate (Suc n) c))"

text \<open>The bytes that the system accepted for a descriptor.\<close>

fun accepted :: "os \<Rightarrow> int \<Rightarrow> syscall list \<Rightarrow> syscall list \<Rightarrow> u8 list" where
  "accepted E fd pre [] = []"
| "accepted E fd pre (c # cs) = (case c of
     Sys_write fd' bs \<Rightarrow> if fd' = fd then take (nat (sy_ret (os_result E (pre @ [c])))) bs else []
   | _ \<Rightarrow> []) @ accepted E fd (pre @ [c]) cs"

definition written :: "os \<Rightarrow> int \<Rightarrow> socket_server \<Rightarrow> u8 list" where
  "written E fd ss = accepted E fd [] (ss_calls ss)"

lemma accepted_append: "accepted E fd pre (as @ bs) = accepted E fd pre as @ accepted E fd (pre @ as) bs"
  by (induction as arbitrary: pre) auto

lemma sys_fields [simp]:
  "fst (sys E c ss) = os_result E (ss_calls ss @ [c])"
  "ss_calls (snd (sys E c ss)) = ss_calls ss @ [c]"
  "ss_slot (snd (sys E c ss)) = ss_slot ss"
  "ss_heap (snd (sys E c ss)) = ss_heap ss"
  "ss_pipe (snd (sys E c ss)) = ss_pipe ss"
  "ss_brk (snd (sys E c ss)) = ss_brk ss"
  "ss_ev (snd (sys E c ss)) = ss_ev ss"
  "ss_event_n (snd (sys E c ss)) = ss_event_n ss"
  "ss_event_index (snd (sys E c ss)) = ss_event_index ss"
  "ss_soi_buffer (snd (sys E c ss)) = ss_soi_buffer ss"
  "ss_alloc_id (snd (sys E c ss)) = ss_alloc_id ss"
  "ss_checkctrl (snd (sys E c ss)) = ss_checkctrl ss"
  by (simp_all add: sys_def Let_def)

lemma case_sys [simp]: "(case sys E c ss of (r, ss') \<Rightarrow> f r ss') = f (os_result E (ss_calls ss @ [c])) (snd (sys E c ss))"
  by (simp add: sys_def Let_def)

lemma set_slot_fields [simp]:
  "ss_calls (set_slot i s ss) = ss_calls ss"
  "ss_slot (set_slot i s ss) = (ss_slot ss)(i := s)"
  "ss_heap (set_slot i s ss) = ss_heap ss"
  "ss_pipe (set_slot i s ss) = ss_pipe ss"
  "ss_brk (set_slot i s ss) = ss_brk ss"
  "ss_ev (set_slot i s ss) = ss_ev ss"
  "ss_event_n (set_slot i s ss) = ss_event_n ss"
  "ss_event_index (set_slot i s ss) = ss_event_index ss"
  "ss_soi_buffer (set_slot i s ss) = ss_soi_buffer ss"
  "ss_alloc_id (set_slot i s ss) = ss_alloc_id ss"
  "ss_checkctrl (set_slot i s ss) = ss_checkctrl ss"
  by (simp_all add: set_slot_def)

lemma written_sys:
  "written E fd (snd (sys E c ss)) = written E fd ss @ accepted E fd (ss_calls ss) [c]"
  by (simp add: written_def accepted_append)

lemma written_same: "ss_calls ss' = ss_calls ss \<Longrightarrow> written E fd ss' = written E fd ss"
  by (simp add: written_def)

lemma written_set_slot [simp]: "written E fd (set_slot i s ss) = written E fd ss"
  by (simp add: written_def)

lemma written_heap [simp]: "written E fd (ss\<lparr>ss_heap := h\<rparr>) = written E fd ss"
  by (simp add: written_def)

section \<open>Owners of buffers\<close>

definition bufs :: "socket \<Rightarrow> ptr list" where
  "bufs s = map wr_buffer (sk_high s @ sk_low s)"

text \<open>
  Every buffer in a list is live, and it is in one place only. \<open>Q\<close> are further live buffers, those of the
  requests that wait in the pipe.
\<close>

definition own :: "(nat \<Rightarrow> socket) \<Rightarrow> (ptr \<rightharpoonup> u8 list) \<Rightarrow> ptr list \<Rightarrow> bool" where
  "own slot heap Q \<longleftrightarrow>
     (\<forall>i. distinct (bufs (slot i)) \<and> set (bufs (slot i)) \<subseteq> dom heap - {NULL}) \<and>
     (\<forall>i j. i \<noteq> j \<longrightarrow> set (bufs (slot i)) \<inter> set (bufs (slot j)) = {}) \<and>
     distinct Q \<and> set Q \<subseteq> dom heap - {NULL} \<and> (\<forall>i. set Q \<inter> set (bufs (slot i)) = {})"

text \<open>One slot takes some of the waiting buffers, and what it gives up is freed.\<close>

lemma own_slot:
  assumes "own slot heap (P @ Q)" "distinct (bufs s)" "set (bufs s) \<subseteq> set (bufs (slot i)) \<union> set P"
    "\<forall>p. p \<in> set (bufs s) \<or> p \<notin> set (bufs (slot i)) \<union> set P \<longrightarrow> heap' p = heap p"
  shows "own (slot(i := s)) heap' Q"
proof -
  have o: "distinct (bufs (slot j))" "set (bufs (slot j)) \<subseteq> dom heap - {NULL}" "set (P @ Q) \<inter> set (bufs (slot j)) = {}"
    "j \<noteq> k \<Longrightarrow> set (bufs (slot j)) \<inter> set (bufs (slot k)) = {}" for j k
    using assms(1) by (auto simp: own_def)
  have q: "distinct (P @ Q)" "set (P @ Q) \<subseteq> dom heap - {NULL}" using assms(1) by (auto simp: own_def)
  have h: "heap' p = heap p" if "p \<in> set (bufs s) \<or> p \<in> set Q \<or> (\<exists>j. j \<noteq> i \<and> p \<in> set (bufs (slot j)))" for p
    using that assms(4) o(3)[of i] q(1) o(3) o(4)[of _ i] by fastforce
  then have dom: "p \<in> dom heap' \<longleftrightarrow> p \<in> dom heap"
    if "p \<in> set (bufs s) \<or> p \<in> set Q \<or> (\<exists>j. j \<noteq> i \<and> p \<in> set (bufs (slot j)))" for p
    using that by (simp add: dom_def)
  have new: "set (bufs s) \<subseteq> dom heap - {NULL}" using assms(3) o(2)[of i] q(2) by auto
  show ?thesis unfolding own_def
  proof (intro conjI allI impI)
    fix j k
    show "distinct (bufs ((slot(i := s)) j))" using o(1) assms(2) by simp
    have "set (bufs (slot j)) \<subseteq> dom heap' - {NULL}" if "j \<noteq> i" using o(2)[of j] dom that by blast
    moreover have "set (bufs s) \<subseteq> dom heap' - {NULL}" using new dom by blast
    ultimately show "set (bufs ((slot(i := s)) j)) \<subseteq> dom heap' - {NULL}" by simp
    show "set Q \<inter> set (bufs ((slot(i := s)) j)) = {}" using assms(3) o(3)[of j] o(3)[of i] q(1) by auto
    assume "j \<noteq> k"
    then show "set (bufs ((slot(i := s)) j)) \<inter> set (bufs ((slot(i := s)) k)) = {}"
      using assms(3) o(3)[of j] o(3)[of k] o(4)[of j k] o(4)[of i k] o(4)[of j i] by (cases "j = i"; cases "k = i") (simp; blast)+
  next
    show "distinct Q" using q(1) by simp
    show "set Q \<subseteq> dom heap' - {NULL}" using q(2) dom unfolding set_append by blast
  qed
qed

lemma own_free_first:
  assumes "own slot heap (p # Q)"
  shows "own slot (heap(p := None)) Q" "p \<noteq> NULL" "heap p \<noteq> None"
proof -
  show "own slot (heap(p := None)) Q"
    using own_slot[where slot = slot and heap = heap and P = "[p]" and Q = Q and s = "slot 0" and i = 0 and heap' = "heap(p := None)"] assms by (auto simp: own_def)
  show "p \<noteq> NULL" "heap p \<noteq> None" using assms by (auto simp: own_def)
qed

text \<open>All fields but the slots, the heap and the trace.\<close>

definition same_rest :: "socket_server \<Rightarrow> socket_server \<Rightarrow> bool" where
  "same_rest ss ss' \<longleftrightarrow> ss_pipe ss' = ss_pipe ss \<and> ss_ev ss' = ss_ev ss \<and> ss_event_n ss' = ss_event_n ss \<and>
     ss_event_index ss' = ss_event_index ss \<and> ss_soi_buffer ss' = ss_soi_buffer ss \<and> ss_alloc_id ss' = ss_alloc_id ss \<and>
     ss_checkctrl ss' = ss_checkctrl ss \<and> ss_brk ss' = ss_brk ss"

lemma same_rest_refl [simp]: "same_rest ss ss"
  by (simp add: same_rest_def)

lemma same_rest_trans: "same_rest a b \<Longrightarrow> same_rest b c \<Longrightarrow> same_rest a c"
  by (simp add: same_rest_def)

lemma same_rest_sys [simp]: "same_rest a (snd (sys E c ss)) \<longleftrightarrow> same_rest a ss"
  by (simp add: same_rest_def)

lemma same_rest_sys_left [simp]: "same_rest (snd (sys E c ss)) a \<longleftrightarrow> same_rest ss a"
  by (simp add: same_rest_def)

lemma same_rest_set_slot [simp]: "same_rest a (set_slot i s ss) \<longleftrightarrow> same_rest a ss"
  by (simp add: same_rest_def)

lemma ss_free_live:
  "p \<noteq> NULL \<Longrightarrow> ss_heap ss p \<noteq> None \<Longrightarrow> ss_free p ss = Some (ss\<lparr>ss_heap := (ss_heap ss)(p := None)\<rparr>)"
  by (simp add: ss_free_def)

text \<open>Freeing a list of different live buffers.\<close>

lemma free_wb_list_live:
  assumes "distinct (map wr_buffer wbs)" "set (map wr_buffer wbs) \<subseteq> dom (ss_heap ss) - {NULL}"
  shows "free_wb_list wbs ss = Some (ss\<lparr>ss_heap := ss_heap ss |` (- set (map wr_buffer wbs))\<rparr>)"
  using assms
proof (induction wbs arbitrary: ss)
  case Nil
  then show ?case by (simp add: free_wb_list_def)
next
  case (Cons wb wbs)
  let ?ss = "ss\<lparr>ss_heap := (ss_heap ss)(wr_buffer wb := None)\<rparr>"
  have "write_buffer_free wb ss = Some ?ss" using Cons.prems by (auto simp: write_buffer_free_def intro!: ss_free_live)
  moreover have "free_wb_list wbs ?ss = Some (?ss\<lparr>ss_heap := ss_heap ?ss |` (- set (map wr_buffer wbs))\<rparr>)"
  proof (rule Cons.IH)
    show "set (map wr_buffer wbs) \<subseteq> dom (ss_heap ?ss) - {NULL}"
    proof
      fix p assume p: "p \<in> set (map wr_buffer wbs)"
      then have "p \<noteq> wr_buffer wb" using Cons.prems(1) by (metis distinct.simps(2) list.simps(9))
      moreover have "p \<in> dom (ss_heap ss) - {NULL}" using p Cons.prems(2) by auto
      ultimately show "p \<in> dom (ss_heap ?ss) - {NULL}" by simp
    qed
  qed (use Cons.prems in simp)
  moreover have "(ss_heap ss)(wr_buffer wb := None) |` (- set (map wr_buffer wbs)) = ss_heap ss |` (- set (map wr_buffer (wb # wbs)))"
    by (rule ext) (simp add: restrict_map_def)
  ultimately show ?case by (simp add: free_wb_list_def)
qed

section \<open>The state of one socket\<close>

definition quiet :: "socket_type \<Rightarrow> bool" where
  "quiet t \<longleftrightarrow> t \<in> {SOCKET_TYPE_INVALID, SOCKET_TYPE_RESERVE, SOCKET_TYPE_PLISTEN, SOCKET_TYPE_LISTEN, SOCKET_TYPE_PACCEPT}"

definition pending_bytes :: "socket \<Rightarrow> u8 list" where
  "pending_bytes s = concat (map wr_data (sk_high s @ sk_low s))"

text \<open>
  Nothing is queued on a socket that cannot send, no package in the low list was begun, \<open>wb_size\<close> counts the
  pending bytes, and a socket is in the slot of its number.
\<close>

definition socket_ok :: "nat \<Rightarrow> socket \<Rightarrow> bool" where
  "socket_ok i s \<longleftrightarrow> (quiet (sk_type s) \<longrightarrow> sk_high s = [] \<and> sk_low s = []) \<and>
     (\<forall>wb \<in> set (sk_low s). wr_ptr wb = wr_buffer wb) \<and>
     (sk_type s \<notin> {SOCKET_TYPE_INVALID, SOCKET_TYPE_RESERVE} \<longrightarrow> sk_wb_size s = int (length (pending_bytes s))) \<and>
     (sk_type s \<noteq> SOCKET_TYPE_INVALID \<longrightarrow> HASH_ID (sk_id s) = i)"

definition closed :: "socket \<Rightarrow> socket" where
  "closed s = s\<lparr>sk_high := [], sk_low := [], sk_type := SOCKET_TYPE_INVALID\<rparr>"

lemma closed_fields [simp]:
  "sk_high (closed s) = []" "sk_low (closed s) = []" "sk_type (closed s) = SOCKET_TYPE_INVALID" "sk_id (closed s) = sk_id s"
  "bufs (closed s) = []" "socket_ok i (closed s)"
  by (simp_all add: closed_def bufs_def socket_ok_def)

lemma force_close_ok:
  assumes "own (ss_slot ss) (ss_heap ss) Q" "sk_type (ss_slot ss i) \<noteq> SOCKET_TYPE_RESERVE"
    "sk_type (ss_slot ss i) = SOCKET_TYPE_INVALID \<Longrightarrow> sk_high (ss_slot ss i) = [] \<and> sk_low (ss_slot ss i) = []"
  shows "\<exists>ss'. force_close E i ss = Some (ss', message_of (sk_id (ss_slot ss i)) (sk_opaque (ss_slot ss i)) 0 NULL None) \<and>
    same_rest ss ss' \<and> ss_slot ss' = (ss_slot ss)(i := closed (ss_slot ss i)) \<and>
    ss_heap ss' = ss_heap ss |` (- set (bufs (ss_slot ss i))) \<and> (\<forall>fd. written E fd ss' = written E fd ss)"
proof (cases "sk_type (ss_slot ss i) = SOCKET_TYPE_INVALID")
  case True
  then have "closed (ss_slot ss i) = ss_slot ss i" using assms(3) by (cases "ss_slot ss i") (simp add: closed_def)
  moreover have "ss_heap ss |` UNIV = ss_heap ss" by (rule ext) simp
  ultimately show ?thesis using True assms(3) by (simp add: force_close_def Let_def bufs_def)
next
  case False
  let ?s = "ss_slot ss i"
  have o: "distinct (bufs ?s)" "set (bufs ?s) \<subseteq> dom (ss_heap ss) - {NULL}" using assms(1) by (auto simp: own_def)
  let ?h = "ss_heap ss |` (- set (bufs ?s))"
  have "free_wb_list (sk_high ?s @ sk_low ?s) ss = Some (ss\<lparr>ss_heap := ?h\<rparr>)"
    using free_wb_list_live[of "sk_high ?s @ sk_low ?s" ss] o by (simp add: bufs_def)
  then obtain ss1 where f: "free_wb_list (sk_high ?s) ss = Some ss1" "free_wb_list (sk_low ?s) ss1 = Some (ss\<lparr>ss_heap := ?h\<rparr>)"
    by (auto simp: free_wb_list_def fold_option_append bind_eq_Some_conv)
  show ?thesis
    unfolding force_close_def Let_def using False assms(2) f
    by (auto simp: closed_def same_rest_def written_def accepted_append)
qed

lemma own_closed:
  assumes "own slot heap Q"
  shows "own (slot(i := closed s)) (heap |` (- set (bufs (slot i)))) Q"
  using own_slot[where slot = slot and heap = heap and P = "[]" and Q = Q and s = "closed s" and i = i and heap' = "heap |` (- set (bufs (slot i)))"] assms by (auto simp: restrict_map_def)

section \<open>One list\<close>

text \<open>What is left of a list: its end, or its end with the first package begun.\<close>

definition rest_of :: "write_buffer list \<Rightarrow> write_buffer list \<Rightarrow> bool" where
  "rest_of old wbs \<longleftrightarrow> (\<exists>ys. old = ys @ wbs \<or>
     (\<exists>x n zs. old = ys @ x # zs \<and> wbs = advance n x # zs \<and> 0 < n \<and> n < length (wr_data x)))"

lemma rest_of_refl [simp]: "rest_of xs xs"
  by (auto simp: rest_of_def intro: exI[of _ "[]"])

lemma rest_of_Nil [simp]: "rest_of [] wbs \<longleftrightarrow> wbs = []"
  by (auto simp: rest_of_def)

lemma rest_of_Cons: "rest_of xs wbs \<Longrightarrow> rest_of (x # xs) wbs"
  unfolding rest_of_def by (metis append_Cons)

lemma rest_of_buffers:
  assumes "rest_of old wbs"
  shows "\<exists>ys. map wr_buffer old = ys @ map wr_buffer wbs"
  using assms by (auto simp: rest_of_def advance_def)

text \<open>The retries of an interrupted call.\<close>

lemma send_list_tcp_retry:
  assumes "interrupts_end E" "get_list pr (ss_slot ss i) = tmp # rest"
  defines "c \<equiv> Sys_write (sk_fd (ss_slot ss i)) (wr_data tmp)"
  shows "\<exists>ss'. send_list_tcp E i pr ss = send_list_tcp E i pr ss' \<and> \<not> interrupted E (ss_calls ss' @ [c]) \<and>
    ss_slot ss' = ss_slot ss \<and> ss_heap ss' = ss_heap ss \<and> same_rest ss ss' \<and> (\<forall>fd. written E fd ss' = written E fd ss)"
proof -
  obtain n where "\<not> interrupted E (ss_calls ss @ replicate (Suc n) c)" using assms(1) unfolding interrupts_end_def by blast
  then show ?thesis using assms(2) unfolding c_def
  proof (induction n arbitrary: ss)
    case 0
    then show ?case by auto
  next
    case (Suc n)
    let ?c = "Sys_write (sk_fd (ss_slot ss i)) (wr_data tmp)"
    let ?ss = "snd (sys E ?c ss)"
    show ?case
    proof (cases "interrupted E (ss_calls ss @ [?c])")
      case True
      have s: "sys E ?c ss = (os_result E (ss_calls ss @ [?c]), ?ss)" by (simp add: prod_eq_iff)
      have "send_list_tcp E i pr ss = send_list_tcp E i pr ?ss"
        using True Suc.prems(2) s by (subst send_list_tcp.simps) (simp add: interrupted_def)
      moreover have "written E fd ?ss = written E fd ss" for fd
        using True by (auto simp: written_sys interrupted_def)
      moreover have "\<not> interrupted E (ss_calls ?ss @ replicate (Suc n) ?c)" using Suc.prems(1) by simp
      ultimately show ?thesis using Suc.IH[of ?ss] Suc.prems(2) by simp
    next
      case False
      then show ?thesis by auto
    qed
  qed
qed

text \<open>What a call leaves behind, when it only sent from the list \<open>pr\<close> and when it closed the socket.\<close>

definition sent_part :: "os \<Rightarrow> nat \<Rightarrow> priority \<Rightarrow> socket_server \<Rightarrow> socket_server \<Rightarrow> bool" where
  "sent_part E i pr ss ss' \<longleftrightarrow> (\<exists>wbs out.
     ss_slot ss' i = (set_list pr wbs (ss_slot ss i))\<lparr>sk_wb_size := sk_wb_size (ss_slot ss i) - int (length out)\<rparr> \<and>
     rest_of (get_list pr (ss_slot ss i)) wbs \<and>
     concat (map wr_data (get_list pr (ss_slot ss i))) = out @ concat (map wr_data wbs) \<and>
     (sk_protocol (ss_slot ss i) = PROTOCOL_TCP \<longrightarrow>
        written E (sk_fd (ss_slot ss i)) ss' = written E (sk_fd (ss_slot ss i)) ss @ out))"

definition closes :: "nat \<Rightarrow> socket_server \<Rightarrow> socket_server \<Rightarrow> socket_report \<Rightarrow> bool" where
  "closes i ss ss' r \<longleftrightarrow> (\<exists>t m. r = Some (t, m) \<and> t \<in> {SOCKET_CLOSE, SOCKET_ERROR} \<and> rs_id m = sk_id (ss_slot ss i) \<and>
     sk_type (ss_slot ss' i) = SOCKET_TYPE_INVALID \<and> sk_high (ss_slot ss' i) = [] \<and> sk_low (ss_slot ss' i) = [] \<and>
     sk_id (ss_slot ss' i) = sk_id (ss_slot ss i))"

text \<open>Only the slot \<open>i\<close> changed, buffers are freed and not made, and the ownership is kept.\<close>

definition slot_frame :: "nat \<Rightarrow> ptr list \<Rightarrow> socket_server \<Rightarrow> socket_server \<Rightarrow> bool" where
  "slot_frame i Q ss ss' \<longleftrightarrow> own (ss_slot ss') (ss_heap ss') Q \<and> same_rest ss ss' \<and> (\<forall>j. j \<noteq> i \<longrightarrow> ss_slot ss' j = ss_slot ss j) \<and>
     (\<forall>p. ss_heap ss' p = ss_heap ss p \<or> ss_heap ss' p = None)"

text \<open>Closing a socket, as a step of its slot.\<close>

lemma force_close_frame:
  assumes "own (ss_slot ss) (ss_heap ss) Q" "sk_type (ss_slot ss i) \<noteq> SOCKET_TYPE_RESERVE"
    "sk_type (ss_slot ss i) \<noteq> SOCKET_TYPE_INVALID"
  shows "\<exists>ss'. force_close E i ss = Some (ss', message_of (sk_id (ss_slot ss i)) (sk_opaque (ss_slot ss i)) 0 NULL None) \<and>
    slot_frame i Q ss ss' \<and> ss_slot ss' i = closed (ss_slot ss i)"
  using force_close_ok[OF assms(1,2), of E] own_closed[OF assms(1), of i] assms(3)
  by (fastforce simp: slot_frame_def restrict_map_def)

lemma own_subset:
  assumes "own slot heap Q" "distinct (bufs s)" "set (bufs s) \<subseteq> set (bufs (slot i))"
  shows "own (slot(i := s)) heap Q"
  using own_slot[where P = "[]" and heap' = heap] assms by simp

lemma own_give_up:
  assumes "own slot heap Q" "distinct (p # bufs s)" "set (bufs (slot i)) = insert p (set (bufs s))"
  shows "own (slot(i := s)) (heap(p := None)) Q" "p \<noteq> NULL" "heap p \<noteq> None"
proof -
  show "own (slot(i := s)) (heap(p := None)) Q"
    by (rule own_slot[where heap = heap and P = "[]"]) (use assms in auto)
  have "p \<in> set (bufs (slot i))" using assms(3) by simp
  then show "p \<noteq> NULL" "heap p \<noteq> None" using assms(1) by (auto simp: own_def)
qed

lemma get_set_list [simp]:
  "get_list pr (set_list pr wbs s) = wbs"
  "sk_wb_size (set_list pr wbs s) = sk_wb_size s" "sk_fd (set_list pr wbs s) = sk_fd s" "sk_id (set_list pr wbs s) = sk_id s"
  "sk_type (set_list pr wbs s) = sk_type s" "sk_protocol (set_list pr wbs s) = sk_protocol s"
  "sk_opaque (set_list pr wbs s) = sk_opaque s" "sk_size (set_list pr wbs s) = sk_size s"
  "sk_udp_address (set_list pr wbs s) = sk_udp_address s"
  "get_list pr (s\<lparr>sk_wb_size := n\<rparr>) = get_list pr s"
  "bufs (s\<lparr>sk_wb_size := n\<rparr>) = bufs s"
  "set_list pr wbs (s\<lparr>sk_wb_size := n\<rparr>) = (set_list pr wbs s)\<lparr>sk_wb_size := n\<rparr>"
  "set_list pr wbs (set_list pr wbs' s) = set_list pr wbs s"
  by (cases pr; simp add: get_list_def set_list_def bufs_def)+

lemma set_get_list [simp]: "get_list pr s = wbs \<Longrightarrow> set_list pr wbs s = s"
  by (cases pr) (auto simp: get_list_def set_list_def)

lemma set_bufs: "set (bufs s) = set (map wr_buffer (get_list PRIORITY_HIGH s)) \<union> set (map wr_buffer (get_list PRIORITY_LOW s))"
  by (simp add: bufs_def get_list_def image_Un)

lemma bufs_rest:
  assumes "distinct (bufs s)" "map wr_buffer (get_list pr s) = ys @ map wr_buffer wbs"
  shows "distinct (bufs (set_list pr wbs s))" "set (bufs (set_list pr wbs s)) \<subseteq> set (bufs s)"
    "ys = [p] \<Longrightarrow> set (bufs s) = insert p (set (bufs (set_list pr wbs s)))"
    "ys = [p] \<Longrightarrow> p \<notin> set (bufs (set_list pr wbs s))"
  using assms by (cases pr; auto simp: bufs_def get_list_def set_list_def)+

lemma send_list_tcp_ok:
  assumes "own (ss_slot ss) (ss_heap ss) Q" "writes_ok E" "interrupts_end E"
    "sk_type (ss_slot ss i) \<notin> {SOCKET_TYPE_INVALID, SOCKET_TYPE_RESERVE}"
  shows "\<exists>ss' r. send_list_tcp E i pr ss = Some (ss', r) \<and> slot_frame i Q ss ss' \<and>
    (if r = None then sent_part E i pr ss ss' else closes i ss ss' r)"
  using assms
proof (induction "length (get_list pr (ss_slot ss i))" arbitrary: ss)
  case 0
  then have "send_list_tcp E i pr ss = Some (ss, None)" by (subst send_list_tcp.simps) simp
  moreover have "sent_part E i pr ss ss" unfolding sent_part_def
    using 0 by (intro exI[of _ "[]"] exI[of _ "[]"]) simp
  ultimately show ?case using 0 by (simp add: slot_frame_def)
next
  case (Suc n)
  then obtain tmp rest where l: "get_list pr (ss_slot ss i) = tmp # rest" "n = length rest" by (metis length_Suc_conv)
  let ?s = "ss_slot ss i"
  let ?c = "Sys_write (sk_fd ?s) (wr_data tmp)"
  obtain s1 where s1: "send_list_tcp E i pr ss = send_list_tcp E i pr s1" "\<not> interrupted E (ss_calls s1 @ [?c])"
    "ss_slot s1 = ss_slot ss" "ss_heap s1 = ss_heap ss" "same_rest ss s1" "\<And>fd. written E fd s1 = written E fd ss"
    using send_list_tcp_retry[OF Suc.prems(3) l(1)] by blast
  define s2 where "s2 = snd (sys E ?c s1)"
  define r where "r = os_result E (ss_calls s1 @ [?c])"
  have s2: "ss_slot s2 = ss_slot ss" "ss_heap s2 = ss_heap ss" "same_rest ss s2" using s1 by (simp_all add: s2_def)
  have w2: "written E (sk_fd ?s) s2 = written E (sk_fd ?s) ss @ take (nat (sy_ret r)) (wr_data tmp)"
    by (simp add: s2_def written_sys s1(6) r_def)
  have eq: "send_list_tcp E i pr ss = (if sy_ret r < 0 then
       (if sy_errno r = EAGAIN then Some (s2, None)
        else do { (ss, m) \<leftarrow> force_close E i s2; Some (ss, Some (SOCKET_CLOSE, m)) })
     else if sy_ret r \<noteq> int (length (wr_data tmp))
       then Some (set_slot i (set_list pr (advance (nat (sy_ret r)) tmp # rest) (?s\<lparr>sk_wb_size := sk_wb_size ?s - sy_ret r\<rparr>)) s2, None)
       else do {
         ss \<leftarrow> write_buffer_free tmp (set_slot i (set_list pr rest (?s\<lparr>sk_wb_size := sk_wb_size ?s - sy_ret r\<rparr>)) s2);
         send_list_tcp E i pr ss
       })"
    unfolding s1(1) using s1(2,3) l(1) by (subst send_list_tcp.simps) (auto simp: s2_def r_def interrupted_def Let_def)
  have len: "sy_ret r \<le> int (length (wr_data tmp))" using Suc.prems(2) by (simp add: writes_ok_def r_def)
  have o: "distinct (bufs ?s)" using Suc.prems(1) by (auto simp: own_def)
  consider "sy_ret r < 0" "sy_errno r = EAGAIN" | "sy_ret r < 0" "sy_errno r \<noteq> EAGAIN"
    | "0 \<le> sy_ret r" "sy_ret r \<noteq> int (length (wr_data tmp))" | "sy_ret r = int (length (wr_data tmp))" by linarith
  then show ?case
  proof cases
    case 1
    have "sent_part E i pr ss s2" unfolding sent_part_def using 1 w2 l(1) s2(1)
      by (intro exI[of _ "tmp # rest"] exI[of _ "[]"]) simp
    then show ?thesis using eq 1 s2 Suc.prems(1) by (auto simp: slot_frame_def)
  next
    case 2
    obtain s3 where s3: "force_close E i s2 = Some (s3, message_of (sk_id ?s) (sk_opaque ?s) 0 NULL None)" "same_rest s2 s3"
      "ss_slot s3 = (ss_slot ss)(i := closed ?s)" "ss_heap s3 = ss_heap ss |` (- set (bufs ?s))"
      using force_close_ok[of s2 Q i E] s2 Suc.prems(1,4) by auto
    have "slot_frame i Q ss s3"
      using own_closed[OF Suc.prems(1), of i] s2(3) s3 same_rest_trans[OF s2(3) s3(2)] by (auto simp: slot_frame_def restrict_map_def)
    then show ?thesis using eq 2 s3 by (auto simp: closes_def message_of_def)
  next
    case 3
    let ?n = "nat (sy_ret r)"
    let ?s' = "(set_list pr (advance ?n tmp # rest) ?s)\<lparr>sk_wb_size := sk_wb_size ?s - sy_ret r\<rparr>"
    have n: "?n < length (wr_data tmp)" "int ?n = sy_ret r" using 3 len by auto
    have b: "map wr_buffer (get_list pr ?s) = [] @ map wr_buffer (advance ?n tmp # rest)" by (simp add: l(1) advance_def)
    have "own ((ss_slot ss)(i := ?s')) (ss_heap ss) Q"
      using bufs_rest(1,2)[OF o b] by (intro own_subset[OF Suc.prems(1)]) simp_all
    moreover have "rest_of (tmp # rest) (advance ?n tmp # rest)"
    proof (cases "?n = 0")
      case True
      then have "advance ?n tmp = tmp" by (simp add: advance_def)
      then show ?thesis by (simp only: rest_of_refl)
    next
      case False
      then show ?thesis using n(1) unfolding rest_of_def by (intro exI[of _ "[]"] disjI2 exI) auto
    qed
    then have "sent_part E i pr ss (set_slot i ?s' s2)" unfolding sent_part_def using w2 l(1) n
      by (intro exI[of _ "advance ?n tmp # rest"] exI[of _ "take ?n (wr_data tmp)"])
        (auto simp: advance_def)
    ultimately show ?thesis using eq 3 s2 by (auto simp: slot_frame_def)
  next
    case 4
    let ?s' = "(set_list pr rest ?s)\<lparr>sk_wb_size := sk_wb_size ?s - sy_ret r\<rparr>"
    define s3 where "s3 = (set_slot i ?s' s2)\<lparr>ss_heap := (ss_heap ss)(wr_buffer tmp := None)\<rparr>"
    have b: "map wr_buffer (get_list pr ?s) = [wr_buffer tmp] @ map wr_buffer rest" by (simp add: l(1))
    note br = bufs_rest[OF o b]
    have g: "own ((ss_slot ss)(i := ?s')) ((ss_heap ss)(wr_buffer tmp := None)) Q" "wr_buffer tmp \<noteq> NULL" "ss_heap ss (wr_buffer tmp) \<noteq> None"
      using own_give_up[OF Suc.prems(1), of "wr_buffer tmp" ?s' i] br by simp_all
    have f: "write_buffer_free tmp (set_slot i ?s' s2) = Some s3"
      using g(2,3) s2(2) by (simp add: write_buffer_free_def ss_free_live s3_def)
    have s3: "ss_slot s3 = (ss_slot ss)(i := ?s')" "ss_heap s3 = (ss_heap ss)(wr_buffer tmp := None)" "same_rest ss s3"
      "written E (sk_fd ?s) s3 = written E (sk_fd ?s) ss @ wr_data tmp"
      using s2 w2 4 by (simp_all add: s3_def same_rest_def written_same[of s3 s2])
    have "n = length (get_list pr (ss_slot s3 i))" using l(2) s3(1) by simp
    then obtain ss' r' where IH: "send_list_tcp E i pr s3 = Some (ss', r')" "slot_frame i Q s3 ss'"
      "if r' = None then sent_part E i pr s3 ss' else closes i s3 ss' r'"
      using Suc.hyps(1)[of s3] g(1) s3(1,2) Suc.prems(2-4) by auto
    have fr: "slot_frame i Q ss ss'"
      using IH(2) s3(1,2) same_rest_trans[OF s3(3)] unfolding slot_frame_def by (metis fun_upd_apply)
    have "send_list_tcp E i pr ss = Some (ss', r')" using eq 4 f IH(1) by simp
    moreover have "sent_part E i pr ss ss'" if none: "r' = None"
    proof -
      obtain wbs out where w: "ss_slot ss' i = (set_list pr wbs (ss_slot s3 i))\<lparr>sk_wb_size := sk_wb_size (ss_slot s3 i) - int (length out)\<rparr>"
        "rest_of rest wbs" "concat (map wr_data rest) = out @ concat (map wr_data wbs)"
        "sk_protocol ?s = PROTOCOL_TCP \<longrightarrow> written E (sk_fd ?s) ss' = written E (sk_fd ?s) s3 @ out"
        using IH(3) none s3(1) by (auto simp: sent_part_def)
      show ?thesis unfolding sent_part_def
        using w rest_of_Cons[OF w(2), of tmp] l(1) s3(1,4) 4
        by (intro exI[of _ wbs] exI[of _ "wr_data tmp @ out"]) (simp add: algebra_simps)
    qed
    moreover have "closes i ss ss' r'" if "r' \<noteq> None"
      using IH(3) that s3(1) by (auto simp: closes_def)
    ultimately show ?thesis using fr by auto
  qed
qed

lemma send_list_udp_ok:
  assumes "own (ss_slot ss) (ss_heap ss) Q" "get_list pr (ss_slot ss i) = wbs" "sk_protocol (ss_slot ss i) \<noteq> PROTOCOL_TCP"
  shows "\<exists>ss'. send_list_udp E i pr wbs ss = Some (ss', None) \<and> slot_frame i Q ss ss' \<and> sent_part E i pr ss ss'"
  using assms
proof (induction wbs arbitrary: ss)
  case Nil
  then show ?case unfolding sent_part_def slot_frame_def
    by (intro exI[of _ ss]) (auto intro!: exI[of _ "[]"])
next
  case (Cons tmp rest)
  let ?s = "ss_slot ss i"
  let ?c = "Sys_sendto (sk_fd ?s) (wr_data tmp) (udp_socket_address ?s (wr_udp_address tmp))"
  let ?s2 = "snd (sys E ?c ss)"
  show ?case
  proof (cases "sy_ret (os_result E (ss_calls ss @ [?c])) < 0")
    case True
    have "sent_part E i pr ss ?s2" unfolding sent_part_def using Cons.prems(2,3)
      by (intro exI[of _ "tmp # rest"] exI[of _ "[]"]) simp
    then show ?thesis using True Cons.prems(1) by (simp add: slot_frame_def Let_def)
  next
    case False
    let ?s' = "(set_list pr rest ?s)\<lparr>sk_wb_size := sk_wb_size ?s - int (length (wr_data tmp))\<rparr>"
    define s3 where "s3 = (set_slot i ?s' ?s2)\<lparr>ss_heap := (ss_heap ss)(wr_buffer tmp := None)\<rparr>"
    have o: "distinct (bufs ?s)" using Cons.prems(1) by (auto simp: own_def)
    have b: "map wr_buffer (get_list pr ?s) = [wr_buffer tmp] @ map wr_buffer rest" by (simp add: Cons.prems(2))
    note br = bufs_rest[OF o b]
    have g: "own ((ss_slot ss)(i := ?s')) ((ss_heap ss)(wr_buffer tmp := None)) Q" "wr_buffer tmp \<noteq> NULL" "ss_heap ss (wr_buffer tmp) \<noteq> None"
      using own_give_up[OF Cons.prems(1), of "wr_buffer tmp" ?s' i] br by simp_all
    have f: "write_buffer_free tmp (set_slot i ?s' ?s2) = Some s3"
      using g(2,3) by (simp add: write_buffer_free_def ss_free_live s3_def)
    have s3: "ss_slot s3 = (ss_slot ss)(i := ?s')" "ss_heap s3 = (ss_heap ss)(wr_buffer tmp := None)" "same_rest ss s3"
      by (simp_all add: s3_def same_rest_def)
    have own3: "own (ss_slot s3) (ss_heap s3) Q" using g(1) by (simp only: s3(1,2))
    obtain ss' where IH: "send_list_udp E i pr rest s3 = Some (ss', None)" "slot_frame i Q s3 ss'" "sent_part E i pr s3 ss'"
      using Cons.IH[OF own3] s3(1) Cons.prems(3) by auto
    have "slot_frame i Q ss ss'"
      using IH(2) s3(1,2) same_rest_trans[OF s3(3)] unfolding slot_frame_def by (metis fun_upd_apply)
    moreover have "send_list_udp E i pr (tmp # rest) ss = Some (ss', None)" using False f IH(1) by (simp add: Let_def)
    moreover have "sent_part E i pr ss ss'"
    proof -
      obtain wbs out where w: "ss_slot ss' i = (set_list pr wbs (ss_slot s3 i))\<lparr>sk_wb_size := sk_wb_size (ss_slot s3 i) - int (length out)\<rparr>"
        "rest_of rest wbs" "concat (map wr_data rest) = out @ concat (map wr_data wbs)"
        using IH(3) s3(1) by (auto simp: sent_part_def)
      show ?thesis unfolding sent_part_def
        using w rest_of_Cons[OF w(2), of tmp] Cons.prems(2,3) s3(1)
        by (intro exI[of _ wbs] exI[of _ "wr_data tmp @ out"]) (simp add: algebra_simps)
    qed
    ultimately show ?thesis by blast
  qed
qed

lemma send_list_ok:
  assumes "own (ss_slot ss) (ss_heap ss) Q" "writes_ok E" "interrupts_end E"
    "sk_type (ss_slot ss i) \<notin> {SOCKET_TYPE_INVALID, SOCKET_TYPE_RESERVE}"
  shows "\<exists>ss' r. send_list E i pr ss = Some (ss', r) \<and> slot_frame i Q ss ss' \<and>
    (if r = None then sent_part E i pr ss ss' else closes i ss ss' r)"
proof (cases "sk_protocol (ss_slot ss i) = PROTOCOL_TCP")
  case True
  then show ?thesis using send_list_tcp_ok[OF assms] by (simp add: send_list_def)
next
  case False
  then show ?thesis using send_list_udp_ok[OF assms(1) refl False] unfolding send_list_def by fastforce
qed

section \<open>Both lists\<close>

text \<open>
  After a call of \<open>send_buffer\<close>: the first \<open>k\<close> packages left the low list, and what the system accepted and what is in the
  high list now are the old high list and these packages.
\<close>

definition flushed :: "os \<Rightarrow> nat \<Rightarrow> socket_server \<Rightarrow> socket_server \<Rightarrow> bool" where
  "flushed E i ss ss' \<longleftrightarrow> (let s = ss_slot ss i; s' = ss_slot ss' i in
     sk_type s' = sk_type s \<and> sk_id s' = sk_id s \<and> sk_fd s' = sk_fd s \<and> sk_protocol s' = sk_protocol s \<and>
     (\<exists>k out. sk_low s' = drop k (sk_low s) \<and>
        concat (map wr_data (sk_high s @ take k (sk_low s))) = out @ concat (map wr_data (sk_high s')) \<and>
        (sk_protocol s = PROTOCOL_TCP \<longrightarrow> written E (sk_fd s) ss' = written E (sk_fd s) ss @ out)))"

lemma slot_frame_trans: "slot_frame i P a b \<Longrightarrow> slot_frame i Q b c \<Longrightarrow> slot_frame i Q a c"
  unfolding slot_frame_def by (metis same_rest_trans)

lemma slot_frame_own: "slot_frame i Q a b \<Longrightarrow> own (ss_slot b) (ss_heap b) Q"
  by (simp add: slot_frame_def)

lemma sent_partD:
  assumes "sent_part E i pr ss ss'"
  obtains wbs out where
    "ss_slot ss' i = (set_list pr wbs (ss_slot ss i))\<lparr>sk_wb_size := sk_wb_size (ss_slot ss i) - int (length out)\<rparr>"
    "rest_of (get_list pr (ss_slot ss i)) wbs" "concat (map wr_data (get_list pr (ss_slot ss i))) = out @ concat (map wr_data wbs)"
    "sk_protocol (ss_slot ss i) = PROTOCOL_TCP \<Longrightarrow> written E (sk_fd (ss_slot ss i)) ss' = written E (sk_fd (ss_slot ss i)) ss @ out"
  using assms unfolding sent_part_def by blast

lemma closes_trans:
  assumes "closes i b c r" "sk_id (ss_slot b i) = sk_id (ss_slot a i)"
  shows "closes i a c r"
  using assms by (simp add: closes_def)

text \<open>Two calls in a row.\<close>

lemma flushed_trans:
  assumes "flushed E i a b" "flushed E i b c"
  shows "flushed E i a c"
proof -
  obtain k out where k: "sk_low (ss_slot c i) = drop k (sk_low (ss_slot b i))"
    "concat (map wr_data (sk_high (ss_slot b i) @ take k (sk_low (ss_slot b i)))) = out @ concat (map wr_data (sk_high (ss_slot c i)))"
    "sk_protocol (ss_slot b i) = PROTOCOL_TCP \<longrightarrow> written E (sk_fd (ss_slot b i)) c = written E (sk_fd (ss_slot b i)) b @ out"
    using assms(2) unfolding flushed_def Let_def by blast
  obtain j out' where j: "sk_low (ss_slot b i) = drop j (sk_low (ss_slot a i))"
    "concat (map wr_data (sk_high (ss_slot a i) @ take j (sk_low (ss_slot a i)))) = out' @ concat (map wr_data (sk_high (ss_slot b i)))"
    "sk_protocol (ss_slot a i) = PROTOCOL_TCP \<longrightarrow> written E (sk_fd (ss_slot a i)) b = written E (sk_fd (ss_slot a i)) a @ out'"
    using assms(1) unfolding flushed_def Let_def by blast
  have "take j (sk_low (ss_slot a i)) @ take k (sk_low (ss_slot b i)) = take (j + k) (sk_low (ss_slot a i))"
    by (simp add: j(1) take_add)
  then have "concat (map wr_data (sk_high (ss_slot a i) @ take (j + k) (sk_low (ss_slot a i)))) =
      concat (map wr_data (sk_high (ss_slot a i) @ take j (sk_low (ss_slot a i)))) @ concat (map wr_data (take k (sk_low (ss_slot b i))))"
    by (metis append.assoc concat_append map_append)
  also have "\<dots> = out' @ out @ concat (map wr_data (sk_high (ss_slot c i)))" using j(2) k(2) by simp
  finally show ?thesis using assms(1,2) k(1,3) j(1,3) unfolding flushed_def Let_def
    by (intro conjI exI[of _ "j + k"] exI[of _ "out' @ out"]) (auto simp: add.commute)
qed

lemma pending_lists: "pending_bytes s = concat (map wr_data (sk_high s)) @ concat (map wr_data (sk_low s))"
  by (simp add: pending_bytes_def)

lemma send_high_ok:
  assumes "sent_part E i PRIORITY_HIGH ss ss'" "socket_ok i (ss_slot ss i)"
  shows "flushed E i ss ss'" "socket_ok i (ss_slot ss' i)" "sk_low (ss_slot ss' i) = sk_low (ss_slot ss i)"
proof -
  obtain wbs out where w: "ss_slot ss' i = (ss_slot ss i)\<lparr>sk_high := wbs, sk_wb_size := sk_wb_size (ss_slot ss i) - int (length out)\<rparr>"
    "concat (map wr_data (sk_high (ss_slot ss i))) = out @ concat (map wr_data wbs)" "rest_of (sk_high (ss_slot ss i)) wbs"
    "sk_protocol (ss_slot ss i) = PROTOCOL_TCP \<Longrightarrow> written E (sk_fd (ss_slot ss i)) ss' = written E (sk_fd (ss_slot ss i)) ss @ out"
    using sent_partD[OF assms(1)] by (metis get_list_def priority.simps(3) set_list_def)
  show "flushed E i ss ss'" unfolding flushed_def Let_def using w by (auto intro!: exI[of _ 0] exI[of _ out])
  show "socket_ok i (ss_slot ss' i)" using assms(2) w(1-3) by (auto simp: socket_ok_def pending_lists)
  show "sk_low (ss_slot ss' i) = sk_low (ss_slot ss i)" using w(1) by simp
qed

text \<open>The low list is sent while the high list is empty; a package that was begun moves to the high list.\<close>

lemma send_low_ok:
  assumes "sent_part E i PRIORITY_LOW ss ss'" "socket_ok i (ss_slot ss i)"
    "sk_high (ss_slot ss i) = []" "own (ss_slot ss') (ss_heap ss') Q"
  shows "\<exists>ss''. (if list_uncomplete (sk_low (ss_slot ss' i)) then raise_uncomplete i ss' else Some ss') = Some ss'' \<and>
    slot_frame i Q ss' ss'' \<and> flushed E i ss ss'' \<and> socket_ok i (ss_slot ss'' i)"
proof -
  let ?s = "ss_slot ss i"
  obtain wbs out where w: "ss_slot ss' i = ?s\<lparr>sk_low := wbs, sk_wb_size := sk_wb_size ?s - int (length out)\<rparr>"
    "rest_of (sk_low ?s) wbs" "concat (map wr_data (sk_low ?s)) = out @ concat (map wr_data wbs)"
    "sk_protocol ?s = PROTOCOL_TCP \<Longrightarrow> written E (sk_fd ?s) ss' = written E (sk_fd ?s) ss @ out"
    using sent_partD[OF assms(1)] by (metis get_list_def priority.simps(4) set_list_def)
  have low: "\<forall>wb \<in> set (sk_low ?s). wr_ptr wb = wr_buffer wb" using assms(2) by (simp add: socket_ok_def)
  obtain ys where "sk_low ?s = ys @ wbs \<or> (\<exists>x n zs. sk_low ?s = ys @ x # zs \<and> wbs = advance n x # zs \<and> 0 < n)"
    using w(2) by (auto simp: rest_of_def)
  then consider (whole) "sk_low ?s = ys @ wbs" | (begun) x n zs where "sk_low ?s = ys @ x # zs" "wbs = advance n x # zs" "0 < n" by blast
  then show ?thesis
  proof cases
    case whole
    have "\<not> list_uncomplete wbs" using low whole by (auto simp: list_uncomplete_def split: list.splits)
    moreover have "flushed E i ss ss'" unfolding flushed_def Let_def using w(1,3,4) whole assms(3)
      by (auto intro!: exI[of _ "length ys"] exI[of _ out])
    moreover have "socket_ok i (ss_slot ss' i)" using assms(2,3) w(1,3) low whole by (auto simp: socket_ok_def pending_lists)
    ultimately show ?thesis using w(1) assms(4) by (auto simp: slot_frame_def)
  next
    case begun
    let ?s' = "(ss_slot ss' i)\<lparr>sk_low := zs, sk_high := [advance n x]\<rparr>"
    have p: "wr_ptr x = wr_buffer x" using low begun(1) by simp
    have u: "list_uncomplete wbs" using p begun(2,3) by (simp add: list_uncomplete_def advance_def)
    have r: "raise_uncomplete i ss' = Some (set_slot i ?s' ss')"
      using w(1) begun(2) assms(3) by (simp add: raise_uncomplete_def Let_def)
    have b: "bufs ?s' = bufs (ss_slot ss' i)" using w(1) begun(2) assms(3) by (simp add: bufs_def)
    have d: "distinct (bufs (ss_slot ss' i))" using assms(4) by (auto simp: own_def)
    have "own ((ss_slot ss')(i := ?s')) (ss_heap ss') Q" by (rule own_subset[OF assms(4)]) (use b d in simp_all)
    then have "slot_frame i Q ss' (set_slot i ?s' ss')" by (simp add: slot_frame_def)
    moreover have "flushed E i ss (set_slot i ?s' ss')" unfolding flushed_def Let_def using w(1,3,4) begun assms(3)
      by (auto intro!: exI[of _ "Suc (length ys)"] exI[of _ out])
    moreover have "length (concat (map wr_data (sk_low ?s))) = length out + length (concat (map wr_data wbs))"
      using arg_cong[OF w(3), of length] by simp
    then have "socket_ok i ?s'" using assms(2,3) w(1) low begun(1,2) by (auto simp: socket_ok_def pending_lists)
    ultimately show ?thesis using u r w(1) by auto
  qed
qed

text \<open>
  \<open>send_buffer\<close> never fails an assertion, frees nothing twice, keeps the state of the socket, and closes
  it only when it says so.
\<close>

lemma send_buffer_ok:
  assumes "own (ss_slot ss) (ss_heap ss) Q" "writes_ok E" "interrupts_end E" "socket_ok i (ss_slot ss i)"
    "sk_type (ss_slot ss i) \<noteq> SOCKET_TYPE_INVALID" "sk_type (ss_slot ss i) \<noteq> SOCKET_TYPE_RESERVE"
  shows "\<exists>ss' r. send_buffer E i ss = Some (ss', r) \<and> slot_frame i Q ss ss' \<and>
    (if r = None then flushed E i ss ss' \<and> socket_ok i (ss_slot ss' i) else closes i ss ss' r)"
proof -
  let ?s = "ss_slot ss i"
  have a: "\<not> list_uncomplete (sk_low ?s)" using assms(4) by (auto simp: socket_ok_def list_uncomplete_def split: list.splits)
  obtain s1 r1 where s1: "send_list E i PRIORITY_HIGH ss = Some (s1, r1)" "slot_frame i Q ss s1"
    "if r1 = None then sent_part E i PRIORITY_HIGH ss s1 else closes i ss s1 r1"
    using send_list_ok[OF assms(1-3), of i PRIORITY_HIGH] assms(5,6) by auto
  show ?thesis
  proof (cases "r1 = None")
    case False
    then show ?thesis using a s1 by (auto simp add: send_buffer_def)
  next
    case r1: True
    have f1: "flushed E i ss s1" "socket_ok i (ss_slot s1 i)" "sk_low (ss_slot s1 i) = sk_low ?s"
      using send_high_ok[of E i ss s1] s1(3) r1 assms(4) by auto
    have t1: "sk_type (ss_slot s1 i) = sk_type ?s" "sk_id (ss_slot s1 i) = sk_id ?s" using f1(1) by (simp_all add: flushed_def Let_def)
    note o1 = slot_frame_own[OF s1(2)]
    consider "sk_high (ss_slot s1 i) \<noteq> []" | "sk_high (ss_slot s1 i) = []" "sk_low (ss_slot s1 i) \<noteq> []"
      | "sk_high (ss_slot s1 i) = []" "sk_low (ss_slot s1 i) = []" by blast
    then show ?thesis
    proof cases
      case 1
      then show ?thesis using a s1(1,2) r1 f1 by (simp add: send_buffer_def)
    next
      case 2
      obtain s2 r2 where s2: "send_list E i PRIORITY_LOW s1 = Some (s2, r2)" "slot_frame i Q s1 s2"
        "if r2 = None then sent_part E i PRIORITY_LOW s1 s2 else closes i s1 s2 r2"
        using send_list_ok[OF o1 assms(2,3), of i PRIORITY_LOW] assms(5,6) t1 by auto
      note f2 = slot_frame_trans[OF s1(2) s2(2)]
      show ?thesis
      proof (cases "r2 = None")
        case True
        then have p: "sent_part E i PRIORITY_LOW s1 s2" using s2(3) by simp
        obtain s3 where s3: "(if list_uncomplete (sk_low (ss_slot s2 i)) then raise_uncomplete i s2 else Some s2) = Some s3"
          "slot_frame i Q s2 s3" "flushed E i s1 s3" "socket_ok i (ss_slot s3 i)"
          using send_low_ok[OF p f1(2) 2(1) slot_frame_own[OF s2(2)]] by blast
        have "send_buffer E i ss = Some (s3, None)"
          using a s1(1) r1 2 s2(1) True s3(1) by (auto simp: send_buffer_def split: if_splits)
        then show ?thesis using flushed_trans[OF f1(1) s3(3)] slot_frame_trans[OF f2 s3(2)] s3(4) by simp
      next
        case False
        then show ?thesis using a s1(1) r1 2 s2 f2 closes_trans[of i s1 s2 r2 ss] t1 by (auto simp: send_buffer_def)
      qed
    next
      case 3
      let ?s2 = "snd (sys E (Sp_write (sk_fd (ss_slot s1 i)) i False) s1)"
      have f2: "flushed E i ss ?s2" using f1(1) by (simp add: flushed_def Let_def written_sys)
      show ?thesis
      proof (cases "sk_type ?s = SOCKET_TYPE_HALFCLOSE")
        case True
        obtain s3 where s3: "force_close E i ?s2 = Some (s3, message_of (sk_id ?s) (sk_opaque (ss_slot s1 i)) 0 NULL None)"
          "slot_frame i Q ?s2 s3" "ss_slot s3 i = closed (ss_slot s1 i)"
          using force_close_frame[of ?s2 Q i E] o1 assms(6) True t1 by auto
        have "slot_frame i Q ss s3" using s1(2) s3(2) slot_frame_trans[OF s1(2), of Q s3] by (simp add: slot_frame_def)
        then show ?thesis using a s1(1) r1 3 s3 True t1 by (auto simp: send_buffer_def Let_def closes_def message_of_def)
      next
        case False
        have "slot_frame i Q ss ?s2" using s1(2) by (simp add: slot_frame_def)
        then show ?thesis using a s1(1) r1 3 f1(2) f2 False t1 by (auto simp: send_buffer_def Let_def)
      qed
    qed
  qed
qed

section \<open>Queueing a package\<close>

text \<open>The buffer of a request is live and has as many bytes as the request says; an object needs the interface.\<close>

definition sendable :: "(ptr \<rightharpoonup> u8 list) \<Rightarrow> (ptr \<Rightarrow> ptr) option \<Rightarrow> request_send \<Rightarrow> bool" where
  "sendable heap soi request \<longleftrightarrow> (0 \<le> rq_sz request \<or> soi \<noteq> None) \<and>
     (case heap (rq_buffer request) of None \<Rightarrow> False | Some bytes \<Rightarrow> nat (rq_sz request) \<le> length bytes)"

definition send_bytes :: "(ptr \<rightharpoonup> u8 list) \<Rightarrow> request_send \<Rightarrow> u8 list" where
  "send_bytes heap request = (let bytes = the (heap (rq_buffer request)) in
     if rq_sz request < 0 then bytes else take (nat (rq_sz request)) bytes)"

text \<open>An object whose data does not start at the object itself looks as if it was begun.\<close>

definition starts_at_buffer :: "(ptr \<Rightarrow> ptr) option \<Rightarrow> request_send \<Rightarrow> bool" where
  "starts_at_buffer soi request \<longleftrightarrow> 0 \<le> rq_sz request \<or> map_option (\<lambda>buffer. buffer (rq_buffer request)) soi = Some (rq_buffer request)"

lemma send_object_init_some:
  assumes "sendable (ss_heap ss) (ss_soi_buffer ss) request"
  shows "\<exists>so. send_object_init (rq_buffer request) (rq_sz request) ss = Some so \<and> so_data so = send_bytes (ss_heap ss) request \<and>
    (starts_at_buffer (ss_soi_buffer ss) request \<longrightarrow> so_buffer so = rq_buffer request)"
  using assms by (auto simp: sendable_def send_object_init_def send_bytes_def starts_at_buffer_def Let_def split: option.splits)

lemma own_take:
  assumes "own slot heap (p # Q)" "set (bufs s) = insert p (set (bufs (slot i)))" "distinct (bufs s)"
  shows "own (slot(i := s)) heap Q"
  by (rule own_slot[where P = "[p]" and heap = heap]) (use assms in auto)

lemma append_ok:
  assumes "own (ss_slot ss) (ss_heap ss) (rq_buffer request # Q)" "socket_ok i (ss_slot ss i)" "\<not> quiet (sk_type (ss_slot ss i))"
    "sendable (ss_heap ss) (ss_soi_buffer ss) request" "pr = PRIORITY_LOW \<Longrightarrow> n = 0 \<and> starts_at_buffer (ss_soi_buffer ss) request"
    "n \<le> length (send_bytes (ss_heap ss) request)"
  shows "\<exists>ss' buf. append_sendbuffer_common i pr request n address ss = Some ss' \<and> slot_frame i Q ss ss' \<and>
    socket_ok i (ss_slot ss' i) \<and> ss_calls ss' = ss_calls ss \<and> wr_data buf = drop n (send_bytes (ss_heap ss) request) \<and>
    ss_slot ss' i = (set_list pr (get_list pr (ss_slot ss i) @ [buf]) (ss_slot ss i))\<lparr>sk_wb_size :=
      sk_wb_size (ss_slot ss i) + int (length (wr_data buf))\<rparr>"
proof -
  let ?s = "ss_slot ss i"
  obtain so where so: "send_object_init (rq_buffer request) (rq_sz request) ss = Some so"
    "so_data so = send_bytes (ss_heap ss) request" "starts_at_buffer (ss_soi_buffer ss) request \<longrightarrow> so_buffer so = rq_buffer request"
    using send_object_init_some[OF assms(4)] by blast
  define buf where "buf = \<lparr>wr_buffer = rq_buffer request, wr_ptr = so_buffer so + n, wr_data = drop n (so_data so),
    wr_userobject = so_userobject so, wr_udp_address = address\<rparr>"
  let ?s' = "(set_list pr (get_list pr ?s @ [buf]) ?s)\<lparr>sk_wb_size := sk_wb_size ?s + int (length (wr_data buf))\<rparr>"
  have o: "distinct (rq_buffer request # Q)" "rq_buffer request \<notin> set (bufs ?s)" "distinct (bufs ?s)"
    using assms(1) by (auto simp: own_def)
  have b: "set (bufs ?s') = insert (rq_buffer request) (set (bufs ?s))" "distinct (bufs ?s')"
    using o(2,3) by (cases pr; auto simp: bufs_def get_list_def set_list_def buf_def)+
  have "own ((ss_slot ss)(i := ?s')) (ss_heap ss) Q" by (rule own_take[OF assms(1) b])
  then have f: "slot_frame i Q ss (set_slot i ?s' ss)" by (simp add: slot_frame_def)
  have "socket_ok i ?s'"
    using assms(2,3,5) so(3) by (cases pr) (auto simp: socket_ok_def pending_lists get_list_def set_list_def buf_def)
  moreover have "append_sendbuffer_common i pr request n address ss = Some (set_slot i ?s' ss)"
    using so(1) by (simp add: append_sendbuffer_common_def Let_def buf_def)
  ultimately show ?thesis using f so(2) by (intro exI[of _ "set_slot i ?s' ss"] exI[of _ buf]) (simp add: buf_def)
qed

section \<open>Steps of one slot\<close>

text \<open>
  What every operation on a socket keeps: it changes only this slot, leaves it well formed, does not reserve
  it or bring a free one to life, and reports it when a socket is closed.
\<close>

definition slot_step :: "nat \<Rightarrow> ptr list \<Rightarrow> socket_server \<Rightarrow> socket_server \<Rightarrow> socket_report \<Rightarrow> bool" where
  "slot_step i Q ss ss' r \<longleftrightarrow> slot_frame i Q ss ss' \<and> socket_ok i (ss_slot ss' i) \<and> sk_id (ss_slot ss' i) = sk_id (ss_slot ss i) \<and>
     (sk_type (ss_slot ss' i) = SOCKET_TYPE_RESERVE \<longrightarrow> sk_type (ss_slot ss i) = SOCKET_TYPE_RESERVE) \<and>
     (sk_type (ss_slot ss i) = SOCKET_TYPE_INVALID \<longrightarrow> sk_type (ss_slot ss' i) = SOCKET_TYPE_INVALID) \<and>
     (sk_type (ss_slot ss i) \<notin> {SOCKET_TYPE_INVALID, SOCKET_TYPE_RESERVE} \<and> sk_type (ss_slot ss' i) = SOCKET_TYPE_INVALID \<longrightarrow>
        (\<exists>t m. r = Some (t, m) \<and> t \<in> {SOCKET_CLOSE, SOCKET_ERROR} \<and> rs_id m = sk_id (ss_slot ss i)))"

text \<open>Nothing but the trace and the heap changed.\<close>

lemma slot_step_same:
  assumes "slot_frame i Q ss ss'" "ss_slot ss' i = ss_slot ss i" "socket_ok i (ss_slot ss i)"
  shows "slot_step i Q ss ss' r"
  using assms by (auto simp: slot_step_def)

text \<open>The socket stays open.\<close>

lemma slot_step_open:
  assumes "slot_frame i Q ss ss'" "socket_ok i (ss_slot ss' i)" "sk_id (ss_slot ss' i) = sk_id (ss_slot ss i)"
    "sk_type (ss_slot ss i) \<noteq> SOCKET_TYPE_INVALID" "sk_type (ss_slot ss' i) \<notin> {SOCKET_TYPE_INVALID, SOCKET_TYPE_RESERVE}"
  shows "slot_step i Q ss ss' r"
  using assms by (auto simp: slot_step_def)

lemma slot_step_closes:
  assumes "slot_frame i Q ss ss'" "closes i ss ss' r"
  shows "slot_step i Q ss ss' r"
  using assms by (auto simp: slot_step_def closes_def socket_ok_def)

lemma slot_frame_sys [simp]: "slot_frame i Q ss (snd (sys E c ss')) \<longleftrightarrow> slot_frame i Q ss ss'"
  by (simp add: slot_frame_def)

lemma slot_frame_sys_left [simp]: "slot_frame i Q (snd (sys E c ss)) ss' \<longleftrightarrow> slot_frame i Q ss ss'"
  by (simp add: slot_frame_def)

lemma slot_step_sys [simp]: "slot_step i Q ss (snd (sys E c ss')) r \<longleftrightarrow> slot_step i Q ss ss' r"
  by (simp add: slot_step_def)

lemma slot_step_sys_left [simp]: "slot_step i Q (snd (sys E c ss)) ss' r \<longleftrightarrow> slot_step i Q ss ss' r"
  by (simp add: slot_step_def)

lemma ss_free_first:
  assumes "own (ss_slot ss) (ss_heap ss) (p # Q)"
  shows "\<exists>ss'. ss_free p ss = Some ss' \<and> slot_frame i Q ss ss' \<and> ss_slot ss' = ss_slot ss \<and> ss_calls ss' = ss_calls ss"
  using own_free_first[OF assms] by (simp add: ss_free_live slot_frame_def same_rest_def)

definition queued :: "os \<Rightarrow> nat \<Rightarrow> priority \<Rightarrow> u8 list \<Rightarrow> socket_server \<Rightarrow> socket_server \<Rightarrow> bool" where
  "queued E i pr bytes ss ss' \<longleftrightarrow> (let s = ss_slot ss i; s' = ss_slot ss' i in
     sk_type s' = sk_type s \<and> sk_id s' = sk_id s \<and> sk_fd s' = sk_fd s \<and> sk_protocol s' = sk_protocol s \<and>
     (if pr = PRIORITY_HIGH \<or> send_buffer_empty s
      then sk_low s' = sk_low s \<and> written E (sk_fd s) ss' @ concat (map wr_data (sk_high s')) =
        written E (sk_fd s) ss @ concat (map wr_data (sk_high s)) @ bytes
      else sk_high s' = sk_high s \<and> map wr_data (sk_low s') = map wr_data (sk_low s) @ [bytes] \<and>
        written E (sk_fd s) ss' = written E (sk_fd s) ss))"

lemma send_direct_tcp_ok:
  assumes "own (ss_slot ss) (ss_heap ss) (rq_buffer request # Q)" "socket_ok i (ss_slot ss i)"
    "sk_type (ss_slot ss i) = SOCKET_TYPE_CONNECTED" "send_buffer_empty (ss_slot ss i)"
    "sendable (ss_heap ss) (ss_soi_buffer ss) request" "writes_ok E" "so_data so = send_bytes (ss_heap ss) request"
  shows "\<exists>ss' r. send_direct_tcp E i request so ss = Some (ss', r) \<and> slot_frame i Q ss ss' \<and>
    (if r = None then queued E i pr (so_data so) ss ss' \<and> socket_ok i (ss_slot ss' i) else closes i ss ss' r)"
proof -
  let ?s = "ss_slot ss i"
  let ?c = "Sys_write (sk_fd ?s) (so_data so)"
  define s1 where "s1 = snd (sys E ?c ss)"
  define r where "r = os_result E (ss_calls ss @ [?c])"
  define n where "n = (if sy_ret r < 0 then 0 else nat (sy_ret r))"
  have s1: "ss_slot s1 = ss_slot ss" "ss_heap s1 = ss_heap ss" "ss_soi_buffer s1 = ss_soi_buffer ss" by (simp_all add: s1_def)
  have o1: "own (ss_slot s1) (ss_heap s1) (rq_buffer request # Q)" using assms(1) s1 by simp
  have w1: "written E (sk_fd ?s) s1 = written E (sk_fd ?s) ss @ take n (so_data so)"
    by (simp add: s1_def written_sys r_def n_def)
  have len: "n \<le> length (so_data so)" using assms(6) by (simp add: writes_ok_def r_def n_def nat_le_iff)
  have eq: "send_direct_tcp E i request so ss =
     (if sy_ret r < 0 \<and> sy_errno r \<noteq> EINTR \<and> sy_errno r \<noteq> EAGAIN then do {
        (ss, m) \<leftarrow> force_close E i s1;
        ss \<leftarrow> ss_free (rq_buffer request) ss;
        Some (ss, Some (SOCKET_CLOSE, m))
      } else if n = length (so_data so) then do { ss \<leftarrow> ss_free (rq_buffer request) s1; Some (ss, None) }
        else do {
          ss \<leftarrow> append_sendbuffer i request n s1;
          Some (snd (sys E (Sp_write (sk_fd ?s) i True) ss), None)
        })"
    by (simp add: send_direct_tcp_def Let_def s1_def r_def n_def)
  consider (close) "sy_ret r < 0" "sy_errno r \<noteq> EINTR" "sy_errno r \<noteq> EAGAIN"
    | (all) "\<not> (sy_ret r < 0 \<and> sy_errno r \<noteq> EINTR \<and> sy_errno r \<noteq> EAGAIN)" "n = length (so_data so)"
    | (part) "\<not> (sy_ret r < 0 \<and> sy_errno r \<noteq> EINTR \<and> sy_errno r \<noteq> EAGAIN)" "n \<noteq> length (so_data so)" by blast
  then show ?thesis
  proof cases
    case close
    obtain s2 where s2: "force_close E i s1 = Some (s2, message_of (sk_id ?s) (sk_opaque ?s) 0 NULL None)"
      "slot_frame i (rq_buffer request # Q) s1 s2" "ss_slot s2 i = closed ?s"
      using force_close_frame[OF o1, of i E] assms(3) s1 by auto
    obtain s3 where s3: "ss_free (rq_buffer request) s2 = Some s3" "slot_frame i Q s2 s3" "ss_slot s3 = ss_slot s2"
      using ss_free_first[OF slot_frame_own[OF s2(2)]] by blast
    have "slot_frame i Q ss s3" using slot_frame_trans[OF s2(2) s3(2)] by (simp add: s1_def)
    then show ?thesis using eq close s2 s3 by (auto simp: closes_def message_of_def)
  next
    case all
    obtain s2 where s2: "ss_free (rq_buffer request) s1 = Some s2" "slot_frame i Q s1 s2" "ss_slot s2 = ss_slot s1" "ss_calls s2 = ss_calls s1"
      using ss_free_first[OF o1] by blast
    have "queued E i pr (so_data so) ss s2"
      using w1 all(2) assms(4) s1 s2(3) written_same[OF s2(4)] by (simp add: queued_def Let_def send_buffer_empty_def)
    then show ?thesis using eq all s2 s1 assms(2) by (auto simp: s1_def)
  next
    case part
    obtain s2 buf where s2: "append_sendbuffer_common i PRIORITY_HIGH request n [] s1 = Some s2" "slot_frame i Q s1 s2"
      "socket_ok i (ss_slot s2 i)" "ss_calls s2 = ss_calls s1" "wr_data buf = drop n (send_bytes (ss_heap s1) request)"
      "ss_slot s2 i = (set_list PRIORITY_HIGH (get_list PRIORITY_HIGH (ss_slot s1 i) @ [buf]) (ss_slot s1 i))\<lparr>sk_wb_size :=
        sk_wb_size (ss_slot s1 i) + int (length (wr_data buf))\<rparr>"
      using append_ok[OF o1, of i PRIORITY_HIGH n "[]"] assms s1 len by (auto simp: quiet_def)
    have "queued E i pr (so_data so) ss (snd (sys E (Sp_write (sk_fd ?s) i True) s2))"
      using w1 assms(4,7) s1 s2(5,6) written_same[OF s2(4)]
      by (simp add: queued_def Let_def send_buffer_empty_def get_list_def set_list_def written_sys)
    then show ?thesis using eq part s2 s1 by (auto simp: append_sendbuffer_def s1_def)
  qed
qed

lemma send_socket_append:
  assumes "own (ss_slot ss) (ss_heap ss) (rq_buffer request # Q)" "socket_ok i (ss_slot ss i)" "\<not> quiet (sk_type (ss_slot ss i))"
    "sendable (ss_heap ss) (ss_soi_buffer ss) request" "pr = PRIORITY_LOW \<Longrightarrow> starts_at_buffer (ss_soi_buffer ss) request"
    "sk_protocol (ss_slot ss i) = PROTOCOL_TCP \<Longrightarrow> \<not> send_buffer_empty (ss_slot ss i) \<or> sk_type (ss_slot ss i) \<noteq> SOCKET_TYPE_CONNECTED"
  shows "\<exists>ss'. append_sendbuffer_common i pr request 0 address ss = Some ss' \<and> slot_step i Q ss ss' None \<and>
    (sk_type (ss_slot ss i) = SOCKET_TYPE_CONNECTED \<and> sk_protocol (ss_slot ss i) = PROTOCOL_TCP \<longrightarrow>
       queued E i pr (send_bytes (ss_heap ss) request) ss ss')"
proof -
  obtain s3 buf where s3: "append_sendbuffer_common i pr request 0 address ss = Some s3" "slot_frame i Q ss s3"
    "socket_ok i (ss_slot s3 i)" "ss_calls s3 = ss_calls ss" "wr_data buf = send_bytes (ss_heap ss) request"
    "ss_slot s3 i = (set_list pr (get_list pr (ss_slot ss i) @ [buf]) (ss_slot ss i))\<lparr>sk_wb_size :=
      sk_wb_size (ss_slot ss i) + int (length (wr_data buf))\<rparr>"
    using append_ok[OF assms(1-4), of pr 0 address] assms(5) by auto
  have "slot_step i Q ss s3 None" using s3(2,3,6) assms(3) by (intro slot_step_open) (auto simp: quiet_def)
  moreover have "queued E i pr (send_bytes (ss_heap ss) request) ss s3"
    if a: "sk_type (ss_slot ss i) = SOCKET_TYPE_CONNECTED" "sk_protocol (ss_slot ss i) = PROTOCOL_TCP"
    using s3(5,6) a assms(6) written_same[OF s3(4)] by (cases pr) (auto simp: queued_def Let_def get_list_def set_list_def)
  ultimately show ?thesis using s3(1) by blast
qed

lemma send_direct_udp_ok:
  assumes "own (ss_slot ss) (ss_heap ss) (rq_buffer request # Q)" "socket_ok i (ss_slot ss i)"
    "sk_type (ss_slot ss i) = SOCKET_TYPE_CONNECTED" "sendable (ss_heap ss) (ss_soi_buffer ss) request"
    "pr = PRIORITY_LOW \<Longrightarrow> starts_at_buffer (ss_soi_buffer ss) request" "sk_protocol (ss_slot ss i) \<noteq> PROTOCOL_TCP"
  shows "\<exists>ss'. send_direct_udp E i request so pr address ss = Some (ss', None) \<and> slot_step i Q ss ss' None"
proof -
  let ?s = "ss_slot ss i"
  let ?s1 = "snd (sys E (Sys_sendto (sk_fd ?s) (so_data so) (udp_socket_address ?s address)) ss)"
  have o1: "own (ss_slot ?s1) (ss_heap ?s1) (rq_buffer request # Q)" using assms(1) by simp
  obtain s2 where s2: "ss_free (rq_buffer request) ?s1 = Some s2" "slot_frame i Q ?s1 s2" "ss_slot s2 = ss_slot ?s1"
    using ss_free_first[OF o1] by blast
  obtain s3 where s3: "append_sendbuffer_common i pr request 0 address ?s1 = Some s3" "slot_step i Q ?s1 s3 None"
    using send_socket_append[OF o1, of i pr address E] assms(2-6) by (auto simp: quiet_def)
  have "slot_step i Q ss s2 None" using s2 assms(2) by (intro slot_step_same) simp_all
  then show ?thesis using s2(1) s3 by (simp add: send_direct_udp_def append_sendbuffer_udp_def Let_def)
qed

lemma queued_open:
  assumes "queued E i pr bytes ss ss'" "slot_frame i Q ss ss'" "socket_ok i (ss_slot ss' i)" "sk_type (ss_slot ss i) = SOCKET_TYPE_CONNECTED"
  shows "slot_step i Q ss ss' r"
  using assms by (intro slot_step_open) (auto simp: queued_def Let_def)

text \<open>
  A request to send is queued, or sent, or its buffer is freed; it fails no assertion unless
  the slot is only reserved.
\<close>

lemma send_socket_ok:
  assumes "own (ss_slot ss) (ss_heap ss) (rq_buffer request # Q)" "socket_ok i (ss_slot ss i)" "i = HASH_ID (rq_id request)"
    "sk_type (ss_slot ss i) = SOCKET_TYPE_RESERVE \<Longrightarrow> sk_id (ss_slot ss i) \<noteq> rq_id request"
    "sendable (ss_heap ss) (ss_soi_buffer ss) request" "pr = PRIORITY_LOW \<Longrightarrow> starts_at_buffer (ss_soi_buffer ss) request" "writes_ok E"
  shows "\<exists>ss' r. send_socket E request pr udp_address ss = Some (ss', r) \<and> slot_step i Q ss ss' r \<and> (r \<noteq> None \<longrightarrow> closes i ss ss' r) \<and>
    (sk_type (ss_slot ss i) = SOCKET_TYPE_RESERVE \<longrightarrow> sk_type (ss_slot ss' i) = SOCKET_TYPE_RESERVE) \<and>
    (sk_type (ss_slot ss i) = SOCKET_TYPE_CONNECTED \<and> sk_protocol (ss_slot ss i) = PROTOCOL_TCP \<and> sk_id (ss_slot ss i) = rq_id request \<and>
     r = None \<longrightarrow> queued E i pr (send_bytes (ss_heap ss) request) ss ss')"
proof -
  let ?s = "ss_slot ss i"
  define address where "address = (case udp_address of Some a \<Rightarrow> a | None \<Rightarrow> sk_udp_address ?s)"
  obtain so where so: "send_object_init (rq_buffer request) (rq_sz request) ss = Some so"
    "so_data so = send_bytes (ss_heap ss) request"
    using send_object_init_some[OF assms(5)] by blast
  define ignored where "ignored \<longleftrightarrow> sk_type ?s = SOCKET_TYPE_INVALID \<or> sk_id ?s \<noteq> rq_id request \<or> sk_type ?s = SOCKET_TYPE_HALFCLOSE \<or>
    sk_type ?s = SOCKET_TYPE_PACCEPT \<or> sk_type ?s = SOCKET_TYPE_PLISTEN \<or> sk_type ?s = SOCKET_TYPE_LISTEN"
  have eq: "send_socket E request pr udp_address ss =
    (if ignored then do { ss \<leftarrow> ss_free (rq_buffer request) ss; Some (ss, None) }
     else if send_buffer_empty ?s \<and> sk_type ?s = SOCKET_TYPE_CONNECTED then
       if sk_protocol ?s = PROTOCOL_TCP then send_direct_tcp E i request so ss
       else send_direct_udp E i request so pr address ss
     else if sk_protocol ?s = PROTOCOL_TCP then
       do { ss \<leftarrow> append_sendbuffer_common i pr request 0 [] ss; Some (ss, None) }
     else do { ss \<leftarrow> append_sendbuffer_common i pr request 0 address ss; Some (ss, None) })"
    unfolding send_socket_def ignored_def address_def assms(3)[symmetric] Let_def so(1)
    by (cases pr) (simp_all add: append_sendbuffer_def append_sendbuffer_low_def append_sendbuffer_udp_def)
  consider (ignored) "ignored" | (tcp) "\<not> ignored" "send_buffer_empty ?s" "sk_type ?s = SOCKET_TYPE_CONNECTED" "sk_protocol ?s = PROTOCOL_TCP"
    | (udp) "\<not> ignored" "send_buffer_empty ?s" "sk_type ?s = SOCKET_TYPE_CONNECTED" "sk_protocol ?s \<noteq> PROTOCOL_TCP"
    | (queue) "\<not> ignored" "\<not> (send_buffer_empty ?s \<and> sk_type ?s = SOCKET_TYPE_CONNECTED)" by blast
  then show ?thesis
  proof cases
    case ignored
    obtain s2 where "ss_free (rq_buffer request) ss = Some s2" "slot_frame i Q ss s2" "ss_slot s2 = ss_slot ss"
      using ss_free_first[OF assms(1)] by blast
    then show ?thesis using eq ignored assms(2) slot_step_same[of i Q ss s2 None] by (auto simp: ignored_def)
  next
    case tcp
    obtain s' r where s': "send_direct_tcp E i request so ss = Some (s', r)" "slot_frame i Q ss s'"
      "if r = None then queued E i pr (so_data so) ss s' \<and> socket_ok i (ss_slot s' i) else closes i ss s' r"
      using send_direct_tcp_ok[OF assms(1,2) tcp(3,2) assms(5,7) so(2), where pr = pr] by blast
    have "slot_step i Q ss s' r"
      using s'(2,3) queued_open[of E i pr _ ss s' Q] slot_step_closes[of i Q ss s' r] tcp(3) by (auto split: if_splits)
    then show ?thesis using eq tcp s'(1,3) so(2) by auto
  next
    case udp
    obtain s' where "send_direct_udp E i request so pr address ss = Some (s', None)" "slot_step i Q ss s' None"
      using send_direct_udp_ok[OF assms(1,2) udp(3) assms(5) _ udp(4), of pr] assms(6) by blast
    then show ?thesis using eq udp by auto
  next
    case queue
    have nq: "\<not> quiet (sk_type ?s)" using queue(1) assms(4) by (auto simp: quiet_def ignored_def)
    define a where "a = (if sk_protocol ?s = PROTOCOL_TCP then [] else address)"
    obtain s' where s': "append_sendbuffer_common i pr request 0 a ss = Some s'" "slot_step i Q ss s' None"
      "sk_type ?s = SOCKET_TYPE_CONNECTED \<and> sk_protocol ?s = PROTOCOL_TCP \<longrightarrow> queued E i pr (send_bytes (ss_heap ss) request) ss s'"
      using send_socket_append[OF assms(1,2) nq assms(5), where E = E and pr = pr] assms(6) queue(2) by blast
    have "send_socket E request pr udp_address ss = do { ss \<leftarrow> append_sendbuffer_common i pr request 0 a ss; Some (ss, None) }"
      using eq queue by (auto simp: a_def)
    then show ?thesis using s' nq by (simp add: quiet_def)
  qed
qed

end
