(* ===== verification/Socket_Stream.thy ===== *)
theory Socket_Stream
  imports Socket_Send
begin

text \<open>
  The bytes of one connection of the socket server, from the packages that services send to what the
  system accepts.
\<close>

section \<open>The bytes of a connection\<close>

text \<open>What happens to a connection: a package is sent with a priority, or the socket can be written.\<close>

datatype traffic = Package priority "u8 list" | Writable

fun run_traffic :: "os \<Rightarrow> int \<Rightarrow> traffic list \<Rightarrow> socket_server \<Rightarrow> (socket_server \<times> bool) option" where
  "run_traffic E i [] ss = Some (ss, True)"
| "run_traffic E i (Package pr bytes # ts) ss =
     (let (p, ss) = ss_malloc bytes ss in do {
        (ss, r) \<leftarrow> send_socket E \<lparr>rq_id = i, rq_sz = int (length bytes), rq_buffer = p\<rparr> pr None ss;
        if r = None then run_traffic E i ts ss else Some (ss, False)
      })"
| "run_traffic E i (Writable # ts) ss = do {
     (ss, r) \<leftarrow> send_buffer E (HASH_ID i) ss;
     if r = None then run_traffic E i ts ss else Some (ss, False)
   }"

fun sent_packages :: "priority \<Rightarrow> traffic list \<Rightarrow> u8 list list" where
  "sent_packages pr [] = []"
| "sent_packages pr (Package pr' bytes # ts) = (if pr' = pr then bytes # sent_packages pr ts else sent_packages pr ts)"
| "sent_packages pr (Writable # ts) = sent_packages pr ts"

text \<open>A server whose buffers are owned and whose memory grows.\<close>

definition stream_ok :: "int \<Rightarrow> socket_server \<Rightarrow> bool" where
  "stream_ok i ss \<longleftrightarrow> own (ss_slot ss) (ss_heap ss) [] \<and> (\<forall>p. ss_heap ss p \<noteq> None \<longrightarrow> p < ss_brk ss) \<and> NULL < ss_brk ss \<and>
     (let s = ss_slot ss (HASH_ID i) in socket_ok (HASH_ID i) s \<and> sk_id s = i \<and> sk_type s = SOCKET_TYPE_CONNECTED \<and>
        sk_protocol s = PROTOCOL_TCP)"

text \<open>
  The packages that went to the high list or the system, with their priorities, and those in the low list.
\<close>

definition order_ok :: "os \<Rightarrow> int \<Rightarrow> nat \<Rightarrow> u8 list \<Rightarrow> u8 list list \<Rightarrow> u8 list list \<Rightarrow> socket_server \<Rightarrow> bool" where
  "order_ok E fd i w hs ls ss \<longleftrightarrow> (\<exists>T. let s = ss_slot ss i in sk_fd s = fd \<and>
     written E fd ss @ concat (map wr_data (sk_high s)) = w @ concat (map snd T) \<and>
     map snd (filter (\<lambda>t. fst t = PRIORITY_HIGH) T) = hs \<and> map snd (filter (\<lambda>t. fst t = PRIORITY_LOW) T) @ map wr_data (sk_low s) = ls)"

lemma order_queued:
  assumes "order_ok E fd i w hs ls ss" "queued E i pr bytes ss ss'"
  shows "order_ok E fd i w (if pr = PRIORITY_HIGH then hs @ [bytes] else hs) (if pr = PRIORITY_LOW then ls @ [bytes] else ls) ss'"
proof -
  obtain T where T: "written E fd ss @ concat (map wr_data (sk_high (ss_slot ss i))) = w @ concat (map snd T)"
    "map snd (filter (\<lambda>t. fst t = PRIORITY_HIGH) T) = hs"
    "map snd (filter (\<lambda>t. fst t = PRIORITY_LOW) T) @ map wr_data (sk_low (ss_slot ss i)) = ls"
    using assms(1) by (auto simp: order_ok_def Let_def)
  have fd: "sk_fd (ss_slot ss i) = fd" using assms(1) by (auto simp: order_ok_def Let_def)
  show ?thesis
  proof (cases "pr = PRIORITY_HIGH \<or> send_buffer_empty (ss_slot ss i)")
    case True
    then have "written E fd ss' @ concat (map wr_data (sk_high (ss_slot ss' i))) = w @ concat (map snd (T @ [(pr, bytes)]))"
      "sk_low (ss_slot ss' i) = sk_low (ss_slot ss i)" "sk_fd (ss_slot ss' i) = fd"
      using assms(2) T(1) fd by (auto simp: queued_def Let_def simp flip: append_assoc)
    then show ?thesis unfolding order_ok_def Let_def using T(2,3) True
      by (intro exI[of _ "T @ [(pr, bytes)]"]) (cases pr; auto simp: send_buffer_empty_def)
  next
    case False
    then have "pr = PRIORITY_LOW" by (cases pr) auto
    then show ?thesis unfolding order_ok_def Let_def using T False assms(2) fd
      by (intro exI[of _ T]) (auto simp: queued_def Let_def)
  qed
qed

lemma order_flushed:
  assumes "order_ok E fd i w hs ls ss" "flushed E i ss ss'" "sk_protocol (ss_slot ss i) = PROTOCOL_TCP"
  shows "order_ok E fd i w hs ls ss'"
proof -
  obtain T where T: "written E fd ss @ concat (map wr_data (sk_high (ss_slot ss i))) = w @ concat (map snd T)"
    "map snd (filter (\<lambda>t. fst t = PRIORITY_HIGH) T) = hs"
    "map snd (filter (\<lambda>t. fst t = PRIORITY_LOW) T) @ map wr_data (sk_low (ss_slot ss i)) = ls"
    using assms(1) by (auto simp: order_ok_def Let_def)
  have fd: "sk_fd (ss_slot ss i) = fd" using assms(1) by (auto simp: order_ok_def Let_def)
  obtain k out where k: "sk_low (ss_slot ss' i) = drop k (sk_low (ss_slot ss i))" "sk_fd (ss_slot ss' i) = sk_fd (ss_slot ss i)"
    "concat (map wr_data (sk_high (ss_slot ss i) @ take k (sk_low (ss_slot ss i)))) = out @ concat (map wr_data (sk_high (ss_slot ss' i)))"
    "written E (sk_fd (ss_slot ss i)) ss' = written E (sk_fd (ss_slot ss i)) ss @ out"
    using assms(2,3) unfolding flushed_def Let_def by blast
  let ?T = "T @ map (\<lambda>wb. (PRIORITY_LOW, wr_data wb)) (take k (sk_low (ss_slot ss i)))"
  have "written E fd ss @ out @ concat (map wr_data (sk_high (ss_slot ss' i))) = w @ concat (map snd ?T)"
    using k(3)[symmetric] T(1) by (simp add: comp_def flip: append_assoc)
  moreover have "map wr_data (take k (sk_low (ss_slot ss i))) @ map wr_data (drop k (sk_low (ss_slot ss i))) = map wr_data (sk_low (ss_slot ss i))"
    by (metis append_take_drop_id map_append)
  ultimately show ?thesis unfolding order_ok_def Let_def using T(2,3) k(1,2,4) fd
    by (intro exI[of _ ?T]) (auto simp: filter_map comp_def)
qed

text \<open>A package that another thread allocates and sends.\<close>

lemma own_malloc:
  assumes "own slot heap Q" "\<forall>p. heap p \<noteq> None \<longrightarrow> p < brk" "NULL < brk"
  shows "own slot (heap(brk \<mapsto> bytes)) (brk # Q)"
proof -
  have n: "brk \<notin> dom heap" using assms(2) by (auto simp: dom_def)
  then have b: "brk \<notin> set (bufs (slot i))" "brk \<notin> set Q" for i using assms(1) by (auto simp: own_def)
  show ?thesis using assms(1,3) b unfolding own_def by auto
qed

lemma package_step:
  assumes "stream_ok i ss" "writes_ok E"
  shows "\<exists>ss' r. send_socket E \<lparr>rq_id = i, rq_sz = int (length bytes), rq_buffer = ss_brk ss\<rparr> pr None (snd (ss_malloc bytes ss)) = Some (ss', r) \<and>
    (if r = None then stream_ok i ss' \<and> queued E (HASH_ID i) pr bytes ss ss' else sk_type (ss_slot ss' (HASH_ID i)) = SOCKET_TYPE_INVALID)"
proof -
  let ?h = "HASH_ID i"
  let ?m = "snd (ss_malloc bytes ss)"
  let ?rq = "\<lparr>rq_id = i, rq_sz = int (length bytes), rq_buffer = ss_brk ss\<rparr>"
  have m: "ss_slot ?m = ss_slot ss" "ss_heap ?m = (ss_heap ss)(ss_brk ss \<mapsto> bytes)" "ss_calls ?m = ss_calls ss" "ss_brk ?m = ss_brk ss + 1"
    by (simp_all add: ss_malloc_def)
  have s: "socket_ok ?h (ss_slot ss ?h)" "sk_id (ss_slot ss ?h) = i" "sk_type (ss_slot ss ?h) = SOCKET_TYPE_CONNECTED"
    "sk_protocol (ss_slot ss ?h) = PROTOCOL_TCP" using assms(1) by (simp_all add: stream_ok_def Let_def)
  have o: "own (ss_slot ?m) (ss_heap ?m) (rq_buffer ?rq # [])"
    using assms(1) own_malloc[of "ss_slot ss" "ss_heap ss" "[]" "ss_brk ss" bytes] m by (simp add: stream_ok_def)
  obtain ss' r where r: "send_socket E ?rq pr None ?m = Some (ss', r)" "slot_step ?h [] ?m ss' r"
    "r = None \<longrightarrow> queued E ?h pr (send_bytes (ss_heap ?m) ?rq) ?m ss'" "r \<noteq> None \<longrightarrow> closes ?h ?m ss' r"
  proof -
    have q: "sendable (ss_heap ?m) (ss_soi_buffer ?m) ?rq" "starts_at_buffer (ss_soi_buffer ?m) ?rq" unfolding m(2) by (simp_all add: sendable_def starts_at_buffer_def)
    have s': "socket_ok ?h (ss_slot ?m ?h)" "?h = HASH_ID (rq_id ?rq)" "sk_id (ss_slot ?m ?h) = rq_id ?rq"
      "sk_type (ss_slot ?m ?h) = SOCKET_TYPE_CONNECTED" "sk_protocol (ss_slot ?m ?h) = PROTOCOL_TCP" using s unfolding m(1) by simp_all
    have "sk_id (ss_slot ?m ?h) \<noteq> rq_id ?rq" if "sk_type (ss_slot ?m ?h) = SOCKET_TYPE_RESERVE" using that s'(4) by simp
    from send_socket_ok[OF o s'(1,2) this q(1) q(2) assms(2), where udp_address = None and pr = pr] show thesis
      using that s'(3-5) by blast
  qed
  have "queued E ?h pr bytes ss ss'" if "r = None"
  proof -
    have "send_bytes (ss_heap ?m) ?rq = bytes" by (simp add: send_bytes_def m(2))
    then have "queued E ?h pr bytes ?m ss'" using r(3) that by simp
    then show ?thesis unfolding queued_def m(1) written_same[OF m(3)] .
  qed
  moreover have "stream_ok i ss'" if q: "queued E ?h pr bytes ss ss'"
  proof -
    have "\<forall>p. ss_heap ss' p \<noteq> None \<longrightarrow> p < ss_brk ss'"
      using r(2) m assms(1) unfolding slot_step_def slot_frame_def stream_ok_def same_rest_def
      by (metis fun_upd_apply less_SucI Suc_eq_plus1 lessI)
    then show ?thesis using q r(2) m assms(1) s
      by (auto simp: stream_ok_def queued_def Let_def slot_step_def slot_frame_def same_rest_def)
  qed
  moreover have "sk_type (ss_slot ss' ?h) = SOCKET_TYPE_INVALID" if "r \<noteq> None" using r(4) that by (auto simp: closes_def)
  ultimately show ?thesis using r(1) by auto
qed

lemma writable_step:
  assumes "stream_ok i ss" "writes_ok E" "interrupts_end E"
  shows "\<exists>ss' r. send_buffer E (HASH_ID i) ss = Some (ss', r) \<and>
    (if r = None then stream_ok i ss' \<and> flushed E (HASH_ID i) ss ss' else sk_type (ss_slot ss' (HASH_ID i)) = SOCKET_TYPE_INVALID)"
proof -
  let ?h = "HASH_ID i"
  obtain ss' r where r: "send_buffer E ?h ss = Some (ss', r)" "slot_frame ?h [] ss ss'"
    "if r = None then flushed E ?h ss ss' \<and> socket_ok ?h (ss_slot ss' ?h) else closes ?h ss ss' r"
    using send_buffer_ok[of ss "[]" E ?h] assms by (auto simp: stream_ok_def Let_def)
  moreover have "stream_ok i ss'" if "flushed E ?h ss ss'" "socket_ok ?h (ss_slot ss' ?h)"
    using that r(2) assms(1) unfolding stream_ok_def flushed_def Let_def slot_frame_def same_rest_def by metis
  ultimately show ?thesis by (auto simp: closes_def split: if_splits)
qed

lemma run_traffic_order:
  assumes "stream_ok i ss" "writes_ok E" "interrupts_end E" "order_ok E fd (HASH_ID i) w hs ls ss"
  shows "\<exists>ss' alive. run_traffic E i ts ss = Some (ss', alive) \<and>
    (if alive then stream_ok i ss' \<and> order_ok E fd (HASH_ID i) w (hs @ sent_packages PRIORITY_HIGH ts) (ls @ sent_packages PRIORITY_LOW ts) ss'
     else sk_type (ss_slot ss' (HASH_ID i)) = SOCKET_TYPE_INVALID)"
  using assms(1,4)
proof (induction ts arbitrary: ss hs ls)
  case Nil
  then show ?case by (intro exI[of _ ss] exI[of _ True]) simp
next
  case (Cons t ts)
  show ?case
  proof (cases t)
    case (Package pr bytes)
    obtain s1 r where s1: "send_socket E \<lparr>rq_id = i, rq_sz = int (length bytes), rq_buffer = ss_brk ss\<rparr> pr None (snd (ss_malloc bytes ss)) = Some (s1, r)"
      "if r = None then stream_ok i s1 \<and> queued E (HASH_ID i) pr bytes ss s1 else sk_type (ss_slot s1 (HASH_ID i)) = SOCKET_TYPE_INVALID"
      using package_step[OF Cons.prems(1) assms(2)] by blast
    have eq: "run_traffic E i (t # ts) ss = (if r = None then run_traffic E i ts s1 else Some (s1, False))"
      using s1(1) Package by (simp add: ss_malloc_def Let_def)
    show ?thesis
    proof (cases "r = None")
      case True
      have ok: "stream_ok i s1" "queued E (HASH_ID i) pr bytes ss s1" using True s1(2) by simp_all
      have "(if pr = PRIORITY_HIGH then hs @ [bytes] else hs) @ sent_packages PRIORITY_HIGH ts = hs @ sent_packages PRIORITY_HIGH (t # ts)"
        "(if pr = PRIORITY_LOW then ls @ [bytes] else ls) @ sent_packages PRIORITY_LOW ts = ls @ sent_packages PRIORITY_LOW (t # ts)"
        using Package by simp_all
      moreover have "run_traffic E i (t # ts) ss = run_traffic E i ts s1" using eq True by metis
      ultimately show ?thesis using Cons.IH[OF ok(1) order_queued[OF Cons.prems(2) ok(2)]] by (simp only:)
    next
      case False
      then have "run_traffic E i (t # ts) ss = Some (s1, False)" using eq by metis
      then show ?thesis using s1(2) False by auto
    qed
  next
    case Writable
    obtain s1 r where s1: "send_buffer E (HASH_ID i) ss = Some (s1, r)"
      "if r = None then stream_ok i s1 \<and> flushed E (HASH_ID i) ss s1 else sk_type (ss_slot s1 (HASH_ID i)) = SOCKET_TYPE_INVALID"
      using writable_step[OF Cons.prems(1) assms(2,3)] by blast
    show ?thesis
    proof (cases "r = None")
      case True
      have ok: "stream_ok i s1" "flushed E (HASH_ID i) ss s1" using True s1(2) by simp_all
      have "sk_protocol (ss_slot ss (HASH_ID i)) = PROTOCOL_TCP" using Cons.prems(1) by (simp add: stream_ok_def Let_def)
      then have "order_ok E fd (HASH_ID i) w hs ls s1" by (rule order_flushed[OF Cons.prems(2) ok(2)])
      moreover have "run_traffic E i (t # ts) ss = run_traffic E i ts s1" "sent_packages pr (t # ts) = sent_packages pr ts" for pr
        using True s1(1) Writable by simp_all
      ultimately show ?thesis using Cons.IH[OF ok(1)] by (simp only:)
    next
      case False
      then have "run_traffic E i (t # ts) ss = Some (s1, False)" using s1(1) Writable by auto
      then show ?thesis using s1(2) False by auto
    qed
  qed
qed

lemma order_start: "send_buffer_empty (ss_slot ss i) \<Longrightarrow> sk_fd (ss_slot ss i) = fd \<Longrightarrow> order_ok E fd i (written E fd ss) [] [] ss"
  by (auto simp: order_ok_def send_buffer_empty_def Let_def intro!: exI[of _ "[]"])

lemma map_shuffles: "zs \<in> shuffles xs ys \<Longrightarrow> map f zs \<in> shuffles (map f xs) (map f ys)"
proof (induction xs ys arbitrary: zs rule: shuffles.induct)
  case (3 x xs y ys)
  from 3(3) consider zs' where "zs = x # zs'" "zs' \<in> shuffles xs (y # ys)" | zs' where "zs = y # zs'" "zs' \<in> shuffles (x # xs) ys" by auto
  then show ?case
  proof cases
    case 1
    then show ?thesis using 3(1)[of zs'] by simp
  next
    case 2
    then show ?thesis using 3(2)[of zs'] by simp
  qed
qed simp_all

lemma order_shuffle:
  assumes "order_ok E fd i w hs ls ss"
  shows "\<exists>T \<in> shuffles hs ls. written E fd ss @ pending_bytes (ss_slot ss i) = w @ concat T"
proof -
  obtain T where T: "written E fd ss @ concat (map wr_data (sk_high (ss_slot ss i))) = w @ concat (map snd T)"
    "map snd (filter (\<lambda>t. fst t = PRIORITY_HIGH) T) = hs"
    "map snd (filter (\<lambda>t. fst t = PRIORITY_LOW) T) @ map wr_data (sk_low (ss_slot ss i)) = ls"
    using assms by (auto simp: order_ok_def Let_def)
  have fd: "sk_fd (ss_slot ss i) = fd" using assms by (auto simp: order_ok_def Let_def)
  define T' where "T' = T @ map (\<lambda>wb. (PRIORITY_LOW, wr_data wb)) (sk_low (ss_slot ss i))"
  have n: "(\<lambda>t. fst t = PRIORITY_LOW) = (\<lambda>t :: priority \<times> u8 list. \<not> fst t = PRIORITY_HIGH)" by (rule ext) (metis priority.exhaust priority.distinct(1))
  have "T' \<in> shuffles (filter (\<lambda>t. fst t = PRIORITY_HIGH) T') (filter (\<lambda>t. fst t = PRIORITY_LOW) T')"
    unfolding n by (rule partition_in_shuffles)
  then have "map snd T' \<in> shuffles (map snd (filter (\<lambda>t. fst t = PRIORITY_HIGH) T')) (map snd (filter (\<lambda>t. fst t = PRIORITY_LOW) T'))"
    by (rule map_shuffles)
  moreover have "map snd (filter (\<lambda>t. fst t = PRIORITY_HIGH) T') = hs" "map snd (filter (\<lambda>t. fst t = PRIORITY_LOW) T') = ls"
    using T(2,3) by (simp_all add: T'_def filter_map comp_def)
  moreover have "written E fd ss @ pending_bytes (ss_slot ss i) = w @ concat (map snd T')"
    using T(1) by (simp add: T'_def pending_lists comp_def flip: append_assoc)
  ultimately show ?thesis by metis
qed


text \<open>
  C3: the bytes of a connection. Packages of both priorities are sent on a connected TCP socket with nothing
  pending, and its lists are written whenever the system says so. Then no assertion fails, nothing is freed
  twice, every call returns, and either the socket is closed, or what the system accepted so far and then what is
  pending are whole packages: all of them, those of each priority in the order they were sent, and none inside
  another, whatever parts the system accepts. The counter of pending bytes is exact.
\<close>

theorem socket_stream_order:
  assumes "stream_ok i ss" "writes_ok E" "interrupts_end E" "send_buffer_empty (ss_slot ss (HASH_ID i))"
    "sk_fd (ss_slot ss (HASH_ID i)) = fd"
  shows "\<exists>ss' alive. run_traffic E i ts ss = Some (ss', alive) \<and>
    (let s = ss_slot ss' (HASH_ID i) in
     if alive then \<exists>T \<in> shuffles (sent_packages PRIORITY_HIGH ts) (sent_packages PRIORITY_LOW ts).
       written E fd ss' @ pending_bytes s = written E fd ss @ concat T \<and> sk_wb_size s = int (length (pending_bytes s))
     else sk_type s = SOCKET_TYPE_INVALID)"
proof -
  have o: "order_ok E fd (HASH_ID i) (written E fd ss) [] [] ss" using assms(4,5) by (rule order_start)
  obtain ss' alive where r: "run_traffic E i ts ss = Some (ss', alive)"
    "if alive then stream_ok i ss' \<and> order_ok E fd (HASH_ID i) (written E fd ss) (sent_packages PRIORITY_HIGH ts) (sent_packages PRIORITY_LOW ts) ss'
     else sk_type (ss_slot ss' (HASH_ID i)) = SOCKET_TYPE_INVALID"
    using run_traffic_order[OF assms(1-3) o, of ts] unfolding append_Nil by blast
  show ?thesis
  proof (cases alive)
    case True
    then have "sk_wb_size (ss_slot ss' (HASH_ID i)) = int (length (pending_bytes (ss_slot ss' (HASH_ID i))))"
      using r(2) by (simp add: stream_ok_def socket_ok_def Let_def)
    moreover obtain T where "T \<in> shuffles (sent_packages PRIORITY_HIGH ts) (sent_packages PRIORITY_LOW ts)"
      "written E fd ss' @ pending_bytes (ss_slot ss' (HASH_ID i)) = written E fd ss @ concat T"
      using order_shuffle r(2) True by (metis (full_types))
    ultimately show ?thesis using r(1) True by (intro exI[of _ ss'] exI[of _ True]) (auto simp: Let_def)
  next
    case False
    then show ?thesis using r by (intro exI[of _ ss'] exI[of _ False]) (auto simp: Let_def)
  qed
qed

text \<open>A system that accepts two bytes at a time, and a connected socket.\<close>

definition slow_system :: os where
  "slow_system = \<lparr>os_result = (\<lambda>calls.
     \<lparr>sy_ret = (case last calls of Sys_write fd bs \<Rightarrow> int (min 2 (length bs)) | _ \<Rightarrow> 0), sy_errno = EAGAIN, sy_data = [],
      sy_addr = [], sy_family = 0, sy_addrs = [], sy_events = [], sy_fds = (0, 0)\<rparr>),
     os_strerror = (\<lambda>e. []), os_gai_strerror = (\<lambda>n. []), os_inet_ntop = (\<lambda>a. None), os_port = (\<lambda>a. 0)\<rparr>"

definition connected_server :: socket_server where
  "connected_server = socket_server_start_state\<lparr>ss_slot := (\<lambda>_. socket_zero)(1 := socket_zero\<lparr>sk_type := SOCKET_TYPE_CONNECTED,
     sk_id := 1, sk_fd := 7\<rparr>)\<rparr>"

lemma slow_system_ok: "writes_ok slow_system" "interrupts_end slow_system"
  by (auto simp: writes_ok_def interrupts_end_def interrupted_def slow_system_def split: syscall.splits)

lemma connected_server_ok: "stream_ok 1 connected_server"
proof -
  have "HASH_ID 1 = 1" by (simp add: HASH_ID_def MAX_SOCKET_def)
  then show ?thesis by (simp add: stream_ok_def connected_server_def socket_server_start_state_def own_def bufs_def socket_zero_def
      socket_ok_def quiet_def pending_bytes_def PROTOCOL_TCP_def)
qed

theorem socket_stream_order_witness:
  "let ts = [Package PRIORITY_LOW [1, 2, 3], Package PRIORITY_LOW [4], Package PRIORITY_HIGH [5], Writable] in
   \<exists>ss' alive. run_traffic slow_system 1 ts connected_server = Some (ss', alive) \<and>
    (let s = ss_slot ss' 1 in
     if alive then \<exists>T \<in> shuffles [[5]] [[1, 2, 3], [4]].
       written slow_system 7 ss' @ pending_bytes s = concat T \<and> sk_wb_size s = int (length (pending_bytes s))
     else sk_type s = SOCKET_TYPE_INVALID)"
proof -
  define ts :: "traffic list" where "ts = [Package PRIORITY_LOW [1, 2, 3], Package PRIORITY_LOW [4], Package PRIORITY_HIGH [5], Writable]"
  have h: "HASH_ID 1 = 1" by (simp add: HASH_ID_def MAX_SOCKET_def)
  have e: "send_buffer_empty (ss_slot connected_server (HASH_ID 1))" "sk_fd (ss_slot connected_server (HASH_ID 1)) = 7"
    by (simp_all add: h connected_server_def socket_server_start_state_def send_buffer_empty_def socket_zero_def)
  have w: "written slow_system 7 connected_server = []"
    by (simp add: written_def connected_server_def socket_server_start_state_def)
  have p: "sent_packages PRIORITY_HIGH ts = [[5]]" "sent_packages PRIORITY_LOW ts = [[1, 2, 3], [4]]" by (simp_all add: ts_def)
  show ?thesis
    using socket_stream_order[OF connected_server_ok slow_system_ok e, of ts]
    unfolding h p w append_Nil ts_def[symmetric] Let_def .
qed

end
