(* ===== verification/Socket_Id.thy ===== *)
theory Socket_Id
  imports Socket_Send
begin

text \<open>The numbers of sockets: \<open>reserve_id\<close> and its loop over the slots.\<close>

section \<open>Numbers of sockets\<close>

text \<open>The number after \<open>a\<close>; it stays below \<open>2 ^ 31\<close>.\<close>

definition next_id :: "u32 \<Rightarrow> u32" where
  "next_id a = (let b = a + 1 in if sint b < 0 then b AND 0x7fffffff else b)"

text \<open>The number that the \<open>n\<close>-th round of the loop tries.\<close>

definition nth_id :: "u32 \<Rightarrow> nat \<Rightarrow> u32" where
  "nth_id a n = (next_id ^^ n) a"

lemma sint_u32: "sint (b :: u32) = (if unat b < 2 ^ 31 then int (unat b) else int (unat b) - 2 ^ 32)"
proof (cases "unat b < 2 ^ 31")
  case True
  then have "int (unat b) < 2 ^ 31" by (metis of_nat_less_iff of_nat_numeral of_nat_power)
  moreover have "- (2 ^ 31) \<le> int (unat b)" by (intro order_trans[OF _ of_nat_0_le_iff]) simp
  ultimately have "signed_take_bit 31 (int (unat b)) = int (unat b)" by (intro signed_take_bit_int_eq_self)
  then show ?thesis using True sint_uint[of b] by simp
next
  case False
  let ?k = "int (unat b) - 2 ^ 32"
  have g: "sint (word_of_int k :: u32) = signed_take_bit 31 k" for k by (simp add: signed_of_int)
  have "2 ^ 31 \<le> int (unat b)" using False by (metis not_less of_nat_less_iff of_nat_numeral of_nat_power)
  moreover have "int (unat b) < 2 ^ 32" using uint_lt2p[of b] by simp
  moreover have "(2 :: int) ^ 32 = 2 ^ 31 + 2 ^ 31" by simp
  ultimately have "signed_take_bit 31 ?k = ?k" by (intro signed_take_bit_int_eq_self) presburger+
  moreover have "b = word_of_int ?k" by (simp add: of_int_diff)
  ultimately show ?thesis using False g[of ?k] by (metis (mono_tags))
qed

lemma next_id_mod: "unat (next_id a) = (unat a + 1) mod 2 ^ 31"
proof -
  have m: "unat (b AND 0x7fffffff) = unat b mod 2 ^ 31" for b :: u32
    using unat_and_mask[of b 31] by (simp add: mask_eq_exp_minus_1)
  have t: "unat (a + 1) mod 2 ^ 31 = (unat a + 1) mod 2 ^ 31"
    by (simp add: unat_word_ariths mod_mod_cancel)
  show ?thesis
  proof (cases "unat (a + 1) < 2 ^ 31")
    case True
    then show ?thesis using t sint_u32[of "a + 1"] by (simp add: next_id_def Let_def)
  next
    case False
    moreover have "int (unat (a + 1)) < 2 ^ 32" using uint_lt2p[of "a + 1"] by simp
    ultimately have "sint (a + 1) < 0" using sint_u32[of "a + 1"] by presburger
    then show ?thesis using t m[of "a + 1"] by (simp add: next_id_def Let_def)
  qed
qed

lemma nth_id_mod: "unat (nth_id a (Suc n)) = (unat a + Suc n) mod 2 ^ 31"
  unfolding nth_id_def by (induction n) (simp_all add: next_id_mod mod_simps)

lemma sint_nth_id: "sint (nth_id a (Suc n)) = int ((unat a + Suc n) mod 2 ^ 31)"
  using nth_id_mod[of a n] by (subst sint_u32) simp

text \<open>The slot of a number.\<close>

lemma HASH_ID_nth: "HASH_ID (sint (nth_id a (Suc n))) = (unat a + Suc n) mod MAX_SOCKET"
proof -
  have "(word_of_int (sint (nth_id a (Suc n))) :: u32) = nth_id a (Suc n)" by simp
  then show ?thesis unfolding HASH_ID_def MAX_SOCKET_def by (simp only: nth_id_mod) (simp add: mod_mod_cancel)
qed

lemma nth_id_Suc: "nth_id (next_id a) n = nth_id a (Suc n)"
  by (simp add: nth_id_def funpow_swap1)

lemma nth_id_first: "next_id a = nth_id a (Suc 0)"
  by (simp add: nth_id_def)

lemma reserve_loop_none:
  "(\<forall>k < n. sk_type (ss_slot ss (HASH_ID (sint (nth_id (ss_alloc_id ss) (Suc k))))) \<noteq> SOCKET_TYPE_INVALID) \<Longrightarrow>
   reserve_loop n ss = (ss\<lparr>ss_alloc_id := nth_id (ss_alloc_id ss) n\<rparr>, - 1)"
proof (induction n arbitrary: ss)
  case 0
  then show ?case by (simp add: nth_id_def)
next
  case (Suc n)
  let ?ss = "ss\<lparr>ss_alloc_id := next_id (ss_alloc_id ss)\<rparr>"
  have "sk_type (ss_slot ss (HASH_ID (sint (next_id (ss_alloc_id ss))))) \<noteq> SOCKET_TYPE_INVALID"
    using Suc.prems by (auto simp: nth_id_first)
  then have "reserve_loop (Suc n) ss = reserve_loop n ?ss" by (simp add: next_id_def Let_def)
  also have "\<dots> = (?ss\<lparr>ss_alloc_id := nth_id (ss_alloc_id ?ss) n\<rparr>, - 1)"
    using Suc.prems by (intro Suc.IH) (auto simp: nth_id_Suc)
  finally show ?case by (simp add: nth_id_Suc)
qed

lemma reserve_loop_some:
  assumes "k < n" "sk_type (ss_slot ss (HASH_ID (sint (nth_id (ss_alloc_id ss) (Suc k))))) = SOCKET_TYPE_INVALID"
    "\<forall>j < k. sk_type (ss_slot ss (HASH_ID (sint (nth_id (ss_alloc_id ss) (Suc j))))) \<noteq> SOCKET_TYPE_INVALID"
  defines "a \<equiv> nth_id (ss_alloc_id ss) (Suc k)"
  shows "reserve_loop n ss = (set_slot (HASH_ID (sint a)) ((ss_slot ss (HASH_ID (sint a)))\<lparr>sk_type := SOCKET_TYPE_RESERVE,
     sk_id := sint a, sk_fd := - 1\<rparr>) (ss\<lparr>ss_alloc_id := a\<rparr>), sint a)"
  using assms(1-3) unfolding a_def
proof (induction n arbitrary: ss k)
  case 0
  then show ?case by simp
next
  case (Suc n)
  let ?ss = "ss\<lparr>ss_alloc_id := next_id (ss_alloc_id ss)\<rparr>"
  show ?case
  proof (cases k)
    case 0
    then show ?thesis using Suc.prems(2) by (simp add: nth_id_first[symmetric]) (simp add: next_id_def Let_def)
  next
    case (Suc k')
    have "sk_type (ss_slot ss (HASH_ID (sint (next_id (ss_alloc_id ss))))) \<noteq> SOCKET_TYPE_INVALID"
      using Suc.prems(3) Suc by (auto simp: nth_id_first)
    then have "reserve_loop (Suc n) ss = reserve_loop n ?ss" by (simp add: next_id_def Let_def)
    then show ?thesis using Suc.IH[of k' ?ss] Suc.prems Suc by (simp add: nth_id_Suc)
  qed
qed

text \<open>The loop tries every slot once.\<close>

lemma slot_tried:
  assumes "h < MAX_SOCKET"
  shows "\<exists>k < MAX_SOCKET. HASH_ID (sint (nth_id a (Suc k))) = h"
proof -
  let ?b = "(unat a + 1) mod MAX_SOCKET"
  let ?k = "(h + (MAX_SOCKET - ?b)) mod MAX_SOCKET"
  have b: "?b \<le> MAX_SOCKET" by (simp add: MAX_SOCKET_def)
  have "(unat a + Suc ?k) mod MAX_SOCKET = (?b + (h + (MAX_SOCKET - ?b))) mod MAX_SOCKET"
    by (metis add_Suc_right add_Suc Suc_eq_plus1 mod_add_left_eq mod_add_right_eq)
  also have "\<dots> = (h + MAX_SOCKET) mod MAX_SOCKET" using b by simp
  also have "\<dots> = h" using assms by simp
  finally show ?thesis using HASH_ID_nth[of a ?k] by (intro exI[of _ ?k]) (simp add: MAX_SOCKET_def)
qed

definition reserved_at :: "int \<Rightarrow> socket \<Rightarrow> socket" where
  "reserved_at i s = s\<lparr>sk_type := SOCKET_TYPE_RESERVE, sk_id := i, sk_fd := - 1\<rparr>"

lemma reserve_id_cases:
  obtains (full) "\<forall>h < MAX_SOCKET. sk_type (ss_slot ss h) \<noteq> SOCKET_TYPE_INVALID"
      "reserve_id ss = (ss\<lparr>ss_alloc_id := nth_id (ss_alloc_id ss) MAX_SOCKET\<rparr>, - 1)"
  | (free) k i where "k < MAX_SOCKET" "i = int ((unat (ss_alloc_id ss) + Suc k) mod 2 ^ 31)"
      "sk_type (ss_slot ss (HASH_ID i)) = SOCKET_TYPE_INVALID"
      "reserve_id ss = (set_slot (HASH_ID i) (reserved_at i (ss_slot ss (HASH_ID i))) (ss\<lparr>ss_alloc_id := word_of_int i\<rparr>), i)"
proof -
  let ?h = "\<lambda>k. HASH_ID (sint (nth_id (ss_alloc_id ss) (Suc k)))"
  let ?P = "\<lambda>k. k < MAX_SOCKET \<and> sk_type (ss_slot ss (?h k)) = SOCKET_TYPE_INVALID"
  show thesis
  proof (cases "\<exists>k. ?P k")
    case True
    define k where "k = (LEAST k. ?P k)"
    have k: "?P k" unfolding k_def using True by (rule LeastI_ex)
    have "\<not> ?P j" if "j < k" for j using that not_less_Least unfolding k_def by blast
    then have first: "\<forall>j < k. sk_type (ss_slot ss (?h j)) \<noteq> SOCKET_TYPE_INVALID" using k by auto
    define i where "i = sint (nth_id (ss_alloc_id ss) (Suc k))"
    have w: "nth_id (ss_alloc_id ss) (Suc k) = word_of_int i" by (simp add: i_def)
    have "reserve_id ss = (set_slot (HASH_ID i) (reserved_at i (ss_slot ss (HASH_ID i))) (ss\<lparr>ss_alloc_id := word_of_int i\<rparr>), i)"
      using reserve_loop_some[of k MAX_SOCKET ss] k first unfolding reserve_id_def reserved_at_def w[symmetric] i_def by simp
    then show thesis by (rule free[rotated 3]) (use k in \<open>simp_all only: i_def sint_nth_id\<close>)
  next
    case False
    have "\<forall>h < MAX_SOCKET. sk_type (ss_slot ss h) \<noteq> SOCKET_TYPE_INVALID"
    proof (intro allI impI)
      fix h assume "h < MAX_SOCKET"
      then obtain k where "k < MAX_SOCKET" "?h k = h" using slot_tried[of h "ss_alloc_id ss"] by blast
      then show "sk_type (ss_slot ss h) \<noteq> SOCKET_TYPE_INVALID" using False by blast
    qed
    moreover have "reserve_id ss = (ss\<lparr>ss_alloc_id := nth_id (ss_alloc_id ss) MAX_SOCKET\<rparr>, - 1)"
      unfolding reserve_id_def using False by (intro reserve_loop_none) blast
    ultimately show thesis by (rule full)
  qed
qed

text \<open>
  C19: while a slot is free, \<open>reserve_id\<close> finds one in at most 65536 rounds: it returns a number that is not negative
  (also when the counter wraps), whose slot was free and is reserved for this number, and changes no other slot;
  it returns \<open>-1\<close> exactly when all slots are taken.
\<close>

theorem reserve_id_correct:
  "if \<exists>h < MAX_SOCKET. sk_type (ss_slot ss h) = SOCKET_TYPE_INVALID
   then \<exists>i. 0 \<le> i \<and> i < 2 ^ 31 \<and> sk_type (ss_slot ss (HASH_ID i)) = SOCKET_TYPE_INVALID \<and>
     reserve_id ss = (set_slot (HASH_ID i) ((ss_slot ss (HASH_ID i))\<lparr>sk_type := SOCKET_TYPE_RESERVE, sk_id := i, sk_fd := - 1\<rparr>)
       (ss\<lparr>ss_alloc_id := word_of_int i\<rparr>), i)
   else \<exists>a. reserve_id ss = (ss\<lparr>ss_alloc_id := a\<rparr>, - 1)"
proof (cases rule: reserve_id_cases[of ss])
  case full
  then show ?thesis by auto
next
  case (free k i)
  have "HASH_ID i < MAX_SOCKET" by (simp add: HASH_ID_def MAX_SOCKET_def)
  moreover have "i < 2 ^ 31" unfolding free(2) by (simp add: zmod_int)
  ultimately show ?thesis using free by (auto simp: reserved_at_def)
qed

end
