(* ===== verification/Socket_Ops.thy ===== *)
theory Socket_Ops
  imports Socket_Stream Socket_Id
begin

text \<open>
  What each operation of the socket thread does to the slot it works on: opening a reserved slot, and the operations and
  events of an open socket.
\<close>

section \<open>Opening a reserved slot\<close>

text \<open>A slot that is reserved for the number \<open>i\<close>.\<close>

definition reserved_for :: "(nat \<Rightarrow> socket) \<Rightarrow> int \<Rightarrow> bool" where
  "reserved_for slot i \<longleftrightarrow> sk_type (slot (HASH_ID i)) = SOCKET_TYPE_RESERVE \<and> sk_id (slot (HASH_ID i)) = i"

lemma bufs_Nil: "bufs s = [] \<longleftrightarrow> sk_high s = [] \<and> sk_low s = []"
  by (auto simp: bufs_def)

lemma slot_frame_set:
  assumes "slot_frame h Q ss ss'" "distinct (bufs s)" "set (bufs s) \<subseteq> set (bufs (ss_slot ss' h))"
  shows "slot_frame h Q ss (set_slot h s ss')"
  using assms own_subset[of "ss_slot ss'" "ss_heap ss'" Q s h] by (simp add: slot_frame_def)

lemma slot_frame_refl: "own (ss_slot ss) (ss_heap ss) Q \<Longrightarrow> slot_frame h Q ss ss"
  by (simp add: slot_frame_def)

text \<open>The slot \<open>i\<close> was reserved, and only it and the trace changed since; nothing is queued there.\<close>

definition fresh_slot :: "int \<Rightarrow> ptr list \<Rightarrow> socket_server \<Rightarrow> socket_server \<Rightarrow> bool" where
  "fresh_slot i Q ss ss' \<longleftrightarrow> reserved_for (ss_slot ss) i \<and> slot_frame (HASH_ID i) Q ss ss' \<and>
     sk_high (ss_slot ss' (HASH_ID i)) = [] \<and> sk_low (ss_slot ss' (HASH_ID i)) = [] \<and> sk_id (ss_slot ss' (HASH_ID i)) = i"

definition opens :: "int \<Rightarrow> ptr list \<Rightarrow> socket_server \<Rightarrow> (socket_server \<times> socket_report) option \<Rightarrow> bool" where
  "opens i Q ss res \<longleftrightarrow> (\<exists>ss' r. res = Some (ss', r) \<and> slot_step (HASH_ID i) Q ss ss' r \<and>
     sk_type (ss_slot ss' (HASH_ID i)) \<noteq> SOCKET_TYPE_RESERVE)"

lemma fresh_slot_sys [simp]: "fresh_slot i Q ss (snd (sys E c ss')) \<longleftrightarrow> fresh_slot i Q ss ss'"
  by (simp add: fresh_slot_def)

lemma opens_sys [simp]: "opens i Q ss (Some (snd (sys E c ss'), r)) \<longleftrightarrow> opens i Q ss (Some (ss', r))"
  by (simp add: opens_def)

lemma fresh_slot_start:
  assumes "own (ss_slot ss) (ss_heap ss) Q" "reserved_for (ss_slot ss) i" "socket_ok (HASH_ID i) (ss_slot ss (HASH_ID i))"
  shows "fresh_slot i Q ss ss"
  using assms slot_frame_refl by (auto simp: fresh_slot_def reserved_for_def socket_ok_def quiet_def)

lemma fresh_slot_set:
  assumes "fresh_slot i Q ss ss'" "sk_high s = []" "sk_low s = []" "sk_id s = i"
  shows "fresh_slot i Q ss (set_slot (HASH_ID i) s ss')"
  using assms slot_frame_set[of "HASH_ID i" Q ss ss' s] by (simp add: fresh_slot_def bufs_def)

lemma new_fd_ok:
  assumes "fresh_slot i Q ss0 ss" "reserved_for (ss_slot ss) i"
  shows "\<exists>ss' ns. new_fd E i fd protocol opaque add ss = Some (ss', ns) \<and> fresh_slot i Q ss0 ss' \<and>
    (ns = None \<and> sk_type (ss_slot ss' (HASH_ID i)) = SOCKET_TYPE_INVALID \<or>
     ns = Some (HASH_ID i) \<and> sk_wb_size (ss_slot ss' (HASH_ID i)) = 0)"
proof -
  let ?h = "HASH_ID i"
  let ?ss = "if add then snd (sys E (Sp_add fd (Some ?h)) ss) else ss"
  have l: "sk_type (ss_slot ss ?h) = SOCKET_TYPE_RESERVE" "sk_high (ss_slot ss ?h) = []" "sk_low (ss_slot ss ?h) = []" "sk_id (ss_slot ss ?h) = i"
    using assms by (auto simp: reserved_for_def fresh_slot_def)
  have f: "fresh_slot i Q ss0 ?ss" using assms(1) by simp
  show ?thesis
    unfolding new_fd_def Let_def using l fresh_slot_set[OF f, of "(ss_slot ss ?h)\<lparr>sk_type := SOCKET_TYPE_INVALID\<rparr>"]
      fresh_slot_set[OF f, of "(ss_slot ss ?h)\<lparr>sk_id := i, sk_fd := fd, sk_protocol := protocol, sk_size := MIN_READ_BUFFER, sk_opaque := opaque, sk_wb_size := 0\<rparr>"]
    by (auto simp: set_type_def)
qed

text \<open>The ends of an operation that opens a reserved slot.\<close>

lemma opens_done:
  assumes "fresh_slot i Q ss ss'" "sk_type (ss_slot ss' (HASH_ID i)) \<noteq> SOCKET_TYPE_RESERVE"
    "sk_type (ss_slot ss' (HASH_ID i)) \<noteq> SOCKET_TYPE_INVALID \<Longrightarrow> sk_wb_size (ss_slot ss' (HASH_ID i)) = 0"
  shows "opens i Q ss (Some (ss', r))"
  using assms by (auto simp: opens_def slot_step_def fresh_slot_def reserved_for_def socket_ok_def pending_bytes_def)

lemma opens_type:
  assumes "fresh_slot i Q ss ss'" "t \<noteq> SOCKET_TYPE_RESERVE" "t \<noteq> SOCKET_TYPE_INVALID \<Longrightarrow> sk_wb_size (ss_slot ss' (HASH_ID i)) = 0"
  shows "opens i Q ss (Some (set_type (HASH_ID i) t ss', r))"
proof -
  have "fresh_slot i Q ss (set_type (HASH_ID i) t ss')"
    unfolding set_type_def using assms(1) by (intro fresh_slot_set) (simp_all add: fresh_slot_def)
  then show ?thesis using assms(2,3) by (intro opens_done) (simp_all add: set_type_def)
qed

lemma opens_failed: "fresh_slot i Q ss ss' \<Longrightarrow> opens i Q ss (Some (open_failed i opaque t ss'))"
  unfolding open_failed_def by (rule opens_type) simp_all

lemma listen_socket_opens:
  assumes "fresh_slot i Q ss ss" "reserved_for (ss_slot ss) i"
  shows "opens i Q ss (listen_socket E i fd opaque ss)"
proof -
  obtain s1 ns where s1: "new_fd E i fd PROTOCOL_TCP opaque False ss = Some (s1, ns)" "fresh_slot i Q ss s1"
    "ns = None \<and> sk_type (ss_slot s1 (HASH_ID i)) = SOCKET_TYPE_INVALID \<or> ns = Some (HASH_ID i) \<and> sk_wb_size (ss_slot s1 (HASH_ID i)) = 0"
    using new_fd_ok[OF assms] by blast
  then show ?thesis by (auto simp: listen_socket_def intro!: opens_failed opens_type)
qed

lemma bind_socket_opens:
  assumes "fresh_slot i Q ss ss" "reserved_for (ss_slot ss) i"
  shows "opens i Q ss (bind_socket E i fd opaque ss)"
proof -
  obtain s1 ns where s1: "new_fd E i fd PROTOCOL_TCP opaque True ss = Some (s1, ns)" "fresh_slot i Q ss s1"
    "ns = None \<and> sk_type (ss_slot s1 (HASH_ID i)) = SOCKET_TYPE_INVALID \<or> ns = Some (HASH_ID i) \<and> sk_wb_size (ss_slot s1 (HASH_ID i)) = 0"
    using new_fd_ok[OF assms] by blast
  then show ?thesis by (auto simp: bind_socket_def intro!: opens_done opens_type)
qed

lemma add_udp_socket_opens:
  assumes "fresh_slot i Q ss ss" "reserved_for (ss_slot ss) i"
  shows "opens i Q ss (do { ss \<leftarrow> add_udp_socket E i fd family opaque ss; Some (ss, None) })"
proof -
  define protocol where "protocol = (if family = AF_INET6 then PROTOCOL_UDPv6 else PROTOCOL_UDP)"
  obtain s1 ns where s1: "new_fd E i fd protocol opaque True ss = Some (s1, ns)" "fresh_slot i Q ss s1"
    "ns = None \<and> sk_type (ss_slot s1 (HASH_ID i)) = SOCKET_TYPE_INVALID \<or> ns = Some (HASH_ID i) \<and> sk_wb_size (ss_slot s1 (HASH_ID i)) = 0"
    using new_fd_ok[OF assms] by blast
  let ?s = "(ss_slot s1 (HASH_ID i))\<lparr>sk_type := SOCKET_TYPE_CONNECTED, sk_udp_address := replicate UDP_ADDRESS_SIZE 0\<rparr>"
  have "fresh_slot i Q ss (set_slot (HASH_ID i) ?s s1)"
    using s1(2) by (intro fresh_slot_set) (simp_all add: fresh_slot_def)
  then have "opens i Q ss (Some (set_slot (HASH_ID i) ?s s1, None))" if "sk_wb_size (ss_slot s1 (HASH_ID i)) = 0"
    using that by (intro opens_done) simp_all
  then show ?thesis using s1 unfolding add_udp_socket_def Let_def protocol_def[symmetric] by (auto intro!: opens_type)
qed

text \<open>Opening a connection only adds to the trace until the slot is set.\<close>

definition only_calls :: "socket_server \<Rightarrow> socket_server \<Rightarrow> bool" where
  "only_calls ss ss' \<longleftrightarrow> (\<exists>calls. ss' = ss\<lparr>ss_calls := calls\<rparr>)"

lemma only_calls_sys [simp]: "only_calls ss (snd (sys E c ss'))" if "only_calls ss ss'"
  using that by (auto simp: only_calls_def sys_def Let_def)

lemma connect_loop_calls: "only_calls ss0 ss \<Longrightarrow> only_calls ss0 (fst (connect_loop E ais err ss))"
proof (induction ais arbitrary: err ss)
  case (Cons ai ais)
  then show ?case by (cases ai) (auto simp: Let_def socket_keepalive_def)
qed simp

lemma slot_frame_calls [simp]: "slot_frame h Q ss (ss'\<lparr>ss_calls := calls\<rparr>) \<longleftrightarrow> slot_frame h Q ss ss'"
  by (simp add: slot_frame_def same_rest_def)

lemma fresh_slot_calls:
  assumes "fresh_slot i Q ss ss1" "only_calls ss1 ss2"
  shows "fresh_slot i Q ss ss2"
  using assms by (auto simp: fresh_slot_def only_calls_def)

lemma open_socket_opens:
  assumes "fresh_slot i Q ss ss" "reserved_for (ss_slot ss) i"
  shows "opens i Q ss (open_socket E i port opaque host ss)"
proof -
  let ?g = "Sys_getaddrinfo host port IPPROTO_TCP"
  define s1 where "s1 = snd (sys E ?g ss)"
  define g where "g = os_result E (ss_calls ss @ [?g])"
  obtain s2 c where c: "connect_loop E (sy_addrs g) (sy_errno g) s1 = (s2, c)" by (cases "connect_loop E (sy_addrs g) (sy_errno g) s1")
  have "only_calls s1 s1" unfolding only_calls_def by (rule exI[of _ "ss_calls s1"]) simp
  then have "only_calls s1 s2" using connect_loop_calls[of s1 s1 E "sy_addrs g" "sy_errno g"] c by simp
  moreover have f1: "fresh_slot i Q ss s1" "ss_slot s1 = ss_slot ss" using assms(1) by (simp_all add: s1_def)
  ultimately have f: "fresh_slot i Q ss s2" "ss_slot s2 = ss_slot ss" using fresh_slot_calls by (auto simp: only_calls_def)
  have eq: "open_socket E i port opaque host ss =
    (if sy_ret g \<noteq> 0 then Some (open_failed i opaque (os_gai_strerror E (sy_ret g)) s1)
     else case c of
          Inl err \<Rightarrow> Some (open_failed i opaque (os_strerror E err) s2)
        | Inr (sock, addr, connected) \<Rightarrow> do {
            (ss, ns) \<leftarrow> new_fd E i sock PROTOCOL_TCP opaque True s2;
            case ns of
              None \<Rightarrow> Some (open_failed i opaque ''reach skynet socket number limit'' (snd (sys E (Sys_close sock) ss)))
            | Some h \<Rightarrow>
                if connected
                then Some (set_type h SOCKET_TYPE_CONNECTED ss,
                  Some (SOCKET_OPEN, message_of i opaque 0 NULL (os_inet_ntop E addr)))
                else Some (snd (sys E (Sp_write sock h True) (set_type h SOCKET_TYPE_CONNECTING ss)), None)
          })"
    by (simp add: open_socket_def Let_def s1_def g_def c[unfolded s1_def g_def])
  have "opens i Q ss (case c of
          Inl err \<Rightarrow> Some (open_failed i opaque (os_strerror E err) s2)
        | Inr (sock, addr, connected) \<Rightarrow> do {
            (ss, ns) \<leftarrow> new_fd E i sock PROTOCOL_TCP opaque True s2;
            case ns of
              None \<Rightarrow> Some (open_failed i opaque ''reach skynet socket number limit'' (snd (sys E (Sys_close sock) ss)))
            | Some h \<Rightarrow>
                if connected
                then Some (set_type h SOCKET_TYPE_CONNECTED ss,
                  Some (SOCKET_OPEN, message_of i opaque 0 NULL (os_inet_ntop E addr)))
                else Some (snd (sys E (Sp_write sock h True) (set_type h SOCKET_TYPE_CONNECTING ss)), None)
          })"
  proof (cases c)
    case (Inl err)
    then show ?thesis using f(1) by (simp add: opens_failed)
  next
    case (Inr v)
    obtain sock addr connected where v: "v = (sock, addr, connected)" by (cases v)
    obtain s3 ns where "new_fd E i sock PROTOCOL_TCP opaque True s2 = Some (s3, ns)" "fresh_slot i Q ss s3"
      "ns = None \<and> sk_type (ss_slot s3 (HASH_ID i)) = SOCKET_TYPE_INVALID \<or> ns = Some (HASH_ID i) \<and> sk_wb_size (ss_slot s3 (HASH_ID i)) = 0"
      using new_fd_ok[OF f(1), where E = E and fd = sock] assms(2) f(2) by metis
    then show ?thesis using Inr v by (auto intro!: opens_failed opens_type)
  qed
  then show ?thesis unfolding eq using f1(1) by (simp add: opens_failed)
qed

section \<open>Operations on an open socket\<close>

definition steps :: "nat \<Rightarrow> ptr list \<Rightarrow> socket_server \<Rightarrow> (socket_server \<times> socket_report) option \<Rightarrow> bool" where
  "steps i Q ss res \<longleftrightarrow> (\<exists>ss' r. res = Some (ss', r) \<and> slot_step i Q ss ss' r \<and>
     (sk_type (ss_slot ss i) = SOCKET_TYPE_RESERVE \<longrightarrow> sk_type (ss_slot ss' i) = SOCKET_TYPE_RESERVE))"

definition open_type :: "socket_type \<Rightarrow> bool" where
  "open_type t \<longleftrightarrow> t \<noteq> SOCKET_TYPE_INVALID \<and> t \<noteq> SOCKET_TYPE_RESERVE"

definition slot_inv :: "nat \<Rightarrow> ptr list \<Rightarrow> socket_server \<Rightarrow> bool" where
  "slot_inv i Q ss \<longleftrightarrow> own (ss_slot ss) (ss_heap ss) Q \<and> socket_ok i (ss_slot ss i)"

lemma slot_inv_sys [simp]: "slot_inv i Q (snd (sys E c ss)) \<longleftrightarrow> slot_inv i Q ss"
  by (simp add: slot_inv_def)

lemma steps_sys [simp]:
  "steps i Q ss (Some (snd (sys E c ss'), r)) \<longleftrightarrow> steps i Q ss (Some (ss', r))"
  "steps i Q (snd (sys E c ss)) res \<longleftrightarrow> steps i Q ss res"
  by (simp_all add: steps_def)

lemma steps_same: "slot_inv i Q ss \<Longrightarrow> steps i Q ss (Some (ss, r))"
  by (simp add: steps_def slot_inv_def slot_frame_refl slot_step_same)

text \<open>Some fields of the slot change, none of the lists; the socket is not opened or closed.\<close>

lemma steps_set:
  assumes "slot_inv i Q ss" "sk_type s = sk_type (ss_slot ss i) \<or> open_type (sk_type (ss_slot ss i)) \<and> open_type (sk_type s)"
    "sk_high s = sk_high (ss_slot ss i)" "sk_low s = sk_low (ss_slot ss i)" "sk_id s = sk_id (ss_slot ss i)"
    "sk_wb_size s = sk_wb_size (ss_slot ss i)" "quiet (sk_type s) \<Longrightarrow> quiet (sk_type (ss_slot ss i)) \<or> sk_high s = [] \<and> sk_low s = []"
  shows "steps i Q ss (Some (set_slot i s ss, r))"
proof -
  have b: "bufs s = bufs (ss_slot ss i)" "pending_bytes s = pending_bytes (ss_slot ss i)" using assms(3,4) by (simp_all add: bufs_def pending_bytes_def)
  have "slot_frame i Q ss (set_slot i s ss)"
    using assms(1) b by (intro slot_frame_set) (auto simp: slot_inv_def slot_frame_refl own_def)
  moreover have "socket_ok i s" using assms b by (auto simp: slot_inv_def socket_ok_def open_type_def)
  ultimately show ?thesis using assms(2,5) by (auto simp: steps_def slot_step_def open_type_def)
qed

lemma force_close_steps:
  assumes "slot_inv i Q ss" "open_type (sk_type (ss_slot ss i))"
  shows "\<exists>ss' m. force_close E i ss = Some (ss', m) \<and> rs_id m = sk_id (ss_slot ss i) \<and>
    slot_frame i Q ss ss' \<and> ss_slot ss' i = closed (ss_slot ss i)"
  using force_close_frame[of ss Q i E] assms by (auto simp: slot_inv_def open_type_def message_of_def)

text \<open>The socket is closed, and this is reported.\<close>

lemma steps_close:
  assumes "slot_inv i Q ss" "open_type (sk_type (ss_slot ss i))" "t \<in> {SOCKET_CLOSE, SOCKET_ERROR}"
    "\<And>m. rs_id m = sk_id (ss_slot ss i) \<Longrightarrow> rs_id (f m) = sk_id (ss_slot ss i)"
  shows "steps i Q ss (do { (ss, m) \<leftarrow> force_close E i ss; Some (ss, Some (t, f m)) })"
proof -
  obtain ss' m where "force_close E i ss = Some (ss', m)" "rs_id m = sk_id (ss_slot ss i)" "slot_frame i Q ss ss'"
    "ss_slot ss' i = closed (ss_slot ss i)"
    using force_close_steps[OF assms(1,2)] by blast
  then show ?thesis using assms(2-4) unfolding steps_def open_type_def by (auto intro!: slot_step_closes simp: closes_def)
qed

lemma send_buffer_steps:
  assumes "slot_inv i Q ss" "open_type (sk_type (ss_slot ss i))" "writes_ok E" "interrupts_end E"
  shows "\<exists>ss' r. send_buffer E i ss = Some (ss', r) \<and> slot_step i Q ss ss' r \<and> (r = None \<longrightarrow> open_type (sk_type (ss_slot ss' i)))"
proof -
  obtain ss' r where r: "send_buffer E i ss = Some (ss', r)" "slot_frame i Q ss ss'"
    "if r = None then flushed E i ss ss' \<and> socket_ok i (ss_slot ss' i) else closes i ss ss' r"
    using send_buffer_ok[of ss Q E i] assms by (auto simp: slot_inv_def open_type_def)
  have "slot_step i Q ss ss' r \<and> (r = None \<longrightarrow> open_type (sk_type (ss_slot ss' i)))"
  proof (cases "r = None")
    case True
    then have f: "flushed E i ss ss'" "socket_ok i (ss_slot ss' i)" using r(3) by simp_all
    then have t: "sk_type (ss_slot ss' i) = sk_type (ss_slot ss i)" "sk_id (ss_slot ss' i) = sk_id (ss_slot ss i)" by (simp_all add: flushed_def Let_def)
    then show ?thesis using slot_step_open[OF r(2) f(2) t(2)] assms(2) by (simp add: open_type_def)
  next
    case False
    then have "closes i ss ss' r" using r(3) by simp
    then show ?thesis using slot_step_closes[OF r(2)] False by blast
  qed
  then show ?thesis using r(1) by blast
qed

lemma slot_step_frame: "slot_step i Q a b r \<Longrightarrow> slot_frame i Q a b"
  by (simp add: slot_step_def)

lemma slot_step_trans:
  assumes "slot_step i Q a b None" "slot_step i Q b c r" "open_type (sk_type (ss_slot a i))" "open_type (sk_type (ss_slot b i))"
  shows "slot_step i Q a c r"
proof -
  have f: "slot_frame i Q a c" by (rule slot_frame_trans[OF slot_step_frame[OF assms(1)] slot_step_frame[OF assms(2)]])
  have "sk_type (ss_slot c i) \<noteq> SOCKET_TYPE_RESERVE" using assms(2,4) unfolding slot_step_def open_type_def by metis
  moreover have "sk_id (ss_slot b i) = sk_id (ss_slot a i)" using assms(1) by (simp add: slot_step_def)
  ultimately show ?thesis using f assms(2-4) unfolding slot_step_def open_type_def by (metis insertE singletonD)
qed

lemma slot_step_inv: "slot_step i Q a b r \<Longrightarrow> slot_inv i Q b"
  by (simp add: slot_step_def slot_frame_def slot_inv_def)

lemma close_socket_steps:
  assumes "slot_inv (HASH_ID i) Q ss" "\<not> reserved_for (ss_slot ss) i" "writes_ok E" "interrupts_end E"
  shows "steps (HASH_ID i) Q ss (close_socket E i shutdown opaque ss)"
proof -
  let ?h = "HASH_ID i"
  let ?s = "ss_slot ss ?h"
  show ?thesis
  proof (cases "sk_type ?s = SOCKET_TYPE_INVALID \<or> sk_id ?s \<noteq> i")
    case True
    then show ?thesis using steps_same[OF assms(1)] by (auto simp: close_socket_def Let_def)
  next
    case False
    then have o: "open_type (sk_type ?s)" using assms(2) by (simp add: open_type_def reserved_for_def)
    define first where "first = (if \<not> send_buffer_empty ?s then send_buffer E ?h ss else Some (ss, None))"
    obtain s1 r where s1: "first = Some (s1, r)" "slot_step ?h Q ss s1 r" "r = None \<longrightarrow> open_type (sk_type (ss_slot s1 ?h))"
      using send_buffer_steps[OF assms(1) o assms(3,4)] slot_step_same[of ?h Q ss ss None] assms(1) o
      unfolding first_def slot_inv_def by (cases "send_buffer_empty ?s") (auto intro: slot_frame_refl)
    have eq: "close_socket E i shutdown opaque ss = (if r \<noteq> None then Some (s1, r)
        else if shutdown \<or> send_buffer_empty (ss_slot s1 ?h) then do {
          (ss, m) \<leftarrow> force_close E ?h s1;
          Some (ss, Some (SOCKET_CLOSE, m\<lparr>rs_id := i, rs_opaque := opaque\<rparr>))
        }
        else Some (set_type ?h SOCKET_TYPE_HALFCLOSE s1, None))"
      using False s1(1) unfolding close_socket_def first_def[symmetric] Let_def by simp
    show ?thesis
    proof (cases "r = None")
      case True
      then have o1: "open_type (sk_type (ss_slot s1 ?h))" "slot_step ?h Q ss s1 None" "sk_id (ss_slot s1 ?h) = i"
        using s1 False by (auto simp: slot_step_def)
      note i1 = slot_step_inv[OF o1(2)]
      have "steps ?h Q s1 (do { (ss, m) \<leftarrow> force_close E ?h s1; Some (ss, Some (SOCKET_CLOSE, m\<lparr>rs_id := i, rs_opaque := opaque\<rparr>)) })"
        by (rule steps_close[OF i1 o1(1)]) (simp_all add: o1(3))
      moreover have "steps ?h Q s1 (Some (set_type ?h SOCKET_TYPE_HALFCLOSE s1, None))"
        unfolding set_type_def using o1(1) by (intro steps_set[OF i1]) (simp_all add: open_type_def quiet_def)
      ultimately have "steps ?h Q s1 (close_socket E i shutdown opaque ss)" using eq True by simp
      then show ?thesis using slot_step_trans[OF o1(2) _ o o1(1)] o unfolding steps_def open_type_def by blast
    next
      case r: False
      then have "close_socket E i shutdown opaque ss = Some (s1, r)" using eq by metis
      then show ?thesis using s1(2) o by (simp add: steps_def open_type_def)
    qed
  qed
qed

lemma start_socket_steps:
  assumes "slot_inv (HASH_ID i) Q ss"
  shows "steps (HASH_ID i) Q ss (start_socket E i opaque ss)"
proof -
  let ?h = "HASH_ID i"
  let ?s = "ss_slot ss ?h"
  let ?c = "Sp_add (sk_fd ?s) (Some ?h)"
  let ?r = "os_result E (ss_calls ss @ [?c])"
  consider (invalid) "sk_type ?s = SOCKET_TYPE_INVALID \<or> sk_id ?s \<noteq> i"
    | (paused) "\<not> (sk_type ?s = SOCKET_TYPE_INVALID \<or> sk_id ?s \<noteq> i)" "sk_type ?s = SOCKET_TYPE_PACCEPT \<or> sk_type ?s = SOCKET_TYPE_PLISTEN"
    | (connected) "\<not> (sk_type ?s = SOCKET_TYPE_INVALID \<or> sk_id ?s \<noteq> i)" "sk_type ?s = SOCKET_TYPE_CONNECTED"
    | (other) "\<not> (sk_type ?s = SOCKET_TYPE_INVALID \<or> sk_id ?s \<noteq> i)"
      "\<not> (sk_type ?s = SOCKET_TYPE_PACCEPT \<or> sk_type ?s = SOCKET_TYPE_PLISTEN)" "sk_type ?s \<noteq> SOCKET_TYPE_CONNECTED" by blast
  then show ?thesis
  proof cases
    case invalid
    then show ?thesis using steps_same[OF assms] by (simp add: start_socket_def Let_def)
  next
    case paused
    have o: "open_type (sk_type ?s)" using paused(2) by (auto simp: open_type_def)
    have q: "sk_high ?s = []" "sk_low ?s = []" using paused(2) assms by (auto simp: slot_inv_def socket_ok_def quiet_def)
    have i1: "slot_inv ?h Q (snd (sys E ?c ss))" "open_type (sk_type (ss_slot (snd (sys E ?c ss)) ?h))" using assms o by simp_all
    define t where "t = (if sk_type ?s = SOCKET_TYPE_PACCEPT then SOCKET_TYPE_CONNECTED else SOCKET_TYPE_LISTEN)"
    have "steps ?h Q ss (do { (ss, m) \<leftarrow> force_close E ?h (snd (sys E ?c ss)); Some (ss, Some (SOCKET_ERROR, m\<lparr>rs_text := Some (os_strerror E (sy_errno ?r))\<rparr>)) })"
      using steps_close[OF i1, of SOCKET_ERROR "\<lambda>m. m\<lparr>rs_text := Some (os_strerror E (sy_errno ?r))\<rparr>"] by simp
    moreover have "steps ?h Q ss (Some (set_slot ?h (?s\<lparr>sk_type := t, sk_opaque := opaque\<rparr>) (snd (sys E ?c ss)),
        Some (SOCKET_OPEN, message_of i opaque 0 NULL (Some ''start''))))"
      using steps_set[OF i1(1), of "?s\<lparr>sk_type := t, sk_opaque := opaque\<rparr>"] q i1(2) by (simp add: t_def open_type_def)
    ultimately show ?thesis using paused unfolding start_socket_def Let_def t_def by simp
  next
    case connected
    then show ?thesis using steps_set[OF assms, of "?s\<lparr>sk_opaque := opaque\<rparr>"] by (simp add: start_socket_def Let_def open_type_def quiet_def)
  next
    case other
    then show ?thesis using steps_same[OF assms] by (simp add: start_socket_def Let_def)
  qed
qed

lemma setopt_socket_steps: "slot_inv (HASH_ID i) Q ss \<Longrightarrow> steps (HASH_ID i) Q ss (Some (setopt_socket E i what val ss, None))"
  by (simp add: setopt_socket_def Let_def steps_same)

lemma set_udp_address_steps:
  assumes "slot_inv (HASH_ID i) Q ss"
  shows "steps (HASH_ID i) Q ss (Some (set_udp_address i address ss))"
proof -
  let ?s = "ss_slot ss (HASH_ID i)"
  have "steps (HASH_ID i) Q ss (Some (set_slot (HASH_ID i) (?s\<lparr>sk_udp_address := a\<rparr>) ss, r))" for a r
    by (rule steps_set[OF assms]) simp_all
  then show ?thesis using steps_same[OF assms] by (simp add: set_udp_address_def Let_def)
qed

lemma report_connect_steps:
  assumes "slot_inv i Q ss" "sk_type (ss_slot ss i) = SOCKET_TYPE_CONNECTING"
  shows "steps i Q ss (report_connect E i ss)"
proof -
  let ?s = "ss_slot ss i"
  let ?c = "Sys_getsockopt (sk_fd ?s)"
  let ?r = "os_result E (ss_calls ss @ [?c])"
  let ?ss = "snd (sys E ?c ss)"
  have i1: "slot_inv i Q ?ss" "open_type (sk_type (ss_slot ?ss i))" using assms by (simp_all add: open_type_def)
  show ?thesis
  proof (cases "sy_ret ?r < 0 \<or> sy_data ?r \<noteq> []")
    case True
    then show ?thesis
      using steps_close[OF i1, of SOCKET_ERROR "\<lambda>m. m\<lparr>rs_text := Some (os_strerror E (sy_errno ?r))\<rparr>"]
      by (simp add: report_connect_def Let_def)
  next
    case False
    have "steps i Q ss (Some (set_type i SOCKET_TYPE_CONNECTED ?ss, r))" for r
      using steps_set[OF i1(1), of "?s\<lparr>sk_type := SOCKET_TYPE_CONNECTED\<rparr>"] i1(2) by (simp add: set_type_def open_type_def quiet_def)
    then show ?thesis using False by (simp add: report_connect_def Let_def)
  qed
qed

text \<open>Reading allocates a buffer for the message.\<close>

definition steps_grow :: "nat \<Rightarrow> ptr list \<Rightarrow> socket_server \<Rightarrow> (socket_server \<times> socket_report) option \<Rightarrow> bool" where
  "steps_grow i Q ss res \<longleftrightarrow> (\<exists>ss1 ss2 r. res = Some (ss2, r) \<and> slot_step i Q ss ss1 r \<and> (ss2 = ss1 \<or> (\<exists>bs. ss2 = snd (ss_malloc bs ss1))))"

lemma steps_growI: "steps i Q ss res \<Longrightarrow> steps_grow i Q ss res"
  by (auto simp: steps_def steps_grow_def)

lemma steps_malloc:
  assumes "steps i Q ss (Some (ss', r))"
  shows "steps_grow i Q ss (Some (snd (ss_malloc bs ss'), r))"
  using assms by (auto simp: steps_def steps_grow_def)

lemma set_slot_malloc: "set_slot i s (snd (ss_malloc bs ss)) = snd (ss_malloc bs (set_slot i s ss))"
  by (simp add: set_slot_def ss_malloc_def)

lemma forward_message_tcp_steps:
  assumes "slot_inv i Q ss" "open_type (sk_type (ss_slot ss i))"
  shows "steps_grow i Q ss (forward_message_tcp E i ss)"
proof -
  let ?s = "ss_slot ss i"
  let ?c = "Sys_read (sk_fd ?s) (sk_size ?s)"
  define r where "r = os_result E (ss_calls ss @ [?c])"
  let ?ss = "snd (sys E ?c ss)"
  have i1: "slot_inv i Q ?ss" "open_type (sk_type (ss_slot ?ss i))" using assms by simp_all
  define sz where "sz = (if sy_ret r = sk_size ?s then sk_size ?s * 2
    else if MIN_READ_BUFFER < sk_size ?s \<and> sy_ret r * 2 < sk_size ?s then sk_size ?s div 2 else sk_size ?s)"
  have same: "steps i Q ss (Some (?ss, None))" using steps_same[OF i1(1)] by simp
  have err: "steps i Q ss (do { (ss, m) \<leftarrow> force_close E i ?ss; Some (ss, Some (SOCKET_ERROR, m\<lparr>rs_text := Some (os_strerror E (sy_errno r))\<rparr>)) })"
    using steps_close[OF i1, of SOCKET_ERROR "\<lambda>m. m\<lparr>rs_text := Some (os_strerror E (sy_errno r))\<rparr>"] by simp
  have close: "steps i Q ss (do { (ss, m) \<leftarrow> force_close E i ?ss; Some (ss, Some (SOCKET_CLOSE, m)) })"
    using steps_close[OF i1, of SOCKET_CLOSE "\<lambda>m. m"] by simp
  have "steps i Q ss (Some (set_slot i (?s\<lparr>sk_size := sz\<rparr>) ?ss, m))" for m
    using steps_set[OF i1(1), of "?s\<lparr>sk_size := sz\<rparr>"] by simp
  from steps_malloc[OF this] have data: "steps_grow i Q ss (Some (set_slot i (?s\<lparr>sk_size := sz\<rparr>) (snd (ss_malloc (sy_data r) ?ss)),
      Some (SOCKET_DATA, message_of (sk_id ?s) (sk_opaque ?s) (sy_ret r) (fst (ss_malloc (sy_data r) ?ss)) None)))"
    by (simp add: set_slot_malloc)
  have "forward_message_tcp E i ss =
    (if sy_ret r < 0 then
       (if sy_errno r = EINTR \<or> sy_errno r = EAGAIN then Some (?ss, None)
        else do { (ss, m) \<leftarrow> force_close E i ?ss; Some (ss, Some (SOCKET_ERROR, m\<lparr>rs_text := Some (os_strerror E (sy_errno r))\<rparr>)) })
     else if sy_ret r = 0 then do { (ss, m) \<leftarrow> force_close E i ?ss; Some (ss, Some (SOCKET_CLOSE, m)) }
     else if sk_type ?s = SOCKET_TYPE_HALFCLOSE then Some (?ss, None)
     else Some (set_slot i (?s\<lparr>sk_size := sz\<rparr>) (snd (ss_malloc (sy_data r) ?ss)),
      Some (SOCKET_DATA, message_of (sk_id ?s) (sk_opaque ?s) (sy_ret r) (fst (ss_malloc (sy_data r) ?ss)) None)))"
    unfolding forward_message_tcp_def Let_def case_sys r_def[symmetric] sz_def by (simp add: case_prod_beta)
  then show ?thesis using steps_growI[OF same] steps_growI[OF err] steps_growI[OF close] data by (simp only: split: if_split) simp
qed

lemma forward_message_udp_steps:
  assumes "slot_inv i Q ss" "open_type (sk_type (ss_slot ss i))"
  shows "steps_grow i Q ss (forward_message_udp E i ss)"
proof -
  let ?s = "ss_slot ss i"
  let ?c = "Sys_recvfrom (sk_fd ?s) MAX_UDP_PACKAGE"
  define r where "r = os_result E (ss_calls ss @ [?c])"
  let ?ss = "snd (sys E ?c ss)"
  have i1: "slot_inv i Q ?ss" "open_type (sk_type (ss_slot ?ss i))" using assms by simp_all
  have same: "steps i Q ss (Some (?ss, m))" for m using steps_same[OF i1(1)] by simp
  have err: "steps i Q ss (do { (ss, m) \<leftarrow> force_close E i ?ss; Some (ss, Some (SOCKET_ERROR, m\<lparr>rs_text := Some (os_strerror E (sy_errno r))\<rparr>)) })"
    using steps_close[OF i1, of SOCKET_ERROR "\<lambda>m. m\<lparr>rs_text := Some (os_strerror E (sy_errno r))\<rparr>"] by simp
  show ?thesis unfolding forward_message_udp_def Let_def case_sys r_def[symmetric]
    using steps_growI[OF same] steps_growI[OF err] steps_malloc[OF same] by (simp add: case_prod_beta)
qed

text \<open>The address of a datagram, as the service gets it, is the one to answer to.\<close>

lemma udp_reply:
  assumes "forward_message_udp E i ss = Some (ss', Some (SOCKET_UDP, m))"
    "r = os_result E (ss_calls ss @ [Sys_recvfrom (sk_fd (ss_slot ss i)) MAX_UDP_PACKAGE])"
    "length (sy_data r) = nat (sy_ret r)" "18 \<le> length (sy_addr r)"
  shows "\<exists>address. skynet_socket_udp_address \<lparr>sm_type = SKYNET_SOCKET_TYPE_UDP, sm_id = rs_id m, sm_ud = rs_ud m, sm_buffer = rs_data m\<rparr> ss' =
      Some (Some address) \<and>
    udp_socket_address (ss_slot ss' i) address = Some (take (if sy_family r = AF_INET then 6 else 18) (sy_addr r))"
proof -
  define protocol where "protocol = (if sy_family r = AF_INET then PROTOCOL_UDP else PROTOCOL_UDPv6)"
  define data where "data = sy_data r @ gen_udp_address protocol (sy_addr r)"
  have f: "0 \<le> sy_ret r" "sk_protocol (ss_slot ss i) = protocol" "ss_slot ss' = ss_slot ss" "ss_heap ss' (rs_data m) = Some data" "rs_ud m = sy_ret r"
    using assms(1) unfolding forward_message_udp_def Let_def case_sys assms(2)[symmetric] protocol_def[symmetric]
    by (auto simp: ss_malloc_def message_of_def data_def bind_eq_Some_conv split: if_splits)
  have d: "drop (nat (sy_ret r)) data = gen_udp_address protocol (sy_addr r)" "nat (sy_ret r) < length data"
    using assms(3) by (simp_all add: data_def gen_udp_address_def)
  have p: "unat (of_nat protocol :: u8) = protocol" by (simp add: protocol_def PROTOCOL_UDP_def PROTOCOL_UDPv6_def)
  show ?thesis using f d p assms(4)
    by (auto simp: skynet_socket_udp_address_def socket_server_udp_address_def address_size_def udp_socket_address_def gen_udp_address_def
        protocol_def PROTOCOL_UDP_def PROTOCOL_UDPv6_def)
qed

end
