(* ===== verification/Socket_Inv.thy ===== *)
theory Socket_Inv
  imports Socket_Ops
begin

text \<open>
  The invariant of the socket server: its slots, the buffers, the requests in the pipe and the events that wait, and that
  every request keeps it.
\<close>

section \<open>The requests in the pipe\<close>

fun opener_id :: "request \<Rightarrow> int option" where
  "opener_id (Req_B i fd opaque) = Some i"
| "opener_id (Req_L i fd opaque) = Some i"
| "opener_id (Req_O i port opaque host) = Some i"
| "opener_id (Req_U i fd family opaque) = Some i"
| "opener_id _ = None"

fun user_id :: "request \<Rightarrow> int option" where
  "user_id (Req_K i shutdown opaque) = Some i"
| "user_id (Req_D q) = Some (rq_id q)"
| "user_id (Req_P q) = Some (rq_id q)"
| "user_id (Req_A q address) = Some (rq_id q)"
| "user_id _ = None"

fun send_of :: "request \<Rightarrow> request_send option" where
  "send_of (Req_D q) = Some q"
| "send_of (Req_P q) = Some q"
| "send_of (Req_A q address) = Some q"
| "send_of _ = None"

definition openers :: "request list \<Rightarrow> int list" where
  "openers pipe = List.map_filter opener_id pipe"

definition pipe_bufs :: "request list \<Rightarrow> ptr list" where
  "pipe_bufs pipe = map rq_buffer (List.map_filter send_of pipe)"

text \<open>No request for a number is before the request that opens it.\<close>

fun in_order :: "request list \<Rightarrow> bool" where
  "in_order [] = True"
| "in_order (r # rs) = ((case user_id r of None \<Rightarrow> True | Some i \<Rightarrow> i \<notin> set (openers rs)) \<and> in_order rs)"

lemma openers_simps [simp]:
  "openers [] = []" "openers (r # rs) = (case opener_id r of None \<Rightarrow> openers rs | Some i \<Rightarrow> i # openers rs)"
  "openers (rs @ rs') = openers rs @ openers rs'"
  by (simp_all add: openers_def map_filter_def split: option.splits)

lemma pipe_bufs_simps [simp]:
  "pipe_bufs [] = []" "pipe_bufs (r # rs) = (case send_of r of None \<Rightarrow> pipe_bufs rs | Some q \<Rightarrow> rq_buffer q # pipe_bufs rs)"
  "pipe_bufs (rs @ rs') = pipe_bufs rs @ pipe_bufs rs'"
  by (simp_all add: pipe_bufs_def map_filter_def split: option.splits)

lemma pipe_bufs_mem: "r \<in> set pipe \<Longrightarrow> send_of r = Some q \<Longrightarrow> rq_buffer q \<in> set (pipe_bufs pipe)"
  by (induction pipe) (auto split: option.splits)

lemma in_order_append:
  "in_order (rs @ [r]) \<longleftrightarrow> in_order rs \<and> (\<forall>r' \<in> set rs. \<forall>i. user_id r' = Some i \<longrightarrow> opener_id r \<noteq> Some i)"
  by (induction rs) (auto split: option.splits)

section \<open>The invariant\<close>

definition slots_inv :: "socket_server \<Rightarrow> bool" where
  "slots_inv ss \<longleftrightarrow> (\<forall>h. socket_ok h (ss_slot ss h) \<and>
     (sk_type (ss_slot ss h) \<noteq> SOCKET_TYPE_INVALID \<longrightarrow> sk_id (ss_slot ss h) \<le> sint (ss_alloc_id ss)))"

definition mem_inv :: "ptr list \<Rightarrow> socket_server \<Rightarrow> bool" where
  "mem_inv Q ss \<longleftrightarrow> own (ss_slot ss) (ss_heap ss) Q \<and> (\<forall>p. ss_heap ss p \<noteq> None \<longrightarrow> p < ss_brk ss) \<and> NULL < ss_brk ss"

text \<open>The reserved slots are those that a request in the pipe will open.\<close>

definition reserve_inv :: "request list \<Rightarrow> socket_server \<Rightarrow> bool" where
  "reserve_inv pipe ss \<longleftrightarrow> distinct (openers pipe) \<and> (\<forall>i \<in> set (openers pipe). reserved_for (ss_slot ss) i) \<and>
     (\<forall>h. sk_type (ss_slot ss h) = SOCKET_TYPE_RESERVE \<longrightarrow> sk_id (ss_slot ss h) \<in> set (openers pipe))"

definition sends_inv :: "request list \<Rightarrow> socket_server \<Rightarrow> bool" where
  "sends_inv pipe ss \<longleftrightarrow> (\<forall>r \<in> set pipe. \<forall>q. send_of r = Some q \<longrightarrow> sendable (ss_heap ss) (ss_soi_buffer ss) q \<and>
     (r = Req_P q \<longrightarrow> starts_at_buffer (ss_soi_buffer ss) q))"

definition users_inv :: "request list \<Rightarrow> socket_server \<Rightarrow> bool" where
  "users_inv pipe ss \<longleftrightarrow> in_order pipe \<and> (\<forall>r \<in> set pipe. \<forall>i. user_id r = Some i \<longrightarrow> i \<le> sint (ss_alloc_id ss))"

text \<open>The events that were not handled yet are those of different open sockets.\<close>

definition targets :: "sp_event list \<Rightarrow> nat list" where
  "targets es = List.map_filter ev_s es"

definition event_slots :: "socket_server \<Rightarrow> nat list" where
  "event_slots ss = targets (take (ss_event_n ss - ss_event_index ss) (drop (ss_event_index ss) (ss_ev ss)))"

definition events_inv :: "socket_server \<Rightarrow> bool" where
  "events_inv ss \<longleftrightarrow> ss_event_index ss \<le> ss_event_n ss \<and> ss_event_n ss \<le> length (ss_ev ss) \<and> distinct (event_slots ss) \<and>
     (\<forall>h \<in> set (event_slots ss). open_type (sk_type (ss_slot ss h)))"

definition socket_server_inv :: "socket_server \<Rightarrow> bool" where
  "socket_server_inv ss \<longleftrightarrow> slots_inv ss \<and> mem_inv (pipe_bufs (ss_pipe ss)) ss \<and> reserve_inv (ss_pipe ss) ss \<and>
     sends_inv (ss_pipe ss) ss \<and> users_inv (ss_pipe ss) ss \<and> events_inv ss"

section \<open>Steps of one slot keep it\<close>

lemma slot_step_other: "slot_step h Q ss ss' r \<Longrightarrow> g \<noteq> h \<Longrightarrow> ss_slot ss' g = ss_slot ss g"
  by (simp add: slot_step_def slot_frame_def)

lemma slot_step_rest: "slot_step h Q ss ss' r \<Longrightarrow> same_rest ss ss'"
  by (simp add: slot_step_def slot_frame_def)

lemma slot_step_heap: "slot_step h Q ss ss' r \<Longrightarrow> ss_heap ss' p \<noteq> None \<Longrightarrow> ss_heap ss' p = ss_heap ss p"
  by (auto simp: slot_step_def slot_frame_def)

lemma slots_step:
  assumes "slots_inv ss" "slot_step h Q ss ss' r"
  shows "slots_inv ss'"
  unfolding slots_inv_def
proof
  fix g
  have a: "ss_alloc_id ss' = ss_alloc_id ss" using slot_step_rest[OF assms(2)] by (simp add: same_rest_def)
  show "socket_ok g (ss_slot ss' g) \<and> (sk_type (ss_slot ss' g) \<noteq> SOCKET_TYPE_INVALID \<longrightarrow> sk_id (ss_slot ss' g) \<le> sint (ss_alloc_id ss'))"
  proof (cases "g = h")
    case True
    have "sk_type (ss_slot ss h) \<noteq> SOCKET_TYPE_INVALID" if "sk_type (ss_slot ss' h) \<noteq> SOCKET_TYPE_INVALID"
      using assms(2) that by (auto simp: slot_step_def)
    moreover have "socket_ok h (ss_slot ss' h)" "sk_id (ss_slot ss' h) = sk_id (ss_slot ss h)" using assms(2) by (simp_all add: slot_step_def)
    ultimately show ?thesis using assms(1) True a by (simp add: slots_inv_def)
  next
    case False
    then show ?thesis using assms(1) slot_step_other[OF assms(2) False] a by (simp add: slots_inv_def)
  qed
qed

lemma mem_step:
  assumes "mem_inv P ss" "slot_step h Q ss ss' r"
  shows "mem_inv Q ss'"
proof -
  have "own (ss_slot ss') (ss_heap ss') Q" "ss_brk ss' = ss_brk ss"
    using assms(2) by (simp_all add: slot_step_def slot_frame_def same_rest_def)
  moreover have "p < ss_brk ss" if "ss_heap ss' p \<noteq> None" for p
    using slot_step_heap[OF assms(2) that] that assms(1) by (simp add: mem_inv_def)
  ultimately show ?thesis using assms(1) by (simp add: mem_inv_def)
qed

lemma sends_step:
  assumes "sends_inv pipe ss" "slot_step h (pipe_bufs pipe) ss ss' r"
  shows "sends_inv pipe ss'"
  unfolding sends_inv_def
proof (intro ballI allI impI)
  fix x q assume x: "x \<in> set pipe" "send_of x = Some q"
  have "rq_buffer q \<in> dom (ss_heap ss')"
    using pipe_bufs_mem[OF x] assms(2) by (auto simp: slot_step_def slot_frame_def own_def)
  then have "ss_heap ss' (rq_buffer q) = ss_heap ss (rq_buffer q)" using slot_step_heap[OF assms(2)] by blast
  moreover have "ss_soi_buffer ss' = ss_soi_buffer ss" using slot_step_rest[OF assms(2)] by (simp add: same_rest_def)
  ultimately show "sendable (ss_heap ss') (ss_soi_buffer ss') q \<and> (x = Req_P q \<longrightarrow> starts_at_buffer (ss_soi_buffer ss') q)"
    using assms(1) x by (simp add: sends_inv_def sendable_def)
qed

lemma reserved_for_step:
  assumes "slot_step h Q ss ss' r" "reserved_for (ss_slot ss) i"
    "HASH_ID i = h \<Longrightarrow> sk_type (ss_slot ss' h) = SOCKET_TYPE_RESERVE"
  shows "reserved_for (ss_slot ss') i"
proof (cases "HASH_ID i = h")
  case True
  then show ?thesis using assms by (simp add: reserved_for_def slot_step_def)
next
  case False
  then show ?thesis using assms(2) slot_step_other[OF assms(1) False] by (simp add: reserved_for_def)
qed

lemma reserve_step:
  assumes "reserve_inv pipe ss" "slot_step h Q ss ss' r"
    "sk_type (ss_slot ss h) = SOCKET_TYPE_RESERVE \<longrightarrow> sk_type (ss_slot ss' h) = SOCKET_TYPE_RESERVE"
  shows "reserve_inv pipe ss'"
proof -
  have "reserved_for (ss_slot ss') i" if "i \<in> set (openers pipe)" for i
    using that assms reserved_for_step[OF assms(2), of i] by (auto simp: reserve_inv_def reserved_for_def)
  moreover have "sk_id (ss_slot ss' g) \<in> set (openers pipe)" if r: "sk_type (ss_slot ss' g) = SOCKET_TYPE_RESERVE" for g
  proof (cases "g = h")
    case True
    have "sk_type (ss_slot ss h) = SOCKET_TYPE_RESERVE" "sk_id (ss_slot ss' h) = sk_id (ss_slot ss h)"
      using assms(2) r True by (auto simp: slot_step_def)
    then show ?thesis using assms(1) True by (simp add: reserve_inv_def)
  next
    case False
    then show ?thesis using assms(1) slot_step_other[OF assms(2) False] r by (simp add: reserve_inv_def)
  qed
  ultimately show ?thesis using assms(1) by (simp add: reserve_inv_def)
qed

text \<open>The first request opens its slot.\<close>

lemma reserve_open:
  assumes "reserve_inv (r # rest) ss" "opener_id r = Some i" "slot_step (HASH_ID i) Q ss ss' rep" "slots_inv ss"
    "sk_type (ss_slot ss' (HASH_ID i)) \<noteq> SOCKET_TYPE_RESERVE"
  shows "reserve_inv rest ss'"
proof -
  have i: "reserved_for (ss_slot ss) i" "i \<notin> set (openers rest)" "distinct (openers rest)"
    using assms(1,2) by (simp_all add: reserve_inv_def)
  have "reserved_for (ss_slot ss') j" if j: "j \<in> set (openers rest)" for j
  proof (rule reserved_for_step[OF assms(3)])
    show rj: "reserved_for (ss_slot ss) j" using assms(1,2) j by (simp add: reserve_inv_def)
    show "sk_type (ss_slot ss' (HASH_ID i)) = SOCKET_TYPE_RESERVE" if "HASH_ID j = HASH_ID i"
      using rj i(1,2) j that by (auto simp: reserved_for_def)
  qed
  moreover have "sk_id (ss_slot ss' g) \<in> set (openers rest)" if g: "sk_type (ss_slot ss' g) = SOCKET_TYPE_RESERVE" for g
  proof -
    have n: "g \<noteq> HASH_ID i" using g assms(5) by blast
    then have s: "ss_slot ss' g = ss_slot ss g" by (rule slot_step_other[OF assms(3)])
    have "socket_ok g (ss_slot ss g)" using assms(4) by (simp add: slots_inv_def)
    then have "HASH_ID (sk_id (ss_slot ss g)) = g" using g s by (simp add: socket_ok_def)
    moreover have "sk_id (ss_slot ss g) \<in> set (openers (r # rest))" using assms(1) g s unfolding reserve_inv_def by simp
    ultimately show ?thesis using n s assms(2) by auto
  qed
  ultimately show ?thesis using i(3) by (simp add: reserve_inv_def)
qed

section \<open>Events\<close>

lemma targets_simps [simp]:
  "targets [] = []" "targets (e # es) = (case ev_s e of None \<Rightarrow> targets es | Some h \<Rightarrow> h # targets es)"
  by (simp_all add: targets_def map_filter_def split: option.splits)

lemma clear_event_length [simp]: "length (clear_event slot i es) = length es"
  by (induction es) (auto split: option.splits)

lemma clear_event_subset: "set (targets (clear_event slot i es)) \<subseteq> set (targets es)"
  by (induction es) (auto split: option.splits)

lemma clear_event_distinct: "distinct (targets es) \<Longrightarrow> distinct (targets (clear_event slot i es))"
proof (induction es)
  case (Cons e es)
  then show ?case using clear_event_subset[of slot i es] by (cases "ev_s e") auto
qed simp

text \<open>Only the closed socket \<open>h\<close> is not open among the slots of the events; its event is cleared.\<close>

lemma clear_event_open:
  assumes "distinct (targets es)" "\<forall>g \<in> set (targets es). g \<noteq> h \<longrightarrow> open_type (sk_type (slot g))"
    "open_type (sk_type (slot h)) \<or> sk_type (slot h) = SOCKET_TYPE_INVALID \<and> sk_id (slot h) = i"
  shows "\<forall>g \<in> set (targets (clear_event slot i es)). open_type (sk_type (slot g))"
  using assms(1,2)
proof (induction es)
  case Nil
  then show ?case by simp
next
  case (Cons e es)
  show ?case
  proof (cases "ev_s e")
    case None
    then show ?thesis using Cons by simp
  next
    case (Some g)
    then have d: "g \<notin> set (targets es)" "distinct (targets es)" using Cons.prems(1) by simp_all
    have o: "\<forall>g' \<in> set (targets es). g' \<noteq> h \<longrightarrow> open_type (sk_type (slot g'))" using Cons.prems(2) Some by simp
    show ?thesis
    proof (cases "sk_type (slot g) = SOCKET_TYPE_INVALID \<and> sk_id (slot g) = i")
      case True
      then have "g = h" using Cons.prems(2) Some by (auto simp: open_type_def)
      then show ?thesis using True Some o d(1) by auto
    next
      case False
      then have "open_type (sk_type (slot g))" using Cons.prems(2) Some assms(3) by auto
      then show ?thesis using False Some Cons.IH[OF d(2) o] by auto
    qed
  qed
qed

lemma clear_closed_event_fields [simp]:
  "ss_slot (clear_closed_event t m ss) = ss_slot ss" "ss_pipe (clear_closed_event t m ss) = ss_pipe ss"
  "ss_heap (clear_closed_event t m ss) = ss_heap ss" "ss_brk (clear_closed_event t m ss) = ss_brk ss"
  "ss_alloc_id (clear_closed_event t m ss) = ss_alloc_id ss" "ss_soi_buffer (clear_closed_event t m ss) = ss_soi_buffer ss"
  "ss_event_n (clear_closed_event t m ss) = ss_event_n ss" "ss_event_index (clear_closed_event t m ss) = ss_event_index ss"
  "ss_checkctrl (clear_closed_event t m ss) = ss_checkctrl ss" "ss_calls (clear_closed_event t m ss) = ss_calls ss"
  by (simp_all add: clear_closed_event_def Let_def)

lemma event_slots_clear:
  assumes "ss_event_index ss \<le> ss_event_n ss" "ss_event_n ss \<le> length (ss_ev ss)"
  shows "event_slots (clear_closed_event t m ss) = (if t = SOCKET_CLOSE \<or> t = SOCKET_ERROR
    then targets (clear_event (ss_slot ss) (rs_id m) (take (ss_event_n ss - ss_event_index ss) (drop (ss_event_index ss) (ss_ev ss))))
    else event_slots ss)"
    and "length (ss_ev (clear_closed_event t m ss)) = length (ss_ev ss)"
  using assms by (simp_all add: event_slots_def clear_closed_event_def Let_def)

lemma event_slots_same: "same_rest ss ss' \<Longrightarrow> event_slots ss' = event_slots ss"
  by (simp add: event_slots_def same_rest_def)

text \<open>An operation on a socket without events.\<close>

lemma events_step:
  assumes "events_inv ss" "slot_step h Q ss ss' r" "h \<notin> set (event_slots ss)"
  shows "events_inv ss'"
proof -
  have e: "event_slots ss' = event_slots ss" using event_slots_same slot_step_rest[OF assms(2)] by blast
  have "ss_slot ss' g = ss_slot ss g" if "g \<in> set (event_slots ss)" for g using slot_step_other[OF assms(2), of g] that assms(3) by metis
  then show ?thesis using assms(1) e slot_step_rest[OF assms(2)] by (simp add: events_inv_def same_rest_def)
qed

text \<open>A request that is handled while events wait.\<close>

definition report_done :: "socket_report \<Rightarrow> socket_server \<Rightarrow> socket_server" where
  "report_done r ss = (case r of None \<Rightarrow> ss | Some (t, m) \<Rightarrow> clear_closed_event t m ss)"

lemma events_command:
  assumes "events_inv ss" "slot_step h Q ss ss' r"
  shows "events_inv (report_done r ss')"
proof -
  let ?es = "take (ss_event_n ss' - ss_event_index ss') (drop (ss_event_index ss') (ss_ev ss'))"
  note rest = slot_step_rest[OF assms(2)]
  have e: "event_slots ss' = event_slots ss" "ss_event_index ss' \<le> ss_event_n ss'" "ss_event_n ss' \<le> length (ss_ev ss')"
    using event_slots_same[OF rest] rest assms(1) by (simp_all add: events_inv_def same_rest_def)
  have d: "distinct (event_slots ss')" using assms(1) e(1) by (simp add: events_inv_def)
  have o: "open_type (sk_type (ss_slot ss' g))" if "g \<in> set (event_slots ss')" "g \<noteq> h" for g
    using slot_step_other[OF assms(2) that(2)] that(1) e(1) assms(1) by (simp add: events_inv_def)
  show ?thesis
  proof (cases "h \<in> set (event_slots ss) \<and> sk_type (ss_slot ss' h) = SOCKET_TYPE_INVALID")
    case True
    then have "open_type (sk_type (ss_slot ss h))" using assms(1) by (simp add: events_inv_def)
    then obtain t m where r: "r = Some (t, m)" "t \<in> {SOCKET_CLOSE, SOCKET_ERROR}" "rs_id m = sk_id (ss_slot ss' h)"
      using assms(2) True by (auto simp: slot_step_def open_type_def)
    have "\<forall>g \<in> set (targets (clear_event (ss_slot ss') (rs_id m) ?es)). open_type (sk_type (ss_slot ss' g))"
      using d o r(3) True by (intro clear_event_open[where h = h]) (auto simp: event_slots_def)
    moreover have "distinct (targets (clear_event (ss_slot ss') (rs_id m) ?es))"
      using clear_event_distinct d by (simp add: event_slots_def)
    ultimately show ?thesis using r e(2,3) event_slots_clear[OF e(2,3), of t m] by (auto simp: report_done_def events_inv_def)
  next
    case False
    have h: "open_type (sk_type (ss_slot ss' h))" if "h \<in> set (event_slots ss')"
    proof -
      have "open_type (sk_type (ss_slot ss h))" using assms(1) that e(1) by (simp add: events_inv_def)
      then show ?thesis using assms(2) False that e(1) by (auto simp: slot_step_def open_type_def)
    qed
    then have all: "\<forall>g \<in> set (event_slots ss'). open_type (sk_type (ss_slot ss' g))" using o by blast
    show ?thesis
    proof (cases r)
      case None
      then show ?thesis using all d e by (simp add: report_done_def events_inv_def)
    next
      case (Some v)
      obtain t m where v: "v = (t, m)" by (cases v)
      have "set (targets (clear_event (ss_slot ss') (rs_id m) ?es)) \<subseteq> set (event_slots ss')"
        "distinct (targets (clear_event (ss_slot ss') (rs_id m) ?es))"
        using clear_event_subset clear_event_distinct d by (simp_all add: event_slots_def)
      then show ?thesis using Some v all d e(2,3) event_slots_clear[OF e(2,3), of t m]
        by (auto simp: report_done_def events_inv_def)
    qed
  qed
qed

section \<open>Requests\<close>

text \<open>What holds when the first request was taken from the pipe.\<close>

lemma taken_inv:
  assumes "socket_server_inv ss" "ss_pipe ss = r # rest"
  defines "ss1 \<equiv> ss\<lparr>ss_pipe := rest\<rparr>"
  shows "slots_inv ss1" "mem_inv (pipe_bufs (r # rest)) ss1" "reserve_inv (r # rest) ss1" "sends_inv (r # rest) ss1"
    "users_inv (r # rest) ss1" "events_inv ss1" "socket_ok h (ss_slot ss1 h)"
  using assms by (simp_all add: socket_server_inv_def slots_inv_def mem_inv_def reserve_inv_def sends_inv_def users_inv_def events_inv_def event_slots_def)

lemma command_inv:
  assumes "socket_server_inv ss" "ss_pipe ss = r # rest" "slot_step h (pipe_bufs rest) (ss\<lparr>ss_pipe := rest\<rparr>) ss' rep" "reserve_inv rest ss'"
  shows "socket_server_inv (report_done rep ss')"
proof -
  note t = taken_inv[OF assms(1,2)]
  have p: "ss_pipe ss' = rest" "ss_alloc_id ss' = ss_alloc_id ss" using slot_step_rest[OF assms(3)] by (simp_all add: same_rest_def)
  have "sends_inv rest (ss\<lparr>ss_pipe := rest\<rparr>)" "users_inv rest (ss\<lparr>ss_pipe := rest\<rparr>)" using t(4,5) by (simp_all add: sends_inv_def users_inv_def)
  then have "slots_inv ss'" "mem_inv (pipe_bufs rest) ss'" "sends_inv rest ss'" "users_inv rest ss'"
    using slots_step[OF t(1) assms(3)] mem_step[OF t(2) assms(3)] sends_step[OF _ assms(3)] p(2) by (simp_all add: users_inv_def)
  then show ?thesis using p(1) assms(4) events_command[OF t(6) assms(3)]
    by (cases rep) (auto simp: report_done_def socket_server_inv_def slots_inv_def mem_inv_def sends_inv_def users_inv_def reserve_inv_def)
qed

definition goes_on :: "(socket_server \<times> socket_report) option \<Rightarrow> bool" where
  "goes_on res \<longleftrightarrow> (\<exists>ss' rep. res = Some (ss', rep) \<and> socket_server_inv (report_done rep ss'))"

lemma command_steps:
  assumes "socket_server_inv ss" "ss_pipe ss = r # rest" "opener_id r = None" "steps h (pipe_bufs rest) (ss\<lparr>ss_pipe := rest\<rparr>) res"
  shows "goes_on res"
proof -
  obtain ss' rep where s: "res = Some (ss', rep)" "slot_step h (pipe_bufs rest) (ss\<lparr>ss_pipe := rest\<rparr>) ss' rep"
    "sk_type (ss_slot (ss\<lparr>ss_pipe := rest\<rparr>) h) = SOCKET_TYPE_RESERVE \<longrightarrow> sk_type (ss_slot ss' h) = SOCKET_TYPE_RESERVE"
    using assms(4) unfolding steps_def by blast
  have "reserve_inv rest (ss\<lparr>ss_pipe := rest\<rparr>)" using taken_inv(3)[OF assms(1,2)] assms(3) by (simp add: reserve_inv_def)
  then show ?thesis using command_inv[OF assms(1,2) s(2) reserve_step[OF _ s(2,3)]] s(1) by (simp add: goes_on_def)
qed

lemma opener_send: "opener_id r = Some i \<Longrightarrow> send_of r = None"
  by (cases r) simp_all

lemma command_fresh:
  assumes "socket_server_inv ss" "ss_pipe ss = r # rest" "opener_id r = Some i"
  shows "fresh_slot i (pipe_bufs rest) (ss\<lparr>ss_pipe := rest\<rparr>) (ss\<lparr>ss_pipe := rest\<rparr>)" "reserved_for (ss_slot (ss\<lparr>ss_pipe := rest\<rparr>)) i"
proof -
  note t = taken_inv[OF assms(1,2)]
  show r: "reserved_for (ss_slot (ss\<lparr>ss_pipe := rest\<rparr>)) i" using t(3) assms(3) by (simp add: reserve_inv_def)
  have "own (ss_slot (ss\<lparr>ss_pipe := rest\<rparr>)) (ss_heap (ss\<lparr>ss_pipe := rest\<rparr>)) (pipe_bufs rest)"
    using t(2) opener_send[OF assms(3)] by (simp add: mem_inv_def)
  then show "fresh_slot i (pipe_bufs rest) (ss\<lparr>ss_pipe := rest\<rparr>) (ss\<lparr>ss_pipe := rest\<rparr>)" using r t(7) by (rule fresh_slot_start)
qed

lemma command_opens:
  assumes "socket_server_inv ss" "ss_pipe ss = r # rest" "opener_id r = Some i" "opens i (pipe_bufs rest) (ss\<lparr>ss_pipe := rest\<rparr>) res"
  shows "goes_on res"
proof -
  note t = taken_inv[OF assms(1,2)]
  obtain ss' rep where s: "res = Some (ss', rep)" "slot_step (HASH_ID i) (pipe_bufs rest) (ss\<lparr>ss_pipe := rest\<rparr>) ss' rep"
    "sk_type (ss_slot ss' (HASH_ID i)) \<noteq> SOCKET_TYPE_RESERVE"
    using assms(4) unfolding opens_def by blast
  show ?thesis using command_inv[OF assms(1,2) s(2) reserve_open[OF t(3) assms(3) s(2) t(1) s(3)]] s(1) by (simp add: goes_on_def)
qed

lemma user_not_reserved:
  assumes "socket_server_inv ss" "ss_pipe ss = r # rest" "user_id r = Some i"
  shows "\<not> reserved_for (ss_slot (ss\<lparr>ss_pipe := rest\<rparr>)) i"
proof
  note t = taken_inv[OF assms(1,2)]
  assume "reserved_for (ss_slot (ss\<lparr>ss_pipe := rest\<rparr>)) i"
  then have "i \<in> set (openers (r # rest))" using t(3) unfolding reserve_inv_def reserved_for_def by metis
  moreover have "opener_id r = None" using assms(3) by (cases r) simp_all
  ultimately show False using t(5) assms(3) by (simp add: users_inv_def)
qed

lemma send_command:
  assumes "socket_server_inv ss" "ss_pipe ss = r # rest" "send_of r = Some q" "pr = PRIORITY_LOW \<Longrightarrow> r = Req_P q" "writes_ok E"
  shows "goes_on (send_socket E q pr address (ss\<lparr>ss_pipe := rest\<rparr>))"
proof -
  let ?s1 = "ss\<lparr>ss_pipe := rest\<rparr>"
  note t = taken_inv[OF assms(1,2)]
  have o: "own (ss_slot ?s1) (ss_heap ?s1) (rq_buffer q # pipe_bufs rest)" using t(2) assms(3) by (simp add: mem_inv_def)
  have q: "sendable (ss_heap ?s1) (ss_soi_buffer ?s1) q" "pr = PRIORITY_LOW \<Longrightarrow> starts_at_buffer (ss_soi_buffer ?s1) q"
    using t(4) assms(3,4) by (auto simp: sends_inv_def)
  have u: "user_id r = Some (rq_id q)" "opener_id r = None" using assms(3) by (cases r; simp)+
  have "sk_id (ss_slot ?s1 (HASH_ID (rq_id q))) \<noteq> rq_id q" if "sk_type (ss_slot ?s1 (HASH_ID (rq_id q))) = SOCKET_TYPE_RESERVE"
    using user_not_reserved[OF assms(1,2) u(1)] that by (simp add: reserved_for_def)
  then have "steps (HASH_ID (rq_id q)) (pipe_bufs rest) ?s1 (send_socket E q pr address ?s1)"
    using send_socket_ok[OF o t(7) refl _ q assms(5), where udp_address = address] unfolding steps_def by blast
  then show ?thesis by (rule command_steps[OF assms(1,2) u(2)])
qed

lemma ctrl_cmd_inv:
  assumes "socket_server_inv ss" "ss_pipe ss \<noteq> []" "writes_ok E" "interrupts_end E"
  shows "goes_on (ctrl_cmd E ss)"
proof -
  obtain r rest where p: "ss_pipe ss = r # rest" using assms(2) by (cases "ss_pipe ss") auto
  let ?s1 = "ss\<lparr>ss_pipe := rest\<rparr>"
  note t = taken_inv[OF assms(1) p] and c = command_steps[OF assms(1) p] and o = command_opens[OF assms(1) p]
    and f = command_fresh[OF assms(1) p] and s = send_command[OF assms(1) p]
  have i: "slot_inv h (pipe_bufs rest) ?s1" if "send_of r = None" for h
    using t(2,7) that by (simp add: slot_inv_def mem_inv_def)
  show ?thesis
  proof (cases r)
    case (Req_S i opaque)
    then have "goes_on (start_socket E i opaque ?s1)" using i by (intro c[OF _ start_socket_steps]) simp_all
    then show ?thesis using p Req_S by (simp add: ctrl_cmd_def)
  next
    case (Req_B i fd opaque)
    then have "goes_on (bind_socket E i fd opaque ?s1)" using f by (intro o[OF _ bind_socket_opens]) simp_all
    then show ?thesis using p Req_B by (simp add: ctrl_cmd_def)
  next
    case (Req_L i fd opaque)
    then have "goes_on (listen_socket E i fd opaque ?s1)" using f by (intro o[OF _ listen_socket_opens]) simp_all
    then show ?thesis using p Req_L by (simp add: ctrl_cmd_def)
  next
    case (Req_K i shutdown opaque)
    then have "goes_on (close_socket E i shutdown opaque ?s1)"
      using i user_not_reserved[OF assms(1) p, of i] assms(3,4) by (intro c[OF _ close_socket_steps]) simp_all
    then show ?thesis using p Req_K by (simp add: ctrl_cmd_def)
  next
    case (Req_O i port opaque host)
    then have "goes_on (open_socket E i port opaque host ?s1)" using f by (intro o[OF _ open_socket_opens]) simp_all
    then show ?thesis using p Req_O by (simp add: ctrl_cmd_def)
  next
    case Req_X
    then have "goes_on (Some (?s1, Some (SOCKET_EXIT, message_of 0 0 0 NULL None)))" using i[of 0] by (intro c[OF _ steps_same]) simp_all
    then show ?thesis using p Req_X by (simp add: ctrl_cmd_def)
  next
    case (Req_D q)
    then have "goes_on (send_socket E q PRIORITY_HIGH None ?s1)" using assms(3) by (intro s) simp_all
    then show ?thesis using p Req_D by (simp add: ctrl_cmd_def)
  next
    case (Req_P q)
    then have "goes_on (send_socket E q PRIORITY_LOW None ?s1)" using assms(3) by (intro s) simp_all
    then show ?thesis using p Req_P by (simp add: ctrl_cmd_def)
  next
    case (Req_A q address)
    then have "goes_on (send_socket E q PRIORITY_HIGH (Some address) ?s1)" using assms(3) by (intro s) simp_all
    then show ?thesis using p Req_A by (simp add: ctrl_cmd_def)
  next
    case (Req_T i what val)
    then have "goes_on (Some (setopt_socket E i what val ?s1, None))" using i by (intro c[OF _ setopt_socket_steps]) simp_all
    then show ?thesis using p Req_T by (simp add: ctrl_cmd_def)
  next
    case (Req_U i fd family opaque)
    then have "goes_on (do { ss \<leftarrow> add_udp_socket E i fd family opaque ?s1; Some (ss, None) })" using f by (intro o[OF _ add_udp_socket_opens]) simp_all
    then show ?thesis using p Req_U by (simp add: ctrl_cmd_def)
  next
    case (Req_C i address)
    then have "goes_on (Some (set_udp_address i address ?s1))" using i by (intro c[OF _ set_udp_address_steps]) simp_all
    then show ?thesis using p Req_C by (simp add: ctrl_cmd_def)
  next
    case (Req_unknown x)
    then have "goes_on (Some (?s1, None))" using i[of 0] by (intro c[OF _ steps_same]) simp_all
    then show ?thesis using p Req_unknown by (simp add: ctrl_cmd_def)
  qed
qed

end
