(* ===== verification/Socket_Safe.thy ===== *)
theory Socket_Safe
  imports Socket_Inv Transition_Spec
begin

text \<open>
  The events of the sockets, the functions for other threads and the loop of the socket thread keep the invariant, so
  that the server never aborts.
\<close>

section \<open>Events of sockets\<close>

lemma socket_server_inv_sys [simp]: "socket_server_inv (snd (sys E c ss)) \<longleftrightarrow> socket_server_inv ss"
  by (simp add: socket_server_inv_def slots_inv_def mem_inv_def reserve_inv_def sends_inv_def users_inv_def events_inv_def event_slots_def)

lemma socket_server_inv_calls [simp]: "socket_server_inv (ss\<lparr>ss_calls := calls\<rparr>) \<longleftrightarrow> socket_server_inv ss"
  by (simp add: socket_server_inv_def slots_inv_def mem_inv_def reserve_inv_def sends_inv_def users_inv_def events_inv_def event_slots_def)

lemma server_slot_inv: "socket_server_inv ss \<Longrightarrow> slot_inv h (pipe_bufs (ss_pipe ss)) ss"
  by (simp add: socket_server_inv_def slots_inv_def mem_inv_def slot_inv_def)

text \<open>An operation on an open socket whose event was taken.\<close>

lemma event_op_inv:
  assumes "socket_server_inv ss" "h \<notin> set (event_slots ss)" "open_type (sk_type (ss_slot ss h))" "slot_step h (pipe_bufs (ss_pipe ss)) ss ss' r"
  shows "socket_server_inv ss'"
proof -
  have p: "ss_pipe ss' = ss_pipe ss" "ss_alloc_id ss' = ss_alloc_id ss" using slot_step_rest[OF assms(4)] by (simp_all add: same_rest_def)
  have i: "slots_inv ss" "mem_inv (pipe_bufs (ss_pipe ss)) ss" "reserve_inv (ss_pipe ss) ss" "sends_inv (ss_pipe ss) ss"
    "users_inv (ss_pipe ss) ss" "events_inv ss" using assms(1) by (simp_all add: socket_server_inv_def)
  have "reserve_inv (ss_pipe ss) ss'" using assms(3) by (intro reserve_step[OF i(3) assms(4)]) (simp add: open_type_def)
  then show ?thesis
    using slots_step[OF i(1) assms(4)] mem_step[OF i(2) assms(4)] sends_step[OF i(4) assms(4)] events_step[OF i(6) assms(4,2)] i(5) p
    by (simp add: socket_server_inv_def users_inv_def)
qed

lemma malloc_fields [simp]:
  "ss_slot (snd (ss_malloc bs ss)) = ss_slot ss" "ss_pipe (snd (ss_malloc bs ss)) = ss_pipe ss" "ss_ev (snd (ss_malloc bs ss)) = ss_ev ss"
  "ss_event_n (snd (ss_malloc bs ss)) = ss_event_n ss" "ss_event_index (snd (ss_malloc bs ss)) = ss_event_index ss"
  "ss_alloc_id (snd (ss_malloc bs ss)) = ss_alloc_id ss" "ss_soi_buffer (snd (ss_malloc bs ss)) = ss_soi_buffer ss"
  "ss_heap (snd (ss_malloc bs ss)) = (ss_heap ss)(ss_brk ss \<mapsto> bs)" "ss_brk (snd (ss_malloc bs ss)) = ss_brk ss + 1"
  "ss_calls (snd (ss_malloc bs ss)) = ss_calls ss" "fst (ss_malloc bs ss) = ss_brk ss"
  by (simp_all add: ss_malloc_def)

lemma sendable_malloc: "sendable heap soi q \<Longrightarrow> heap p = None \<Longrightarrow> sendable (heap(p \<mapsto> bs)) soi q"
  by (auto simp: sendable_def split: option.splits)

lemma malloc_mem:
  assumes "mem_inv Q ss"
  shows "mem_inv (ss_brk ss # Q) (snd (ss_malloc bs ss))"
proof -
  have "p < Suc (ss_brk ss)" if "((ss_heap ss)(ss_brk ss \<mapsto> bs)) p \<noteq> None" for p
    using that assms by (cases "p = ss_brk ss") (auto simp: mem_inv_def intro: less_SucI)
  then show ?thesis using assms own_malloc[of "ss_slot ss" "ss_heap ss" Q "ss_brk ss" bs] by (simp add: mem_inv_def)
qed

lemma own_tail: "own slot heap (p # Q) \<Longrightarrow> own slot heap Q"
  by (auto simp: own_def)

lemma malloc_inv:
  assumes "socket_server_inv ss"
  shows "socket_server_inv (snd (ss_malloc bs ss))"
proof -
  have i: "mem_inv (pipe_bufs (ss_pipe ss)) ss" "sends_inv (ss_pipe ss) ss" using assms by (simp_all add: socket_server_inv_def)
  have "ss_heap ss (ss_brk ss) = None" using i(1) unfolding mem_inv_def by (metis less_irrefl)
  then have "sends_inv (ss_pipe ss) (snd (ss_malloc bs ss))" using i(2) by (auto simp: sends_inv_def intro!: sendable_malloc)
  moreover have "mem_inv (pipe_bufs (ss_pipe ss)) (snd (ss_malloc bs ss))" using malloc_mem[OF i(1), of bs] own_tail by (auto simp: mem_inv_def)
  ultimately show ?thesis using assms
    by (simp add: socket_server_inv_def slots_inv_def reserve_inv_def users_inv_def events_inv_def event_slots_def)
qed

lemma event_grow_inv:
  assumes "socket_server_inv ss" "h \<notin> set (event_slots ss)" "open_type (sk_type (ss_slot ss h))" "steps_grow h (pipe_bufs (ss_pipe ss)) ss res"
  shows "\<exists>ss' r. res = Some (ss', r) \<and> socket_server_inv ss' \<and> event_slots ss' = event_slots ss \<and> ss_event_index ss' = ss_event_index ss \<and>
    ss_event_n ss' = ss_event_n ss \<and> ss_ev ss' = ss_ev ss \<and>
    (\<not> reports SOCKET_CLOSE r \<and> \<not> reports SOCKET_ERROR r \<longrightarrow> open_type (sk_type (ss_slot ss' h)))"
proof -
  obtain s1 s2 r where s: "res = Some (s2, r)" "slot_step h (pipe_bufs (ss_pipe ss)) ss s1 r" "s2 = s1 \<or> (\<exists>bs. s2 = snd (ss_malloc bs s1))"
    using assms(4) unfolding steps_grow_def by blast
  have i1: "socket_server_inv s1" using event_op_inv[OF assms(1-3) s(2)] .
  have e: "event_slots s1 = event_slots ss" "ss_event_index s1 = ss_event_index ss" "ss_event_n s1 = ss_event_n ss" "ss_ev s1 = ss_ev ss"
    using slot_step_rest[OF s(2)] by (simp_all add: event_slots_def same_rest_def)
  have o: "open_type (sk_type (ss_slot s1 h))" if "\<not> reports SOCKET_CLOSE r" "\<not> reports SOCKET_ERROR r"
    using s(2) assms(3) that by (auto simp: slot_step_def open_type_def reports_def)
  show ?thesis using s(1,3) i1 e o malloc_inv[OF i1] by (auto simp: event_slots_def)
qed

text \<open>The event is put back.\<close>

lemma targets_split:
  assumes "k < n" "n \<le> length es"
  shows "targets (take (n - k) (drop k es)) = (case ev_s (es ! k) of None \<Rightarrow> [] | Some h \<Rightarrow> [h]) @ targets (take (n - Suc k) (drop (Suc k) es))"
proof -
  have "take (n - k) (drop k es) = es ! k # take (n - Suc k) (drop (Suc k) es)"
    using assms by (simp add: Cons_nth_drop_Suc[symmetric] take_Cons' Suc_diff_Suc)
  then show ?thesis by (simp split: option.splits)
qed

lemma put_back_inv:
  assumes "socket_server_inv ss" "ss_event_index ss = Suc k" "ev_s e = Some h" "h \<notin> set (event_slots ss)" "open_type (sk_type (ss_slot ss h))"
  shows "socket_server_inv (ss\<lparr>ss_ev := (ss_ev ss)[k := e], ss_event_index := k\<rparr>)"
proof -
  have n: "k < ss_event_n ss" "ss_event_n ss \<le> length (ss_ev ss)" using assms(1,2) by (simp_all add: socket_server_inv_def events_inv_def)
  have "event_slots (ss\<lparr>ss_ev := (ss_ev ss)[k := e], ss_event_index := k\<rparr>) = h # event_slots ss"
    using targets_split[of k "ss_event_n ss" "(ss_ev ss)[k := e]"] n assms(2,3) by (simp add: event_slots_def)
  then show ?thesis using assms n
    by (auto simp: socket_server_inv_def slots_inv_def mem_inv_def reserve_inv_def sends_inv_def users_inv_def events_inv_def)
qed

lemma poll_transfer_inv:
  assumes "socket_server_inv ss" "ss_event_index ss = Suc k" "ev_s e = Some i" "ss_ev ss ! k = e" "i \<notin> set (event_slots ss)"
    "open_type (sk_type (ss_slot ss i))" "writes_ok E" "interrupts_end E"
  shows "\<exists>ss' r. poll_transfer E k e i ss = Some (ss', r) \<and> socket_server_inv ss'"
proof -
  note si = server_slot_inv[OF assms(1), of i]
  define again :: "socket_server \<Rightarrow> socket_report \<Rightarrow> socket_server" where "again = (\<lambda>ss r. if ev_write e \<and> \<not> reports SOCKET_CLOSE r \<and> \<not> reports SOCKET_ERROR r
    then ss\<lparr>ss_ev := (ss_ev ss)[k := e\<lparr>ev_read := False\<rparr>], ss_event_index := k\<rparr> else ss)"
  have again: "socket_server_inv (again s r)" if "socket_server_inv s" "event_slots s = event_slots ss" "ss_event_index s = ss_event_index ss"
    "\<not> reports SOCKET_CLOSE r \<and> \<not> reports SOCKET_ERROR r \<longrightarrow> open_type (sk_type (ss_slot s i))" for s r
    using that assms(2,3,5) put_back_inv[of s k "e\<lparr>ev_read := False\<rparr>" i] by (simp add: again_def)
  consider (tcp) "ev_read e" "sk_protocol (ss_slot ss i) = PROTOCOL_TCP" | (udp) "ev_read e" "sk_protocol (ss_slot ss i) \<noteq> PROTOCOL_TCP"
    | (writing) "\<not> ev_read e" "ev_write e" | (none) "\<not> ev_read e" "\<not> ev_write e" by blast
  then show ?thesis
  proof cases
    case tcp
    obtain s1 r where s1: "forward_message_tcp E i ss = Some (s1, r)" "socket_server_inv s1" "event_slots s1 = event_slots ss"
      "ss_event_index s1 = ss_event_index ss" "\<not> reports SOCKET_CLOSE r \<and> \<not> reports SOCKET_ERROR r \<longrightarrow> open_type (sk_type (ss_slot s1 i))"
      using event_grow_inv[OF assms(1,5,6) forward_message_tcp_steps[OF si assms(6)], of E] by blast
    have "poll_transfer E k e i ss = Some (again s1 r, r)" using tcp s1(1) by (simp add: poll_transfer_def again_def)
    then show ?thesis using again[OF s1(2-5)] by simp
  next
    case udp
    obtain s1 r where s1: "forward_message_udp E i ss = Some (s1, r)" "socket_server_inv s1" "event_slots s1 = event_slots ss"
      "ss_event_index s1 = ss_event_index ss" "ss_event_n s1 = ss_event_n ss" "ss_ev s1 = ss_ev ss"
      "\<not> reports SOCKET_CLOSE r \<and> \<not> reports SOCKET_ERROR r \<longrightarrow> open_type (sk_type (ss_slot s1 i))"
      using event_grow_inv[OF assms(1,5,6) forward_message_udp_steps[OF si assms(6)], of E] by blast
    show ?thesis
    proof (cases "reports SOCKET_UDP r")
      case True
      then have "open_type (sk_type (ss_slot s1 i))" using s1(7) by (auto simp: reports_def split: option.splits)
      moreover have "(ss_ev s1)[k := e] = ss_ev s1" using assms(4) s1(6) by auto
      ultimately have "socket_server_inv (s1\<lparr>ss_event_index := k\<rparr>)" using put_back_inv[OF s1(2), of k e i] assms(2,3,5) s1(3,4) by simp
      then show ?thesis using udp s1(1) True by (simp add: poll_transfer_def)
    next
      case False
      have "poll_transfer E k e i ss = Some (again s1 r, r)" using udp s1(1) False by (simp add: poll_transfer_def again_def)
      then show ?thesis using again[OF s1(2-4,7)] by simp
    qed
  next
    case writing
    obtain s1 r where "send_buffer E i ss = Some (s1, r)" "slot_step i (pipe_bufs (ss_pipe ss)) ss s1 r"
      using send_buffer_steps[OF si assms(6-8)] by blast
    then show ?thesis using writing event_op_inv[OF assms(1,5,6)] by (simp add: poll_transfer_def)
  next
    case none
    then show ?thesis using assms(1) by (simp add: poll_transfer_def)
  qed
qed

section \<open>New numbers\<close>

text \<open>The counter does not wrap in the next call of \<open>reserve_id\<close>.\<close>

definition ids_left :: "socket_server \<Rightarrow> bool" where
  "ids_left ss \<longleftrightarrow> unat (ss_alloc_id ss) + MAX_SOCKET < 2 ^ 31"

lemma ids_left_sys [simp]: "ids_left (snd (sys E c ss)) \<longleftrightarrow> ids_left ss"
  by (simp add: ids_left_def)

lemma ids_left_sint: "unat a < 2 ^ 31 \<Longrightarrow> sint (a :: u32) = int (unat a)"
  by (simp add: sint_u32)

text \<open>The counter goes on, and nothing else changes.\<close>

lemma alloc_inv:
  assumes "socket_server_inv ss" "sint (ss_alloc_id ss) \<le> sint a"
  shows "socket_server_inv (ss\<lparr>ss_alloc_id := a\<rparr>)"
proof -
  have "slots_inv (ss\<lparr>ss_alloc_id := a\<rparr>)" using assms unfolding socket_server_inv_def slots_inv_def by (auto intro: order_trans)
  moreover have "users_inv (ss_pipe ss) (ss\<lparr>ss_alloc_id := a\<rparr>)" using assms unfolding socket_server_inv_def users_inv_def by (auto intro: order_trans)
  ultimately show ?thesis using assms(1)
    by (simp add: socket_server_inv_def mem_inv_def reserve_inv_def sends_inv_def events_inv_def event_slots_def)
qed

text \<open>A free slot gets a new number: it is reserved by a request, or a connection is accepted there.\<close>

lemma new_slot_inv:
  assumes "socket_server_inv ss" "sk_type (ss_slot ss (HASH_ID i)) = SOCKET_TYPE_INVALID" "sint (ss_alloc_id ss) < i" "sint a = i"
    "sk_high s = []" "sk_low s = []" "sk_id s = i" "sk_type s \<noteq> SOCKET_TYPE_INVALID"
    "if sk_type s = SOCKET_TYPE_RESERVE then opener_id r = Some i \<and> rs = [r] else rs = [] \<and> sk_wb_size s = 0"
  shows "socket_server_inv (set_slot (HASH_ID i) s (ss\<lparr>ss_alloc_id := a, ss_pipe := ss_pipe ss @ rs\<rparr>))"
proof -
  let ?h = "HASH_ID i"
  let ?ss = "set_slot ?h s (ss\<lparr>ss_alloc_id := a, ss_pipe := ss_pipe ss @ rs\<rparr>)"
  have inv: "slots_inv ss" "mem_inv (pipe_bufs (ss_pipe ss)) ss" "reserve_inv (ss_pipe ss) ss" "sends_inv (ss_pipe ss) ss"
    "users_inv (ss_pipe ss) ss" "events_inv ss" using assms(1) by (simp_all add: socket_server_inv_def)
  have rs: "\<forall>x \<in> set rs. send_of x = None \<and> user_id x = None" "pipe_bufs rs = []"
    using assms(9) opener_send[of r i] by (cases r; auto split: if_splits)+
  have ne: "HASH_ID j \<noteq> ?h" if "reserved_for (ss_slot ss) j" for j using that assms(2) by (auto simp: reserved_for_def)
  have "socket_ok ?h s" using assms(5-9) by (auto simp: socket_ok_def pending_bytes_def split: if_splits)
  then have "slots_inv ?ss" using inv(1) assms(3,4,7) by (auto simp: slots_inv_def)
  moreover have "mem_inv (pipe_bufs (ss_pipe ?ss)) ?ss"
    using inv(2) own_subset[of "ss_slot ss" "ss_heap ss" "pipe_bufs (ss_pipe ss)" s ?h] assms(5,6) rs(2) by (simp add: mem_inv_def bufs_def)
  moreover have "reserve_inv (ss_pipe ?ss) ?ss"
  proof -
    have i: "i \<notin> set (openers (ss_pipe ss))" using ne inv(3) by (auto simp: reserve_inv_def)
    have "reserved_for (ss_slot ?ss) j" if "j \<in> set (openers (ss_pipe ss))" for j
      using that inv(3) ne[of j] by (simp add: reserve_inv_def reserved_for_def)
    moreover have "reserved_for (ss_slot ?ss) j" if "j \<in> set (openers rs)" for j
      using that assms(7,9) by (auto simp: reserved_for_def split: if_splits)
    moreover have "sk_id (ss_slot ?ss g) \<in> set (openers (ss_pipe ss @ rs))" if "sk_type (ss_slot ?ss g) = SOCKET_TYPE_RESERVE" for g
      using that inv(3) assms(7,9) by (cases "g = ?h") (auto simp: reserve_inv_def split: if_splits)
    moreover have "distinct (openers (ss_pipe ss @ rs))" using inv(3) i assms(9) by (auto simp: reserve_inv_def split: if_splits)
    ultimately show ?thesis by (auto simp: reserve_inv_def)
  qed
  moreover have "sends_inv (ss_pipe ?ss) ?ss" using inv(4) rs(1) by (auto simp: sends_inv_def)
  moreover have "users_inv (ss_pipe ?ss) ?ss"
  proof -
    have u: "j < i" if "x \<in> set (ss_pipe ss)" "user_id x = Some j" for x j using inv(5) that assms(3) by (fastforce simp: users_inv_def)
    then have "in_order (ss_pipe ss @ rs)" using inv(5) assms(9) by (fastforce simp: users_inv_def in_order_append split: if_splits)
    then show ?thesis using u rs(1) assms(4) by (fastforce simp: users_inv_def)
  qed
  moreover have "events_inv ?ss"
  proof -
    have "?h \<notin> set (event_slots ss)" using inv(6) assms(2) by (auto simp: events_inv_def open_type_def)
    then show ?thesis using inv(6) by (auto simp: events_inv_def event_slots_def)
  qed
  ultimately show ?thesis by (simp add: socket_server_inv_def)
qed

text \<open>What \<open>reserve_id\<close> returns when the counter does not wrap.\<close>

lemma reserve_id_fresh:
  assumes "ids_left ss"
  obtains (full) ss' where "reserve_id ss = (ss', - 1)" "\<exists>a. ss' = ss\<lparr>ss_alloc_id := a\<rparr> \<and> sint (ss_alloc_id ss) \<le> sint a"
  | (free) i where "0 \<le> i" "sint (ss_alloc_id ss) < i" "sint (word_of_int i :: u32) = i"
      "sk_type (ss_slot ss (HASH_ID i)) = SOCKET_TYPE_INVALID"
      "reserve_id ss = (set_slot (HASH_ID i) (reserved_at i (ss_slot ss (HASH_ID i))) (ss\<lparr>ss_alloc_id := word_of_int i\<rparr>), i)"
proof (cases rule: reserve_id_cases[of ss])
  case full
  let ?a = "nth_id (ss_alloc_id ss) MAX_SOCKET"
  have m: "MAX_SOCKET = Suc 65535" by (simp add: MAX_SOCKET_def)
  have "sint ?a = int (unat (ss_alloc_id ss) + MAX_SOCKET)"
    using sint_nth_id[of "ss_alloc_id ss" 65535] assms unfolding m ids_left_def by simp
  moreover have "sint (ss_alloc_id ss) = int (unat (ss_alloc_id ss))" using assms by (intro ids_left_sint) (simp add: ids_left_def)
  ultimately have "sint (ss_alloc_id ss) \<le> sint ?a" by linarith
  then show thesis using that(1) full(2) by blast
next
  case (free k i)
  have k: "unat (ss_alloc_id ss) + Suc k < 2 ^ 31" using assms free(1) by (simp add: ids_left_def)
  then have i: "i = int (unat (ss_alloc_id ss) + Suc k)" using free(2) by simp
  have "sint (word_of_int i :: u32) = i"
  proof -
    have "unat (word_of_nat n :: u32) = n" if "n < 2 ^ 31" for n using that by (simp add: unsigned_of_nat take_bit_nat_eq_self)
    from this[OF k] have "unat (word_of_int i :: u32) = unat (ss_alloc_id ss) + Suc k" unfolding i by (simp only: of_int_of_nat_eq)
    then show ?thesis using ids_left_sint[of "word_of_int i"] k i by simp
  qed
  moreover have "sint (ss_alloc_id ss) = int (unat (ss_alloc_id ss))" using assms by (intro ids_left_sint) (simp add: ids_left_def)
  ultimately show thesis using that(2)[of i] free(3,4) i by simp
qed

lemma request_inv:
  assumes "socket_server_inv ss" "ids_left ss" "\<And>i. opener_id (f i) = Some i"
  shows "let (ss', i) = reserve_id ss in if i < 0 then socket_server_inv ss' else socket_server_inv (send_request (f i) ss')"
proof (cases rule: reserve_id_fresh[OF assms(2)])
  case (1 ss')
  then show ?thesis using alloc_inv[OF assms(1)] by auto
next
  case (2 i)
  have "socket_server_inv (set_slot (HASH_ID i) (reserved_at i (ss_slot ss (HASH_ID i))) (ss\<lparr>ss_alloc_id := word_of_int i, ss_pipe := ss_pipe ss @ [f i]\<rparr>))"
    using 2(2,3,4) assms(3)[of i]
    by (intro new_slot_inv[OF assms(1), where r = "f i"])
      (use assms(1) in \<open>auto simp: reserved_at_def socket_server_inv_def slots_inv_def socket_ok_def quiet_def\<close>)
  moreover have "send_request (f i) (set_slot (HASH_ID i) (reserved_at i (ss_slot ss (HASH_ID i))) (ss\<lparr>ss_alloc_id := word_of_int i\<rparr>)) =
    set_slot (HASH_ID i) (reserved_at i (ss_slot ss (HASH_ID i))) (ss\<lparr>ss_alloc_id := word_of_int i, ss_pipe := ss_pipe ss @ [f i]\<rparr>)"
    by (simp add: send_request_def set_slot_def)
  ultimately show ?thesis using 2(1,5) by simp
qed

lemma socket_server_inv_cong:
  assumes "socket_server_inv ss" "same_rest ss ss'" "ss_slot ss' = ss_slot ss" "ss_heap ss' = ss_heap ss"
  shows "socket_server_inv ss'"
  using assms by (simp add: socket_server_inv_def slots_inv_def mem_inv_def reserve_inv_def sends_inv_def users_inv_def
      events_inv_def event_slots_def same_rest_def)

lemma report_accept_inv:
  assumes "socket_server_inv ss" "ids_left ss"
  shows "\<exists>ss' ok m. report_accept E i ss = Some (ss', ok, m) \<and> socket_server_inv ss'"
proof -
  let ?c = "Sys_accept (sk_fd (ss_slot ss i))"
  let ?s = "snd (sys E ?c ss)"
  let ?fd = "sy_ret (os_result E (ss_calls ss @ [?c]))"
  have inv: "socket_server_inv ?s" "ids_left ?s" using assms by simp_all
  show ?thesis
  proof (cases "?fd < 0")
    case True
    then show ?thesis using assms by (simp add: report_accept_def Let_def)
  next
    case False
    show ?thesis
    proof (cases rule: reserve_id_fresh[OF inv(2)])
      case (1 s1)
      then show ?thesis using False alloc_inv[OF inv(1)] by (auto simp: report_accept_def Let_def)
    next
      case (2 j)
      let ?r = "reserved_at j (ss_slot ss (HASH_ID j))"
      let ?p = "?r\<lparr>sk_id := j, sk_fd := ?fd, sk_protocol := PROTOCOL_TCP, sk_size := MIN_READ_BUFFER, sk_opaque := sk_opaque (ss_slot ss i), sk_wb_size := 0, sk_type := SOCKET_TYPE_PACCEPT\<rparr>"
      have l: "sk_high (ss_slot ss (HASH_ID j)) = []" "sk_low (ss_slot ss (HASH_ID j)) = []"
        using assms(1) 2(4) by (auto simp: socket_server_inv_def slots_inv_def socket_ok_def quiet_def)
      have "socket_server_inv (set_slot (HASH_ID j) ?p (?s\<lparr>ss_alloc_id := word_of_int j, ss_pipe := ss_pipe ?s @ []\<rparr>))"
        using 2(2-4) l by (intro new_slot_inv[OF inv(1)]) (simp_all add: reserved_at_def)
      moreover have "same_rest (?s\<lparr>ss_alloc_id := a, ss_pipe := ss_pipe ?s @ []\<rparr>) (?s\<lparr>ss_alloc_id := a\<rparr>)" for a by (simp add: same_rest_def)
      ultimately show ?thesis using False 2(1,5) l
        by (auto simp: report_accept_def Let_def new_fd_def socket_keepalive_def reserved_at_def set_type_def same_rest_def fun_upd_same
            elim!: socket_server_inv_cong)
    qed
  qed
qed

section \<open>The loop of the socket thread\<close>

text \<open>What \<open>sp_wait\<close> promises: as many events as it says, each for another descriptor that is registered.\<close>

definition wait_ok :: "os \<Rightarrow> socket_server \<Rightarrow> bool" where
  "wait_ok E ss \<longleftrightarrow> (let r = os_result E (ss_calls ss @ [Sp_wait]); es = sy_events r in
     0 < sy_ret r \<longrightarrow> sy_ret r = int (length es) \<and> distinct (targets es) \<and> (\<forall>h \<in> set (targets es). open_type (sk_type (ss_slot ss h))))"

lemma socket_server_inv_flag [simp]: "socket_server_inv (ss\<lparr>ss_checkctrl := b\<rparr>) \<longleftrightarrow> socket_server_inv ss"
  by (simp add: socket_server_inv_def slots_inv_def mem_inv_def reserve_inv_def sends_inv_def users_inv_def events_inv_def event_slots_def)

lemma new_events_inv:
  assumes "socket_server_inv ss" "n \<le> length es" "distinct (targets (take n es))" "\<forall>h \<in> set (targets (take n es)). open_type (sk_type (ss_slot ss h))"
  shows "socket_server_inv (ss\<lparr>ss_ev := es, ss_checkctrl := True, ss_event_index := 0, ss_event_n := n\<rparr>)"
  using assms by (simp add: socket_server_inv_def slots_inv_def mem_inv_def reserve_inv_def sends_inv_def users_inv_def events_inv_def event_slots_def)

lemma no_events_inv:
  "socket_server_inv ss \<Longrightarrow> socket_server_inv (ss\<lparr>ss_checkctrl := True, ss_event_index := 0, ss_event_n := 0\<rparr>)"
  by (simp add: socket_server_inv_def slots_inv_def mem_inv_def reserve_inv_def sends_inv_def users_inv_def events_inv_def event_slots_def)

lemma poll_wait_inv:
  assumes "socket_server_inv ss" "wait_ok E ss"
  shows "\<exists>ok ss'. poll_wait E ss = (ok, ss') \<and> socket_server_inv ss' \<and> (ok \<longrightarrow> ss_event_index ss' < ss_event_n ss') \<and> ss_alloc_id ss' = ss_alloc_id ss"
proof -
  define r where "r = os_result E (ss_calls ss @ [Sp_wait])"
  let ?s = "snd (sys E Sp_wait ss)"
  have i: "socket_server_inv ?s" using assms(1) by simp
  show ?thesis
  proof (cases "sy_ret r \<le> 0")
    case True
    then have "poll_wait E ss = (False, ?s\<lparr>ss_checkctrl := True, ss_event_index := 0, ss_event_n := 0\<rparr>)" by (simp add: poll_wait_def Let_def r_def)
    then show ?thesis using no_events_inv[OF i] by auto
  next
    case False
    let ?es = "sy_events r @ drop (length (sy_events r)) (ss_ev ?s)"
    have "socket_server_inv (?s\<lparr>ss_ev := ?es, ss_checkctrl := True, ss_event_index := 0, ss_event_n := length (sy_events r)\<rparr>)"
      using assms(2) False by (intro new_events_inv[OF i]) (simp_all add: wait_ok_def Let_def r_def)
    moreover have "poll_wait E ss = (True, ?s\<lparr>ss_ev := ?es, ss_checkctrl := True, ss_event_index := 0, ss_event_n := length (sy_events r)\<rparr>)"
      using False by (simp add: poll_wait_def Let_def r_def)
    moreover have "sy_events r \<noteq> []" using False assms(2) by (auto simp: wait_ok_def Let_def r_def)
    ultimately show ?thesis by auto
  qed
qed

lemma next_event_inv:
  assumes "socket_server_inv ss" "ss_event_index ss < ss_event_n ss"
  shows "socket_server_inv (ss\<lparr>ss_event_index := ss_event_index ss + 1\<rparr>)"
    "ev_s (ss_ev ss ! ss_event_index ss) = Some h \<Longrightarrow> h \<notin> set (event_slots (ss\<lparr>ss_event_index := ss_event_index ss + 1\<rparr>)) \<and> open_type (sk_type (ss_slot ss h))"
proof -
  let ?s = "ss\<lparr>ss_event_index := ss_event_index ss + 1\<rparr>"
  have n: "ss_event_n ss \<le> length (ss_ev ss)" "distinct (event_slots ss)" "\<forall>h \<in> set (event_slots ss). open_type (sk_type (ss_slot ss h))"
    using assms(1) by (simp_all add: socket_server_inv_def events_inv_def)
  have e: "event_slots ss = (case ev_s (ss_ev ss ! ss_event_index ss) of None \<Rightarrow> [] | Some h \<Rightarrow> [h]) @ event_slots ?s"
    using targets_split[OF assms(2) n(1)] by (simp add: event_slots_def)
  show "socket_server_inv ?s" using assms n e
    by (simp add: socket_server_inv_def slots_inv_def mem_inv_def reserve_inv_def sends_inv_def users_inv_def events_inv_def split: option.splits)
  show "ev_s (ss_ev ss ! ss_event_index ss) = Some h \<Longrightarrow> h \<notin> set (event_slots ?s) \<and> open_type (sk_type (ss_slot ss h))" using n e by simp
qed

lemma poll_event_inv:
  assumes "socket_server_inv ss" "ss_event_index ss < ss_event_n ss" "ids_left ss" "writes_ok E" "interrupts_end E"
  shows "\<exists>ss' r. poll_event E ss = Some (ss', r) \<and> socket_server_inv ss'"
proof -
  define k where "k = ss_event_index ss"
  define e where "e = ss_ev ss ! k"
  define s1 where "s1 = ss\<lparr>ss_event_index := k + 1\<rparr>"
  have i1: "socket_server_inv s1" using next_event_inv(1)[OF assms(1,2)] by (simp add: s1_def k_def)
  show ?thesis
  proof (cases "ev_s e")
    case None
    then show ?thesis using i1 by (simp add: poll_event_def Let_def e_def s1_def k_def)
  next
    case (Some i)
    have h: "i \<notin> set (event_slots s1)" "open_type (sk_type (ss_slot s1 i))"
      using next_event_inv(2)[OF assms(1,2), of i] Some by (simp_all add: s1_def e_def k_def)
    have t: "\<exists>ss' r. poll_transfer E k e i s1 = Some (ss', r) \<and> socket_server_inv ss'"
      by (rule poll_transfer_inv[OF i1 _ Some _ h assms(4,5)]) (simp_all add: s1_def e_def)
    have eq: "poll_event E ss = (case sk_type (ss_slot s1 i) of
          SOCKET_TYPE_CONNECTING \<Rightarrow> report_connect E i s1
        | SOCKET_TYPE_LISTEN \<Rightarrow> do {
            (ss, ok, m) \<leftarrow> report_accept E i s1;
            Some (ss, if 0 < ok then Some (SOCKET_ACCEPT, m) else if ok < 0 then Some (SOCKET_ERROR, m) else None)
          }
        | SOCKET_TYPE_INVALID \<Rightarrow> Some (s1, None)
        | _ \<Rightarrow> poll_transfer E k e i s1)"
      unfolding poll_event_def Let_def k_def[symmetric] e_def[symmetric] s1_def[symmetric] Some by simp
    show ?thesis
    proof (cases "sk_type (ss_slot s1 i) = SOCKET_TYPE_CONNECTING \<or> sk_type (ss_slot s1 i) = SOCKET_TYPE_LISTEN")
      case False
      then show ?thesis using t h(2) by (cases "sk_type (ss_slot s1 i)") (simp_all add: eq open_type_def)
    next
      case True
      then consider (connect) "sk_type (ss_slot s1 i) = SOCKET_TYPE_CONNECTING" | (accept) "sk_type (ss_slot s1 i) = SOCKET_TYPE_LISTEN" by blast
      then show ?thesis
      proof cases
        case connect
        obtain s2 r where "report_connect E i s1 = Some (s2, r)" "slot_step i (pipe_bufs (ss_pipe s1)) s1 s2 r"
          using report_connect_steps[OF server_slot_inv[OF i1] connect] unfolding steps_def by blast
        then show ?thesis using connect event_op_inv[OF i1 h] by (simp add: eq)
      next
        case accept
        have "ids_left s1" using assms(3) by (simp add: ids_left_def s1_def)
        then show ?thesis using accept report_accept_inv[OF i1, of E i] by (auto simp: eq)
      qed
    qed
  qed
qed

lemma poll_step_inv:
  assumes "socket_server_inv ss" "ids_left ss" "wait_ok E ss" "writes_ok E" "interrupts_end E"
  shows "\<exists>ss' has_more' r. poll_step E has_more ss = Some (ss', has_more', r) \<and> socket_server_inv ss'"
proof (cases "ss_checkctrl ss \<and> ss_pipe ss \<noteq> []")
  case True
  obtain s1 r where "ctrl_cmd E ss = Some (s1, r)" "socket_server_inv (report_done r s1)"
    using ctrl_cmd_inv[OF assms(1) _ assms(4,5)] True unfolding goes_on_def by blast
  then show ?thesis using True by (cases r) (auto simp: poll_step_def report_done_def)
next
  case False
  let ?s = "ss\<lparr>ss_checkctrl := False\<rparr>"
  define wait where "wait \<longleftrightarrow> ss_event_index ss = ss_event_n ss"
  have i: "socket_server_inv ?s" "wait_ok E ?s" "ids_left ?s" using assms(1-3) by (simp_all add: wait_ok_def ids_left_def)
  obtain ok s1 where s1: "(if wait then poll_wait E ?s else (True, ?s)) = (ok, s1)" "socket_server_inv s1" "ids_left s1"
    "ok \<longrightarrow> ss_event_index s1 < ss_event_n s1"
  proof (cases wait)
    case True
    then show thesis using poll_wait_inv[OF i(1,2)] that i(3) by (auto simp: ids_left_def)
  next
    case False
    have "ss_event_index ss \<le> ss_event_n ss" using assms(1) by (simp add: socket_server_inv_def events_inv_def)
    then show thesis using False i that by (auto simp: wait_def)
  qed
  have eq: "poll_step E has_more ss = (if \<not> ok then Some (s1, if wait then False else has_more, Some None)
    else do { (ss, r) \<leftarrow> poll_event E s1; Some (ss, if wait then False else has_more, if r = None then None else Some r) })"
    unfolding poll_step_def if_not_P[OF False] Let_def using s1(1) by (simp add: wait_def)
  show ?thesis
  proof (cases ok)
    case True
    then obtain s2 r where "poll_event E s1 = Some (s2, r)" "socket_server_inv s2"
      using poll_event_inv[OF s1(2) _ s1(3) assms(4,5)] s1(4) by blast
    then show ?thesis using True by (simp add: eq)
  next
    case False
    then show ?thesis using s1(2) by (simp add: eq)
  qed
qed

section \<open>All threads\<close>

text \<open>A call of one of the functions for other threads, with the data that is sent, or one round of the socket thread.\<close>

datatype socket_action =
    Do_connect u64 string int
  | Do_listen u64 "string option" int int
  | Do_bind u64 int
  | Do_udp u64 "string option" int
  | Do_send int "u8 list" bool
  | Do_send_low int "u8 list" bool
  | Do_udp_send int "u8 list" "u8 list" bool
  | Do_udp_connect int string int
  | Do_start u64 int
  | Do_nodelay int
  | Do_close u64 int
  | Do_shutdown u64 int
  | Do_exit
  | Do_poll bool

definition object_size :: "bool \<Rightarrow> u8 list \<Rightarrow> int" where
  "object_size user bytes = (if user then - 1 else int (length bytes))"

fun perform :: "os \<Rightarrow> socket_action \<Rightarrow> socket_server \<Rightarrow> socket_server option" where
  "perform E (Do_connect opaque addr port) ss = Some (fst (socket_server_connect opaque addr port ss))"
| "perform E (Do_listen opaque addr port backlog) ss = Some (fst (socket_server_listen E opaque addr port backlog ss))"
| "perform E (Do_bind opaque fd) ss = Some (fst (socket_server_bind opaque fd ss))"
| "perform E (Do_udp opaque addr port) ss = Some (fst (socket_server_udp E opaque addr port ss))"
| "perform E (Do_send i bytes user) ss = (let (p, ss) = ss_malloc bytes ss in
     map_option fst (socket_server_send i p (object_size user bytes) ss))"
| "perform E (Do_send_low i bytes user) ss = (let (p, ss) = ss_malloc bytes ss in
     socket_server_send_lowpriority i p (object_size user bytes) ss)"
| "perform E (Do_udp_send i address bytes user) ss = (let (p, ss) = ss_malloc bytes ss in
     map_option fst (socket_server_udp_send i address p (object_size user bytes) ss))"
| "perform E (Do_udp_connect i addr port) ss = Some (fst (socket_server_udp_connect E i addr port ss))"
| "perform E (Do_start opaque i) ss = Some (socket_server_start opaque i ss)"
| "perform E (Do_nodelay i) ss = Some (socket_server_nodelay i ss)"
| "perform E (Do_close opaque i) ss = Some (socket_server_close opaque i ss)"
| "perform E (Do_shutdown opaque i) ss = Some (socket_server_shutdown opaque i ss)"
| "perform E Do_exit ss = Some (socket_server_exit ss)"
| "perform E (Do_poll has_more) ss = map_option fst (poll_step E has_more ss)"

text \<open>
  What the callers must keep to: numbers that were given out, objects of low priority whose data starts at the object, and
  a counter that does not wrap.
\<close>

fun allowed :: "os \<Rightarrow> socket_action \<Rightarrow> socket_server \<Rightarrow> bool" where
  "allowed E (Do_send_low i bytes user) ss \<longleftrightarrow> ids_left ss \<and> (user \<longrightarrow> map_option (\<lambda>buffer. buffer (ss_brk ss)) (ss_soi_buffer ss) = Some (ss_brk ss))"
| "allowed E (Do_send i bytes user) ss \<longleftrightarrow> ids_left ss \<and> (user \<longrightarrow> ss_soi_buffer ss \<noteq> None)"
| "allowed E (Do_udp_send i address bytes user) ss \<longleftrightarrow> ids_left ss \<and> (user \<longrightarrow> ss_soi_buffer ss \<noteq> None)"
| "allowed E (Do_close opaque i) ss \<longleftrightarrow> ids_left ss \<and> i \<le> sint (ss_alloc_id ss)"
| "allowed E (Do_shutdown opaque i) ss \<longleftrightarrow> ids_left ss \<and> i \<le> sint (ss_alloc_id ss)"
| "allowed E (Do_poll has_more) ss \<longleftrightarrow> ids_left ss \<and> wait_ok E ss"
| "allowed E _ ss \<longleftrightarrow> ids_left ss"

text \<open>A request that needs no slot and has no buffer.\<close>

lemma plain_request_inv:
  assumes "socket_server_inv ss" "opener_id r = None" "send_of r = None" "\<And>i. user_id r = Some i \<Longrightarrow> i \<le> sint (ss_alloc_id ss)"
  shows "socket_server_inv (send_request r ss)"
  using assms by (auto simp: socket_server_inv_def slots_inv_def mem_inv_def reserve_inv_def sends_inv_def users_inv_def
      events_inv_def event_slots_def send_request_def in_order_append)

lemma own_last: "own slot heap (p # Q) \<Longrightarrow> own slot heap (Q @ [p])"
  by (auto simp: own_def)

text \<open>New data is sent to a known number, or freed.\<close>

lemma send_request_inv:
  assumes "socket_server_inv ss" "known_id i ss" "send_of r = Some q" "rq_id q = i" "rq_buffer q = ss_brk ss" "rq_sz q = object_size user bytes"
    "user \<Longrightarrow> ss_soi_buffer ss \<noteq> None" "r = Req_P q \<Longrightarrow> user \<Longrightarrow> the (ss_soi_buffer ss) (ss_brk ss) = ss_brk ss"
  shows "socket_server_inv (send_request r (snd (ss_malloc bytes ss)))"
proof -
  let ?m = "snd (ss_malloc bytes ss)"
  have i: "socket_server_inv ?m" "mem_inv (pipe_bufs (ss_pipe ss)) ss" "slots_inv ss" using malloc_inv[OF assms(1)] assms(1) by (simp_all add: socket_server_inv_def)
  have u: "user_id r = Some i" "opener_id r = None" using assms(3,4) by (cases r; simp)+
  have "i \<le> sint (ss_alloc_id ss)" using assms(2) i(3) by (auto simp: known_id_def slots_inv_def)
  moreover have "mem_inv (pipe_bufs (ss_pipe ss @ [r])) ?m"
    using malloc_mem[OF i(2), of bytes] own_last assms(3,5) by (auto simp: mem_inv_def)
  moreover have "sendable (ss_heap ?m) (ss_soi_buffer ?m) q" "r = Req_P q \<Longrightarrow> starts_at_buffer (ss_soi_buffer ?m) q"
    using assms(5-8) by (auto simp: sendable_def starts_at_buffer_def object_size_def)
  ultimately show ?thesis using i(1) u assms(3)
    by (auto simp: socket_server_inv_def slots_inv_def mem_inv_def reserve_inv_def sends_inv_def users_inv_def
      events_inv_def event_slots_def send_request_def in_order_append)
qed

lemma send_free_inv:
  assumes "socket_server_inv ss" "user \<Longrightarrow> ss_soi_buffer ss \<noteq> None"
  shows "\<exists>ss'. free_buffer (ss_brk ss) (object_size user bytes) (snd (ss_malloc bytes ss)) = Some ss' \<and> socket_server_inv ss'"
proof -
  have m: "mem_inv (pipe_bufs (ss_pipe ss)) ss" using assms(1) by (simp add: socket_server_inv_def)
  have n: "ss_heap ss (ss_brk ss) = None" using m unfolding mem_inv_def by (metis less_irrefl)
  let ?s = "ss\<lparr>ss_brk := ss_brk ss + 1\<rparr>"
  have "free_buffer (ss_brk ss) (object_size user bytes) (snd (ss_malloc bytes ss)) = Some ?s"
    using m n assms(2) by (simp add: object_size_def free_buffer_def ss_free_def ss_malloc_def mem_inv_def fun_upd_idem)
  moreover have "socket_server_inv ?s" using assms(1)
    by (auto simp: socket_server_inv_def slots_inv_def mem_inv_def reserve_inv_def sends_inv_def users_inv_def
      events_inv_def event_slots_def intro: less_SucI)
  ultimately show ?thesis by blast
qed

lemma do_bind_calls: "only_calls ss (fst (do_bind E host port protocol ss))"
proof -
  have "only_calls ss ss" unfolding only_calls_def by (rule exI[of _ "ss_calls ss"]) simp
  then show ?thesis by (auto simp: do_bind_def Let_def split: list.splits)
qed

lemma do_listen_calls: "only_calls ss (fst (do_listen E host port backlog ss))"
  using do_bind_calls[of ss E host port IPPROTO_TCP] by (auto simp: do_listen_def Let_def split: prod.splits)

lemma only_calls_inv:
  assumes "only_calls ss ss'" "socket_server_inv ss" "ids_left ss"
  shows "socket_server_inv ss'" "ids_left ss'"
  using assms by (auto simp: only_calls_def ids_left_def)

lemma reserve_cases_inv:
  assumes "only_calls ss ss1" "socket_server_inv ss" "ids_left ss" "\<And>i. opener_id (f i) = Some i"
    "reserve_id ss1 = (ss2, i)"
  shows "i < 0 \<Longrightarrow> socket_server_inv ss2" "\<not> i < 0 \<Longrightarrow> socket_server_inv (send_request (f i) ss2)"
  using request_inv[OF only_calls_inv[OF assms(1-3)], of f] assms(4,5) by auto

lemma requests_inv:
  assumes "socket_server_inv ss" "ids_left ss"
  shows "socket_server_inv (fst (socket_server_connect opaque addr port ss))"
    "socket_server_inv (fst (socket_server_listen E opaque host port backlog ss))"
    "socket_server_inv (fst (socket_server_bind opaque fd ss))"
    "socket_server_inv (fst (socket_server_udp E opaque host port ss))"
proof -
  have refl: "only_calls s s" for s unfolding only_calls_def by (rule exI[of _ "ss_calls s"]) simp
  show "socket_server_inv (fst (socket_server_connect opaque addr port ss))"
    using reserve_cases_inv[OF refl assms, of "\<lambda>i. Req_O i port opaque addr"] assms(1) by (auto simp: socket_server_connect_def split: prod.splits)
  show "socket_server_inv (fst (socket_server_bind opaque fd ss))"
    using reserve_cases_inv[OF refl assms, of "\<lambda>i. Req_B i fd opaque"] by (auto simp: socket_server_bind_def split: prod.splits)
  show "socket_server_inv (fst (socket_server_listen E opaque host port backlog ss))"
  proof -
    obtain s1 fd where l: "do_listen E host port backlog ss = (s1, fd)" by (cases "do_listen E host port backlog ss")
    have c: "only_calls ss s1" using do_listen_calls[of ss E host port backlog] l by simp
    show ?thesis using only_calls_inv(1)[OF c assms] reserve_cases_inv[OF c assms, of "\<lambda>i. Req_L i fd opaque"] l
      by (auto simp: socket_server_listen_def split: prod.splits)
  qed
  show "socket_server_inv (fst (socket_server_udp E opaque host port ss))"
  proof -
    define b where "b = (if port \<noteq> 0 \<or> host \<noteq> None then do_bind E host port IPPROTO_UDP ss
      else let (f, ss) = sys E (Sys_socket AF_INET IPPROTO_UDP) ss in (ss, sy_ret f, AF_INET))"
    obtain s1 fd family where l: "b = (s1, fd, family)" by (cases b)
    have c: "only_calls ss s1" using do_bind_calls[of ss E host port IPPROTO_UDP] l refl[of ss] by (auto simp: b_def split: if_splits)
    then have c2: "only_calls ss (snd (sys E (Sp_nonblocking fd) s1))" by simp
    have eq: "socket_server_udp E opaque host port ss = (if fd < 0 then (s1, - 1)
      else let ss = snd (sys E (Sp_nonblocking fd) s1); (ss, i) = reserve_id ss in
        if i < 0 then (snd (sys E (Sys_close fd) ss), - 1) else (send_request (Req_U i fd family opaque) ss, i))"
      unfolding socket_server_udp_def b_def[symmetric] l by simp
    show ?thesis using only_calls_inv(1)[OF c assms] reserve_cases_inv[OF c2 assms, of "\<lambda>i. Req_U i fd family opaque"]
      by (auto simp: eq Let_def split: prod.splits)
  qed
qed

lemma known_id_malloc [simp]: "known_id i (snd (ss_malloc bs ss)) \<longleftrightarrow> known_id i ss"
  by (simp add: known_id_def)

lemma sends_action_inv:
  assumes "socket_server_inv ss" "a = Do_send i bytes user \<or> a = Do_send_low i bytes user \<or> a = Do_udp_send i address bytes user" "allowed E a ss"
  shows "\<exists>ss'. perform E a ss = Some ss' \<and> socket_server_inv ss'"
proof -
  have soi: "user \<Longrightarrow> ss_soi_buffer ss \<noteq> None" using assms(2,3) by auto
  obtain s' where f: "free_buffer (ss_brk ss) (object_size user bytes) (snd (ss_malloc bytes ss)) = Some s'" "socket_server_inv s'"
    using send_free_inv[OF assms(1) soi] by blast
  let ?q = "\<lparr>rq_id = i, rq_sz = object_size user bytes, rq_buffer = ss_brk ss\<rparr>"
  have s: "socket_server_inv (send_request r (snd (ss_malloc bytes ss)))" if "known_id i ss" "send_of r = Some ?q" "r \<noteq> Req_P ?q \<or> (user \<longrightarrow> the (ss_soi_buffer ss) (ss_brk ss) = ss_brk ss)" for r
    using send_request_inv[OF assms(1) that(1,2), of user bytes] that(3) soi by simp
  from assms(2) consider "a = Do_send i bytes user" | "a = Do_send_low i bytes user" | "a = Do_udp_send i address bytes user" by blast
  then show ?thesis
  proof cases
    case 1
    show ?thesis using f s[of "Req_D ?q"] by (simp add: 1 socket_server_send_def case_prod_beta)
  next
    case 2
    show ?thesis using f s[of "Req_P ?q"] assms(3) by (auto simp add: 2 socket_server_send_lowpriority_def case_prod_beta)
  next
    case 3
    show ?thesis using f s[of "Req_A ?q x" for x] by (cases "address_size address") (simp_all add: 3 socket_server_udp_send_def case_prod_beta)
  qed
qed

lemma perform_inv:
  assumes "socket_server_inv ss" "allowed E a ss" "writes_ok E" "interrupts_end E"
  shows "\<exists>ss'. perform E a ss = Some ss' \<and> socket_server_inv ss'"
proof -
  have ids: "ids_left ss" using assms(2) by (cases a) simp_all
  note r = requests_inv[OF assms(1) ids] and p = plain_request_inv[OF assms(1)]
  show ?thesis
  proof (cases a)
    case (Do_udp_connect i addr port)
    define f where "f = fst (socket_server_udp_connect E i addr port ss)"
    have "socket_server_inv (send_request (Req_C i x) (snd (sys E c ss)))" for x c
      using plain_request_inv[of "snd (sys E c ss)" "Req_C i x"] assms(1) by simp
    then have "socket_server_inv f" using assms(1) by (simp add: f_def socket_server_udp_connect_def Let_def split: list.splits prod.splits)
    then show ?thesis using Do_udp_connect by (simp add: f_def)
  next
    case (Do_poll has_more)
    then show ?thesis using poll_step_inv[OF assms(1) ids _ assms(3,4), of has_more] assms(2) by auto
  next
    case (Do_close opaque i)
    then show ?thesis using assms(2) p[of "Req_K i False opaque"] by (simp add: socket_server_close_def)
  next
    case (Do_shutdown opaque i)
    then show ?thesis using assms(2) p[of "Req_K i True opaque"] by (simp add: socket_server_shutdown_def)
  next
    case (Do_start opaque i)
    then show ?thesis using p[of "Req_S i opaque"] by (simp add: socket_server_start_def)
  next
    case (Do_nodelay i)
    then show ?thesis using p[of "Req_T i TCP_NODELAY 1"] by (simp add: socket_server_nodelay_def)
  next
    case Do_exit
    then show ?thesis using p[of Req_X] by (simp add: socket_server_exit_def)
  next
    case (Do_send i bytes user)
    then show ?thesis using sends_action_inv[OF assms(1) _ assms(2)] by blast
  next
    case (Do_send_low i bytes user)
    then show ?thesis using sends_action_inv[OF assms(1) _ assms(2)] by blast
  next
    case (Do_udp_send i address bytes user)
    then show ?thesis using sends_action_inv[OF assms(1) _ assms(2)] by blast
  qed (use r in simp_all)
qed

section \<open>The server as a system of steps\<close>

definition server_init :: "os \<Rightarrow> (ptr \<Rightarrow> ptr) \<Rightarrow> socket_server \<Rightarrow> bool" where
  "server_init E soi ss \<longleftrightarrow> (\<exists>ss0. socket_server_create E = Some ss0 \<and> ss = socket_server_userobject soi ss0)"

definition server_step :: "os \<Rightarrow> socket_server \<Rightarrow> socket_server \<Rightarrow> bool" where
  "server_step E ss ss' \<longleftrightarrow> writes_ok E \<and> interrupts_end E \<and> (\<exists>a. allowed E a ss \<and> perform E a ss = Some ss')"

definition server_bad :: "os \<Rightarrow> socket_server \<Rightarrow> bool" where
  "server_bad E ss \<longleftrightarrow> writes_ok E \<and> interrupts_end E \<and> (\<exists>a. allowed E a ss \<and> perform E a ss = None)"

lemma server_init_inv:
  assumes "server_init E soi ss"
  shows "socket_server_inv ss"
proof -
  have "socket_server_inv (socket_server_userobject soi ((snd (sys E c1 (snd (sys E c2 (snd (sys E c3 socket_server_start_state)))))) \<lparr>ss_recvctrl_fd := r, ss_sendctrl_fd := w\<rparr>))" for c1 c2 c3 r w
    by (simp add: socket_server_userobject_def socket_server_start_state_def socket_zero_def socket_server_inv_def slots_inv_def mem_inv_def
        reserve_inv_def sends_inv_def users_inv_def events_inv_def event_slots_def socket_ok_def own_def bufs_def)
  then show ?thesis using assms by (auto simp: server_init_def socket_server_create_def Let_def bind_eq_Some_conv split: if_splits)
qed

interpretation socket_system: safe_system "server_init E soi" "server_step E" socket_server_inv "server_bad E" for E soi
proof
  show "socket_server_inv s" if "server_init E soi s" for s using server_init_inv[OF that] .
  show "socket_server_inv t" if "server_step E s t" "socket_server_inv s" for s t
    using that perform_inv[of s E] unfolding server_step_def by (metis option.inject)
  show "\<not> server_bad E s" if "socket_server_inv s" for s
    using that perform_inv[of s E] unfolding server_bad_def by (metis option.distinct(1))
qed



text \<open>
  C23: what the low list must not hold. A user object whose data does not start at the object itself (the interface
  \<open>soi\<close> allows it) is queued with low priority without complaint, and then the next attempt to write the
  socket fails the assertion that no package of the low list was begun, although nothing was sent.
\<close>

theorem low_object_aborts:
  assumes "h = HASH_ID (rq_id request)" "s = ss_slot ss h" "sk_type s = SOCKET_TYPE_CONNECTED" "sk_protocol s = PROTOCOL_TCP"
    "sk_id s = rq_id request" "sk_high s \<noteq> []" "sk_low s = []" "rq_sz request < 0" "ss_heap ss (rq_buffer request) \<noteq> None"
    "ss_soi_buffer ss = Some soi_buffer" "soi_buffer (rq_buffer request) \<noteq> rq_buffer request"
  shows "\<exists>ss'. send_socket E request PRIORITY_LOW None ss = Some (ss', None) \<and> send_buffer E h ss' = None"
proof -
  obtain bytes where b: "ss_heap ss (rq_buffer request) = Some bytes" using assms(9) by blast
  have "send_object_init (rq_buffer request) (rq_sz request) ss =
    Some \<lparr>so_buffer = soi_buffer (rq_buffer request), so_data = bytes, so_userobject = True\<rparr>"
    using b assms(8,10) by (simp add: send_object_init_def)
  then show ?thesis using assms
    by (simp add: send_socket_def Let_def append_sendbuffer_low_def append_sendbuffer_common_def send_buffer_empty_def
        get_list_def set_list_def send_buffer_def list_uncomplete_def)
qed

text \<open>An object whose data is eight bytes behind its start, for a socket with one package that waits.\<close>

definition object_server :: socket_server where
  "object_server = connected_server\<lparr>ss_slot := (\<lambda>_. socket_zero)(1 := socket_zero\<lparr>sk_type := SOCKET_TYPE_CONNECTED, sk_id := 1, sk_fd := 7,
     sk_wb_size := 1, sk_high := [\<lparr>wr_buffer = 1, wr_ptr = 1, wr_data = [9], wr_userobject = False, wr_udp_address = []\<rparr>]\<rparr>),
     ss_heap := [1 \<mapsto> [9], 2 \<mapsto> [4, 5]], ss_brk := 3, ss_soi_buffer := Some (\<lambda>p. p + 8)\<rparr>"

theorem low_object_aborts_witness:
  "\<exists>ss'. send_socket slow_system \<lparr>rq_id = 1, rq_sz = - 1, rq_buffer = 2\<rparr> PRIORITY_LOW None object_server = Some (ss', None) \<and>
     send_buffer slow_system 1 ss' = None"
proof -
  have h: "HASH_ID 1 = 1" by (simp add: HASH_ID_def MAX_SOCKET_def)
  show ?thesis
    by (rule low_object_aborts[OF _ refl, where soi_buffer = "\<lambda>p. p + 8"]) (simp_all add: h object_server_def connected_server_def socket_zero_def PROTOCOL_TCP_def)
qed

end
