(* ===== verification/Cipher_Spec.thy ===== *)
theory Cipher_Spec
  imports Main
begin

text \<open>
  A Feistel network over any round function: running the rounds with the keys in reverse
  order on the exchanged halves undoes them. The only law it needs is that the operation
  that mixes the round function into a half is undone by applying it again.
\<close>

definition feistel_step :: "('k \<Rightarrow> 'b \<Rightarrow> 'b) \<Rightarrow> ('b \<Rightarrow> 'b \<Rightarrow> 'b) \<Rightarrow> 'k \<Rightarrow> 'b \<times> 'b \<Rightarrow> 'b \<times> 'b" where
  "feistel_step f mix k p = (snd p, mix (fst p) (f k (snd p)))"

definition feistel_run :: "('k \<Rightarrow> 'b \<Rightarrow> 'b) \<Rightarrow> ('b \<Rightarrow> 'b \<Rightarrow> 'b) \<Rightarrow> 'k list \<Rightarrow> 'b \<times> 'b \<Rightarrow> 'b \<times> 'b" where
  "feistel_run f mix ks p = foldl (\<lambda>q k. feistel_step f mix k q) p ks"

lemma feistel_run_simps [simp]:
  "feistel_run f mix [] p = p"
  "feistel_run f mix (k # ks) p = feistel_run f mix ks (feistel_step f mix k p)"
  "feistel_run f mix (ks @ ls) p = feistel_run f mix ls (feistel_run f mix ks p)"
  by (simp_all add: feistel_run_def)

locale feistel =
  fixes f :: "'k \<Rightarrow> 'b \<Rightarrow> 'b"
    and mix :: "'b \<Rightarrow> 'b \<Rightarrow> 'b"
  assumes mix_cancel: "mix (mix a b) b = a"
begin

lemma step_inverse:
  "feistel_step f mix k (prod.swap (feistel_step f mix k p)) = prod.swap p"
  by (simp add: feistel_step_def mix_cancel prod.swap_def)

lemma run_inverse:
  "feistel_run f mix (rev ks) (prod.swap (feistel_run f mix ks p)) = prod.swap p"
  by (induction ks rule: rev_induct) (simp_all add: step_inverse)

end

end
