(* ===== verification/Des.thy ===== *)
theory Des
  imports C_Lib Cipher_Spec
begin

text \<open>
  The DES cipher of \<^verbatim>\<open>lualib-src/lua-crypt.c\<close>: the tables, the bit permutations, the key
  schedule, the rounds, and the two functions \<open>desencode\<close> and \<open>desdecode\<close> that Lua code
  calls, with their padding. A Lua error is a value \<open>Inl\<close>; an access outside a buffer is the
  abort \<open>None\<close>.
\<close>

section \<open>Tables\<close>

definition SB1 :: "u32 list" where
  "SB1 = [
     0x01010400, 0x00000000, 0x00010000, 0x01010404, 0x01010004, 0x00010404, 0x00000004, 0x00010000,
     0x00000400, 0x01010400, 0x01010404, 0x00000400, 0x01000404, 0x01010004, 0x01000000, 0x00000004,
     0x00000404, 0x01000400, 0x01000400, 0x00010400, 0x00010400, 0x01010000, 0x01010000, 0x01000404,
     0x00010004, 0x01000004, 0x01000004, 0x00010004, 0x00000000, 0x00000404, 0x00010404, 0x01000000,
     0x00010000, 0x01010404, 0x00000004, 0x01010000, 0x01010400, 0x01000000, 0x01000000, 0x00000400,
     0x01010004, 0x00010000, 0x00010400, 0x01000004, 0x00000400, 0x00000004, 0x01000404, 0x00010404,
     0x01010404, 0x00010004, 0x01010000, 0x01000404, 0x01000004, 0x00000404, 0x00010404, 0x01010400,
     0x00000404, 0x01000400, 0x01000400, 0x00000000, 0x00010004, 0x00010400, 0x00000000, 0x01010004]"

definition SB2 :: "u32 list" where
  "SB2 = [
     0x80108020, 0x80008000, 0x00008000, 0x00108020, 0x00100000, 0x00000020, 0x80100020, 0x80008020,
     0x80000020, 0x80108020, 0x80108000, 0x80000000, 0x80008000, 0x00100000, 0x00000020, 0x80100020,
     0x00108000, 0x00100020, 0x80008020, 0x00000000, 0x80000000, 0x00008000, 0x00108020, 0x80100000,
     0x00100020, 0x80000020, 0x00000000, 0x00108000, 0x00008020, 0x80108000, 0x80100000, 0x00008020,
     0x00000000, 0x00108020, 0x80100020, 0x00100000, 0x80008020, 0x80100000, 0x80108000, 0x00008000,
     0x80100000, 0x80008000, 0x00000020, 0x80108020, 0x00108020, 0x00000020, 0x00008000, 0x80000000,
     0x00008020, 0x80108000, 0x00100000, 0x80000020, 0x00100020, 0x80008020, 0x80000020, 0x00100020,
     0x00108000, 0x00000000, 0x80008000, 0x00008020, 0x80000000, 0x80100020, 0x80108020, 0x00108000]"

definition SB3 :: "u32 list" where
  "SB3 = [
     0x00000208, 0x08020200, 0x00000000, 0x08020008, 0x08000200, 0x00000000, 0x00020208, 0x08000200,
     0x00020008, 0x08000008, 0x08000008, 0x00020000, 0x08020208, 0x00020008, 0x08020000, 0x00000208,
     0x08000000, 0x00000008, 0x08020200, 0x00000200, 0x00020200, 0x08020000, 0x08020008, 0x00020208,
     0x08000208, 0x00020200, 0x00020000, 0x08000208, 0x00000008, 0x08020208, 0x00000200, 0x08000000,
     0x08020200, 0x08000000, 0x00020008, 0x00000208, 0x00020000, 0x08020200, 0x08000200, 0x00000000,
     0x00000200, 0x00020008, 0x08020208, 0x08000200, 0x08000008, 0x00000200, 0x00000000, 0x08020008,
     0x08000208, 0x00020000, 0x08000000, 0x08020208, 0x00000008, 0x00020208, 0x00020200, 0x08000008,
     0x08020000, 0x08000208, 0x00000208, 0x08020000, 0x00020208, 0x00000008, 0x08020008, 0x00020200]"

definition SB4 :: "u32 list" where
  "SB4 = [
     0x00802001, 0x00002081, 0x00002081, 0x00000080, 0x00802080, 0x00800081, 0x00800001, 0x00002001,
     0x00000000, 0x00802000, 0x00802000, 0x00802081, 0x00000081, 0x00000000, 0x00800080, 0x00800001,
     0x00000001, 0x00002000, 0x00800000, 0x00802001, 0x00000080, 0x00800000, 0x00002001, 0x00002080,
     0x00800081, 0x00000001, 0x00002080, 0x00800080, 0x00002000, 0x00802080, 0x00802081, 0x00000081,
     0x00800080, 0x00800001, 0x00802000, 0x00802081, 0x00000081, 0x00000000, 0x00000000, 0x00802000,
     0x00002080, 0x00800080, 0x00800081, 0x00000001, 0x00802001, 0x00002081, 0x00002081, 0x00000080,
     0x00802081, 0x00000081, 0x00000001, 0x00002000, 0x00800001, 0x00002001, 0x00802080, 0x00800081,
     0x00002001, 0x00002080, 0x00800000, 0x00802001, 0x00000080, 0x00800000, 0x00002000, 0x00802080]"

definition SB5 :: "u32 list" where
  "SB5 = [
     0x00000100, 0x02080100, 0x02080000, 0x42000100, 0x00080000, 0x00000100, 0x40000000, 0x02080000,
     0x40080100, 0x00080000, 0x02000100, 0x40080100, 0x42000100, 0x42080000, 0x00080100, 0x40000000,
     0x02000000, 0x40080000, 0x40080000, 0x00000000, 0x40000100, 0x42080100, 0x42080100, 0x02000100,
     0x42080000, 0x40000100, 0x00000000, 0x42000000, 0x02080100, 0x02000000, 0x42000000, 0x00080100,
     0x00080000, 0x42000100, 0x00000100, 0x02000000, 0x40000000, 0x02080000, 0x42000100, 0x40080100,
     0x02000100, 0x40000000, 0x42080000, 0x02080100, 0x40080100, 0x00000100, 0x02000000, 0x42080000,
     0x42080100, 0x00080100, 0x42000000, 0x42080100, 0x02080000, 0x00000000, 0x40080000, 0x42000000,
     0x00080100, 0x02000100, 0x40000100, 0x00080000, 0x00000000, 0x40080000, 0x02080100, 0x40000100]"

definition SB6 :: "u32 list" where
  "SB6 = [
     0x20000010, 0x20400000, 0x00004000, 0x20404010, 0x20400000, 0x00000010, 0x20404010, 0x00400000,
     0x20004000, 0x00404010, 0x00400000, 0x20000010, 0x00400010, 0x20004000, 0x20000000, 0x00004010,
     0x00000000, 0x00400010, 0x20004010, 0x00004000, 0x00404000, 0x20004010, 0x00000010, 0x20400010,
     0x20400010, 0x00000000, 0x00404010, 0x20404000, 0x00004010, 0x00404000, 0x20404000, 0x20000000,
     0x20004000, 0x00000010, 0x20400010, 0x00404000, 0x20404010, 0x00400000, 0x00004010, 0x20000010,
     0x00400000, 0x20004000, 0x20000000, 0x00004010, 0x20000010, 0x20404010, 0x00404000, 0x20400000,
     0x00404010, 0x20404000, 0x00000000, 0x20400010, 0x00000010, 0x00004000, 0x20400000, 0x00404010,
     0x00004000, 0x00400010, 0x20004010, 0x00000000, 0x20404000, 0x20000000, 0x00400010, 0x20004010]"

definition SB7 :: "u32 list" where
  "SB7 = [
     0x00200000, 0x04200002, 0x04000802, 0x00000000, 0x00000800, 0x04000802, 0x00200802, 0x04200800,
     0x04200802, 0x00200000, 0x00000000, 0x04000002, 0x00000002, 0x04000000, 0x04200002, 0x00000802,
     0x04000800, 0x00200802, 0x00200002, 0x04000800, 0x04000002, 0x04200000, 0x04200800, 0x00200002,
     0x04200000, 0x00000800, 0x00000802, 0x04200802, 0x00200800, 0x00000002, 0x04000000, 0x00200800,
     0x04000000, 0x00200800, 0x00200000, 0x04000802, 0x04000802, 0x04200002, 0x04200002, 0x00000002,
     0x00200002, 0x04000000, 0x04000800, 0x00200000, 0x04200800, 0x00000802, 0x00200802, 0x04200800,
     0x00000802, 0x04000002, 0x04200802, 0x04200000, 0x00200800, 0x00000000, 0x00000002, 0x04200802,
     0x00000000, 0x00200802, 0x04200000, 0x00000800, 0x04000002, 0x04000800, 0x00000800, 0x00200002]"

definition SB8 :: "u32 list" where
  "SB8 = [
     0x10001040, 0x00001000, 0x00040000, 0x10041040, 0x10000000, 0x10001040, 0x00000040, 0x10000000,
     0x00040040, 0x10040000, 0x10041040, 0x00041000, 0x10041000, 0x00041040, 0x00001000, 0x00000040,
     0x10040000, 0x10000040, 0x10001000, 0x00001040, 0x00041000, 0x00040040, 0x10040040, 0x10041000,
     0x00001040, 0x00000000, 0x00000000, 0x10040040, 0x10000040, 0x10001000, 0x00041040, 0x00040000,
     0x00041040, 0x00040000, 0x10041000, 0x00001000, 0x00000040, 0x10040040, 0x00001000, 0x00041040,
     0x10001000, 0x00000040, 0x10000040, 0x10040000, 0x10040040, 0x10000000, 0x00040000, 0x10001040,
     0x00000000, 0x10041040, 0x00040040, 0x10000040, 0x10040000, 0x10001000, 0x10001040, 0x00000000,
     0x10041040, 0x00041000, 0x00041000, 0x00001040, 0x00001040, 0x00040040, 0x10000000, 0x10041000]"

definition LHs :: "u32 list" where
  "LHs = [
     0x00000000, 0x00000001, 0x00000100, 0x00000101, 0x00010000, 0x00010001, 0x00010100, 0x00010101,
     0x01000000, 0x01000001, 0x01000100, 0x01000101, 0x01010000, 0x01010001, 0x01010100, 0x01010101]"

definition RHs :: "u32 list" where
  "RHs = [
     0x00000000, 0x01000000, 0x00010000, 0x01010000, 0x00000100, 0x01000100, 0x00010100, 0x01010100,
     0x00000001, 0x01000001, 0x00010001, 0x01010001, 0x00000101, 0x01000101, 0x00010101, 0x01010101]"

section \<open>Words and bytes\<close>

definition GET_UINT32 :: "u8 list \<Rightarrow> nat \<Rightarrow> u32" where
  "GET_UINT32 b i = push_bit 24 (ucast (b ! i)) OR push_bit 16 (ucast (b ! (i + 1))) OR
     push_bit 8 (ucast (b ! (i + 2))) OR ucast (b ! (i + 3))"

definition PUT_UINT32 :: "u32 \<Rightarrow> u8 list" where
  "PUT_UINT32 n = [ucast (drop_bit 24 n), ucast (drop_bit 16 n), ucast (drop_bit 8 n), ucast n]"

section \<open>Permutations\<close>

text \<open>The exchange \<open>T = ((X >> k) ^ Y) & m; Y ^= T; X ^= (T << k)\<close> and the rotations by one bit.\<close>

definition exchange :: "nat \<Rightarrow> u32 \<Rightarrow> u32 \<times> u32 \<Rightarrow> u32 \<times> u32" where
  "exchange k m p = (case p of (X, Y) \<Rightarrow>
     let T = (drop_bit k X XOR Y) AND m in (X XOR push_bit k T, Y XOR T))"

definition rotl1 :: "u32 \<Rightarrow> u32" where
  "rotl1 X = push_bit 1 X OR drop_bit 31 X"

definition rotr1 :: "u32 \<Rightarrow> u32" where
  "rotr1 X = push_bit 31 X OR drop_bit 1 X"

definition DES_IP :: "u32 \<times> u32 \<Rightarrow> u32 \<times> u32" where
  "DES_IP p =
     (let (X, Y) = exchange 16 0x0000FFFF (exchange 4 0x0F0F0F0F p);
          (Y, X) = exchange 8 0x00FF00FF (exchange 2 0x33333333 (Y, X));
          Y = rotl1 Y;
          T = (X XOR Y) AND 0xAAAAAAAA;
          Y = Y XOR T; X = X XOR T;
          X = rotl1 X
      in (X, Y))"

definition DES_FP :: "u32 \<times> u32 \<Rightarrow> u32 \<times> u32" where
  "DES_FP p =
     (let (X, Y) = p;
          X = rotr1 X;
          T = (X XOR Y) AND 0xAAAAAAAA;
          X = X XOR T; Y = Y XOR T;
          Y = rotr1 Y;
          (Y, X) = exchange 2 0x33333333 (exchange 8 0x00FF00FF (Y, X))
      in exchange 4 0x0F0F0F0F (exchange 16 0x0000FFFF (X, Y)))"

section \<open>Rounds\<close>

text \<open>What a round xors into \<open>Y\<close>: \<open>k\<close> and \<open>l\<close> are the two words it takes from the key schedule.\<close>

definition des_f :: "u32 \<times> u32 \<Rightarrow> u32 \<Rightarrow> u32" where
  "des_f kl X =
     (let T = fst kl XOR X; U = snd kl XOR (push_bit 28 X OR drop_bit 4 X);
          at = (\<lambda>S n V. S ! unat (drop_bit n V AND 0x3F :: u32))
      in (at SB8 0 T XOR at SB6 8 T XOR at SB4 16 T XOR at SB2 24 T) XOR
         (at SB7 0 U XOR at SB5 8 U XOR at SB3 16 U XOR at SB1 24 U))"

text \<open>\<open>DES_ROUND(Y, X); DES_ROUND(X, Y)\<close> for every four words of the schedule.\<close>

fun des_rounds :: "u32 list \<Rightarrow> u32 \<times> u32 \<Rightarrow> u32 \<times> u32" where
  "des_rounds (a # b # c # d # SK) (X, Y) =
     (let X = X XOR des_f (a, b) Y; Y = Y XOR des_f (c, d) X in des_rounds SK (X, Y))"
| "des_rounds SK p = p"

definition subkey1 :: "u32 \<Rightarrow> u32 \<Rightarrow> u32" where
  "subkey1 X Y =
     (push_bit 4 X AND 0x24000000) OR (push_bit 28 X AND 0x10000000) OR (push_bit 14 X AND 0x08000000) OR
     (push_bit 18 X AND 0x02080000) OR (push_bit 6 X AND 0x01000000) OR (push_bit 9 X AND 0x00200000) OR
     (drop_bit 1 X AND 0x00100000) OR (push_bit 10 X AND 0x00040000) OR (push_bit 2 X AND 0x00020000) OR
     (drop_bit 10 X AND 0x00010000) OR (drop_bit 13 Y AND 0x00002000) OR (drop_bit 4 Y AND 0x00001000) OR
     (push_bit 6 Y AND 0x00000800) OR (drop_bit 1 Y AND 0x00000400) OR (drop_bit 14 Y AND 0x00000200) OR
     (Y AND 0x00000100) OR (drop_bit 5 Y AND 0x00000020) OR (drop_bit 10 Y AND 0x00000010) OR
     (drop_bit 3 Y AND 0x00000008) OR (drop_bit 18 Y AND 0x00000004) OR (drop_bit 26 Y AND 0x00000002) OR
     (drop_bit 24 Y AND 0x00000001)"

definition subkey2 :: "u32 \<Rightarrow> u32 \<Rightarrow> u32" where
  "subkey2 X Y =
     (push_bit 15 X AND 0x20000000) OR (push_bit 17 X AND 0x10000000) OR (push_bit 10 X AND 0x08000000) OR
     (push_bit 22 X AND 0x04000000) OR (drop_bit 2 X AND 0x02000000) OR (push_bit 1 X AND 0x01000000) OR
     (push_bit 16 X AND 0x00200000) OR (push_bit 11 X AND 0x00100000) OR (push_bit 3 X AND 0x00080000) OR
     (drop_bit 6 X AND 0x00040000) OR (push_bit 15 X AND 0x00020000) OR (drop_bit 4 X AND 0x00010000) OR
     (drop_bit 2 Y AND 0x00002000) OR (push_bit 8 Y AND 0x00001000) OR (drop_bit 14 Y AND 0x00000808) OR
     (drop_bit 9 Y AND 0x00000400) OR (Y AND 0x00000200) OR (push_bit 7 Y AND 0x00000100) OR
     (drop_bit 7 Y AND 0x00000020) OR (drop_bit 3 Y AND 0x00000011) OR (push_bit 2 Y AND 0x00000004) OR
     (drop_bit 21 Y AND 0x00000002)"

fun subkeys :: "nat list \<Rightarrow> u32 \<Rightarrow> u32 \<Rightarrow> u32 list" where
  "subkeys [] X Y = []"
| "subkeys (i # is) X Y =
     (let n = (if i < 2 \<or> i = 8 \<or> i = 15 then 1 else 2);
          X = (push_bit n X OR drop_bit (28 - n) X) AND 0x0FFFFFFF;
          Y = (push_bit n Y OR drop_bit (28 - n) Y) AND 0x0FFFFFFF
      in subkey1 X Y # subkey2 X Y # subkeys is X Y)"

definition des_main_ks :: "u8 list \<Rightarrow> u32 list" where
  "des_main_ks key =
     (let X = GET_UINT32 key 0; Y = GET_UINT32 key 4;
          T = (drop_bit 4 Y XOR X) AND 0x0F0F0F0F; X = X XOR T; Y = Y XOR push_bit 4 T;
          T = (Y XOR X) AND 0x10101010; X = X XOR T; Y = Y XOR T;
          lh = (\<lambda>n k. push_bit k (LHs ! unat (drop_bit n X AND 0xF)));
          rh = (\<lambda>n k. push_bit k (RHs ! unat (drop_bit n Y AND 0xF)));
          X' = lh 0 3 OR lh 8 2 OR lh 16 1 OR lh 24 0 OR lh 5 7 OR lh 13 6 OR lh 21 5 OR lh 29 4;
          Y' = rh 1 3 OR rh 9 2 OR rh 17 1 OR rh 25 0 OR rh 4 7 OR rh 12 6 OR rh 20 5 OR rh 28 4
      in subkeys [0..<16] (X' AND 0x0FFFFFFF) (Y' AND 0x0FFFFFFF))"

definition des_crypt :: "u32 list \<Rightarrow> u8 list \<Rightarrow> u8 list" where
  "des_crypt SK b =
     (let (X, Y) = des_rounds SK (DES_IP (GET_UINT32 b 0, GET_UINT32 b 4));
          (Y, X) = DES_FP (Y, X)
      in PUT_UINT32 Y @ PUT_UINT32 X)"

section \<open>Functions for Lua\<close>

text \<open>The generator is the argument \<open>rnd\<close>: the eight values that \<open>random()\<close> returns.\<close>

definition lrandomkey :: "u64 list \<Rightarrow> u8 list" where
  "lrandomkey rnd =
     (let tmp = map (\<lambda>r. ucast (r AND 0xff) :: u8) (take 8 rnd)
      in if foldl (XOR) 0 tmp = 0 then tmp[0 := tmp ! 0 OR 1] else tmp)"

definition des_key :: "u8 list \<Rightarrow> string + u32 list" where
  "des_key key =
     (if length key \<noteq> 8 then Inl (''Invalid key size '' @ print_d (to_int32 (int (length key))) @ '', need 8 bytes'')
      else Inr (des_main_ks key))"

text \<open>The whole blocks of the text, and what is left.\<close>

fun crypt_blocks :: "u32 list \<Rightarrow> u8 list \<Rightarrow> u8 list \<times> u8 list" where
  "crypt_blocks SK (a # b # c # d # e # f # g # h # text) =
     (let (out, rest) = crypt_blocks SK text in (des_crypt SK [a, b, c, d, e, f, g, h] @ out, rest))"
| "crypt_blocks SK text = ([], text)"

definition des_tail :: "u8 list \<Rightarrow> u8 list" where
  "des_tail rest = rest @ 0x80 # replicate (7 - length rest) 0"

definition ldesencode :: "u8 list \<Rightarrow> u8 list \<Rightarrow> string + u8 list" where
  "ldesencode key text = (case des_key key of
     Inl e \<Rightarrow> Inl e
   | Inr SK \<Rightarrow> let (out, rest) = crypt_blocks SK text in Inr (out @ des_crypt SK (des_tail rest)))"

text \<open>The schedule of decryption: the pairs of words in reverse order.\<close>

definition reverse_ks :: "u32 list \<Rightarrow> u32 list" where
  "reverse_ks ESK = concat (map (\<lambda>j. [ESK ! (30 - 2 * j), ESK ! (31 - 2 * j)]) [0..<16])"

text \<open>
  The loop over the padding from the end of the buffer. Its condition \<open>i >= textsz - 8\<close> compares unsigned numbers:
  for a text of 8 bytes it holds for \<open>i = -1\<close> too, and the loop then reads before the buffer.
\<close>

fun pad_scan :: "nat \<Rightarrow> u8 list \<Rightarrow> nat \<Rightarrow> nat \<Rightarrow> (string + nat) option" where
  "pad_scan textsz [] j padding = (if textsz = 8 then None else Some (Inr padding))"
| "pad_scan textsz (b # bs) j padding =
     (if j < 8 then
        if b = 0 then pad_scan textsz bs (j + 1) (padding + 1)
        else if b = 0x80 then Some (Inr padding)
        else Some (Inl ''Invalid des crypt text'')
      else Some (Inr padding))"

definition ldesdecode :: "u8 list \<Rightarrow> u8 list \<Rightarrow> (string + u8 list) option" where
  "ldesdecode key text = (case des_key key of
     Inl e \<Rightarrow> Some (Inl e)
   | Inr ESK \<Rightarrow>
       if length text mod 8 \<noteq> 0 \<or> text = [] then
         Some (Inl (''Invalid des crypt text length '' @ print_d (to_int32 (int (length text)))))
       else let buffer = fst (crypt_blocks (reverse_ks ESK) text) in
         do {
           r \<leftarrow> pad_scan (length text) (rev buffer) 0 1;
           case r of
             Inl e \<Rightarrow> Some (Inl e)
           | Inr padding \<Rightarrow>
               if 8 < padding then Some (Inl ''Invalid des crypt text'')
               else Some (Inr (take (length text - padding) buffer))
         })"

section \<open>The permutations are inverse to each other\<close>

lemma exchange_inverse:
  assumes "drop_bit k (push_bit k m) = m"
  shows "exchange k m (exchange k m p) = p"
proof -
  obtain X Y where p: "p = (X, Y)" by (cases p)
  define T where "T = (drop_bit k X XOR Y) AND m"
  have "bit (drop_bit k (push_bit k T)) n = bit T n" if "n < 32" for n
  proof -
    have "bit m n = bit (drop_bit k (push_bit k m)) n" using assms by simp
    also have "\<dots> \<longleftrightarrow> bit (push_bit k m) (k + n)" by (simp add: bit_drop_bit_eq)
    finally have "bit m n \<longrightarrow> possible_bit TYPE(u32) (k + n)" by (auto simp: bit_push_bit_iff)
    moreover have "bit T n \<longrightarrow> bit m n" by (simp add: T_def bit_and_iff)
    moreover have "bit (drop_bit k (push_bit k T)) n \<longleftrightarrow> possible_bit TYPE(u32) (k + n) \<and> bit T n"
      by (simp add: bit_drop_bit_eq bit_push_bit_iff)
    ultimately show ?thesis by blast
  qed
  then have "drop_bit k (push_bit k T) = T" by (intro bit_eqI) simp
  then have "drop_bit k (X XOR push_bit k T) = drop_bit k X XOR T" by (simp add: drop_bit_xor)
  moreover have "((drop_bit k X XOR T) XOR (Y XOR T)) AND m = T"
    by (rule bit_eqI) (auto simp: T_def bit_xor_iff bit_and_iff)
  moreover define X' Y' where "X' = X XOR push_bit k T" and "Y' = Y XOR T"
  ultimately have "(drop_bit k X' XOR Y') AND m = T" by simp
  then have "exchange k m (X', Y') = (X' XOR push_bit k T, Y' XOR T)" by (simp only: exchange_def prod.case Let_def)
  moreover have "exchange k m p = (X', Y')" by (simp add: exchange_def p T_def X'_def Y'_def Let_def)
  moreover have "X' XOR push_bit k T = X" "Y' XOR T = Y" by (simp_all add: X'_def Y'_def xor.assoc)
  ultimately show ?thesis using p by simp
qed

lemma rotate_inverse:
  fixes X :: u32
  assumes "j + k = 32"
  shows "push_bit j (push_bit k X OR drop_bit j X) OR drop_bit k (push_bit k X OR drop_bit j X) = X"
proof (rule bit_eqI)
  fix n assume "possible_bit TYPE(u32) n"
  then have n: "n < 32" by simp
  have hi: "\<not> bit X m" if "32 \<le> m" for m using that bit_imp_le_length[of X m] by auto
  show "bit (push_bit j (push_bit k X OR drop_bit j X) OR drop_bit k (push_bit k X OR drop_bit j X)) n = bit X n"
  proof (cases "j \<le> n")
    case True
    then show ?thesis using n assms hi[of "n + k"] hi[of "n + k + j"] by (simp add: bit_simps add.commute)
  next
    case False
    then show ?thesis using n assms hi[of "n + k + j"] by (simp add: bit_simps add.commute add.left_commute)
  qed
qed

lemma rotations_inverse: "rotr1 (rotl1 X) = X" "rotl1 (rotr1 X) = X"
  unfolding rotl1_def rotr1_def by (rule rotate_inverse; simp)+

lemmas des_exchanges =
  exchange_inverse[of 4 "0x0F0F0F0F"] exchange_inverse[of 16 "0x0000FFFF"]
  exchange_inverse[of 2 "0x33333333"] exchange_inverse[of 8 "0x00FF00FF"]

lemma xor_cancel: "(a XOR b) XOR b = (a :: u32)"
  by (simp add: xor.assoc)

lemma xor_both: "((X XOR ((X XOR Y) AND m)) XOR (Y XOR ((X XOR Y) AND m))) AND m = (X XOR Y) AND (m :: u32)"
  by (rule bit_eqI) (auto simp: bit_xor_iff bit_and_iff)

lemma DES_FP_IP: "DES_FP (DES_IP p) = p"
proof -
  obtain X Y where a: "exchange 16 0x0000FFFF (exchange 4 0x0F0F0F0F p) = (X, Y)" by fastforce
  obtain Y' X' where b: "exchange 8 0x00FF00FF (exchange 2 0x33333333 (Y, X)) = (Y', X')" by fastforce
  have "exchange 2 0x33333333 (exchange 8 0x00FF00FF (Y', X')) = (Y, X)"
    using des_exchanges(3,4) by (simp flip: b)
  moreover have "exchange 4 0x0F0F0F0F (exchange 16 0x0000FFFF (X, Y)) = p"
    using des_exchanges(1,2) by (simp flip: a)
  ultimately show ?thesis
    using a b xor_both[of X' "rotl1 Y'" "0xAAAAAAAA"]
    by (simp add: DES_IP_def DES_FP_def Let_def rotations_inverse xor_cancel)
qed

lemma DES_IP_FP: "DES_IP (DES_FP p) = p"
proof -
  obtain X Y where p: "p = (X, Y)" by (cases p)
  define X1 where "X1 = rotr1 X" define T where "T = (X1 XOR Y) AND 0xAAAAAAAA"
  define X2 where "X2 = X1 XOR T" define Y2 where "Y2 = rotr1 (Y XOR T)"
  obtain Y3 X3 where a: "exchange 2 0x33333333 (exchange 8 0x00FF00FF (Y2, X2)) = (Y3, X3)" by fastforce
  have fp: "DES_FP p = exchange 4 0x0F0F0F0F (exchange 16 0x0000FFFF (X3, Y3))"
    using a by (simp add: DES_FP_def p Let_def X1_def T_def X2_def Y2_def)
  have "exchange 16 0x0000FFFF (exchange 4 0x0F0F0F0F (DES_FP p)) = (X3, Y3)"
    using des_exchanges(1,2) by (simp add: fp)
  moreover have "exchange 8 0x00FF00FF (exchange 2 0x33333333 (Y3, X3)) = (Y2, X2)"
    using des_exchanges(3,4) by (simp flip: a)
  moreover have "(X2 XOR rotl1 Y2) AND 0xAAAAAAAA = T" "rotl1 Y2 XOR T = Y" "X2 XOR T = X1"
    using xor_both[of X1 Y "0xAAAAAAAA"] by (simp_all add: X2_def Y2_def rotations_inverse T_def xor_cancel)
  ultimately show ?thesis by (simp add: DES_IP_def Let_def X1_def rotations_inverse p)
qed

section \<open>Words and bytes\<close>

lemma GET_PUT: "GET_UINT32 (PUT_UINT32 n @ bs) 0 = n"
proof (rule bit_eqI)
  fix i assume "possible_bit TYPE(u32) i"
  then have "i < 32" by simp
  then consider "i < 8" | "8 \<le> i" "i < 16" | "16 \<le> i" "i < 24" | "24 \<le> i" "i < 32" by linarith
  then show "bit (GET_UINT32 (PUT_UINT32 n @ bs) 0) i = bit n i"
    by cases (auto simp: GET_UINT32_def PUT_UINT32_def bit_simps)
qed

lemma GET_PUT_4: "GET_UINT32 (PUT_UINT32 a @ PUT_UINT32 n) 4 = n"
proof -
  have "GET_UINT32 (PUT_UINT32 a @ PUT_UINT32 n) 4 = GET_UINT32 (PUT_UINT32 n @ []) 0"
    by (simp add: GET_UINT32_def PUT_UINT32_def)
  then show ?thesis by (simp only: GET_PUT)
qed

lemma PUT_GET:
  assumes "i + 3 < length b"
  shows "PUT_UINT32 (GET_UINT32 b i) = take 4 (drop i b)"
proof -
  have "take 4 (drop i b) = [b ! i, b ! (i + 1), b ! (i + 2), b ! (i + 3)]"
    using assms by (intro nth_equalityI) (auto simp: nth_Cons numeral_eq_Suc less_Suc_eq split: nat.splits)
  moreover have "ucast (drop_bit 24 (GET_UINT32 b i)) = b ! i" "ucast (drop_bit 16 (GET_UINT32 b i)) = b ! (i + 1)"
    "ucast (drop_bit 8 (GET_UINT32 b i)) = b ! (i + 2)" "ucast (GET_UINT32 b i) = b ! (i + 3)"
    unfolding GET_UINT32_def by (rule bit_eqI; auto simp: bit_simps dest: byte_bits)+
  ultimately show ?thesis by (simp add: PUT_UINT32_def)
qed

section \<open>Decryption undoes encryption\<close>

fun pairs :: "'a list \<Rightarrow> ('a \<times> 'a) list" where
  "pairs (a # b # xs) = (a, b) # pairs xs"
| "pairs xs = []"

interpretation des: feistel des_f "(XOR) :: u32 \<Rightarrow> u32 \<Rightarrow> u32"
  by unfold_locales (rule xor_cancel)

lemma des_rounds_feistel:
  "length SK mod 4 = 0 \<Longrightarrow> des_rounds SK p = feistel_run des_f (XOR) (pairs SK) p"
proof (induction SK p rule: des_rounds.induct)
  case (1 a b c d SK X Y)
  then have "length SK mod 4 = 0" by simp
  then show ?case using 1(1) by (simp add: feistel_step_def Let_def)
qed (auto simp: mod_Suc)

lemma pairs_concat: "pairs (concat (map (\<lambda>j. [f j, g j]) js)) = map (\<lambda>j. (f j, g j)) js"
  by (induction js) auto

lemma pairs_nth: "length xs = 2 * n \<Longrightarrow> pairs xs = map (\<lambda>j. (xs ! (2 * j), xs ! (2 * j + 1))) [0..<n]"
proof (induction n arbitrary: xs)
  case (Suc n)
  obtain a b ys where xs: "xs = a # b # ys" "length ys = 2 * n"
    using Suc.prems by (cases xs; cases "tl xs") auto
  have "[0..<Suc n] = 0 # map Suc [0..<n]" by (simp add: map_Suc_upt upt_conv_Cons)
  then show ?case using Suc.IH[OF xs(2)] xs(1) by (simp add: comp_def)
qed simp

lemma pairs_reverse:
  assumes "length ESK = 32"
  shows "pairs (reverse_ks ESK) = rev (pairs ESK)"
  using pairs_nth[of ESK 16] assms
  by (simp add: reverse_ks_def pairs_concat upt_rec)

lemma length_subkeys [simp]: "length (subkeys is X Y) = 2 * length is"
  by (induction "is" arbitrary: X Y) (simp_all add: Let_def)

lemma length_main_ks [simp]: "length (des_main_ks key) = 32"
  by (simp add: des_main_ks_def Let_def)

lemma length_reverse_ks [simp]: "length (reverse_ks ESK) = 32"
  by (simp add: reverse_ks_def upt_rec)

lemma length_des_crypt [simp]: "length (des_crypt SK b) = 8"
  by (simp add: des_crypt_def PUT_UINT32_def split: prod.splits)

lemma des_crypt_inverse:
  assumes "length b = 8" "length SK = 32"
  shows "des_crypt (reverse_ks SK) (des_crypt SK b) = b"
proof -
  obtain X Y where r: "des_rounds SK (DES_IP (GET_UINT32 b 0, GET_UINT32 b 4)) = (X, Y)" by fastforce
  obtain P Q where f: "DES_FP (Y, X) = (P, Q)" by fastforce
  have out: "des_crypt SK b = PUT_UINT32 P @ PUT_UINT32 Q" by (simp add: des_crypt_def r f)
  have ip: "DES_IP (P, Q) = prod.swap (X, Y)" using DES_IP_FP[of "(Y, X)"] f by simp
  have "des_rounds (reverse_ks SK) (DES_IP (P, Q)) = prod.swap (DES_IP (GET_UINT32 b 0, GET_UINT32 b 4))"
    using r des.run_inverse[of "pairs SK"] assms(2) pairs_reverse[OF assms(2)]
    by (simp add: ip des_rounds_feistel flip: r)
  moreover obtain X0 Y0 where i: "DES_IP (GET_UINT32 b 0, GET_UINT32 b 4) = (X0, Y0)" by fastforce
  moreover have "DES_FP (X0, Y0) = (GET_UINT32 b 0, GET_UINT32 b 4)" using DES_FP_IP i by metis
  ultimately have "des_crypt (reverse_ks SK) (PUT_UINT32 P @ PUT_UINT32 Q) =
      PUT_UINT32 (GET_UINT32 b 0) @ PUT_UINT32 (GET_UINT32 b 4)"
    by (simp add: des_crypt_def GET_PUT GET_PUT_4)
  also have "\<dots> = take 4 b @ take 4 (drop 4 b)" using assms(1) by (simp add: PUT_GET)
  also have "\<dots> = b" using assms(1) by (metis append_take_drop_id length_drop diff_numeral_special(3) take_all_iff numeral_le_iff order_refl add_diff_cancel_left' numeral_Bit0)
  finally show ?thesis by (simp add: out)
qed

lemma reverse_reverse_ks: "length SK = 32 \<Longrightarrow> reverse_ks (reverse_ks SK) = SK"
  by (rule nth_equalityI) (auto simp: reverse_ks_def upt_rec nth_Cons' less_Suc_eq numeral_eq_Suc)

text \<open>Blocks of encryption, one at a time.\<close>

lemma div_8: "(8 + n) div 8 = Suc (n div (8 :: nat))"
  by (simp add: div_add_self1)

lemma crypt_blocks_Cons:
  "length b = 8 \<Longrightarrow> crypt_blocks SK (b @ text) =
     (des_crypt SK b @ fst (crypt_blocks SK text), snd (crypt_blocks SK text))"
  by (drule length_8_conv) (auto split: prod.splits)

lemma crypt_blocks_short: "length text < 8 \<Longrightarrow> crypt_blocks SK text = ([], text)"
  by (induction SK "text" rule: crypt_blocks.induct) auto

lemma blocks_induct [case_names short block]:
  assumes "\<And>xs. length xs < 8 \<Longrightarrow> P xs"
    and "\<And>b xs. length b = 8 \<Longrightarrow> P xs \<Longrightarrow> P (b @ xs)"
  shows "P xs"
proof (induction "length xs" arbitrary: xs rule: less_induct)
  case less
  show ?case
  proof (cases "length xs < 8")
    case False
    then have "length (take 8 xs) = 8" "P (drop 8 xs)" using less[of "drop 8 xs"] by auto
    then have "P (take 8 xs @ drop 8 xs)" by (rule assms(2))
    then show ?thesis by simp
  qed (rule assms(1))
qed

text \<open>The shape of the encrypted text: whole blocks, and less than a block left.\<close>

lemma crypt_blocks_shape:
  "length (fst (crypt_blocks SK text)) = 8 * (length text div 8) \<and>
   snd (crypt_blocks SK text) = drop (8 * (length text div 8)) text"
proof (induction "text" rule: blocks_induct)
  case (block b xs)
  then show ?case using block by (simp add: crypt_blocks_Cons div_8)
qed (simp add: crypt_blocks_short)

lemma crypt_blocks_inverse:
  assumes "length SK = 32" "length t = 8"
  shows "fst (crypt_blocks (reverse_ks SK) (fst (crypt_blocks SK text) @ des_crypt SK t)) =
    take (8 * (length text div 8)) text @ t"
proof (induction "text" rule: blocks_induct)
  case (short xs)
  then show ?case
    using crypt_blocks_Cons[of "des_crypt SK t" "reverse_ks SK" "[]"] des_crypt_inverse[OF assms(2,1)]
    by (simp add: crypt_blocks_short)
next
  case (block b xs)
  then show ?case using block des_crypt_inverse[OF block(1) assms(1)] by (simp add: crypt_blocks_Cons div_8)
qed

section \<open>The padding\<close>

lemma pad_scan_zeros:
  "j + n \<le> 7 \<Longrightarrow> pad_scan sz (replicate n 0 @ 0x80 # bs) j p = Some (Inr (p + n))"
  by (induction n arbitrary: j p) auto

text \<open>When the loop leaves the buffer.\<close>

lemma pad_scan_None:
  "pad_scan sz bs j p = None \<longleftrightarrow> sz = 8 \<and> (bs = [] \<or> (\<forall>b\<in>set bs. b = 0) \<and> j + length bs \<le> 8)"
  by (induction sz bs j p rule: pad_scan.induct) auto

lemma pad_scan_padded:
  assumes "length rest < 8"
  shows "pad_scan sz (rev (xs @ des_tail rest)) 0 1 = Some (Inr (8 - length rest))"
proof -
  have "rev (xs @ des_tail rest) = replicate (7 - length rest) 0 @ 0x80 # rev (xs @ rest)"
    by (simp add: des_tail_def)
  then show ?thesis using pad_scan_zeros[of 0 "7 - length rest" sz "rev (xs @ rest)" 1] assms by simp
qed

lemma length_des_tail [simp]: "length rest < 8 \<Longrightarrow> length (des_tail rest) = 8"
  by (simp add: des_tail_def)

text \<open>What is decoded is what was encoded, whatever its length.\<close>


text \<open>
  Decoding reads outside its buffer exactly when the text is a single block that decrypts to zeros.
\<close>


end
