(* ===== verification/Codec.thy ===== *)
theory Codec
  imports C_Lib
begin

text \<open>
  The digests and the text encodings of \<^verbatim>\<open>lua-crypt.c\<close>: \<open>hashkey\<close>, \<open>hmac64\<close> and \<open>hmac_hash\<close>,
  hexadecimal, base64 and the xor of two strings. A Lua string is the list of its bytes; an
  error of \<open>luaL_error\<close> is \<open>Inl\<close> of its message. The buffers of the C code are not modelled,
  and the lengths of the results show that they are large enough.
\<close>

section \<open>Little endian words\<close>

definition get_le32 :: "u8 list \<Rightarrow> nat \<Rightarrow> u32" where
  "get_le32 x i = ucast (x ! i) OR push_bit 8 (ucast (x ! (i + 1))) OR
     push_bit 16 (ucast (x ! (i + 2))) OR push_bit 24 (ucast (x ! (i + 3)))"

definition put_le32 :: "u32 \<Rightarrow> u8 list" where
  "put_le32 r = [ucast r, ucast (drop_bit 8 r), ucast (drop_bit 16 r), ucast (drop_bit 24 r)]"

section \<open>Digests\<close>

definition Hash_step :: "u32 \<times> u32 \<Rightarrow> u8 \<Rightarrow> u32 \<times> u32" where
  "Hash_step h c = (case h of (djb_hash, js_hash) \<Rightarrow>
     (djb_hash + (push_bit 5 djb_hash + ucast c),
      js_hash XOR (push_bit 5 js_hash + ucast c + drop_bit 2 js_hash)))"

definition Hash :: "u8 list \<Rightarrow> u8 list" where
  "Hash str = (let (djb_hash, js_hash) = foldl Hash_step (5381, 1315423911) str
     in put_le32 djb_hash @ put_le32 js_hash)"

definition lhashkey :: "u8 list \<Rightarrow> u8 list" where
  "lhashkey key = Hash key"

definition hmac_k :: "u32 list" where
  "hmac_k = [
     0xd76aa478, 0xe8c7b756, 0x242070db, 0xc1bdceee, 0xf57c0faf, 0x4787c62a, 0xa8304613, 0xfd469501,
     0x698098d8, 0x8b44f7af, 0xffff5bb1, 0x895cd7be, 0x6b901122, 0xfd987193, 0xa679438e, 0x49b40821,
     0xf61e2562, 0xc040b340, 0x265e5a51, 0xe9b6c7aa, 0xd62f105d, 0x02441453, 0xd8a1e681, 0xe7d3fbc8,
     0x21e1cde6, 0xc33707d6, 0xf4d50d87, 0x455a14ed, 0xa9e3e905, 0xfcefa3f8, 0x676f02d9, 0x8d2a4c8a,
     0xfffa3942, 0x8771f681, 0x6d9d6122, 0xfde5380c, 0xa4beea44, 0x4bdecfa9, 0xf6bb4b60, 0xbebfbc70,
     0x289b7ec6, 0xeaa127fa, 0xd4ef3085, 0x04881d05, 0xd9d4d039, 0xe6db99e5, 0x1fa27cf8, 0xc4ac5665,
     0xf4292244, 0x432aff97, 0xab9423a7, 0xfc93a039, 0x655b59c3, 0x8f0ccc92, 0xffeff47d, 0x85845dd1,
     0x6fa87e4f, 0xfe2ce6e0, 0xa3014314, 0x4e0811a1, 0xf7537e82, 0xbd3af235, 0x2ad7d2bb, 0xeb86d391]"

definition hmac_r :: "nat list" where
  "hmac_r = [
     7, 12, 17, 22, 7, 12, 17, 22, 7, 12, 17, 22, 7, 12, 17, 22,
     5, 9, 14, 20, 5, 9, 14, 20, 5, 9, 14, 20, 5, 9, 14, 20,
     4, 11, 16, 23, 4, 11, 16, 23, 4, 11, 16, 23, 4, 11, 16, 23,
     6, 10, 15, 21, 6, 10, 15, 21, 6, 10, 15, 21, 6, 10, 15, 21]"

definition LEFTROTATE :: "u32 \<Rightarrow> nat \<Rightarrow> u32" where
  "LEFTROTATE x c = push_bit c x OR drop_bit (32 - c) x"

definition hmac_round :: "u32 list \<Rightarrow> u32 \<times> u32 \<times> u32 \<times> u32 \<Rightarrow> nat \<Rightarrow> u32 \<times> u32 \<times> u32 \<times> u32" where
  "hmac_round w s i = (case s of (a, b, c, d) \<Rightarrow>
     let (f, g) =
       (if i < 16 then ((b AND c) OR (NOT b AND d), i)
        else if i < 32 then ((d AND b) OR (NOT d AND c), (5 * i + 1) mod 16)
        else if i < 48 then (b XOR c XOR d, (3 * i + 5) mod 16)
        else (c XOR (b OR NOT d), (7 * i) mod 16))
     in (d, b + LEFTROTATE (a + f + hmac_k ! i + w ! g) (hmac_r ! i), b, c))"

definition hmac :: "u32 \<times> u32 \<Rightarrow> u32 \<times> u32 \<Rightarrow> u32 \<times> u32" where
  "hmac x y =
     (let w = concat (replicate 4 [snd x, fst x, snd y, fst y]);
          (a, b, c, d) = foldl (hmac_round w) (0x67452301, 0xefcdab89, 0x98badcfe, 0x10325476) [0..<64]
      in (c XOR d, a XOR b))"

definition read64 :: "u8 list \<Rightarrow> u8 list \<Rightarrow> string + (u32 \<times> u32) \<times> (u32 \<times> u32)" where
  "read64 x y =
     (if length x \<noteq> 8 then Inl ''Invalid uint64 x''
      else if length y \<noteq> 8 then Inl ''Invalid uint64 y''
      else Inr ((get_le32 x 0, get_le32 x 4), (get_le32 y 0, get_le32 y 4)))"

definition pushqword :: "u32 \<times> u32 \<Rightarrow> u8 list" where
  "pushqword r = put_le32 (fst r) @ put_le32 (snd r)"

definition lhmac64 :: "u8 list \<Rightarrow> u8 list \<Rightarrow> string + u8 list" where
  "lhmac64 x y = (case read64 x y of Inl e \<Rightarrow> Inl e | Inr (x, y) \<Rightarrow> Inr (pushqword (hmac x y)))"

definition lhmac_hash :: "u8 list \<Rightarrow> u8 list \<Rightarrow> string + u8 list" where
  "lhmac_hash x text =
     (if length x \<noteq> 8 then Inl ''Invalid uint64 key''
      else let key = (get_le32 x 0, get_le32 x 4); h = Hash text;
               htext = (get_le32 h 0, get_le32 h 4)
           in Inr (pushqword (hmac htext key)))"

section \<open>Hexadecimal\<close>

text \<open>The digits \<open>0123456789abcdef\<close> as bytes.\<close>

definition hex :: "u8 list" where
  "hex = [48, 49, 50, 51, 52, 53, 54, 55, 56, 57, 97, 98, 99, 100, 101, 102]"

definition ltohex :: "u8 list \<Rightarrow> u8 list" where
  "ltohex text = concat (map (\<lambda>b. [hex ! unat (drop_bit 4 b), hex ! unat (b AND 0xf)]) text)"

text \<open>
  \<open>HEX(v,c)\<close> compares as signed characters and assigns to a byte: everything but a decimal
  digit is reduced by \<open>'a' - 10\<close> modulo 256.
\<close>

definition HEX :: "u8 \<Rightarrow> u8" where
  "HEX c = (if 48 \<le> sint c \<and> sint c \<le> 57 then c - 48 else c - 97 + 10)"

fun fromhex_loop :: "u8 list \<Rightarrow> string + u8 list" where
  "fromhex_loop (a # b # text) =
     (let hi = HEX a; low = HEX b in
      if 16 < hi \<or> 16 < low then Inl ''Invalid hex text''
      else (case fromhex_loop text of Inl e \<Rightarrow> Inl e | Inr r \<Rightarrow> Inr ((push_bit 4 hi OR low) # r)))"
| "fromhex_loop text = Inr []"

definition lfromhex :: "u8 list \<Rightarrow> string + u8 list" where
  "lfromhex text =
     (if odd (length text) then Inl (''Invalid hex text size '' @ print_d (to_int32 (int (length text))))
      else fromhex_loop text)"

section \<open>Base64\<close>

definition encoding :: "u8 list" where
  "encoding = map of_nat ([65..<91] @ [97..<123] @ [48..<58] @ [43, 47])"

fun lb64encode :: "u8 list \<Rightarrow> u8 list" where
  "lb64encode (x # y # z # text) =
     (let v = push_bit 16 (ucast x) OR push_bit 8 (ucast y) OR ucast z :: u32 in
      [encoding ! unat (drop_bit 18 v), encoding ! unat (drop_bit 12 v AND 0x3f),
       encoding ! unat (drop_bit 6 v AND 0x3f), encoding ! unat (v AND 0x3f)] @ lb64encode text)"
| "lb64encode [x] =
     (let v = ucast x :: u32 in
      [encoding ! unat (drop_bit 2 v), encoding ! unat (push_bit 4 (v AND 3)), 61, 61])"
| "lb64encode [x, y] =
     (let v = push_bit 8 (ucast x) OR ucast y :: u32 in
      [encoding ! unat (drop_bit 10 v), encoding ! unat (drop_bit 4 v AND 0x3f),
       encoding ! unat (push_bit 2 (v AND 0xf)), 61])"
| "lb64encode [] = []"

definition decoding :: "int list" where
  "decoding = [
     62, -1, -1, -1, 63, 52, 53, 54, 55, 56, 57, 58, 59, 60, 61, -1, -1, -1, -2, -1,
     -1, -1, 0, 1, 2, 3, 4, 5, 6, 7, 8, 9, 10, 11, 12, 13, 14, 15, 16, 17,
     18, 19, 20, 21, 22, 23, 24, 25, -1, -1, -1, -1, -1, -1, 26, 27, 28, 29, 30, 31,
     32, 33, 34, 35, 36, 37, 38, 39, 40, 41, 42, 43, 44, 45, 46, 47, 48, 49, 50, 51]"

definition b64index :: "u8 \<Rightarrow> int" where
  "b64index c =
     (if c < 43 then - 1
      else let c = c - 43 in if length decoding \<le> unat c then - 1 else decoding ! unat c)"

text \<open>The inner loop: the next four indexes, without the characters outside the alphabet.\<close>

fun b64group :: "nat \<Rightarrow> u8 list \<Rightarrow> (int list \<times> u8 list) option" where
  "b64group 0 text = Some ([], text)"
| "b64group (Suc j) [] = None"
| "b64group (Suc j) (b # text) =
     (if b64index b = - 1 then b64group (Suc j) text
      else map_option (\<lambda>(c, rest). (b64index b # c, rest)) (b64group j text))"

definition b64padding :: "int list \<Rightarrow> nat" where
  "b64padding c = length (filter (\<lambda>x. x = - 2) c)"

definition b64output :: "int list \<Rightarrow> string + u8 list" where
  "b64output c =
     (let v = (\<lambda>i. word_of_int (c ! i) :: u32) in
      if b64padding c = 0 then
        (let v = push_bit 18 (v 0) OR push_bit 12 (v 1) OR push_bit 6 (v 2) OR v 3
         in Inr [ucast (drop_bit 16 v), ucast (drop_bit 8 v), ucast v])
      else if b64padding c = 1 then
        (if c ! 3 \<noteq> - 2 \<or> v 2 AND 3 \<noteq> 0 then Inl ''Invalid base64 text''
         else let v = push_bit 10 (v 0) OR push_bit 4 (v 1) OR drop_bit 2 (v 2)
              in Inr [ucast (drop_bit 8 v), ucast v])
      else if b64padding c = 2 then
        (if c ! 3 \<noteq> - 2 \<or> c ! 2 \<noteq> - 2 \<or> v 1 AND 0xf \<noteq> 0 then Inl ''Invalid base64 text''
         else Inr [ucast (push_bit 2 (v 0) OR drop_bit 4 (v 1))])
      else Inl ''Invalid base64 text'')"

lemma b64group_shorter: "b64group j text = Some (c, rest) \<Longrightarrow> length rest + j \<le> length text \<and> length c = j"
  by (induction j "text" arbitrary: c rule: b64group.induct) (fastforce split: if_splits)+

function lb64decode :: "u8 list \<Rightarrow> string + u8 list" where
  "lb64decode text =
     (if text = [] then Inr []
      else case b64group 4 text of
          None \<Rightarrow> Inl ''Invalid base64 text''
        | Some (c, rest) \<Rightarrow> (case b64output c of
            Inl e \<Rightarrow> Inl e
          | Inr out \<Rightarrow> (case lb64decode rest of Inl e \<Rightarrow> Inl e | Inr r \<Rightarrow> Inr (out @ r))))"
  by pat_completeness auto
termination
  by (relation "measure length") (auto dest: b64group_shorter)

declare lb64decode.simps [simp del]

section \<open>Xor\<close>

definition lxor_str :: "u8 list \<Rightarrow> u8 list \<Rightarrow> string + u8 list" where
  "lxor_str s1 s2 =
     (if s2 = [] then Inl ''Can't xor empty string''
      else Inr (map (\<lambda>i. s1 ! i XOR s2 ! (i mod length s2)) [0..<length s1]))"

section \<open>Facts about words\<close>

lemma byte_all:
  assumes "list_all P (map word_of_nat [0..<256])"
  shows "P (b :: u8)"
proof -
  have "unat b < 256" using unsigned_less[of b, where 'a = nat] by simp
  then have "word_of_nat (unat b) \<in> set (map (word_of_nat :: nat \<Rightarrow> u8) [0..<256])"
    unfolding set_map set_upt by (intro imageI) simp
  then have "P (word_of_nat (unat b))" using assms unfolding list_all_iff by blast
  then show ?thesis by simp
qed

lemma ucast_ucast_u8: "ucast (ucast (b :: u8) :: u32) = b"
  by (rule bit_eqI) (auto simp: bit_simps dest: byte_bits)

lemma get_put_le32: "get_le32 (put_le32 n @ bs) 0 = n" "get_le32 (put_le32 a @ put_le32 n) 4 = n"
proof -
  have *: "get_le32 (put_le32 n @ bs) 0 = n" for n bs
  proof (rule bit_eqI)
    fix i assume "possible_bit TYPE(u32) i"
    then have "i < 32" by simp
    then consider "i < 8" | "8 \<le> i" "i < 16" | "16 \<le> i" "i < 24" | "24 \<le> i" "i < 32" by linarith
    then show "bit (get_le32 (put_le32 n @ bs) 0) i = bit n i"
      by cases (auto simp: get_le32_def put_le32_def bit_simps)
  qed
  have "get_le32 (put_le32 a @ put_le32 n) 4 = get_le32 (put_le32 n @ []) 0"
    by (simp add: get_le32_def put_le32_def)
  then show "get_le32 (put_le32 a @ put_le32 n) 4 = n" by (simp only: *)
  show "get_le32 (put_le32 n @ bs) 0 = n" by (rule *)
qed

lemma length_put_le32 [simp]: "length (put_le32 n) = 4"
  by (simp add: put_le32_def)

lemma read64_pushqword: "read64 (pushqword x) (pushqword y) = Inr (x, y)"
  by (simp add: read64_def pushqword_def get_put_le32)

section \<open>Decoding undoes encoding\<close>

lemma HEX_hex: "n < 16 \<Longrightarrow> HEX (hex ! n) = of_nat n"
proof -
  have "list_all (\<lambda>n. HEX (hex ! n) = of_nat n) [0..<16]" by (simp add: HEX_def hex_def upt_rec)
  then show "n < 16 \<Longrightarrow> HEX (hex ! n) = of_nat n" by (simp add: list_all_iff)
qed

text \<open>The characters that count as digits: \<open>0\<close> to \<open>9\<close>, and all from \<open>W\<close> to \<open>g\<close>.\<close>

text \<open>
  The bytes that \<open>hexdecode\<close> takes for digits are \<open>0\<close> to
  \<open>9\<close> and all of \<open>W\<close> to \<open>g\<close>, not only \<open>a\<close> to
  \<open>f\<close>.
\<close>

lemma HEX_accepts: "HEX c \<le> 16 \<longleftrightarrow> (48 \<le> c \<and> c \<le> 57) \<or> (87 \<le> c \<and> c \<le> 103)"
  by (rule byte_all) code_simp

lemma nibbles: "push_bit 4 (drop_bit 4 b) OR (b AND 0xf) = (b :: u8)"
  "drop_bit 4 b < 16" "b AND 0xf < 16"
proof -
  have "list_all (\<lambda>b :: u8. push_bit 4 (drop_bit 4 b) OR (b AND 0xf) = b \<and> drop_bit 4 b < 16 \<and> b AND 0xf < 16)
    (map word_of_nat [0..<256])"
    by code_simp
  from byte_all[OF this, of b]
  show "push_bit 4 (drop_bit 4 b) OR (b AND 0xf) = (b :: u8)" "drop_bit 4 b < 16" "b AND 0xf < 16" by auto
qed

text \<open>
  \<open>hexdecode\<close> undoes \<open>hexencode\<close> on every string.
\<close>

lemma fromhex_tohex: "lfromhex (ltohex text) = Inr text"
proof -
  have "fromhex_loop (ltohex text) = Inr text"
  proof (induction "text")
    case (Cons b t)
    have "unat (drop_bit 4 b) < 16" "unat (b AND 0xf) < 16"
      using nibbles(2,3)[of b] by (simp_all only: word_less_nat_alt) simp_all
    then have "HEX (hex ! unat (drop_bit 4 b)) = drop_bit 4 b" "HEX (hex ! unat (b AND 0xf)) = b AND 0xf"
      by (simp_all add: HEX_hex)
    moreover have "\<not> 16 < drop_bit 4 b" "\<not> 16 < b AND 0xf" using nibbles(2,3)[of b] by (auto dest: order.strict_trans)
    ultimately show ?case using Cons nibbles(1)[of b] by (simp add: ltohex_def Let_def)
  qed (simp add: ltohex_def)
  moreover have "length (ltohex text) = 2 * length text" by (induction "text") (auto simp: ltohex_def)
  ultimately show ?thesis by (simp add: lfromhex_def)
qed

lemma b64index_encoding: "n < 64 \<Longrightarrow> b64index (encoding ! n) = int n"
proof -
  have "list_all (\<lambda>n. b64index (encoding ! n) = int n) [0..<64]" by code_simp
  then show "n < 64 \<Longrightarrow> b64index (encoding ! n) = int n" by (simp add: list_all_iff)
qed

lemma b64index_pad: "b64index 61 = - 2"
  by code_simp

lemma mask_63: "unat (w AND 0x3f :: u32) < 64"
  using unat_and_mask[of w 6] by (simp add: mask_eq_exp_minus_1)

lemma b64group_4:
  assumes "b64index a \<noteq> - 1" "b64index b \<noteq> - 1" "b64index c \<noteq> - 1" "b64index d \<noteq> - 1"
  shows "b64group 4 (a # b # c # d # rest) = Some ([b64index a, b64index b, b64index c, b64index d], rest)"
  using assms by (simp add: numeral_eq_Suc)

lemma lb64decode_group:
  assumes "b64index a \<noteq> - 1" "b64index b \<noteq> - 1" "b64index c \<noteq> - 1" "b64index d \<noteq> - 1"
    and "b64output [b64index a, b64index b, b64index c, b64index d] = Inr out" "lb64decode rest = Inr r"
  shows "lb64decode (a # b # c # d # rest) = Inr (out @ r)"
  using assms by (subst lb64decode.simps) (simp add: b64group_4)

lemma masks: "0x3f = (mask 6 :: u32)" "0xf = (mask 4 :: u32)" "3 = (mask 2 :: u32)"
  by (simp_all add: mask_eq_exp_minus_1)

lemma b64_three:
  fixes v :: u32
  assumes "\<And>i. bit v i \<Longrightarrow> i < 24"
  shows "push_bit 18 (drop_bit 18 v) OR push_bit 12 (drop_bit 12 v AND 0x3f) OR
    push_bit 6 (drop_bit 6 v AND 0x3f) OR (v AND 0x3f) = v" "drop_bit 18 v AND 0x3f = drop_bit 18 v"
proof -
  show "drop_bit 18 v AND 0x3f = drop_bit 18 v"
    by (rule bit_eqI) (auto simp: masks bit_simps dest: assms)
  show "push_bit 18 (drop_bit 18 v) OR push_bit 12 (drop_bit 12 v AND 0x3f) OR
    push_bit 6 (drop_bit 6 v AND 0x3f) OR (v AND 0x3f) = v"
  proof (rule bit_eqI)
    fix i assume "possible_bit TYPE(u32) i"
    then have "i < 32" by simp
    then consider "i < 6" | "6 \<le> i" "i < 12" | "12 \<le> i" "i < 18" | "18 \<le> i" "i < 32" by linarith
    then show "bit (push_bit 18 (drop_bit 18 v) OR push_bit 12 (drop_bit 12 v AND 0x3f) OR
        push_bit 6 (drop_bit 6 v AND 0x3f) OR (v AND 0x3f)) i = bit v i"
      by cases (auto simp: masks bit_simps)
  qed
qed

lemma b64_one:
  fixes x :: u8
  defines "v \<equiv> ucast x :: u32"
  shows "drop_bit 2 v AND 0x3f = drop_bit 2 v" "push_bit 4 (v AND 3) AND 0x3f = push_bit 4 (v AND 3)"
    "push_bit 4 (v AND 3) AND 0xf = 0" "ucast (push_bit 2 (drop_bit 2 v) OR drop_bit 4 (push_bit 4 (v AND 3))) = x"
proof -
  have v8: "bit v i \<Longrightarrow> i < 8" for i by (auto simp: v_def bit_simps dest: byte_bits)
  show "drop_bit 2 v AND 0x3f = drop_bit 2 v" "push_bit 4 (v AND 3) AND 0x3f = push_bit 4 (v AND 3)"
    "push_bit 4 (v AND 3) AND 0xf = 0"
    by (rule bit_eqI; auto simp: masks bit_simps dest: v8)+
  have "push_bit 2 (drop_bit 2 v) OR drop_bit 4 (push_bit 4 (v AND 3)) = v"
  proof (rule bit_eqI)
    fix i assume "possible_bit TYPE(u32) i"
    then consider "i < 2" | "2 \<le> i" "i < 32" by fastforce
    then show "bit (push_bit 2 (drop_bit 2 v) OR drop_bit 4 (push_bit 4 (v AND 3))) i = bit v i"
      by cases (auto simp: masks bit_simps dest: v8 simp flip: add_2_eq_Suc)
  qed
  then show "ucast (push_bit 2 (drop_bit 2 v) OR drop_bit 4 (push_bit 4 (v AND 3))) = x"
    by (simp add: v_def ucast_ucast_u8)
qed

lemma b64_two:
  fixes x y :: u8
  defines "v \<equiv> push_bit 8 (ucast x) OR ucast y :: u32"
  shows "drop_bit 10 v AND 0x3f = drop_bit 10 v" "push_bit 2 (v AND 0xf) AND 0x3f = push_bit 2 (v AND 0xf)"
    "push_bit 2 (v AND 0xf) AND 3 = 0"
    "push_bit 10 (drop_bit 10 v) OR push_bit 4 (drop_bit 4 v AND 0x3f) OR drop_bit 2 (push_bit 2 (v AND 0xf)) = v"
    "ucast (drop_bit 8 v) = x" "ucast v = y"
proof -
  have v: "bit v i \<longleftrightarrow> bit x (i - 8) \<and> 8 \<le> i \<or> bit y i" for i
    using byte_bits[of x "i - 8"] byte_bits[of y i] by (auto simp: v_def bit_simps)
  have v16: "bit v i \<Longrightarrow> i < 16" for i using v[of i] byte_bits[of x "i - 8"] byte_bits[of y i] by auto
  show "drop_bit 10 v AND 0x3f = drop_bit 10 v" "push_bit 2 (v AND 0xf) AND 0x3f = push_bit 2 (v AND 0xf)"
    "push_bit 2 (v AND 0xf) AND 3 = 0"
    by (rule bit_eqI; auto simp: masks bit_simps dest: v16)+
  show "ucast (drop_bit 8 v) = x" "ucast v = y"
    by (rule bit_eqI; auto simp: bit_simps v dest: byte_bits)+
  show "push_bit 10 (drop_bit 10 v) OR push_bit 4 (drop_bit 4 v AND 0x3f) OR drop_bit 2 (push_bit 2 (v AND 0xf)) = v"
  proof (rule bit_eqI)
    fix i assume "possible_bit TYPE(u32) i"
    then have "i < 32" by simp
    then consider "i < 4" | "4 \<le> i" "i < 10" | "10 \<le> i" "i < 32" by linarith
    then show "bit (push_bit 10 (drop_bit 10 v) OR push_bit 4 (drop_bit 4 v AND 0x3f) OR
        drop_bit 2 (push_bit 2 (v AND 0xf))) i = bit v i"
      by cases (auto simp: masks bit_simps)
  qed
qed

lemma b64index_word:
  "w AND 0x3f = w \<Longrightarrow> b64index (encoding ! unat w) = uint (w :: u32)"
  using b64index_encoding[of "unat w"] mask_63[of w] by simp

lemma uint_not_pad: "uint (w :: u32) \<noteq> - 2" "uint w \<noteq> - 1"
  using unsigned_greater_eq[of w, where 'a = int] by linarith+

lemma b64output_0:
  "b64output [uint a, uint b, uint c, uint d] =
    (let v = push_bit 18 a OR push_bit 12 b OR push_bit 6 c OR d :: u32
     in Inr [ucast (drop_bit 16 v), ucast (drop_bit 8 v), ucast v])"
  by (simp add: b64output_def b64padding_def uint_not_pad)

lemma b64output_1:
  "c AND 3 = 0 \<Longrightarrow> b64output [uint a, uint b, uint c, - 2] =
    (let v = push_bit 10 a OR push_bit 4 b OR drop_bit 2 c :: u32
     in Inr [ucast (drop_bit 8 v), ucast v])"
  by (simp add: b64output_def b64padding_def uint_not_pad)

lemma b64output_2:
  "b AND 0xf = 0 \<Longrightarrow> b64output [uint a, uint b, - 2, - 2] =
    Inr [ucast (push_bit 2 a OR drop_bit 4 b :: u32)]"
  by (simp add: b64output_def b64padding_def uint_not_pad)

lemma b64_bytes:
  fixes x y z :: u8
  defines "v \<equiv> push_bit 16 (ucast x) OR push_bit 8 (ucast y) OR ucast z :: u32"
  shows "ucast (drop_bit 16 v) = x" "ucast (drop_bit 8 v) = y" "ucast v = z" "\<And>i. bit v i \<Longrightarrow> i < 24"
proof -
  have v: "bit v i \<longleftrightarrow> bit x (i - 16) \<and> 16 \<le> i \<or> bit y (i - 8) \<and> 8 \<le> i \<or> bit z i" for i
    using byte_bits[of x "i - 16"] byte_bits[of y "i - 8"] byte_bits[of z i] by (auto simp: v_def bit_simps)
  show "ucast (drop_bit 16 v) = x" "ucast (drop_bit 8 v) = y" "ucast v = z"
    by (rule bit_eqI; auto simp: bit_simps v dest: byte_bits)+
  show "bit v i \<Longrightarrow> i < 24" for i
    using v[of i] byte_bits[of x "i - 16"] byte_bits[of y "i - 8"] byte_bits[of z i] by auto
qed


lemma length_b64encode: "length (lb64encode text) = (length text + 2) div 3 * 4"
proof (induction "text" rule: lb64encode.induct)
  case (1 x y z t)
  have "(length (x # y # z # t) + 2) div 3 = Suc ((length t + 2) div 3)" by simp
  then show ?case using 1 by (simp add: Let_def)
qed (simp_all add: Let_def)

text \<open>The decoder writes at most \<open>decode_sz\<close> bytes.\<close>

lemma b64output_length: "b64output c = Inr out \<Longrightarrow> length out \<le> 3"
  by (auto simp: b64output_def Let_def split: if_splits)

text \<open>
  The decoder of base64 never writes more than the \<open>decode_sz\<close> bytes of its
  buffer.
\<close>

lemma length_b64decode: "lb64decode text = Inr out \<Longrightarrow> length out \<le> (length text + 3) div 4 * 3"
proof (induction "text" arbitrary: out rule: lb64decode.induct)
  case (1 t)
  show ?case
  proof (cases "t = []")
    case True
    then show ?thesis using "1.prems" by (simp add: lb64decode.simps)
  next
    case False
    then obtain c rest o1 r where *: "b64group 4 t = Some (c, rest)" "b64output c = Inr o1"
      "lb64decode rest = Inr r" "out = o1 @ r"
      using "1.prems" by (subst (asm) lb64decode.simps) (auto split: option.splits sum.splits)
    then have "length r \<le> (length rest + 3) div 4 * 3" using "1.IH" False by blast
    moreover have "length rest + 4 \<le> length t" using b64group_shorter[OF *(1)] by simp
    then have "(length rest + 3) div 4 + 1 \<le> (length t + 3) div 4" by linarith
    ultimately show ?thesis using b64output_length[OF *(2)] *(4) by simp
  qed
qed

text \<open>
  Applying \<open>xor_str\<close> twice with the same key gives the string back.
\<close>

lemma xor_str_twice:
  assumes "s2 \<noteq> []"
  shows "\<exists>e. lxor_str s1 s2 = Inr e \<and> length e = length s1 \<and> lxor_str e s2 = Inr s1"
  using assms by (auto simp: lxor_str_def xor.assoc intro: nth_equalityI)

end
