(* ===== verification/Dh.thy ===== *)
theory Dh
  imports Codec
begin

text \<open>
  The Diffie-Hellman exchange of \<^verbatim>\<open>lua-crypt.c\<close> over 64-bit words: multiplication and power modulo
  \<open>P\<close> without a wider type, \<open>dhexchange\<close> and \<open>dhsecret\<close>. The multiplication loop ends for
  every argument; the recursion of the power does not end for the exponent 0, so that
  its model is partial, with \<open>None\<close> for a call that never returns.
\<close>

definition DH_P :: u64 where
  "DH_P = 0xffffffffffffffc5"

function mul_loop :: "u64 \<Rightarrow> u64 \<Rightarrow> u64 \<Rightarrow> u64" where
  "mul_loop a b m =
     (if b = 0 then m
      else let m = (if b AND 1 \<noteq> 0 then (let t = DH_P - a in if t \<le> m then m - t else m + a) else m);
               a = (if DH_P - a \<le> a then a * 2 - DH_P else a * 2)
           in mul_loop a (drop_bit 1 b) m)"
  by pat_completeness auto
termination
proof (relation "measure (\<lambda>(a, b, m). unat b)", goal_cases)
  case (2 a b m)
  then show ?case by (simp add: unat_drop_bit unat_gt_0)
qed simp

declare mul_loop.simps [simp del]

definition mul_mod_p :: "u64 \<Rightarrow> u64 \<Rightarrow> u64" where
  "mul_mod_p a b = mul_loop a b 0"

partial_function (option) pow_mod_p :: "u64 \<Rightarrow> u64 \<Rightarrow> u64 option" where
  "pow_mod_p a b =
     (if b = 1 then Some a
      else Option.bind (pow_mod_p a (drop_bit 1 b)) (\<lambda>t.
        let t = mul_mod_p t t
        in Some (if b mod 2 \<noteq> 0 then mul_mod_p t a else t)))"

definition powmodp :: "u64 \<Rightarrow> u64 \<Rightarrow> u64 option" where
  "powmodp a b = pow_mod_p (if DH_P < a then a mod DH_P else a) b"

definition push64 :: "u64 \<Rightarrow> u8 list" where
  "push64 r = [ucast r, ucast (drop_bit 8 r), ucast (drop_bit 16 r), ucast (drop_bit 24 r),
     ucast (drop_bit 32 r), ucast (drop_bit 40 r), ucast (drop_bit 48 r), ucast (drop_bit 56 r)]"

definition word64 :: "u32 \<times> u32 \<Rightarrow> u64" where
  "word64 x = ucast (fst x) OR push_bit 32 (ucast (snd x))"

definition ldhsecret :: "u8 list \<Rightarrow> u8 list \<Rightarrow> (string + u8 list) option" where
  "ldhsecret x y = (case read64 x y of
     Inl e \<Rightarrow> Some (Inl e)
   | Inr (x, y) \<Rightarrow>
       let xx = word64 x; yy = word64 y in
       if xx = 0 \<or> yy = 0 then Some (Inl ''Can't be 0'')
       else map_option (\<lambda>r. Inr (push64 r)) (powmodp xx yy))"

definition DH_G :: u64 where
  "DH_G = 5"

definition ldhexchange :: "u8 list \<Rightarrow> (string + u8 list) option" where
  "ldhexchange x =
     (if length x \<noteq> 8 then Some (Inl ''Invalid dh uint64 key'')
      else let x64 = word64 (get_le32 x 0, get_le32 x 4) in
        if x64 = 0 then Some (Inl ''Can't be 0'')
        else map_option (\<lambda>r. Inr (push64 r)) (powmodp DH_G x64))"

section \<open>Arithmetic modulo P\<close>

lemma unat_DH_P: "unat DH_P = 18446744073709551557"
  by (simp add: DH_P_def)

lemma double_mod:
  assumes "unat a \<le> unat DH_P"
  defines "d \<equiv> if DH_P - a \<le> a then a * 2 - DH_P else a * 2"
  shows "unat d \<le> unat DH_P" "unat d mod unat DH_P = 2 * unat a mod unat DH_P"
proof -
  have s: "unat (DH_P - a) = unat DH_P - unat a" using assms(1) by (simp add: unat_sub word_le_nat_alt)
  have "unat d = 2 * unat a - unat DH_P" if "DH_P - a \<le> a"
  proof -
    have eq: "a * 2 - DH_P = a - (DH_P - a)" by (simp add: algebra_simps)
    have "unat (a * 2 - DH_P) = unat a - unat (DH_P - a)" unfolding eq by (rule unat_sub[OF that])
    then show ?thesis using that s assms(1) by (simp add: d_def)
  qed
  moreover have "unat d = 2 * unat a" if "\<not> DH_P - a \<le> a"
  proof -
    have "unat a + unat a < 2 ^ 64" using that s assms(1) by (simp add: word_le_nat_alt unat_DH_P)
    then have "unat (a * 2) = 2 * unat a" by (simp add: unat_word_ariths)
    then show ?thesis using that by (simp add: d_def)
  qed
  ultimately show "unat d \<le> unat DH_P" "unat d mod unat DH_P = 2 * unat a mod unat DH_P"
    using s assms(1) by (cases "DH_P - a \<le> a"; simp add: word_le_nat_alt le_mod_geq)+
qed

lemma add_mod:
  assumes "unat a \<le> unat DH_P" "unat m < unat DH_P"
  defines "s \<equiv> if DH_P - a \<le> m then m - (DH_P - a) else m + a"
  shows "unat s < unat DH_P" "unat s = (unat m + unat a) mod unat DH_P"
proof -
  have t: "unat (DH_P - a) = unat DH_P - unat a" using assms(1) by (simp add: unat_sub word_le_nat_alt)
  have "unat s = unat m + unat a - unat DH_P" if "DH_P - a \<le> m"
    using that t assms(1) by (simp add: s_def unat_sub)
  moreover have "unat s = unat m + unat a" if "\<not> DH_P - a \<le> m"
  proof -
    have "unat m + unat a < 2 ^ 64" using that t assms(1) by (simp add: word_le_nat_alt unat_DH_P)
    then show ?thesis using that by (simp add: s_def unat_word_ariths)
  qed
  ultimately show "unat s < unat DH_P" "unat s = (unat m + unat a) mod unat DH_P"
    using t assms(1,2) by (cases "DH_P - a \<le> m"; simp add: word_le_nat_alt le_mod_geq)+
qed

lemma and_1_mod: "b AND 1 \<noteq> 0 \<longleftrightarrow> unat (b :: u64) mod 2 = 1" "b mod 2 \<noteq> 0 \<longleftrightarrow> unat b mod 2 = 1"
proof -
  have "unat (b AND 1) = unat b mod 2" using unat_and_mask[of b 1] by (simp add: mask_eq_exp_minus_1)
  then show "b AND 1 \<noteq> 0 \<longleftrightarrow> unat b mod 2 = 1" by (metis unat_eq_zero not_mod_2_eq_0_eq_1 zero_neq_one)
  have "unat (b mod 2) = unat b mod 2" by (simp add: unat_mod)
  then show "b mod 2 \<noteq> 0 \<longleftrightarrow> unat b mod 2 = 1" by (metis unat_eq_zero not_mod_2_eq_0_eq_1 zero_neq_one)
qed

lemma mod_mul_add: "(x mod n + y mod n * k) mod n = (x + y * k) mod (n :: nat)"
  by (metis mod_add_eq mod_mod_trivial mod_mult_left_eq)

lemma mul_loop_mod:
  "unat a \<le> unat DH_P \<Longrightarrow> unat m < unat DH_P \<Longrightarrow>
   unat (mul_loop a b m) = (unat m + unat a * unat b) mod unat DH_P"
proof (induction a b m rule: mul_loop.induct)
  case (1 a b m)
  show ?case
  proof (cases "b = 0")
    case True
    then show ?thesis using 1(3) by (simp add: mul_loop.simps)
  next
    case False
    define m' where "m' = (if b AND 1 \<noteq> 0 then (let t = DH_P - a in if t \<le> m then m - t else m + a) else m)"
    define a' where "a' = (if DH_P - a \<le> a then a * 2 - DH_P else a * 2)"
    note d = double_mod[OF 1(2), folded a'_def]
    have m: "unat m' < unat DH_P" "unat m' = (unat m + unat b mod 2 * unat a) mod unat DH_P"
      using add_mod[OF 1(2,3)] 1(3) unfolding m'_def Let_def and_1_mod(1)
      by (cases "unat b mod 2 = 1"; simp)+
    have "mul_loop a b m = mul_loop a' (drop_bit 1 b) m'"
      using False by (subst mul_loop.simps) (simp add: m'_def a'_def Let_def)
    then have "unat (mul_loop a b m) = (unat m' + unat a' * (unat b div 2)) mod unat DH_P"
      using 1(1)[OF False m'_def a'_def d(1) m(1)] by (simp add: unat_drop_bit)
    also have "\<dots> = (unat m' mod unat DH_P + unat a' mod unat DH_P * (unat b div 2)) mod unat DH_P"
      by (rule mod_mul_add[symmetric])
    also have "\<dots> = ((unat m + unat b mod 2 * unat a) mod unat DH_P + 2 * unat a mod unat DH_P * (unat b div 2)) mod
        unat DH_P"
      by (simp only: d(2) m(2) mod_mod_trivial)
    also have "\<dots> = (unat m + unat b mod 2 * unat a + 2 * unat a * (unat b div 2)) mod unat DH_P"
      by (rule mod_mul_add)
    also have "unat m + unat b mod 2 * unat a + 2 * unat a * (unat b div 2) =
        unat m + unat a * (unat b mod 2 + 2 * (unat b div 2))"
      unfolding distrib_left by simp
    finally show ?thesis by simp
  qed
qed

lemma mul_mod_p_ok: "unat a \<le> unat DH_P \<Longrightarrow> unat (mul_mod_p a b) = unat a * unat b mod unat DH_P"
  by (simp add: mul_mod_p_def mul_loop_mod unat_DH_P)

text \<open>The power: it returns for every exponent but 0, and the result is reduced but for the exponent 1.\<close>

lemma pow_mod_p_ok:
  assumes "unat a \<le> unat DH_P" "b \<noteq> 0"
  shows "\<exists>r. pow_mod_p a b = Some r \<and> unat r \<le> unat DH_P \<and> unat r mod unat DH_P = unat a ^ unat b mod unat DH_P \<and>
    (b \<noteq> 1 \<longrightarrow> unat r < unat DH_P)"
  using assms(2)
proof (induction "unat b" arbitrary: b rule: less_induct)
  case less
  define n where "n = unat DH_P"
  show ?case
  proof (cases "b = 1")
    case True
    then show ?thesis using assms(1) by (subst pow_mod_p.simps) simp
  next
    case False
    have ub: "unat b \<noteq> 0" "unat b \<noteq> 1" using False less.prems by (metis unat_eq_zero, metis unat_1 word_unat_eq_iff)
    define c where "c = drop_bit 1 b"
    have c: "unat c = unat b div 2" by (simp add: c_def unat_drop_bit)
    moreover have "unat b div 2 < unat b" "0 < unat b div 2" using ub by (simp_all add: div_greater_zero_iff)
    ultimately have "unat c < unat b" "c \<noteq> 0" by (auto simp: unat_eq_zero)
    then obtain t where t: "pow_mod_p a c = Some t" "unat t \<le> n" "unat t mod n = unat a ^ unat c mod n"
      using less.hyps[of c] by (auto simp: n_def)
    define s where "s = mul_mod_p t t"
    have s: "unat s < n" "unat s = unat a ^ (2 * unat c) mod n"
    proof -
      have *: "unat s = unat t * unat t mod n" using mul_mod_p_ok t(2) by (simp add: s_def n_def)
      also have "\<dots> = (unat t mod n) * (unat t mod n) mod n" by (simp add: mod_simps)
      also have "\<dots> = unat a ^ unat c * unat a ^ unat c mod n" unfolding t(3) by (simp add: mod_simps)
      finally show "unat s = unat a ^ (2 * unat c) mod n" by (simp add: mult_2 power_add)
      show "unat s < n" unfolding * by (simp add: n_def unat_DH_P)
    qed
    define r where "r = (if b mod 2 \<noteq> 0 then mul_mod_p s a else s)"
    have "pow_mod_p a b = Some r"
      using False t(1) by (subst pow_mod_p.simps) (simp add: c_def r_def s_def Let_def)
    moreover have "unat r < n \<and> unat r = unat a ^ unat b mod n"
    proof (cases "unat b mod 2 = 1")
      case True
      then have "unat b = 2 * unat c + 1" unfolding c by presburger
      moreover have "unat r = unat s * unat a mod n"
        using True s(1) and_1_mod(2)[of b] mul_mod_p_ok[of s a] by (simp add: r_def n_def)
      ultimately show ?thesis using s by (simp add: mod_simps mult.commute n_def unat_DH_P)
    next
      case odd: False
      then have "unat b = 2 * unat c" unfolding c by presburger
      then show ?thesis using odd s and_1_mod(2)[of b] by (simp add: r_def)
    qed
    ultimately show ?thesis using False by (simp add: n_def)
  qed
qed

lemma pow_mod_p_zero: "pow_mod_p a 0 = None"
proof -
  have "b \<noteq> 0" if "pow_mod_p a b = Some r" for a b r
    by (rule pow_mod_p.raw_induct[of "\<lambda>a b r. b \<noteq> 0", OF _ that]) (fastforce split: if_splits bind_splits)
  then show ?thesis by fastforce
qed

lemma powmodp_ok:
  assumes "a \<noteq> DH_P" "b \<noteq> 0"
  shows "\<exists>r. powmodp a b = Some r \<and> unat r = unat a ^ unat b mod unat DH_P"
proof -
  define a' where "a' = (if DH_P < a then a mod DH_P else a)"
  have a': "unat a' = unat a mod unat DH_P"
    using assms(1) by (auto simp: a'_def unat_mod word_less_nat_alt word_unat_eq_iff)
  moreover have "unat a mod unat DH_P < unat DH_P" by (simp add: unat_DH_P)
  ultimately have le: "unat a' < unat DH_P" by simp
  obtain r where r: "pow_mod_p a' b = Some r" "unat r \<le> unat DH_P"
      "unat r mod unat DH_P = unat a' ^ unat b mod unat DH_P" "b \<noteq> 1 \<longrightarrow> unat r < unat DH_P"
    using pow_mod_p_ok[of a' b] le assms(2) by auto
  have "unat r < unat DH_P"
  proof (cases "b = 1")
    case True
    then have "r = a'" using r(1) by (subst (asm) pow_mod_p.simps) simp
    then show ?thesis using le by simp
  qed (use r(4) in simp)
  then have "unat r = unat a ^ unat b mod unat DH_P" using r(3) a' by (simp add: power_mod)
  then show ?thesis using r(1) by (simp add: powmodp_def a'_def)
qed

section \<open>The exchange\<close>

lemma word64_push64: "word64 (get_le32 (push64 r) 0, get_le32 (push64 r) 4) = r"
proof (rule bit_eqI)
  fix i assume "possible_bit TYPE(u64) i"
  then have "i < 64" by simp
  then consider "i < 8" | "8 \<le> i" "i < 16" | "16 \<le> i" "i < 24" | "24 \<le> i" "i < 32"
    | "32 \<le> i" "i < 40" | "40 \<le> i" "i < 48" | "48 \<le> i" "i < 56" | "56 \<le> i" "i < 64" by linarith
  then show "bit (word64 (get_le32 (push64 r) 0, get_le32 (push64 r) 4)) i = bit r i"
    by cases (auto simp: word64_def get_le32_def push64_def bit_simps)
qed

lemma pushed_zero:
  fixes w :: "'a::len word"
  assumes "push_bit n (ucast w :: 'b::len word) = 0" "n + LENGTH('a) \<le> LENGTH('b)"
  shows "w = 0"
proof (rule bit_eqI)
  fix i assume "possible_bit TYPE('a word) i"
  then have i: "i < LENGTH('a)" by simp
  have "bit (push_bit n (ucast w :: 'b word)) (n + i) = bit w i" using i assms(2) by (simp add: bit_simps)
  then show "bit w i = bit 0 i" using assms(1) by simp
qed

lemma or_zero: "a OR b = 0 \<longleftrightarrow> a = 0 \<and> b = (0 :: 'a::len word)"
  by (auto simp: bit_eq_iff bit_or_iff)

lemma get_le32_zero: "get_le32 x i = 0 \<Longrightarrow> x ! i = 0 \<and> x ! (i + 1) = 0 \<and> x ! (i + 2) = 0 \<and> x ! (i + 3) = 0"
  unfolding get_le32_def or_zero
  using pushed_zero[of 0 "x ! i", where 'b = 32] pushed_zero[of 8 "x ! (i + 1)", where 'b = 32]
    pushed_zero[of 16 "x ! (i + 2)", where 'b = 32] pushed_zero[of 24 "x ! (i + 3)", where 'b = 32]
  by simp

lemma word64_zero: "word64 (u, v) = 0 \<Longrightarrow> u = 0 \<and> v = 0"
  using pushed_zero[of 0 u, where 'b = 64] pushed_zero[of 32 v, where 'b = 64]
  by (simp add: word64_def or_zero)

lemma word64_nonzero:
  assumes "length x = 8" "word64 (get_le32 x 0, get_le32 x 4) = 0"
  shows "x = replicate 8 0"
proof -
  obtain a b c d e f g h where x: "x = [a, b, c, d, e, f, g, h]" using length_8_conv[OF assms(1)] by auto
  then show ?thesis using word64_zero[OF assms(2)] get_le32_zero[of x 0] get_le32_zero[of x 4]
    by (simp add: numeral_eq_Suc)
qed

lemma length_push64 [simp]: "length (push64 r) = 8"
  by (simp add: push64_def)

lemma secret_push64:
  assumes "length y = 8" "word64 (get_le32 y 0, get_le32 y 4) = yy" "yy \<noteq> 0" "xx \<noteq> 0"
  shows "ldhsecret (push64 xx) y = map_option (\<lambda>r. Inr (push64 r)) (powmodp xx yy)"
  using assms by (simp add: ldhsecret_def read64_def word64_push64 Let_def)

text \<open>The public key is never 0 and never \<open>P\<close>, since 5 does not divide \<open>P\<close>.\<close>

lemma exchange_ok:
  assumes "x64 \<noteq> 0"
  shows "\<exists>r. powmodp DH_G x64 = Some r \<and> unat r = 5 ^ unat x64 mod unat DH_P \<and> r \<noteq> 0 \<and> r \<noteq> DH_P"
proof -
  have "DH_G \<noteq> DH_P" by (simp add: DH_G_def DH_P_def)
  then obtain r where r: "powmodp DH_G x64 = Some r" "unat r = 5 ^ unat x64 mod unat DH_P"
    using powmodp_ok[OF _ assms, of DH_G] by (auto simp: DH_G_def)
  have "coprime 5 (unat DH_P)" 
  proof -
    have "gcd (unat DH_P) 5 = gcd 5 2" by (subst gcd_red_nat) (simp add: unat_DH_P)
    also have "\<dots> = (1 :: nat)" by (subst gcd_red_nat) simp
    finally show ?thesis by (simp add: coprime_iff_gcd_eq_1 gcd.commute)
  qed
  then have "coprime (5 ^ unat x64) (unat DH_P)" by simp
  then have "\<not> unat DH_P dvd 5 ^ unat x64"
    using coprime_common_divisor[of "5 ^ unat x64" "unat DH_P" "unat DH_P"] unat_DH_P by auto
  then have "5 ^ unat x64 mod unat DH_P \<noteq> 0" by (simp add: mod_eq_0_iff_dvd)
  then have "r \<noteq> 0" using r(2) by auto
  moreover have "unat r < unat DH_P" unfolding r(2) by (simp add: unat_DH_P)
  ultimately show ?thesis using r by auto
qed

text \<open>
  C11: two parties with any keys of eight bytes other than 0 compute the same secret from each
  other's public key, and all four calls return.
\<close>

theorem dh_agreement:
  assumes "length x = 8" "length y = 8" "x \<noteq> replicate 8 0" "y \<noteq> replicate 8 0"
  shows "\<exists>px py s. ldhexchange x = Some (Inr px) \<and> ldhexchange y = Some (Inr py) \<and>
    ldhsecret px y = Some (Inr s) \<and> ldhsecret py x = Some (Inr s)"
proof -
  define xx yy where "xx = word64 (get_le32 x 0, get_le32 x 4)" and "yy = word64 (get_le32 y 0, get_le32 y 4)"
  have nz: "xx \<noteq> 0" "yy \<noteq> 0" using assms word64_nonzero by (auto simp: xx_def yy_def)
  obtain p where p: "powmodp DH_G xx = Some p" "unat p = 5 ^ unat xx mod unat DH_P" "p \<noteq> 0" "p \<noteq> DH_P"
    using exchange_ok[OF nz(1)] by auto
  obtain q where q: "powmodp DH_G yy = Some q" "unat q = 5 ^ unat yy mod unat DH_P" "q \<noteq> 0" "q \<noteq> DH_P"
    using exchange_ok[OF nz(2)] by auto
  obtain s where s: "powmodp p yy = Some s" "unat s = 5 ^ (unat xx * unat yy) mod unat DH_P"
    using powmodp_ok[OF p(4) nz(2)] p(2) by (auto simp: power_mod power_mult)
  obtain t where t: "powmodp q xx = Some t" "unat t = 5 ^ (unat xx * unat yy) mod unat DH_P"
    using powmodp_ok[OF q(4) nz(1)] q(2) by (auto simp: power_mod mult.commute simp flip: power_mult)
  have "s = t" using s(2) t(2) by (simp add: word_unat_eq_iff)
  then have "ldhexchange x = Some (Inr (push64 p))" "ldhexchange y = Some (Inr (push64 q))"
    "ldhsecret (push64 p) y = Some (Inr (push64 s))" "ldhsecret (push64 q) x = Some (Inr (push64 s))"
    using p q s(1) t(1) nz assms(1,2)
    by (simp_all add: ldhexchange_def secret_push64[OF _ refl] Let_def flip: xx_def yy_def)
  then show ?thesis by blast
qed

text \<open>The base \<open>P\<close> itself is not reduced.\<close>

lemma powmodp_P: "powmodp DH_P 1 = Some DH_P"
  by (simp add: powmodp_def pow_mod_p.simps)

end
