(* ===== verification/Digest_Spec.thy ===== *)
theory Digest_Spec
  imports Prelude
begin

text \<open>
  The contract of a digest that is fed piece by piece: a context represents the message fed so
  far, feeding a piece appends it, and finishing gives the digest of the whole message. A client
  may then cut the message as it likes.
\<close>

locale digest_stream =
  fixes rep :: "'c \<Rightarrow> u8 list \<Rightarrow> bool"
    and init :: 'c
    and update :: "'c \<Rightarrow> u8 list \<Rightarrow> 'c"
    and final :: "'c \<Rightarrow> u8 list"
    and digest :: "u8 list \<Rightarrow> u8 list"
    and bound :: nat
  assumes init: "rep init []"
    and update: "rep c m \<Longrightarrow> length d < bound \<Longrightarrow> rep (update c d) (m @ d)"
    and final: "rep c m \<Longrightarrow> final c = digest m"
begin

lemma updates:
  "rep c m \<Longrightarrow> \<forall>d\<in>set ds. length d < bound \<Longrightarrow> rep (foldl update c ds) (m @ concat ds)"
proof (induction ds arbitrary: c m)
  case (Cons d ds)
  then have "rep (update c d) (m @ d)" by (simp add: update)
  then show ?case using Cons by fastforce
qed simp

lemma pieces:
  assumes "\<forall>d\<in>set ds. length d < bound"
  shows "final (foldl update init ds) = digest (concat ds)"
  using final[OF updates[OF init assms]] by simp

end

end
