(* ===== verification/Sha1.thy ===== *)
theory Sha1
  imports Codec Digest_Spec
begin

text \<open>
  SHA-1 and HMAC-SHA-1 of \<^verbatim>\<open>lsha1.c\<close>, on a little endian machine: the block transformation with its
  ring of sixteen words, the context that is fed piece by piece, padding, and the two
  functions for Lua. Below the model, SHA-1 as FIPS 180-1 states it.
\<close>

section \<open>The transformation of a block\<close>

record SHA1_CTX =
  state :: "u32 list"
  count :: "u32 \<times> u32"
  buffer :: "u8 list"

type_synonym regs = "u32 \<times> u32 \<times> u32 \<times> u32 \<times> u32"

definition rol :: "u32 \<Rightarrow> nat \<Rightarrow> u32" where
  "rol v n = push_bit n v OR drop_bit (32 - n) v"

text \<open>\<open>blk0\<close> and \<open>blk\<close> assign to the ring and have the assigned word as their value.\<close>

definition blk0 :: "u32 list \<Rightarrow> nat \<Rightarrow> u32 \<times> u32 list" where
  "blk0 l i = (let x = (rol (l ! i) 24 AND 0xFF00FF00) OR (rol (l ! i) 8 AND 0x00FF00FF) in (x, l[i := x]))"

definition blk :: "u32 list \<Rightarrow> nat \<Rightarrow> u32 \<times> u32 list" where
  "blk l i =
     (let x = rol (l ! ((i + 13) mod 16) XOR l ! ((i + 8) mod 16) XOR l ! ((i + 2) mod 16) XOR l ! (i mod 16)) 1
      in (x, l[i mod 16 := x]))"

text \<open>
  The operations \<open>R0\<close> to \<open>R4\<close> change \<open>z\<close> and \<open>w\<close>. The calls pass the five variables in
  turn, each time with the last one moved to the front: the operation returns them so.
\<close>

definition R0 :: "regs \<times> u32 list \<Rightarrow> nat \<Rightarrow> regs \<times> u32 list" where
  "R0 s i = (case s of ((v, w, x, y, z), l) \<Rightarrow> let (b, l') = blk0 l i in
     ((z + (((w AND (x XOR y)) XOR y) + b + 0x5A827999 + rol v 5), v, rol w 30, x, y), l'))"

definition R1 :: "regs \<times> u32 list \<Rightarrow> nat \<Rightarrow> regs \<times> u32 list" where
  "R1 s i = (case s of ((v, w, x, y, z), l) \<Rightarrow> let (b, l') = blk l i in
     ((z + (((w AND (x XOR y)) XOR y) + b + 0x5A827999 + rol v 5), v, rol w 30, x, y), l'))"

definition R2 :: "regs \<times> u32 list \<Rightarrow> nat \<Rightarrow> regs \<times> u32 list" where
  "R2 s i = (case s of ((v, w, x, y, z), l) \<Rightarrow> let (b, l') = blk l i in
     ((z + ((w XOR x XOR y) + b + 0x6ED9EBA1 + rol v 5), v, rol w 30, x, y), l'))"

definition R3 :: "regs \<times> u32 list \<Rightarrow> nat \<Rightarrow> regs \<times> u32 list" where
  "R3 s i = (case s of ((v, w, x, y, z), l) \<Rightarrow> let (b, l') = blk l i in
     ((z + ((((w OR x) AND y) OR (w AND x)) + b + 0x8F1BBCDC + rol v 5), v, rol w 30, x, y), l'))"

definition R4 :: "regs \<times> u32 list \<Rightarrow> nat \<Rightarrow> regs \<times> u32 list" where
  "R4 s i = (case s of ((v, w, x, y, z), l) \<Rightarrow> let (b, l') = blk l i in
     ((z + ((w XOR x XOR y) + b + 0xCA62C1D6 + rol v 5), v, rol w 30, x, y), l'))"

definition SHA1_Transform :: "u32 list \<Rightarrow> u8 list \<Rightarrow> u32 list" where
  "SHA1_Transform st buf =
     (let l = map (\<lambda>i. get_le32 buf (4 * i)) [0..<16];
          s = ((st ! 0, st ! 1, st ! 2, st ! 3, st ! 4), l);
          s = foldl R0 s [0..<16]; s = foldl R1 s [16..<20]; s = foldl R2 s [20..<40];
          s = foldl R3 s [40..<60]; s = foldl R4 s [60..<80];
          (a, b, c, d, e) = fst s
      in [st ! 0 + a, st ! 1 + b, st ! 2 + c, st ! 3 + d, st ! 4 + e])"

section \<open>The context\<close>

text \<open>The initialisation leaves the buffer as it is; its contents are not read before they are written.\<close>

definition sat_SHA1_Init :: "SHA1_CTX \<Rightarrow> SHA1_CTX" where
  "sat_SHA1_Init c = c\<lparr>state := [0x67452301, 0xEFCDAB89, 0x98BADCFE, 0x10325476, 0xC3D2E1F0], count := (0, 0)\<rparr>"

definition memcpy_at :: "u8 list \<Rightarrow> nat \<Rightarrow> u8 list \<Rightarrow> u8 list" where
  "memcpy_at buf j xs = take j buf @ xs @ drop (j + length xs) buf"

text \<open>The loop over the whole blocks of the data, and the data it leaves.\<close>

function transform_blocks :: "u32 list \<Rightarrow> u8 list \<Rightarrow> u32 list \<times> u8 list" where
  "transform_blocks st data =
     (if 63 < length data then transform_blocks (SHA1_Transform st (take 64 data)) (drop 64 data)
      else (st, data))"
  by pat_completeness auto
termination
  by (relation "measure (\<lambda>(st, data). length data)") auto

declare transform_blocks.simps [simp del]

text \<open>
  The comparison that finds the carry is between the 32-bit counter and the 64-bit \<open>len << 3\<close>.
\<close>

definition sat_SHA1_Update :: "SHA1_CTX \<Rightarrow> u8 list \<Rightarrow> SHA1_CTX" where
  "sat_SHA1_Update c data =
     (let len = of_nat (length data) :: u64;
          j = unat (drop_bit 3 (fst (count c)) AND 63);
          count0 = fst (count c) + ucast (push_bit 3 len);
          count1 = (if ucast count0 < push_bit 3 len then snd (count c) + 1 else snd (count c));
          count1 = count1 + ucast (drop_bit 29 len);
          c = c\<lparr>count := (count0, count1)\<rparr>
      in if 63 < j + length data then
           (let buf = memcpy_at (buffer c) j (take (64 - j) data);
                st = SHA1_Transform (state c) buf;
                (st, rest) = transform_blocks st (drop (64 - j) data)
            in c\<lparr>state := st, buffer := memcpy_at buf 0 rest\<rparr>)
         else c\<lparr>buffer := memcpy_at (buffer c) j data\<rparr>)"

text \<open>The position in the buffer, and the condition of the padding loop in terms of it.\<close>

definition buf_pos :: "u32 \<Rightarrow> nat" where
  "buf_pos n = unat (drop_bit 3 n AND 63)"

lemma buf_pos_mod: "buf_pos n = unat n div 8 mod 64"
  using unat_and_mask[of "drop_bit 3 n" 6] by (simp add: buf_pos_def mask_eq_exp_minus_1 unat_drop_bit)

lemma ucast_of_nat_u32: "ucast (of_nat m :: u64) = (of_nat m :: u32)"
proof -
  have "m mod 2 ^ 64 mod 2 ^ 32 = m mod 2 ^ 32" by (rule pow2_mod_mod) simp
  then have "(of_nat (m mod 2 ^ 64) :: u32) = of_nat m"
    by (simp add: word_unat_eq_iff unat_of_nat take_bit_eq_mod)
  then show ?thesis by (simp add: unsigned_of_nat take_bit_eq_mod)
qed

lemma push_3_of_nat: "push_bit 3 (of_nat n :: u64) = of_nat (8 * n)"
  by (simp add: push_bit_eq_mult mult.commute)

lemma count_word: "ucast (push_bit 3 (of_nat n :: u64)) = (of_nat (8 * n) :: u32)"
  by (simp only: push_3_of_nat ucast_of_nat_u32)

lemma update_count0: "fst (count (sat_SHA1_Update c data)) = fst (count c) + of_nat (8 * length data)"
  by (simp add: sat_SHA1_Update_def Let_def count_word split: prod.splits)

lemma buf_pos_add: "buf_pos (n + of_nat (8 * k)) = (buf_pos n + k) mod 64"
proof -
  have "unat (n + of_nat (8 * k)) = (unat n + 8 * k) mod 2 ^ 32"
    by (simp add: unat_word_ariths unat_of_nat take_bit_eq_mod mod_simps)
  then have "buf_pos (n + of_nat (8 * k)) = (unat n + 8 * k) div 2 ^ 3 mod 2 ^ 6"
    using div_mod_pow2[of 3 6 32 "unat n + 8 * k"] by (simp add: buf_pos_mod)
  also have "\<dots> = (unat n div 8 + k) mod 64" by (simp add: add.commute)
  finally show ?thesis by (simp add: buf_pos_mod mod_simps)
qed

lemma pad_condition: "n AND 504 = 448 \<longleftrightarrow> buf_pos n = 56"
proof -
  have "n AND 504 = push_bit 3 (drop_bit 3 n AND 63)"
  proof (rule bit_eqI)
    fix i assume "possible_bit TYPE(u32) i"
    have m: "504 = push_bit 3 (mask 6 :: u32)" "63 = (mask 6 :: u32)" by (simp_all add: mask_eq_exp_minus_1)
    show "bit (n AND 504) i = bit (push_bit 3 (drop_bit 3 n AND 63)) i"
      unfolding m bit_and_iff bit_push_bit_iff bit_drop_bit_eq bit_mask_iff by auto
  qed
  moreover have "unat (push_bit 3 (drop_bit 3 n AND 63)) = 8 * buf_pos n"
  proof -
    have "buf_pos n < 64" by (simp add: buf_pos_mod)
    moreover have "unat (push_bit 3 w) = 8 * unat w mod 2 ^ 32" for w :: u32
      by (simp add: push_bit_eq_mult unat_word_ariths mult.commute)
    ultimately show ?thesis by (simp only: buf_pos_def) simp
  qed
  ultimately have "unat (n AND 504) = 8 * buf_pos n" by simp
  moreover have "n AND 504 = 448 \<longleftrightarrow> unat (n AND 504) = 448" by (simp add: word_unat_eq_iff)
  ultimately show ?thesis by simp
qed

function pad_loop :: "SHA1_CTX \<Rightarrow> SHA1_CTX" where
  "pad_loop c = (if fst (count c) AND 504 \<noteq> 448 then pad_loop (sat_SHA1_Update c [0]) else c)"
  by pat_completeness auto
termination
proof (relation "measure (\<lambda>c. let p = buf_pos (fst (count c)) in if p \<le> 56 then 56 - p else 120 - p)", goal_cases)
  case (2 c)
  define p where "p = buf_pos (fst (count c))"
  have "p < 64" "p \<noteq> 56" using 2 by (auto simp: p_def buf_pos_mod pad_condition)
  moreover have "buf_pos (fst (count (sat_SHA1_Update c [0]))) = (p + 1) mod 64"
    using buf_pos_add[of _ 1] by (simp add: update_count0 p_def)
  ultimately show ?case by (cases "p = 63"; simp flip: p_def; linarith?)
qed simp

declare pad_loop.simps [simp del]

definition sat_SHA1_Final :: "SHA1_CTX \<Rightarrow> u8 list" where
  "sat_SHA1_Final c =
     (let finalcount = map (\<lambda>i. ucast (drop_bit ((3 - i mod 4) * 8) (if 4 \<le> i then fst (count c) else snd (count c))))
            [0..<8];
          c = sat_SHA1_Update c [0x80];
          c = pad_loop c;
          c = sat_SHA1_Update c finalcount
      in map (\<lambda>i. ucast (drop_bit ((3 - i mod 4) * 8) (state c ! (i div 4)))) [0..<20])"

text \<open>A context whose memory is not yet written; \<open>junk\<close> is what the stack holds.\<close>

definition fresh_ctx :: "(nat \<Rightarrow> u8) \<Rightarrow> SHA1_CTX" where
  "fresh_ctx junk = sat_SHA1_Init \<lparr>state = [], count = (0, 0), buffer = map junk [0..<64]\<rparr>"

definition lsha1 :: "(nat \<Rightarrow> u8) \<Rightarrow> u8 list \<Rightarrow> u8 list" where
  "lsha1 junk buf = sat_SHA1_Final (sat_SHA1_Update (fresh_ctx junk) buf)"

text \<open>The key is read and written as sixteen words.\<close>

definition xor_key :: "u8 list \<Rightarrow> u32 \<Rightarrow> u8 list" where
  "xor_key key x = concat (map (\<lambda>i. put_le32 (get_le32 key (4 * i) XOR x)) [0..<16])"

definition lhmac_sha1 :: "(nat \<Rightarrow> u8) \<Rightarrow> u8 list \<Rightarrow> u8 list \<Rightarrow> u8 list" where
  "lhmac_sha1 junk key text =
     (let rkey = (if 64 < length key then memcpy_at (replicate 64 0) 0 (lsha1 junk key)
                  else memcpy_at (replicate 64 0) 0 key);
          rkey = xor_key rkey 0x5c5c5c5c;
          ctx1 = sat_SHA1_Update (fresh_ctx junk) rkey;
          rkey = xor_key rkey (0x5c5c5c5c XOR 0x36363636);
          ctx2 = sat_SHA1_Update (fresh_ctx junk) rkey;
          ctx2 = sat_SHA1_Update ctx2 text;
          digest2 = sat_SHA1_Final ctx2;
          ctx1 = sat_SHA1_Update ctx1 digest2
      in sat_SHA1_Final ctx1)"

section \<open>SHA-1 as FIPS 180-1 states it\<close>

definition get_be32 :: "u8 list \<Rightarrow> nat \<Rightarrow> u32" where
  "get_be32 x i = push_bit 24 (ucast (x ! i)) OR push_bit 16 (ucast (x ! (i + 1))) OR
     push_bit 8 (ucast (x ! (i + 2))) OR ucast (x ! (i + 3))"

definition put_be32 :: "u32 \<Rightarrow> u8 list" where
  "put_be32 r = [ucast (drop_bit 24 r), ucast (drop_bit 16 r), ucast (drop_bit 8 r), ucast r]"

text \<open>The message schedule: all eighty words, not a ring.\<close>

fun sha1_W :: "u8 list \<Rightarrow> nat \<Rightarrow> u32" where
  "sha1_W M t =
     (if t < 16 then get_be32 M (4 * t)
      else rol (sha1_W M (t - 3) XOR sha1_W M (t - 8) XOR sha1_W M (t - 14) XOR sha1_W M (t - 16)) 1)"

declare sha1_W.simps [simp del]

definition sha1_f :: "nat \<Rightarrow> u32 \<Rightarrow> u32 \<Rightarrow> u32 \<Rightarrow> u32" where
  "sha1_f t b c d =
     (if t < 20 then (b AND c) OR (NOT b AND d)
      else if t < 40 then b XOR c XOR d
      else if t < 60 then (b AND c) OR (b AND d) OR (c AND d)
      else b XOR c XOR d)"

definition sha1_K :: "nat \<Rightarrow> u32" where
  "sha1_K t = (if t < 20 then 0x5A827999 else if t < 40 then 0x6ED9EBA1 else if t < 60 then 0x8F1BBCDC else 0xCA62C1D6)"

definition sha1_step :: "u8 list \<Rightarrow> regs \<Rightarrow> nat \<Rightarrow> regs" where
  "sha1_step M r t = (case r of (a, b, c, d, e) \<Rightarrow>
     (rol a 5 + sha1_f t b c d + e + sha1_W M t + sha1_K t, a, rol b 30, c, d))"

definition sha1_compress :: "u32 list \<Rightarrow> u8 list \<Rightarrow> u32 list" where
  "sha1_compress H M =
     (let (a, b, c, d, e) = foldl (sha1_step M) (H ! 0, H ! 1, H ! 2, H ! 3, H ! 4) [0..<80]
      in [H ! 0 + a, H ! 1 + b, H ! 2 + c, H ! 3 + d, H ! 4 + e])"

function sha1_blocks :: "u32 list \<Rightarrow> u8 list \<Rightarrow> u32 list" where
  "sha1_blocks H m = (if length m < 64 then H else sha1_blocks (sha1_compress H (take 64 m)) (drop 64 m))"
  by pat_completeness auto
termination
  by (relation "measure (\<lambda>(H, m). length m)") auto

declare sha1_blocks.simps [simp del]

definition sha1_H0 :: "u32 list" where
  "sha1_H0 = [0x67452301, 0xEFCDAB89, 0x98BADCFE, 0x10325476, 0xC3D2E1F0]"

text \<open>A one bit, zeros up to eight bytes before the end of a block, and the length in bits.\<close>

definition sha1_pad :: "u8 list \<Rightarrow> u8 list" where
  "sha1_pad m = m @ 0x80 # replicate ((119 - length m mod 64) mod 64) 0 @
     put_be32 (of_nat (8 * length m div 2 ^ 32)) @ put_be32 (of_nat (8 * length m))"

definition sha1 :: "u8 list \<Rightarrow> u8 list" where
  "sha1 m = concat (map put_be32 (sha1_blocks sha1_H0 (sha1_pad m)))"

definition hmac_sha1 :: "u8 list \<Rightarrow> u8 list \<Rightarrow> u8 list" where
  "hmac_sha1 key text =
     (let k = (if 64 < length key then sha1 key else key);
          k = k @ replicate (64 - length k) 0
      in sha1 (map (\<lambda>b. b XOR 0x5c) k @ sha1 (map (\<lambda>b. b XOR 0x36) k @ text)))"

section \<open>The ring computes the schedule\<close>

lemma swap_le32:
  assumes "x = get_le32 b i"
  shows "(rol x 24 AND 0xFF00FF00) OR (rol x 8 AND 0x00FF00FF) = get_be32 b i"
proof (rule bit_eqI)
  fix n assume "possible_bit TYPE(u32) n"
  then have n: "n < 32" by simp
  have m: "0xFF00FF00 = push_bit 24 (mask 8) OR push_bit 8 (mask 8 :: u32)"
    "0x00FF00FF = push_bit 16 (mask 8) OR (mask 8 :: u32)" by (simp_all add: mask_eq_exp_minus_1)
  consider "n < 8" | "8 \<le> n" "n < 16" | "16 \<le> n" "n < 24" | "24 \<le> n" "n < 32" using n by linarith
  then show "bit ((rol x 24 AND 0xFF00FF00) OR (rol x 8 AND 0x00FF00FF)) n = bit (get_be32 b i) n"
    unfolding assms m
    by cases (auto simp: rol_def get_le32_def get_be32_def bit_simps dest: byte_bits)
qed

text \<open>Before round \<open>i\<close> the ring holds the last sixteen words of the schedule, or the part of the block not yet swapped.\<close>

definition ring_inv :: "u8 list \<Rightarrow> nat \<Rightarrow> u32 list \<Rightarrow> bool" where
  "ring_inv M i l \<longleftrightarrow> length l = 16 \<and> (\<forall>t<i. i \<le> t + 16 \<longrightarrow> l ! (t mod 16) = sha1_W M t) \<and>
     (\<forall>k. i \<le> k \<longrightarrow> k < 16 \<longrightarrow> l ! k = get_le32 M (4 * k))"

lemma ring_inv_0: "ring_inv M 0 (map (\<lambda>i. get_le32 M (4 * i)) [0..<16])"
  by (simp add: ring_inv_def)

lemma ring_inv_step:
  assumes "ring_inv M i l" "x = sha1_W M i"
  shows "ring_inv M (Suc i) (l[i mod 16 := x])"
proof -
  have "(l[i mod 16 := x]) ! (t mod 16) = sha1_W M t" if "t < Suc i" "Suc i \<le> t + 16" for t
  proof (cases "t = i")
    case True
    then show ?thesis using assms by (simp add: ring_inv_def)
  next
    case False
    then have "0 < i - t" "i - t < 16" "t + (i - t) = i" using that by linarith+
    then have "t mod 16 \<noteq> i mod 16" using mod_add_inj[of 0 16 "i - t" t] by auto
    then show ?thesis using assms that False by (simp add: ring_inv_def)
  qed
  moreover have "(l[i mod 16 := x]) ! k = get_le32 M (4 * k)" if "Suc i \<le> k" "k < 16" for k
    using that assms by (simp add: ring_inv_def)
  ultimately show ?thesis using assms(1) by (simp add: ring_inv_def)
qed

lemma blk0_ok:
  assumes "ring_inv M i l" "i < 16"
  shows "blk0 l i = (sha1_W M i, l[i mod 16 := sha1_W M i])"
proof -
  have "l ! i = get_le32 M (4 * i)" using assms by (simp add: ring_inv_def)
  then show ?thesis using assms(2) swap_le32[of "l ! i" M "4 * i"] by (simp add: blk0_def Let_def sha1_W.simps)
qed

lemma blk_ok:
  assumes "ring_inv M i l" "16 \<le> i"
  shows "blk l i = (sha1_W M i, l[i mod 16 := sha1_W M i])"
proof -
  have *: "l ! ((i + j) mod 16) = sha1_W M (i - (16 - j))" if "j < 16" for j
  proof -
    have "i + j = (i - (16 - j)) + 16" using that assms(2) by linarith
    then have "(i + j) mod 16 = (i - (16 - j)) mod 16" by (metis mod_add_self2)
    then show ?thesis using assms that by (simp add: ring_inv_def)
  qed
  show ?thesis
    using *[of 13] *[of 8] *[of 2] *[of 0] assms(2)
    by (simp add: blk_def Let_def sha1_W.simps[of M i])
qed

text \<open>A round of the code and a step of the standard.\<close>

definition round_ok :: "(regs \<times> u32 list \<Rightarrow> nat \<Rightarrow> regs \<times> u32 list) \<Rightarrow> nat \<Rightarrow> bool" where
  "round_ok R i \<longleftrightarrow> (\<forall>M r l. ring_inv M i l \<longrightarrow> R (r, l) i = (sha1_step M r i, l[i mod 16 := sha1_W M i]))"

lemma choose_eq: "(w AND (x XOR y)) XOR y = (w AND x) OR (NOT w AND y)" for w x y :: u32
  by (rule bit_eqI) (auto simp: bit_simps)

lemma majority_eq: "((w OR x) AND y) OR (w AND x) = (w AND x) OR (w AND y) OR (x AND y)" for w x y :: u32
  by (rule bit_eqI) (auto simp: bit_simps)

lemma rounds_ok:
  "i < 16 \<Longrightarrow> round_ok R0 i"
  "16 \<le> i \<Longrightarrow> i < 20 \<Longrightarrow> round_ok R1 i"
  "20 \<le> i \<Longrightarrow> i < 40 \<Longrightarrow> round_ok R2 i"
  "40 \<le> i \<Longrightarrow> i < 60 \<Longrightarrow> round_ok R3 i"
  "60 \<le> i \<Longrightarrow> round_ok R4 i"
  by (auto simp: round_ok_def R0_def R1_def R2_def R3_def R4_def blk0_ok blk_ok sha1_step_def sha1_f_def sha1_K_def
      choose_eq majority_eq add_ac)

lemma foldl_rounds:
  assumes "\<forall>i\<in>{m..<n}. round_ok R i" "ring_inv M m l" "m \<le> n"
  shows "\<exists>l'. foldl R (r, l) [m..<n] = (foldl (sha1_step M) r [m..<n], l') \<and> ring_inv M n l'"
  using assms(3,1,2)
proof (induction n rule: dec_induct)
  case (step n)
  then obtain l' where l': "foldl R (r, l) [m..<n] = (foldl (sha1_step M) r [m..<n], l')" "ring_inv M n l'" by auto
  moreover have "round_ok R n" using step by simp
  ultimately have "R (foldl (sha1_step M) r [m..<n], l') n =
      (sha1_step M (foldl (sha1_step M) r [m..<n]) n, l'[n mod 16 := sha1_W M n])"
    unfolding round_ok_def by blast
  then show ?case using l' step(1) ring_inv_step[OF l'(2) refl] by simp
qed simp

lemma SHA1_Transform_ok: "SHA1_Transform H M = sha1_compress H M"
proof -
  define r where "r = (H ! 0, H ! 1, H ! 2, H ! 3, H ! 4)"
  define f where "f = (\<lambda>m n r. foldl (sha1_step M) r [m..<n])"
  have fold: "\<exists>l'. foldl R (r, l) [m..<n] = (f m n r, l') \<and> ring_inv M n l'"
    if "\<forall>i\<in>{m..<n}. round_ok R i" "ring_inv M m l" "m \<le> n" for R r l m n
    unfolding f_def by (rule foldl_rounds[OF that])
  have rounds: "\<forall>i\<in>{0..<16}. round_ok R0 i" "\<forall>i\<in>{16..<20}. round_ok R1 i" "\<forall>i\<in>{20..<40}. round_ok R2 i"
    "\<forall>i\<in>{40..<60}. round_ok R3 i" "\<forall>i\<in>{60..<80}. round_ok R4 i"
    by (simp_all add: rounds_ok)
  have le: "(16 :: nat) \<le> 20" "(20 :: nat) \<le> 40" "(40 :: nat) \<le> 60" "(60 :: nat) \<le> 80" by simp_all
  obtain l0 where l0: "foldl R0 (r, map (\<lambda>i. get_le32 M (4 * i)) [0..<16]) [0..<16] = (f 0 16 r, l0)" "ring_inv M 16 l0"
    using fold[OF rounds(1) ring_inv_0 le0] by blast
  obtain l1 where l1: "foldl R1 (f 0 16 r, l0) [16..<20] = (f 16 20 (f 0 16 r), l1)" "ring_inv M 20 l1"
    using fold[OF rounds(2) l0(2) le(1)] by blast
  obtain l2 where l2: "foldl R2 (f 16 20 (f 0 16 r), l1) [20..<40] = (f 20 40 (f 16 20 (f 0 16 r)), l2)" "ring_inv M 40 l2"
    using fold[OF rounds(3) l1(2) le(2)] by blast
  obtain l3 where l3: "foldl R3 (f 20 40 (f 16 20 (f 0 16 r)), l2) [40..<60] =
      (f 40 60 (f 20 40 (f 16 20 (f 0 16 r))), l3)" "ring_inv M 60 l3"
    using fold[OF rounds(4) l2(2) le(3)] by blast
  obtain l4 where l4: "foldl R4 (f 40 60 (f 20 40 (f 16 20 (f 0 16 r))), l3) [60..<80] =
      (f 60 80 (f 40 60 (f 20 40 (f 16 20 (f 0 16 r)))), l4)"
    using fold[OF rounds(5) l3(2) le(4)] by blast
  have "f n p (f m n r) = f m p r" if "m \<le> n" "n \<le> p" for m n p r
    using upt_add_eq_append[of m n "p - n"] that by (simp add: f_def flip: foldl_append)
  then have all: "f 60 80 (f 40 60 (f 20 40 (f 16 20 (f 0 16 r)))) = f 0 80 r" by simp
  show ?thesis
    unfolding SHA1_Transform_def sha1_compress_def Let_def r_def[symmetric] l0(1) l1(1) l2(1) l3(1) l4(1) all fst_conv
    by (simp only: f_def)
qed

section \<open>Feeding a context\<close>

lemma sha1_blocks_short: "length m < 64 \<Longrightarrow> sha1_blocks H m = H"
  by (simp add: sha1_blocks.simps)

lemma sha1_blocks_append: "64 dvd length w \<Longrightarrow> sha1_blocks H (w @ m) = sha1_blocks (sha1_blocks H w) m"
proof (induction H w rule: sha1_blocks.induct)
  case (1 H w)
  show ?case
  proof (cases "w = []")
    case False
    then have "64 \<le> length w" using 1(2) by (auto dest: dvd_imp_le)
    moreover have "64 dvd length (drop 64 w)" using 1(2) by simp
    ultimately show ?thesis
      using 1(1) by (simp add: sha1_blocks.simps[of H w] sha1_blocks.simps[of H "w @ m"])
  qed (simp add: sha1_blocks_short)
qed

lemma transform_blocks_ok:
  "\<exists>w t. d = w @ t \<and> 64 dvd length w \<and> length t < 64 \<and> transform_blocks H d = (sha1_blocks H w, t)"
proof (induction H d rule: transform_blocks.induct)
  case (1 H d)
  show ?case
  proof (cases "63 < length d")
    case True
    obtain w t where *: "drop 64 d = w @ t" "64 dvd length w" "length t < 64"
        "transform_blocks (sha1_compress H (take 64 d)) (drop 64 d) = (sha1_blocks (sha1_compress H (take 64 d)) w, t)"
      using 1[OF True] by (auto simp: SHA1_Transform_ok)
    have "sha1_blocks H (take 64 d @ w) = sha1_blocks (sha1_compress H (take 64 d)) w"
      using True by (simp add: sha1_blocks.simps[of H "take 64 d @ w"])
    then show ?thesis
      using * True by (intro exI[of _ "take 64 d @ w"] exI[of _ t])
        (simp add: transform_blocks.simps[of H d] SHA1_Transform_ok, metis append_take_drop_id)
  next
    case False
    then show ?thesis by (intro exI[of _ "[]"] exI[of _ d]) (simp add: transform_blocks.simps sha1_blocks_short)
  qed
qed

definition sha1_rep :: "SHA1_CTX \<Rightarrow> u8 list \<Rightarrow> bool" where
  "sha1_rep c m \<longleftrightarrow> (\<exists>w t. m = w @ t \<and> 64 dvd length w \<and> length t < 64 \<and> length (buffer c) = 64 \<and>
     take (length t) (buffer c) = t \<and> state c = sha1_blocks sha1_H0 w \<and>
     count c = (of_nat (8 * length m), of_nat (8 * length m div 2 ^ 32)))"

lemma buf_pos_len: "buf_pos (of_nat (8 * n)) = n mod 64"
  using buf_pos_add[of 0 n] by (simp add: buf_pos_mod)

lemma carry:
  assumes "(b :: nat) < N"
  shows "(a + b) div N = a div N + (if (a + b) mod N < b then 1 else 0)"
proof -
  have "(a + b) div N = a div N + (a mod N + b) div N" using assms by (simp add: div_add1_eq[of a b N])
  moreover have "(a + b) mod N = (a mod N + b) mod N" by (simp add: mod_simps)
  moreover have "a mod N + b - N < b \<and> a mod N + b - N < N" if "\<not> a mod N + b < N"
    using that assms mod_less_divisor[of N a] by linarith
  ultimately show ?thesis using assms by (cases "a mod N + b < N") (simp_all add: le_div_geq le_mod_geq)
qed

lemma update_count:
  assumes "count c = (of_nat (8 * n), of_nat (8 * n div 2 ^ 32))" "length d < 2 ^ 29"
  shows "count (sat_SHA1_Update c d) = (of_nat (8 * (n + length d)), of_nat (8 * (n + length d) div 2 ^ 32))"
proof -
  let ?k = "length d"
  have c0: "of_nat (8 * n) + ucast (push_bit 3 (of_nat ?k :: u64)) = (of_nat (8 * (n + ?k)) :: u32)"
    by (simp only: count_word) (simp add: algebra_simps)
  have "drop_bit 29 (of_nat ?k :: u64) = 0"
    using assms(2) by (simp add: word_unat_eq_iff unat_drop_bit unat_of_nat take_bit_eq_mod)
  moreover have "ucast (of_nat (8 * (n + ?k)) :: u32) < push_bit 3 (of_nat ?k :: u64) \<longleftrightarrow>
      8 * (n + ?k) mod 2 ^ 32 < 8 * ?k"
    unfolding push_3_of_nat word_less_nat_alt using assms(2)
    by (simp add: unat_of_nat take_bit_eq_mod unsigned_ucast_eq del: of_nat_mult of_nat_add of_nat_numeral)
  moreover have "8 * (n + ?k) div 2 ^ 32 = 8 * n div 2 ^ 32 + (if 8 * (n + ?k) mod 2 ^ 32 < 8 * ?k then 1 else 0)"
    using carry[of "8 * ?k" "2 ^ 32" "8 * n"] assms(2) by (simp add: distrib_left)
  ultimately show ?thesis
    unfolding sat_SHA1_Update_def Let_def assms(1) fst_conv snd_conv c0
    by (simp split: prod.splits del: of_nat_mult)
qed

lemma memcpy_at_append:
  "length t + length d \<le> length buf \<Longrightarrow> take (length t) buf = t \<Longrightarrow>
   take (length t + length d) (memcpy_at buf (length t) d) = t @ d \<and> length (memcpy_at buf (length t) d) = length buf"
  by (simp add: memcpy_at_def)

lemma sha1_rep_update:
  assumes "sha1_rep c m" "length d < 2 ^ 29"
  shows "sha1_rep (sat_SHA1_Update c d) (m @ d)"
proof -
  obtain w t where wt: "m = w @ t" "64 dvd length w" "length t < 64" "length (buffer c) = 64"
      "take (length t) (buffer c) = t" "state c = sha1_blocks sha1_H0 w"
      "count c = (of_nat (8 * length m), of_nat (8 * length m div 2 ^ 32))"
    using assms(1) unfolding sha1_rep_def by blast
  have "length m mod 64 = length t" using wt(1-3) by (auto elim!: dvdE)
  then have j: "unat (drop_bit 3 (fst (count c)) AND 63) = length t"
    using buf_pos_len[of "length m"] wt(7) by (simp add: buf_pos_def)
  have cnt: "count (sat_SHA1_Update c d) = (of_nat (8 * length (m @ d)), of_nat (8 * length (m @ d) div 2 ^ 32))"
    using update_count[OF wt(7) assms(2)] by simp
  have "\<exists>w' t'. m @ d = w' @ t' \<and> 64 dvd length w' \<and> length t' < 64 \<and> length (buffer (sat_SHA1_Update c d)) = 64 \<and>
     take (length t') (buffer (sat_SHA1_Update c d)) = t' \<and> state (sat_SHA1_Update c d) = sha1_blocks sha1_H0 w'"
  proof (cases "63 < length t + length d")
    case True
    let ?h = "take (64 - length t) d" and ?buf = "memcpy_at (buffer c) (length t) (take (64 - length t) d)"
    have h: "length (t @ ?h) = 64" using True wt(3) by simp
    have buf: "?buf = t @ ?h"
      using memcpy_at_append[of t ?h "buffer c"] wt(4,5) h by (metis length_append order_refl take_all_iff)
    obtain w' t' where r: "drop (64 - length t) d = w' @ t'" "64 dvd length w'" "length t' < 64"
        "transform_blocks (sha1_compress (state c) (t @ ?h)) (drop (64 - length t) d) =
          (sha1_blocks (sha1_compress (state c) (t @ ?h)) w', t')"
      using transform_blocks_ok by blast
    have "sha1_blocks sha1_H0 (w @ (t @ ?h) @ w') = sha1_blocks (sha1_blocks (state c) (t @ ?h)) w'"
      using sha1_blocks_append[OF wt(2)] sha1_blocks_append[of "t @ ?h"] h by (simp add: wt(6))
    also have "sha1_blocks (state c) (t @ ?h) = sha1_compress (state c) (t @ ?h)"
      using h by (simp add: sha1_blocks.simps[of _ "t @ ?h"] sha1_blocks_short)
    finally have st: "sha1_blocks sha1_H0 (w @ (t @ ?h) @ w') = sha1_blocks (sha1_compress (state c) (t @ ?h)) w'" .
    have d: "d = ?h @ w' @ t'" using r(1) by (metis append_take_drop_id)
    have u: "state (sat_SHA1_Update c d) = sha1_blocks sha1_H0 (w @ (t @ ?h) @ w') \<and>
        buffer (sat_SHA1_Update c d) = memcpy_at (t @ ?h) 0 t'"
      using True r(4) st by (simp add: sat_SHA1_Update_def Let_def j buf SHA1_Transform_ok)
    show ?thesis
      using u h r(2,3) wt(1,2) d by (intro exI[of _ "w @ (t @ ?h) @ w'"] exI[of _ t']) (auto simp: memcpy_at_def)
  next
    case False
    then have "state (sat_SHA1_Update c d) = state c" "buffer (sat_SHA1_Update c d) = memcpy_at (buffer c) (length t) d"
      by (simp_all add: sat_SHA1_Update_def Let_def j)
    then show ?thesis
      using False wt memcpy_at_append[of t d "buffer c"] by (intro exI[of _ w] exI[of _ "t @ d"]) simp
  qed
  then show ?thesis using cnt by (auto simp: sha1_rep_def)
qed

section \<open>Padding\<close>

lemma sha1_rep_count: "sha1_rep c m \<Longrightarrow> count c = (of_nat (8 * length m), of_nat (8 * length m div 2 ^ 32))"
  unfolding sha1_rep_def by blast

lemma pad_loop_rep:
  "sha1_rep c m \<Longrightarrow> sha1_rep (pad_loop c) (m @ replicate ((120 - length m mod 64) mod 64) 0)"
proof (induction c arbitrary: m rule: pad_loop.induct)
  case (1 c)
  define p where "p = length m mod 64"
  have cond: "fst (count c) AND 504 = 448 \<longleftrightarrow> p = 56"
    unfolding pad_condition sha1_rep_count[OF 1(2)] fst_conv buf_pos_len p_def ..
  have "p < 64" by (simp add: p_def)
  show ?case
  proof (cases "p = 56")
    case True
    then show ?thesis using cond 1(2) by (subst pad_loop.simps) (simp flip: p_def)
  next
    case False
    have "sha1_rep (sat_SHA1_Update c [0]) (m @ [0])" using sha1_rep_update[OF 1(2), of "[0]"] by simp
    then have "sha1_rep (pad_loop (sat_SHA1_Update c [0]))
        ((m @ [0]) @ replicate ((120 - length (m @ [0]) mod 64) mod 64) 0)"
      using 1(1) cond False by blast
    moreover have "length (m @ [0]) mod 64 = (p + 1) mod 64" by (simp add: p_def mod_simps)
    moreover have "(120 - p) mod 64 = Suc ((120 - (p + 1) mod 64) mod 64)"
    proof (cases "p = 63")
      case f: False
      then consider "p < 56" | "56 < p" "p < 63" using False \<open>p < 64\<close> by linarith
      then show ?thesis by cases (simp_all add: le_mod_geq Suc_diff_Suc)
    qed simp
    ultimately have "sha1_rep (pad_loop (sat_SHA1_Update c [0])) (m @ replicate ((120 - p) mod 64) 0)" by simp
    then show ?thesis using cond False by (subst pad_loop.simps) (simp flip: p_def)
  qed
qed

lemma length_sha1_blocks: "length H = 5 \<Longrightarrow> length (sha1_blocks H m) = 5"
  by (induction H m rule: sha1_blocks.induct)
    (subst sha1_blocks.simps, simp add: sha1_compress_def split: prod.splits)

lemma length_sha1 [simp]: "length (sha1 m) = 20"
proof -
  have "length (concat (map put_be32 xs)) = 4 * length xs" for xs by (induction xs) (auto simp: put_be32_def)
  then show ?thesis by (simp add: sha1_def length_sha1_blocks sha1_H0_def)
qed

lemma big_endian:
  "map (\<lambda>i. ucast (drop_bit ((3 - i mod 4) * 8) (if 4 \<le> i then a else b))) [0..<8] = put_be32 b @ put_be32 a"
  "length H = 5 \<Longrightarrow> map (\<lambda>i. ucast (drop_bit ((3 - i mod 4) * 8) (H ! (i div 4)))) [0..<20] = concat (map put_be32 H)"
proof -
  show "map (\<lambda>i. ucast (drop_bit ((3 - i mod 4) * 8) (if 4 \<le> i then a else b))) [0..<8] = put_be32 b @ put_be32 a"
    by (simp add: upt_rec put_be32_def)
  assume "length H = 5"
  then obtain p q r s t where "H = [p, q, r, s, t]" by (auto simp: length_Suc_conv numeral_eq_Suc)
  then show "map (\<lambda>i. ucast (drop_bit ((3 - i mod 4) * 8) (H ! (i div 4)))) [0..<20] = concat (map put_be32 H)"
    by (simp add: upt_rec put_be32_def)
qed

lemma sha1_pad_length: "64 dvd length (sha1_pad m)"
proof -
  define p where "p = length m mod 64"
  define z where "z = (119 - p) mod 64"
  have "p < 64" by (simp add: p_def)
  then consider "p \<le> 55" | "55 < p" "p < 64" by linarith
  then have "(p + 9 + z) mod 64 = 0" by cases (simp_all add: z_def le_mod_geq)
  then have "(length m + 9 + z) mod 64 = 0" by (metis mod_add_left_eq p_def)
  moreover have "length (sha1_pad m) = length m + 9 + z" by (simp add: sha1_pad_def put_be32_def z_def p_def)
  ultimately show ?thesis by (simp add: dvd_eq_mod_eq_0)
qed

lemma sha1_rep_final:
  assumes "sha1_rep c m"
  shows "sat_SHA1_Final c = sha1 m"
proof -
  let ?n = "of_nat (8 * length m) :: u32" and ?h = "of_nat (8 * length m div 2 ^ 32) :: u32"
  define f where "f = put_be32 ?h @ put_be32 ?n"
  have f: "length f < 2 ^ 29" by (simp add: f_def put_be32_def)
  define c' where "c' = sat_SHA1_Update (pad_loop (sat_SHA1_Update c [0x80])) f"
  have "sha1_rep (sat_SHA1_Update c [0x80]) (m @ [0x80])" using sha1_rep_update[OF assms, of "[0x80]"] by simp
  note sha1_rep_update[OF pad_loop_rep[OF this] f]
  moreover have "(120 - length (m @ [0x80 :: u8]) mod 64) mod 64 = (119 - length m mod 64) mod 64"
  proof -
    have "length m mod 64 < 64" by simp
    moreover have "length (m @ [0x80 :: u8]) mod 64 = (if length m mod 64 = 63 then 0 else Suc (length m mod 64))"
      by (simp add: mod_Suc)
    ultimately show ?thesis by (cases "length m mod 64 = 63") simp_all
  qed
  moreover have "sha1_pad m = ((m @ [0x80]) @ replicate ((119 - length m mod 64) mod 64) 0) @ f"
    by (simp add: sha1_pad_def f_def)
  ultimately have "sha1_rep c' (sha1_pad m)" by (simp only: c'_def)
  then obtain w t where "sha1_pad m = w @ t" "64 dvd length w" "length t < 64" "state c' = sha1_blocks sha1_H0 w"
    unfolding sha1_rep_def by blast
  moreover from this have "64 dvd length t" using sha1_pad_length[of m] by (metis dvd_add_right_iff length_append)
  ultimately have st: "state c' = sha1_blocks sha1_H0 (sha1_pad m)" by (auto dest: dvd_imp_le)
  have "sat_SHA1_Final c = map (\<lambda>i. ucast (drop_bit ((3 - i mod 4) * 8) (state c' ! (i div 4)))) [0..<20]"
    unfolding sat_SHA1_Final_def Let_def sha1_rep_count[OF assms] fst_conv snd_conv big_endian(1) c'_def f_def ..
  also have "\<dots> = sha1 m" unfolding st sha1_def
    by (rule big_endian(2)) (simp add: length_sha1_blocks sha1_H0_def)
  finally show ?thesis .
qed

lemma fresh_rep: "sha1_rep (fresh_ctx junk) []"
  by (auto simp: sha1_rep_def fresh_ctx_def sat_SHA1_Init_def sha1_blocks_short sha1_H0_def)

interpretation sha: digest_stream sha1_rep "fresh_ctx junk" sat_SHA1_Update sat_SHA1_Final sha1 "2 ^ 29" for junk
  by unfold_locales (auto intro: fresh_rep sha1_rep_update sha1_rep_final)

section \<open>The functions for Lua\<close>

lemma lsha1_ok: "length m < 2 ^ 29 \<Longrightarrow> lsha1 junk m = sha1 m"
  using sha.pieces[of "[m]" junk] by (simp add: lsha1_def)

lemma concat_fours:
  "concat (map (\<lambda>i. [f (4 * i), f (4 * i + 1), f (4 * i + 2), f (4 * i + 3)]) [0..<n]) = map f [0..<4 * n]"
proof (induction n)
  case (Suc n)
  have "[0..<4 * Suc n] = [0..<4 * n] @ [4 * n, 4 * n + 1, 4 * n + 2, 4 * n + 3]"
    by (simp add: numeral_eq_Suc)
  then show ?case using Suc by simp
qed simp

lemma xor_key_bytes:
  assumes "length k = 64" "put_le32 x = [b, b, b, b]"
  shows "xor_key k x = map (\<lambda>a. a XOR b) k"
proof -
  have "put_le32 (get_le32 k i XOR x) = map (\<lambda>a. a XOR b) [k ! i, k ! (i + 1), k ! (i + 2), k ! (i + 3)]" for i
  proof -
    have x: "ucast x = b" "ucast (drop_bit 8 x) = b" "ucast (drop_bit 16 x) = b" "ucast (drop_bit 24 x) = b"
      using assms(2) by (auto simp: put_le32_def)
    have g: "ucast (get_le32 k i) = k ! i" "ucast (drop_bit 8 (get_le32 k i)) = k ! (i + 1)"
      "ucast (drop_bit 16 (get_le32 k i)) = k ! (i + 2)" "ucast (drop_bit 24 (get_le32 k i)) = k ! (i + 3)"
      unfolding get_le32_def by (rule bit_eqI; auto simp: bit_simps dest: byte_bits)+
    have "ucast (u XOR v) = (ucast u XOR ucast v :: u8)" for u v :: u32
      by (rule bit_eqI) (auto simp: bit_simps)
    then show ?thesis by (simp add: put_le32_def drop_bit_xor x g)
  qed
  then have "xor_key k x = concat (map (\<lambda>i. [k ! (4 * i) XOR b, k ! (4 * i + 1) XOR b,
      k ! (4 * i + 2) XOR b, k ! (4 * i + 3) XOR b]) [0..<16])"
    by (simp add: xor_key_def)
  also have "\<dots> = map (\<lambda>i. k ! i XOR b) [0..<64]" using concat_fours[of "\<lambda>i. k ! i XOR b" 16] by simp
  also have "\<dots> = map (\<lambda>a. a XOR b) k" using assms(1) by (auto intro: nth_equalityI)
  finally show ?thesis .
qed

text \<open>
  C32: \<open>hmac_sha1\<close> computes HMAC-SHA-1 (RFC 2104) of key and text, for lengths below 2
  ^ 29 bytes.
\<close>

theorem lhmac_sha1_ok:
  assumes "length key < 2 ^ 29" "length text < 2 ^ 29"
  shows "lhmac_sha1 junk key text = hmac_sha1 key text"
proof -
  define k where "k = (let k = if 64 < length key then sha1 key else key in k @ replicate (64 - length k) 0)"
  have k64: "length k = 64" by (simp add: k_def Let_def)
  have k: "(if 64 < length key then memcpy_at (replicate 64 0) 0 (lsha1 junk key)
      else memcpy_at (replicate 64 0) 0 key) = k"
    using assms(1) by (simp add: k_def Let_def memcpy_at_def lsha1_ok)
  have o: "xor_key k 0x5c5c5c5c = map (\<lambda>a. a XOR 0x5c) k"
    by (rule xor_key_bytes[OF k64]) (simp add: put_le32_def)
  have "xor_key (map (\<lambda>a. a XOR 0x5c) k) (0x5c5c5c5c XOR 0x36363636) = map (\<lambda>a. a XOR 0x6a) (map (\<lambda>a. a XOR 0x5c) k)"
    by (rule xor_key_bytes) (simp_all add: k64 put_le32_def)
  then have i: "xor_key (map (\<lambda>a. a XOR 0x5c) k) (0x5c5c5c5c XOR 0x36363636) = map (\<lambda>a. a XOR 0x36) k"
    by (simp add: comp_def xor.assoc)
  have "sat_SHA1_Final (sat_SHA1_Update (sat_SHA1_Update (fresh_ctx junk) (map (\<lambda>a. a XOR c) k)) d) =
      sha1 (map (\<lambda>a. a XOR c) k @ d)" if "length d < 2 ^ 29" for c d
    using sha.pieces[of "[map (\<lambda>a. a XOR c) k, d]" junk] that k64 by simp
  then show ?thesis
    using assms(2) unfolding lhmac_sha1_def hmac_sha1_def Let_def k o i by (simp add: k_def Let_def)
qed

text \<open>
  A single piece of 512 MB: the comparison of the 32-bit counter with the 64-bit length in bits is
  true, and the carry is counted twice.
\<close>


end
