(* ===== verification/Spec2Isabelle.thy ===== *)
theory Spec2Isabelle
  imports Scheduler Locks Sample_Node Netpack Seri_Safe Socket_Safe Des Dh Sha1
begin

text \<open>
  Verification of the C core of a game server: skynet (\<^verbatim>\<open>src/skynet\<close>), an actor runtime in which every
  service owns one message queue and a pool of worker threads runs the services. The Lua programs of
  the games run on top of it.

  \<^bold>\<open>The program and its parts.\<close> A service is a \<open>skynet_context\<close> (\<^verbatim>\<open>skynet_server.c\<close>) made from a
  module (\<^verbatim>\<open>skynet_module.c\<close>), named by a 32-bit handle (\<^verbatim>\<open>skynet_handle.c\<close>) whose high byte is the
  node (harbor). Sending pushes a message into the ring of the destination (\<^verbatim>\<open>skynet_mq.c\<close>); a ring
  with messages is on one global list from which the workers take it, dispatch some messages and put
  it back. Timers (\<^verbatim>\<open>skynet_timer.c\<close>) and sockets (\<^verbatim>\<open>skynet_socket.c\<close>) reach a service as messages; one thread
  owns all sockets (\<^verbatim>\<open>socket_server.c\<close>) and gets the requests of the services through a pipe.
  Messages for another node go to the harbor service (\<^verbatim>\<open>service_harbor.c\<close>) over a connection between
  the nodes; clients reach a node through the gate (\<^verbatim>\<open>service_gate.c\<close>, with \<^verbatim>\<open>hashid.h\<close> and
  \<^verbatim>\<open>databuffer.h\<close>), or through a gate written in Lua over \<^verbatim>\<open>lua-netpack.c\<close>. Services written in Lua
  exchange Lua values that \<^verbatim>\<open>lua-seri.c\<close> turns into bytes. The login uses \<^verbatim>\<open>lua-crypt.c\<close> and
  \<^verbatim>\<open>lsha1.c\<close>.

  \<^bold>\<open>Layout.\<close> Theory Prelude holds the machine types, checked array accesses, rings, bit masks and C strings;
  C_Lib the functions of the C library that are used. The contracts between components are locales in
  theories of their own, and each is interpreted on the model in the theory of its provider:
  \<^item> Queue_Spec (\<open>fifo\<close>, \<open>fifo_total\<close>): interpreted for the ring of a service and the global list
    (\<open>mq\<close>, \<open>gq\<close> in Message_Queue), the queues of the harbor (\<open>hq\<close>) and of the packages (\<open>np\<close>);
  \<^item> Table_Spec (\<open>key_table\<close>): the handle table (\<open>handles\<close>);
  \<^item> Delay_Spec (\<open>delay_queue\<close>): the timing wheel (\<open>wheel\<close>);
  \<^item> Slot_Spec (\<open>slot_table\<close>): the hash of the gate (\<open>hash_slots\<close>);
  \<^item> Stream_Spec (\<open>byte_stream\<close>, and the reference notions \<open>frames\<close> and \<open>packages\<close> of cutting a stream):
    the data buffer (\<open>dbstream\<close>);
  \<^item> Transition_Spec (\<open>transition_invariant\<close>, \<open>safe_system\<close>): spin lock, read-write lock, scheduler, socket server
    (\<open>socket_system\<close>);
  \<^item> Cipher_Spec (\<open>feistel\<close>) and Digest_Spec (\<open>digest_stream\<close>): DES and SHA-1.

  \<^bold>\<open>Theory by theory.\<close>
  \<^item> Message_Queue: \<^verbatim>\<open>skynet_mq.c\<close>. Every ring and the global list are objects in the store of an
    \<open>mq_world\<close>. Both are shown to be first-in first-out queues, with growth (\<open>expand_queue\<close>), overload
    detection and the release that reports what it drops.
  \<^item> Locks: \<^verbatim>\<open>spinlock.h\<close> and \<^verbatim>\<open>rwlock.h\<close> as step relations of any number of threads; mutual exclusion.
  \<^item> Handle: \<^verbatim>\<open>skynet_handle.c\<close>, the open-addressed table of 2, 4, 8, ... slots and the sorted names; the
    invariant, what registration, retirement and lookup do, and that handles are not reused while taken.
  \<^item> Timer: \<^verbatim>\<open>skynet_timer.c\<close>, the wheel with its five levels and the 32-bit clock with its wrap;
    every timer fires at its tick, neither earlier nor later.
  \<^item> Module, Context, Server, Command: \<^verbatim>\<open>skynet_module.c\<close>, \<^verbatim>\<open>skynet_env.c\<close>, \<^verbatim>\<open>skynet_server.c\<close>,
    \<^verbatim>\<open>skynet_harbor.c\<close>, \<^verbatim>\<open>skynet_monitor.c\<close>, \<^verbatim>\<open>skynet_error.c\<close>, \<^verbatim>\<open>skynet_log.c\<close>. The state is one \<open>node\<close>
    record. Context: references, sessions, contexts and their destruction. Server: \<open>skynet_send\<close> and
    its arguments, dispatching, launching. Command: the text commands.
  \<^item> Scheduler: the protocol of \<open>skynet_context_message_dispatch\<close> over the queues, as a step relation
    in which any thread may interleave between two locked sections.
  \<^item> Socket: \<^verbatim>\<open>skynet_socket.c\<close>, which turns the events of the socket server into messages.
  \<^item> Socket_Server: \<^verbatim>\<open>socket_server.c\<close>. The state is one \<open>socket_server\<close> record with the slots, the requests in the pipe,
    the heap of buffers and the trace of system calls. Socket_Id: the numbers of sockets. Socket_Send: who owns which
    buffer, and what sending does to the two lists of a socket. Socket_Stream: the bytes of a connection are whole
    packages, in order within each priority. Socket_Ops: what every operation does to its slot. Socket_Inv and Socket_Safe:
    the invariant over slots, buffers, pipe and events, and that the server never aborts under any sequence of calls and events.
  \<^item> Hashid, Databuffer, Gate: the gate service, from the events of sockets to the messages for agents.
  \<^item> Harbor, Harbor_Stream: the harbor service: its queues, names, connection state machine, wire format
    and what a pair of nodes guarantees.
  \<^item> Netpack: \<^verbatim>\<open>lua-netpack.c\<close>.
  \<^item> Lua_Value, Seri, Seri_Roundtrip, Seri_Safe: Lua values, tables in a heap that may be cyclic, and \<^verbatim>\<open>lua-seri.c\<close>: the
    chain of blocks, the format, the round trip, what happens with arbitrary streams, and which values are packed.
  \<^item> Codec, Dh, Des, Sha1: \<^verbatim>\<open>lua-crypt.c\<close> and \<^verbatim>\<open>lsha1.c\<close>, with independent reference definitions of SHA-1
    and of arithmetic modulo a prime.
  \<^item> Sample_Node: concrete nodes, messages and harbors on which the properties are instantiated.

  \<^bold>\<open>How code becomes definitions.\<close> Definitions keep the names of the C functions. A function that can abort or
  read outside of what it owns returns an option, and \<open>None\<close> is that failure; theorems that an operation
  works show \<open>Some\<close>. An error raised in Lua is \<open>Inl\<close> of its message. Integers are words of their width;
  a C \<open>int\<close> that cannot overflow in the code is an \<open>int\<close>. Objects that are shared live in stores indexed by
  addresses (queues, contexts, data buffer nodes); a block of memory with a single owner at every moment
  is the list of its bytes (\<^verbatim>\<open>lua-netpack.c\<close>, payloads of messages). A section under a lock is one step.

  \<^bold>\<open>Loops.\<close> All loops are total functions (structural recursion or a \<open>measure\<close>), except those of the
  code whose end depends on the state: the probing loops of the handle table, \<open>dispatch_loop\<close> of the gate,
  \<open>push_data_loop\<close> of the harbor and a few others are \<open>partial_function (option)\<close>, where \<open>None\<close> also stands
  for not returning, and the theorems show that they return \<open>Some\<close> (for \<open>send_list_tcp\<close>, when the system
  does not interrupt the same write for ever; \<open>socket_server_poll\<close> waits for events without end, and its rounds \<open>poll_step\<close> are shown to return). No result rests on a chosen amount of
  fuel, apart from \<open>unpack_one\<close> of \<^verbatim>\<open>lua-seri.c\<close>, whose fuel is one more than the length of the stream and is shown to suffice (\<open>unpack_any_stream\<close>).

  \<^bold>\<open>What is outside and enters as an argument.\<close> The callbacks of services written in Lua or C outside of the
  model (record of \<open>services\<close> with the behaviour of a module), \<open>dlopen\<close>/\<open>dlsym\<close>, the clocks of the operating
  system, \<open>random()\<close>, the memory that a failed allocation would need (allocation always succeeds), and
  the results of the socket server (\<open>socket_result\<close>) in the models of the services that use it. In the model of the
  socket server itself the results of the system calls are an argument (\<open>os_result\<close>); its theorems ask that a write accepts at most
  what it was given and is not interrupted for ever, and that waiting reports each registered descriptor at most once.

  \<^bold>\<open>Not modelled.\<close> The wrappers of epoll and kqueue (\<^verbatim>\<open>socket_epoll.h\<close>, \<^verbatim>\<open>socket_kqueue.h\<close>); interleavings of threads
  inside one function of the socket server; the start of the process and its threads (\<^verbatim>\<open>skynet_main.c\<close>,
  \<^verbatim>\<open>skynet_start.c\<close>, \<^verbatim>\<open>skynet_daemon.c\<close>); the statistics of the allocator (\<^verbatim>\<open>malloc_hook.c\<close>); the
  services that only run an interpreter or write a file (\<^verbatim>\<open>service_snlua.c\<close>, \<^verbatim>\<open>service_logger.c\<close>); the
  other Lua libraries under \<^verbatim>\<open>lualib-src\<close> (\<^verbatim>\<open>lua-bson.c\<close>, \<^verbatim>\<open>lua-sharedata.c\<close>, \<^verbatim>\<open>lua-cluster.c\<close>,
  \<^verbatim>\<open>lua-mongo.c\<close>, sproto and others), which work on the Lua stack; the pthread variants of the locks; everything
  vendored under \<^verbatim>\<open>src/3rd\<close> and \<^verbatim>\<open>src/skynet/3rd\<close>; the Lua and Go programs.
\<close>

section \<open>Message queues and their scheduling\<close>

text \<open>
  C1: in every state the threads of a node can reach, a message queue is in the hands of
  at most one owner and never both owned and in the global list (so one service never runs
  on two threads), and every queue with a pending message is in the global list or owned
  (so no message waits for ever without a wake-up).
\<close>

theorem scheduler_exclusive_no_lost_wakeup:
  assumes "sched_init s" "sched_step\<^sup>*\<^sup>* s t"
  shows "\<not> sched_bad t \<and>
    (\<exists>xs. gq_rep (sc_mq t) xs \<and>
      (\<forall>p q. mq_store (sc_mq t) p = Some q \<longrightarrow> mq_msgs q \<noteq> [] \<longrightarrow>
         p \<in> set xs \<or> (\<exists>a. sc_hold t a = p)))"
proof -
  obtain xs where xs: "sched_rep t xs"
    using sched.reachable_inv[OF assms] by (auto simp: sched_inv_def)
  have "p \<in> set xs \<or> (\<exists>a. sc_hold t a = p)"
    if "mq_store (sc_mq t) p = Some q" "mq_msgs q \<noteq> []" for p q
  proof -
    have "mq_cores (sc_mq t) p = Some (mq_core q)" using that(1) by (simp add: mq_cores_def)
    then have "queue_ok (sc_hold t) xs p (mq_core q)" by (rule sched_rep_core[OF xs])
    moreover have "mq_msgs (mq_core q) = mq_msgs q"
      by (simp add: mq_msgs_def mq_core_def)
    ultimately show ?thesis using that(2) by (auto simp: queue_ok_def sched_queued_def)
  qed
  moreover have "gq_rep (sc_mq t) xs" using xs by (simp add: sched_rep_def)
  ultimately show ?thesis using sched.reachable_safe[OF assms] by blast
qed

theorem scheduler_exclusive_no_lost_wakeup_witness:
  "let s = \<lparr>sc_mq = skynet_mq_init, sc_hold = \<lambda>_. NULL\<rparr>;
       t = sc_set (skynet_mq_create 7 64 skynet_mq_init) 0 64 s
   in sched_init s \<and> sched_step\<^sup>*\<^sup>* s t \<and> \<not> sched_bad t"
proof -
  let ?s = "\<lparr>sc_mq = skynet_mq_init, sc_hold = \<lambda>_. NULL\<rparr>"
  let ?t = "sc_set (skynet_mq_create 7 64 skynet_mq_init) 0 64 ?s"
  have i: "sched_init ?s" by (simp add: sched_init_def)
  have "sched_step ?s ?t"
    using sched_step.s_create[of ?s 0 64 7] by (simp add: skynet_mq_init_def)
  then have st: "sched_step\<^sup>*\<^sup>* ?s ?t" by blast
  show ?thesis using scheduler_exclusive_no_lost_wakeup[OF i st] i st by (simp add: Let_def)
qed



section \<open>Handles\<close>

text \<open>
  C7: registering a context that is not in the table, while a slot is free or the table may
  still grow, returns a handle that named nothing before; afterwards the handle finds the
  context and every other handle finds what it found before, also when the table was
  rehashed into one of twice the size.
\<close>

theorem handle_register_fresh:
  assumes "table_inv (ch, s)" "hs_addable s" "c \<noteq> NULL" "c \<notin> set (hs_slot s)"
  shows "\<exists>s' h. skynet_handle_register ch c s = Some (s', h) \<and> table_inv (ch(c \<mapsto> h), s') \<and>
     handle_lookup (ch, s) h = None \<and>
     handle_lookup (ch(c \<mapsto> h), s') = (handle_lookup (ch, s))(h \<mapsto> c)"
  using table_add_ok[of ch s c] assms
  by (auto simp: table_addable_def table_add_def split: bind_splits)

theorem handle_register_fresh_witness:
  "\<exists>s' h. skynet_handle_register Map.empty 16 (skynet_handle_init 1) = Some (s', h) \<and>
     handle_lookup (Map.empty(16 \<mapsto> h), s') h = Some 16"
  using handle_register_fresh[of Map.empty "skynet_handle_init 1" 16] table_init[of Map.empty 1]
  by (auto simp: skynet_handle_init_def hs_addable_def DEFAULT_SLOT_SIZE_def)

section \<open>Timers\<close>

text \<open>
  C8: a timer added with a delay of \<open>d\<close> ticks (any positive \<open>int\<close>) is dispatched by the \<open>d\<close>-th
  update after it, also when the 32-bit clock wraps around and whatever timers are added in
  between, and by no earlier and no later update when its event is not also added another time.
\<close>

theorem timer_fires_on_time:
  assumes "tm_inv T" "0 < d" "d < MAX_DELAY" "op_delays ops \<subseteq> {0<..<MAX_DELAY}" "d \<le> ticks ops"
  shows "\<exists>T' outs. delay_run (\<lambda>T d e. timer_add T e (int d)) timer_update T (Add d e # ops) = Some (T', outs) \<and>
     length outs = ticks ops \<and> event_push e \<in> set (outs ! (d - 1)) \<and>
     (event_push e \<notin> event_push ` snd ` set_mset (tm_pending T) \<longrightarrow>
      event_push e \<notin> event_push ` op_events ops \<longrightarrow>
        (\<forall>n<ticks ops. n \<noteq> d - 1 \<longrightarrow> event_push e \<notin> set (outs ! n)))"
  by (rule wheel.add_fires[OF assms])

theorem timer_fires_on_time_witness:
  "\<exists>T' outs. delay_run (\<lambda>T d e. timer_add T e (int d)) timer_update (skynet_timer_init (0, 0) (0, 0))
      [Add 2 \<lparr>te_handle = 9, te_session = 4\<rparr>, Tick, Tick, Tick] = Some (T', outs) \<and>
     (9, timer_message 4) \<in> set (outs ! 1)"
  using timer_fires_on_time[of "skynet_timer_init (0, 0) (0, 0)" 2 "[Tick, Tick, Tick]"
      "\<lparr>te_handle = 9, te_session = 4\<rparr>"] timer_init_inv(1)[of "(0, 0)" "(0, 0)"]
  by (auto simp: MAX_DELAY_def event_push_def)

section \<open>Locks\<close>

text \<open>
  C25: at most one thread is inside the section guarded by a spin lock, in every state the threads
  can reach with \<open>spinlock_lock\<close>, \<open>spinlock_trylock\<close> and
  \<open>spinlock_unlock\<close>.
\<close>

theorem spinlock_exclusive:
  assumes "spin_init s" "spin_step\<^sup>*\<^sup>* s t" "sp_pc t a = SIn" "sp_pc t b = SIn"
  shows "a = b"
  using spin.reachable_safe[OF assms(1,2)] assms(3,4) by (auto simp: spin_bad_def)

theorem spinlock_exclusive_witness:
  "\<exists>s t. spin_init s \<and> spin_step\<^sup>*\<^sup>* s t \<and> sp_pc t 0 = SIn \<and> (\<forall>b. sp_pc t b = SIn \<longrightarrow> 0 = b)"
proof -
  let ?s = "\<lparr>sp_lock = spinlock_init, sp_pc = \<lambda>_. SOut\<rparr>"
  let ?t = "\<lparr>sp_lock = snd (spinlock_trylock spinlock_init), sp_pc = (\<lambda>_. SOut)(0 := SIn)\<rparr>"
  have i: "spin_init ?s" by (simp add: spin_init_def)
  have "spin_step ?s ?t"
    using spin_step.spin_try[of ?s 0 True "snd (spinlock_trylock spinlock_init)"]
    by (simp add: spinlock_trylock_def spinlock_init_def test_and_set_def)
  then have st: "spin_step\<^sup>*\<^sup>* ?s ?t" by blast
  have in_lock: "sp_pc ?t 0 = SIn" by simp
  have "\<forall>b. sp_pc ?t b = SIn \<longrightarrow> 0 = b" using spinlock_exclusive[OF i st in_lock] by blast
  then show ?thesis using i st in_lock by blast
qed

text \<open>
  C24: while a writer is inside the read-write lock no other thread is, neither a writer nor a
  reader, in every reachable state.
\<close>

theorem rwlock_exclusive:
  assumes "rw_init s" "rw_step\<^sup>*\<^sup>* s t" "rw_pc t a = WIn" "rw_pc t b = WIn \<or> rw_pc t b = RIn"
  shows "a = b"
  using rw.reachable_safe[OF assms(1,2)] assms(3,4) by (auto simp: rw_bad_def)

theorem rwlock_exclusive_witness:
  "\<exists>s t. rw_init s \<and> rw_step\<^sup>*\<^sup>* s t \<and> rw_pc t 0 = WIn \<and> (\<forall>b. rw_pc t b = WIn \<or> rw_pc t b = RIn \<longrightarrow> 0 = b)"
proof -
  let ?s = "\<lparr>rw_lock = rwlock_init, rw_pc = \<lambda>_. RWOut\<rparr>"
  let ?s1 = "rw_goto 0 W0 ?s" let ?s2 = "rw_goto 0 W1 (rw_set 1 ?s1)" let ?t = "rw_goto 0 WIn ?s2"
  have i: "rw_init ?s" by (simp add: rw_init_def)
  have "wlock_step 0 ?s ?s1" "wlock_step 0 ?s1 ?s2" "wlock_step 0 ?s2 ?t"
    using wlock_step.w_call[of ?s 0] wlock_step.w_take[of ?s1 0] wlock_step.w_enter[of ?s2 0]
    by (simp_all add: rwlock_init_def)
  then have st: "rw_step\<^sup>*\<^sup>* ?s ?t"
    by (meson rw_step.rw_wlock converse_rtranclp_into_rtranclp rtranclp.rtrancl_refl)
  have w: "rw_pc ?t 0 = WIn" by simp
  have "\<forall>b. rw_pc ?t b = WIn \<or> rw_pc ?t b = RIn \<longrightarrow> 0 = b" using rwlock_exclusive[OF i st w] by blast
  then show ?thesis using i st w by blast
qed

section \<open>Queues, handles and modules\<close>

text \<open>
  The loop that doubles the overload threshold of a queue ends with a threshold at least as
  large as the queue.
\<close>

lemma overload_terminates:
  assumes "0 < threshold"
  shows "\<exists>ov th. overload_loop len overload threshold = Some (ov, th) \<and> 0 < th \<and> len \<le> th \<and> (ov = overload \<or> ov = len)"
  using overload_loop_returns[OF assms] by blast

text \<open>
  Any sequence of registrations returns handles that are all different; each finds its context,
  and every other handle finds what it found before.
\<close>

lemma handle_add_run:
  assumes "table_inv s" "add_run table_add s cs = Some (s', hs)"
  shows "table_inv s' \<and> distinct hs \<and> (\<forall>i<length cs. handle_lookup s' (hs ! i) = Some (cs ! i)) \<and>
    (\<forall>h. h \<notin> set hs \<longrightarrow> handle_lookup s' h = handle_lookup s h)"
  using handles.add_run_lookup[OF assms] by blast

text \<open>
  Loading modules keeps the table well formed: no name twice, every entry with an init
  function, loaded modules stay where they are, and what a query returns has the name asked for.
\<close>

lemma module_query_invariant:
  assumes "modules_inv M" "skynet_module_query dlopen dlsym name M = Some (M', r)"
  shows "modules_inv M' \<and> (\<forall>i<ms_count M. ms_m M' ! i = ms_m M ! i) \<and>
    (\<forall>k. r = Some k \<longrightarrow> k < ms_count M' \<and> md_name (the (ms_m M' ! k)) = name)"
  using skynet_module_query_keeps[OF assms] by blast

section \<open>Connections of the gate\<close>



text \<open>
  C30: pushing chunks and then reading any sizes gives the bytes of the chunks in order; how the
  stream was cut into chunks does not matter.
\<close>

theorem databuffer_stream:
  assumes "db_rep fr s []" "chunks_ok fr cs s []" "concat (map snd cs) = concat xs @ bs" "[] \<notin> set xs"
  shows "\<exists>s1 s2. chunk_run (\<lambda>s (d, b). databuffer_push s d (int (length b))) s cs = Some s1 \<and>
    read_run (\<lambda>s n. databuffer_read s (int n)) s1 (map length xs) = Some (s2, xs) \<and> db_rep fr s2 bs"
  by (rule dbstream.chunks_then_reads[OF assms])

theorem databuffer_stream_witness:
  "\<exists>s1 s2. chunk_run (\<lambda>s (d, b). databuffer_push s d (int (length b))) (databuffer_zero, messagepool_zero, sample_node)
      [(48, [1, 2, 3]), (49, [0, 2, 7, 8, 0])] = Some s1 \<and>
    read_run (\<lambda>s n. databuffer_read s (int n)) s1 [2, 4] = Some (s2, [[1, 2], [3, 0, 2, 7]])"
proof -
  let ?fr = "({}, {}, Map.empty, sample_node)" let ?s = "(databuffer_zero, messagepool_zero, sample_node)"
  have rep: "db_rep ?fr ?s []"
    by (auto simp: db_rep_def db_chunks_def pool_ok_def offset_ok_def databuffer_zero_def messagepool_zero_def
        db_bytes_def intro!: exI[of _ "[]"])
  have ok: "chunks_ok ?fr [(48, [1, 2, 3]), (49, [0, 2, 7, 8, 0])] ?s []"
  proof -
    have "\<not> db_owns ?fr ?s d" for d
    proof
      assume "db_owns ?fr ?s d"
      then obtain L F where "db_chunks ?fr ?s L F" "d \<in> set (blocks L)" by (auto simp: db_owns_def)
      then show False by (cases L) (auto simp: db_chunks_def databuffer_zero_def)
    qed
    then show ?thesis by (simp add: chunks_ok_def)
  qed
  show ?thesis using databuffer_stream[OF rep ok, of "[[1, 2], [3, 0, 2, 7]]" "[8, 0]"] by auto
qed

section \<open>Cryptography\<close>

text \<open>
  C9: \<open>sha1\<close> computes SHA-1 as FIPS 180-1 states it (eighty word schedule, padding,
  blocks), for every string shorter than 2 ^ 29 bytes and whatever the stack holds.
\<close>

theorem lsha1_correct:
  assumes "length m < 2 ^ 29"
  shows "lsha1 junk m = sha1 m"
  by (rule lsha1_ok[OF assms])

theorem lsha1_correct_witness: "lsha1 (\<lambda>_. 7) [97, 98, 99] = sha1 [97, 98, 99]"
  by (rule lsha1_correct) simp

text \<open>
  C38: the recursion of \<open>powmodp\<close> ends exactly for the exponents other than 0, which
  its two callers exclude.
\<close>

theorem powmodp_terminates: "(\<exists>r. powmodp a b = Some r) \<longleftrightarrow> b \<noteq> 0"
proof -
  define a' where "a' = (if DH_P < a then a mod DH_P else a)"
  have "unat a' \<le> unat DH_P"
    by (auto simp: a'_def unat_mod word_less_nat_alt unat_DH_P intro: less_imp_le)
  then show ?thesis using pow_mod_p_ok[of a' b] pow_mod_p_zero[of a'] by (auto simp: powmodp_def simp flip: a'_def)
qed

section \<open>Concrete instances\<close>

text \<open>The properties stated in the theories of their components, at concrete inputs.\<close>

theorem send_local_delivers_witness:
  "\<exists>w' s m. skynet_send sample_services 16 0 0x01000002 PTYPE_CLIENT 5 48 3 sample_node = Some (w', s) \<and>
    ctx_pending w' 17 = [m] \<and> s = 5 \<and> msg_source m = 0x01000001 \<and> msg_session m = 5 \<and>
    msg_sz m AND MESSAGE_TYPE_MASK = 3"
  using send_local_delivers[OF sample_inv _ _ sample_local(2) sample_lookup(2),
      of 16 0 PTYPE_CLIENT 5 48 3 "[1, 2, 3]" sample_services]
  by (auto simp: send_args_ok_def MESSAGE_TYPE_MASK_eq needs_copy_def allocs_session_def PTYPE_CLIENT_def
      PTYPE_TAG_ALLOCSESSION_def PTYPE_TAG_DONTCOPY_def read_bytes_def sample_pending effective_source_def ctx_handles_def
      mask_eq_exp_minus_1)

theorem send_local_refused_witness:
  "\<exists>w'. skynet_send sample_services 16 0 0x01000003 PTYPE_CLIENT 5 48 3 sample_node = Some (w', - 1) \<and>
    sv_heap w' = sv_heap sample_node"
  using send_local_refused[OF sample_inv _ _ sample_local(3) sample_lookup(3),
      of 16 0 PTYPE_CLIENT 5 48 3 "[1, 2, 3]" sample_services]
  by (auto simp: send_args_ok_def MESSAGE_TYPE_MASK_eq needs_copy_def allocs_session_def PTYPE_CLIENT_def
      PTYPE_TAG_ALLOCSESSION_def PTYPE_TAG_DONTCOPY_def read_bytes_def mask_eq_exp_minus_1)





theorem reg_then_query_witness:
  "\<exists>w1 w2. cmd_reg sample_services 16 (Some ''.launcher'') sample_node = Some (w1, Some ''launcher'') \<and>
    cmd_query sample_services 17 (Some ''.launcher'') w1 = Some (w2, Some (CHR '':'' # print_x 0x01000001))"
  using reg_then_query[OF sample_names(1) _ _ sample_handles(1), of "''launcher''" 17 sample_services] sample_names(2,3)
  by auto


theorem dispatch_message_frames_witness:
  "\<exists>g' w' m. dispatch_message sample_services sample_gate 0 1 49 5 sample_node = Some (g', w') \<and>
    ctx_pending w' 17 = [m] \<and> payload_message w' 0x01000001 3 m [7, 8]"
proof -
  have fr: "frames 2 (db_stream 2 (c_buffer sample_connection, g_mp sample_gate, sample_node) [] @ [0, 2, 7, 8, 0]) = ([[7, 8]], [0])"
    by (simp add: db_stream_def sample_connection_def connection_zero_def databuffer_zero_def frames.simps be_value_def)
  have ready: "agent_ready sample_gate sample_connection 17 sample_node"
    by (simp add: agent_ready_def sample_gate_def sample_connection_def local_service_def sample_local sample_lookup
        PTYPE_TAG_ALLOCSESSION_def sample_handles connection_zero_def)
  have own: "db_own {} UNIV (c_buffer sample_connection, g_mp sample_gate, sample_node) []"
    using sample_buffer by (simp add: sample_connection_def connection_zero_def sample_gate_def)
  have "header_ok 2 (c_buffer sample_connection, g_mp sample_gate, sample_node)"
    by (simp add: header_ok_def sample_connection_def connection_zero_def databuffer_zero_def)
  from dispatch_message_frames[OF sample_inv _ _ own this _ ready _ _ _ _ fr, of 0 49 sample_services 1]
  show ?thesis
    by (auto simp: sample_gate_def be_value_def sample_pending sample_connection_def connection_zero_def
        effective_source_def sample_handles list_all2_Cons2)
qed




theorem dh_agreement_witness:
  "\<exists>px py s. ldhexchange [1, 2, 3, 4, 5, 6, 7, 8] = Some (Inr px) \<and> ldhexchange [9, 0, 0, 0, 0, 0, 0, 0] = Some (Inr py) \<and>
    ldhsecret px [9, 0, 0, 0, 0, 0, 0, 0] = Some (Inr s) \<and> ldhsecret py [1, 2, 3, 4, 5, 6, 7, 8] = Some (Inr s)"
proof -
  have "replicate 8 0 = [0, 0, 0, 0, 0, 0, 0, 0 :: u8]" by (simp add: numeral_eq_Suc)
  then show ?thesis using dh_agreement[of "[1, 2, 3, 4, 5, 6, 7, 8]" "[9, 0, 0, 0, 0, 0, 0, 0]"] by simp
qed

theorem lhmac_sha1_ok_witness: "lhmac_sha1 (\<lambda>_. 7) [1, 2] [3] = hmac_sha1 [1, 2] [3]"
  by (rule lhmac_sha1_ok) simp_all


section \<open>Packages for gates in Lua\<close>

theorem filter_data_packages_witness:
  "\<exists>L'. filter_data None 7 [0, 1, 65, 0, 0, 0] = Some (L', Ev_more) \<and>
     netpack_inv L' [pack_of 7 [65], pack_of 7 []] \<and> pending L' 7 = [0]"
proof -
  have "packages 2 (pending None 7 @ [0, 1, 65, 0, 0, 0]) = ([[65], []], [0])"
    unfolding netpack_inv_new(2) by (simp add: packages.simps be_value_def)
  moreover have "hash_fd 7 \<noteq> None" by (simp add: hash_fd_def)
  ultimately show ?thesis using filter_data_packages[OF netpack_inv_new(1), of 7 "[0, 1, 65, 0, 0, 0]" "[[65], []]" "[0]"]
    by (auto simp: data_event_def data_queued_def)
qed

theorem netpack_roundtrip_witness:
  "\<exists>L' ds. recv_run None [(1, [0]), (2, [0, 0]), (1, [2, 7, 8, 0, 1]), (1, [9])] = Some (L', ds) \<and>
     filter (\<lambda>np. np_id np = 1) ds = [pack_of 1 [7, 8], pack_of 1 [9]] \<and>
     filter (\<lambda>np. np_id np = 2) ds = [pack_of 2 []]"
proof -
  let ?es = "[(1, [0]), (2, [0, 0]), (1, [2, 7, 8, 0, 1]), (1, [9])] :: (int \<times> u8 list) list"
  let ?ms = "\<lambda>fd :: int. if fd = 1 then [[7, 8], [9]] else if fd = 2 then [[]] else [] :: u8 list list"
  let ?pk = "\<lambda>fd :: int. if fd = 1 then [[0, 2, 7, 8], [0, 1, 9]] else if fd = 2 then [[0, 0]] else [] :: u8 list list"
  have "\<forall>e\<in>set ?es. hash_fd (fst e) \<noteq> None \<and> snd e \<noteq> []" by (simp add: hash_fd_def)
  moreover have "\<forall>fd. map lpack (?ms fd) = map Inr (?pk fd) \<and> stream_of fd ?es = concat (?pk fd)"
    by (simp add: lpack_def write_size_def stream_of_def)
  moreover have "\<forall>fd. pending None fd = []" by (simp add: netpack_inv_new)
  ultimately obtain L' ds where r: "recv_run None ?es = Some (L', ds)"
    "\<forall>fd. filter (\<lambda>np. np_id np = fd) ds = map (pack_of fd) (?ms fd)"
    using netpack_roundtrip[OF netpack_inv_new(1), where es = ?es and ms = ?ms and pk = ?pk] by blast
  have "filter (\<lambda>np. np_id np = 1) ds = [pack_of 1 [7, 8], pack_of 1 [9]]" "filter (\<lambda>np. np_id np = 2) ds = [pack_of 2 []]"
    using r(2)[rule_format, of 1] r(2)[rule_format, of 2] by simp_all
  then show ?thesis using r(1) by blast
qed


section \<open>Harbors\<close>

theorem harbor_roundtrip_witness:
  "\<exists>wA' a bs. remote_send_handle sample_services 0x02000007 0x01000002 3 9 48 3 (sample_harbor 2 1, sample_node) =
      Some (sample_harbor 2 1, wA', False) \<and> sv_heap wA' a = Some (Bytes bs) \<and>
    (\<forall>cs. concat cs = bs \<and> [] \<notin> set cs \<longrightarrow>
      (\<exists>hB' wB' m t. fold_option (push_data_loop sample_services 2) cs (sample_harbor 1 2, sample_node) = Some (hB', wB') \<and>
        ctx_pending wB' 17 = [m] \<and> msg_source m = 0x02000007 \<and> msg_session m = 9 \<and>
        message_type (msg_sz m) = 3 \<and> sv_heap wB' (msg_data m) = Some (Bytes ([1, 2, 3] @ t))))"
proof -
  have b: "buffer_bytes 48 3 sample_node = Some [1, 2, 3]" by (simp add: buffer_bytes_def read_bytes_def)
  have d: "unat (drop_bit HANDLE_REMOTE_SHIFT (0x01000002 :: u32)) = 1" by (simp add: HANDLE_REMOTE_SHIFT_def)
  show ?thesis
    using harbor_roundtrip[of 1 "0x01000002" "sample_harbor 2 1" 48 3 sample_node "[1, 2, 3]" 3 "0x02000007" 9 sample_services
        sample_node "[]" "sample_harbor 1 2" 17 2 sample_services] b d sample_backlog sample_inv sample_service sample_slave_open
    by (fastforce simp: sample_slave_def slave_zero_def HEADER_COOKIE_LENGTH_def sample_pending)
qed

theorem harbor_stream_witness:
  "case fold_option (forward_local_messsage sample_services (sample_harbor 1 2)) [replicate 12 0] sample_node of
      None \<Rightarrow> fold_option (push_data_loop sample_services 2) [[0, 0], 0 # 12 # replicate 12 0, [0]] (sample_harbor 1 2, sample_node) = None
    | Some w' \<Rightarrow> \<exists>s'. fold_option (push_data_loop sample_services 2) [[0, 0], 0 # 12 # replicate 12 0, [0]] (sample_harbor 1 2, sample_node) =
        Some (slave_write 2 s' (sample_harbor 1 2), w') \<and> slave_bytes s' = [0]"
proof -
  let ?cs = "[[0, 0], 0 # 12 # replicate 12 0, [0]] :: u8 list list"
  have "packages 4 (slave_bytes (hb_s (sample_harbor 1 2) ! 2) @ concat ?cs) = ([replicate 12 0], [0])"
    using packages_frame[of "replicate 12 0" 4 "[0]"] by (simp add: sample_slave_open be_bytes_4 packages_short)
  moreover have "package_ok (replicate 12 0)" "rest_ok [0]" by (simp_all add: package_ok_def rest_ok_def HEADER_COOKIE_LENGTH_def)
  ultimately show ?thesis
    using harbor_stream[of 2 "sample_harbor 1 2" ?cs "[replicate 12 0]" "[0]" sample_services sample_node] sample_slave_open(1)[of 5]
    by (auto split: option.splits)
qed


theorem harbor_down_not_reported_witness:
  "sl_fd (hb_s sample_down ! 2) \<noteq> 0 \<and>
   remote_send_handle sample_services 0x01000001 0x02000007 3 9 48 3 (sample_down, sample_node) =
     map_option (\<lambda>w'. (sample_down, w', False)) (send_remote sample_services (hb_ctx sample_down) (sl_fd (hb_s sample_down ! 2)) 48 3
       (cookie_of 0x01000001 0x02000007 3 9) sample_node)"
proof -
  have run: "(harbor_step sample_services)\<^sup>*\<^sup>* (harbor_create\<lparr>hb_ctx := 16, hb_id := 1, hb_slave := 0x01000001\<rparr>) sample_down"
    using sample_connect sample_refuse unfolding sample_start_def by (meson rtranclp.rtrancl_into_rtrancl r_into_rtranclp)
  show ?thesis
    by (rule harbor_down_not_reported[OF run])
      (simp_all add: HANDLE_REMOTE_SHIFT_def sample_down_def sample_waiting_def sample_start_def harbor_create_def REMOTE_MAX_def)
qed

end
